(* ===== verification/Prelude.thy ===== *)
theory Prelude
  imports Main "HOL-Library.Word"
begin

text \<open>
  Shared vocabulary of the development: the outcome of a Go call (a value or a panic), 64-bit
  signed integers, byte slices with Go's bounds checks and \<open>copy\<close>, the errors of the Go standard
  library that the components return, and the generic list lemmas their proofs use.
\<close>

subsection \<open>Collections of facts\<close>

named_theorems go_defs \<open>definitions of the Go run-time vocabulary (slices, copy, bind)\<close>
named_theorems list_slice \<open>rewriting of slices built from take and drop\<close>

subsection \<open>Panics and the sequencing of calls that may panic\<close>

text \<open>
  A Go call either returns or panics. \<open>Inl\<close> is the panic, \<open>Inr\<close> the value, and \<open>go_bind\<close> runs
  the rest of the function only after a call that returned. \<open>Diverges\<close> stands for a loop that
  never ends, so that a proof that a call returns \<open>Inr\<close> excludes that too.
\<close>

datatype panic =
    IndexOutOfRange
  | SliceBounds
  | DivideByZero
  | NilDereference
  | Panicked string
  | Diverges

type_synonym 'a go = "panic + 'a"

definition go_bind :: "'a go \<Rightarrow> ('a \<Rightarrow> 'b go) \<Rightarrow> 'b go" where
  "go_bind m f = (case m of Inl p \<Rightarrow> Inl p | Inr x \<Rightarrow> f x)"

lemma go_bind_simps [simp]:
  "go_bind (Inl p) f = Inl p"
  "go_bind (Inr x) f = f x"
  by (simp_all add: go_bind_def)

lemma go_bind_InrE:
  assumes "go_bind m f = Inr y"
  obtains x where "m = Inr x" and "f x = Inr y"
  using assms by (cases m) auto

lemma go_bind_assoc: "go_bind (go_bind m f) g = go_bind m (\<lambda>x. go_bind (f x) g)"
  by (cases m) auto

subsection \<open>Errors of the standard library\<close>

datatype go_error =
    EOF
  | ErrShortBuffer
  | ErrShortWrite
  | ErrClosed
  | ErrIsEmpty
  | OtherError string

subsection \<open>Values of type any\<close>

text \<open>The dynamic values the configuration and the SQL builder pass around.\<close>

datatype any = NilVal | StrVal string | IntVal int | BoolVal bool

subsection \<open>64-bit signed integers\<close>

text \<open>\<open>go_int\<close> is the value of a Go \<open>int\<close> or \<open>int64\<close> after an operation whose exact result is
  its argument: two's complement wrap-around at 64 bits.\<close>

definition go_int :: "int \<Rightarrow> int" where
  "go_int x = (x + 2 ^ 63) mod 2 ^ 64 - 2 ^ 63"

lemma go_int_id: "- (2 ^ 63) \<le> x \<Longrightarrow> x < 2 ^ 63 \<Longrightarrow> go_int x = x"
  by (simp add: go_int_def)

lemma go_int_range: "- (2 ^ 63) \<le> go_int x \<and> go_int x < 2 ^ 63"
proof -
  have "0 \<le> (x + 2 ^ 63) mod 2 ^ 64" and "(x + 2 ^ 63) mod 2 ^ 64 < (2 ^ 64 :: int)"
    by simp_all
  then show ?thesis by (simp add: go_int_def)
qed

lemma go_int_sint: "go_int x = sint (word_of_int x :: 64 word)"
proof -
  have "sint (word_of_int x :: 64 word) = signed_take_bit 63 x"
    by (simp add: sint_uint unsigned_of_int signed_take_bit_take_bit)
  also have "\<dots> = go_int x"
    by (simp add: signed_take_bit_eq_take_bit_shift take_bit_eq_mod go_int_def)
  finally show ?thesis ..
qed

subsection \<open>Byte slices\<close>

type_synonym byte = "8 word"

text \<open>
  \<open>go_slice xs i j\<close> is \<open>xs[i:j]\<close>. Go checks \<open>i \<le> j\<close> and \<open>j\<close> against the capacity; the model
  checks \<open>j\<close> against the length, which is smaller, so that a call that does not panic in the model
  does not panic in the program.
\<close>

definition go_slice :: "'a list \<Rightarrow> nat \<Rightarrow> nat \<Rightarrow> 'a list go" where
  "go_slice xs i j = (if i \<le> j \<and> j \<le> length xs then Inr (drop i (take j xs)) else Inl SliceBounds)"

definition go_index :: "'a list \<Rightarrow> nat \<Rightarrow> 'a go" where
  "go_index xs i = (if i < length xs then Inr (xs ! i) else Inl IndexOutOfRange)"

definition go_set_index :: "'a list \<Rightarrow> nat \<Rightarrow> 'a \<Rightarrow> 'a list go" where
  "go_set_index xs i v = (if i < length xs then Inr (xs[i := v]) else Inl IndexOutOfRange)"

text \<open>\<open>a % b\<close> on non-negative values.\<close>

definition go_mod :: "nat \<Rightarrow> nat \<Rightarrow> nat go" where
  "go_mod a b = (if b = 0 then Inl DivideByZero else Inr (a mod b))"

text \<open>\<open>copy(dst, src)\<close> overwrites the first \<open>min(len(dst), len(src))\<close> elements of \<open>dst\<close>;
  \<open>go_copy_at dst i src\<close> is \<open>copy(dst[i:], src)\<close>.\<close>

definition go_copy :: "'a list \<Rightarrow> 'a list \<Rightarrow> 'a list" where
  "go_copy dst src = take (length dst) src @ drop (length src) dst"

definition go_copy_at :: "'a list \<Rightarrow> nat \<Rightarrow> 'a list \<Rightarrow> 'a list go" where
  "go_copy_at dst i src =
     (if i \<le> length dst then Inr (take i dst @ go_copy (drop i dst) src) else Inl SliceBounds)"

lemmas go_slice_defs [go_defs] = go_slice_def go_index_def go_set_index_def go_copy_at_def
  go_mod_def

lemma length_go_copy [simp]: "length (go_copy dst src) = length dst"
  by (simp add: go_copy_def min_def)

lemma go_copy_fits: "length src \<le> length dst \<Longrightarrow> go_copy dst src = src @ drop (length src) dst"
  by (simp add: go_copy_def)

lemma take_go_copy: "length src \<le> length dst \<Longrightarrow> take (length src) (go_copy dst src) = src"
  by (simp add: go_copy_def)

lemma go_copy_Nil [simp]: "go_copy dst [] = dst"
  by (simp add: go_copy_def)

subsection \<open>Slices of lists\<close>

lemma drop_take_append [list_slice]:
  "i \<le> j \<Longrightarrow> drop i (take j xs) @ drop j xs = drop i xs"
  by (metis append_take_drop_id drop_drop drop_take le_add_diff_inverse2)

lemma drop_take_length [list_slice]:
  "i \<le> j \<Longrightarrow> j \<le> length xs \<Longrightarrow> length (drop i (take j xs)) = j - i"
  by simp

lemma take_drop_take [list_slice]:
  "i + n \<le> j \<Longrightarrow> take n (drop i (take j xs)) = drop i (take (i + n) xs)"
  by (simp add: take_drop min_absorb1 add.commute)

lemma take_min_length: "take (min k (length xs)) xs = take k xs"
  by (simp add: min_def)

lemma drop_drop_take [list_slice]:
  "drop n (drop i (take j xs)) = drop (i + n) (take j xs)"
  by (simp add: add.commute)

lemma drop_min_length [simp]:
  "drop (min n (length xs)) xs = drop n xs" "drop (min (length xs) n) xs = drop n xs"
  by (simp_all add: min_def)

lemma go_copy_take [simp]: "go_copy dst (take (length dst) src) = go_copy dst src"
  by (simp add: go_copy_def)

end
