(* ===== verification/GoMath.thy ===== *)
theory GoMath
  imports Prelude
begin

text \<open>
  The integer helpers of \<^verbatim>\<open>contribute/agonet/pkg/math/math.go\<close> on a 64-bit platform, over the
  integers with Go's bitwise operations, and their characterisation by powers of two.
\<close>

unbundle bit_operations_syntax

subsection \<open>The functions\<close>

text \<open>\<open>bits.Len\<close> of the standard library: the number of bits needed to write its argument.\<close>

fun bits_Len :: "nat \<Rightarrow> nat" where
  "bits_Len n = (if n = 0 then 0 else Suc (bits_Len (n div 2)))"

declare bits_Len.simps [simp del]

definition maxintHeadBit :: int where
  "maxintHeadBit = 2 ^ 62"

definition IsPowerOfTwo :: "int \<Rightarrow> bool" where
  "IsPowerOfTwo n \<longleftrightarrow> n > 0 \<and> n AND (n - 1) = 0"

definition CeilToPowerOfTwo :: "int \<Rightarrow> int go" where
  "CeilToPowerOfTwo n =
     (if n AND maxintHeadBit \<noteq> 0 \<and> n > maxintHeadBit then Inl (Panicked ''argument is too large'')
      else if n \<le> 2 then Inr 2
      else Inr (push_bit (bits_Len (nat (n - 1))) 1))"

definition FloorToPowerOfTwo :: "int \<Rightarrow> int" where
  "FloorToPowerOfTwo n0 =
     (if n0 \<le> 2 then n0
      else let n1 = n0 OR drop_bit 1 n0;
               n2 = n1 OR drop_bit 2 n1;
               n3 = n2 OR drop_bit 4 n2;
               n4 = n3 OR drop_bit 8 n3;
               n5 = n4 OR drop_bit 16 n4
           in n5 - drop_bit 1 n5)"

definition ClosestPowerOfTwo :: "int \<Rightarrow> int go" where
  "ClosestPowerOfTwo n =
     go_bind (CeilToPowerOfTwo n)
       (\<lambda>next. let prev = next div 2 in Inr (if n - prev < next - n then prev else next))"

subsection \<open>The length of a number\<close>

lemma bits_Len_0 [simp]: "bits_Len 0 = 0"
  by (simp add: bits_Len.simps)

lemma bits_Len_upper: "n < 2 ^ bits_Len n"
proof (induction n rule: bits_Len.induct)
  case (1 n)
  show ?case
  proof (cases "n = 0")
    case False
    with 1 have "n div 2 < 2 ^ bits_Len (n div 2)" by blast
    then show ?thesis using False by (subst bits_Len.simps) auto
  qed simp
qed

lemma bits_Len_pos [simp]: "0 < bits_Len n \<longleftrightarrow> 0 < n"
  by (subst bits_Len.simps) simp

lemma bits_Len_lower: "n > 0 \<Longrightarrow> 2 ^ (bits_Len n - 1) \<le> n"
proof (induction n rule: bits_Len.induct)
  case (1 n)
  show ?case
  proof (cases "n div 2 = 0")
    case True
    with "1.prems" show ?thesis by (subst bits_Len.simps) simp
  next
    case False
    with 1 have IH: "2 ^ (bits_Len (n div 2) - 1) \<le> n div 2" by simp
    from False have "0 < bits_Len (n div 2)" by simp
    then obtain k where "bits_Len (n div 2) = Suc k"
      using gr0_implies_Suc by blast
    with IH "1.prems" show ?thesis by (subst bits_Len.simps) auto
  qed
qed

lemma bits_Len_le: "n < 2 ^ k \<Longrightarrow> bits_Len n \<le> k"
proof (cases "n = 0")
  case False
  assume "n < 2 ^ k"
  moreover from False have "2 ^ (bits_Len n - 1) \<le> n" by (intro bits_Len_lower) simp
  ultimately have "(2::nat) ^ (bits_Len n - 1) < 2 ^ k" by (rule order.strict_trans1 [rotated])
  then show ?thesis by (simp add: power_strict_increasing_iff)
qed simp

lemma bits_Len_le_iff: "bits_Len n \<le> k \<longleftrightarrow> n < 2 ^ k"
proof
  assume "bits_Len n \<le> k"
  then have "(2::nat) ^ bits_Len n \<le> 2 ^ k" by (rule power_increasing) simp
  with bits_Len_upper [of n] show "n < 2 ^ k" by (rule less_le_trans)
qed (rule bits_Len_le)

subsection \<open>Powers of two\<close>

lemma and_minus_one_power: "(2 ^ k :: int) AND (2 ^ k - 1) = 0"
  by (rule bit_eqI) (auto simp: bit_simps simp flip: mask_eq_exp_minus_1)

lemma power_of_two_if_and_minus_one:
  fixes n :: int
  assumes "n > 0" and "n AND (n - 1) = 0"
  shows "\<exists>k. n = 2 ^ k"
  using assms
proof (induction "nat n" arbitrary: n rule: less_induct)
  case less
  show ?case
  proof (cases "n = 1")
    case True
    then show ?thesis by (intro exI [of _ 0]) simp
  next
    case False
    show ?thesis
    proof (cases "even n")
      case True
      then obtain m where m: "n = 2 * m" by blast
      with less.prems have pos: "m > 0" by simp
      have "(2 * m - 1) div 2 = m - 1" by presburger
      then have "(n AND (n - 1)) div 2 = m AND (m - 1)"
        unfolding m by (simp add: and_int_rec [of "2 * m"])
      with less.prems(2) have "m AND (m - 1) = 0" by simp
      with less.hyps [of m] pos m obtain k where "m = 2 ^ k" by auto
      then show ?thesis unfolding m by (intro exI [of _ "Suc k"]) simp
    next
      case odd: False
      with False less.prems have "n - 1 > 0" "(n - 1) div 2 = n div 2" by presburger+
      with odd less.prems(2) have "n div 2 = 0 \<or> n = 1"
        by (subst (asm) and_int_rec) (auto split: if_splits)
      with odd less.prems(1) False show ?thesis by presburger
    qed
  qed
qed

lemma IsPowerOfTwo_iff: "IsPowerOfTwo n \<longleftrightarrow> (\<exists>k. n = 2 ^ k)"
  using power_of_two_if_and_minus_one [of n]
  by (auto simp: IsPowerOfTwo_def and_minus_one_power)

subsection \<open>Rounding up\<close>

lemma CeilToPowerOfTwo_small: "n \<le> 2 \<Longrightarrow> CeilToPowerOfTwo n = Inr 2"
  by (simp add: CeilToPowerOfTwo_def maxintHeadBit_def)

lemma CeilToPowerOfTwo_large:
  "2 < n \<Longrightarrow> n \<le> 2 ^ 62 \<Longrightarrow> CeilToPowerOfTwo n = Inr (2 ^ bits_Len (nat (n - 1)))"
  by (simp add: CeilToPowerOfTwo_def maxintHeadBit_def push_bit_eq_mult)

lemma CeilToPowerOfTwo_bounds:
  assumes "2 < n" and "n \<le> 2 ^ 62"
  defines "k \<equiv> bits_Len (nat (n - 1))"
  shows "n \<le> 2 ^ k" and "2 ^ k < 2 * n" and "1 \<le> k" and "k \<le> 62"
proof -
  have pos: "0 < nat (n - 1)" using assms(1) by simp
  have "nat (n - 1) < 2 ^ k" unfolding k_def by (rule bits_Len_upper)
  then have "int (nat (n - 1)) < int (2 ^ k)" by (rule of_nat_less_iff [THEN iffD2])
  with assms(1) show "n \<le> 2 ^ k" by simp
  from pos show k: "1 \<le> k" unfolding k_def by (simp add: Suc_le_eq)
  have "(2::nat) ^ (k - 1) \<le> nat (n - 1)" unfolding k_def by (rule bits_Len_lower [OF pos])
  then have "int (2 ^ (k - 1)) \<le> int (nat (n - 1))" by (rule of_nat_le_iff [THEN iffD2])
  then have "(2::int) ^ (k - 1) \<le> n - 1" using assms(1) by simp
  moreover have "(2::int) ^ k = 2 * 2 ^ (k - 1)" using k by (cases k) auto
  ultimately show "2 ^ k < 2 * n" by simp
  have "nat (n - 1) < 2 ^ 62" using assms(1,2) by simp
  then show "k \<le> 62" unfolding k_def by (rule bits_Len_le)
qed

lemma CeilToPowerOfTwo_ok:
  assumes "n \<le> 2 ^ 62"
  shows "\<exists>k. CeilToPowerOfTwo n = Inr (2 ^ k) \<and> n \<le> 2 ^ k \<and> 1 \<le> k \<and> k \<le> 62
           \<and> (\<forall>j. 1 \<le> j \<longrightarrow> n \<le> 2 ^ j \<longrightarrow> k \<le> j)"
proof (cases "n \<le> 2")
  case True
  then show ?thesis by (intro exI [of _ 1]) (simp add: CeilToPowerOfTwo_small)
next
  case False
  define k where "k = bits_Len (nat (n - 1))"
  have "k \<le> j" if "n \<le> 2 ^ j" for j
  proof -
    from that have "nat (n - 1) < 2 ^ j" using False by (simp add: nat_less_iff)
    then show ?thesis unfolding k_def by (rule bits_Len_le)
  qed
  with False assms CeilToPowerOfTwo_bounds [of n] show ?thesis
    by (intro exI [of _ k]) (simp add: CeilToPowerOfTwo_large k_def)
qed

lemma and_head_bit:
  fixes n :: int
  assumes "2 ^ 62 < n" and "n < 2 ^ 63"
  shows "n AND 2 ^ 62 \<noteq> 0"
proof -
  have "n div 2 ^ 62 = 1" using assms by (simp add: div_pos_geq)
  then have "bit n 62" by (simp add: bit_iff_odd)
  then have "bit (n AND 2 ^ 62) 62" by (simp add: bit_simps)
  then show ?thesis by (metis bit_0_eq bot_apply bot_bool_def)
qed

lemma CeilToPowerOfTwo_too_large:
  "2 ^ 62 < n \<Longrightarrow> n < 2 ^ 63 \<Longrightarrow> CeilToPowerOfTwo n = Inl (Panicked ''argument is too large'')"
  using and_head_bit [of n] by (simp add: CeilToPowerOfTwo_def maxintHeadBit_def)

subsection \<open>Rounding down\<close>

text \<open>One line of the bit smearing: after \<open>n |= n >> m\<close> a bit is set when it or the one \<open>m\<close> above
  it was.\<close>

definition smeared :: "int \<Rightarrow> nat \<Rightarrow> int \<Rightarrow> bool" where
  "smeared n m n' \<longleftrightarrow> (\<forall>i. bit n' i \<longleftrightarrow> (\<exists>j<m. bit n (i + j)))"

lemma smeared_start: "smeared n 1 n"
  by (simp add: smeared_def)

lemma smeared_step: "smeared n m n' \<Longrightarrow> smeared n (2 * m) (n' OR drop_bit m n')"
proof -
  assume h: "smeared n m n'"
  have "(\<exists>j<m. bit n (i + j)) \<or> (\<exists>j<m. bit n (i + m + j)) \<longleftrightarrow> (\<exists>j<2 * m. bit n (i + j))" for i
  proof safe
    fix j assume "j < m" "bit n (i + m + j)"
    then show "\<exists>j<2 * m. bit n (i + j)" by (intro exI [of _ "m + j"]) (simp add: add.assoc)
  next
    fix j assume j: "j < 2 * m" "bit n (i + j)" and no: "\<not> (\<exists>j<m. bit n (i + m + j))"
    have "j < m"
    proof (rule ccontr)
      assume "\<not> j < m"
      with j have "j - m < m \<and> bit n (i + m + (j - m))" by simp
      with no show False by blast
    qed
    with j show "\<exists>j<m. bit n (i + j)" by blast
  qed (metis less_le_trans le_add2 mult_2)
  with h show ?thesis by (simp add: smeared_def bit_simps add.commute add.left_commute)
qed

lemma smeared_32:
  "smeared n 32
     (let n1 = n OR drop_bit 1 n; n2 = n1 OR drop_bit 2 n1; n3 = n2 OR drop_bit 4 n2;
          n4 = n3 OR drop_bit 8 n3
      in n4 OR drop_bit 16 n4)"
proof -
  define n1 where "n1 = n OR drop_bit 1 n"
  define n2 where "n2 = n1 OR drop_bit 2 n1"
  define n3 where "n3 = n2 OR drop_bit 4 n2"
  define n4 where "n4 = n3 OR drop_bit 8 n3"
  have "smeared n 2 n1" unfolding n1_def using smeared_step [OF smeared_start [of n]] by simp
  then have "smeared n 4 n2" unfolding n2_def using smeared_step [of n 2 n1] by simp
  then have "smeared n 8 n3" unfolding n3_def using smeared_step [of n 4 n2] by simp
  then have "smeared n 16 n4" unfolding n4_def using smeared_step [of n 8 n3] by simp
  then have "smeared n 32 (n4 OR drop_bit 16 n4)" using smeared_step [of n 16 n4] by simp
  then show ?thesis by (simp only: Let_def n1_def n2_def n3_def n4_def)
qed

lemma smeared_mask:
  assumes "0 < n" and "n < 2 ^ 32" and "smeared n 32 n'"
  shows "n' = mask (bits_Len (nat n))"
proof (rule bit_eqI)
  fix i :: nat
  let ?L = "bits_Len (nat n)"
  have L32: "?L \<le> 32" using assms(1,2) by (intro bits_Len_le) simp
  have above: "\<not> bit n j" if "?L \<le> j" for j
  proof -
    have "nat n < 2 ^ j" using that by (simp add: bits_Len_le_iff)
    then have "n < 2 ^ j" using assms(1) by (simp add: nat_less_iff)
    then show ?thesis using assms(1) by (simp add: bit_iff_odd)
  qed
  have top: "bit n (?L - 1)"
  proof -
    have pos: "0 < nat n" using assms(1) by simp
    then obtain k where k: "?L = Suc k" using gr0_implies_Suc by (metis bits_Len_pos)
    have "nat n < 2 ^ Suc k" using bits_Len_upper [of "nat n"] by (simp only: k)
    moreover have "2 ^ k \<le> nat n" using bits_Len_lower [OF pos] by (simp add: k)
    ultimately have "n < 2 ^ k + 2 ^ k" and "2 ^ k \<le> n"
      using assms(1) by (simp_all add: nat_less_iff le_nat_iff)
    then have "n div 2 ^ k = 1" by (simp add: div_pos_geq)
    then show ?thesis by (simp add: k bit_iff_odd)
  qed
  have pos: "0 < ?L" using assms(1) by simp
  show "bit n' i = bit (mask ?L :: int) i"
  proof (cases "i < ?L")
    case True
    then have "?L - 1 - i < 32 \<and> bit n (i + (?L - 1 - i))" using L32 top by simp
    then have "\<exists>j<32. bit n (i + j)" by blast
    with assms(3) True show ?thesis by (simp add: smeared_def bit_simps)
  next
    case False
    with above have "\<not> (\<exists>j<32. bit n (i + j))" by simp
    with assms(3) False show ?thesis by (simp add: smeared_def bit_simps)
  qed
qed

lemma FloorToPowerOfTwo_eq:
  assumes "2 < n" and "n < 2 ^ 32"
  shows "FloorToPowerOfTwo n = 2 ^ (bits_Len (nat n) - 1)"
proof -
  let ?L = "bits_Len (nat n)"
  define S where
    "S = (let n1 = n OR drop_bit 1 n; n2 = n1 OR drop_bit 2 n1; n3 = n2 OR drop_bit 4 n2;
              n4 = n3 OR drop_bit 8 n3
          in n4 OR drop_bit 16 n4)"
  have "S = mask ?L"
    unfolding S_def using smeared_mask [OF _ assms(2) smeared_32] assms(1) by linarith
  moreover have "FloorToPowerOfTwo n = S - drop_bit 1 S"
  proof -
    have "\<not> n \<le> 2" using assms(1) by linarith
    then show ?thesis unfolding FloorToPowerOfTwo_def S_def Let_def by (subst if_not_P) (assumption, rule refl)
  qed
  ultimately have "FloorToPowerOfTwo n = mask ?L - drop_bit 1 (mask ?L)" by (simp only:)
  also have "drop_bit 1 (mask ?L) = (mask (?L - 1) :: int)"
    by (rule bit_eqI) (auto simp: bit_simps)
  also have "mask ?L - mask (?L - 1) = (2 ^ (?L - 1) :: int)"
  proof -
    obtain k where "?L = Suc k" using assms(1) gr0_implies_Suc [of ?L] by auto
    then show ?thesis by (simp add: mask_eq_exp_minus_1)
  qed
  finally show ?thesis .
qed

subsection \<open>Properties\<close>

text \<open>For every argument up to \<open>2^62\<close> (negative ones included) \<open>CeilToPowerOfTwo\<close> returns the
  least power of two that is at least the argument and at least 2, and for every larger 64-bit
  argument it panics: the shift never overflows.\<close>

theorem CeilToPowerOfTwo_spec:
  assumes "n < 2 ^ 63"
  shows "if n \<le> 2 ^ 62
         then \<exists>k. CeilToPowerOfTwo n = Inr (2 ^ k) \<and> n \<le> 2 ^ k \<and> 1 \<le> k \<and> k \<le> 62
                \<and> (\<forall>j. 1 \<le> j \<longrightarrow> n \<le> 2 ^ j \<longrightarrow> k \<le> j)
         else CeilToPowerOfTwo n = Inl (Panicked ''argument is too large'')"
  using assms CeilToPowerOfTwo_ok [of n] CeilToPowerOfTwo_too_large [of n] by simp

theorem CeilToPowerOfTwo_spec_witness:
  "(1000 :: int) < 2 ^ 63 \<and> CeilToPowerOfTwo 1000 = Inr 1024
     \<and> (\<exists>k. CeilToPowerOfTwo 1000 = Inr (2 ^ k) \<and> 1000 \<le> (2::int) ^ k)"
proof -
  have h: "(1000 :: int) < 2 ^ 63" by simp
  have "CeilToPowerOfTwo 1000 = Inr 1024" by code_simp
  with h CeilToPowerOfTwo_spec [OF h] show ?thesis by auto
qed

text \<open>\<open>FloorToPowerOfTwo\<close> returns the largest power of two not above its argument for every
  argument between 3 and \<open>2^32 - 1\<close> (its five shifts cover 32 bits), and that power is a power of
  two for \<open>IsPowerOfTwo\<close>.\<close>

theorem FloorToPowerOfTwo_spec:
  assumes "2 < n" and "n < 2 ^ 32"
  shows "FloorToPowerOfTwo n \<le> n \<and> n < 2 * FloorToPowerOfTwo n \<and> IsPowerOfTwo (FloorToPowerOfTwo n)"
proof -
  let ?L = "bits_Len (nat n)"
  have pos: "0 < nat n" using assms(1) by simp
  then obtain k where k: "?L = Suc k" using gr0_implies_Suc by (metis bits_Len_pos)
  have "nat n < 2 ^ Suc k" using bits_Len_upper [of "nat n"] by (simp only: k)
  moreover have "2 ^ k \<le> nat n" using bits_Len_lower [OF pos] by (simp add: k)
  ultimately have "n < 2 * 2 ^ k" and "2 ^ k \<le> n"
    using assms(1) by (simp_all add: nat_less_iff le_nat_iff)
  with FloorToPowerOfTwo_eq [OF assms] show ?thesis
    by (simp add: k IsPowerOfTwo_iff)
qed

theorem FloorToPowerOfTwo_spec_witness:
  "(2::int) < 1000 \<and> (1000::int) < 2 ^ 32 \<and> FloorToPowerOfTwo 1000 = 512
     \<and> FloorToPowerOfTwo 1000 \<le> 1000 \<and> 1000 < 2 * FloorToPowerOfTwo 1000"
proof -
  have h: "(2::int) < 1000" "(1000::int) < 2 ^ 32" by simp_all
  have "FloorToPowerOfTwo 1000 = 512" by code_simp
  with h FloorToPowerOfTwo_spec [OF h] show ?thesis by simp
qed

text \<open>Above 32 bits the smearing leaves the low bits unset and the result is no power of two.\<close>

lemma FloorToPowerOfTwo_wide: "FloorToPowerOfTwo (2 ^ 40) = 2 ^ 40 - 2 ^ 8"
  by code_simp

end
