(* ===== verification/BytePool.thy ===== *)
theory BytePool
  imports GoMath
begin

text \<open>
  The pool of byte slices of \<^verbatim>\<open>contribute/agonet/pkg/pool/byteslice/byteslice.go\<close>: 32 size classes
  of recycled arrays, of which \<open>Get\<close> rebuilds a slice with \<open>unsafe.Slice\<close>. The invariant that makes
  this memory safe is that class \<open>idx\<close> only holds arrays of at least \<open>2^idx\<close> bytes. The locale
  \<open>byte_source\<close> is what the clients of the pool rely on, and the pool is an interpretation of it.
\<close>

subsection \<open>Slices with their capacity\<close>

text \<open>A slice is the array that starts at its pointer (the length of which is its capacity) and a
  length. The nil slice has an empty array.\<close>

record slice =
  sl_arr :: "byte list"
  sl_len :: nat

definition slice_bytes :: "slice \<Rightarrow> byte list" where
  "slice_bytes s = take (sl_len s) (sl_arr s)"

definition go_make :: "nat \<Rightarrow> nat \<Rightarrow> slice go" where
  "go_make len cap =
     (if len \<le> cap then Inr \<lparr>sl_arr = replicate cap 0, sl_len = len\<rparr> else Inl SliceBounds)"

text \<open>\<open>unsafe.Slice(ptr, k)\<close> on an array of fewer than \<open>k\<close> bytes reads beyond the allocation: the
  model makes that a failure of its own, since Go does not check it.\<close>

definition unsafe_Slice :: "byte list \<Rightarrow> nat \<Rightarrow> slice go" where
  "unsafe_Slice arr k =
     (if k \<le> length arr then Inr \<lparr>sl_arr = take k arr, sl_len = k\<rparr>
      else Inl (Panicked ''unsafe.Slice beyond the allocation''))"

definition reslice :: "slice \<Rightarrow> nat \<Rightarrow> slice go" where
  "reslice s n = (if n \<le> length (sl_arr s) then Inr (s\<lparr>sl_len := n\<rparr>) else Inl SliceBounds)"

subsection \<open>The pool\<close>

text \<open>\<open>sync.Pool\<close> may hand out any item that was put into it, or none at all (the garbage collector
  may have dropped it): the argument \<open>sel\<close> makes this choice.\<close>

type_synonym 'a selector = "'a list \<Rightarrow> nat option"

definition sync_Pool_Get :: "'a selector \<Rightarrow> 'a list \<Rightarrow> 'a option \<times> 'a list" where
  "sync_Pool_Get sel xs =
     (case sel xs of
        None \<Rightarrow> (None, xs)
      | Some i \<Rightarrow> if i < length xs then (Some (xs ! i), take i xs @ drop (Suc i) xs) else (None, xs))"

record Pool =
  pools :: "nat \<Rightarrow> byte list list"

definition builtinPool :: Pool where
  "builtinPool = \<lparr>pools = (\<lambda>_. [])\<rparr>"

definition MaxInt32 :: int where
  "MaxInt32 = 2 ^ 31 - 1"

definition pool_index :: "nat \<Rightarrow> nat" where
  "pool_index n = bits_Len ((n + 2 ^ 32 - 1) mod 2 ^ 32)"

definition Pool_Get :: "byte list selector \<Rightarrow> Pool \<Rightarrow> int \<Rightarrow> (slice \<times> Pool) go" where
  "Pool_Get sel p sz =
     (if sz \<le> 0 then Inr (\<lparr>sl_arr = [], sl_len = 0\<rparr>, p)
      else if sz > MaxInt32 then go_bind (go_make (nat sz) (nat sz)) (\<lambda>s. Inr (s, p))
      else
        let idx = pool_index (nat sz) in
        if idx \<ge> 32 then Inl IndexOutOfRange
        else
          let (ptr, rest) = sync_Pool_Get sel (pools p idx);
              p' = p\<lparr>pools := (pools p)(idx := rest)\<rparr>
          in case ptr of
               None \<Rightarrow> go_bind (go_make (nat sz) (2 ^ idx)) (\<lambda>s. Inr (s, p'))
             | Some a \<Rightarrow>
                 go_bind (unsafe_Slice a (2 ^ idx))
                   (\<lambda>s. go_bind (reslice s (nat sz)) (\<lambda>s'. Inr (s', p'))))"

definition Pool_Put :: "Pool \<Rightarrow> slice \<Rightarrow> Pool go" where
  "Pool_Put p buf =
     (let sz = length (sl_arr buf) in
      if sz = 0 \<or> int sz > MaxInt32 then Inr p
      else
        let idx0 = pool_index sz;
            idx = (if sz \<noteq> 2 ^ idx0 then idx0 - 1 else idx0)
        in if idx \<ge> 32 then Inl IndexOutOfRange
           else Inr (p\<lparr>pools := (pools p)(idx := sl_arr buf # pools p idx)\<rparr>))"

subsection \<open>The size classes\<close>

definition pool_inv :: "Pool \<Rightarrow> bool" where
  "pool_inv p \<longleftrightarrow> (\<forall>idx. \<forall>a\<in>set (pools p idx). 2 ^ idx \<le> length a)"

lemma pool_inv_builtin: "pool_inv builtinPool"
  by (simp add: pool_inv_def builtinPool_def)

lemma pool_index_eq: "0 < n \<Longrightarrow> n \<le> 2 ^ 32 \<Longrightarrow> pool_index n = bits_Len (n - 1)"
proof -
  assume "0 < n" "n \<le> 2 ^ 32"
  then have "n + 2 ^ 32 - 1 = (n - 1) + 2 ^ 32" and "n - 1 < 2 ^ 32" by auto
  then have "(n + 2 ^ 32 - 1) mod 2 ^ 32 = n - 1"
    by (simp only: mod_add_self2 mod_less)
  then show ?thesis by (simp add: pool_index_def)
qed

lemma pool_index_bounds:
  assumes "0 < n" and "n < 2 ^ 31"
  shows "pool_index n \<le> 31" and "n \<le> 2 ^ pool_index n"
    and "n \<noteq> 2 ^ pool_index n \<Longrightarrow> 0 < pool_index n \<and> 2 ^ (pool_index n - 1) \<le> n"
proof -
  have idx: "pool_index n = bits_Len (n - 1)" using assms by (intro pool_index_eq) auto
  show "pool_index n \<le> 31" unfolding idx using assms by (intro bits_Len_le) simp
  have upper: "n - 1 < 2 ^ bits_Len (n - 1)" by (rule bits_Len_upper)
  then show "n \<le> 2 ^ pool_index n" unfolding idx by linarith
  assume "n \<noteq> 2 ^ pool_index n"
  then have "n \<noteq> 1" unfolding idx by (metis bits_Len_0 diff_self_eq_0 power_0)
  with assms(1) have "0 < n - 1" by simp
  moreover from this have "2 ^ (bits_Len (n - 1) - 1) \<le> n - 1" by (rule bits_Len_lower)
  ultimately show "0 < pool_index n \<and> 2 ^ (pool_index n - 1) \<le> n" unfolding idx by simp
qed

lemma sync_Pool_Get_subset:
  assumes "sync_Pool_Get sel xs = (ptr, rest)"
  shows "set rest \<subseteq> set xs" and "ptr = Some a \<Longrightarrow> a \<in> set xs"
  using assms
  by (auto simp: sync_Pool_Get_def split: option.splits if_splits dest: in_set_takeD in_set_dropD)

lemma pool_inv_update: "pool_inv p \<Longrightarrow> \<forall>a\<in>set xs. 2 ^ idx \<le> length a \<Longrightarrow>
    pool_inv (p\<lparr>pools := (pools p)(idx := xs)\<rparr>)"
  by (auto simp: pool_inv_def)

lemma Pool_Get_ok:
  assumes inv: "pool_inv p"
  shows "\<exists>s p'. Pool_Get sel p sz = Inr (s, p') \<and> pool_inv p'
           \<and> sl_len s = nat sz \<and> sl_len s \<le> length (sl_arr s)"
proof -
  consider (nil) "sz \<le> 0" | (big) "sz > MaxInt32" | (mid) "0 < sz" "sz \<le> MaxInt32"
    by linarith
  then show ?thesis
  proof cases
    case nil
    with inv show ?thesis by (simp add: Pool_Get_def)
  next
    case big
    then show ?thesis using inv by (simp add: Pool_Get_def MaxInt32_def go_make_def)
  next
    case mid
    define idx where "idx = pool_index (nat sz)"
    have n: "0 < nat sz" "nat sz < 2 ^ 31" using mid by (auto simp: MaxInt32_def)
    have idx31: "idx < 32" and fits: "nat sz \<le> 2 ^ idx"
      using pool_index_bounds(1,2) [OF n] by (simp_all add: idx_def)
    obtain ptr rest where g: "sync_Pool_Get sel (pools p idx) = (ptr, rest)" by force
    have inv': "pool_inv (p\<lparr>pools := (pools p)(idx := rest)\<rparr>)"
      using inv sync_Pool_Get_subset(1) [OF g]
      by (intro pool_inv_update) (auto simp: pool_inv_def)
    show ?thesis
    proof (cases ptr)
      case None
      with mid idx31 fits g inv' show ?thesis
        by (simp add: Pool_Get_def Let_def flip: idx_def) (simp add: go_make_def)
    next
      case (Some a)
      with inv sync_Pool_Get_subset(2) [OF g] have "2 ^ idx \<le> length a"
        by (simp add: pool_inv_def)
      with Some mid idx31 fits g inv' show ?thesis
        by (simp add: Pool_Get_def Let_def flip: idx_def) (simp add: unsafe_Slice_def reslice_def)
    qed
  qed
qed

lemma Pool_Put_ok:
  assumes inv: "pool_inv p"
  shows "\<exists>p'. Pool_Put p buf = Inr p' \<and> pool_inv p'"
proof (cases "length (sl_arr buf) = 0 \<or> int (length (sl_arr buf)) > MaxInt32")
  case True
  with inv show ?thesis by (simp add: Pool_Put_def)
next
  case False
  define n where "n = length (sl_arr buf)"
  define idx where "idx = (if n \<noteq> 2 ^ pool_index n then pool_index n - 1 else pool_index n)"
  have n: "0 < n" "n < 2 ^ 31" using False by (auto simp: n_def MaxInt32_def)
  have "idx \<le> 31" and fits: "2 ^ idx \<le> n"
    using pool_index_bounds(1) [OF n] pool_index_bounds(3) [OF n] by (auto simp: idx_def)
  with inv have "pool_inv (p\<lparr>pools := (pools p)(idx := sl_arr buf # pools p idx)\<rparr>)"
    by (intro pool_inv_update) (auto simp: pool_inv_def n_def)
  with False \<open>idx \<le> 31\<close> show ?thesis
    by (auto simp: Pool_Put_def Let_def idx_def n_def)
qed

subsection \<open>What the clients of the pool rely on\<close>

locale byte_source =
  fixes get :: "nat \<Rightarrow> byte list"
  assumes length_get [simp]: "length (get n) = n"
begin

lemma get_0 [simp]: "get 0 = []"
  using length_get [of 0] by (simp del: length_get)

end

text \<open>The bytes a client finds in the slice it gets from a pool in state \<open>p\<close>.\<close>

definition pool_bytes :: "byte list selector \<Rightarrow> Pool \<Rightarrow> nat \<Rightarrow> byte list" where
  "pool_bytes sel p n = (case Pool_Get sel p (int n) of Inl _ \<Rightarrow> [] | Inr (s, _) \<Rightarrow> slice_bytes s)"

lemma length_pool_bytes: "pool_inv p \<Longrightarrow> length (pool_bytes sel p n) = n"
  using Pool_Get_ok [of p sel "int n"] by (auto simp: pool_bytes_def slice_bytes_def)

locale pool_state =
  fixes sel :: "byte list selector" and p :: Pool
  assumes inv: "pool_inv p"

sublocale pool_state \<subseteq> byte_source "pool_bytes sel p"
  by unfold_locales (rule length_pool_bytes [OF inv])

interpretation builtin: pool_state "\<lambda>xs. Some 0" builtinPool
  by unfold_locales (rule pool_inv_builtin)

lemma byte_source_pool_bytes: "pool_inv p \<Longrightarrow> byte_source (pool_bytes sel p)"
  by (simp add: byte_source_def length_pool_bytes)

subsection \<open>Properties\<close>

text \<open>From every pool reachable by \<open>Get\<close> and \<open>Put\<close>, whatever array \<open>sync.Pool\<close> picks, \<open>Get\<close>
  returns without panicking a slice of exactly the requested length that lies within its allocation
  (the \<open>unsafe.Slice\<close> of a recycled array included), and \<open>Put\<close> of any slice keeps the size classes
  such that this stays so.\<close>

theorem Pool_Get_Put_memory_safe:
  assumes "pool_inv p"
  shows "(\<exists>s p'. Pool_Get sel p sz = Inr (s, p') \<and> sl_len s = nat sz
            \<and> sl_len s \<le> length (sl_arr s) \<and> pool_inv p')
         \<and> (\<exists>p'. Pool_Put p buf = Inr p' \<and> pool_inv p')"
  using Pool_Get_ok [OF assms] Pool_Put_ok [OF assms] by blast

definition pool_example :: Pool where
  "pool_example = (case Pool_Put builtinPool \<lparr>sl_arr = replicate 6 7, sl_len = 6\<rparr> of
                     Inl _ \<Rightarrow> builtinPool | Inr p \<Rightarrow> p)"

lemma pool_inv_example: "pool_inv pool_example"
  using Pool_Put_ok [OF pool_inv_builtin, of "\<lparr>sl_arr = replicate 6 7, sl_len = 6\<rparr>"]
  by (auto simp: pool_example_def)

theorem Pool_Get_Put_memory_safe_witness:
  "pool_inv pool_example
     \<and> pool_bytes (\<lambda>xs. Some 0) pool_example 4 = [7, 7, 7, 7]
     \<and> (\<exists>s p'. Pool_Get (\<lambda>xs. Some 0) pool_example 4 = Inr (s, p') \<and> sl_len s = 4)"
proof (intro conjI)
  show "pool_inv pool_example" by (rule pool_inv_example)
  show "pool_bytes (\<lambda>xs. Some 0) pool_example 4 = [7, 7, 7, 7]"
  proof -
    have idx: "pool_index 6 = 3" "pool_index 4 = 2"
      by (simp_all add: pool_index_eq bits_Len.simps)
    have e: "pool_example = \<lparr>pools = (\<lambda>_. [])(2 := [replicate 6 7])\<rparr>"
      by (simp add: pool_example_def Pool_Put_def idx MaxInt32_def builtinPool_def)
    have "pool_bytes (\<lambda>xs. Some 0) pool_example 4 = take 4 (replicate 6 7)"
      by (simp add: e pool_bytes_def Pool_Get_def idx MaxInt32_def sync_Pool_Get_def
          unsafe_Slice_def reslice_def slice_bytes_def)
    also have "\<dots> = [7, 7, 7, 7]" by (simp add: numeral_eq_Suc)
    finally show ?thesis .
  qed
  show "\<exists>s p'. Pool_Get (\<lambda>xs. Some 0) pool_example 4 = Inr (s, p') \<and> sl_len s = 4"
    using Pool_Get_Put_memory_safe [OF pool_inv_example, of "\<lambda>xs. Some 0" 4 "\<lparr>sl_arr = [], sl_len = 0\<rparr>"] by auto
qed

end
