(* ===== verification/RingBuffer.thy ===== *)
theory RingBuffer
  imports BytePool
begin

text \<open>
  The circular byte buffer of \<^verbatim>\<open>contribute/agonet/pkg/buffer/ring/ring_buffer.go\<close>. Every method of
  \<open>Buffer\<close> is a function on the record \<open>Buffer\<close> (the positions are natural numbers, the sizes that
  \<open>grow\<close> computes are 64-bit integers), with Go's slice and index checks. The abstraction
  \<open>contents\<close> is the queue of bytes a buffer holds; the lemmas show that each method is the queue
  operation it means to be, that the representation invariant is kept and that no check fails.
  Memory comes from the slice pool, as an argument \<open>get\<close> that satisfies \<open>byte_source\<close>.
\<close>

subsection \<open>State\<close>

definition MinRead :: nat where "MinRead = 512"
definition DefaultBufferSize :: int where "DefaultBufferSize = 1024"
definition bufferGrowThreshold :: int where "bufferGrowThreshold = 4 * 1024"

record Buffer =
  rb_buf :: "byte list"
  rb_size :: nat
  rb_r :: nat
  rb_w :: nat
  rb_isEmpty :: bool

definition rb_New :: "(nat \<Rightarrow> byte list) \<Rightarrow> int \<Rightarrow> Buffer go" where
  "rb_New get sz =
     (if sz = 0 then Inr \<lparr>rb_buf = [], rb_size = 0, rb_r = 0, rb_w = 0, rb_isEmpty = True\<rparr>
      else go_bind (CeilToPowerOfTwo sz)
        (\<lambda>sz. Inr \<lparr>rb_buf = get (nat sz), rb_size = nat sz, rb_r = 0, rb_w = 0, rb_isEmpty = True\<rparr>))"

subsection \<open>Observers\<close>

definition rb_IsEmpty :: "Buffer \<Rightarrow> bool" where
  "rb_IsEmpty rb = rb_isEmpty rb"

definition rb_IsFull :: "Buffer \<Rightarrow> bool" where
  "rb_IsFull rb \<longleftrightarrow> rb_r rb = rb_w rb \<and> \<not> rb_isEmpty rb"

definition rb_Len :: "Buffer \<Rightarrow> nat" where
  "rb_Len rb = length (rb_buf rb)"

definition rb_Cap :: "Buffer \<Rightarrow> nat" where
  "rb_Cap rb = rb_size rb"

definition rb_Buffered :: "Buffer \<Rightarrow> nat" where
  "rb_Buffered rb =
     (if rb_r rb = rb_w rb then (if rb_isEmpty rb then 0 else rb_size rb)
      else if rb_w rb > rb_r rb then rb_w rb - rb_r rb
      else rb_size rb - rb_r rb + rb_w rb)"

definition rb_Available :: "Buffer \<Rightarrow> nat" where
  "rb_Available rb =
     (if rb_r rb = rb_w rb then (if rb_isEmpty rb then rb_size rb else 0)
      else if rb_w rb < rb_r rb then rb_r rb - rb_w rb
      else rb_size rb - rb_w rb + rb_r rb)"

definition rb_peekAll :: "Buffer \<Rightarrow> (byte list \<times> byte list) go" where
  "rb_peekAll rb =
     (if rb_isEmpty rb then Inr ([], [])
      else if rb_w rb > rb_r rb
      then go_bind (go_slice (rb_buf rb) (rb_r rb) (rb_w rb)) (\<lambda>head. Inr (head, []))
      else go_bind (go_slice (rb_buf rb) (rb_r rb) (length (rb_buf rb)))
        (\<lambda>head. if rb_w rb \<noteq> 0
                then go_bind (go_slice (rb_buf rb) 0 (rb_w rb)) (\<lambda>tail. Inr (head, tail))
                else Inr (head, [])))"

definition rb_Peek :: "Buffer \<Rightarrow> int \<Rightarrow> (byte list \<times> byte list) go" where
  "rb_Peek rb n =
     (if rb_isEmpty rb then Inr ([], [])
      else if n \<le> 0 then rb_peekAll rb
      else if rb_w rb > rb_r rb
      then let m0 = rb_w rb - rb_r rb;
               m = (if int m0 > n then nat n else m0)
           in go_bind (go_slice (rb_buf rb) (rb_r rb) (rb_r rb + m)) (\<lambda>head. Inr (head, []))
      else let m0 = rb_size rb - rb_r rb + rb_w rb;
               m = (if int m0 > n then nat n else m0)
           in if rb_r rb + m \<le> rb_size rb
              then go_bind (go_slice (rb_buf rb) (rb_r rb) (rb_r rb + m)) (\<lambda>head. Inr (head, []))
              else let c1 = rb_size rb - rb_r rb; c2 = m - c1
                   in go_bind (go_slice (rb_buf rb) (rb_r rb) (length (rb_buf rb)))
                        (\<lambda>head. go_bind (go_slice (rb_buf rb) 0 c2) (\<lambda>tail. Inr (head, tail))))"

definition rb_Bytes :: "Buffer \<Rightarrow> byte list go" where
  "rb_Bytes rb =
     (if rb_isEmpty rb then Inr []
      else if rb_w rb = rb_r rb
      then go_bind (go_slice (rb_buf rb) (rb_r rb) (length (rb_buf rb)))
             (\<lambda>a. go_bind (go_slice (rb_buf rb) 0 (rb_w rb)) (\<lambda>b. Inr (a @ b)))
      else if rb_w rb > rb_r rb then go_slice (rb_buf rb) (rb_r rb) (rb_w rb)
      else go_bind (go_slice (rb_buf rb) (rb_r rb) (length (rb_buf rb)))
             (\<lambda>a. if rb_w rb \<noteq> 0
                  then go_bind (go_slice (rb_buf rb) 0 (rb_w rb)) (\<lambda>b. Inr (a @ b))
                  else Inr a))"

subsection \<open>Consuming operations\<close>

definition rb_Reset :: "Buffer \<Rightarrow> Buffer" where
  "rb_Reset rb = rb\<lparr>rb_isEmpty := True, rb_r := 0, rb_w := 0\<rparr>"

definition rb_Discard :: "Buffer \<Rightarrow> int \<Rightarrow> (nat \<times> go_error option \<times> Buffer) go" where
  "rb_Discard rb n =
     (if n \<le> 0 then Inr (0, None, rb)
      else let discarded = rb_Buffered rb
           in if n < int discarded
              then go_bind (go_mod (rb_r rb + nat n) (rb_size rb))
                     (\<lambda>r'. Inr (nat n, None, rb\<lparr>rb_r := r'\<rparr>))
              else Inr (discarded, None, rb_Reset rb))"

text \<open>\<open>Read(p)\<close> also returns the caller's slice as it is after the call.\<close>

definition rb_Read :: "Buffer \<Rightarrow> byte list \<Rightarrow> (nat \<times> go_error option \<times> byte list \<times> Buffer) go" where
  "rb_Read rb p =
     (if length p = 0 then Inr (0, None, p, rb)
      else if rb_isEmpty rb then Inr (0, Some ErrIsEmpty, p, rb)
      else if rb_w rb > rb_r rb
      then let n0 = rb_w rb - rb_r rb;
               n = (if n0 > length p then length p else n0)
           in go_bind (go_slice (rb_buf rb) (rb_r rb) (rb_r rb + n))
                (\<lambda>src. let rb1 = rb\<lparr>rb_r := rb_r rb + n\<rparr>;
                           rb2 = (if rb_r rb1 = rb_w rb1 then rb_Reset rb1 else rb1)
                       in Inr (n, None, go_copy p src, rb2))
      else let n0 = rb_size rb - rb_r rb + rb_w rb;
               n = (if n0 > length p then length p else n0)
           in go_bind
                (if rb_r rb + n \<le> rb_size rb
                 then go_bind (go_slice (rb_buf rb) (rb_r rb) (rb_r rb + n)) (\<lambda>src. Inr (go_copy p src))
                 else let c1 = rb_size rb - rb_r rb; c2 = n - c1
                      in go_bind (go_slice (rb_buf rb) (rb_r rb) (length (rb_buf rb)))
                           (\<lambda>src1. go_bind (go_slice (rb_buf rb) 0 c2)
                              (\<lambda>src2. go_copy_at (go_copy p src1) c1 src2)))
                (\<lambda>p'. go_bind (go_mod (rb_r rb + n) (rb_size rb))
                   (\<lambda>r'. let rb1 = rb\<lparr>rb_r := r'\<rparr>;
                             rb2 = (if rb_r rb1 = rb_w rb1 then rb_Reset rb1 else rb1)
                         in Inr (n, None, p', rb2))))"

definition rb_ReadByte :: "Buffer \<Rightarrow> (byte \<times> go_error option \<times> Buffer) go" where
  "rb_ReadByte rb =
     (if rb_isEmpty rb then Inr (0, Some ErrIsEmpty, rb)
      else go_bind (go_index (rb_buf rb) (rb_r rb))
        (\<lambda>b. let rb1 = rb\<lparr>rb_r := rb_r rb + 1\<rparr>;
                 rb2 = (if rb_r rb1 = rb_size rb1 then rb1\<lparr>rb_r := 0\<rparr> else rb1);
                 rb3 = (if rb_r rb2 = rb_w rb2 then rb_Reset rb2 else rb2)
             in Inr (b, None, rb3)))"

subsection \<open>Growing and writing\<close>

text \<open>\<open>for 0 < n && n < newCap { n += n / 4 }\<close>; the sum wraps around at 64 bits.\<close>

partial_function (option) grow_loop :: "int \<Rightarrow> int \<Rightarrow> int option" where
  "grow_loop n newCap =
     (if 0 < n \<and> n < newCap then grow_loop (go_int (n + n div 4)) newCap else Some n)"

definition rb_newCap :: "int \<Rightarrow> int \<Rightarrow> int go" where
  "rb_newCap n newCap =
     (if n = 0
      then (if newCap \<le> DefaultBufferSize then Inr DefaultBufferSize else CeilToPowerOfTwo newCap)
      else let doubleCap = go_int (n + n)
           in if newCap \<le> doubleCap
              then (if n < bufferGrowThreshold then Inr doubleCap
                    else case grow_loop n newCap of
                           None \<Rightarrow> Inl Diverges
                         | Some n' \<Rightarrow> Inr (if n' > 0 then n' else newCap))
              else Inr newCap)"

definition rb_grow :: "(nat \<Rightarrow> byte list) \<Rightarrow> Buffer \<Rightarrow> int \<Rightarrow> Buffer go" where
  "rb_grow get rb newCap0 =
     go_bind (rb_newCap (int (rb_size rb)) newCap0)
       (\<lambda>newCap. let newBuf = get (nat newCap); oldLen = rb_Buffered rb
                 in go_bind (rb_Read rb newBuf)
                      (\<lambda>(_, _, newBuf', rb1).
                         let rb2 = rb1\<lparr>rb_buf := newBuf', rb_r := 0, rb_w := oldLen, rb_size := nat newCap\<rparr>
                         in Inr (if rb_w rb2 > 0 then rb2\<lparr>rb_isEmpty := False\<rparr> else rb2)))"

definition rb_Write :: "(nat \<Rightarrow> byte list) \<Rightarrow> Buffer \<Rightarrow> byte list \<Rightarrow> (nat \<times> go_error option \<times> Buffer) go" where
  "rb_Write get rb0 p =
     (let n = length p in
      if n = 0 then Inr (0, None, rb0)
      else
        let free = rb_Available rb0 in
        go_bind (if n > free then rb_grow get rb0 (int (rb_size rb0 + n - free)) else Inr rb0)
          (\<lambda>rb. go_bind
             (if rb_w rb \<ge> rb_r rb
              then let c1 = rb_size rb - rb_w rb
                   in if c1 \<ge> n
                      then go_bind (go_copy_at (rb_buf rb) (rb_w rb) p)
                             (\<lambda>b. Inr (rb\<lparr>rb_buf := b, rb_w := rb_w rb + n\<rparr>))
                      else go_bind (go_copy_at (rb_buf rb) (rb_w rb) (take c1 p))
                             (\<lambda>b. let c2 = n - c1
                                  in Inr (rb\<lparr>rb_buf := go_copy b (drop c1 p), rb_w := c2\<rparr>))
              else go_bind (go_copy_at (rb_buf rb) (rb_w rb) p)
                     (\<lambda>b. Inr (rb\<lparr>rb_buf := b, rb_w := rb_w rb + n\<rparr>)))
             (\<lambda>rb1. let rb2 = (if rb_w rb1 = rb_size rb1 then rb1\<lparr>rb_w := 0\<rparr> else rb1)
                    in Inr (n, None, rb2\<lparr>rb_isEmpty := False\<rparr>))))"

definition rb_WriteString :: "(nat \<Rightarrow> byte list) \<Rightarrow> Buffer \<Rightarrow> byte list \<Rightarrow> (nat \<times> go_error option \<times> Buffer) go" where
  "rb_WriteString get rb s = rb_Write get rb s"

definition rb_WriteByte :: "(nat \<Rightarrow> byte list) \<Rightarrow> Buffer \<Rightarrow> byte \<Rightarrow> (go_error option \<times> Buffer) go" where
  "rb_WriteByte get rb0 c =
     go_bind (if rb_Available rb0 < 1 then rb_grow get rb0 1 else Inr rb0)
       (\<lambda>rb. go_bind (go_set_index (rb_buf rb) (rb_w rb) c)
          (\<lambda>b. let rb1 = rb\<lparr>rb_buf := b, rb_w := rb_w rb + 1\<rparr>;
                   rb2 = (if rb_w rb1 = rb_size rb1 then rb1\<lparr>rb_w := 0\<rparr> else rb1)
               in Inr (None, rb2\<lparr>rb_isEmpty := False\<rparr>)))"

subsection \<open>Abstraction and representation invariant\<close>

definition contents :: "Buffer \<Rightarrow> byte list" where
  "contents rb =
     (if rb_isEmpty rb then []
      else if rb_r rb < rb_w rb then drop (rb_r rb) (take (rb_w rb) (rb_buf rb))
      else drop (rb_r rb) (rb_buf rb) @ take (rb_w rb) (rb_buf rb))"

definition rb_inv :: "Buffer \<Rightarrow> bool" where
  "rb_inv rb \<longleftrightarrow>
     length (rb_buf rb) = rb_size rb
     \<and> (if rb_size rb = 0 then rb_r rb = 0 \<and> rb_w rb = 0 \<and> rb_isEmpty rb
        else rb_r rb < rb_size rb \<and> rb_w rb < rb_size rb)
     \<and> (rb_isEmpty rb \<longrightarrow> rb_r rb = 0 \<and> rb_w rb = 0)"

lemma rb_inv_emptyI [intro]:
  "length b = s \<Longrightarrow> rb_inv \<lparr>rb_buf = b, rb_size = s, rb_r = 0, rb_w = 0, rb_isEmpty = True\<rparr>"
  by (simp add: rb_inv_def)

lemma rb_inv_nonempty:
  assumes "rb_inv rb" and "\<not> rb_isEmpty rb"
  shows "length (rb_buf rb) = rb_size rb" and "rb_r rb < rb_size rb" and "rb_w rb < rb_size rb"
    and "0 < rb_size rb"
  using assms by (auto simp: rb_inv_def split: if_splits)

lemma contents_empty [simp]: "rb_isEmpty rb \<Longrightarrow> contents rb = []"
  by (simp add: contents_def)

lemma rb_inv_Reset [simp]: "rb_inv rb \<Longrightarrow> rb_inv (rb_Reset rb)"
  by (auto simp: rb_inv_def rb_Reset_def)

lemma contents_Reset [simp]: "contents (rb_Reset rb) = []"
  by (simp add: rb_Reset_def)

lemma rb_Reset_fields [simp]:
  "rb_buf (rb_Reset rb) = rb_buf rb" "rb_size (rb_Reset rb) = rb_size rb"
  "rb_r (rb_Reset rb) = 0" "rb_w (rb_Reset rb) = 0" "rb_isEmpty (rb_Reset rb)"
  by (simp_all add: rb_Reset_def)

lemma rb_Reset_update [simp]: "rb_Reset (rb\<lparr>rb_r := x\<rparr>) = rb_Reset rb"
  by (simp add: rb_Reset_def)

lemma length_contents: "rb_inv rb \<Longrightarrow> length (contents rb) = rb_Buffered rb"
  by (auto simp: contents_def rb_inv_def rb_Buffered_def split: if_splits)

lemma contents_eq_Nil: "rb_inv rb \<Longrightarrow> contents rb = [] \<longleftrightarrow> rb_isEmpty rb"
  by (auto simp: contents_def rb_inv_def split: if_splits)

lemma rb_Buffered_le_size: "rb_inv rb \<Longrightarrow> rb_Buffered rb \<le> rb_size rb"
  by (auto simp: rb_inv_def rb_Buffered_def split: if_splits)

lemma rb_Available_eq: "rb_inv rb \<Longrightarrow> rb_Available rb = rb_size rb - length (contents rb)"
  by (auto simp: length_contents rb_inv_def rb_Buffered_def rb_Available_def split: if_splits)

lemma rb_IsFull_iff:
  "rb_inv rb \<Longrightarrow> rb_IsFull rb \<longleftrightarrow> rb_size rb \<noteq> 0 \<and> length (contents rb) = rb_size rb"
  by (auto simp: length_contents rb_IsFull_def rb_inv_def rb_Buffered_def split: if_splits)

subsection \<open>Observers return the queue\<close>

lemma rb_Bytes_ok: "rb_inv rb \<Longrightarrow> rb_Bytes rb = Inr (contents rb)"
  by (auto simp: rb_Bytes_def contents_def rb_inv_def go_defs split: if_splits)

lemma rb_peekAll_ok: "rb_inv rb \<Longrightarrow> \<exists>h t. rb_peekAll rb = Inr (h, t) \<and> h @ t = contents rb"
  by (auto simp: rb_peekAll_def contents_def rb_inv_def go_defs split: if_splits)

lemma rb_Peek_ok:
  assumes inv: "rb_inv rb"
  shows "\<exists>h t. rb_Peek rb n = Inr (h, t)
           \<and> h @ t = (if n \<le> 0 then contents rb else take (nat n) (contents rb))"
proof (cases "rb_isEmpty rb \<or> n \<le> 0")
  case True
  with rb_peekAll_ok [OF inv] show ?thesis by (auto simp: rb_Peek_def)
next
  case False
  then have ne: "\<not> rb_isEmpty rb" and n: "0 < n" by auto
  have bounds: "length (rb_buf rb) = rb_size rb" "rb_r rb < rb_size rb" "rb_w rb < rb_size rb"
    using rb_inv_nonempty [OF inv ne] by simp_all
  show ?thesis
  proof (cases "rb_w rb > rb_r rb")
    case True
    define m where "m = (if int (rb_w rb - rb_r rb) > n then nat n else rb_w rb - rb_r rb)"
    have m: "m = min (nat n) (rb_w rb - rb_r rb)" using n by (auto simp: m_def)
    have "rb_Peek rb n = Inr (drop (rb_r rb) (take (rb_r rb + m) (rb_buf rb)), [])"
      unfolding rb_Peek_def Let_def m_def [symmetric] using ne n True bounds m
      by (simp add: go_slice_def)
    moreover have "drop (rb_r rb) (take (rb_r rb + m) (rb_buf rb)) = take (nat n) (contents rb)"
      using True bounds ne m by (simp add: contents_def take_drop min_def ac_simps)
    ultimately show ?thesis using n by auto
  next
    case False
    define m where "m = (if int (rb_size rb - rb_r rb + rb_w rb) > n then nat n
                         else rb_size rb - rb_r rb + rb_w rb)"
    have m: "m = min (nat n) (rb_size rb - rb_r rb + rb_w rb)" using n by (auto simp: m_def)
    let ?D = "drop (rb_r rb) (rb_buf rb)" and ?T = "take (rb_w rb) (rb_buf rb)"
    have c: "contents rb = ?D @ ?T" using False ne by (simp add: contents_def)
    have "length (?D @ ?T) = rb_size rb - rb_r rb + rb_w rb" using bounds by simp
    then have take_m: "take (nat n) (?D @ ?T) = take m (?D @ ?T)"
      unfolding m by (metis take_min_length)
    show ?thesis
    proof (cases "rb_r rb + m \<le> rb_size rb")
      case True
      then have "rb_Peek rb n = Inr (drop (rb_r rb) (take (rb_r rb + m) (rb_buf rb)), [])"
        unfolding rb_Peek_def Let_def m_def [symmetric] using ne n False bounds
        by (simp add: go_slice_def)
      moreover have "take m (?D @ ?T) = drop (rb_r rb) (take (rb_r rb + m) (rb_buf rb))"
        using True bounds by (simp add: take_drop ac_simps)
      ultimately show ?thesis using n c take_m by auto
    next
      case over: False
      let ?c2 = "m - (rb_size rb - rb_r rb)"
      have le: "?c2 \<le> rb_w rb" using m by simp
      then have "rb_Peek rb n = Inr (?D, take ?c2 (rb_buf rb))"
        unfolding rb_Peek_def Let_def m_def [symmetric] using ne n False bounds over
        by (simp add: go_slice_def)
      moreover have "take m (?D @ ?T) = ?D @ take ?c2 (rb_buf rb)"
        using over bounds le by (simp add: min_absorb1)
      ultimately show ?thesis using n c take_m by auto
    qed
  qed
qed

subsection \<open>Consuming operations drop from the front\<close>

lemma rb_advance:
  assumes inv: "rb_inv rb" and ne: "\<not> rb_isEmpty rb" and n: "n < rb_Buffered rb"
  defines "rb' \<equiv> rb\<lparr>rb_r := (rb_r rb + n) mod rb_size rb\<rparr>"
  shows "rb_inv rb'" and "contents rb' = drop n (contents rb)" and "rb_r rb' \<noteq> rb_w rb' \<or> n = 0"
proof -
  have bounds: "length (rb_buf rb) = rb_size rb" "rb_r rb < rb_size rb" "rb_w rb < rb_size rb"
    using rb_inv_nonempty [OF inv ne] by simp_all
  then have pos: "0 < rb_size rb" by simp
  show "rb_inv rb'" using bounds pos ne by (simp add: rb_inv_def rb'_def)
  consider (lin) "rb_r rb < rb_w rb"
    | (low) "\<not> rb_r rb < rb_w rb" "rb_r rb + n < rb_size rb"
    | (wrap) "\<not> rb_r rb < rb_w rb" "\<not> rb_r rb + n < rb_size rb" by blast
  then have "contents rb' = drop n (contents rb) \<and> (rb_r rb' \<noteq> rb_w rb' \<or> n = 0)"
  proof cases
    case lin
    with n have "n < rb_w rb - rb_r rb" by (simp add: rb_Buffered_def)
    with lin bounds have "(rb_r rb + n) mod rb_size rb = rb_r rb + n" "rb_r rb + n < rb_w rb" by auto
    with lin ne show ?thesis by (simp add: contents_def rb'_def add.commute)
  next
    case low
    then show ?thesis using ne bounds
      by (auto simp: contents_def rb'_def add.commute)
  next
    case wrap
    define k where "k = rb_r rb + n - rb_size rb"
    have nb: "n < rb_size rb - rb_r rb + rb_w rb"
      using n wrap(1) ne bounds by (auto simp: rb_Buffered_def split: if_splits)
    with wrap bounds have k: "k < rb_w rb" "rb_r rb + n = rb_size rb + k" by (auto simp: k_def)
    with bounds have "(rb_r rb + n) mod rb_size rb = k" by simp
    moreover have "n = rb_size rb - rb_r rb + k" using k(2) bounds by simp
    ultimately show ?thesis using k ne bounds wrap(1)
      by (simp add: contents_def rb'_def)
  qed
  then show "contents rb' = drop n (contents rb)" and "rb_r rb' \<noteq> rb_w rb' \<or> n = 0" by blast+
qed

lemma rb_Discard_ok:
  assumes inv: "rb_inv rb"
  shows "\<exists>rb'. rb_Discard rb n = Inr (min (nat n) (length (contents rb)), None, rb')
           \<and> rb_inv rb' \<and> contents rb' = drop (nat n) (contents rb) \<and> rb_size rb' = rb_size rb"
proof (cases "n \<le> 0")
  case True
  with inv show ?thesis by (simp add: rb_Discard_def)
next
  case pos: False
  show ?thesis
  proof (cases "n < int (rb_Buffered rb)")
    case True
    with pos have "nat n < rb_Buffered rb" by simp
    then have ne: "\<not> rb_isEmpty rb" using inv by (auto simp: rb_Buffered_def rb_inv_def)
    then have "0 < rb_size rb" using inv rb_inv_nonempty(4) by blast
    with rb_advance [OF inv ne \<open>nat n < rb_Buffered rb\<close>] pos True show ?thesis
      by (simp add: rb_Discard_def go_mod_def length_contents [OF inv])
  next
    case False
    with pos inv show ?thesis
      by (simp add: rb_Discard_def length_contents [OF inv])
  qed
qed

lemma rb_read_source:
  assumes inv: "rb_inv rb" and ne: "\<not> rb_isEmpty rb" and n: "n \<le> rb_Buffered rb"
    and wrap: "\<not> rb_r rb < rb_w rb"
  shows "rb_r rb + n \<le> rb_size rb \<Longrightarrow>
           drop (rb_r rb) (take (rb_r rb + n) (rb_buf rb)) = take n (contents rb)"
    and "\<not> rb_r rb + n \<le> rb_size rb \<Longrightarrow>
           drop (rb_r rb) (rb_buf rb) @ take (n - (rb_size rb - rb_r rb)) (rb_buf rb) = take n (contents rb)"
proof -
  note bounds = rb_inv_nonempty [OF inv ne]
  have c: "contents rb = drop (rb_r rb) (rb_buf rb) @ take (rb_w rb) (rb_buf rb)"
    using ne wrap by (simp add: contents_def)
  {
    assume "rb_r rb + n \<le> rb_size rb"
    then show "drop (rb_r rb) (take (rb_r rb + n) (rb_buf rb)) = take n (contents rb)"
      using bounds by (simp add: c take_drop ac_simps)
  }
  {
    assume "\<not> rb_r rb + n \<le> rb_size rb"
    moreover have "n - (rb_size rb - rb_r rb) \<le> rb_w rb"
      using n wrap ne bounds by (auto simp: rb_Buffered_def split: if_splits)
    ultimately show "drop (rb_r rb) (rb_buf rb) @ take (n - (rb_size rb - rb_r rb)) (rb_buf rb)
        = take n (contents rb)"
      using bounds by (simp add: c min_absorb1)
  }
qed

lemma rb_Read_finish:
  assumes inv: "rb_inv rb" and ne: "\<not> rb_isEmpty rb" and n: "0 < n" "n \<le> rb_Buffered rb"
    and r': "r' = (rb_r rb + n) mod rb_size rb"
  shows "(r' = rb_w rb \<longrightarrow> length (contents rb) \<le> n)
     \<and> (r' \<noteq> rb_w rb \<longrightarrow> rb_inv (rb\<lparr>rb_r := r'\<rparr>) \<and> contents (rb\<lparr>rb_r := r'\<rparr>) = drop n (contents rb))"
proof (cases "n < rb_Buffered rb")
  case True
  with rb_advance [OF inv ne True] n show ?thesis by (simp add: r')
next
  case False
  with n have eq: "n = rb_Buffered rb" by simp
  have "(rb_r rb + n) mod rb_size rb = rb_w rb"
    unfolding eq using rb_inv_nonempty [OF inv ne] ne
    by (auto simp: rb_Buffered_def mod_if split: if_splits)
  then show ?thesis by (simp add: r' eq length_contents [OF inv])
qed

lemma rb_Read_ok:
  fixes p :: "byte list"
  assumes inv: "rb_inv rb"
  defines "n \<equiv> min (length p) (length (contents rb))"
  shows "\<exists>rb'. rb_Read rb p =
             Inr (n, if p \<noteq> [] \<and> contents rb = [] then Some ErrIsEmpty else None,
                  go_copy p (take n (contents rb)), rb')
           \<and> rb_inv rb' \<and> contents rb' = drop n (contents rb) \<and> rb_size rb' = rb_size rb"
proof (cases "p = [] \<or> rb_isEmpty rb")
  case True
  with inv show ?thesis by (auto simp: rb_Read_def n_def)
next
  case False
  then have pne: "p \<noteq> []" and ne: "\<not> rb_isEmpty rb" by auto
  note bounds = rb_inv_nonempty [OF inv ne]
  have cne: "contents rb \<noteq> []" using contents_eq_Nil [OF inv] ne by simp
  have len: "length (contents rb) = rb_Buffered rb" by (rule length_contents [OF inv])
  have "0 < rb_Buffered rb" using cne len by (metis length_greater_0_conv)
  then have n: "0 < n" "n \<le> rb_Buffered rb" "n \<le> length p"
    using pne len by (auto simp: n_def)
  note fin = rb_Read_finish [OF inv ne n(1,2) refl]
  show ?thesis
  proof (cases "rb_w rb > rb_r rb")
    case True
    have buffered: "rb_Buffered rb = rb_w rb - rb_r rb" using True by (simp add: rb_Buffered_def)
    have nif: "(if rb_w rb - rb_r rb > length p then length p else rb_w rb - rb_r rb) = n"
      by (simp add: n_def len buffered min_def)
    have le: "rb_r rb + n \<le> rb_w rb" using n buffered True by simp
    have "go_slice (rb_buf rb) (rb_r rb) (rb_r rb + n) = Inr (take n (contents rb))"
      using le True ne bounds by (simp add: go_slice_def contents_def take_drop min_absorb1 ac_simps)
    moreover have "(rb_r rb + n) mod rb_size rb = rb_r rb + n" using le bounds by simp
    ultimately show ?thesis
      unfolding rb_Read_def Let_def nif using fin inv pne ne True cne by simp
  next
    case False
    have buffered: "rb_Buffered rb = rb_size rb - rb_r rb + rb_w rb"
      using False ne bounds by (auto simp: rb_Buffered_def)
    have nif: "(if rb_size rb - rb_r rb + rb_w rb > length p then length p
                else rb_size rb - rb_r rb + rb_w rb) = n"
      by (simp add: n_def len buffered min_def)
    note src = rb_read_source [OF inv ne n(2) False]
    show ?thesis
    proof (cases "rb_r rb + n \<le> rb_size rb")
      case True
      then show ?thesis
        unfolding rb_Read_def Let_def nif using fin inv src(1) pne ne False cne bounds
        by (simp add: go_slice_def go_mod_def)
    next
      case over: False
      let ?D = "drop (rb_r rb) (rb_buf rb)" and ?c1 = "rb_size rb - rb_r rb"
      let ?T = "take (n - ?c1) (rb_buf rb)"
      have c2: "n - ?c1 \<le> length (rb_buf rb)" using n(2) buffered bounds by simp
      have c1: "?c1 \<le> length p" "length ?D = ?c1" using over n(3) bounds by auto
      have "go_copy_at (go_copy p ?D) ?c1 ?T = Inr (go_copy p (?D @ ?T))"
        using c1 c2 n(3) over by (simp add: go_copy_at_def go_copy_def)
      then show ?thesis
        unfolding rb_Read_def Let_def nif
        using fin inv src(2) [OF over] pne ne False cne bounds over c2
        by (simp add: go_slice_def go_mod_def)
    qed
  qed
qed

lemma rb_ReadByte_ok:
  assumes inv: "rb_inv rb"
  shows "case contents rb of
           [] \<Rightarrow> rb_ReadByte rb = Inr (0, Some ErrIsEmpty, rb)
         | b # bs \<Rightarrow> \<exists>rb'. rb_ReadByte rb = Inr (b, None, rb') \<and> rb_inv rb' \<and> contents rb' = bs
                         \<and> rb_size rb' = rb_size rb"
proof (cases "contents rb")
  case Nil
  with contents_eq_Nil [OF inv] show ?thesis by (simp add: rb_ReadByte_def)
next
  case (Cons b bs)
  with contents_eq_Nil [OF inv] have ne: "\<not> rb_isEmpty rb" by simp
  note bounds = rb_inv_nonempty [OF inv ne]
  have one: "0 < (1::nat)" "1 \<le> rb_Buffered rb"
    using length_contents [OF inv] Cons by simp_all
  have b: "rb_buf rb ! rb_r rb = b"
  proof -
    have "hd (contents rb) = rb_buf rb ! rb_r rb"
      using ne bounds by (auto simp: contents_def hd_drop_conv_nth hd_append)
    with Cons show ?thesis by simp
  qed
  note fin = rb_Read_finish [OF inv ne one refl]
  show ?thesis using ne bounds b inv fin Cons
    by (auto simp: rb_ReadByte_def go_index_def Let_def mod_if)
qed

subsection \<open>Growing keeps the queue\<close>

lemma grow_loop_ok:
  assumes "4 \<le> n" and "n < 2 ^ 62" and "newCap \<le> 2 ^ 62"
  shows "\<exists>m. grow_loop n newCap = Some m \<and> n \<le> m \<and> newCap \<le> m \<and> m \<le> 2 ^ 62 + 2 ^ 60"
  using assms
proof (induction "nat (newCap - n)" arbitrary: n rule: less_induct)
  case less
  show ?case
  proof (cases "n < newCap")
    case False
    with less.prems show ?thesis by (subst grow_loop.simps) simp
  next
    case True
    define n' where "n' = n + n div 4"
    have div1: "1 \<le> n div 4" and div2: "n div 4 \<le> 2 ^ 60" using less.prems by auto
    have le: "n' \<le> 2 ^ 62 + 2 ^ 60" and gt: "n < n'"
      using div1 div2 less.prems by (simp_all add: n'_def)
    have "go_int n' = n'" using le gt less.prems by (intro go_int_id) auto
    then have step: "grow_loop n newCap = grow_loop n' newCap"
      using True less.prems by (subst grow_loop.simps) (simp add: n'_def)
    show ?thesis
    proof (cases "n' < newCap")
      case True
      then have "n' < 2 ^ 62" and "nat (newCap - n') < nat (newCap - n)"
        using less.prems gt by auto
      with less.hyps [of n'] less.prems gt step show ?thesis by force
    next
      case False
      then have "grow_loop n' newCap = Some n'" by (subst grow_loop.simps) simp
      with step False le gt show ?thesis by auto
    qed
  qed
qed

lemma rb_newCap_ok:
  assumes "n \<le> 2 ^ 61" and "0 \<le> n" and "0 < newCap" and "newCap \<le> 2 ^ 62"
  shows "\<exists>c. rb_newCap n newCap = Inr c \<and> n \<le> c \<and> newCap \<le> c \<and> 0 < c"
proof -
  have dbl: "go_int (n + n) = n + n" using assms by (intro go_int_id) auto
  consider (zero) "n = 0" | (small) "n \<noteq> 0" "newCap \<le> n + n" "n < bufferGrowThreshold"
    | (big) "n \<noteq> 0" "newCap \<le> n + n" "\<not> n < bufferGrowThreshold" | (jump) "n \<noteq> 0" "n + n < newCap"
    by linarith
  then show ?thesis
  proof cases
    case zero
    with CeilToPowerOfTwo_ok [OF assms(4)] assms show ?thesis
      by (auto simp: rb_newCap_def DefaultBufferSize_def)
  next
    case small
    with assms dbl show ?thesis by (auto simp: rb_newCap_def)
  next
    case big
    then have "4 \<le> n" "n < 2 ^ 62" using assms by (auto simp: bufferGrowThreshold_def)
    from grow_loop_ok [OF this assms(4)] big assms dbl show ?thesis
      by (auto simp: rb_newCap_def)
  next
    case jump
    with assms dbl show ?thesis by (auto simp: rb_newCap_def)
  qed
qed

lemma grow_loop_upper:
  assumes "4 \<le> n" and "n < newCap" and "newCap \<le> 2 ^ 62" and "grow_loop n newCap = Some m"
  shows "m \<le> 2 * newCap"
  using assms
proof (induction "nat (newCap - n)" arbitrary: n rule: less_induct)
  case less
  define n' where "n' = n + n div 4"
  have n': "n < n'" "n' \<le> 2 * newCap" "go_int n' = n'"
    using less.prems by (auto simp: n'_def intro!: go_int_id)
  then have step: "grow_loop n newCap = grow_loop n' newCap"
    using less.prems by (subst grow_loop.simps) (simp add: n'_def)
  show ?case
  proof (cases "n' < newCap")
    case True
    with less.hyps [of n'] less.prems n' step show ?thesis by auto
  next
    case False
    then have "grow_loop n' newCap = Some n'" by (subst grow_loop.simps) simp
    with step less.prems n' show ?thesis by simp
  qed
qed

lemma rb_newCap_upper:
  assumes "0 \<le> n" "n < newCap" and "newCap \<le> 2 ^ 61" and "rb_newCap n newCap = Inr c"
  shows "c \<le> max 1024 (2 * newCap)"
proof -
  have dbl: "go_int (n + n) = n + n" using assms by (intro go_int_id) auto
  show ?thesis
  proof (cases "n = 0")
    case True
    have "2 ^ bits_Len (nat (newCap - 1)) < 2 * newCap" if "1024 < newCap"
      using CeilToPowerOfTwo_bounds(2) [of newCap] that assms(3) by simp
    with True assms(3,4) show ?thesis
      by (auto simp: rb_newCap_def DefaultBufferSize_def CeilToPowerOfTwo_large split: if_splits)
  next
    case False
    show ?thesis
    proof (cases "newCap \<le> n + n \<and> \<not> n < bufferGrowThreshold")
      case True
      then have "4 \<le> n" by (simp add: bufferGrowThreshold_def)
      with grow_loop_upper [of n newCap] True False assms dbl show ?thesis
        by (auto simp: rb_newCap_def Let_def split: option.splits if_splits)
    next
      case small: False
      with False assms dbl show ?thesis
        by (auto simp: rb_newCap_def Let_def split: if_splits)
    qed
  qed
qed

context byte_source
begin

lemma rb_grow_cap:
  assumes inv: "rb_inv rb" and cap: "rb_newCap (int (rb_size rb)) newCap = Inr c"
    and c: "int (rb_Buffered rb) \<le> c" "0 < c"
  shows "\<exists>rb'. rb_grow get rb newCap = Inr rb' \<and> rb_r rb' = 0 \<and> rb_w rb' = length (contents rb)
           \<and> rb_size rb' = nat c \<and> length (rb_buf rb') = nat c
           \<and> rb_isEmpty rb' = (contents rb = [])
           \<and> take (length (contents rb)) (rb_buf rb') = contents rb"
proof -
  have len: "length (contents rb) = rb_Buffered rb" by (rule length_contents [OF inv])
  let ?n = "min (length (get (nat c))) (length (contents rb))"
  have n: "?n = length (contents rb)" using c len by simp
  obtain e rb1 where rd: "rb_Read rb (get (nat c)) =
        Inr (length (contents rb), e, go_copy (get (nat c)) (contents rb), rb1)"
      and inv1: "rb_inv rb1" and emp: "contents rb1 = []"
    using rb_Read_ok [OF inv, of "get (nat c)"] unfolding n by auto
  have e1: "rb_isEmpty rb1" using contents_eq_Nil [OF inv1] emp by simp
  have "take (length (contents rb)) (go_copy (get (nat c)) (contents rb)) = contents rb"
    using c len by (intro take_go_copy) simp
  with cap rd e1 len contents_eq_Nil [OF inv] show ?thesis
    by (auto simp: rb_grow_def Let_def)
qed

lemma rb_grow_ok:
  assumes inv: "rb_inv rb" and cap: "rb_newCap (int (rb_size rb)) newCap = Inr c"
    and c: "int (rb_Buffered rb) < c"
  shows "\<exists>rb'. rb_grow get rb newCap = Inr rb' \<and> rb_inv rb' \<and> contents rb' = contents rb
           \<and> rb_size rb' = nat c"
proof -
  have le: "int (rb_Buffered rb) \<le> c" and pos: "0 < c" using c by auto
  from rb_grow_cap [OF inv cap le pos] obtain rb' where rb': "rb_grow get rb newCap = Inr rb'"
      "rb_r rb' = 0" "rb_w rb' = length (contents rb)" "rb_size rb' = nat c"
      "length (rb_buf rb') = nat c" "rb_isEmpty rb' = (contents rb = [])"
      "take (length (contents rb)) (rb_buf rb') = contents rb"
    by blast
  moreover have "rb_inv rb'" using rb' c by (auto simp: rb_inv_def length_contents [OF inv])
  moreover have "contents rb' = contents rb" using rb' by (auto simp: contents_def [of rb'])
  ultimately show ?thesis by blast
qed

end

subsection \<open>Writing appends to the queue\<close>

lemma rb_write_linear:
  assumes inv: "rb_inv rb" and n: "p \<noteq> []" "length p \<le> rb_Available rb"
    and lin: "rb_w rb \<ge> rb_r rb \<longrightarrow> length p \<le> rb_size rb - rb_w rb"
  defines "b \<equiv> take (rb_w rb) (rb_buf rb) @ p @ drop (rb_w rb + length p) (rb_buf rb)"
    and "w' \<equiv> (if rb_w rb + length p = rb_size rb then 0 else rb_w rb + length p)"
  shows "go_copy_at (rb_buf rb) (rb_w rb) p = Inr b"
    and "rb_inv (rb\<lparr>rb_buf := b, rb_w := w', rb_isEmpty := False\<rparr>)"
    and "contents (rb\<lparr>rb_buf := b, rb_w := w', rb_isEmpty := False\<rparr>) = contents rb @ p"
proof -
  have len: "length (rb_buf rb) = rb_size rb" using inv by (simp add: rb_inv_def)
  have pos: "0 < rb_size rb" using n inv by (auto simp: rb_Available_def rb_inv_def split: if_splits)
  have rw: "rb_r rb < rb_size rb" "rb_w rb < rb_size rb" "rb_isEmpty rb \<Longrightarrow> rb_r rb = 0 \<and> rb_w rb = 0"
    using inv pos by (auto simp: rb_inv_def)
  have fits: "rb_w rb + length p \<le> rb_size rb"
    using lin n(2) rw by (auto simp: rb_Available_def split: if_splits)
  show "go_copy_at (rb_buf rb) (rb_w rb) p = Inr b"
    using fits len by (simp add: go_copy_at_def go_copy_fits b_def add.commute)
  have lb: "length b = rb_size rb" using fits len by (simp add: b_def)
  show "rb_inv (rb\<lparr>rb_buf := b, rb_w := w', rb_isEmpty := False\<rparr>)"
    using lb pos rw fits by (auto simp: rb_inv_def w'_def)
  have pl: "0 < length p" using n(1) by simp
  consider (ge) "rb_r rb \<le> rb_w rb" "\<not> rb_isEmpty rb \<longrightarrow> rb_r rb < rb_w rb" | (lt) "rb_w rb < rb_r rb"
    using n pl by (force simp: rb_Available_def split: if_splits)
  then show "contents (rb\<lparr>rb_buf := b, rb_w := w', rb_isEmpty := False\<rparr>) = contents rb @ p"
  proof cases
    case ge
    have c: "contents rb = drop (rb_r rb) (take (rb_w rb) (rb_buf rb))"
      using ge rw(3) by (auto simp: contents_def)
    have lt': "rb_r rb < rb_w rb + length p" using ge(1) pl by linarith
    have "contents (rb\<lparr>rb_buf := b, rb_w := w', rb_isEmpty := False\<rparr>)
        = drop (rb_r rb) (take (rb_w rb + length p) b)"
      using lt' lb by (auto simp: contents_def w'_def)
    also have "\<dots> = contents rb @ p"
      using ge(1) len rw(2) by (simp add: c b_def)
    finally show ?thesis .
  next
    case lt
    then have ne: "\<not> rb_isEmpty rb" using rw(3) by auto
    have le: "rb_w rb + length p \<le> rb_r rb" using lt n(2) by (simp add: rb_Available_def)
    then have w': "w' = rb_w rb + length p" using rw by (simp add: w'_def)
    have "drop (rb_r rb) b = drop (rb_r rb) (rb_buf rb)" using le len rw by (simp add: b_def)
    moreover have "take (rb_w rb + length p) b = take (rb_w rb) (rb_buf rb) @ p"
      using len rw by (simp add: b_def)
    ultimately show ?thesis using lt le ne by (simp add: contents_def w')
  qed
qed

lemma rb_write_wrap:
  assumes inv: "rb_inv rb" and n: "length p \<le> rb_Available rb"
    and wrap: "rb_r rb \<le> rb_w rb" "rb_size rb - rb_w rb < length p"
  defines "c1 \<equiv> rb_size rb - rb_w rb"
  defines "b1 \<equiv> take (rb_w rb) (rb_buf rb) @ take c1 p"
  defines "b \<equiv> go_copy b1 (drop c1 p)"
  shows "go_copy_at (rb_buf rb) (rb_w rb) (take c1 p) = Inr b1"
    and "length p - c1 \<noteq> rb_size rb"
    and "rb_inv (rb\<lparr>rb_buf := b, rb_w := length p - c1, rb_isEmpty := False\<rparr>)"
    and "contents (rb\<lparr>rb_buf := b, rb_w := length p - c1, rb_isEmpty := False\<rparr>) = contents rb @ p"
proof -
  have len: "length (rb_buf rb) = rb_size rb" using inv by (simp add: rb_inv_def)
  have ne: "\<not> rb_isEmpty rb" and lt: "rb_r rb < rb_w rb"
    using inv n wrap by (auto simp: rb_inv_def rb_Available_def split: if_splits)
  note bounds = rb_inv_nonempty [OF inv ne]
  have c1: "c1 \<le> length p" "rb_w rb + c1 = rb_size rb" using wrap bounds by (auto simp: c1_def)
  have c2: "length p - c1 \<le> rb_r rb" using n lt by (simp add: rb_Available_def c1_def)
  show "go_copy_at (rb_buf rb) (rb_w rb) (take c1 p) = Inr b1"
    using c1 bounds by (simp add: go_copy_at_def go_copy_fits b1_def)
  show "length p - c1 \<noteq> rb_size rb" using c2 bounds by simp
  have lb1: "length b1 = rb_size rb" using c1 bounds by (simp add: b1_def)
  have b: "b = drop c1 p @ drop (length p - c1) b1"
    using c2 lb1 bounds by (simp add: b_def go_copy_fits)
  have lb: "length b = rb_size rb" using lb1 by (simp add: b_def)
  show "rb_inv (rb\<lparr>rb_buf := b, rb_w := length p - c1, rb_isEmpty := False\<rparr>)"
    using lb bounds c2 by (simp add: rb_inv_def)
  have "drop (rb_r rb) b = drop (rb_r rb) b1" using c2 by (simp add: b)
  moreover have "take (length p - c1) b = drop c1 p" by (simp add: b)
  moreover have "drop (rb_r rb) b1 = contents rb @ take c1 p"
    using lt ne len bounds by (simp add: contents_def b1_def)
  ultimately show "contents (rb\<lparr>rb_buf := b, rb_w := length p - c1, rb_isEmpty := False\<rparr>) = contents rb @ p"
    using c2 by (simp add: contents_def)
qed

text \<open>The part of \<open>Write\<close> after the buffer has been grown.\<close>

lemma rb_Write_room:
  assumes inv: "rb_inv rb" and n: "length p \<le> rb_Available rb"
  shows "\<exists>rb'. rb_Write get rb p = Inr (length p, None, rb') \<and> rb_inv rb'
           \<and> contents rb' = contents rb @ p \<and> rb_size rb' = rb_size rb"
proof (cases "p = []")
  case True
  with inv show ?thesis by (simp add: rb_Write_def)
next
  case pne: False
  show ?thesis
  proof (cases "rb_w rb \<ge> rb_r rb \<longrightarrow> length p \<le> rb_size rb - rb_w rb")
    case True
    then show ?thesis using rb_write_linear [OF inv pne n True] n pne
      by (auto simp: rb_Write_def Let_def)
  next
    case False
    then have w: "rb_r rb \<le> rb_w rb" "rb_size rb - rb_w rb < length p" by auto
    then show ?thesis using rb_write_wrap [OF inv n w] n pne
      by (auto simp: rb_Write_def Let_def)
  qed
qed

lemma rb_Write_after_grow:
  assumes "p \<noteq> []" and "length p > rb_Available rb"
    and "rb_grow get rb (int (rb_size rb + length p - rb_Available rb)) = Inr rb1"
    and "length p \<le> rb_Available rb1"
  shows "rb_Write get rb p = rb_Write get rb1 p"
  using assms by (simp add: rb_Write_def Let_def)

context byte_source
begin

lemma rb_Write_ok:
  assumes inv: "rb_inv rb" and bound: "rb_size rb + length p \<le> 2 ^ 61"
  shows "\<exists>rb'. rb_Write get rb p = Inr (length p, None, rb') \<and> rb_inv rb'
           \<and> contents rb' = contents rb @ p \<and> rb_size rb \<le> rb_size rb'
           \<and> rb_size rb' \<le> max (rb_size rb) (max 1024 (2 * (length (contents rb) + length p)))"
proof (cases "length p \<le> rb_Available rb")
  case True
  with rb_Write_room [OF inv True] show ?thesis by fastforce
next
  case False
  define free where "free = rb_Available rb"
  define need where "need = rb_size rb + length p - free"
  have fr: "free = rb_size rb - length (contents rb)" "length (contents rb) \<le> rb_size rb"
    using rb_Available_eq [OF inv] rb_Buffered_le_size [OF inv]
    by (simp_all add: free_def length_contents [OF inv])
  have pne: "p \<noteq> []" using False by auto
  have need: "need = length (contents rb) + length p" "rb_size rb < need" "need \<le> 2 ^ 61"
    using fr False bound by (auto simp: need_def free_def [symmetric])
  have "int (rb_size rb) \<le> 2 ^ 61" "0 \<le> int (rb_size rb)" "0 < int need" "int need \<le> 2 ^ 62"
    using bound need by simp_all
  from rb_newCap_ok [OF this] obtain c where c: "rb_newCap (int (rb_size rb)) (int need) = Inr c"
      "int (rb_size rb) \<le> c" "int need \<le> c" by blast
  have upper: "c \<le> max 1024 (2 * int need)"
    using need by (intro rb_newCap_upper [OF _ _ _ c(1)]) auto
  have "int (rb_Buffered rb) < c"
    using c(3) need(2) rb_Buffered_le_size [OF inv] by linarith
  from rb_grow_ok [OF inv c(1) this] obtain rb1 where rb1: "rb_grow get rb (int need) = Inr rb1"
      "rb_inv rb1" "contents rb1 = contents rb" "rb_size rb1 = nat c" by blast
  have room: "length p \<le> rb_Available rb1"
    using c(3) need(1) by (simp add: rb_Available_eq [OF rb1(2)] rb1(3,4))
  have "rb_Write get rb p = rb_Write get rb1 p"
    using rb1(1) room False pne need_def free_def by (intro rb_Write_after_grow) simp_all
  moreover have "nat c \<le> max 1024 (2 * need)" using upper by auto
  moreover obtain rb' where "rb_Write get rb1 p = Inr (length p, None, rb')" "rb_inv rb'"
      "contents rb' = contents rb1 @ p" "rb_size rb' = rb_size rb1"
    using rb_Write_room [OF rb1(2) room] by blast
  ultimately show ?thesis using rb1(3,4) c(2) need(1) by (intro exI [of _ rb']) auto
qed

lemma rb_WriteByte_room:
  assumes inv: "rb_inv rb" and n: "1 \<le> rb_Available rb"
  shows "\<exists>rb'. rb_WriteByte get rb c = Inr (None, rb') \<and> rb_inv rb' \<and> contents rb' = contents rb @ [c]"
proof -
  have pos: "rb_w rb < rb_size rb" "length (rb_buf rb) = rb_size rb"
    using inv n by (auto simp: rb_inv_def rb_Available_def split: if_splits)
  have "take (rb_w rb) (rb_buf rb) @ [c] @ drop (rb_w rb + length [c]) (rb_buf rb) = (rb_buf rb)[rb_w rb := c]"
    using pos by (simp add: upd_conv_take_nth_drop)
  moreover have "[c] \<noteq> []" "length [c] \<le> rb_Available rb"
      "rb_w rb \<ge> rb_r rb \<longrightarrow> length [c] \<le> rb_size rb - rb_w rb"
    using n pos by auto
  note rb_write_linear(2,3) [OF inv this]
  ultimately show ?thesis
    using n pos by (auto simp: rb_WriteByte_def go_set_index_def Let_def)
qed

lemma rb_WriteByte_ok:
  assumes inv: "rb_inv rb" and small: "rb_IsFull rb \<longrightarrow> rb_size rb < 4096"
  shows "\<exists>rb'. rb_WriteByte get rb c = Inr (None, rb') \<and> rb_inv rb' \<and> contents rb' = contents rb @ [c]"
proof (cases "1 \<le> rb_Available rb")
  case True
  then show ?thesis by (rule rb_WriteByte_room [OF inv])
next
  case False
  have buffered: "rb_Buffered rb = rb_size rb"
    using False rb_Available_eq [OF inv] rb_Buffered_le_size [OF inv] by (simp add: length_contents [OF inv])
  have small': "rb_size rb < 4096"
    using small rb_IsFull_iff [OF inv] buffered by (cases "rb_size rb = 0") (auto simp: length_contents [OF inv])
  define cap where "cap = (if rb_size rb = 0 then 1024 else 2 * int (rb_size rb))"
  have "rb_newCap (int (rb_size rb)) 1 = Inr cap"
  proof (cases "rb_size rb = 0")
    case False
    have "go_int (int (rb_size rb) + int (rb_size rb)) = 2 * int (rb_size rb)"
      using small' by (subst go_int_id) auto
    with False small' show ?thesis by (simp add: rb_newCap_def cap_def bufferGrowThreshold_def)
  qed (simp add: rb_newCap_def cap_def DefaultBufferSize_def)
  moreover have "int (rb_Buffered rb) < cap" by (simp add: buffered cap_def)
  ultimately obtain rb1 where rb1: "rb_grow get rb 1 = Inr rb1" "rb_inv rb1"
      "contents rb1 = contents rb" "rb_size rb1 = nat cap"
    using rb_grow_ok [OF inv] by blast
  have room: "1 \<le> rb_Available rb1"
    by (auto simp: rb_Available_eq [OF rb1(2)] rb1(3,4) length_contents [OF inv] buffered cap_def)
  have "rb_WriteByte get rb c = rb_WriteByte get rb1 c"
    using rb1(1) room False by (simp add: rb_WriteByte_def)
  with rb_WriteByte_room [OF rb1(2) room] rb1(3) show ?thesis by simp
qed

text \<open>On a full buffer of 4096 bytes or more the call \<open>grow(1)\<close> keeps the size.\<close>

lemma rb_WriteByte_panics:
  assumes inv: "rb_inv rb" and full: "rb_IsFull rb" and big: "4096 \<le> rb_size rb" "rb_size rb \<le> 2 ^ 61"
  shows "rb_WriteByte get rb c = Inl IndexOutOfRange"
proof -
  have buffered: "rb_Buffered rb = rb_size rb"
    using full rb_IsFull_iff [OF inv] by (simp add: length_contents [OF inv])
  have avail: "rb_Available rb = 0"
    by (simp add: rb_Available_eq [OF inv] length_contents [OF inv] buffered)
  have "go_int (int (rb_size rb) + int (rb_size rb)) = 2 * int (rb_size rb)"
    using big by (subst go_int_id) auto
  moreover have "grow_loop (int (rb_size rb)) 1 = Some (int (rb_size rb))"
    using big by (subst grow_loop.simps) simp
  ultimately have "rb_newCap (int (rb_size rb)) 1 = Inr (int (rb_size rb))"
    using big by (simp add: rb_newCap_def bufferGrowThreshold_def Let_def)
  from rb_grow_cap [OF inv this] buffered big obtain rb1 where
      "rb_grow get rb 1 = Inr rb1" "rb_w rb1 = rb_size rb" "length (rb_buf rb1) = rb_size rb"
    by (auto simp: length_contents [OF inv])
  then show ?thesis by (simp add: rb_WriteByte_def avail go_set_index_def)
qed

lemma rb_New_ok:
  assumes "sz \<le> 2 ^ 62"
  shows "\<exists>rb. rb_New get sz = Inr rb \<and> rb_inv rb \<and> contents rb = [] \<and> sz \<le> int (rb_Cap rb)"
  using CeilToPowerOfTwo_ok [OF assms] by (auto simp: rb_New_def rb_Cap_def nat_power_eq rb_inv_def)

lemma rb_New_cap:
  assumes "sz \<le> 2 ^ 60"
  shows "\<exists>rb. rb_New get sz = Inr rb \<and> rb_inv rb \<and> contents rb = [] \<and> rb_size rb \<le> 2 ^ 60"
proof -
  have "sz \<le> 2 ^ 62" using assms by simp
  from CeilToPowerOfTwo_ok [OF this] obtain k where k: "CeilToPowerOfTwo sz = Inr (2 ^ k)"
      "\<forall>j. 1 \<le> j \<longrightarrow> sz \<le> 2 ^ j \<longrightarrow> k \<le> j" by blast
  then have "k \<le> 60" using assms by simp
  then have "(2::nat) ^ k \<le> 2 ^ 60" by (rule power_increasing) simp
  then show ?thesis using k(1) by (auto simp: rb_New_def nat_power_eq rb_inv_def)
qed

end

end
