(* ===== verification/Fifo.thy ===== *)
theory Fifo
  imports Prelude
begin

text \<open>
  The contract of a byte queue: what the connection and the codecs rely on in the ring buffer and
  in its elastic wrapper. A state \<open>b\<close> that satisfies \<open>inv\<close> stands for the byte list \<open>abs b\<close>;
  \<open>limit\<close> bounds the bytes it can hold. The lemmas of the locale are about any sequence of writes
  and reads.
\<close>

type_synonym 'b fifo_write = "'b \<Rightarrow> byte list \<Rightarrow> (nat \<times> go_error option \<times> 'b) go"
type_synonym 'b fifo_read = "'b \<Rightarrow> byte list \<Rightarrow> (nat \<times> go_error option \<times> byte list \<times> 'b) go"
type_synonym 'b fifo_discard = "'b \<Rightarrow> int \<Rightarrow> (nat \<times> go_error option \<times> 'b) go"

text \<open>A client that interleaves writes with reads into buffers of the given sizes, and the bytes the
  reads returned, in order.\<close>

datatype fifo_op = FWrite "byte list" | FRead nat

fun fifo_run :: "'b fifo_write \<Rightarrow> 'b fifo_read \<Rightarrow> 'b \<Rightarrow> fifo_op list \<Rightarrow> (byte list \<times> 'b) go" where
  "fifo_run wr rd b [] = Inr ([], b)"
| "fifo_run wr rd b (FWrite p # ops) =
     go_bind (wr b p) (\<lambda>(_, _, b'). fifo_run wr rd b' ops)"
| "fifo_run wr rd b (FRead n # ops) =
     go_bind (rd b (replicate n 0))
       (\<lambda>(k, _, p, b'). go_bind (fifo_run wr rd b' ops) (\<lambda>(out, b''). Inr (take k p @ out, b'')))"

fun fifo_written :: "fifo_op list \<Rightarrow> byte list" where
  "fifo_written [] = []"
| "fifo_written (FWrite p # ops) = p @ fifo_written ops"
| "fifo_written (FRead n # ops) = fifo_written ops"

locale byte_fifo =
  fixes inv :: "'b \<Rightarrow> bool" and abs :: "'b \<Rightarrow> byte list" and limit :: nat
    and put :: "'b fifo_write" and read :: "'b fifo_read" and discard :: "'b fifo_discard"
    and peek :: "'b \<Rightarrow> int \<Rightarrow> (byte list \<times> byte list) go"
    and buffered :: "'b \<Rightarrow> nat" and is_empty :: "'b \<Rightarrow> bool" and reset :: "'b \<Rightarrow> 'b"
  assumes write_law: "inv b \<Longrightarrow> length (abs b) + length p \<le> limit \<Longrightarrow>
            \<exists>b'. put b p = Inr (length p, None, b') \<and> inv b' \<and> abs b' = abs b @ p"
    and read_law: "inv b \<Longrightarrow>
            \<exists>e b'. read b q = Inr (min (length q) (length (abs b)), e,
                                  go_copy q (take (length q) (abs b)), b')
                 \<and> inv b' \<and> abs b' = drop (length q) (abs b)"
    and discard_law: "inv b \<Longrightarrow>
            \<exists>e b'. discard b n = Inr (min (nat n) (length (abs b)), e, b')
                 \<and> inv b' \<and> abs b' = drop (nat n) (abs b)"
    and peek_law: "inv b \<Longrightarrow>
            \<exists>h t. peek b n = Inr (h, t) \<and> h @ t = (if n \<le> 0 then abs b else take (nat n) (abs b))"
    and buffered_law: "inv b \<Longrightarrow> buffered b = length (abs b)"
    and is_empty_law: "inv b \<Longrightarrow> is_empty b \<longleftrightarrow> abs b = []"
    and reset_law: "inv b \<Longrightarrow> inv (reset b) \<and> abs (reset b) = []"
begin

lemma write_read_roundtrip:
  assumes "inv b" and "abs b = []" and "length p \<le> limit"
  shows "\<exists>b' e b''. put b p = Inr (length p, None, b')
           \<and> read b' (replicate (length p) 0) = Inr (length p, e, p, b'') \<and> inv b'' \<and> abs b'' = []"
proof -
  have "length (abs b) + length p \<le> limit" using assms by simp
  from write_law [OF assms(1) this] obtain b' where b': "put b p = Inr (length p, None, b')"
      "inv b'" "abs b' = p"
    using assms(2) by auto
  with read_law [OF b'(2), of "replicate (length p) 0"] show ?thesis
    by (auto simp: go_copy_def)
qed

lemma run_ok:
  assumes "inv b" and "length (abs b) + length (fifo_written ops) \<le> limit"
  shows "\<exists>out b'. fifo_run put read b ops = Inr (out, b') \<and> inv b'
           \<and> out @ abs b' = abs b @ fifo_written ops"
  using assms
proof (induction ops arbitrary: b)
  case Nil
  then show ?case by simp
next
  case (Cons op ops)
  show ?case
  proof (cases op)
    case (FWrite p)
    with Cons.prems have "length (abs b) + length p \<le> limit" by simp
    from write_law [OF Cons.prems(1) this] obtain b' where
        b': "put b p = Inr (length p, None, b')" "inv b'" "abs b' = abs b @ p" by blast
    then have "length (abs b') + length (fifo_written ops) \<le> limit"
      using Cons.prems FWrite by simp
    with Cons.IH [OF b'(2)] b' FWrite show ?thesis by auto
  next
    case (FRead n)
    let ?q = "replicate n (0::byte)"
    from read_law [OF Cons.prems(1), of ?q] obtain e b' where
        b': "read b ?q = Inr (min n (length (abs b)), e, go_copy ?q (take n (abs b)), b')"
            "inv b'" "abs b' = drop n (abs b)" by auto
    have "length (abs b') + length (fifo_written ops) \<le> limit"
      using Cons.prems FRead b'(3) by simp
    from Cons.IH [OF b'(2) this] obtain out b'' where
        IH: "fifo_run put read b' ops = Inr (out, b'')" "inv b''"
            "out @ abs b'' = abs b' @ fifo_written ops" by blast
    have "take (min n (length (abs b))) (go_copy ?q (take n (abs b))) = take n (abs b)"
      by (simp add: go_copy_def min_def)
    with FRead b' IH show ?thesis by simp
  qed
qed

end

end
