(* ===== verification/RingFifo.thy ===== *)
theory RingFifo
  imports RingBuffer Fifo
begin

text \<open>
  The ring buffer meets the contract of a byte queue, for any state of the slice pool it allocates
  from, and the properties of the ring buffer.
\<close>

definition rb_ok :: "Buffer \<Rightarrow> bool" where
  "rb_ok rb \<longleftrightarrow> rb_inv rb \<and> rb_size rb \<le> 2 ^ 60"

definition rb_limit :: nat where
  "rb_limit = 2 ^ 59"

context byte_source
begin

lemma rb_Write_fifo:
  assumes ok: "rb_ok rb" and room: "length (contents rb) + length p \<le> rb_limit"
  shows "\<exists>rb'. rb_Write get rb p = Inr (length p, None, rb') \<and> rb_ok rb' \<and> contents rb' = contents rb @ p"
proof -
  have "rb_inv rb" and "rb_size rb + length p \<le> 2 ^ 61"
    using ok room by (auto simp: rb_ok_def rb_limit_def)
  from rb_Write_ok [OF this] obtain rb' where rb': "rb_Write get rb p = Inr (length p, None, rb')"
      "rb_inv rb'" "contents rb' = contents rb @ p"
      "rb_size rb' \<le> max (rb_size rb) (max 1024 (2 * (length (contents rb) + length p)))"
    by blast
  moreover have "rb_size rb' \<le> 2 ^ 60"
    using rb'(4) ok room by (auto simp: rb_ok_def rb_limit_def)
  ultimately show ?thesis by (auto simp: rb_ok_def)
qed

end

lemma rb_Read_fifo:
  assumes ok: "rb_ok rb"
  shows "\<exists>e rb'. rb_Read rb q = Inr (min (length q) (length (contents rb)), e,
                   go_copy q (take (length q) (contents rb)), rb')
           \<and> rb_ok rb' \<and> contents rb' = drop (length q) (contents rb)"
proof -
  have "rb_inv rb" using ok by (simp add: rb_ok_def)
  from rb_Read_ok [OF this, of q] ok show ?thesis
    by (auto simp: rb_ok_def min_def)
qed

sublocale byte_source \<subseteq> ring: byte_fifo rb_ok contents rb_limit "rb_Write get" rb_Read rb_Discard rb_Peek
    rb_Buffered rb_IsEmpty rb_Reset
proof unfold_locales
  fix b :: Buffer
  assume ok: "rb_ok b"
  then have inv: "rb_inv b" by (simp add: rb_ok_def)
  show "\<exists>e b'. rb_Discard b n = Inr (min (nat n) (length (contents b)), e, b')
          \<and> rb_ok b' \<and> contents b' = drop (nat n) (contents b)" for n
    using rb_Discard_ok [OF inv, of n] ok by (auto simp: rb_ok_def)
  show "\<exists>h t. rb_Peek b n = Inr (h, t)
          \<and> h @ t = (if n \<le> 0 then contents b else take (nat n) (contents b))" for n
    by (rule rb_Peek_ok [OF inv])
  show "rb_Buffered b = length (contents b)" by (simp add: length_contents [OF inv])
  show "rb_IsEmpty b \<longleftrightarrow> contents b = []" by (simp add: rb_IsEmpty_def contents_eq_Nil [OF inv])
  show "rb_ok (rb_Reset b) \<and> contents (rb_Reset b) = []" using ok by (simp add: rb_ok_def)
qed (fact rb_Write_fifo rb_Read_fifo)+

context byte_source
begin

lemmas ring_run = ring.run_ok [unfolded rb_limit_def]
lemmas ring_roundtrip = ring.write_read_roundtrip [unfolded rb_limit_def]

end

subsection \<open>Properties\<close>

text \<open>C1: the ring buffer is a first-in-first-out queue under any interleaving of writes and reads:
  from a well-formed buffer, as long as what it holds and what is written stays below \<open>2^59\<close> bytes,
  every call succeeds, nothing panics (growing and wrapping around included), and the bytes read
  followed by the bytes still buffered are the bytes buffered at the start followed by the bytes
  written, in order.\<close>

theorem ring_buffer_fifo:
  assumes "pool_inv p" and "rb_ok rb"
    and "length (contents rb) + length (fifo_written ops) \<le> 2 ^ 59"
  shows "\<exists>out rb'. fifo_run (rb_Write (pool_bytes sel p)) rb_Read rb ops = Inr (out, rb')
           \<and> rb_ok rb' \<and> out @ contents rb' = contents rb @ fifo_written ops"
proof -
  have "byte_source (pool_bytes sel p)" using assms(1) by (rule byte_source_pool_bytes)
  then show ?thesis
    using assms(2,3) by (rule byte_source.ring_run)
qed

definition ring_example :: "byte list \<Rightarrow> Buffer" where
  "ring_example bs = \<lparr>rb_buf = bs, rb_size = length bs, rb_r = 0, rb_w = 0, rb_isEmpty = True\<rparr>"

lemma rb_ok_example: "length bs \<le> 2 ^ 60 \<Longrightarrow> rb_ok (ring_example bs)"
  by (simp add: rb_ok_def rb_inv_def ring_example_def)

theorem ring_buffer_fifo_witness:
  "pool_inv builtinPool \<and> rb_ok (ring_example [0, 0, 0, 0])
     \<and> fifo_run (rb_Write (pool_bytes (\<lambda>_. None) builtinPool)) rb_Read (ring_example [0, 0, 0, 0])
          [FWrite [1, 2, 3], FRead 2, FWrite [4, 5]]
        = Inr ([1, 2], \<lparr>rb_buf = [5, 2, 3, 4], rb_size = 4, rb_r = 2, rb_w = 1, rb_isEmpty = False\<rparr>)
     \<and> (\<exists>out rb'. fifo_run (rb_Write (pool_bytes (\<lambda>_. None) builtinPool)) rb_Read (ring_example [0, 0, 0, 0])
          [FWrite [1, 2, 3], FRead 2, FWrite [4, 5]] = Inr (out, rb')
          \<and> out @ contents rb' = [1, 2, 3, 4, 5])"
proof -
  have h: "pool_inv builtinPool" "rb_ok (ring_example [0, 0, 0, 0])"
    by (rule pool_inv_builtin, rule rb_ok_example) simp
  have run: "fifo_run (rb_Write g) rb_Read (ring_example [0, 0, 0, 0])
          [FWrite [1, 2, 3], FRead 2, FWrite [4, 5]]
        = Inr ([1, 2], \<lparr>rb_buf = [5, 2, 3, 4], rb_size = 4, rb_r = 2, rb_w = 1, rb_isEmpty = False\<rparr>)" for g
    by (simp add: ring_example_def rb_Write_def rb_Read_def rb_Available_def Let_def go_defs
        go_copy_def eval_nat_numeral)
  show ?thesis
    using h run ring_buffer_fifo [OF h, of "[FWrite [1, 2, 3], FRead 2, FWrite [4, 5]]" "\<lambda>_. None"]
    by (auto simp: ring_example_def)
qed

text \<open>\<open>Peek\<close> returns, in two pieces, the first \<open>n\<close> buffered bytes (all of them for \<open>n \<le> 0\<close>) and
  \<open>Bytes\<close> all of them, without panicking; \<open>Discard\<close> drops the first \<open>n\<close> and reports how many it
  dropped; \<open>ReadByte\<close> takes the first; and the counters agree with the queue: \<open>Buffered\<close> is its
  length, \<open>Available\<close> what is left of the capacity.\<close>

theorem ring_buffer_operations:
  assumes "rb_inv rb"
  shows "(\<exists>h t. rb_Peek rb n = Inr (h, t) \<and> h @ t = (if n \<le> 0 then contents rb else take (nat n) (contents rb)))
     \<and> rb_Bytes rb = Inr (contents rb)
     \<and> (\<exists>rb'. rb_Discard rb n = Inr (min (nat n) (length (contents rb)), None, rb')
              \<and> rb_inv rb' \<and> contents rb' = drop (nat n) (contents rb))
     \<and> (case contents rb of
          [] \<Rightarrow> rb_ReadByte rb = Inr (0, Some ErrIsEmpty, rb)
        | b # bs \<Rightarrow> \<exists>rb'. rb_ReadByte rb = Inr (b, None, rb') \<and> rb_inv rb' \<and> contents rb' = bs)
     \<and> rb_Buffered rb = length (contents rb) \<and> rb_Available rb + rb_Buffered rb = rb_Cap rb
     \<and> rb_IsEmpty rb = (contents rb = [])"
proof -
  have len: "length (contents rb) = rb_Buffered rb" by (rule length_contents [OF assms])
  have cap: "rb_Available rb + rb_Buffered rb = rb_Cap rb"
    using rb_Available_eq [OF assms] rb_Buffered_le_size [OF assms] by (simp add: rb_Cap_def len)
  have byte: "case contents rb of
          [] \<Rightarrow> rb_ReadByte rb = Inr (0, Some ErrIsEmpty, rb)
        | b # bs \<Rightarrow> \<exists>rb'. rb_ReadByte rb = Inr (b, None, rb') \<and> rb_inv rb' \<and> contents rb' = bs"
    using rb_ReadByte_ok [OF assms] by (auto split: list.splits)
  show ?thesis
    using rb_Peek_ok [OF assms, of n] rb_Bytes_ok [OF assms] rb_Discard_ok [OF assms, of n] byte cap len
      contents_eq_Nil [OF assms]
    by (auto simp: rb_IsEmpty_def)
qed

theorem ring_buffer_operations_witness:
  "let rb = \<lparr>rb_buf = [5, 2, 3, 4], rb_size = 4, rb_r = 2, rb_w = 1, rb_isEmpty = False\<rparr>
   in rb_inv rb \<and> rb_Peek rb 2 = Inr ([3, 4], []) \<and> rb_Peek rb 0 = Inr ([3, 4], [5])
      \<and> rb_Bytes rb = Inr [3, 4, 5]"
proof -
  let ?rb = "\<lparr>rb_buf = [5, 2, 3, 4], rb_size = 4, rb_r = 2, rb_w = 1, rb_isEmpty = False\<rparr>"
  have inv: "rb_inv ?rb" by (simp add: rb_inv_def)
  have "rb_Bytes ?rb = Inr [3, 4, 5]"
    using ring_buffer_operations [OF inv, of 0] by (simp add: contents_def eval_nat_numeral)
  moreover have "rb_Peek ?rb 2 = Inr ([3, 4], [])" "rb_Peek ?rb 0 = Inr ([3, 4], [5])"
    by (simp_all add: rb_Peek_def rb_peekAll_def go_defs eval_nat_numeral)
  ultimately show ?thesis using inv by simp
qed

text \<open>\<open>WriteByte\<close> appends one byte to any well-formed buffer except a full one of 4096 bytes or
  more, where it panics with an index out of range: it asks \<open>grow\<close> for a total capacity of 1, and
  above the threshold \<open>grow\<close> then keeps the size.\<close>

theorem WriteByte_appends_or_panics:
  assumes "pool_inv p" and "rb_inv rb" and "rb_size rb \<le> 2 ^ 61"
  shows "if rb_IsFull rb \<and> 4096 \<le> rb_size rb
         then rb_WriteByte (pool_bytes sel p) rb c = Inl IndexOutOfRange
         else \<exists>rb'. rb_WriteByte (pool_bytes sel p) rb c = Inr (None, rb') \<and> rb_inv rb'
                \<and> contents rb' = contents rb @ [c]"
proof -
  have src: "byte_source (pool_bytes sel p)" using assms(1) by (rule byte_source_pool_bytes)
  show ?thesis
    using byte_source.rb_WriteByte_panics [OF src assms(2) _ _ assms(3)]
      byte_source.rb_WriteByte_ok [OF src assms(2)] by auto
qed

theorem WriteByte_appends_or_panics_witness:
  "let full = \<lparr>rb_buf = replicate 4096 7, rb_size = 4096, rb_r = 0, rb_w = 0, rb_isEmpty = False\<rparr>
   in rb_inv full \<and> rb_IsFull full
      \<and> rb_WriteByte (pool_bytes (\<lambda>_. None) builtinPool) full 1 = Inl IndexOutOfRange"
proof -
  let ?full = "\<lparr>rb_buf = replicate 4096 7, rb_size = 4096, rb_r = 0, rb_w = 0, rb_isEmpty = False\<rparr>"
  have h: "rb_inv ?full" "rb_IsFull ?full" "rb_size ?full \<le> 2 ^ 61"
    by (simp_all add: rb_inv_def rb_IsFull_def)
  then show ?thesis
    using WriteByte_appends_or_panics [OF pool_inv_builtin h(1,3), of "\<lambda>_. None" 1] by (simp add: Let_def)
qed

end
