(* ===== verification/RingIO.thy ===== *)
theory RingIO
  imports RingFifo
begin

text \<open>
  \<open>ReadFrom\<close> and \<open>WriteTo\<close> of the ring buffer. The \<open>io.Reader\<close> and \<open>io.Writer\<close> at the other end
  are arguments: a reader gets the length of the slice it may fill and answers with a count, the
  bytes it stored and an error; a writer gets the bytes and answers with a count and an error.
\<close>

type_synonym 's io_reader = "'s \<Rightarrow> nat \<Rightarrow> (int \<times> byte list \<times> go_error option) \<times> 's"
type_synonym 's io_writer = "'s \<Rightarrow> byte list \<Rightarrow> (nat \<times> go_error option) \<times> 's"

subsection \<open>ReadFrom\<close>

text \<open>One call \<open>m, err = r.Read(rb.buf[lo:hi])\<close> with the check and the update of \<open>rb.w\<close> after it.\<close>

definition rb_fill :: "'s io_reader \<Rightarrow> Buffer \<Rightarrow> 's \<Rightarrow> nat \<Rightarrow> nat \<Rightarrow> (int \<times> go_error option \<times> Buffer \<times> 's) go" where
  "rb_fill rd rb s lo hi =
     go_bind (go_slice (rb_buf rb) lo hi)
       (\<lambda>dst. let ((m, bs, err), s') = rd s (length dst) in
          if m < 0 then Inl (Panicked ''RingBuffer.ReadFrom: reader returned negative count from Read'')
          else go_bind (go_copy_at (rb_buf rb) lo (take (length dst) bs))
                 (\<lambda>b. go_bind (go_mod (rb_w rb + nat m) (rb_size rb))
                    (\<lambda>w'. Inr (m, err, rb\<lparr>rb_buf := b, rb_w := w'\<rparr>, s'))))"

datatype ('r, 'a) loop_step = Return 'r | Continue 'a

text \<open>One iteration of the loop, from \<open>n\<close> bytes read so far.\<close>

definition rb_ReadFrom_step ::
  "(nat \<Rightarrow> byte list) \<Rightarrow> 's io_reader \<Rightarrow> Buffer \<times> 's \<times> int \<Rightarrow>
   (int \<times> go_error option \<times> Buffer \<times> 's, Buffer \<times> 's \<times> int) loop_step go" where
  "rb_ReadFrom_step get rd = (\<lambda>(rb0, s0, n0).
     go_bind (if rb_Available rb0 < MinRead then rb_grow get rb0 (int (rb_Buffered rb0 + MinRead)) else Inr rb0)
       (\<lambda>rb. if rb_w rb \<ge> rb_r rb
             then go_bind (rb_fill rd rb s0 (rb_w rb) (length (rb_buf rb)))
               (\<lambda>(m, err, rb1, s1).
                  let rb1 = rb1\<lparr>rb_isEmpty := False\<rparr>; n1 = go_int (n0 + m) in
                  if err = Some EOF then Inr (Return (n1, None, rb1, s1))
                  else if err \<noteq> None then Inr (Return (n1, err, rb1, s1))
                  else go_bind (rb_fill rd rb1 s1 0 (rb_r rb1))
                    (\<lambda>(m, err, rb2, s2).
                       let n2 = go_int (n1 + m) in
                       if err = Some EOF then Inr (Return (n2, None, rb2, s2))
                       else if err \<noteq> None then Inr (Return (n2, err, rb2, s2))
                       else Inr (Continue (rb2, s2, n2))))
             else go_bind (rb_fill rd rb s0 (rb_w rb) (rb_r rb))
               (\<lambda>(m, err, rb1, s1).
                  let rb1 = rb1\<lparr>rb_isEmpty := False\<rparr>; n1 = go_int (n0 + m) in
                  if err = Some EOF then Inr (Return (n1, None, rb1, s1))
                  else if err \<noteq> None then Inr (Return (n1, err, rb1, s1))
                  else Inr (Continue (rb1, s1, n1)))))"

text \<open>The loop ends only when the reader does, so its value is \<open>None\<close> when it runs forever.\<close>

partial_function (option) rb_ReadFrom_loop ::
  "(nat \<Rightarrow> byte list) \<Rightarrow> 's io_reader \<Rightarrow> Buffer \<times> 's \<times> int \<Rightarrow> (int \<times> go_error option \<times> Buffer \<times> 's) go option" where
  "rb_ReadFrom_loop get rd st =
     (case rb_ReadFrom_step get rd st of
        Inl p \<Rightarrow> Some (Inl p)
      | Inr (Return res) \<Rightarrow> Some (Inr res)
      | Inr (Continue st') \<Rightarrow> rb_ReadFrom_loop get rd st')"

definition rb_ReadFrom ::
  "(nat \<Rightarrow> byte list) \<Rightarrow> 's io_reader \<Rightarrow> Buffer \<Rightarrow> 's \<Rightarrow> (int \<times> go_error option \<times> Buffer \<times> 's) go" where
  "rb_ReadFrom get rd rb s =
     (case rb_ReadFrom_loop get rd (rb, s, 0) of None \<Rightarrow> Inl Diverges | Some res \<Rightarrow> res)"

subsection \<open>WriteTo\<close>

definition rb_WriteTo :: "'s io_writer \<Rightarrow> Buffer \<Rightarrow> 's \<Rightarrow> (nat \<times> go_error option \<times> Buffer \<times> 's) go" where
  "rb_WriteTo wr rb s =
     (if rb_isEmpty rb then Inr (0, Some ErrIsEmpty, rb, s)
      else if rb_w rb > rb_r rb
      then let n = rb_w rb - rb_r rb in
           go_bind (go_slice (rb_buf rb) (rb_r rb) (rb_r rb + n))
             (\<lambda>src. let ((m, err), s') = wr s src in
                if m > n then Inl (Panicked ''RingBuffer.WriteTo: invalid Write count'')
                else let rb1 = rb\<lparr>rb_r := rb_r rb + m\<rparr>;
                         rb2 = (if rb_r rb1 = rb_w rb1 then rb_Reset rb1 else rb1)
                     in if err \<noteq> None then Inr (m, err, rb2, s')
                        else if \<not> rb_isEmpty rb2 then Inr (m, Some ErrShortWrite, rb2, s')
                        else Inr (m, None, rb2, s'))
      else let n = rb_size rb - rb_r rb + rb_w rb in
           if rb_r rb + n \<le> rb_size rb
           then go_bind (go_slice (rb_buf rb) (rb_r rb) (rb_r rb + n))
                  (\<lambda>src. let ((m, err), s') = wr s src in
                     if m > n then Inl (Panicked ''RingBuffer.WriteTo: invalid Write count'')
                     else go_bind (go_mod (rb_r rb + m) (rb_size rb))
                       (\<lambda>r'. let rb1 = rb\<lparr>rb_r := r'\<rparr>;
                                 rb2 = (if rb_r rb1 = rb_w rb1 then rb_Reset rb1 else rb1)
                             in if err \<noteq> None then Inr (m, err, rb2, s')
                                else if \<not> rb_isEmpty rb2 then Inr (m, Some ErrShortWrite, rb2, s')
                                else Inr (m, None, rb2, s')))
           else let c1 = rb_size rb - rb_r rb in
                go_bind (go_slice (rb_buf rb) (rb_r rb) (length (rb_buf rb)))
                  (\<lambda>src1. let ((m, err), s1) = wr s src1 in
                     if m > c1 then Inl (Panicked ''RingBuffer.WriteTo: invalid Write count'')
                     else go_bind (go_mod (rb_r rb + m) (rb_size rb))
                       (\<lambda>r'. let rb1 = rb\<lparr>rb_r := r'\<rparr> in
                          if err \<noteq> None then Inr (m, err, rb1, s1)
                          else if m < c1 then Inr (m, Some ErrShortWrite, rb1, s1)
                          else let cum = m; c2 = n - c1 in
                               go_bind (go_slice (rb_buf rb1) 0 c2)
                                 (\<lambda>src2. let ((m, err), s2) = wr s1 src2 in
                                    if m > c2 then Inl (Panicked ''RingBuffer.WriteTo: invalid Write count'')
                                    else let rb2 = rb1\<lparr>rb_r := m\<rparr>;
                                             cum = cum + m;
                                             rb3 = (if rb_r rb2 = rb_w rb2 then rb_Reset rb2 else rb2)
                                         in if err \<noteq> None then Inr (cum, err, rb3, s2)
                                            else if \<not> rb_isEmpty rb3 then Inr (cum, Some ErrShortWrite, rb3, s2)
                                            else Inr (cum, None, rb3, s2)))))"

subsection \<open>Reading from a byte reader\<close>

text \<open>\<open>bytes.Reader\<close> of the standard library: it fills the slice as far as it can and answers
  \<open>io.EOF\<close> once nothing is left. Its state is what is left.\<close>

definition bytes_reader :: "byte list io_reader" where
  "bytes_reader s k =
     (if s = [] then ((0, [], Some EOF), s) else ((int (min k (length s)), take k s, None), drop k s))"

lemma rb_fill_eof:
  assumes "lo \<le> hi" "hi \<le> length (rb_buf rb)" "rb_w rb < rb_size rb"
  shows "rb_fill bytes_reader rb [] lo hi = Inr (0, Some EOF, rb, [])"
  using assms by (simp add: rb_fill_def bytes_reader_def go_defs)

lemma rb_fill_nothing:
  assumes "rb_w rb < rb_size rb" "s \<noteq> []"
  shows "rb_fill bytes_reader rb s 0 0 = Inr (0, None, rb, s)"
  using assms by (simp add: rb_fill_def bytes_reader_def go_defs)

lemma rb_fill_append:
  assumes inv: "rb_inv rb" and hi: "rb_w rb < hi" "hi \<le> rb_size rb" "hi - rb_w rb \<le> rb_Available rb"
    and s: "s \<noteq> []"
  defines "k \<equiv> hi - rb_w rb"
  shows "\<exists>rb1. rb_fill bytes_reader rb s (rb_w rb) hi = Inr (int (min k (length s)), None, rb1, drop k s)
           \<and> rb_inv (rb1\<lparr>rb_isEmpty := False\<rparr>) \<and> contents (rb1\<lparr>rb_isEmpty := False\<rparr>) = contents rb @ take k s
           \<and> rb_size rb1 = rb_size rb \<and> rb_r rb1 = rb_r rb
           \<and> (rb_w rb1 = (if rb_w rb + min k (length s) = rb_size rb then 0 else rb_w rb + min k (length s)))"
proof -
  let ?p = "take k s"
  have len: "length (rb_buf rb) = rb_size rb" using inv by (simp add: rb_inv_def)
  have p: "?p \<noteq> []" "length ?p \<le> rb_Available rb" "length ?p = min k (length s)"
    using hi s by (auto simp: k_def)
  have lin: "rb_w rb \<ge> rb_r rb \<longrightarrow> length ?p \<le> rb_size rb - rb_w rb"
    using hi by (auto simp: k_def)
  note wl = rb_write_linear [OF inv p(1,2) lin]
  have le: "rb_w rb + length ?p \<le> rb_size rb" using hi by (auto simp: k_def)
  then have md: "(rb_w rb + length ?p) mod rb_size rb =
      (if rb_w rb + length ?p = rb_size rb then 0 else rb_w rb + length ?p)"
    using hi by (auto simp: mod_if)
  have dst: "length (drop (rb_w rb) (take hi (rb_buf rb))) = k" using hi len by (simp add: k_def)
  have "rb_fill bytes_reader rb s (rb_w rb) hi =
      Inr (int (min k (length s)), None,
           rb\<lparr>rb_buf := take (rb_w rb) (rb_buf rb) @ ?p @ drop (rb_w rb + length ?p) (rb_buf rb),
              rb_w := (if rb_w rb + length ?p = rb_size rb then 0 else rb_w rb + length ?p)\<rparr>, drop k s)"
    unfolding rb_fill_def go_slice_def bytes_reader_def
    using hi len s wl(1) md dst p(3) by (simp add: Let_def go_mod_def)
  then show ?thesis using wl(2,3) p(3) by (simp add: min.commute)
qed

lemma rb_fill_wrapped:
  assumes inv: "rb_inv rb" and w: "rb_w rb = 0" "\<not> rb_isEmpty rb" and s: "s \<noteq> []"
  shows "\<exists>rb1. rb_fill bytes_reader rb s 0 (rb_r rb) = Inr (int (min (rb_r rb) (length s)), None, rb1, drop (rb_r rb) s)
           \<and> rb_inv rb1 \<and> \<not> rb_isEmpty rb1 \<and> contents rb1 = contents rb @ take (rb_r rb) s \<and> rb_size rb1 = rb_size rb"
proof (cases "rb_r rb = 0")
  case True
  then show ?thesis
    using inv w s rb_inv_nonempty [OF inv w(2)] rb_fill_nothing [of rb s] by simp
next
  case False
  have "rb_w rb < rb_r rb" "rb_r rb \<le> rb_size rb" "rb_r rb - rb_w rb \<le> rb_Available rb"
    using False w rb_inv_nonempty [OF inv w(2)] by (auto simp: rb_Available_def)
  from rb_fill_append [OF inv this s] w obtain rb1 where
    f: "rb_fill bytes_reader rb s 0 (rb_r rb) = Inr (int (min (rb_r rb) (length s)), None, rb1, drop (rb_r rb) s)"
    and g: "rb_inv (rb1\<lparr>rb_isEmpty := False\<rparr>)" "contents (rb1\<lparr>rb_isEmpty := False\<rparr>) = contents rb @ take (rb_r rb) s"
      "rb_size rb1 = rb_size rb"
    by auto
  have "\<not> rb_isEmpty rb1"
    using f w(2) by (auto simp: rb_fill_def bytes_reader_def go_defs split: if_splits)
  then have "rb1\<lparr>rb_isEmpty := False\<rparr> = rb1" by simp
  with f g \<open>\<not> rb_isEmpty rb1\<close> show ?thesis by simp
qed

text \<open>The result of an iteration on the source \<open>s\<close> when it makes progress: it has appended a
  non-empty prefix of \<open>s\<close>, and it returns only with all of it.\<close>

definition readfrom_progress ::
  "Buffer \<Rightarrow> byte list \<Rightarrow> int \<Rightarrow>
   (int \<times> go_error option \<times> Buffer \<times> byte list, Buffer \<times> byte list \<times> int) loop_step \<Rightarrow> bool" where
  "readfrom_progress rb s n st \<longleftrightarrow>
     (\<exists>rb' c s'. s = c @ s' \<and> c \<noteq> [] \<and> rb_ok rb' \<and> contents rb' = contents rb @ c
        \<and> (st = Continue (rb', s', n + int (length c))
           \<or> (s' = [] \<and> st = Return (n + int (length c), None, rb', []))))"

context byte_source
begin

lemma rb_ReadFrom_room:
  assumes ok: "rb_ok rb" and lim: "length (contents rb) + MinRead \<le> 2 ^ 59"
  shows "\<exists>rb1. (if rb_Available rb < MinRead then rb_grow get rb (int (rb_Buffered rb + MinRead)) else Inr rb) = Inr rb1
           \<and> rb_ok rb1 \<and> contents rb1 = contents rb \<and> MinRead \<le> rb_Available rb1"
proof (cases "rb_Available rb < MinRead")
  case False
  with ok show ?thesis by simp
next
  case True
  have inv: "rb_inv rb" using ok by (simp add: rb_ok_def)
  have len: "length (contents rb) = rb_Buffered rb" by (rule length_contents [OF inv])
  define need where "need = int (rb_Buffered rb + MinRead)"
  have lt: "int (rb_size rb) < need" and need: "0 < need" "need \<le> 2 ^ 59"
    using True lim len rb_Available_eq [OF inv] by (auto simp: need_def MinRead_def)
  have sz: "int (rb_size rb) \<le> 2 ^ 61" "0 \<le> int (rb_size rb)" using ok by (auto simp: rb_ok_def)
  have "need \<le> 2 ^ 62" using need(2) by simp
  from rb_newCap_ok [OF sz need(1) this] obtain c where
      c: "rb_newCap (int (rb_size rb)) need = Inr c" "need \<le> c" by blast
  have upper: "c \<le> max 1024 (2 * need)"
    using need by (intro rb_newCap_upper [OF sz(2) lt _ c(1)]) simp
  have "int (rb_Buffered rb) < c" using c(2) by (simp add: need_def MinRead_def)
  from rb_grow_ok [OF inv c(1) this] obtain rb1 where rb1: "rb_grow get rb need = Inr rb1" "rb_inv rb1"
      "contents rb1 = contents rb" "rb_size rb1 = nat c" by blast
  have "MinRead \<le> rb_Available rb1"
    using c(2) by (simp add: rb_Available_eq [OF rb1(2)] rb1(3,4) len need_def)
  moreover have "rb_ok rb1" using rb1(2,4) upper need(2) by (auto simp: rb_ok_def)
  ultimately show ?thesis using True rb1 by (auto simp: need_def)
qed

lemma rb_ReadFrom_step_eof:
  assumes ok: "rb_ok rb" and lim: "length (contents rb) + MinRead \<le> 2 ^ 59"
  shows "\<exists>rb1. rb_ReadFrom_step get bytes_reader (rb, [], n) = Inr (Return (go_int n, None, rb1\<lparr>rb_isEmpty := False\<rparr>, []))
           \<and> rb_ok rb1 \<and> contents rb1 = contents rb \<and> MinRead \<le> rb_Available rb1"
proof -
  from rb_ReadFrom_room [OF ok lim] obtain rb1 where
    room: "(if rb_Available rb < MinRead then rb_grow get rb (int (rb_Buffered rb + MinRead)) else Inr rb) = Inr rb1"
    and rb1: "rb_ok rb1" "contents rb1 = contents rb" "MinRead \<le> rb_Available rb1" by blast
  have b: "length (rb_buf rb1) = rb_size rb1" "rb_w rb1 < rb_size rb1" "rb_r rb1 < rb_size rb1"
    using rb1 by (auto simp: rb_ok_def rb_inv_def MinRead_def rb_Available_def split: if_splits)
  have "rb_w rb1 \<le> length (rb_buf rb1)" "rb_r rb1 \<le> length (rb_buf rb1)" using b by simp_all
  then show ?thesis unfolding rb_ReadFrom_step_def using room rb1 b
    by (auto simp: rb_fill_eof Let_def)
qed

lemma rb_ReadFrom_step_progress:
  assumes ok: "rb_ok rb" and lim: "length (contents rb) + MinRead \<le> 2 ^ 59" and s: "s \<noteq> []"
    and n: "0 \<le> n" "n + int (length s) < 2 ^ 63"
  shows "\<exists>st. rb_ReadFrom_step get bytes_reader (rb, s, n) = Inr st \<and> readfrom_progress rb s n st"
proof -
  from rb_ReadFrom_room [OF ok lim] obtain rb1 where
    room: "(if rb_Available rb < MinRead then rb_grow get rb (int (rb_Buffered rb + MinRead)) else Inr rb) = Inr rb1"
    and rb1: "rb_ok rb1" "contents rb1 = contents rb" "MinRead \<le> rb_Available rb1" by blast
  have inv: "rb_inv rb1" using rb1(1) by (simp add: rb_ok_def)
  have b: "length (rb_buf rb1) = rb_size rb1" "rb_w rb1 < rb_size rb1" "rb_r rb1 < rb_size rb1"
    using rb1 by (auto simp: rb_ok_def rb_inv_def MinRead_def rb_Available_def split: if_splits)
  have cnt: "go_int (n + int j) = n + int j" if "j \<le> length s" for j
    using n that by (intro go_int_id) auto
  show ?thesis
  proof (cases "rb_r rb1 \<le> rb_w rb1")
    case False
    define k where "k = rb_r rb1 - rb_w rb1"
    have "rb_w rb1 < rb_r rb1" "rb_r rb1 \<le> rb_size rb1" "rb_r rb1 - rb_w rb1 \<le> rb_Available rb1"
      using False b by (auto simp: rb_Available_def)
    from rb_fill_append [OF inv this s, folded k_def] obtain rb2 where
      f: "rb_fill bytes_reader rb1 s (rb_w rb1) (rb_r rb1) = Inr (int (min k (length s)), None, rb2, drop k s)"
      and rb2: "rb_inv (rb2\<lparr>rb_isEmpty := False\<rparr>)" "contents (rb2\<lparr>rb_isEmpty := False\<rparr>) = contents rb1 @ take k s"
        "rb_size rb2 = rb_size rb1" by blast
    have kpos: "take k s \<noteq> []" using False s by (simp add: k_def)
    have "rb_ReadFrom_step get bytes_reader (rb, s, n) =
        Inr (Continue (rb2\<lparr>rb_isEmpty := False\<rparr>, drop k s, n + int (min k (length s))))"
      unfolding rb_ReadFrom_step_def using room False f cnt [of "min k (length s)"] by (simp add: Let_def)
    moreover have "readfrom_progress rb s n
        (Continue (rb2\<lparr>rb_isEmpty := False\<rparr>, drop k s, n + int (min k (length s))))"
      unfolding readfrom_progress_def
      using rb2 rb1 kpos
      by (intro exI [of _ "rb2\<lparr>rb_isEmpty := False\<rparr>"] exI [of _ "take k s"] exI [of _ "drop k s"])
         (auto simp: rb_ok_def min.commute)
    ultimately show ?thesis by blast
  next
    case True
    define k where "k = rb_size rb1 - rb_w rb1"
    have "rb_w rb1 < rb_size rb1" "rb_size rb1 \<le> rb_size rb1" "rb_size rb1 - rb_w rb1 \<le> rb_Available rb1"
      using True b rb1(3) by (auto simp: rb_Available_def MinRead_def split: if_splits)
    from rb_fill_append [OF inv this s, folded k_def] b(1) obtain rb2 where
      f: "rb_fill bytes_reader rb1 s (rb_w rb1) (length (rb_buf rb1)) = Inr (int (min k (length s)), None, rb2, drop k s)"
      and rb2: "rb_inv (rb2\<lparr>rb_isEmpty := False\<rparr>)" "contents (rb2\<lparr>rb_isEmpty := False\<rparr>) = contents rb1 @ take k s"
        "rb_size rb2 = rb_size rb1" "rb_r rb2 = rb_r rb1"
        "rb_w rb2 = (if rb_w rb1 + min k (length s) = rb_size rb1 then 0 else rb_w rb1 + min k (length s))" by auto
    let ?rb2 = "rb2\<lparr>rb_isEmpty := False\<rparr>"
    have kpos: "take k s \<noteq> []" using b s by (simp add: k_def)
    have len2: "length (rb_buf rb2) = rb_size rb2" "rb_w rb2 < rb_size rb2" "rb_r rb2 < rb_size rb2"
      using rb_inv_nonempty [OF rb2(1)] by simp_all
    show ?thesis
    proof (cases "drop k s = []")
      case fin: True
      then have all: "take k s = s" "min k (length s) = length s" by auto
      have "rb_fill bytes_reader ?rb2 [] 0 (rb_r ?rb2) = Inr (0, Some EOF, ?rb2, [])"
        using len2 by (intro rb_fill_eof) simp_all
      then have "rb_ReadFrom_step get bytes_reader (rb, s, n) = Inr (Return (n + int (length s), None, ?rb2, []))"
        unfolding rb_ReadFrom_step_def using room True f fin all cnt [of "length s"] by (simp add: Let_def)
      moreover have "readfrom_progress rb s n (Return (n + int (length s), None, ?rb2, []))"
        unfolding readfrom_progress_def using rb2 rb1 s all(1)
        by (intro exI [of _ ?rb2] exI [of _ s] exI [of _ "[]"]) (auto simp: rb_ok_def)
      ultimately show ?thesis by blast
    next
      case more: False
      then have kl: "k < length s" by simp
      then have w2: "rb_w ?rb2 = 0" using rb2(5) b by (simp add: k_def)
      from rb_fill_wrapped [OF rb2(1) w2 _ more] rb2(4) obtain rb3 where
        f2: "rb_fill bytes_reader ?rb2 (drop k s) 0 (rb_r rb2) =
               Inr (int (min (rb_r rb2) (length (drop k s))), None, rb3, drop (rb_r rb2) (drop k s))"
        and rb3: "rb_inv rb3" "contents rb3 = contents ?rb2 @ take (rb_r rb2) (drop k s)" "rb_size rb3 = rb_size rb2"
        by auto
      define c where "c = take k s @ take (rb_r rb2) (drop k s)"
      have lc: "length c = k + min (rb_r rb2) (length (drop k s))" using kl by (simp add: c_def min.commute)
      have cs: "take k s @ take (rb_r rb2) (drop k s) @ drop (rb_r rb2 + k) s = s"
        by (metis append_take_drop_id drop_drop)
      have "rb_ReadFrom_step get bytes_reader (rb, s, n) =
          Inr (Continue (rb3, drop (rb_r rb2) (drop k s), n + int (length c)))"
        unfolding rb_ReadFrom_step_def
        using room True f f2 kl cnt [of k] cnt [of "length c", unfolded lc] lc
        by (simp add: Let_def add.assoc)
      moreover have "readfrom_progress rb s n (Continue (rb3, drop (rb_r rb2) (drop k s), n + int (length c)))"
        unfolding readfrom_progress_def using rb3 rb2 rb1 kpos cs [symmetric]
        by (intro exI [of _ rb3] exI [of _ c] exI [of _ "drop (rb_r rb2) (drop k s)"])
           (auto simp: rb_ok_def c_def)
      ultimately show ?thesis by blast
    qed
  qed
qed

lemma rb_ReadFrom_loop_ok:
  assumes "rb_ok rb" and "contents rb \<noteq> [] \<or> s \<noteq> []"
    and "length (contents rb) + length s + MinRead \<le> 2 ^ 59"
    and "0 \<le> n" "n + int (length s) < 2 ^ 63"
  shows "\<exists>rb'. rb_ReadFrom_loop get bytes_reader (rb, s, n) = Some (Inr (n + int (length s), None, rb', []))
           \<and> rb_ok rb' \<and> contents rb' = contents rb @ s"
  using assms
proof (induction "length s" arbitrary: rb s n rule: less_induct)
  case less
  have lim: "length (contents rb) + MinRead \<le> 2 ^ 59" using less.prems(3) by simp
  show ?case
  proof (cases "s = []")
    case True
    from rb_ReadFrom_step_eof [OF less.prems(1) lim, of n] obtain rb1 where
      st: "rb_ReadFrom_step get bytes_reader (rb, s, n) = Inr (Return (go_int n, None, rb1\<lparr>rb_isEmpty := False\<rparr>, []))"
      and rb1: "rb_ok rb1" "contents rb1 = contents rb" using True by blast
    have "\<not> rb_isEmpty rb1"
      using rb1 less.prems(2) True contents_eq_Nil [of rb1] by (auto simp: rb_ok_def)
    then have "rb1\<lparr>rb_isEmpty := False\<rparr> = rb1" by simp
    moreover have "go_int n = n" using less.prems(4,5) by (intro go_int_id) auto
    ultimately show ?thesis using True st rb1 by (simp add: rb_ReadFrom_loop.simps)
  next
    case False
    from rb_ReadFrom_step_progress [OF less.prems(1) lim False less.prems(4,5)] obtain st where
      st: "rb_ReadFrom_step get bytes_reader (rb, s, n) = Inr st" and "readfrom_progress rb s n st" by blast
    then obtain rb1 c s1 where c: "s = c @ s1" "c \<noteq> []" "rb_ok rb1" "contents rb1 = contents rb @ c"
      and alt: "st = Continue (rb1, s1, n + int (length c))
           \<or> (s1 = [] \<and> st = Return (n + int (length c), None, rb1, []))"
      by (auto simp: readfrom_progress_def)
    have "length s1 < length s" and "contents rb1 \<noteq> [] \<or> s1 \<noteq> []"
      and "length (contents rb1) + length s1 + MinRead \<le> 2 ^ 59"
      and "0 \<le> n + int (length c)" and "n + int (length c) + int (length s1) < 2 ^ 63"
      using c less.prems by auto
    from less.hyps [OF this(1) c(3) this(2-)] c alt st show ?thesis
      by (auto simp: rb_ReadFrom_loop.simps [of get bytes_reader "(rb, c @ s1, n)"] algebra_simps)
  qed
qed

lemma rb_ReadFrom_ok:
  assumes "rb_ok rb" and "contents rb \<noteq> [] \<or> s \<noteq> []"
    and "length (contents rb) + length s + MinRead \<le> 2 ^ 59"
  shows "\<exists>rb'. rb_ReadFrom get bytes_reader rb s = Inr (int (length s), None, rb', [])
           \<and> rb_ok rb' \<and> contents rb' = contents rb @ s"
  using rb_ReadFrom_loop_ok [OF assms, of 0] assms(3) by (auto simp: rb_ReadFrom_def)

lemma rb_ReadFrom_empty:
  assumes "rb_ok rb" and "contents rb = []"
  shows "\<exists>rb'. rb_ReadFrom get bytes_reader rb [] = Inr (0, None, rb', [])
           \<and> rb_inv rb' \<and> MinRead \<le> length (contents rb')"
proof -
  from rb_ReadFrom_step_eof [of rb 0] assms obtain rb1 where
    st: "rb_ReadFrom_step get bytes_reader (rb, [], 0) = Inr (Return (go_int 0, None, rb1\<lparr>rb_isEmpty := False\<rparr>, []))"
    and rb1: "rb_ok rb1" "contents rb1 = []" "MinRead \<le> rb_Available rb1" by (auto simp: MinRead_def)
  have e: "rb_isEmpty rb1" "rb_inv rb1" using rb1 contents_eq_Nil [of rb1] by (auto simp: rb_ok_def)
  then have inv: "rb_inv (rb1\<lparr>rb_isEmpty := False\<rparr>)" and eq: "rb_r rb1 = rb_w rb1"
    using rb1 by (auto simp: rb_inv_def MinRead_def rb_Available_def)
  have "MinRead \<le> length (contents (rb1\<lparr>rb_isEmpty := False\<rparr>))"
    using rb1(3) e eq unfolding length_contents [OF inv]
    by (simp add: rb_Buffered_def rb_Available_def)
  then show ?thesis using st inv by (simp add: rb_ReadFrom_def rb_ReadFrom_loop.simps go_int_def)
qed

end

subsection \<open>Writing to a sink\<close>

text \<open>What \<open>io.Writer\<close> promises: it accepts a prefix of the bytes it is given and reports how long
  that prefix is, with an error when it is not all of them. \<open>accepted\<close> is what it has taken so far.\<close>

locale io_sink =
  fixes wr :: "'s io_writer" and accepted :: "'s \<Rightarrow> byte list"
  assumes accepts_prefix: "wr s src = ((m, e), s') \<Longrightarrow> m \<le> length src \<and> accepted s' = accepted s @ take m src"
    and short_write_error: "wr s src = ((m, None), s') \<Longrightarrow> m = length src"
begin

text \<open>What a \<open>WriteTo\<close> from a buffer that holds \<open>bs\<close> leaves behind when the sink took \<open>m\<close> bytes.\<close>

definition wrote :: "byte list \<Rightarrow> 's \<Rightarrow> (nat \<times> go_error option \<times> Buffer \<times> 's) go \<Rightarrow> bool" where
  "wrote bs s res \<longleftrightarrow> (\<exists>m e rb' s'. res = Inr (m, e, rb', s') \<and> m \<le> length bs \<and> accepted s' = accepted s @ take m bs
      \<and> rb_inv rb' \<and> contents rb' = drop m bs \<and> (e = None \<longrightarrow> m = length bs))"

lemma wroteI:
  assumes "res = Inr (m, e, rb', s')" "m \<le> length bs" "accepted s' = accepted s @ take m bs"
    "rb_inv rb'" "contents rb' = drop m bs" "e = None \<longrightarrow> m = length bs"
  shows "wrote bs s res"
  using assms unfolding wrote_def by blast

lemma rb_WriteTo_linear:
  assumes inv: "rb_inv rb" and ne: "\<not> rb_isEmpty rb" and lt: "rb_r rb < rb_w rb"
  shows "wrote (contents rb) s (rb_WriteTo wr rb s)"
proof -
  note b = rb_inv_nonempty [OF inv ne]
  define bs where "bs = contents rb"
  have bs: "bs = drop (rb_r rb) (take (rb_w rb) (rb_buf rb))" "length bs = rb_w rb - rb_r rb"
    using b lt ne by (simp_all add: bs_def contents_def)
  obtain m e s' where w: "wr s bs = ((m, e), s')" by (metis prod.exhaust)
  note sink = accepts_prefix [OF w]
  have err: "e = None \<longrightarrow> m = length bs" using short_write_error w by auto
  have c: "contents (rb\<lparr>rb_r := rb_r rb + m\<rparr>) = drop m bs" "rb_inv (rb\<lparr>rb_r := rb_r rb + m\<rparr>)" if "m \<noteq> length bs"
    using that sink bs b lt ne by (auto simp: contents_def rb_inv_def add.commute)
  show ?thesis
  proof (cases "m = length bs")
    case True
    then show ?thesis unfolding bs_def [symmetric] using ne lt b w sink err inv bs
      by (intro wroteI [where m = m and e = e and rb' = "rb_Reset rb" and s' = s'])
         (simp_all add: rb_WriteTo_def Let_def go_defs)
  next
    case False
    then show ?thesis unfolding bs_def [symmetric] using ne lt b w sink err inv bs c
      by (intro wroteI [where m = m and e = e and rb' = "rb\<lparr>rb_r := rb_r rb + m\<rparr>" and s' = s'])
         (auto simp: rb_WriteTo_def Let_def go_defs)
  qed
qed

lemma rb_WriteTo_tail:
  assumes inv: "rb_inv rb" and ne: "\<not> rb_isEmpty rb" and w0: "rb_w rb = 0"
    and no_loss: "rb_r rb \<noteq> 0 \<or> fst (fst (wr s (contents rb))) \<noteq> 0"
  shows "wrote (contents rb) s (rb_WriteTo wr rb s)"
proof -
  note b = rb_inv_nonempty [OF inv ne]
  define bs where "bs = contents rb"
  have bs: "bs = drop (rb_r rb) (rb_buf rb)" "length bs = rb_size rb - rb_r rb"
    using b w0 ne by (simp_all add: bs_def contents_def)
  have buf: "rb_Buffered rb = length bs" by (simp add: bs_def length_contents [OF inv])
  obtain m e s' where w: "wr s bs = ((m, e), s')" by (metis prod.exhaust)
  note sink = accepts_prefix [OF w]
  have err: "e = None \<longrightarrow> m = length bs" using short_write_error w by auto
  have moved: "(rb_r rb + m) mod rb_size rb = 0 \<longleftrightarrow> m = length bs"
  proof (cases "m = length bs")
    case True
    then show ?thesis using bs(2) b by simp
  next
    case False
    then have "rb_r rb + m < rb_size rb" using sink bs(2) b by linarith
    then show ?thesis using no_loss w False by (auto simp: bs_def [symmetric])
  qed
  have run: "rb_WriteTo wr rb s = Inr (m, e,
      if m = length bs then rb_Reset rb else rb\<lparr>rb_r := (rb_r rb + m) mod rb_size rb\<rparr>, s')"
  proof -
    have src: "go_slice (rb_buf rb) (rb_r rb) (rb_size rb) = Inr bs" using b bs by (simp add: go_defs)
    define r' where "r' = (rb_r rb + m) mod rb_size rb"
    have md: "go_mod (rb_r rb + m) (rb_size rb) = Inr r'" "r' = 0 \<longleftrightarrow> m = length bs"
      using b moved by (simp_all add: go_defs r'_def)
    have "m \<le> rb_size rb - rb_r rb" "rb_r rb + (rb_size rb - rb_r rb) = rb_size rb" using sink bs(2) b by simp_all
    then show ?thesis
      unfolding r'_def [symmetric]
      using ne w0 w md err by (cases "r' = 0") (auto simp: rb_WriteTo_def Let_def src)
  qed
  show ?thesis unfolding bs_def [symmetric]
  proof (rule wroteI [OF run])
    show "m \<le> length bs" "accepted s' = accepted s @ take m bs" using sink by simp_all
    show "e = None \<longrightarrow> m = length bs" by (rule err)
    show "rb_inv (if m = length bs then rb_Reset rb else rb\<lparr>rb_r := (rb_r rb + m) mod rb_size rb\<rparr>)"
      using inv ne b by (simp add: rb_inv_def)
    show "contents (if m = length bs then rb_Reset rb else rb\<lparr>rb_r := (rb_r rb + m) mod rb_size rb\<rparr>) = drop m bs"
      using rb_advance(2) [OF inv ne, of m] buf sink by (auto simp: bs_def)
  qed
qed

lemma rb_WriteTo_wrapped:
  assumes inv: "rb_inv rb" and ne: "\<not> rb_isEmpty rb" and w: "0 < rb_w rb" "rb_w rb \<le> rb_r rb"
  shows "wrote (contents rb) s (rb_WriteTo wr rb s)"
proof -
  note b = rb_inv_nonempty [OF inv ne]
  let ?h = "drop (rb_r rb) (rb_buf rb)" and ?t = "take (rb_w rb) (rb_buf rb)"
  have bs: "contents rb = ?h @ ?t" using w ne by (simp add: contents_def)
  have lens: "length ?h = rb_size rb - rb_r rb" "length ?t = rb_w rb" using b w by simp_all
  have buf: "rb_Buffered rb = length ?h + length ?t" using bs by (simp add: length_contents [OF inv, symmetric])
  obtain m1 e1 s1 where w1: "wr s ?h = ((m1, e1), s1)" by (metis prod.exhaust)
  note sink1 = accepts_prefix [OF w1]
  have err1: "e1 = None \<longrightarrow> m1 = length ?h" using short_write_error w1 by blast
  show ?thesis
  proof (cases e1)
    case (Some x)
    have "rb_WriteTo wr rb s = Inr (m1, Some x, rb\<lparr>rb_r := (rb_r rb + m1) mod rb_size rb\<rparr>, s1)"
      using ne w b w1 sink1 lens Some by (simp add: rb_WriteTo_def Let_def go_defs)
    then show ?thesis
    proof (rule wroteI)
      have "m1 < rb_Buffered rb" using sink1 buf lens w by simp
      then show "rb_inv (rb\<lparr>rb_r := (rb_r rb + m1) mod rb_size rb\<rparr>)"
          "contents (rb\<lparr>rb_r := (rb_r rb + m1) mod rb_size rb\<rparr>) = drop m1 (contents rb)"
        by (rule rb_advance [OF inv ne])+
    qed (use sink1 bs in auto)
  next
    case None
    with err1 have m1: "m1 = rb_size rb - rb_r rb" using lens by simp
    obtain m2 e2 s2 where w2: "wr s1 ?t = ((m2, e2), s2)" by (metis prod.exhaust)
    note sink2 = accepts_prefix [OF w2]
    have err2: "e2 = None \<longrightarrow> m2 = length ?t" using short_write_error w2 by blast
    let ?rb = "if m2 = rb_w rb then rb_Reset rb else rb\<lparr>rb_r := m2\<rparr>"
    have run: "rb_WriteTo wr rb s = Inr (m1 + m2, e2, ?rb, s2)"
      using ne w b w1 sink1 w2 sink2 None lens m1 err2 by (auto simp: rb_WriteTo_def Let_def go_defs)
    show ?thesis
    proof (rule wroteI [OF run])
      show "rb_inv ?rb" using inv ne b sink2 lens by (auto simp: rb_inv_def)
      show "contents ?rb = drop (m1 + m2) (contents rb)"
        using sink2 m1 bs ne lens by (auto simp: contents_def)
    qed (use sink1 sink2 err2 m1 lens bs in auto)
  qed
qed

lemma rb_WriteTo_ok:
  assumes "rb_inv rb" and "contents rb \<noteq> []"
    and no_loss: "\<not> rb_IsFull rb \<or> rb_r rb \<noteq> 0 \<or> fst (fst (wr s (contents rb))) \<noteq> 0"
  shows "wrote (contents rb) s (rb_WriteTo wr rb s)"
proof -
  have ne: "\<not> rb_isEmpty rb" using assms(2) by auto
  consider "rb_r rb < rb_w rb" | "rb_w rb = 0" | "0 < rb_w rb" "rb_w rb \<le> rb_r rb" by linarith
  then show ?thesis
  proof cases
    case 2
    then show ?thesis using no_loss ne assms(1) by (intro rb_WriteTo_tail) (auto simp: rb_IsFull_def)
  qed (use rb_WriteTo_linear rb_WriteTo_wrapped assms(1) ne in blast)+
qed

lemma rb_WriteTo_lossy:
  assumes "rb_inv rb" and "rb_IsFull rb" "rb_r rb = 0" and w: "wr s (contents rb) = ((0, e), s')"
  shows "rb_WriteTo wr rb s = Inr (0, e, rb_Reset rb, s')"
proof -
  have ne: "\<not> rb_isEmpty rb" and w0: "rb_w rb = 0" using assms by (auto simp: rb_IsFull_def)
  note b = rb_inv_nonempty [OF assms(1) ne]
  have bs: "contents rb = rb_buf rb" using ne w0 assms(3) by (simp add: contents_def)
  have "e \<noteq> None" using short_write_error w b bs by fastforce
  then show ?thesis using ne w0 assms(3) b w bs by (auto simp: rb_WriteTo_def Let_def go_defs)
qed

end

lemma rb_WriteTo_first:
  assumes "rb_inv rb" and "rb_IsFull rb" "rb_r rb = 0" and "rb_WriteTo wr rb s = Inr (m, e, rb', s')"
  shows "m = fst (fst (wr s (contents rb)))"
proof -
  have ne: "\<not> rb_isEmpty rb" and w0: "rb_w rb = 0" using assms by (auto simp: rb_IsFull_def)
  note b = rb_inv_nonempty [OF assms(1) ne]
  have "contents rb = rb_buf rb" using ne w0 assms(3) by (simp add: contents_def)
  then show ?thesis using assms(3,4) ne w0 b
    by (cases "wr s (rb_buf rb)") (auto simp: rb_WriteTo_def Let_def go_defs split: if_splits)
qed

lemma rb_WriteTo_cases:
  assumes "io_sink wr accepted" and "rb_inv rb" and "contents rb \<noteq> []"
  shows "\<exists>m e rb' s'. rb_WriteTo wr rb s = Inr (m, e, rb', s') \<and> m \<le> length (contents rb)
           \<and> accepted s' = accepted s @ take m (contents rb) \<and> (e = None \<longrightarrow> m = length (contents rb))
           \<and> rb_inv rb'
           \<and> contents rb' = (if rb_IsFull rb \<and> rb_r rb = 0 \<and> m = 0 then [] else drop m (contents rb))"
proof (cases "rb_IsFull rb \<and> rb_r rb = 0 \<and> fst (fst (wr s (contents rb))) = 0")
  case True
  then obtain e s' where w: "wr s (contents rb) = ((0, e), s')" by (metis prod.collapse)
  have "rb_WriteTo wr rb s = Inr (0, e, rb_Reset rb, s')"
    using io_sink.rb_WriteTo_lossy [OF assms(1,2) _ _ w] True by simp
  moreover have "accepted s' = accepted s" "e \<noteq> None"
    using io_sink.accepts_prefix [OF assms(1) w] io_sink.short_write_error [OF assms(1)] w assms(3)
    by fastforce+
  ultimately show ?thesis using True assms(2) by auto
next
  case False
  then have "io_sink.wrote accepted (contents rb) s (rb_WriteTo wr rb s)"
    using io_sink.rb_WriteTo_ok [OF assms] by blast
  then obtain m e rb' s' where w: "rb_WriteTo wr rb s = Inr (m, e, rb', s')" "m \<le> length (contents rb)"
      "accepted s' = accepted s @ take m (contents rb)" "rb_inv rb'" "contents rb' = drop m (contents rb)"
      "e = None \<longrightarrow> m = length (contents rb)"
    unfolding io_sink.wrote_def [OF assms(1)] by blast
  have "\<not> (rb_IsFull rb \<and> rb_r rb = 0 \<and> m = 0)"
    using False rb_WriteTo_first [OF assms(2) _ _ w(1)] by metis
  with w show ?thesis by auto
qed

lemma rb_WriteTo_size:
  "rb_WriteTo wr rb s = Inr (m, e, rb', s') \<Longrightarrow> rb_size rb' = rb_size rb"
  by (auto simp: rb_WriteTo_def Let_def split: prod.splits if_splits elim!: go_bind_InrE)

subsection \<open>ByteStealer\<close>

text \<open>The writer of \<open>utils.StealBytes\<close>: \<open>None\<close> is the nil slice of a fresh stealer.\<close>

definition ByteStealer_Write :: "byte list option io_writer" where
  "ByteStealer_Write s p =
     ((length p, None), (case s of None \<Rightarrow> Some p | Some d \<Rightarrow> Some (d @ p)))"

definition stolen :: "byte list option \<Rightarrow> byte list" where
  "stolen s = (case s of None \<Rightarrow> [] | Some d \<Rightarrow> d)"

text \<open>\<open>StealBytes\<close> takes everything an \<open>io.WriterTo\<close> writes; the \<open>WriteTo\<close> method is the argument.\<close>

definition StealBytes ::
  "('r \<Rightarrow> byte list option \<Rightarrow> (nat \<times> go_error option \<times> 'r \<times> byte list option) go) \<Rightarrow> 'r
     \<Rightarrow> (byte list \<times> go_error option \<times> 'r) go" where
  "StealBytes write_to reader =
     go_bind (write_to reader None)
       (\<lambda>(n, err, reader', stealer).
          if err \<noteq> None then Inr ([], err, reader')
          else if n \<noteq> length (stolen stealer) then Inr ([], Some ErrShortWrite, reader')
          else Inr (stolen stealer, None, reader'))"

interpretation stealer: io_sink ByteStealer_Write stolen
  by unfold_locales (auto simp: ByteStealer_Write_def stolen_def split: option.splits)

lemma rb_WriteTo_stealer:
  assumes "rb_WriteTo ByteStealer_Write rb s = Inr (m, e, rb', s')" and "rb_inv rb" and "contents rb \<noteq> []"
  shows "e = None"
proof -
  have ne: "\<not> rb_isEmpty rb" using assms(3) by auto
  note b = rb_inv_nonempty [OF assms(2) ne]
  consider (lin) "rb_r rb < rb_w rb" | (tail) "rb_w rb = 0" | (wrap) "0 < rb_w rb" "rb_w rb \<le> rb_r rb" by linarith
  then show ?thesis
    by cases (use assms(1) ne b in
      \<open>auto simp: rb_WriteTo_def ByteStealer_Write_def Let_def go_defs split: if_splits\<close>)
qed

subsection \<open>Properties\<close>

text \<open>\<open>ReadFrom\<close> reads a byte reader to its end: from a well-formed buffer of any size and position,
  growing as needed, the loop ends without a panic, it reports the number of bytes of the source and
  no error, the source is used up and the buffer holds what it held followed by the source. This
  holds unless both the buffer and the source are empty.\<close>

theorem ReadFrom_appends_source:
  assumes "pool_inv p" and "rb_ok rb" and "contents rb \<noteq> [] \<or> s \<noteq> []"
    and "length (contents rb) + length s + MinRead \<le> 2 ^ 59"
  shows "\<exists>rb'. rb_ReadFrom (pool_bytes sel p) bytes_reader rb s = Inr (int (length s), None, rb', [])
           \<and> rb_ok rb' \<and> contents rb' = contents rb @ s"
  using byte_source.rb_ReadFrom_ok [OF byte_source_pool_bytes [OF assms(1)] assms(2-4)] .

theorem ReadFrom_appends_source_witness:
  "\<exists>rb'. rb_ReadFrom (pool_bytes (\<lambda>_. None) builtinPool) bytes_reader (ring_example []) [1, 2, 3]
           = Inr (3, None, rb', []) \<and> rb_ok rb' \<and> contents rb' = [1, 2, 3]"
proof -
  have c: "contents (ring_example []) = []" by (simp add: ring_example_def)
  then show ?thesis
    using ReadFrom_appends_source [OF pool_inv_builtin rb_ok_example [of "[]"], of "[1, 2, 3]"]
    by (simp add: MinRead_def)
qed

text \<open>From an empty buffer and an empty source, \<open>ReadFrom\<close> reports zero bytes and no error, yet the
  buffer then claims to hold at least \<open>MinRead\<close> bytes that nobody wrote: \<open>isEmpty\<close> is cleared before the
  count is looked at.\<close>

theorem ReadFrom_empty_source_fills_buffer:
  assumes "pool_inv p" and "rb_ok rb" and "contents rb = []"
  shows "\<exists>rb'. rb_ReadFrom (pool_bytes sel p) bytes_reader rb [] = Inr (0, None, rb', [])
           \<and> rb_inv rb' \<and> 512 \<le> rb_Buffered rb'"
proof -
  from byte_source.rb_ReadFrom_empty [OF byte_source_pool_bytes [OF assms(1)] assms(2,3)] obtain rb' where
    "rb_ReadFrom (pool_bytes sel p) bytes_reader rb [] = Inr (0, None, rb', [])" "rb_inv rb'"
    "MinRead \<le> length (contents rb')" by blast
  then show ?thesis using length_contents [of rb'] by (auto simp: MinRead_def)
qed

theorem ReadFrom_empty_source_fills_buffer_witness:
  "\<exists>rb'. rb_ReadFrom (pool_bytes (\<lambda>_. None) builtinPool) bytes_reader (ring_example []) [] = Inr (0, None, rb', [])
           \<and> 512 \<le> rb_Buffered rb'"
proof -
  have "contents (ring_example []) = []" by (simp add: ring_example_def)
  then show ?thesis
    using ReadFrom_empty_source_fills_buffer [OF pool_inv_builtin rb_ok_example [of "[]"]] by auto
qed

text \<open>\<open>WriteTo\<close> hands the buffered bytes to the writer in order, whatever prefix the writer takes and
  whether the data wraps around or not: it returns the number of bytes the writer accepted, the writer
  got exactly that prefix of the queue, the rest stays in the buffer, and it reports no error only when
  everything was written. The one exception is a full buffer whose read position is 0 with a writer that
  accepts nothing: there the buffer is reset and its bytes are lost. The writer is any that accepts a
  prefix and reports an error on a short write.\<close>

theorem WriteTo_moves_prefix:
  assumes "io_sink wr accepted" and "rb_inv rb" and "contents rb \<noteq> []"
  shows "\<exists>m e rb' s'. rb_WriteTo wr rb s = Inr (m, e, rb', s') \<and> m \<le> length (contents rb)
           \<and> accepted s' = accepted s @ take m (contents rb) \<and> (e = None \<longrightarrow> m = length (contents rb))
           \<and> rb_inv rb'
           \<and> contents rb' = (if rb_IsFull rb \<and> rb_r rb = 0 \<and> m = 0 then [] else drop m (contents rb))"
  using rb_WriteTo_cases [OF assms] .

theorem WriteTo_moves_prefix_witness:
  "\<exists>rb'. rb_WriteTo ByteStealer_Write
        \<lparr>rb_buf = [5, 2, 3, 4], rb_size = 4, rb_r = 2, rb_w = 1, rb_isEmpty = False\<rparr> None
      = Inr (3, None, rb', Some [3, 4, 5]) \<and> contents rb' = []"
proof -
  let ?rb = "\<lparr>rb_buf = [5, 2, 3, 4], rb_size = 4, rb_r = 2, rb_w = 1, rb_isEmpty = False\<rparr>"
  have c: "contents ?rb = [3, 4, 5]" "rb_inv ?rb"
    by (simp_all add: contents_def rb_inv_def eval_nat_numeral)
  obtain m e rb' s' where w: "rb_WriteTo ByteStealer_Write ?rb None = Inr (m, e, rb', s')"
      "contents rb' = drop m [3, 4, 5]"
    using WriteTo_moves_prefix [OF stealer.io_sink_axioms c(2), of None] c(1) by (auto simp: rb_IsFull_def)
  moreover have "rb_WriteTo ByteStealer_Write ?rb None = Inr (3, None, rb_Reset ?rb, Some [3, 4, 5])"
    by (simp add: rb_WriteTo_def ByteStealer_Write_def Let_def go_defs eval_nat_numeral)
  ultimately show ?thesis by auto
qed

text \<open>\<open>StealBytes\<close> on a non-empty ring buffer returns exactly the bytes the buffer held, with no
  error, and leaves it empty.\<close>

theorem StealBytes_drains_ring:
  assumes "rb_inv rb" and "contents rb \<noteq> []"
  shows "\<exists>rb'. StealBytes (rb_WriteTo ByteStealer_Write) rb = Inr (contents rb, None, rb')
           \<and> rb_inv rb' \<and> contents rb' = []"
proof -
  have "\<not> rb_IsFull rb \<or> rb_r rb \<noteq> 0 \<or> fst (fst (ByteStealer_Write None (contents rb))) \<noteq> 0"
    using assms(2) by (simp add: ByteStealer_Write_def)
  from stealer.rb_WriteTo_ok [OF assms this] obtain m e rb' s' where
    w: "rb_WriteTo ByteStealer_Write rb None = Inr (m, e, rb', s')" "m \<le> length (contents rb)"
      "stolen s' = stolen None @ take m (contents rb)" "rb_inv rb'" "contents rb' = drop m (contents rb)"
      "e = None \<longrightarrow> m = length (contents rb)"
    unfolding stealer.wrote_def by blast
  have "e = None" using rb_WriteTo_stealer [OF w(1)] assms by auto
  with w show ?thesis by (auto simp: StealBytes_def stolen_def)
qed

theorem StealBytes_drains_ring_witness:
  "\<exists>rb'. StealBytes (rb_WriteTo ByteStealer_Write)
        \<lparr>rb_buf = [5, 2, 3, 4], rb_size = 4, rb_r = 2, rb_w = 1, rb_isEmpty = False\<rparr>
      = Inr ([3, 4, 5], None, rb') \<and> contents rb' = []"
proof -
  let ?rb = "\<lparr>rb_buf = [5, 2, 3, 4], rb_size = 4, rb_r = 2, rb_w = 1, rb_isEmpty = False\<rparr>"
  have "contents ?rb = [3, 4, 5]" "rb_inv ?rb"
    by (simp_all add: contents_def rb_inv_def eval_nat_numeral)
  then show ?thesis using StealBytes_drains_ring [of ?rb] by auto
qed

end
