(* ===== verification/RingPool.thy ===== *)
theory RingPool
  imports RingIO "HOL-Library.Multiset"
begin

text \<open>
  The pool of ring buffers of \<^verbatim>\<open>contribute/agonet/pkg/pool/ringbuffer/ringbuffer.go\<close>: recycled
  buffers, the call statistics by size class and the calibration of the default and the maximal size
  from them. The counters are 64-bit words. \<open>sort.Sort\<close> is an argument, since it is not stable and
  its order of equal elements is not fixed; the percentile is computed in double precision.
\<close>

subsection \<open>State\<close>

definition minBitSize :: nat where "minBitSize = 6"
definition steps :: nat where "steps = 20"
definition minSize :: "64 word" where "minSize = 64"
definition calibrateCallsThreshold :: "64 word" where "calibrateCallsThreshold = 42000"

record callSize =
  cs_calls :: "64 word"
  cs_size :: "64 word"

record RbPool =
  rp_calls :: "64 word list"
  rp_calibrating :: "64 word"
  rp_defaultSize :: "64 word"
  rp_maxSize :: "64 word"
  rp_pool :: "Buffer list"

definition rp_builtinPool :: RbPool where
  "rp_builtinPool = \<lparr>rp_calls = replicate steps 0, rp_calibrating = 0, rp_defaultSize = 0, rp_maxSize = 0, rp_pool = []\<rparr>"

subsection \<open>The percentile in double precision\<close>

text \<open>Rounding of a natural number to 53 significant bits, to nearest and ties to even. The
  constant 0.95 is \<open>8556839292003942 / 2^53\<close> as a double.\<close>

definition round53 :: "nat \<Rightarrow> nat" where
  "round53 x =
     (if bits_Len x \<le> 53 then x
      else let s = bits_Len x - 53; q = x div 2 ^ s; rest = x mod 2 ^ s
           in (if rest > 2 ^ (s - 1) \<or> (rest = 2 ^ (s - 1) \<and> odd q) then q + 1 else q) * 2 ^ s)"

definition maxPercentile_of :: "64 word \<Rightarrow> 64 word" where
  "maxPercentile_of callsSum =
     of_nat (round53 (round53 (unat callsSum) * 8556839292003942) div 2 ^ 53)"

subsection \<open>Operations\<close>

definition rp_index :: "nat \<Rightarrow> nat" where
  "rp_index n =
     (let n1 = (int n - 1) div 2 ^ minBitSize;
          idx = (if n1 > 0 then bits_Len (nat n1) else 0)
      in if idx \<ge> steps then steps - 1 else idx)"

definition call_sizes :: "64 word list \<Rightarrow> callSize list" where
  "call_sizes calls = map (\<lambda>i. \<lparr>cs_calls = calls ! i, cs_size = push_bit i minSize\<rparr>) [0..<steps]"

definition callSize_Less :: "callSize \<Rightarrow> callSize \<Rightarrow> bool" where
  "callSize_Less x y \<longleftrightarrow> cs_calls x > cs_calls y"

fun calibrate_loop :: "64 word \<Rightarrow> callSize list \<Rightarrow> 64 word \<Rightarrow> 64 word \<Rightarrow> 64 word" where
  "calibrate_loop maxSum [] callsSum maxSize = maxSize"
| "calibrate_loop maxSum (c # a) callsSum maxSize =
     (if callsSum > maxSum then maxSize
      else calibrate_loop maxSum a (callsSum + cs_calls c) (if cs_size c > maxSize then cs_size c else maxSize))"

definition rp_calibrate :: "(callSize list \<Rightarrow> callSize list) \<Rightarrow> RbPool \<Rightarrow> RbPool go" where
  "rp_calibrate srt p =
     (if rp_calibrating p \<noteq> 0 then Inr p
      else
        let callsSum = sum_list (rp_calls p);
            a = srt (call_sizes (rp_calls p))
        in go_bind (go_index a 0)
             (\<lambda>top. let defaultSize = cs_size top;
                        maxSum = maxPercentile_of callsSum;
                        maxSize = calibrate_loop maxSum a 0 defaultSize
                    in Inr (p\<lparr>rp_calls := replicate steps 0, rp_defaultSize := defaultSize,
                              rp_maxSize := maxSize, rp_calibrating := 0\<rparr>)))"

definition rp_Get :: "Buffer selector \<Rightarrow> (nat \<Rightarrow> byte list) \<Rightarrow> RbPool \<Rightarrow> (Buffer \<times> RbPool) go" where
  "rp_Get sel get p =
     (let (v, rest) = sync_Pool_Get sel (rp_pool p); p' = p\<lparr>rp_pool := rest\<rparr>
      in case v of
           Some b \<Rightarrow> Inr (b, p')
         | None \<Rightarrow> go_bind (rb_New get (sint (rp_defaultSize p))) (\<lambda>b. Inr (b, p')))"

definition rp_Put :: "(callSize list \<Rightarrow> callSize list) \<Rightarrow> RbPool \<Rightarrow> Buffer \<Rightarrow> RbPool go" where
  "rp_Put srt p b =
     (let idx = rp_index (rb_Len b) in
      go_bind (go_index (rp_calls p) idx)
        (\<lambda>c. let p1 = p\<lparr>rp_calls := (rp_calls p)[idx := c + 1]\<rparr> in
           go_bind (if c + 1 > calibrateCallsThreshold then rp_calibrate srt p1 else Inr p1)
             (\<lambda>p2. let maxSize = sint (rp_maxSize p2) in
                if maxSize = 0 \<or> int (rb_Cap b) \<le> maxSize
                then Inr (p2\<lparr>rp_pool := rb_Reset b # rp_pool p2\<rparr>)
                else Inr p2)))"

subsection \<open>What sort.Sort promises\<close>

definition sort_Sort_spec :: "(callSize list \<Rightarrow> callSize list) \<Rightarrow> bool" where
  "sort_Sort_spec srt \<longleftrightarrow>
     (\<forall>a. mset (srt a) = mset a \<and> sorted_wrt (\<lambda>x y. \<not> callSize_Less y x) (srt a))"

definition stable_sort :: "callSize list \<Rightarrow> callSize list" where
  "stable_sort a = rev (sort_key cs_calls (rev a))"

lemma stable_sort_ok: "sort_Sort_spec stable_sort"
proof -
  have "sorted_wrt (\<lambda>x y. \<not> callSize_Less y x) (rev (sort_key cs_calls (rev a)))" for a
    using sorted_sort_key [of cs_calls "rev a"]
    unfolding sorted_wrt_rev sorted_map
    by (rule sorted_wrt_mono_rel [rotated]) (auto simp: callSize_Less_def)
  then show ?thesis by (simp add: sort_Sort_spec_def stable_sort_def)
qed

lemma length_srt: "sort_Sort_spec srt \<Longrightarrow> length (srt a) = length a"
  by (metis sort_Sort_spec_def size_mset)

lemma set_srt: "sort_Sort_spec srt \<Longrightarrow> set (srt a) = set a"
  by (metis sort_Sort_spec_def set_mset_mset)

lemma srt_head_max:
  assumes "sort_Sort_spec srt" and "c \<in> set a" and "srt a \<noteq> []"
  shows "cs_calls c \<le> cs_calls (srt a ! 0)"
proof -
  obtain x xs where x: "srt a = x # xs" using assms(3) by (cases "srt a") auto
  have "sorted_wrt (\<lambda>x y. \<not> callSize_Less y x) (x # xs)" using assms(1) x by (metis sort_Sort_spec_def)
  moreover have "c \<in> set (x # xs)" using set_srt [OF assms(1)] assms(2) x by metis
  ultimately show ?thesis using x by (auto simp: callSize_Less_def not_less)
qed

subsection \<open>Invariant\<close>

definition rp_inv :: "RbPool \<Rightarrow> bool" where
  "rp_inv p \<longleftrightarrow> length (rp_calls p) = steps \<and> rp_calibrating p = 0
     \<and> unat (rp_defaultSize p) \<le> 2 ^ 25 \<and> unat (rp_maxSize p) \<le> 2 ^ 25
     \<and> rp_defaultSize p \<le> rp_maxSize p
     \<and> (\<forall>b\<in>set (rp_pool p). rb_ok b \<and> contents b = [])"

lemma rp_inv_builtin: "rp_inv rp_builtinPool"
  by (simp add: rp_inv_def rp_builtinPool_def)

lemma rp_index_lt: "rp_index n < steps"
  by (simp add: rp_index_def steps_def Let_def)

lemma length_call_sizes [simp]: "length (call_sizes calls) = steps"
  by (simp add: call_sizes_def)

lemma unat_class_size: "i < steps \<Longrightarrow> unat (push_bit i minSize) = 64 * 2 ^ i"
proof -
  assume i: "i < steps"
  then have le: "(2::nat) ^ i \<le> 2 ^ 19" by (intro power_increasing) (auto simp: steps_def)
  have "push_bit i minSize = (of_nat (64 * 2 ^ i) :: 64 word)"
    by (simp add: minSize_def push_bit_eq_mult mult.commute)
  then have "unat (push_bit i minSize) = (64 * 2 ^ i) mod 2 ^ 64"
    by (simp only: unat_of_nat) simp
  then show ?thesis using le by simp
qed

lemma call_sizes_size_le: "c \<in> set (call_sizes calls) \<Longrightarrow> unat (cs_size c) \<le> 2 ^ 25"
proof -
  assume "c \<in> set (call_sizes calls)"
  then obtain i where i: "i < steps" "cs_size c = push_bit i minSize" by (auto simp: call_sizes_def)
  then have "(2::nat) ^ i \<le> 2 ^ 19" by (intro power_increasing) (auto simp: steps_def)
  then show ?thesis using unat_class_size [OF i(1)] i(2) by simp
qed

text \<open>The loop ends with a size that is the starting one or that of an element, bounds the sizes of a
  prefix, and that prefix is everything or has more than \<open>maxSum\<close> calls.\<close>

lemma calibrate_loop_mem: "calibrate_loop ms xs cs mx \<in> insert mx (cs_size ` set xs)"
  by (induction xs arbitrary: cs mx) (auto split: if_splits)

lemma calibrate_loop_mono: "mx \<le> calibrate_loop ms xs cs mx"
proof (induction xs arbitrary: cs mx)
  case (Cons c xs)
  show ?case using Cons [of mx "cs + cs_calls c"] Cons [of "cs_size c" "cs + cs_calls c"]
    by (auto intro: order_trans less_imp_le)
qed simp

lemma calibrate_loop_prefix:
  assumes "unat cs + (\<Sum>c\<leftarrow>xs. unat (cs_calls c)) < 2 ^ 64"
  shows "\<exists>n\<le>length xs. (\<forall>c\<in>set (take n xs). cs_size c \<le> calibrate_loop ms xs cs mx)
           \<and> (n = length xs \<or> unat ms < unat cs + (\<Sum>c\<leftarrow>take n xs. unat (cs_calls c)))"
  using assms
proof (induction xs arbitrary: cs mx)
  case (Cons c xs)
  show ?case
  proof (cases "cs > ms")
    case True
    then show ?thesis by (intro exI [of _ 0]) (simp add: word_less_nat_alt)
  next
    case False
    let ?mx = "if cs_size c > mx then cs_size c else mx"
    have add: "unat (cs + cs_calls c) = unat cs + unat (cs_calls c)"
      using Cons.prems by (intro unat_add_lem [THEN iffD1]) auto
    then have "unat (cs + cs_calls c) + (\<Sum>c\<leftarrow>xs. unat (cs_calls c)) < 2 ^ 64" using Cons.prems by simp
    from Cons.IH [OF this, of ?mx] obtain n where n: "n \<le> length xs"
        "\<forall>d\<in>set (take n xs). cs_size d \<le> calibrate_loop ms xs (cs + cs_calls c) ?mx"
        "n = length xs \<or> unat ms < unat cs + unat (cs_calls c) + (\<Sum>c\<leftarrow>take n xs. unat (cs_calls c))"
      using add by auto
    moreover have "cs_size c \<le> calibrate_loop ms xs (cs + cs_calls c) ?mx"
      by (rule order_trans [OF _ calibrate_loop_mono]) auto
    ultimately show ?thesis using False
      by (intro exI [of _ "Suc n"]) (simp add: add.assoc)
  qed
qed simp

lemma sum_list_unat:
  assumes "(\<Sum>c\<leftarrow>xs. unat c) < 2 ^ 64"
  shows "unat (sum_list xs :: 64 word) = (\<Sum>c\<leftarrow>xs. unat c)"
  using assms
proof (induction xs)
  case (Cons c xs)
  then have "unat (sum_list xs) = (\<Sum>c\<leftarrow>xs. unat c)" by simp
  with Cons.prems show ?case by (simp add: unat_add_lem [THEN iffD1])
qed simp

lemma srt_first_mem:
  assumes "sort_Sort_spec srt"
  shows "srt (call_sizes calls) ! 0 \<in> set (call_sizes calls)" and "srt (call_sizes calls) \<noteq> []"
proof -
  have "length (srt (call_sizes calls)) = 20" using length_srt [OF assms] by (simp add: steps_def)
  then show "srt (call_sizes calls) \<noteq> []" by auto
  then show "srt (call_sizes calls) ! 0 \<in> set (call_sizes calls)"
    using set_srt [OF assms] by (metis length_greater_0_conv nth_mem)
qed

lemma rp_calibrate_run:
  assumes "sort_Sort_spec srt" and "rp_calibrating p = 0"
  defines "a \<equiv> srt (call_sizes (rp_calls p))"
  shows "rp_calibrate srt p = Inr (p\<lparr>rp_calls := replicate steps 0, rp_defaultSize := cs_size (a ! 0),
           rp_maxSize := calibrate_loop (maxPercentile_of (sum_list (rp_calls p))) a 0 (cs_size (a ! 0)),
           rp_calibrating := 0\<rparr>)"
proof -
  have "a \<noteq> []" unfolding a_def by (rule srt_first_mem(2) [OF assms(1)])
  then have "go_index a 0 = Inr (a ! 0)" by (simp add: go_defs)
  then show ?thesis using assms(2) by (simp add: rp_calibrate_def Let_def flip: a_def)
qed

lemma rp_calibrate_ok:
  assumes "sort_Sort_spec srt" and "rp_inv p"
  shows "\<exists>p'. rp_calibrate srt p = Inr p' \<and> rp_inv p' \<and> rp_pool p' = rp_pool p"
proof -
  let ?a = "srt (call_sizes (rp_calls p))"
  let ?top = "cs_size (?a ! 0)"
  have top: "?a ! 0 \<in> set (call_sizes (rp_calls p))" by (rule srt_first_mem [OF assms(1)])
  have mx: "unat (calibrate_loop ms ?a 0 ?top) \<le> 2 ^ 25" for ms
    using calibrate_loop_mem [of ms ?a 0 ?top] call_sizes_size_le top set_srt [OF assms(1)] by auto
  show ?thesis
    using rp_calibrate_run [OF assms(1), of p] assms(2) mx calibrate_loop_mono call_sizes_size_le [OF top]
    by (simp add: rp_inv_def)
qed

lemma rp_Put_ok:
  assumes srt: "sort_Sort_spec srt" and inv: "rp_inv p" and b: "rb_ok b"
  shows "\<exists>p'. rp_Put srt p b = Inr p' \<and> rp_inv p'"
proof -
  let ?idx = "rp_index (rb_Len b)"
  let ?p1 = "p\<lparr>rp_calls := (rp_calls p)[?idx := rp_calls p ! ?idx + 1]\<rparr>"
  have idx: "?idx < length (rp_calls p)" using rp_index_lt inv by (simp add: rp_inv_def)
  have "rp_inv ?p1" using inv by (simp add: rp_inv_def)
  then obtain p2 where p2: "(if rp_calls p ! ?idx + 1 > calibrateCallsThreshold then rp_calibrate srt ?p1 else Inr ?p1) = Inr p2"
      "rp_inv p2"
    using rp_calibrate_ok [OF srt] by (cases "rp_calls p ! ?idx + 1 > calibrateCallsThreshold") auto
  have "rb_ok (rb_Reset b)" using b by (simp add: rb_ok_def)
  then have "rp_inv (p2\<lparr>rp_pool := rb_Reset b # rp_pool p2\<rparr>)" using p2(2) by (simp add: rp_inv_def)
  then show ?thesis using p2 idx by (simp add: rp_Put_def go_defs Let_def)
qed

lemma sint_small:
  assumes "unat (w :: 64 word) < 2 ^ 63"
  shows "sint w = int (unat w)"
proof -
  have "sint w = go_int (int (unat w))" by (simp add: go_int_sint)
  also have "\<dots> = int (unat w)"
  proof (rule go_int_id)
    show "int (unat w) < 2 ^ 63" using assms by (metis of_nat_less_iff of_nat_numeral of_nat_power)
    show "- (2 ^ 63) \<le> int (unat w)" by (rule order_trans [of _ 0]) simp_all
  qed
  finally show ?thesis .
qed

context byte_source
begin

lemma rp_Get_ok:
  assumes inv: "rp_inv p"
  shows "\<exists>b p'. rp_Get sel get p = Inr (b, p') \<and> rp_inv p' \<and> rb_ok b \<and> contents b = []"
proof -
  obtain v rest where g: "sync_Pool_Get sel (rp_pool p) = (v, rest)" by force
  have inv': "rp_inv (p\<lparr>rp_pool := rest\<rparr>)"
    using inv sync_Pool_Get_subset(1) [OF g] by (auto simp: rp_inv_def)
  show ?thesis
  proof (cases v)
    case (Some b)
    then have "rb_ok b \<and> contents b = []" using inv sync_Pool_Get_subset(2) [OF g] by (simp add: rp_inv_def)
    with Some g inv' show ?thesis by (simp add: rp_Get_def)
  next
    case None
    have sz: "sint (rp_defaultSize p) = int (unat (rp_defaultSize p))"
      using inv by (intro sint_small) (auto simp: rp_inv_def)
    moreover have "unat (rp_defaultSize p) \<le> 2 ^ 60"
      by (rule order_trans [of _ "2 ^ 25"]) (use inv in \<open>auto simp: rp_inv_def\<close>)
    then have "int (unat (rp_defaultSize p)) \<le> 2 ^ 60" by (metis of_nat_le_iff of_nat_numeral of_nat_power)
    ultimately have "sint (rp_defaultSize p) \<le> 2 ^ 60" by simp
    from rb_New_cap [OF this] obtain b where "rb_New get (sint (rp_defaultSize p)) = Inr b" "rb_ok b" "contents b = []"
      by (auto simp: rb_ok_def)
    with None g inv' show ?thesis by (simp add: rp_Get_def)
  qed
qed

end

subsection \<open>Calls by size class\<close>

lemma class_le_iff: "i < steps \<Longrightarrow> k < steps \<Longrightarrow> push_bit i minSize \<le> push_bit k minSize \<longleftrightarrow> i \<le> k"
  by (simp add: word_le_nat_alt unat_class_size)

lemma class_calls:
  assumes "length calls = steps" and k: "k < steps"
  shows "(\<Sum>c\<leftarrow>filter (\<lambda>c. cs_size c \<le> push_bit k minSize) (call_sizes calls). unat (cs_calls c))
           = (\<Sum>c\<leftarrow>take (Suc k) calls. unat c)"
proof -
  have "filter (\<lambda>i. push_bit i minSize \<le> push_bit k minSize) [0..<steps] = filter (\<lambda>i. i \<le> k) [0..<steps]"
    using k by (intro filter_cong) (auto simp: class_le_iff)
  also have "\<dots> = [0..<Suc k]"
  proof -
    have "[0..<steps] = [0..<Suc k] @ [Suc k..<steps]" 
      using upt_add_eq_append [of 0 "Suc k" "steps - Suc k"] k by (simp del: upt_Suc)
    moreover have "filter (\<lambda>i. i \<le> k) [0..<Suc k] = [0..<Suc k]" by (rule filter_True) auto
    moreover have "filter (\<lambda>i. i \<le> k) [Suc k..<steps] = []" by (rule filter_False) auto
    ultimately show ?thesis by (simp only: filter_append append_Nil2)
  qed
  finally have "filter (\<lambda>c. cs_size c \<le> push_bit k minSize) (call_sizes calls)
      = map (\<lambda>i. \<lparr>cs_calls = calls ! i, cs_size = push_bit i minSize\<rparr>) [0..<Suc k]"
    by (simp add: call_sizes_def filter_map o_def del: upt_Suc)
  moreover have "map (\<lambda>i. unat (calls ! i)) [0..<Suc k] = map unat (take (Suc k) calls)"
    using assms by (intro nth_equalityI) (simp_all add: nth_map_upt del: upt_Suc)
  ultimately show ?thesis by (simp add: o_def del: upt_Suc)
qed

lemma sum_prefix_le_filter:
  assumes "\<forall>c\<in>set (take n xs). P c"
  shows "(\<Sum>c\<leftarrow>take n xs. f c) \<le> (\<Sum>c\<leftarrow>filter P xs. f c :: nat)"
proof -
  have "filter P xs = filter P (take n xs) @ filter P (drop n xs)"
    by (metis append_take_drop_id filter_append)
  moreover have "filter P (take n xs) = take n xs" using assms by (simp add: filter_id_conv)
  ultimately show ?thesis by simp
qed

lemma sum_list_srt: "sort_Sort_spec srt \<Longrightarrow> (\<Sum>c\<leftarrow>filter P (srt a). f c) = (\<Sum>c\<leftarrow>filter P a. f c :: nat)"
proof -
  assume "sort_Sort_spec srt"
  then have "mset (srt a) = mset a" by (simp add: sort_Sort_spec_def)
  then have "mset (map f (filter P (srt a))) = mset (map f (filter P a))" by simp
  then show ?thesis by (metis sum_mset_sum_list)
qed

lemma call_sizes_total:
  assumes "length calls = steps"
  shows "(\<Sum>c\<leftarrow>call_sizes calls. unat (cs_calls c)) = (\<Sum>c\<leftarrow>calls. unat c)"
proof -
  have "map (\<lambda>i. unat (calls ! i)) [0..<steps] = map unat calls"
    using assms by (intro nth_equalityI) simp_all
  then show ?thesis by (simp add: call_sizes_def o_def)
qed

subsection \<open>Properties\<close>

text \<open>The pool of ring buffers recycles them safely: \<open>Get\<close> always returns a well-formed empty buffer,
  whether it is recycled or new and whatever buffer \<open>sync.Pool\<close> picks, and \<open>Put\<close> of a buffer in any
  state, a calibration included, never panics and keeps that so: what is put back still holding data
  comes out empty.\<close>

theorem RingPool_recycles_empty:
  assumes "sort_Sort_spec srt" and "pool_inv bp" and "rp_inv p" and "rb_ok b"
  shows "\<exists>p1 b' p2. rp_Put srt p b = Inr p1 \<and> rp_Get sel (pool_bytes bsel bp) p1 = Inr (b', p2)
           \<and> rp_inv p2 \<and> rb_ok b' \<and> contents b' = []"
proof -
  from rp_Put_ok [OF assms(1,3,4)] obtain p1 where p1: "rp_Put srt p b = Inr p1" "rp_inv p1" by blast
  then show ?thesis
    using byte_source.rp_Get_ok [OF byte_source_pool_bytes [OF assms(2)] p1(2)] by blast
qed

theorem RingPool_recycles_empty_witness:
  "let b = \<lparr>rb_buf = [1, 2, 3, 4], rb_size = 4, rb_r = 1, rb_w = 3, rb_isEmpty = False\<rparr>
   in sort_Sort_spec stable_sort \<and> rp_inv rp_builtinPool \<and> rb_ok b \<and> contents b = [2, 3]
      \<and> (\<exists>p1 b' p2. rp_Put stable_sort rp_builtinPool b = Inr p1
             \<and> rp_Get (\<lambda>_. Some 0) (pool_bytes (\<lambda>_. None) builtinPool) p1 = Inr (b', p2) \<and> contents b' = [])"
proof -
  let ?b = "\<lparr>rb_buf = [1, 2, 3, 4], rb_size = 4, rb_r = 1, rb_w = 3, rb_isEmpty = False\<rparr>"
  have b: "rb_ok ?b" by (simp add: rb_ok_def rb_inv_def)
  have c: "contents ?b = [2, 3]" by (simp add: contents_def eval_nat_numeral)
  have "\<exists>p1 b' p2. rp_Put stable_sort rp_builtinPool ?b = Inr p1
             \<and> rp_Get (\<lambda>_. Some 0) (pool_bytes (\<lambda>_. None) builtinPool) p1 = Inr (b', p2) \<and> contents b' = []"
    using RingPool_recycles_empty [OF stable_sort_ok pool_inv_builtin rp_inv_builtin b,
        where sel = "\<lambda>_. Some 0" and bsel = "\<lambda>_. None"] by blast
  then show ?thesis unfolding Let_def using stable_sort_ok rp_inv_builtin b c by blast
qed

text \<open>Calibration sets the default size to the size class with the most calls and the maximal size to
  a class that is at least as large and such that the classes up to it received more than the 95th
  percentile of all calls (or all of them), and it starts the statistics over. \<open>sort.Sort\<close> may order
  classes with equal counts in any way.\<close>

theorem calibrate_percentile:
  assumes srt: "sort_Sort_spec srt" and inv: "rp_inv p" and total: "(\<Sum>c\<leftarrow>rp_calls p. unat c) < 2 ^ 64"
  shows "\<exists>p' i k. rp_calibrate srt p = Inr p' \<and> rp_inv p' \<and> rp_calls p' = replicate steps 0
     \<and> i < steps \<and> unat (rp_defaultSize p') = 64 * 2 ^ i \<and> (\<forall>j < steps. rp_calls p ! j \<le> rp_calls p ! i)
     \<and> i \<le> k \<and> k < steps \<and> unat (rp_maxSize p') = 64 * 2 ^ k
     \<and> min (\<Sum>c\<leftarrow>rp_calls p. unat c) (Suc (unat (maxPercentile_of (sum_list (rp_calls p)))))
         \<le> (\<Sum>c\<leftarrow>take (Suc k) (rp_calls p). unat c)"
proof -
  let ?a = "srt (call_sizes (rp_calls p))"
  let ?ms = "maxPercentile_of (sum_list (rp_calls p))"
  let ?mx = "calibrate_loop ?ms ?a 0 (cs_size (?a ! 0))"
  have len: "length (rp_calls p) = steps" "rp_calibrating p = 0" using inv by (auto simp: rp_inv_def)
  have top: "?a ! 0 \<in> set (call_sizes (rp_calls p))" "?a \<noteq> []"
    using srt_first_mem [OF srt] by simp_all
  then obtain i where i: "i < steps" "?a ! 0 = \<lparr>cs_calls = rp_calls p ! i, cs_size = push_bit i minSize\<rparr>"
    by (auto simp: call_sizes_def)
  have most: "\<forall>j < steps. rp_calls p ! j \<le> rp_calls p ! i"
    using srt_head_max [OF srt _ top(2)] i(2) by (force simp: call_sizes_def)
  have "?mx \<in> cs_size ` set (call_sizes (rp_calls p))"
    using calibrate_loop_mem [of ?ms ?a 0 "cs_size (?a ! 0)"] top(1) set_srt [OF srt] by auto
  then obtain k where k: "k < steps" "?mx = push_bit k minSize" by (auto simp: call_sizes_def)
  have ik: "i \<le> k"
    using calibrate_loop_mono [of "cs_size (?a ! 0)" ?ms ?a 0] i k class_le_iff by auto
  have tot: "(\<Sum>c\<leftarrow>?a. unat (cs_calls c)) = (\<Sum>c\<leftarrow>rp_calls p. unat c)"
    using sum_list_srt [OF srt, where P = "\<lambda>_. True"] call_sizes_total [OF len(1)] by simp
  have "unat (0 :: 64 word) + (\<Sum>c\<leftarrow>?a. unat (cs_calls c)) < 2 ^ 64" using total tot by simp
  from calibrate_loop_prefix [OF this, of ?ms "cs_size (?a ! 0)"] obtain n where
    n: "\<forall>c\<in>set (take n ?a). cs_size c \<le> ?mx"
       "n = length ?a \<or> unat ?ms < (\<Sum>c\<leftarrow>take n ?a. unat (cs_calls c))" by auto
  have "(\<Sum>c\<leftarrow>take n ?a. unat (cs_calls c)) \<le> (\<Sum>c\<leftarrow>filter (\<lambda>c. cs_size c \<le> ?mx) ?a. unat (cs_calls c))"
    by (rule sum_prefix_le_filter [OF n(1)])
  also have "\<dots> = (\<Sum>c\<leftarrow>take (Suc k) (rp_calls p). unat c)"
    unfolding k(2) by (simp add: sum_list_srt [OF srt] class_calls [OF len(1) k(1)])
  finally have "min (\<Sum>c\<leftarrow>rp_calls p. unat c) (Suc (unat ?ms)) \<le> (\<Sum>c\<leftarrow>take (Suc k) (rp_calls p). unat c)"
    using n(2) tot by auto
  then show ?thesis
    using rp_calibrate_ok [OF srt inv] rp_calibrate_run [OF srt len(2)] i k ik most
      unat_class_size [OF i(1)] unat_class_size [OF k(1)]
    by (intro exI [of _ "projr (rp_calibrate srt p)"] exI [of _ i] exI [of _ k]) auto
qed

theorem calibrate_percentile_witness:
  "let p = rp_builtinPool\<lparr>rp_calls := [1, 0, 98, 1] @ replicate 16 0\<rparr>
   in rp_inv p \<and> maxPercentile_of 100 = 95
      \<and> (\<exists>p'. rp_calibrate stable_sort p = Inr p' \<and> rp_defaultSize p' = 256 \<and> 256 \<le> unat (rp_maxSize p'))"
proof -
  let ?p = "rp_builtinPool\<lparr>rp_calls := [1, 0, 98, 1] @ replicate 16 0\<rparr>"
  have inv: "rp_inv ?p" by (simp add: rp_inv_def rp_builtinPool_def steps_def)
  have pct: "maxPercentile_of 100 = 95"
    by (simp add: maxPercentile_of_def round53_def bits_Len.simps)
  have "(\<Sum>c\<leftarrow>rp_calls ?p. unat c) < 2 ^ 64" by (simp add: sum_list_replicate)
  from calibrate_percentile [OF stable_sort_ok inv this] obtain p' i k where
    p': "rp_calibrate stable_sort ?p = Inr p'" and i: "i < 20" "unat (rp_defaultSize p') = 64 * 2 ^ i"
      "\<forall>j < 20. rp_calls ?p ! j \<le> rp_calls ?p ! i"
      and k: "i \<le> k" "unat (rp_maxSize p') = 64 * 2 ^ k"
    unfolding steps_def by blast
  have "rp_calls ?p ! 2 \<le> rp_calls ?p ! i" using i(3) [rule_format, of 2] by simp
  then have "i = 2" using i(1) by (auto simp: nth_Cons' word_le_nat_alt split: if_splits)
  then have "rp_defaultSize p' = 256" using i(2) by (simp add: word_unat_eq_iff)
  moreover have "(2::nat) ^ 2 \<le> 2 ^ k" using k(1) \<open>i = 2\<close> by (intro power_increasing) auto
  ultimately show ?thesis using inv pct p' k(2) by auto
qed

end
