(* ===== verification/Elastic.thy ===== *)
theory Elastic
  imports RingPool
begin

text \<open>
  The elastic wrapper of \<^verbatim>\<open>contribute/agonet/pkg/buffer/elastic/elastic_ring_buffer.go\<close>: a ring buffer
  that is taken from the pool on the first write and given back once a read has emptied it. The
  pool of ring buffers is part of the state that every operation passes on. The elastic buffer
  meets the same contract of a byte queue as the ring buffer below it.
\<close>

subsection \<open>State\<close>

record RingBuffer =
  er_rb :: "Buffer option"
  er_rbPool :: RbPool

text \<open>What the operations need of their surroundings: the choice of \<open>sync.Pool\<close>, the source of byte
  slices and \<open>sort.Sort\<close>.\<close>

record ring_env =
  en_sel :: "Buffer selector"
  en_get :: "nat \<Rightarrow> byte list"
  en_sort :: "callSize list \<Rightarrow> callSize list"

subsection \<open>Operations\<close>

definition er_instance :: "ring_env \<Rightarrow> RingBuffer \<Rightarrow> (Buffer \<times> RingBuffer) go" where
  "er_instance en b =
     (case er_rb b of
        Some rb \<Rightarrow> Inr (rb, b)
      | None \<Rightarrow> go_bind (rp_Get (en_sel en) (en_get en) (er_rbPool b))
          (\<lambda>(rb, p). Inr (rb, b\<lparr>er_rb := Some rb, er_rbPool := p\<rparr>)))"

definition er_Done :: "ring_env \<Rightarrow> RingBuffer \<Rightarrow> RingBuffer go" where
  "er_Done en b =
     (case er_rb b of
        None \<Rightarrow> Inr b
      | Some rb \<Rightarrow> go_bind (rp_Put (en_sort en) (er_rbPool b) rb)
          (\<lambda>p. Inr (b\<lparr>er_rb := None, er_rbPool := p\<rparr>)))"

definition er_done :: "ring_env \<Rightarrow> RingBuffer \<Rightarrow> RingBuffer go" where
  "er_done en b =
     (case er_rb b of
        None \<Rightarrow> Inr b
      | Some rb \<Rightarrow>
          if rb_IsEmpty rb
          then go_bind (rp_Put (en_sort en) (er_rbPool b) rb) (\<lambda>p. Inr (b\<lparr>er_rb := None, er_rbPool := p\<rparr>))
          else Inr b)"

definition er_Peek :: "RingBuffer \<Rightarrow> int \<Rightarrow> (byte list \<times> byte list) go" where
  "er_Peek b n = (case er_rb b of None \<Rightarrow> Inr ([], []) | Some rb \<Rightarrow> rb_Peek rb n)"

definition er_Discard :: "ring_env \<Rightarrow> RingBuffer \<Rightarrow> int \<Rightarrow> (nat \<times> go_error option \<times> RingBuffer) go" where
  "er_Discard en b n =
     (case er_rb b of
        None \<Rightarrow> Inr (0, Some ErrIsEmpty, b)
      | Some rb \<Rightarrow> go_bind (rb_Discard rb n)
          (\<lambda>(k, err, rb'). go_bind (er_done en (b\<lparr>er_rb := Some rb'\<rparr>)) (\<lambda>b'. Inr (k, err, b'))))"

definition er_Read :: "ring_env \<Rightarrow> RingBuffer \<Rightarrow> byte list \<Rightarrow> (nat \<times> go_error option \<times> byte list \<times> RingBuffer) go" where
  "er_Read en b p =
     (case er_rb b of
        None \<Rightarrow> Inr (0, Some ErrIsEmpty, p, b)
      | Some rb \<Rightarrow> go_bind (rb_Read rb p)
          (\<lambda>(k, err, p', rb'). go_bind (er_done en (b\<lparr>er_rb := Some rb'\<rparr>)) (\<lambda>b'. Inr (k, err, p', b'))))"

definition er_ReadByte :: "ring_env \<Rightarrow> RingBuffer \<Rightarrow> (byte \<times> go_error option \<times> RingBuffer) go" where
  "er_ReadByte en b =
     (case er_rb b of
        None \<Rightarrow> Inr (0, Some ErrIsEmpty, b)
      | Some rb \<Rightarrow> go_bind (rb_ReadByte rb)
          (\<lambda>(c, err, rb'). go_bind (er_done en (b\<lparr>er_rb := Some rb'\<rparr>)) (\<lambda>b'. Inr (c, err, b'))))"

definition er_Write :: "ring_env \<Rightarrow> RingBuffer \<Rightarrow> byte list \<Rightarrow> (nat \<times> go_error option \<times> RingBuffer) go" where
  "er_Write en b p =
     (if p = [] then Inr (0, None, b)
      else go_bind (er_instance en b)
        (\<lambda>(rb, b1). go_bind (rb_Write (en_get en) rb p) (\<lambda>(n, err, rb'). Inr (n, err, b1\<lparr>er_rb := Some rb'\<rparr>))))"

definition er_WriteByte :: "ring_env \<Rightarrow> RingBuffer \<Rightarrow> byte \<Rightarrow> (go_error option \<times> RingBuffer) go" where
  "er_WriteByte en b c =
     go_bind (er_instance en b)
       (\<lambda>(rb, b1). go_bind (rb_WriteByte (en_get en) rb c) (\<lambda>(err, rb'). Inr (err, b1\<lparr>er_rb := Some rb'\<rparr>)))"

definition er_Buffered :: "RingBuffer \<Rightarrow> nat" where
  "er_Buffered b = (case er_rb b of None \<Rightarrow> 0 | Some rb \<Rightarrow> rb_Buffered rb)"

definition er_Len :: "RingBuffer \<Rightarrow> nat" where
  "er_Len b = (case er_rb b of None \<Rightarrow> 0 | Some rb \<Rightarrow> rb_Len rb)"

definition er_Cap :: "RingBuffer \<Rightarrow> nat" where
  "er_Cap b = (case er_rb b of None \<Rightarrow> 0 | Some rb \<Rightarrow> rb_Cap rb)"

definition er_Available :: "RingBuffer \<Rightarrow> nat" where
  "er_Available b = (case er_rb b of None \<Rightarrow> 0 | Some rb \<Rightarrow> rb_Available rb)"

definition er_WriteString :: "ring_env \<Rightarrow> RingBuffer \<Rightarrow> byte list \<Rightarrow> (nat \<times> go_error option \<times> RingBuffer) go" where
  "er_WriteString en b s =
     (if s = [] then Inr (0, None, b)
      else go_bind (er_instance en b)
        (\<lambda>(rb, b1). go_bind (rb_WriteString (en_get en) rb s) (\<lambda>(n, err, rb'). Inr (n, err, b1\<lparr>er_rb := Some rb'\<rparr>))))"

definition er_Bytes :: "RingBuffer \<Rightarrow> byte list go" where
  "er_Bytes b = (case er_rb b of None \<Rightarrow> Inr [] | Some rb \<Rightarrow> rb_Bytes rb)"

definition er_ReadFrom :: "ring_env \<Rightarrow> 's io_reader \<Rightarrow> RingBuffer \<Rightarrow> 's \<Rightarrow> (int \<times> go_error option \<times> RingBuffer \<times> 's) go" where
  "er_ReadFrom en rd b s =
     go_bind (er_instance en b)
       (\<lambda>(rb, b1). go_bind (rb_ReadFrom (en_get en) rd rb s)
          (\<lambda>(n, err, rb', s'). Inr (n, err, b1\<lparr>er_rb := Some rb'\<rparr>, s')))"

definition er_WriteTo :: "ring_env \<Rightarrow> 's io_writer \<Rightarrow> RingBuffer \<Rightarrow> 's \<Rightarrow> (nat \<times> go_error option \<times> RingBuffer \<times> 's) go" where
  "er_WriteTo en wr b s =
     (case er_rb b of
        None \<Rightarrow> Inr (0, Some ErrIsEmpty, b, s)
      | Some _ \<Rightarrow> go_bind (er_instance en b)
          (\<lambda>(rb, b1). go_bind (rb_WriteTo wr rb s)
             (\<lambda>(n, err, rb', s'). go_bind (er_done en (b1\<lparr>er_rb := Some rb'\<rparr>)) (\<lambda>b'. Inr (n, err, b', s')))))"

definition er_IsFull :: "RingBuffer \<Rightarrow> bool" where
  "er_IsFull b = (case er_rb b of None \<Rightarrow> False | Some rb \<Rightarrow> rb_IsFull rb)"

definition er_IsEmpty :: "RingBuffer \<Rightarrow> bool" where
  "er_IsEmpty b = (case er_rb b of None \<Rightarrow> True | Some rb \<Rightarrow> rb_IsEmpty rb)"

definition er_Reset :: "RingBuffer \<Rightarrow> RingBuffer" where
  "er_Reset b = (case er_rb b of None \<Rightarrow> b | Some rb \<Rightarrow> b\<lparr>er_rb := Some (rb_Reset rb)\<rparr>)"

subsection \<open>Abstraction and invariant\<close>

definition er_contents :: "RingBuffer \<Rightarrow> byte list" where
  "er_contents b = (case er_rb b of None \<Rightarrow> [] | Some rb \<Rightarrow> contents rb)"

definition er_ok :: "RingBuffer \<Rightarrow> bool" where
  "er_ok b \<longleftrightarrow> rp_inv (er_rbPool b) \<and> (case er_rb b of None \<Rightarrow> True | Some rb \<Rightarrow> rb_ok rb)"

locale ring_environment =
  fixes en :: ring_env
  assumes en_sort: "sort_Sort_spec (en_sort en)" and en_get: "\<And>n. length (en_get en n) = n"

sublocale ring_environment \<subseteq> byte_source "en_get en"
  by unfold_locales (rule en_get)

context ring_environment
begin

lemma er_instance_ok:
  assumes "er_ok b"
  shows "\<exists>rb b'. er_instance en b = Inr (rb, b') \<and> rb_ok rb \<and> rp_inv (er_rbPool b') \<and> er_rb b' = Some rb
           \<and> contents rb = er_contents b"
proof (cases "er_rb b")
  case None
  with rp_Get_ok [of "er_rbPool b" "en_sel en"] assms show ?thesis
    by (auto simp: er_instance_def er_ok_def er_contents_def)
next
  case (Some rb)
  with assms show ?thesis by (simp add: er_instance_def er_ok_def er_contents_def)
qed

text \<open>After a consuming operation the buffer goes back to the pool exactly when it is empty.\<close>

lemma er_done_ok:
  assumes "rb_ok rb" and "rp_inv (er_rbPool b)"
  shows "\<exists>b'. er_done en (b\<lparr>er_rb := Some rb\<rparr>) = Inr b' \<and> er_ok b' \<and> er_contents b' = contents rb
           \<and> er_rb b' = (if contents rb = [] then None else Some rb)"
proof (cases "rb_IsEmpty rb")
  case True
  then have "contents rb = []" by (simp add: rb_IsEmpty_def)
  with True rp_Put_ok [OF en_sort assms(2,1)] show ?thesis
    by (auto simp: er_done_def er_ok_def er_contents_def)
next
  case False
  then have "contents rb \<noteq> []" using assms(1) by (simp add: rb_IsEmpty_def rb_ok_def contents_eq_Nil)
  with False assms show ?thesis by (simp add: er_done_def er_ok_def er_contents_def)
qed

lemma er_Write_fifo:
  assumes "er_ok b" and "length (er_contents b) + length p \<le> rb_limit"
  shows "\<exists>b'. er_Write en b p = Inr (length p, None, b') \<and> er_ok b' \<and> er_contents b' = er_contents b @ p"
proof (cases "p = []")
  case True
  with assms show ?thesis by (simp add: er_Write_def)
next
  case False
  from er_instance_ok [OF assms(1)] obtain rb b1 where
    i: "er_instance en b = Inr (rb, b1)" "rb_ok rb" "rp_inv (er_rbPool b1)" "contents rb = er_contents b" by blast
  from rb_Write_fifo [OF i(2), of p] i(4) assms(2) obtain rb' where
    "rb_Write (en_get en) rb p = Inr (length p, None, rb')" "rb_ok rb'" "contents rb' = er_contents b @ p" by auto
  with False i show ?thesis by (auto simp: er_Write_def er_ok_def er_contents_def)
qed

lemma er_Read_fifo:
  assumes "er_ok b"
  shows "\<exists>e b'. er_Read en b q = Inr (min (length q) (length (er_contents b)), e,
                   go_copy q (take (length q) (er_contents b)), b')
           \<and> er_ok b' \<and> er_contents b' = drop (length q) (er_contents b)"
proof (cases "er_rb b")
  case None
  with assms show ?thesis by (simp add: er_Read_def er_contents_def go_copy_def)
next
  case (Some rb)
  with assms have ok: "rb_ok rb" "rp_inv (er_rbPool b)" by (simp_all add: er_ok_def)
  from rb_Read_fifo [OF ok(1), of q] obtain e rb' where
    r: "rb_Read rb q = Inr (min (length q) (length (contents rb)), e, go_copy q (take (length q) (contents rb)), rb')"
      "rb_ok rb'" "contents rb' = drop (length q) (contents rb)" by blast
  from er_done_ok [OF r(2) ok(2)] r Some show ?thesis by (auto simp: er_Read_def er_contents_def)
qed

lemma er_Discard_fifo:
  assumes "er_ok b"
  shows "\<exists>e b'. er_Discard en b n = Inr (min (nat n) (length (er_contents b)), e, b')
           \<and> er_ok b' \<and> er_contents b' = drop (nat n) (er_contents b)"
proof (cases "er_rb b")
  case None
  with assms show ?thesis by (simp add: er_Discard_def er_contents_def)
next
  case (Some rb)
  with assms have ok: "rb_ok rb" "rp_inv (er_rbPool b)" by (simp_all add: er_ok_def)
  from ring.discard_law [OF ok(1), of n] obtain e rb' where
    r: "rb_Discard rb n = Inr (min (nat n) (length (contents rb)), e, rb')"
      "rb_ok rb'" "contents rb' = drop (nat n) (contents rb)" by blast
  from er_done_ok [OF r(2) ok(2)] r Some show ?thesis by (auto simp: er_Discard_def er_contents_def)
qed

end

sublocale ring_environment \<subseteq> elastic: byte_fifo er_ok er_contents rb_limit "er_Write en" "er_Read en" "er_Discard en"
    er_Peek er_Buffered er_IsEmpty er_Reset
proof unfold_locales
  fix b :: RingBuffer
  assume ok: "er_ok b"
  show "\<exists>h t. er_Peek b n = Inr (h, t)
          \<and> h @ t = (if n \<le> 0 then er_contents b else take (nat n) (er_contents b))" for n
    using ok ring.peek_law [of _ n] by (cases "er_rb b") (auto simp: er_Peek_def er_contents_def er_ok_def)
  show "er_Buffered b = length (er_contents b)"
    using ok ring.buffered_law by (auto simp: er_Buffered_def er_contents_def er_ok_def split: option.splits)
  show "er_IsEmpty b \<longleftrightarrow> er_contents b = []"
    using ok ring.is_empty_law by (auto simp: er_IsEmpty_def er_contents_def er_ok_def split: option.splits)
  show "er_ok (er_Reset b) \<and> er_contents (er_Reset b) = []"
    using ok ring.reset_law by (auto simp: er_Reset_def er_contents_def er_ok_def split: option.splits)
qed (fact er_Write_fifo er_Read_fifo er_Discard_fifo)+

context ring_environment
begin

lemmas elastic_run = elastic.run_ok [unfolded rb_limit_def]

lemma er_Read_released:
  assumes "er_ok b" and "er_contents b \<noteq> []"
  shows "\<exists>n e q' b'. er_Read en b q = Inr (n, e, q', b') \<and> er_ok b'
           \<and> (er_rb b' = None \<longleftrightarrow> length (er_contents b) \<le> length q)"
proof -
  from assms obtain rb where rb: "er_rb b = Some rb" "contents rb = er_contents b" "rb_ok rb" "rp_inv (er_rbPool b)"
    by (cases "er_rb b") (auto simp: er_contents_def er_ok_def)
  from rb_Read_fifo [OF rb(3), of q] obtain n e q' rb' where
    r: "rb_Read rb q = Inr (n, e, q', rb')" "rb_ok rb'" "contents rb' = drop (length q) (contents rb)" by blast
  from er_done_ok [OF r(2) rb(4)] r rb show ?thesis by (auto simp: er_Read_def)
qed

lemma er_Discard_released:
  assumes "er_ok b" and "er_contents b \<noteq> []"
  shows "\<exists>n e b'. er_Discard en b k = Inr (n, e, b') \<and> er_ok b'
           \<and> (er_rb b' = None \<longleftrightarrow> int (length (er_contents b)) \<le> k)"
proof -
  from assms obtain rb where rb: "er_rb b = Some rb" "contents rb = er_contents b" "rb_ok rb" "rp_inv (er_rbPool b)"
    by (cases "er_rb b") (auto simp: er_contents_def er_ok_def)
  from ring.discard_law [OF rb(3), of k] obtain n e rb' where
    r: "rb_Discard rb k = Inr (n, e, rb')" "rb_ok rb'" "contents rb' = drop (nat k) (contents rb)" by blast
  have "drop (nat k) (er_contents b) = [] \<longleftrightarrow> int (length (er_contents b)) \<le> k"
    using assms(2) by (cases "0 \<le> k") auto
  with er_done_ok [OF r(2) rb(4)] r rb show ?thesis by (auto simp: er_Discard_def)
qed

lemma er_WriteTo_returns:
  assumes sink: "io_sink wr accepted" and ok: "er_ok b" and ne: "er_contents b \<noteq> []"
  shows "\<exists>m e b' s'. er_WriteTo en wr b s = Inr (m, e, b', s') \<and> er_ok b'
           \<and> accepted s' = accepted s @ take m (er_contents b)
           \<and> (e = None \<longrightarrow> m = length (er_contents b) \<and> er_rb b' = None)"
proof -
  obtain rb where rb: "er_rb b = Some rb" "contents rb = er_contents b" "rb_ok rb" "rp_inv (er_rbPool b)"
    using ok ne by (cases "er_rb b") (auto simp: er_contents_def er_ok_def)
  have inv: "rb_inv rb" "contents rb \<noteq> []" using rb ne by (auto simp: rb_ok_def)
  from rb_WriteTo_cases [OF sink inv, of s] obtain m e rb' s' where
    w: "rb_WriteTo wr rb s = Inr (m, e, rb', s')" "accepted s' = accepted s @ take m (contents rb)"
      "rb_inv rb'" "e = None \<longrightarrow> m = length (contents rb) \<and> contents rb' = []" by auto
  moreover note rb_WriteTo_size [OF w(1)]
  ultimately have "rb_ok rb'" using rb by (simp add: rb_ok_def)
  from er_done_ok [OF this rb(4)] w rb show ?thesis
    by (auto simp: er_WriteTo_def er_instance_def)
qed

end

lemma ring_environment_pool:
  "sort_Sort_spec (en_sort en) \<Longrightarrow> pool_inv bp \<Longrightarrow> en_get en = pool_bytes bsel bp \<Longrightarrow> ring_environment en"
  by (simp add: ring_environment_def length_pool_bytes)

definition example_env :: ring_env where
  "example_env = \<lparr>en_sel = (\<lambda>_. Some 0), en_get = pool_bytes (\<lambda>_. None) builtinPool, en_sort = stable_sort\<rparr>"

interpretation env: ring_environment example_env
  by (rule ring_environment_pool [OF _ pool_inv_builtin]) (simp_all add: example_env_def stable_sort_ok)

definition er_new :: RingBuffer where
  "er_new = \<lparr>er_rb = None, er_rbPool = rp_builtinPool\<rparr>"

lemma er_new_ok: "er_ok er_new" "er_contents er_new = []"
  by (simp_all add: er_ok_def er_new_def er_contents_def rp_inv_builtin)

subsection \<open>Properties\<close>

text \<open>C12: the elastic buffer is a first-in-first-out queue under any interleaving of writes and reads,
  while its ring buffer goes back to the pool and is taken out again in between: no call panics, the
  bytes read followed by those still buffered are those buffered at the start followed by those
  written, and the pool keeps holding only well-formed empty buffers.\<close>

theorem elastic_buffer_fifo:
  assumes "sort_Sort_spec (en_sort en)" and "pool_inv bp" and "en_get en = pool_bytes bsel bp" and "er_ok b"
    and "length (er_contents b) + length (fifo_written ops) \<le> 2 ^ 59"
  shows "\<exists>out b'. fifo_run (er_Write en) (er_Read en) b ops = Inr (out, b') \<and> er_ok b'
           \<and> rp_inv (er_rbPool b') \<and> out @ er_contents b' = er_contents b @ fifo_written ops"
  using ring_environment.elastic_run [OF ring_environment_pool [OF assms(1-3)] assms(4,5)]
  by (auto simp: er_ok_def)

theorem elastic_buffer_fifo_witness:
  "\<exists>out b'. fifo_run (er_Write example_env) (er_Read example_env) er_new [FWrite [1, 2], FRead 2, FWrite [3], FRead 5]
         = Inr (out, b') \<and> out @ er_contents b' = [1, 2, 3]"
  using elastic_buffer_fifo [OF _ pool_inv_builtin, of example_env "\<lambda>_. None" er_new
      "[FWrite [1, 2], FRead 2, FWrite [3], FRead 5]"]
  by (auto simp: example_env_def stable_sort_ok er_new_ok)

text \<open>A read or a discard that empties the elastic buffer gives its ring buffer back to the pool, and
  only such a one does: afterwards the wrapper holds a ring buffer exactly when bytes are left. A
  \<open>WriteTo\<close> without error has handed everything to the writer and given the ring buffer back too.\<close>

theorem elastic_releases_when_drained:
  assumes "sort_Sort_spec (en_sort en)" and "pool_inv bp" and "en_get en = pool_bytes bsel bp"
    and "io_sink wr accepted" and "er_ok b" and "er_contents b \<noteq> []"
  shows "(\<exists>n e q' b'. er_Read en b q = Inr (n, e, q', b') \<and> er_ok b'
            \<and> (er_rb b' = None \<longleftrightarrow> length (er_contents b) \<le> length q))
     \<and> (\<exists>n e b'. er_Discard en b k = Inr (n, e, b') \<and> er_ok b'
            \<and> (er_rb b' = None \<longleftrightarrow> int (length (er_contents b)) \<le> k))
     \<and> (\<exists>n e b' s'. er_WriteTo en wr b s = Inr (n, e, b', s') \<and> er_ok b'
            \<and> accepted s' = accepted s @ take n (er_contents b)
            \<and> (e = None \<longrightarrow> n = length (er_contents b) \<and> er_rb b' = None))"
proof -
  have env: "ring_environment en" by (rule ring_environment_pool [OF assms(1-3)])
  show ?thesis
    using ring_environment.er_Read_released [OF env assms(5,6), of q]
      ring_environment.er_Discard_released [OF env assms(5,6), of k]
      ring_environment.er_WriteTo_returns [OF env assms(4-6), of s]
    by (intro conjI) blast+
qed

theorem elastic_releases_when_drained_witness:
  "let b = er_new\<lparr>er_rb := Some \<lparr>rb_buf = [5, 2, 3, 4], rb_size = 4, rb_r = 2, rb_w = 1, rb_isEmpty = False\<rparr>\<rparr>
   in er_ok b \<and> er_contents b = [3, 4, 5]
      \<and> (\<exists>n e b'. er_Discard example_env b 2 = Inr (n, e, b') \<and> er_rb b' \<noteq> None)
      \<and> (\<exists>n e b'. er_Discard example_env b 3 = Inr (n, e, b') \<and> er_rb b' = None)"
proof -
  let ?rb = "\<lparr>rb_buf = [5, 2, 3, 4], rb_size = 4, rb_r = 2, rb_w = 1, rb_isEmpty = False\<rparr>"
  let ?b = "er_new\<lparr>er_rb := Some ?rb\<rparr>"
  have b: "er_ok ?b" by (simp add: er_ok_def er_new_def rp_inv_builtin rb_ok_def rb_inv_def)
  have c: "er_contents ?b = [3, 4, 5]" by (simp add: er_contents_def contents_def eval_nat_numeral)
  have d: "\<exists>n e b'. er_Discard example_env ?b k = Inr (n, e, b') \<and> (er_rb b' = None \<longleftrightarrow> 3 \<le> k)" for k
    using elastic_releases_when_drained [OF _ pool_inv_builtin _ stealer.io_sink_axioms b, of example_env "\<lambda>_. None" "[]" k None] c
    by (auto simp: example_env_def stable_sort_ok)
  show ?thesis using b c d [of 2] d [of 3] by (auto simp: Let_def)
qed

end
