(* ===== verification/Connection.thy ===== *)
theory Connection
  imports Elastic
begin

text \<open>
  The connection of \<^verbatim>\<open>contribute/agonet/connection.go\<close> as a reader of inbound bytes. What has arrived is
  the elastic buffer (data left over from earlier packets) followed by the byte buffer of the current
  packet; the operations work across the border between the two. The byte buffer comes from the
  third-party package \<open>bytebufferpool\<close>, so its operations are arguments. The locale \<open>frame_reader\<close> is
  the contract of the \<open>Reader\<close> interface (\<^verbatim>\<open>contribute/agonet/typs.go\<close>) that the codecs rely on.
\<close>

subsection \<open>State\<close>

record conn =
  c_rawConn :: bool
  c_buffer :: "byte list option"
  c_cache :: "byte list"
  c_inboundBuffer :: RingBuffer

text \<open>The surroundings of a connection: those of its elastic buffer and the operations of
  \<open>bytebufferpool.ByteBuffer\<close>, whose exported field \<open>B\<close> is the byte list.\<close>

record conn_env =
  ce_ring :: ring_env
  bb_Get :: "byte list"
  bb_Write :: "byte list \<Rightarrow> byte list \<Rightarrow> byte list"
  bb_Len :: "byte list \<Rightarrow> nat"
  bb_Reset :: "byte list \<Rightarrow> byte list"

record tcpConn =
  tc_b :: "byte list option"

definition newStreamConn :: "conn_env \<Rightarrow> RbPool \<Rightarrow> conn" where
  "newStreamConn ce p =
     \<lparr>c_rawConn = True, c_buffer = Some (bb_Get ce), c_cache = [],
      c_inboundBuffer = \<lparr>er_rb = None, er_rbPool = p\<rparr>\<rparr>"

definition packTCPConn :: "conn_env \<Rightarrow> byte list option \<Rightarrow> tcpConn" where
  "packTCPConn ce buf =
     (case buf of None \<Rightarrow> \<lparr>tc_b = None\<rparr> | Some b \<Rightarrow> \<lparr>tc_b = Some (bb_Write ce (bb_Get ce) b)\<rparr>)"

text \<open>\<open>None\<close> in place of the connection is the nil that a closed one yields.\<close>

definition unpackTCPConn :: "conn_env \<Rightarrow> conn \<Rightarrow> tcpConn \<Rightarrow> (conn option \<times> tcpConn) go" where
  "unpackTCPConn ce c tc =
     (case c_buffer c of
        None \<Rightarrow> Inr (None, tc)
      | Some b \<Rightarrow>
          (case tc_b tc of
             None \<Rightarrow> Inl NilDereference
           | Some p \<Rightarrow> Inr (Some (c\<lparr>c_buffer := Some (bb_Write ce b p)\<rparr>), tc\<lparr>tc_b := None\<rparr>)))"

subsection \<open>Reader operations\<close>

definition conn_resetBuffer :: "conn_env \<Rightarrow> conn \<Rightarrow> conn go" where
  "conn_resetBuffer ce c =
     (case c_buffer c of
        None \<Rightarrow> Inl NilDereference
      | Some b \<Rightarrow> Inr (c\<lparr>c_buffer := Some (bb_Reset ce b), c_inboundBuffer := er_Reset (c_inboundBuffer c)\<rparr>))"

definition conn_Read :: "conn_env \<Rightarrow> conn \<Rightarrow> byte list \<Rightarrow> (nat \<times> go_error option \<times> byte list \<times> conn) go" where
  "conn_Read ce c p =
     (case c_buffer c of
        None \<Rightarrow> Inr (0, Some ErrClosed, p, c)
      | Some b \<Rightarrow>
          if \<not> c_rawConn c then Inr (0, Some ErrClosed, p, c)
          else if er_IsEmpty (c_inboundBuffer c)
          then let n = min (length p) (length b) in
               Inr (n, if n = 0 \<and> length p > 0 then Some ErrShortBuffer else None,
                    go_copy p b, c\<lparr>c_buffer := Some (drop n b)\<rparr>)
          else go_bind (er_Read (ce_ring ce) (c_inboundBuffer c) p)
                 (\<lambda>(n, _, p1, ib).
                    let c1 = c\<lparr>c_inboundBuffer := ib\<rparr> in
                    if n = length p1 then Inr (n, None, p1, c1)
                    else go_bind (go_slice p1 n (length p1))
                           (\<lambda>rest. let m = min (length rest) (length b) in
                              Inr (n + m, None, take n p1 @ go_copy rest b, c1\<lparr>c_buffer := Some (drop m b)\<rparr>))))"

definition conn_WriteTo ::
  "conn_env \<Rightarrow> (byte list \<Rightarrow> 's \<Rightarrow> (nat \<times> go_error option) \<times> byte list \<times> 's) \<Rightarrow> 's io_writer \<Rightarrow> conn \<Rightarrow> 's
     \<Rightarrow> (nat \<times> go_error option \<times> conn \<times> 's) go" where
  "conn_WriteTo ce bb_WriteTo wr c s =
     (case c_buffer c of
        None \<Rightarrow> Inr (0, Some ErrClosed, c, s)
      | Some b \<Rightarrow>
          if \<not> c_rawConn c then Inr (0, Some ErrClosed, c, s)
          else go_bind (if er_IsEmpty (c_inboundBuffer c) then Inr (0, None, c_inboundBuffer c, s)
                        else er_WriteTo (ce_ring ce) wr (c_inboundBuffer c) s)
                 (\<lambda>(n, err, ib, s1).
                    let c1 = c\<lparr>c_inboundBuffer := ib\<rparr> in
                    if err \<noteq> None then Inr (n, err, c1, s1)
                    else let ((m, err2), b1, s2) = bb_WriteTo b s1
                         in Inr (m, err2, c1\<lparr>c_buffer := Some (bb_Reset ce b1)\<rparr>, s2)))"

definition conn_Next :: "conn_env \<Rightarrow> conn \<Rightarrow> int \<Rightarrow> (byte list \<times> go_error option \<times> conn) go" where
  "conn_Next ce c n =
     (case c_buffer c of
        None \<Rightarrow> Inr ([], Some ErrClosed, c)
      | Some b \<Rightarrow>
          if \<not> c_rawConn c then Inr ([], Some ErrClosed, c)
          else if n \<le> 0 then Inr ([], None, c)
          else
            let totalLen = int (er_Buffered (c_inboundBuffer c) + bb_Len ce b) in
            if n > totalLen then Inr ([], Some ErrShortBuffer, c)
            else if er_IsEmpty (c_inboundBuffer c)
            then go_bind (go_slice b 0 (nat n))
                   (\<lambda>src. Inr (go_copy (replicate (nat n) 0) src, None, c\<lparr>c_buffer := Some (drop (nat n) b)\<rparr>))
            else go_bind (conn_Read ce c (replicate (nat n) 0)) (\<lambda>(_, err, buf, c'). Inr (buf, err, c')))"

definition conn_Peek :: "conn_env \<Rightarrow> conn \<Rightarrow> int \<Rightarrow> (byte list \<times> go_error option \<times> conn) go" where
  "conn_Peek ce c n0 =
     (case c_buffer c of
        None \<Rightarrow> Inr ([], Some ErrClosed, c)
      | Some b \<Rightarrow>
          if \<not> c_rawConn c then Inr ([], Some ErrClosed, c)
          else
            let inBufferLen = er_Buffered (c_inboundBuffer c);
                totalLen = inBufferLen + bb_Len ce b
            in if n0 > int totalLen then Inr ([], Some ErrShortBuffer, c)
               else
                 let n = (if n0 \<le> 0 then totalLen else nat n0) in
                 if er_IsEmpty (c_inboundBuffer c)
                 then go_bind (go_slice b 0 n) (\<lambda>src. Inr (go_copy (replicate n 0) src, None, c))
                 else go_bind (er_Peek (c_inboundBuffer c) (int n))
                        (\<lambda>(head, tail).
                           if length head = n then Inr (go_copy (replicate n 0) head, None, c)
                           else let buf = head @ tail in
                                if inBufferLen \<ge> n then Inr (buf, None, c)
                                else go_bind (go_slice b 0 (n - inBufferLen))
                                       (\<lambda>rest. Inr (buf @ rest, None, c\<lparr>c_cache := buf @ rest\<rparr>))))"

definition conn_Discard :: "conn_env \<Rightarrow> conn \<Rightarrow> int \<Rightarrow> (int \<times> go_error option \<times> conn) go" where
  "conn_Discard ce c0 n =
     (case c_buffer c0 of
        None \<Rightarrow> Inr (0, Some ErrClosed, c0)
      | Some b \<Rightarrow>
          if \<not> c_rawConn c0 then Inr (0, Some ErrClosed, c0)
          else
            let c = c0\<lparr>c_cache := []\<rparr>;
                inBufferLen = er_Buffered (c_inboundBuffer c);
                totalLen = int (inBufferLen + bb_Len ce b)
            in if n \<ge> totalLen \<or> n \<le> 0 then go_bind (conn_resetBuffer ce c) (\<lambda>c'. Inr (totalLen, None, c'))
               else if er_IsEmpty (c_inboundBuffer c)
               then go_bind (go_slice b (nat n) (length b)) (\<lambda>b'. Inr (n, None, c\<lparr>c_buffer := Some b'\<rparr>))
               else go_bind (er_Discard (ce_ring ce) (c_inboundBuffer c) n)
                      (\<lambda>(discarded, _, ib).
                         let c1 = c\<lparr>c_inboundBuffer := ib\<rparr> in
                         if discarded < inBufferLen then Inr (int discarded, None, c1)
                         else go_bind (go_slice b (nat n - inBufferLen) (length b))
                                (\<lambda>b'. Inr (n, None, c1\<lparr>c_buffer := Some b'\<rparr>))))"

definition conn_InboundBuffered :: "conn_env \<Rightarrow> conn \<Rightarrow> nat" where
  "conn_InboundBuffered ce c =
     (case c_buffer c of None \<Rightarrow> 0 | Some b \<Rightarrow> er_Buffered (c_inboundBuffer c) + bb_Len ce b)"

text \<open>What the event loop does with the bytes that \<open>OnTraffic\<close> left in the packet buffer: they move to the
  elastic buffer.\<close>

definition conn_stash :: "conn_env \<Rightarrow> conn \<Rightarrow> conn go" where
  "conn_stash ce c =
     (case c_buffer c of
        None \<Rightarrow> Inl NilDereference
      | Some b \<Rightarrow> go_bind (er_Write (ce_ring ce) (c_inboundBuffer c) b)
          (\<lambda>(_, _, ib). Inr (c\<lparr>c_inboundBuffer := ib, c_buffer := Some (bb_Reset ce b)\<rparr>)))"

text \<open>\<open>Write\<close> goes straight to the socket, whose \<open>Write\<close> is the argument.\<close>

definition conn_Write :: "'s io_writer \<Rightarrow> conn \<Rightarrow> 's \<Rightarrow> byte list \<Rightarrow> (nat \<times> go_error option) \<times> 's" where
  "conn_Write raw c s p = (if \<not> c_rawConn c then ((0, Some ErrClosed), s) else raw s p)"

definition conn_release :: "conn_env \<Rightarrow> conn \<Rightarrow> conn go" where
  "conn_release ce c =
     go_bind (er_Done (ce_ring ce) (c_inboundBuffer c))
       (\<lambda>ib. Inr (c\<lparr>c_rawConn := False, c_cache := [], c_inboundBuffer := ib, c_buffer := None\<rparr>))"

subsection \<open>The inbound bytes and the invariant\<close>

definition conn_inbound :: "conn \<Rightarrow> byte list" where
  "conn_inbound c = er_contents (c_inboundBuffer c) @ (case c_buffer c of None \<Rightarrow> [] | Some b \<Rightarrow> b)"

definition conn_ok :: "conn \<Rightarrow> bool" where
  "conn_ok c \<longleftrightarrow> c_rawConn c \<and> c_buffer c \<noteq> None \<and> er_ok (c_inboundBuffer c)"

lemma conn_okE:
  assumes "conn_ok c"
  obtains b where "c_buffer c = Some b" "c_rawConn c" "er_ok (c_inboundBuffer c)"
    "conn_inbound c = er_contents (c_inboundBuffer c) @ b"
  using assms by (auto simp: conn_ok_def conn_inbound_def)

subsection \<open>The contract of a Reader\<close>

locale frame_reader =
  fixes inv :: "'c \<Rightarrow> bool" and abs :: "'c \<Rightarrow> byte list"
    and peek :: "'c \<Rightarrow> int \<Rightarrow> (byte list \<times> go_error option \<times> 'c) go"
    and nxt :: "'c \<Rightarrow> int \<Rightarrow> (byte list \<times> go_error option \<times> 'c) go"
    and discard :: "'c \<Rightarrow> int \<Rightarrow> (int \<times> go_error option \<times> 'c) go"
    and buffered :: "'c \<Rightarrow> nat"
  assumes buffered_law: "inv c \<Longrightarrow> buffered c = length (abs c)"
    and peek_law: "inv c \<Longrightarrow> n \<le> int (length (abs c)) \<Longrightarrow>
            \<exists>c'. peek c n = Inr (if n \<le> 0 then abs c else take (nat n) (abs c), None, c')
                 \<and> inv c' \<and> abs c' = abs c"
    and peek_short: "inv c \<Longrightarrow> int (length (abs c)) < n \<Longrightarrow> peek c n = Inr ([], Some ErrShortBuffer, c)"
    and next_law: "inv c \<Longrightarrow> n \<le> int (length (abs c)) \<Longrightarrow>
            \<exists>c'. nxt c n = Inr (take (nat n) (abs c), None, c') \<and> inv c' \<and> abs c' = drop (nat n) (abs c)"
    and next_short: "inv c \<Longrightarrow> int (length (abs c)) < n \<Longrightarrow> nxt c n = Inr ([], Some ErrShortBuffer, c)"
    and discard_law: "inv c \<Longrightarrow> 0 < n \<Longrightarrow> n \<le> int (length (abs c)) \<Longrightarrow>
            \<exists>c'. discard c n = Inr (n, None, c') \<and> inv c' \<and> abs c' = drop (nat n) (abs c)"
begin

text \<open>Looking at the bytes first and then taking them gives the same bytes.\<close>

lemma peek_then_next:
  assumes "inv c" and "0 < n" and "n \<le> int (length (abs c))"
  shows "\<exists>bs c1 c2. peek c n = Inr (bs, None, c1) \<and> nxt c1 n = Inr (bs, None, c2) \<and> length bs = nat n
           \<and> inv c2 \<and> bs @ abs c2 = abs c"
proof -
  from peek_law [OF assms(1,3)] assms(2) obtain c1 where
    c1: "peek c n = Inr (take (nat n) (abs c), None, c1)" "inv c1" "abs c1 = abs c" by auto
  with next_law [OF c1(2)] assms show ?thesis by fastforce
qed

end

locale conn_environment =
  fixes ce :: conn_env
  assumes ring: "ring_environment (ce_ring ce)"
    and bb_Get: "bb_Get ce = []" and bb_Write: "\<And>b p. bb_Write ce b p = b @ p"
    and bb_Len: "\<And>b. bb_Len ce b = length b" and bb_Reset: "\<And>b. bb_Reset ce b = []"

sublocale conn_environment \<subseteq> ring_environment "ce_ring ce"
  by (rule ring)

context conn_environment
begin

lemmas bb = bb_Get bb_Write bb_Len bb_Reset

lemma er_IsEmpty_iff: "er_ok ib \<Longrightarrow> er_IsEmpty ib \<longleftrightarrow> er_contents ib = []"
  by (rule elastic.is_empty_law)

lemma conn_Read_ok:
  fixes p :: "byte list"
  assumes "conn_ok c"
  defines "k \<equiv> min (length p) (length (conn_inbound c))"
  shows "\<exists>e c'. conn_Read ce c p = Inr (k, e, go_copy p (take (length p) (conn_inbound c)), c')
           \<and> conn_ok c' \<and> conn_inbound c' = drop (length p) (conn_inbound c)
           \<and> (p \<noteq> [] \<longrightarrow> conn_inbound c \<noteq> [] \<longrightarrow> e = None)"
proof -
  from conn_okE [OF assms(1)] obtain b where b: "c_buffer c = Some b" "c_rawConn c" "er_ok (c_inboundBuffer c)"
    "conn_inbound c = er_contents (c_inboundBuffer c) @ b" by blast
  show ?thesis
  proof (cases "er_contents (c_inboundBuffer c) = []")
    case True
    then show ?thesis using b er_IsEmpty_iff [OF b(3)]
      by (auto simp: conn_Read_def k_def conn_ok_def conn_inbound_def Let_def min_def split: if_splits)
  next
    case False
    define h where "h = er_contents (c_inboundBuffer c)"
    from elastic.read_law [OF b(3), of p] obtain e ib where
      r: "er_Read (ce_ring ce) (c_inboundBuffer c) p = Inr (min (length p) (length h), e, go_copy p (take (length p) h), ib)"
        "er_ok ib" "er_contents ib = drop (length p) h" by (auto simp: h_def)
    have len: "length (go_copy p (take (length p) h)) = length p" by (simp add: go_copy_def)
    show ?thesis
    proof (cases "length p \<le> length h")
      case True
      then show ?thesis using b False r er_IsEmpty_iff [OF b(3)] len
        by (auto simp: conn_Read_def k_def conn_ok_def conn_inbound_def go_copy_def h_def)
    next
      case short: False
      then have e: "\<not> er_IsEmpty (c_inboundBuffer c)" "min (length p) (length h) = length h" "length h \<noteq> length p"
        using False er_IsEmpty_iff [OF b(3)] by auto
      have p1: "go_copy p (take (length p) h) = h @ drop (length h) p" using short by (simp add: go_copy_def)
      have run: "conn_Read ce c p = Inr (length h + min (length p - length h) (length b), None,
          h @ go_copy (drop (length h) p) b,
          c\<lparr>c_inboundBuffer := ib, c_buffer := Some (drop (min (length p - length h) (length b)) b)\<rparr>)"
        using b(1,2) e r(1) short unfolding p1
        by (simp add: conn_Read_def go_slice_def Let_def)
      have "h @ go_copy (drop (length h) p) b = go_copy p (take (length p) (h @ b))"
        using short by (cases "length b \<le> length p - length h") (simp_all add: go_copy_def add.commute)
      moreover have "er_contents ib = []" using r(3) short by simp
      ultimately show ?thesis
        unfolding k_def using run b r(2) short by (simp add: conn_ok_def conn_inbound_def h_def)
    qed
  qed
qed

lemma conn_InboundBuffered_ok: "conn_ok c \<Longrightarrow> conn_InboundBuffered ce c = length (conn_inbound c)"
  by (auto simp: conn_InboundBuffered_def bb elastic.buffered_law elim!: conn_okE)

lemma conn_Next_ok:
  assumes "conn_ok c" and n: "n \<le> int (length (conn_inbound c))"
  shows "\<exists>c'. conn_Next ce c n = Inr (take (nat n) (conn_inbound c), None, c')
           \<and> conn_ok c' \<and> conn_inbound c' = drop (nat n) (conn_inbound c)"
proof -
  from conn_okE [OF assms(1)] obtain b where b: "c_buffer c = Some b" "c_rawConn c" "er_ok (c_inboundBuffer c)"
    "conn_inbound c = er_contents (c_inboundBuffer c) @ b" by blast
  have buf: "er_Buffered (c_inboundBuffer c) = length (er_contents (c_inboundBuffer c))"
    by (rule elastic.buffered_law [OF b(3)])
  consider (none) "n \<le> 0" | (one) "0 < n" "er_contents (c_inboundBuffer c) = []"
    | (two) "0 < n" "er_contents (c_inboundBuffer c) \<noteq> []" by linarith
  then show ?thesis
  proof cases
    case none
    then show ?thesis using assms b by (simp add: conn_Next_def)
  next
    case one
    then have "go_slice b 0 (nat n) = Inr (take (nat n) b)" using n b(4) by (simp add: go_slice_def)
    moreover have "go_copy (replicate (nat n) 0) (take (nat n) b) = take (nat n) b"
      using n b(4) one by (simp add: go_copy_def)
    ultimately show ?thesis using one n b buf er_IsEmpty_iff [OF b(3)]
      by (auto simp: conn_Next_def bb Let_def conn_ok_def conn_inbound_def)
  next
    case two
    let ?p = "replicate (nat n) (0 :: byte)"
    have "conn_inbound c \<noteq> []" "?p \<noteq> []" using two b(4) by auto
    with conn_Read_ok [OF assms(1), of ?p] n obtain c' where
      "conn_Read ce c ?p = Inr (nat n, None, go_copy ?p (take (nat n) (conn_inbound c)), c')"
      "conn_ok c'" "conn_inbound c' = drop (nat n) (conn_inbound c)" by (auto simp: nat_le_iff)
    moreover have "go_copy ?p (take (nat n) (conn_inbound c)) = take (nat n) (conn_inbound c)"
      using n by (simp add: go_copy_def nat_le_iff)
    ultimately show ?thesis using two n b buf er_IsEmpty_iff [OF b(3)]
      by (simp add: conn_Next_def bb Let_def)
  qed
qed

lemma conn_short:
  assumes "conn_ok c" and "int (length (conn_inbound c)) < n"
  shows "conn_Next ce c n = Inr ([], Some ErrShortBuffer, c)" and "conn_Peek ce c n = Inr ([], Some ErrShortBuffer, c)"
  using assms by (auto simp: conn_Next_def conn_Peek_def Let_def bb elastic.buffered_law elim!: conn_okE)

lemma conn_Peek_ok:
  assumes "conn_ok c" and n: "n \<le> int (length (conn_inbound c))"
  shows "\<exists>c'. conn_Peek ce c n = Inr (if n \<le> 0 then conn_inbound c else take (nat n) (conn_inbound c), None, c')
           \<and> conn_ok c' \<and> conn_inbound c' = conn_inbound c"
proof -
  from conn_okE [OF assms(1)] obtain b where b: "c_buffer c = Some b" "c_rawConn c" "er_ok (c_inboundBuffer c)"
    "conn_inbound c = er_contents (c_inboundBuffer c) @ b" by blast
  define h where "h = er_contents (c_inboundBuffer c)"
  have buf: "er_Buffered (c_inboundBuffer c) = length h" unfolding h_def by (rule elastic.buffered_law [OF b(3)])
  have tot: "conn_inbound c = h @ b" by (simp add: b(4) h_def)
  define m where "m = (if n \<le> 0 then length h + length b else nat n)"
  have m: "m \<le> length h + length b" and goal: "(if n \<le> 0 then conn_inbound c else take (nat n) (conn_inbound c)) = take m (h @ b)"
    using n by (auto simp: m_def tot)
  have guard: "\<not> n > int (length h + length b)" using n tot by simp
  show ?thesis
  proof (cases "h = []")
    case True
    have "go_slice b 0 m = Inr (take m b)" using m True by (simp add: go_slice_def)
    then have "conn_Peek ce c n = Inr (go_copy (replicate m 0) (take m b), None, c)"
      using True b(1,2) guard buf er_IsEmpty_iff [OF b(3)]
      by (cases "n \<le> 0") (simp_all add: conn_Peek_def Let_def bb h_def m_def)
    moreover have "go_copy (replicate m 0) (take m b) = take m b" using m True by (simp add: go_copy_def)
    ultimately show ?thesis unfolding goal using True assms(1) by simp
  next
    case False
    then have pos: "0 < m" "\<not> int m \<le> 0" using n by (auto simp: m_def)
    from elastic.peek_law [OF b(3), of "int m"] pos obtain hd tl where
      pk: "er_Peek (c_inboundBuffer c) (int m) = Inr (hd, tl)" "hd @ tl = take m h" by (auto simp: h_def)
    have e: "\<not> er_IsEmpty (c_inboundBuffer c)" using False er_IsEmpty_iff [OF b(3)] by (simp add: h_def)
    have run: "conn_Peek ce c n = (if length hd = m then Inr (go_copy (replicate m 0) hd, None, c)
        else if length h \<ge> m then Inr (hd @ tl, None, c)
        else go_bind (go_slice b 0 (m - length h)) (\<lambda>rest. Inr (hd @ tl @ rest, None, c\<lparr>c_cache := hd @ tl @ rest\<rparr>)))"
      using b(1,2) guard e buf pk(1) by (simp add: conn_Peek_def Let_def bb m_def)
    consider (head) "length hd = m" | (ring) "length hd \<noteq> m" "m \<le> length h" | (both) "length hd \<noteq> m" "length h < m"
      by linarith
    then show ?thesis
    proof cases
      case head
      have len: "length hd + length tl = min (length h) m" using arg_cong [OF pk(2), of length] by simp
      then have "length tl = 0" "m \<le> length h" using head by (auto simp only: min_def split: if_splits)
      then have "hd = take m (h @ b)" using pk(2) by auto
      then show ?thesis unfolding goal using run head assms(1) by (simp add: go_copy_def)
    next
      case ring
      then show ?thesis unfolding goal using run assms(1) pk(2) by simp
    next
      case both
      then have "hd @ tl = h" using pk(2) by simp
      moreover have "go_slice b 0 (m - length h) = Inr (take (m - length h) b)" using m by (simp add: go_slice_def)
      ultimately show ?thesis unfolding goal using run both assms(1)
        by (auto simp: conn_ok_def conn_inbound_def simp flip: append_assoc)
    qed
  qed
qed

lemma conn_Discard_ok:
  assumes "conn_ok c"
  shows "if 0 < n \<and> n \<le> int (length (conn_inbound c))
         then \<exists>c'. conn_Discard ce c n = Inr (n, None, c') \<and> conn_ok c' \<and> conn_inbound c' = drop (nat n) (conn_inbound c)
         else \<exists>c'. conn_Discard ce c n = Inr (int (length (conn_inbound c)), None, c') \<and> conn_ok c' \<and> conn_inbound c' = []"
proof -
  from conn_okE [OF assms] obtain b where b: "c_buffer c = Some b" "c_rawConn c" "er_ok (c_inboundBuffer c)"
    "conn_inbound c = er_contents (c_inboundBuffer c) @ b" by blast
  define h where "h = er_contents (c_inboundBuffer c)"
  have buf: "er_Buffered (c_inboundBuffer c) = length h" unfolding h_def by (rule elastic.buffered_law [OF b(3)])
  have tot: "conn_inbound c = h @ b" by (simp add: b(4) h_def)
  have reset: "er_ok (er_Reset (c_inboundBuffer c))" "er_contents (er_Reset (c_inboundBuffer c)) = []"
    using elastic.reset_law [OF b(3)] by auto
  consider (all) "n \<le> 0 \<or> int (length h + length b) \<le> n"
    | (buffer) "0 < n" "n < int (length h + length b)" "h = []"
    | (ring) "0 < n" "n < int (length h + length b)" "h \<noteq> []" by linarith
  then show ?thesis
  proof cases
    case all
    have "conn_Discard ce c n = Inr (int (length h + length b), None,
        c\<lparr>c_cache := [], c_buffer := Some [], c_inboundBuffer := er_Reset (c_inboundBuffer c)\<rparr>)"
      using all b(1,2) buf by (auto simp: conn_Discard_def conn_resetBuffer_def Let_def bb)
    then show ?thesis using reset all tot b by (auto simp: conn_ok_def conn_inbound_def)
  next
    case buffer
    then show ?thesis using b buf er_IsEmpty_iff [OF b(3)] tot
      by (auto simp: conn_Discard_def Let_def bb conn_ok_def conn_inbound_def go_slice_def h_def)
  next
    case ring
    from elastic.discard_law [OF b(3), of n] obtain e ib where
      d: "er_Discard (ce_ring ce) (c_inboundBuffer c) n = Inr (min (nat n) (length h), e, ib)"
        "er_ok ib" "er_contents ib = drop (nat n) h" by (auto simp: h_def)
    have e: "\<not> er_IsEmpty (c_inboundBuffer c)" using ring er_IsEmpty_iff [OF b(3)] by (simp add: h_def)
    show ?thesis
    proof (cases "nat n < length h")
      case True
      then show ?thesis using ring b(1,2) buf d e tot
        by (auto simp: conn_Discard_def Let_def bb conn_ok_def conn_inbound_def)
    next
      case False
      then have "go_slice b (nat n - length h) (length b) = Inr (drop (nat n - length h) b)"
        using ring by (simp add: go_slice_def nat_less_iff)
      then show ?thesis using False ring b(1,2) buf d e tot
        by (auto simp: conn_Discard_def Let_def bb conn_ok_def conn_inbound_def)
    qed
  qed
qed

end

sublocale conn_environment \<subseteq> reader: frame_reader conn_ok conn_inbound "conn_Peek ce" "conn_Next ce" "conn_Discard ce"
    "conn_InboundBuffered ce"
proof unfold_locales
  fix c n
  assume ok: "conn_ok c"
  show "conn_InboundBuffered ce c = length (conn_inbound c)" by (rule conn_InboundBuffered_ok [OF ok])
  show "n \<le> int (length (conn_inbound c)) \<Longrightarrow>
          \<exists>c'. conn_Peek ce c n = Inr (if n \<le> 0 then conn_inbound c else take (nat n) (conn_inbound c), None, c')
             \<and> conn_ok c' \<and> conn_inbound c' = conn_inbound c"
    by (rule conn_Peek_ok [OF ok])
  show "n \<le> int (length (conn_inbound c)) \<Longrightarrow>
          \<exists>c'. conn_Next ce c n = Inr (take (nat n) (conn_inbound c), None, c')
             \<and> conn_ok c' \<and> conn_inbound c' = drop (nat n) (conn_inbound c)"
    by (rule conn_Next_ok [OF ok])
  show "0 < n \<Longrightarrow> n \<le> int (length (conn_inbound c)) \<Longrightarrow>
          \<exists>c'. conn_Discard ce c n = Inr (n, None, c') \<and> conn_ok c' \<and> conn_inbound c' = drop (nat n) (conn_inbound c)"
    using conn_Discard_ok [OF ok, of n] by simp
qed (simp_all add: conn_short)

context conn_environment
begin

lemma conn_release_ok:
  assumes "er_ok (c_inboundBuffer c)"
  shows "\<exists>c'. conn_release ce c = Inr c' \<and> \<not> c_rawConn c' \<and> c_buffer c' = None \<and> c_cache c' = []
           \<and> er_rb (c_inboundBuffer c') = None \<and> rp_inv (er_rbPool (c_inboundBuffer c'))"
proof (cases "er_rb (c_inboundBuffer c)")
  case None
  with assms show ?thesis by (simp add: conn_release_def er_Done_def er_ok_def)
next
  case (Some rb)
  with assms have "rp_inv (er_rbPool (c_inboundBuffer c))" "rb_ok rb" by (simp_all add: er_ok_def)
  from rp_Put_ok [OF en_sort this] Some show ?thesis by (auto simp: conn_release_def er_Done_def)
qed

lemma conn_released_ops:
  assumes "c_buffer c = None"
  shows "conn_Read ce c p = Inr (0, Some ErrClosed, p, c)" "conn_Next ce c n = Inr ([], Some ErrClosed, c)"
    "conn_Peek ce c n = Inr ([], Some ErrClosed, c)" "conn_Discard ce c n = Inr (0, Some ErrClosed, c)"
    "conn_InboundBuffered ce c = 0"
  using assms by (simp_all add: conn_Read_def conn_Next_def conn_Peek_def conn_Discard_def conn_InboundBuffered_def)

lemma conn_stash_ok:
  assumes "conn_ok c" and "length (conn_inbound c) \<le> 2 ^ 59"
  shows "\<exists>c'. conn_stash ce c = Inr c' \<and> conn_ok c' \<and> conn_inbound c' = conn_inbound c \<and> c_buffer c' = Some []"
proof -
  from conn_okE [OF assms(1)] obtain b where b: "c_buffer c = Some b" "c_rawConn c" "er_ok (c_inboundBuffer c)"
    "conn_inbound c = er_contents (c_inboundBuffer c) @ b" by blast
  then have "length (er_contents (c_inboundBuffer c)) + length b \<le> rb_limit" using assms(2) by (simp add: rb_limit_def)
  from er_Write_fifo [OF b(3) this] b show ?thesis
    by (auto simp: conn_stash_def bb conn_ok_def conn_inbound_def)
qed

lemma conn_receive_ok:
  assumes "conn_ok c"
  shows "\<exists>c' tc'. unpackTCPConn ce c (packTCPConn ce (Some p)) = Inr (Some c', tc') \<and> conn_ok c'
           \<and> conn_inbound c' = conn_inbound c @ p"
  using assms by (auto simp: unpackTCPConn_def packTCPConn_def bb conn_ok_def conn_inbound_def)

end

definition example_conn_env :: conn_env where
  "example_conn_env = \<lparr>ce_ring = example_env, bb_Get = [], bb_Write = (@), bb_Len = length, bb_Reset = (\<lambda>_. [])\<rparr>"

interpretation cenv: conn_environment example_conn_env
  by unfold_locales
    (simp_all add: example_conn_env_def env.ring_environment_axioms [unfolded ring_environment_def] env.en_get)

subsection \<open>Properties\<close>

text \<open>C13: the operations of an open connection work on one stream of inbound bytes, wherever the border
  between the elastic buffer and the current packet lies: a packet that arrives is appended; \<open>Read\<close> and
  \<open>Next\<close> take from the front, \<open>Next\<close> all \<open>n\<close> bytes or, with \<open>ErrShortBuffer\<close>, nothing; \<open>Peek\<close> returns what
  \<open>Next\<close> would and changes nothing; \<open>InboundBuffered\<close> is the length of the stream. None of them panics.\<close>

theorem conn_reads_inbound_stream:
  assumes "conn_environment ce" and "conn_ok c"
  shows "(\<exists>c' tc'. unpackTCPConn ce c (packTCPConn ce (Some p)) = Inr (Some c', tc') \<and> conn_ok c'
            \<and> conn_inbound c' = conn_inbound c @ p)
     \<and> (\<exists>e c'. conn_Read ce c q = Inr (min (length q) (length (conn_inbound c)), e,
                   go_copy q (take (length q) (conn_inbound c)), c')
            \<and> conn_ok c' \<and> conn_inbound c' = drop (length q) (conn_inbound c))
     \<and> (if int (length (conn_inbound c)) < n
        then conn_Next ce c n = Inr ([], Some ErrShortBuffer, c) \<and> conn_Peek ce c n = Inr ([], Some ErrShortBuffer, c)
        else (\<exists>c'. conn_Next ce c n = Inr (take (nat n) (conn_inbound c), None, c') \<and> conn_ok c'
                 \<and> conn_inbound c' = drop (nat n) (conn_inbound c))
           \<and> (\<exists>c'. conn_Peek ce c n = Inr (if n \<le> 0 then conn_inbound c else take (nat n) (conn_inbound c), None, c')
                 \<and> conn_ok c' \<and> conn_inbound c' = conn_inbound c))
     \<and> conn_InboundBuffered ce c = length (conn_inbound c)"
  using conn_environment.conn_receive_ok [OF assms, of p] conn_environment.conn_Read_ok [OF assms, of q]
    conn_environment.conn_short [OF assms, of n] conn_environment.conn_Next_ok [OF assms, of n]
    conn_environment.conn_Peek_ok [OF assms, of n] conn_environment.conn_InboundBuffered_ok [OF assms]
  by (intro conjI) (auto split: if_splits)

definition example_conn :: conn where
  "example_conn = \<lparr>c_rawConn = True, c_buffer = Some [6, 7], c_cache = [],
     c_inboundBuffer = er_new\<lparr>er_rb := Some \<lparr>rb_buf = [5, 2, 3, 4], rb_size = 4, rb_r = 2, rb_w = 1, rb_isEmpty = False\<rparr>\<rparr>\<rparr>"

lemma example_conn_ok: "conn_ok example_conn"
  by (simp add: conn_ok_def example_conn_def er_ok_def er_new_def rp_inv_builtin rb_ok_def rb_inv_def)

lemma example_conn_inbound: "conn_inbound example_conn = [3, 4, 5, 6, 7]"
  by (simp add: conn_inbound_def example_conn_def er_contents_def contents_def eval_nat_numeral)

theorem conn_reads_inbound_stream_witness:
  "conn_ok example_conn \<and> (\<exists>c'. conn_Next example_conn_env example_conn 4 = Inr ([3, 4, 5, 6], None, c') \<and> conn_inbound c' = [7])
     \<and> conn_Next example_conn_env example_conn 6 = Inr ([], Some ErrShortBuffer, example_conn)"
  using conn_reads_inbound_stream [OF cenv.conn_environment_axioms example_conn_ok, of "[]" "[]" 4]
    conn_reads_inbound_stream [OF cenv.conn_environment_axioms example_conn_ok, of "[]" "[]" 6]
  by (auto simp: example_conn_inbound example_conn_ok)

text \<open>\<open>Discard\<close> of a positive number of bytes that are there drops exactly those, across the two
  buffers, and reports their number; any other argument, zero and negative ones included, throws the
  whole inbound stream away.\<close>

theorem conn_Discard_drops:
  assumes "conn_environment ce" and "conn_ok c"
  shows "if 0 < n \<and> n \<le> int (length (conn_inbound c))
         then \<exists>c'. conn_Discard ce c n = Inr (n, None, c') \<and> conn_ok c' \<and> conn_inbound c' = drop (nat n) (conn_inbound c)
         else \<exists>c'. conn_Discard ce c n = Inr (int (length (conn_inbound c)), None, c') \<and> conn_ok c' \<and> conn_inbound c' = []"
  by (rule conn_environment.conn_Discard_ok [OF assms])

theorem conn_Discard_drops_witness:
  "(\<exists>c'. conn_Discard example_conn_env example_conn 4 = Inr (4, None, c') \<and> conn_inbound c' = [7])
     \<and> (\<exists>c'. conn_Discard example_conn_env example_conn 0 = Inr (5, None, c') \<and> conn_inbound c' = [])"
  using conn_Discard_drops [OF cenv.conn_environment_axioms example_conn_ok, of 4]
    conn_Discard_drops [OF cenv.conn_environment_axioms example_conn_ok, of 0]
  by (auto simp: example_conn_inbound)

text \<open>A released connection never panics: every reader operation answers \<open>ErrClosed\<close> and changes
  nothing, and the release has given its ring buffer back to the pool.\<close>

theorem conn_release_then_ErrClosed:
  assumes "conn_environment ce" and "er_ok (c_inboundBuffer c)"
  shows "\<exists>c'. conn_release ce c = Inr c' \<and> er_rb (c_inboundBuffer c') = None
     \<and> rp_inv (er_rbPool (c_inboundBuffer c'))
     \<and> conn_Read ce c' p = Inr (0, Some ErrClosed, p, c') \<and> conn_Next ce c' n = Inr ([], Some ErrClosed, c')
     \<and> conn_Peek ce c' n = Inr ([], Some ErrClosed, c') \<and> conn_Discard ce c' n = Inr (0, Some ErrClosed, c')
     \<and> conn_InboundBuffered ce c' = 0 \<and> conn_Write raw c' s p = ((0, Some ErrClosed), s)"
proof -
  from conn_environment.conn_release_ok [OF assms] obtain c' where
    c': "conn_release ce c = Inr c'" "\<not> c_rawConn c'" "c_buffer c' = None"
      "er_rb (c_inboundBuffer c') = None" "rp_inv (er_rbPool (c_inboundBuffer c'))" by blast
  then show ?thesis
    using conn_environment.conn_released_ops [OF assms(1) c'(3)] by (auto simp: conn_Write_def)
qed

theorem conn_release_then_ErrClosed_witness:
  "\<exists>c'. conn_release example_conn_env example_conn = Inr c'
     \<and> conn_Next example_conn_env c' 2 = Inr ([], Some ErrClosed, c')"
  using conn_release_then_ErrClosed [OF cenv.conn_environment_axioms, of example_conn "[]" 2 "\<lambda>s p. ((0, None), s)" "()"]
    example_conn_ok by (auto simp: conn_ok_def)

end
