(* ===== verification/LengthCodec.thy ===== *)
theory LengthCodec
  imports Connection
begin

text \<open>
  The length-field codecs of \<^verbatim>\<open>contribute/agonet/simple\<close>: the binary one (files
  \<^verbatim>\<open>codec_length_field_decoder.go\<close> and \<^verbatim>\<open>codec_length_field_encoder.go\<close>) and the one with a decimal
  length (files \<^verbatim>\<open>codec_length_field_str_decoder.go\<close> and \<^verbatim>\<open>codec_length_field_str_encoder.go\<close>). The
  decoders work on a \<open>Reader\<close>, whose operations they get as a record; the lemmas hold for every reader
  that satisfies \<open>frame_reader\<close>, and the properties are about connections.
\<close>

subsection \<open>Byte order\<close>

datatype byte_order = BigEndian | LittleEndian

fun be_nat :: "byte list \<Rightarrow> nat" where
  "be_nat [] = 0"
| "be_nat (b # bs) = unat b * 256 ^ length bs + be_nat bs"

fun be_bytes :: "nat \<Rightarrow> nat \<Rightarrow> byte list" where
  "be_bytes 0 v = []"
| "be_bytes (Suc k) v = of_nat (v div 256 ^ k) # be_bytes k v"

text \<open>\<open>Uint16\<close>, \<open>Uint32\<close>, \<open>Uint64\<close> and their \<open>Put\<close> counterparts, for the width \<open>k\<close> in bytes.\<close>

definition order_Uint :: "byte_order \<Rightarrow> nat \<Rightarrow> byte list \<Rightarrow> nat go" where
  "order_Uint ord k buff =
     (if length buff < k then Inl IndexOutOfRange
      else Inr (case ord of BigEndian \<Rightarrow> be_nat (take k buff) | LittleEndian \<Rightarrow> be_nat (rev (take k buff))))"

definition order_PutUint :: "byte_order \<Rightarrow> nat \<Rightarrow> nat \<Rightarrow> byte list" where
  "order_PutUint ord k v = (case ord of BigEndian \<Rightarrow> be_bytes k v | LittleEndian \<Rightarrow> rev (be_bytes k v))"

definition unpackFieldLength :: "byte_order \<Rightarrow> int \<Rightarrow> byte list \<Rightarrow> int go" where
  "unpackFieldLength ord fieldLen buff =
     (if fieldLen = 1 then go_bind (go_index buff 0) (\<lambda>b. Inr (int (unat b)))
      else if fieldLen = 2 then go_bind (order_Uint ord 2 buff) (\<lambda>v. Inr (int v))
      else if fieldLen = 4 then go_bind (order_Uint ord 4 buff) (\<lambda>v. Inr (int v))
      else if fieldLen = 8 then go_bind (order_Uint ord 8 buff) (\<lambda>v. Inr (go_int (int v)))
      else Inl (Panicked ''should not reach here, invalid fieldLen''))"


subsection \<open>Decimal lengths\<close>

definition ascii :: "string \<Rightarrow> byte list" where
  "ascii s = map of_char s"

fun decimal :: "nat \<Rightarrow> byte list" where
  "decimal n = (if n < 10 then [48 + of_nat n] else decimal (n div 10) @ [48 + of_nat (n mod 10)])"

declare decimal.simps [simp del]

definition strconv_FormatInt :: "int \<Rightarrow> byte list" where
  "strconv_FormatInt n = (if n < 0 then 45 # decimal (nat (- n)) else decimal (nat n))"

definition is_digit :: "byte \<Rightarrow> bool" where
  "is_digit b \<longleftrightarrow> 48 \<le> b \<and> b \<le> 57"

definition digits_value :: "byte list \<Rightarrow> nat" where
  "digits_value ds = foldl (\<lambda>a d. a * 10 + (unat d - 48)) 0 ds"

text \<open>\<open>strconv.ParseInt(s, 10, 64)\<close>; \<open>None\<close> is its error (a syntax or a range error).\<close>

definition strconv_ParseInt :: "byte list \<Rightarrow> int option" where
  "strconv_ParseInt s =
     (let (neg, ds) = (case s of [] \<Rightarrow> (False, []) | b # bs \<Rightarrow> if b = 43 then (False, bs) else if b = 45 then (True, bs) else (False, s))
      in if ds = [] \<or> \<not> list_all is_digit ds then None
         else let v = int (digits_value ds)
              in if neg then (if v \<le> 2 ^ 63 then Some (- v) else None) else (if v < 2 ^ 63 then Some v else None))"

text \<open>The encodings of the Unicode white space that \<open>strings.TrimSpace\<close> removes.\<close>

definition space_runes :: "byte list list" where
  "space_runes = [[9], [10], [11], [12], [13], [32], [0xC2, 0x85], [0xC2, 0xA0], [0xE1, 0x9A, 0x80]]
     @ map (\<lambda>b. [0xE2, 0x80, b]) [0x80, 0x81, 0x82, 0x83, 0x84, 0x85, 0x86, 0x87, 0x88, 0x89, 0x8A, 0xA8, 0xA9, 0xAF]
     @ [[0xE2, 0x81, 0x9F], [0xE3, 0x80, 0x80]]"

definition starts_with :: "byte list \<Rightarrow> byte list \<Rightarrow> bool" where
  "starts_with p s \<longleftrightarrow> take (length p) s = p"

fun trim_left :: "nat \<Rightarrow> byte list list \<Rightarrow> byte list \<Rightarrow> byte list" where
  "trim_left 0 rs s = s"
| "trim_left (Suc k) rs s =
     (case find (\<lambda>p. starts_with p s) rs of None \<Rightarrow> s | Some p \<Rightarrow> trim_left k rs (drop (length p) s))"

definition strings_TrimSpace :: "byte list \<Rightarrow> byte list" where
  "strings_TrimSpace s =
     (let l = trim_left (length s) space_runes s
      in rev (trim_left (length l) (map rev space_runes) (rev l)))"

definition unpackFieldLengthStr :: "int \<Rightarrow> byte list \<Rightarrow> int go" where
  "unpackFieldLengthStr fieldLen buff =
     (if int (length buff) < fieldLen then Inl (Panicked ''buffer too small'')
      else if fieldLen < 0 then Inl SliceBounds
      else case strconv_ParseInt (strings_TrimSpace (take (nat fieldLen) buff)) of
             None \<Rightarrow> Inl (Panicked ''parse length string failed'')
           | Some num \<Rightarrow> Inr num)"

text \<open>\<open>fmt.Sprintf("%0*d", width, n)\<close>: zeros go between the sign and the digits, and a width above a
  million is refused.\<close>

definition Sprintf_0d :: "int \<Rightarrow> int \<Rightarrow> byte list" where
  "Sprintf_0d width n =
     (if width > 10 ^ 6 then ascii ''%!(BADWIDTH)'' @ strconv_FormatInt n
      else let ds = decimal (nat \<bar>n\<bar>); sign = (if n < 0 then [45] else [])
           in sign @ replicate (nat width - length sign - length ds) 48 @ ds)"

definition packFieldLengthStr :: "int \<Rightarrow> int \<Rightarrow> byte list go" where
  "packFieldLengthStr fieldLen dataLen =
     (if int (length (strconv_FormatInt dataLen)) > fieldLen then Inl (Panicked ''length string too long'')
      else Inr (Sprintf_0d fieldLen dataLen))"

subsection \<open>Decoders\<close>

record lengthFieldDecoder =
  ld_byteOrder :: byte_order
  ld_maxFrameLength :: int
  ld_lengthFieldOffset :: int
  ld_lengthFieldLength :: int
  ld_lengthAdjustment :: int
  ld_initialBytesToStrip :: int

definition NewLengthFieldDecoder :: "byte_order option \<Rightarrow> int \<Rightarrow> int \<Rightarrow> int \<Rightarrow> int \<Rightarrow> int \<Rightarrow> lengthFieldDecoder go" where
  "NewLengthFieldDecoder byteOrder mx off len adj strip =
     (if mx \<le> 0 then Inl (Panicked ''maxFrameLength must be a positive integer'')
      else if off < 0 then Inl (Panicked ''lengthFieldOffset must be a non-negative integer'')
      else if strip < 0 then Inl (Panicked ''initialBytesToStrip must be a non-negative integer'')
      else if len \<noteq> 1 \<and> len \<noteq> 2 \<and> len \<noteq> 4 \<and> len \<noteq> 8 then Inl (Panicked ''lengthFieldLength must be either 1, 2, 4 or 8'')
      else if off > go_int (mx - len) then Inl (Panicked ''maxFrameLength must be equal to or greater than lengthFieldOffset + lengthFieldLength'')
      else Inr \<lparr>ld_byteOrder = (case byteOrder of None \<Rightarrow> BigEndian | Some b \<Rightarrow> b), ld_maxFrameLength = mx,
                ld_lengthFieldOffset = off, ld_lengthFieldLength = len, ld_lengthAdjustment = adj,
                ld_initialBytesToStrip = strip\<rparr>)"

text \<open>The \<open>agonet.Reader\<close> a decoder is given.\<close>

record 'c reader_ops =
  rd_Peek :: "'c \<Rightarrow> int \<Rightarrow> (byte list \<times> go_error option \<times> 'c) go"
  rd_Next :: "'c \<Rightarrow> int \<Rightarrow> (byte list \<times> go_error option \<times> 'c) go"
  rd_Discard :: "'c \<Rightarrow> int \<Rightarrow> (int \<times> go_error option \<times> 'c) go"
  rd_InboundBuffered :: "'c \<Rightarrow> nat"

definition go_slice_int :: "'a list \<Rightarrow> int \<Rightarrow> int \<Rightarrow> 'a list go" where
  "go_slice_int xs lo hi = (if 0 \<le> lo \<and> 0 \<le> hi then go_slice xs (nat lo) (nat hi) else Inl SliceBounds)"

text \<open>\<open>doDecode\<close> of both decoders, which differ only in how they read the length field.\<close>

definition doDecode_with ::
  "(int \<Rightarrow> byte list \<Rightarrow> int go) \<Rightarrow> lengthFieldDecoder \<Rightarrow> 'c reader_ops \<Rightarrow> 'c \<Rightarrow> (byte list list \<times> go_error option \<times> 'c) go" where
  "doDecode_with unpack l rd c =
     (let endOffset = go_int (ld_lengthFieldOffset l + ld_lengthFieldLength l) in
      go_bind (rd_Peek rd c endOffset)
        (\<lambda>(buff0, err, c1).
           if err = Some ErrShortBuffer then Inr ([], None, c1)
           else if err \<noteq> None then Inr ([], err, c1)
           else go_bind (go_slice_int buff0 (ld_lengthFieldOffset l) endOffset)
             (\<lambda>buff. go_bind (unpack (ld_lengthFieldLength l) buff)
                (\<lambda>frameLength0.
                   if frameLength0 < 0 then Inr ([], Some (OtherError ''invalid frame length''), c1)
                   else
                     let frameLength = go_int (frameLength0 + go_int (ld_lengthAdjustment l + endOffset)) in
                     if frameLength < endOffset
                     then Inr ([], Some (OtherError ''Adjusted frame length is less than lengthFieldEndOffset''), c1)
                     else if frameLength > ld_maxFrameLength l
                     then Inr ([], Some (OtherError ''exceeded frame length''), c1)
                     else if int (rd_InboundBuffered rd c1) < frameLength then Inr ([], None, c1)
                     else go_bind
                       (if ld_initialBytesToStrip l > 0
                        then if ld_initialBytesToStrip l > frameLength
                             then Inr (Some (OtherError ''Adjustd frame length is less than initialBytesToStrip''), frameLength, c1)
                             else go_bind (rd_Discard rd c1 (ld_initialBytesToStrip l))
                                    (\<lambda>(_, err, c2). Inr (err, frameLength - ld_initialBytesToStrip l, c2))
                        else Inr (None, frameLength, c1))
                       (\<lambda>(err, msgLength, c2).
                          if err \<noteq> None then Inr ([], err, c2)
                          else go_bind (rd_Next rd c2 msgLength)
                            (\<lambda>(frameMsg, err, c3).
                               if err = Some ErrShortBuffer then Inr ([], None, c3)
                               else if err \<noteq> None then Inr ([], Some (OtherError ''read frame message failed''), c3)
                               else Inr ([frameMsg], None, c3)))))))"

definition lfd_doDecode :: "lengthFieldDecoder \<Rightarrow> 'c reader_ops \<Rightarrow> 'c \<Rightarrow> (byte list list \<times> go_error option \<times> 'c) go" where
  "lfd_doDecode l = doDecode_with (unpackFieldLength (ld_byteOrder l)) l"

text \<open>\<open>HandleRead\<close> on a message that is a reader: the frames it fires. An error is a panic. Any other
  message is passed on.\<close>

datatype ('c, 'm) inbound_msg = ReaderMsg 'c | OtherMsg 'm
datatype 'm fired = FiredFrame "byte list" | FiredOther 'm

definition lfd_HandleRead ::
  "lengthFieldDecoder \<Rightarrow> 'c reader_ops \<Rightarrow> ('c, 'm) inbound_msg \<Rightarrow> ('m fired list \<times> ('c, 'm) inbound_msg) go" where
  "lfd_HandleRead l rd msg =
     (case msg of
        ReaderMsg c \<Rightarrow> go_bind (lfd_doDecode l rd c)
          (\<lambda>(out, err, c'). case err of
             Some _ \<Rightarrow> Inl (Panicked ''decode error'')
           | None \<Rightarrow> Inr (map FiredFrame out, ReaderMsg c'))
      | OtherMsg m \<Rightarrow> Inr ([FiredOther m], msg))"

text \<open>The decimal decoder has the same fields but for the byte order, and does not restrict the width.\<close>

definition NewLengthFieldStrDecoder :: "int \<Rightarrow> int \<Rightarrow> int \<Rightarrow> int \<Rightarrow> int \<Rightarrow> lengthFieldDecoder go" where
  "NewLengthFieldStrDecoder mx off len adj strip =
     (if mx \<le> 0 then Inl (Panicked ''maxFrameLength must be a positive integer'')
      else if off < 0 then Inl (Panicked ''lengthFieldOffset must be a non-negative integer'')
      else if strip < 0 then Inl (Panicked ''initialBytesToStrip must be a non-negative integer'')
      else if off > go_int (mx - len) then Inl (Panicked ''maxFrameLength must be equal to or greater than lengthFieldOffset + lengthFieldLength'')
      else Inr \<lparr>ld_byteOrder = BigEndian, ld_maxFrameLength = mx,
                ld_lengthFieldOffset = off, ld_lengthFieldLength = len, ld_lengthAdjustment = adj,
                ld_initialBytesToStrip = strip\<rparr>)"

definition lfsd_doDecode :: "lengthFieldDecoder \<Rightarrow> 'c reader_ops \<Rightarrow> 'c \<Rightarrow> (byte list list \<times> go_error option \<times> 'c) go" where
  "lfsd_doDecode l = doDecode_with unpackFieldLengthStr l"

definition lfsd_HandleRead ::
  "lengthFieldDecoder \<Rightarrow> 'c reader_ops \<Rightarrow> ('c, 'm) inbound_msg \<Rightarrow> ('m fired list \<times> ('c, 'm) inbound_msg) go" where
  "lfsd_HandleRead l rd msg =
     (case msg of
        ReaderMsg c \<Rightarrow> go_bind (lfsd_doDecode l rd c)
          (\<lambda>(out, err, c'). case err of
             Some _ \<Rightarrow> Inl (Panicked ''decode error'')
           | None \<Rightarrow> Inr (map FiredFrame out, ReaderMsg c'))
      | OtherMsg m \<Rightarrow> Inr ([FiredOther m], msg))"

subsection \<open>Encoders\<close>

record lengthFieldEncoder =
  le_byteOrder :: byte_order
  le_lengthFieldLength :: int
  le_lengthAdjustment :: int
  le_lengthIncludesLengthFieldLength :: bool

definition NewLengthFieldEncoder :: "byte_order option \<Rightarrow> int \<Rightarrow> int \<Rightarrow> bool \<Rightarrow> lengthFieldEncoder go" where
  "NewLengthFieldEncoder byteOrder len adj incl =
     (if len \<noteq> 1 \<and> len \<noteq> 2 \<and> len \<noteq> 4 \<and> len \<noteq> 8 then Inl (Panicked ''lengthFieldLength must be either 1, 2, 4 or 8'')
      else Inr \<lparr>le_byteOrder = (case byteOrder of None \<Rightarrow> BigEndian | Some b \<Rightarrow> b), le_lengthFieldLength = len,
                le_lengthAdjustment = adj, le_lengthIncludesLengthFieldLength = incl\<rparr>)"

text \<open>The value of the length field for a body, and \<open>HandleWrite\<close> on the bytes of a message.\<close>

definition field_value :: "lengthFieldEncoder \<Rightarrow> byte list \<Rightarrow> int" where
  "field_value l body =
     (let n = go_int (int (length body) + le_lengthAdjustment l)
      in if le_lengthIncludesLengthFieldLength l then go_int (n + le_lengthFieldLength l) else n)"


definition NewLengthFieldStrEncoder :: "int \<Rightarrow> int \<Rightarrow> bool \<Rightarrow> lengthFieldEncoder" where
  "NewLengthFieldStrEncoder len adj incl =
     \<lparr>le_byteOrder = BigEndian, le_lengthFieldLength = len, le_lengthAdjustment = adj,
      le_lengthIncludesLengthFieldLength = incl\<rparr>"

definition lfse_HandleWrite :: "lengthFieldEncoder \<Rightarrow> byte list \<Rightarrow> byte list go" where
  "lfse_HandleWrite l body =
     go_bind (packFieldLengthStr (le_lengthFieldLength l) (field_value l body)) (\<lambda>h. Inr (h @ body))"

subsection \<open>Round trips of the length field\<close>

lemma length_be_bytes [simp]: "length (be_bytes k v) = k"
  by (induction k) auto


lemma length_PutUint [simp]: "length (order_PutUint ord k v) = k"
  by (cases ord) (simp_all add: order_PutUint_def)



lemma decimal_not_Nil [simp]: "decimal n \<noteq> []"
  by (subst decimal.simps) simp

lemma digit_byte:
  assumes "k < 10"
  shows "is_digit (48 + of_nat k)" and "unat (48 + of_nat k :: byte) = 48 + k"
proof -
  have "unat (of_nat k :: byte) = k" using assms by (simp add: unat_of_nat)
  then show u: "unat (48 + of_nat k :: byte) = 48 + k" using assms by (simp add: unat_word_ariths)
  show "is_digit (48 + of_nat k)" using assms unfolding is_digit_def word_le_nat_alt u by simp
qed

lemma decimal_digits: "list_all is_digit (decimal n)"
proof (induction n rule: decimal.induct)
  case (1 n)
  then show ?case using digit_byte(1) [of n] digit_byte(1) [of "n mod 10"] by (subst decimal.simps) simp
qed

lemma digits_value_snoc: "digits_value (ds @ [d]) = digits_value ds * 10 + (unat d - 48)"
  by (simp add: digits_value_def)

lemma digits_value_decimal: "digits_value (decimal n) = n"
proof (induction n rule: decimal.induct)
  case (1 n)
  then show ?case using digit_byte(2) [of n] digit_byte(2) [of "n mod 10"]
    by (subst decimal.simps) (simp add: digits_value_snoc digits_value_def)
qed

lemma digits_value_zeros: "digits_value (replicate k 48 @ ds) = digits_value ds"
proof (induction k)
  case (Suc k)
  have "digits_value (48 # xs) = digits_value xs" for xs by (simp add: digits_value_def)
  with Suc show ?case by simp
qed simp

text \<open>White space never starts or ends with a digit or a minus sign, so such a string is not trimmed.\<close>

lemma trim_left_digit:
  assumes "\<forall>p\<in>set rs. \<exists>b q. p = b # q \<and> b \<noteq> c" and "s = c # s'"
  shows "trim_left k rs s = s"
proof -
  have "find (\<lambda>p. starts_with p s) rs = None"
    using assms unfolding find_None_iff by (fastforce simp: starts_with_def)
  then show ?thesis by (cases k) simp_all
qed

lemma space_not_digit:
  assumes "is_digit c \<or> c = 45"
  shows "\<forall>p\<in>set space_runes. \<exists>b q. p = b # q \<and> b \<noteq> c" and "\<forall>p\<in>set (map rev space_runes). \<exists>b q. p = b # q \<and> b \<noteq> c"
  using assms unfolding space_runes_def is_digit_def by (auto simp: word_le_nat_alt)

lemma TrimSpace_digits:
  assumes "list_all is_digit ds" "ds \<noteq> []"
  shows "strings_TrimSpace ds = ds"
proof -
  obtain c ds' where c: "ds = c # ds'" "is_digit c" using assms by (cases ds) auto
  obtain e es where e: "rev ds = e # es" "is_digit e" using assms by (cases "rev ds") (auto simp: list_all_iff)
  have "trim_left k space_runes ds = ds" for k
    using space_not_digit(1) c by (intro trim_left_digit) auto
  moreover have "trim_left k (map rev space_runes) (rev ds) = rev ds" for k
    using space_not_digit(2) e by (intro trim_left_digit) auto
  ultimately show ?thesis by (simp add: strings_TrimSpace_def)
qed

lemma ParseInt_digits:
  assumes "list_all is_digit ds" "ds \<noteq> []" "digits_value ds < 2 ^ 63"
  shows "strconv_ParseInt ds = Some (int (digits_value ds))"
proof -
  obtain c ds' where c: "ds = c # ds'" "is_digit c" using assms by (cases ds) auto
  then have "c \<noteq> 43" "c \<noteq> 45" by (auto simp: is_digit_def word_le_nat_alt)
  moreover have "int (digits_value ds) < 2 ^ 63" using assms(3) by (metis of_nat_less_iff of_nat_numeral of_nat_power)
  ultimately show ?thesis using c assms(1,2) by (simp add: strconv_ParseInt_def)
qed

lemma unpack_packFieldLengthStr:
  assumes "packFieldLengthStr fieldLen n = Inr h" and "0 \<le> n" "n < 2 ^ 63" and "fieldLen \<le> 10 ^ 6"
  shows "unpackFieldLengthStr fieldLen h = Inr n" and "int (length h) = fieldLen"
proof -
  let ?ds = "decimal (nat n)"
  have fl: "int (length ?ds) \<le> fieldLen"
    and h: "h = replicate (nat fieldLen - length ?ds) 48 @ ?ds"
    using assms by (auto simp: packFieldLengthStr_def strconv_FormatInt_def Sprintf_0d_def Let_def split: if_splits)
  show len: "int (length h) = fieldLen" using fl h by simp
  have dig: "list_all is_digit h" "h \<noteq> []" using h decimal_digits [of "nat n"] by (auto simp: list_all_iff is_digit_def)
  have val: "digits_value h = nat n" by (simp add: h digits_value_zeros digits_value_decimal)
  have "take (nat fieldLen) h = h" "\<not> fieldLen < 0" using len by auto
  then show "unpackFieldLengthStr fieldLen h = Inr n"
    using len TrimSpace_digits [OF dig] ParseInt_digits [OF dig] val assms(2,3)
    by (simp add: unpackFieldLengthStr_def nat_less_iff)
qed

subsection \<open>Decoding as a function of the inbound bytes\<close>

datatype frame_result = Incomplete | BadFrame go_error | Frame "byte list" "byte list"

text \<open>What a decoder finds at the front of the stream \<open>bs\<close>: not enough bytes yet, a frame it refuses, or
  a frame body and the rest of the stream.\<close>

definition frame_of :: "(int \<Rightarrow> byte list \<Rightarrow> int go) \<Rightarrow> lengthFieldDecoder \<Rightarrow> byte list \<Rightarrow> frame_result go" where
  "frame_of unpack l bs =
     (let off = nat (ld_lengthFieldOffset l); hdr = off + nat (ld_lengthFieldLength l) in
      if length bs < hdr then Inr Incomplete
      else go_bind (unpack (ld_lengthFieldLength l) (drop off (take hdr bs)))
        (\<lambda>v. if v < 0 then Inr (BadFrame (OtherError ''invalid frame length''))
             else let n = go_int (v + go_int (ld_lengthAdjustment l + int hdr)) in
               if n < int hdr then Inr (BadFrame (OtherError ''Adjusted frame length is less than lengthFieldEndOffset''))
               else if n > ld_maxFrameLength l then Inr (BadFrame (OtherError ''exceeded frame length''))
               else if int (length bs) < n then Inr Incomplete
               else if ld_initialBytesToStrip l > n
               then Inr (BadFrame (OtherError ''Adjustd frame length is less than initialBytesToStrip''))
               else Inr (Frame (drop (nat (ld_initialBytesToStrip l)) (take (nat n) bs)) (drop (nat n) bs))))"

definition decoder_ok :: "lengthFieldDecoder \<Rightarrow> bool" where
  "decoder_ok l \<longleftrightarrow> 0 \<le> ld_lengthFieldOffset l \<and> 0 < ld_lengthFieldLength l \<and> 0 \<le> ld_initialBytesToStrip l
     \<and> ld_lengthFieldOffset l + ld_lengthFieldLength l \<le> ld_maxFrameLength l \<and> ld_maxFrameLength l < 2 ^ 63"

lemma NewLengthFieldDecoder_ok:
  assumes "NewLengthFieldDecoder ord mx off len adj strip = Inr l" and "mx < 2 ^ 63"
  shows "decoder_ok l"
proof -
  have c: "0 < mx" "0 \<le> off" "0 \<le> strip" "len = 1 \<or> len = 2 \<or> len = 4 \<or> len = 8" "off \<le> go_int (mx - len)"
    "l = \<lparr>ld_byteOrder = (case ord of None \<Rightarrow> BigEndian | Some b \<Rightarrow> b), ld_maxFrameLength = mx,
                ld_lengthFieldOffset = off, ld_lengthFieldLength = len, ld_lengthAdjustment = adj,
                ld_initialBytesToStrip = strip\<rparr>"
    using assms(1) by (auto simp: NewLengthFieldDecoder_def split: if_splits)
  then have "go_int (mx - len) = mx - len" using assms(2) by (intro go_int_id) auto
  with c assms(2) show ?thesis by (auto simp: decoder_ok_def)
qed

definition decoded :: "('c \<Rightarrow> bool) \<Rightarrow> ('c \<Rightarrow> byte list) \<Rightarrow> byte list \<Rightarrow> frame_result go \<Rightarrow> (byte list list \<times> go_error option \<times> 'c) go \<Rightarrow> bool" where
  "decoded ok st bs spec res =
     (case spec of
        Inl p \<Rightarrow> res = Inl p
      | Inr Incomplete \<Rightarrow> (\<exists>c'. res = Inr ([], None, c') \<and> ok c' \<and> st c' = bs)
      | Inr (BadFrame e) \<Rightarrow> (\<exists>c'. res = Inr ([], Some e, c') \<and> ok c' \<and> st c' = bs)
      | Inr (Frame body rest) \<Rightarrow> (\<exists>c'. res = Inr ([body], None, c') \<and> ok c' \<and> st c' = rest))"

context frame_reader
begin

definition ops :: "'c reader_ops" where
  "ops = \<lparr>rd_Peek = peek, rd_Next = nxt, rd_Discard = discard, rd_InboundBuffered = buffered\<rparr>"

lemma ops_simps [simp]:
  "rd_Peek ops = peek" "rd_Next ops = nxt" "rd_Discard ops = discard" "rd_InboundBuffered ops = buffered"
  by (simp_all add: ops_def)

text \<open>Stripping and taking the body, once the frame is known to be complete.\<close>

definition body_steps :: "int \<Rightarrow> int \<Rightarrow> 'c \<Rightarrow> (byte list list \<times> go_error option \<times> 'c) go" where
  "body_steps strip n c1 =
     go_bind (if strip > 0
              then if strip > n then Inr (Some (OtherError ''Adjustd frame length is less than initialBytesToStrip''), n, c1)
                   else go_bind (discard c1 strip) (\<lambda>(_, err, c2). Inr (err, n - strip, c2))
              else Inr (None, n, c1))
       (\<lambda>(err, m, c2). if err \<noteq> None then Inr ([], err, c2)
          else go_bind (nxt c2 m)
            (\<lambda>(msg, err, c3). if err = Some ErrShortBuffer then Inr ([], None, c3)
               else if err \<noteq> None then Inr ([], Some (OtherError ''read frame message failed''), c3)
               else Inr ([msg], None, c3)))"

lemma take_body:
  assumes c1: "inv c1" and n: "0 \<le> n" "n \<le> int (length (abs c1))" and strip: "0 \<le> strip" "strip \<le> n"
  shows "\<exists>c'. body_steps strip n c1 = Inr ([drop (nat strip) (take (nat n) (abs c1))], None, c')
            \<and> inv c' \<and> abs c' = drop (nat n) (abs c1)"
proof (cases "strip = 0")
  case True
  from next_law [OF c1 n(2)] True show ?thesis by (auto simp: body_steps_def)
next
  case False
  then have "0 < strip" "strip \<le> int (length (abs c1))" using strip n by auto
  from discard_law [OF c1 this] obtain c2 where
    c2: "discard c1 strip = Inr (strip, None, c2)" "inv c2" "abs c2 = drop (nat strip) (abs c1)" by blast
  have "n - strip \<le> int (length (abs c2))" using c2(3) n strip by simp
  from next_law [OF c2(2) this] obtain c3 where
    c3: "nxt c2 (n - strip) = Inr (take (nat (n - strip)) (abs c2), None, c3)" "inv c3"
      "abs c3 = drop (nat (n - strip)) (abs c2)" by blast
  have "take (nat (n - strip)) (drop (nat strip) (abs c1)) = drop (nat strip) (take (nat n) (abs c1))"
    using strip by (simp add: drop_take nat_diff_distrib)
  moreover have "nat (n - strip) + nat strip = nat n" using strip n by simp
  ultimately show ?thesis using c2 c3 \<open>0 < strip\<close> strip(2) by (simp add: body_steps_def)
qed

lemma doDecode_refines:
  assumes inv: "inv c" and l: "decoder_ok l"
  shows "decoded inv abs (abs c) (frame_of unpack l (abs c)) (doDecode_with unpack l ops c)"
proof -
  define off where "off = nat (ld_lengthFieldOffset l)"
  define hdr where "hdr = off + nat (ld_lengthFieldLength l)"
  have hdr: "int hdr = ld_lengthFieldOffset l + ld_lengthFieldLength l" "ld_lengthFieldOffset l = int off" "0 < hdr" "off \<le> hdr"
    using l by (auto simp: decoder_ok_def off_def hdr_def)
  have e: "go_int (ld_lengthFieldOffset l + ld_lengthFieldLength l) = int hdr"
    using l hdr by (subst go_int_id) (auto simp: decoder_ok_def)
  note e2 = e [unfolded hdr(2)]
  show ?thesis
  proof (cases "length (abs c) < hdr")
    case True
    then show ?thesis using peek_short [OF inv, of "int hdr"] inv
      by (simp add: decoded_def frame_of_def doDecode_with_def e Let_def flip: hdr_def off_def)
  next
    case False
    then have "int hdr \<le> int (length (abs c))" by simp
    from peek_law [OF inv this] hdr(3) obtain c1 where
      c1: "peek c (int hdr) = Inr (take hdr (abs c), None, c1)" "inv c1" "abs c1 = abs c" by auto
    have sl: "go_slice_int (take hdr (abs c)) (int off) (int hdr) = Inr (drop off (take hdr (abs c)))"
      using False hdr(4) by (simp add: go_slice_int_def go_slice_def)
    show ?thesis
    proof (cases "unpack (ld_lengthFieldLength l) (drop off (take hdr (abs c)))")
      case (Inl p)
      then have "doDecode_with unpack l ops c = Inl p" using c1(1) sl
        by (simp add: doDecode_with_def e2 hdr(2) Let_def)
      moreover have "frame_of unpack l (abs c) = Inl p" using Inl False
        by (simp add: frame_of_def Let_def flip: hdr_def off_def)
      ultimately show ?thesis by (simp add: decoded_def)
    next
      case (Inr v)
      define n where "n = go_int (v + go_int (ld_lengthAdjustment l + int hdr))"
      have run: "doDecode_with unpack l ops c = (if v < 0 then Inr ([], Some (OtherError ''invalid frame length''), c1)
        else if n < int hdr then Inr ([], Some (OtherError ''Adjusted frame length is less than lengthFieldEndOffset''), c1)
        else if n > ld_maxFrameLength l then Inr ([], Some (OtherError ''exceeded frame length''), c1)
        else if int (length (abs c)) < n then Inr ([], None, c1)
        else body_steps (ld_initialBytesToStrip l) n c1)"
        using c1 sl Inr buffered_law [OF c1(2)]
        by (simp add: doDecode_with_def e2 hdr(2) n_def Let_def body_steps_def cong: if_cong)
      have spec: "frame_of unpack l (abs c) = (if v < 0 then Inr (BadFrame (OtherError ''invalid frame length''))
        else if n < int hdr then Inr (BadFrame (OtherError ''Adjusted frame length is less than lengthFieldEndOffset''))
        else if n > ld_maxFrameLength l then Inr (BadFrame (OtherError ''exceeded frame length''))
        else if int (length (abs c)) < n then Inr Incomplete
        else if ld_initialBytesToStrip l > n
        then Inr (BadFrame (OtherError ''Adjustd frame length is less than initialBytesToStrip''))
        else Inr (Frame (drop (nat (ld_initialBytesToStrip l)) (take (nat n) (abs c))) (drop (nat n) (abs c))))"
        using Inr False by (simp add: frame_of_def Let_def flip: hdr_def off_def n_def)
      have strip0: "0 \<le> ld_initialBytesToStrip l" using l by (simp add: decoder_ok_def)
      show ?thesis
      proof (cases "0 \<le> v \<and> int hdr \<le> n \<and> n \<le> ld_maxFrameLength l \<and> n \<le> int (length (abs c)) \<and> ld_initialBytesToStrip l \<le> n")
        case True
        then have "0 \<le> n" "n \<le> int (length (abs c1))" using c1 by auto
        from take_body [OF c1(2) this strip0] True run c1(3) show ?thesis by (simp add: spec decoded_def)
      next
        case bad: False
        have "body_steps (ld_initialBytesToStrip l) n c1
            = Inr ([], Some (OtherError ''Adjustd frame length is less than initialBytesToStrip''), c1)"
          if "ld_initialBytesToStrip l > n" "int hdr \<le> n"
          using that hdr(3) by (simp add: body_steps_def)
        with bad run c1 show ?thesis by (auto simp: spec decoded_def)
      qed
    qed
  qed
qed

end

subsection \<open>Traffic: one frame per event, until nothing is left to decode\<close>

text \<open>\<open>SimpleEventHandler.OnTraffic\<close> over a pipeline that ends in a decoder: the frames it fires and whether
  it asks to be woken again, which it does when it has read something and bytes are left.\<close>

type_synonym 'c decode = "'c reader_ops \<Rightarrow> 'c \<Rightarrow> (byte list list \<times> go_error option \<times> 'c) go"

definition traffic_once :: "'c decode \<Rightarrow> 'c reader_ops \<Rightarrow> 'c \<Rightarrow> (byte list list \<times> bool \<times> 'c) go" where
  "traffic_once dec rd c =
     (let before = rd_InboundBuffered rd c in
      go_bind (dec rd c)
        (\<lambda>(out, err, c'). case err of
           Some _ \<Rightarrow> Inl (Panicked ''decode error'')
         | None \<Rightarrow> let after = rd_InboundBuffered rd c' in Inr (out, after > 0 \<and> after \<noteq> before, c')))"

partial_function (option) traffic_loop :: "'c decode \<Rightarrow> 'c reader_ops \<Rightarrow> 'c \<Rightarrow> (byte list list \<times> 'c) go option" where
  "traffic_loop dec rd c =
     (case traffic_once dec rd c of
        Inl p \<Rightarrow> Some (Inl p)
      | Inr (out, again, c') \<Rightarrow>
          if again
          then Option.bind (traffic_loop dec rd c') (\<lambda>r. Some (go_bind r (\<lambda>(out', c''). Inr (out @ out', c''))))
          else Some (Inr (out, c')))"

definition traffic :: "'c decode \<Rightarrow> 'c reader_ops \<Rightarrow> 'c \<Rightarrow> (byte list list \<times> 'c) go" where
  "traffic dec rd c = (case traffic_loop dec rd c of None \<Rightarrow> Inl Diverges | Some r \<Rightarrow> r)"

text \<open>A packet: its bytes are appended, \<open>OnTraffic\<close> runs once, what is left is stashed, and the wakes follow.\<close>

definition on_packet ::
  "'c decode \<Rightarrow> 'c reader_ops \<Rightarrow> ('c \<Rightarrow> byte list \<Rightarrow> 'c go) \<Rightarrow> ('c \<Rightarrow> 'c go) \<Rightarrow> 'c \<Rightarrow> byte list \<Rightarrow> (byte list list \<times> 'c) go" where
  "on_packet dec rd recv settle c p =
     go_bind (recv c p)
       (\<lambda>c1. go_bind (traffic_once dec rd c1)
          (\<lambda>(out, again, c2). go_bind (settle c2)
             (\<lambda>c3. if again then go_bind (traffic dec rd c3) (\<lambda>(out', c4). Inr (out @ out', c4)) else Inr (out, c3))))"

fun on_packets ::
  "'c decode \<Rightarrow> 'c reader_ops \<Rightarrow> ('c \<Rightarrow> byte list \<Rightarrow> 'c go) \<Rightarrow> ('c \<Rightarrow> 'c go) \<Rightarrow> 'c \<Rightarrow> byte list list \<Rightarrow> (byte list list \<times> 'c) go" where
  "on_packets dec rd recv settle c [] = Inr ([], c)"
| "on_packets dec rd recv settle c (p # ps) =
     go_bind (on_packet dec rd recv settle c p)
       (\<lambda>(out, c1). go_bind (on_packets dec rd recv settle c1 ps) (\<lambda>(out', c2). Inr (out @ out', c2)))"

text \<open>A framing: every body in \<open>good\<close> has a frame that the decoder recognises, with whatever follows it,
  and of which no strict prefix is taken for a frame.\<close>

definition framing :: "(int \<Rightarrow> byte list \<Rightarrow> int go) \<Rightarrow> lengthFieldDecoder \<Rightarrow> (byte list \<Rightarrow> byte list) \<Rightarrow> byte list set \<Rightarrow> bool" where
  "framing unpack l fr good \<longleftrightarrow> (\<forall>body\<in>good. fr body \<noteq> []
     \<and> (\<forall>rest. frame_of unpack l (fr body @ rest) = Inr (Frame body rest))
     \<and> (\<forall>k < length (fr body). frame_of unpack l (take k (fr body)) = Inr Incomplete))"

text \<open>A stream that starts with whole frames for \<open>done\<close> and then breaks off inside the first frame of
  \<open>todo\<close>, or ends.\<close>

definition breaks_off :: "(byte list \<Rightarrow> byte list) \<Rightarrow> byte list list \<Rightarrow> byte list \<Rightarrow> bool" where
  "breaks_off fr todo bs \<longleftrightarrow> (case todo of [] \<Rightarrow> bs = [] | b # _ \<Rightarrow> \<exists>k < length (fr b). bs = take k (fr b))"

lemma split_stream:
  assumes "\<forall>b\<in>set bodies. fr b \<noteq> []" and "p @ q = concat (map fr bodies)"
  shows "\<exists>dn todo tail. bodies = dn @ todo \<and> p = concat (map fr dn) @ tail \<and> breaks_off fr todo tail
           \<and> tail @ q = concat (map fr todo)"
  using assms
proof (induction bodies arbitrary: p)
  case Nil
  then show ?case by (simp add: breaks_off_def)
next
  case (Cons b bodies)
  show ?case
  proof (cases "length p < length (fr b)")
    case True
    then obtain us where "p @ us = fr b" using Cons.prems(2) by (auto simp: append_eq_append_conv2)
    then have "p = take (length p) (fr b)" by (metis append_eq_conv_conj)
    with True Cons.prems(2) show ?thesis
      by (intro exI [of _ "[]"] exI [of _ "b # bodies"] exI [of _ p]) (auto simp: breaks_off_def)
  next
    case False
    then have "take (length (fr b)) p = fr b"
      using arg_cong [OF Cons.prems(2), of "take (length (fr b))"] by simp
    then obtain p' where p: "p = fr b @ p'" by (metis append_take_drop_id)
    then have "p' @ q = concat (map fr bodies)" using Cons.prems(2) by simp
    from Cons.IH [OF _ this] Cons.prems(1) obtain dn todo tail where
      "bodies = dn @ todo" "p' = concat (map fr dn) @ tail" "breaks_off fr todo tail" "tail @ q = concat (map fr todo)"
      by auto
    then show ?thesis using p by (intro exI [of _ "b # dn"] exI [of _ todo] exI [of _ tail]) auto
  qed
qed

locale packet_reader = frame_reader inv abs peek nxt discard buffered
  for inv :: "'c \<Rightarrow> bool" and abs :: "'c \<Rightarrow> byte list"
    and peek :: "'c \<Rightarrow> int \<Rightarrow> (byte list \<times> go_error option \<times> 'c) go"
    and nxt :: "'c \<Rightarrow> int \<Rightarrow> (byte list \<times> go_error option \<times> 'c) go"
    and discard :: "'c \<Rightarrow> int \<Rightarrow> (int \<times> go_error option \<times> 'c) go"
    and buffered :: "'c \<Rightarrow> nat" +
  fixes recv :: "'c \<Rightarrow> byte list \<Rightarrow> 'c go" and settle :: "'c \<Rightarrow> 'c go" and limit :: nat
  assumes recv_law: "inv c \<Longrightarrow> \<exists>c'. recv c p = Inr c' \<and> inv c' \<and> abs c' = abs c @ p"
    and settle_law: "inv c \<Longrightarrow> length (abs c) \<le> limit \<Longrightarrow> \<exists>c'. settle c = Inr c' \<and> inv c' \<and> abs c' = abs c"
begin

lemma traffic_once_frame:
  assumes "inv c" "decoder_ok l" "framing unpack l fr good" "b \<in> good" "abs c = fr b @ rest"
  shows "\<exists>c'. traffic_once (doDecode_with unpack l) ops c = Inr ([b], rest \<noteq> [], c') \<and> inv c' \<and> abs c' = rest"
proof -
  have "frame_of unpack l (abs c) = Inr (Frame b rest)" "fr b \<noteq> []" using assms by (auto simp: framing_def)
  with doDecode_refines [OF assms(1,2), of unpack] obtain c' where
    "doDecode_with unpack l ops c = Inr ([b], None, c')" "inv c'" "abs c' = rest" by (auto simp: decoded_def)
  then show ?thesis using buffered_law assms(1,5) \<open>fr b \<noteq> []\<close> by (auto simp: traffic_once_def)
qed

lemma traffic_once_tail:
  assumes "inv c" "decoder_ok l" "framing unpack l fr good" "set todo \<subseteq> good" "breaks_off fr todo (abs c)"
  shows "\<exists>c'. traffic_once (doDecode_with unpack l) ops c = Inr ([], False, c') \<and> inv c' \<and> abs c' = abs c"
proof -
  have "frame_of unpack l (abs c) = Inr Incomplete"
  proof (cases todo)
    case Nil
    then show ?thesis using assms(2,5) by (auto simp: breaks_off_def frame_of_def decoder_ok_def Let_def)
  next
    case (Cons b bs)
    then show ?thesis using assms(3-5) by (auto simp: breaks_off_def framing_def)
  qed
  with doDecode_refines [OF assms(1,2), of unpack] obtain c' where
    "doDecode_with unpack l ops c = Inr ([], None, c')" "inv c'" "abs c' = abs c" by (auto simp: decoded_def)
  then show ?thesis using buffered_law assms(1) by (auto simp: traffic_once_def)
qed

lemma traffic_frames:
  assumes "decoder_ok l" "framing unpack l fr good" "set (dn @ todo) \<subseteq> good" "breaks_off fr todo tail"
    "inv c" "abs c = concat (map fr dn) @ tail"
  shows "\<exists>c'. traffic (doDecode_with unpack l) ops c = Inr (dn, c') \<and> inv c' \<and> abs c' = tail"
  using assms(3-6)
proof (induction dn arbitrary: c)
  case Nil
  with traffic_once_tail [OF _ assms(1,2), of c todo] show ?case
    by (auto simp: traffic_def traffic_loop.simps)
next
  case (Cons b dn)
  let ?rest = "concat (map fr dn) @ tail"
  have "b \<in> good" "abs c = fr b @ ?rest" using Cons.prems by auto
  from traffic_once_frame [OF Cons.prems(3) assms(1,2) this] obtain c1 where
    c1: "traffic_once (doDecode_with unpack l) ops c = Inr ([b], ?rest \<noteq> [], c1)" "inv c1" "abs c1 = ?rest" by blast
  show ?case
  proof (cases "?rest = []")
    case True
    have "dn = []" using True Cons.prems(1) assms(2) by (cases dn) (auto simp: framing_def)
    with c1 True show ?thesis by (auto simp: traffic_def traffic_loop.simps)
  next
    case False
    from Cons.IH [OF _ Cons.prems(2) c1(2,3)] Cons.prems(1) obtain c' where
      "traffic (doDecode_with unpack l) ops c1 = Inr (dn, c')" "inv c'" "abs c' = tail" by auto
    with c1 False show ?thesis
      by (auto simp: traffic_def traffic_loop.simps [of _ _ c] split: option.splits)
  qed
qed

lemma on_packet_frames:
  assumes "decoder_ok l" "framing unpack l fr good" "set (dn @ todo) \<subseteq> good" "breaks_off fr todo tail"
    "inv c" "abs c @ p = concat (map fr dn) @ tail" "length (abs c @ p) \<le> limit"
  shows "\<exists>c'. on_packet (doDecode_with unpack l) ops recv settle c p = Inr (dn, c') \<and> inv c' \<and> abs c' = tail"
proof -
  from recv_law [OF assms(5), of p] obtain c1 where
    c1: "recv c p = Inr c1" "inv c1" "abs c1 = concat (map fr dn) @ tail" using assms(6) by auto
  show ?thesis
  proof (cases dn)
    case Nil
    then have "breaks_off fr todo (abs c1)" "set todo \<subseteq> good" using c1 assms(3,4) by auto
    from traffic_once_tail [OF c1(2) assms(1,2) this(2,1)] obtain c2 where
      c2: "traffic_once (doDecode_with unpack l) ops c1 = Inr ([], False, c2)" "inv c2" "abs c2 = tail"
      using c1 Nil by auto
    have "length (abs c2) \<le> limit" using c2 c1(3) assms(6,7) by simp
    from settle_law [OF c2(2) this] c1 c2 Nil show ?thesis by (auto simp: on_packet_def)
  next
    case (Cons b dn')
    let ?rest = "concat (map fr dn') @ tail"
    have "b \<in> good" "abs c1 = fr b @ ?rest" using c1 assms(3) Cons by auto
    from traffic_once_frame [OF c1(2) assms(1,2) this] obtain c2 where
      c2: "traffic_once (doDecode_with unpack l) ops c1 = Inr ([b], ?rest \<noteq> [], c2)" "inv c2" "abs c2 = ?rest" by blast
    have "length (abs c2) \<le> limit" using c2 c1(3) assms(6,7) Cons by simp
    from settle_law [OF c2(2) this] obtain c3 where c3: "settle c2 = Inr c3" "inv c3" "abs c3 = ?rest" using c2 by auto
    show ?thesis
    proof (cases "?rest = []")
      case True
      have "dn' = []" using True assms(2,3) Cons by (cases dn') (auto simp: framing_def)
      with c1 c2 c3 True Cons show ?thesis by (auto simp: on_packet_def)
    next
      case False
      have "set (dn' @ todo) \<subseteq> good" using assms(3) Cons by auto
      from traffic_frames [OF assms(1,2) this assms(4) c3(2,3)] c1 c2 c3 False Cons show ?thesis
        by (auto simp: on_packet_def)
    qed
  qed
qed

text \<open>However the stream is cut into packets, the frames come out whole, once each and in order.\<close>

lemma on_packets_reassemble:
  assumes "decoder_ok l" "framing unpack l fr good" "set bodies \<subseteq> good"
    "inv c" "breaks_off fr bodies (abs c)" "abs c @ concat ps = concat (map fr bodies)"
    "length (concat (map fr bodies)) \<le> limit"
  shows "\<exists>c'. on_packets (doDecode_with unpack l) ops recv settle c ps = Inr (bodies, c') \<and> inv c' \<and> abs c' = []"
  using assms(3-7)
proof (induction ps arbitrary: c bodies)
  case Nil
  have "bodies = []" using Nil(3,4) assms(2) Nil(1)
    by (cases bodies) (auto simp: breaks_off_def framing_def dest: arg_cong [of _ _ length])
  then show ?case using Nil by (auto simp: breaks_off_def)
next
  case (Cons p ps)
  have ne: "\<forall>b\<in>set bodies. fr b \<noteq> []" using Cons.prems(1) assms(2) by (auto simp: framing_def)
  have "(abs c @ p) @ concat ps = concat (map fr bodies)" using Cons.prems(4) by simp
  from split_stream [OF ne this] obtain dn todo tail where
    sp: "bodies = dn @ todo" "abs c @ p = concat (map fr dn) @ tail" "breaks_off fr todo tail"
      "tail @ concat ps = concat (map fr todo)" by blast
  have "length (abs c @ p) \<le> limit" "set (dn @ todo) \<subseteq> good"
    using Cons.prems(1,5) arg_cong [OF Cons.prems(4), of length] sp(1) by auto
  from on_packet_frames [OF assms(1,2) this(2) sp(3) Cons.prems(2) sp(2) this(1)] obtain c1 where
    c1: "on_packet (doDecode_with unpack l) ops recv settle c p = Inr (dn, c1)" "inv c1" "abs c1 = tail" by blast
  have "set todo \<subseteq> good" "breaks_off fr todo (abs c1)" "abs c1 @ concat ps = concat (map fr todo)"
    "length (concat (map fr todo)) \<le> limit"
    using Cons.prems sp c1 by auto
  from Cons.IH [OF this(1) c1(2) this(2-)] c1 sp(1) show ?case by auto
qed

end

subsection \<open>Encoder and decoder\<close>

text \<open>A decoder that is set up for an encoder: it expects the length field first, undoes the adjustment and
  strips the field.\<close>

definition codec_matches :: "lengthFieldEncoder \<Rightarrow> lengthFieldDecoder \<Rightarrow> bool" where
  "codec_matches e l \<longleftrightarrow> decoder_ok l \<and> ld_maxFrameLength l \<le> 2 ^ 62
     \<and> ld_byteOrder l = le_byteOrder e \<and> ld_lengthFieldLength l = le_lengthFieldLength e \<and> ld_lengthFieldOffset l = 0
     \<and> ld_initialBytesToStrip l = le_lengthFieldLength e \<and> \<bar>le_lengthAdjustment e\<bar> \<le> 2 ^ 61
     \<and> ld_lengthAdjustment l
        = - le_lengthAdjustment e - (if le_lengthIncludesLengthFieldLength e then le_lengthFieldLength e else 0)"

text \<open>A body that fits the decoder's limit and whose length field is not negative.\<close>

definition body_fits :: "lengthFieldEncoder \<Rightarrow> lengthFieldDecoder \<Rightarrow> byte list \<Rightarrow> bool" where
  "body_fits e l body \<longleftrightarrow> le_lengthFieldLength e + int (length body) \<le> ld_maxFrameLength l \<and> 0 \<le> field_value e body"

lemma field_value_eq:
  assumes "codec_matches e l" "body_fits e l body"
  shows "field_value e body = int (length body) + le_lengthAdjustment e
           + (if le_lengthIncludesLengthFieldLength e then le_lengthFieldLength e else 0)"
    and "field_value e body < 2 ^ 63"
proof -
  have b: "int (length body) \<le> 2 ^ 62" "0 < le_lengthFieldLength e" "le_lengthFieldLength e \<le> 2 ^ 62"
    "int (length body) + le_lengthFieldLength e \<le> 2 ^ 62"
    using assms by (auto simp: codec_matches_def body_fits_def decoder_ok_def)
  have adj: "- (2 ^ 61) \<le> le_lengthAdjustment e" "le_lengthAdjustment e \<le> 2 ^ 61"
    using assms(1) by (auto simp: codec_matches_def abs_le_iff)
  have "go_int (int (length body) + le_lengthAdjustment e) = int (length body) + le_lengthAdjustment e"
    using b adj by (intro go_int_id) auto
  moreover have "go_int (int (length body) + le_lengthAdjustment e + le_lengthFieldLength e)
      = int (length body) + le_lengthAdjustment e + le_lengthFieldLength e"
    using b adj by (intro go_int_id) auto
  ultimately show eq: "field_value e body = int (length body) + le_lengthAdjustment e
      + (if le_lengthIncludesLengthFieldLength e then le_lengthFieldLength e else 0)"
    by (simp add: field_value_def)
  show "field_value e body < 2 ^ 63" unfolding eq using b adj by auto
qed

lemma frame_recognised:
  assumes m: "codec_matches e l" and f: "body_fits e l body"
    and h: "unpack (le_lengthFieldLength e) h = Inr (field_value e body)" "int (length h) = le_lengthFieldLength e"
  shows "frame_of unpack l (h @ body @ rest) = Inr (Frame body rest)"
    and "k < length (h @ body) \<Longrightarrow> frame_of unpack l (take k (h @ body)) = Inr Incomplete"
proof -
  have l: "ld_lengthFieldLength l = int (length h)" "ld_lengthFieldOffset l = 0" "ld_initialBytesToStrip l = int (length h)"
    using m h(2) by (auto simp: codec_matches_def)
  have b: "int (length body) + int (length h) \<le> ld_maxFrameLength l" "ld_maxFrameLength l \<le> 2 ^ 62"
    "0 \<le> field_value e body"
    using m f h(2) by (auto simp: codec_matches_def body_fits_def)
  have adj: "ld_lengthAdjustment l + field_value e body = int (length body)" "\<bar>le_lengthAdjustment e\<bar> \<le> 2 ^ 61"
    using m field_value_eq(1) [OF m f] by (auto simp: codec_matches_def)
  have v: "unpack (ld_lengthFieldLength l) h = Inr (field_value e body)" using h l by simp
  have "go_int (ld_lengthAdjustment l + int (length h)) = ld_lengthAdjustment l + int (length h)"
    using b adj field_value_eq(2) [OF m f] by (intro go_int_id) auto
  moreover have "go_int (int (length body) + int (length h)) = int (length body) + int (length h)"
    using b by (intro go_int_id) auto
  ultimately have n: "go_int (field_value e body + go_int (ld_lengthAdjustment l + int (length h)))
      = int (length body) + int (length h)"
    using adj(1) by (metis add.assoc add.commute)
  have s: "nat (int (length body) + int (length h)) = length h + length body" by simp
  show "frame_of unpack l (h @ body @ rest) = Inr (Frame body rest)"
    using b(1,3) v n s unfolding frame_of_def l by (simp add: Let_def)
  show "frame_of unpack l (take k (h @ body)) = Inr Incomplete" if "k < length (h @ body)"
  proof (cases "k < length h")
    case True
    then show ?thesis by (simp add: frame_of_def l Let_def)
  next
    case False
    then have "take (length h) (take k (h @ body)) = h" by (simp add: min_def)
    then show ?thesis using that False b(1,3) v n unfolding frame_of_def l by (simp add: Let_def)
  qed
qed

definition frame_bytes :: "(lengthFieldEncoder \<Rightarrow> byte list \<Rightarrow> byte list go) \<Rightarrow> lengthFieldEncoder \<Rightarrow> byte list \<Rightarrow> byte list" where
  "frame_bytes enc e body = (case enc e body of Inl _ \<Rightarrow> [] | Inr f \<Rightarrow> f)"

definition sendable :: "(lengthFieldEncoder \<Rightarrow> byte list \<Rightarrow> byte list go) \<Rightarrow> lengthFieldEncoder \<Rightarrow> lengthFieldDecoder \<Rightarrow> byte list set" where
  "sendable enc e l = {body. body_fits e l body \<and> enc e body = Inr (frame_bytes enc e body)}"


lemma framing_decimal:
  assumes m: "codec_matches e l" and w: "le_lengthFieldLength e \<le> 10 ^ 6"
  shows "framing unpackFieldLengthStr l (frame_bytes lfse_HandleWrite e) (sendable lfse_HandleWrite e l)"
proof (unfold framing_def, intro ballI)
  fix body
  assume "body \<in> sendable lfse_HandleWrite e l"
  then have f: "body_fits e l body" and ok: "lfse_HandleWrite e body = Inr (frame_bytes lfse_HandleWrite e body)"
    by (auto simp: sendable_def)
  from ok obtain h where h: "packFieldLengthStr (le_lengthFieldLength e) (field_value e body) = Inr h"
      "frame_bytes lfse_HandleWrite e body = h @ body"
    by (auto simp: lfse_HandleWrite_def elim!: go_bind_InrE)
  have "0 \<le> field_value e body" using f by (simp add: body_fits_def)
  note u = unpack_packFieldLengthStr [OF h(1) this field_value_eq(2) [OF m f] w]
  have "h \<noteq> []" using u(2) m by (auto simp: codec_matches_def decoder_ok_def)
  then show "frame_bytes lfse_HandleWrite e body \<noteq> []
     \<and> (\<forall>rest. frame_of unpackFieldLengthStr l (frame_bytes lfse_HandleWrite e body @ rest) = Inr (Frame body rest))
     \<and> (\<forall>k < length (frame_bytes lfse_HandleWrite e body).
          frame_of unpackFieldLengthStr l (take k (frame_bytes lfse_HandleWrite e body)) = Inr Incomplete)"
    unfolding h(2) using frame_recognised [where unpack = unpackFieldLengthStr, OF m f u] by simp
qed

subsection \<open>Connections as packet readers\<close>

definition conn_ops :: "conn_env \<Rightarrow> conn reader_ops" where
  "conn_ops ce = \<lparr>rd_Peek = conn_Peek ce, rd_Next = conn_Next ce, rd_Discard = conn_Discard ce,
     rd_InboundBuffered = conn_InboundBuffered ce\<rparr>"

definition conn_recv :: "conn_env \<Rightarrow> conn \<Rightarrow> byte list \<Rightarrow> conn go" where
  "conn_recv ce c p =
     go_bind (unpackTCPConn ce c (packTCPConn ce (Some p)))
       (\<lambda>(c', _). case c' of None \<Rightarrow> Inl NilDereference | Some c' \<Rightarrow> Inr c')"

context conn_environment
begin

lemma conn_recv_ok: "conn_ok c \<Longrightarrow> \<exists>c'. conn_recv ce c p = Inr c' \<and> conn_ok c' \<and> conn_inbound c' = conn_inbound c @ p"
  using conn_receive_ok [of c p] by (auto simp: conn_recv_def)

end

sublocale conn_environment \<subseteq> packets: packet_reader conn_ok conn_inbound "conn_Peek ce" "conn_Next ce" "conn_Discard ce"
    "conn_InboundBuffered ce" "conn_recv ce" "conn_stash ce" "2 ^ 59"
proof unfold_locales
  show "conn_ok c \<Longrightarrow> \<exists>c'. conn_recv ce c p = Inr c' \<and> conn_ok c' \<and> conn_inbound c' = conn_inbound c @ p" for c p
    by (rule conn_recv_ok)
  show "conn_ok c \<Longrightarrow> length (conn_inbound c) \<le> 2 ^ 59 \<Longrightarrow>
          \<exists>c'. conn_stash ce c = Inr c' \<and> conn_ok c' \<and> conn_inbound c' = conn_inbound c" for c
    using conn_stash_ok by blast
qed

context conn_environment
begin

lemma conn_ops_eq: "reader.ops = conn_ops ce"
  by (simp add: reader.ops_def conn_ops_def)

lemmas conn_decode = reader.doDecode_refines [unfolded conn_ops_eq]
lemmas conn_reassemble = packets.on_packets_reassemble [unfolded conn_ops_eq]

end

subsection \<open>Properties\<close>

text \<open>On a connection, both decoders compute \<open>frame_of\<close> of the inbound stream, whatever its position in
  the buffers: with too few bytes they return nothing and leave the stream alone (half packets wait), a
  refused length is an error that consumes nothing, and a complete frame is returned without its stripped
  prefix while exactly that frame leaves the stream.\<close>

theorem decoders_read_frames:
  assumes "conn_environment ce" and "conn_ok c" and "decoder_ok l"
  shows "decoded conn_ok conn_inbound (conn_inbound c)
           (frame_of (unpackFieldLength (ld_byteOrder l)) l (conn_inbound c)) (lfd_doDecode l (conn_ops ce) c)
     \<and> decoded conn_ok conn_inbound (conn_inbound c)
           (frame_of unpackFieldLengthStr l (conn_inbound c)) (lfsd_doDecode l (conn_ops ce) c)"
  unfolding lfd_doDecode_def lfsd_doDecode_def using conn_environment.conn_decode [OF assms] by blast

definition example_encoder :: lengthFieldEncoder where
  "example_encoder = \<lparr>le_byteOrder = BigEndian, le_lengthFieldLength = 2, le_lengthAdjustment = 0,
     le_lengthIncludesLengthFieldLength = True\<rparr>"

definition example_decoder :: lengthFieldDecoder where
  "example_decoder = \<lparr>ld_byteOrder = BigEndian, ld_maxFrameLength = 1024, ld_lengthFieldOffset = 0,
     ld_lengthFieldLength = 2, ld_lengthAdjustment = - 2, ld_initialBytesToStrip = 2\<rparr>"

lemma example_matches: "codec_matches example_encoder example_decoder"
  by (simp add: codec_matches_def decoder_ok_def example_encoder_def example_decoder_def)

definition packet_conn :: "byte list \<Rightarrow> conn" where
  "packet_conn bs = \<lparr>c_rawConn = True, c_buffer = Some bs, c_cache = [], c_inboundBuffer = er_new\<rparr>"

lemma packet_conn_ok: "conn_ok (packet_conn bs)" "conn_inbound (packet_conn bs) = bs"
  by (simp_all add: conn_ok_def conn_inbound_def packet_conn_def er_new_ok)

theorem decoders_read_frames_witness:
  "(\<exists>c'. lfd_doDecode example_decoder (conn_ops example_conn_env) (packet_conn [0, 4, 7, 8, 9])
        = Inr ([[7, 8]], None, c') \<and> conn_inbound c' = [9])
   \<and> (\<exists>c'. lfd_doDecode example_decoder (conn_ops example_conn_env) (packet_conn [0, 4, 7])
        = Inr ([], None, c') \<and> conn_inbound c' = [0, 4, 7])"
proof -
  have ok: "decoder_ok example_decoder" using example_matches by (simp add: codec_matches_def)
  have spec: "frame_of (unpackFieldLength (ld_byteOrder example_decoder)) example_decoder [0, 4, 7, 8, 9] = Inr (Frame [7, 8] [9])"
    "frame_of (unpackFieldLength (ld_byteOrder example_decoder)) example_decoder [0, 4, 7] = Inr Incomplete"
    by (simp_all add: frame_of_def example_decoder_def unpackFieldLength_def order_Uint_def go_int_def Let_def)
  show ?thesis
    using decoders_read_frames [OF cenv.conn_environment_axioms packet_conn_ok(1) ok, of "[0, 4, 7, 8, 9]"]
      decoders_read_frames [OF cenv.conn_environment_axioms packet_conn_ok(1) ok, of "[0, 4, 7]"]
    by (auto simp: packet_conn_ok spec decoded_def)
qed



text \<open>The same for the codec whose length field is a zero-padded decimal number of fixed width.\<close>

theorem decimal_codec_reassembles:
  assumes "conn_environment ce" and "codec_matches e l" and "le_lengthFieldLength e \<le> 10 ^ 6"
    and "conn_ok c" and "conn_inbound c = []"
    and "set bodies \<subseteq> sendable lfse_HandleWrite e l"
    and "concat packets = concat (map (frame_bytes lfse_HandleWrite e) bodies)" and "length (concat packets) \<le> 2 ^ 59"
  shows "\<exists>c'. on_packets (lfsd_doDecode l) (conn_ops ce) (conn_recv ce) (conn_stash ce) c packets = Inr (bodies, c')
           \<and> conn_ok c' \<and> conn_inbound c' = []"
proof -
  note fr = framing_decimal [OF assms(2,3)]
  have "decoder_ok l" using assms(2) by (simp add: codec_matches_def)
  moreover have "breaks_off (frame_bytes lfse_HandleWrite e) bodies (conn_inbound c)"
    using assms(5,6) fr by (auto simp: breaks_off_def framing_def split: list.splits)
  ultimately show ?thesis
    using conn_environment.conn_reassemble [OF assms(1) _ fr assms(6,4)] assms(5,7,8)
    by (simp add: lfsd_doDecode_def)
qed

theorem decimal_codec_reassembles_witness:
  "\<exists>c'. on_packets (lfsd_doDecode example_decoder) (conn_ops example_conn_env) (conn_recv example_conn_env)
        (conn_stash example_conn_env) (packet_conn []) [[48], [52, 7, 8, 48], [51, 9]]
      = Inr ([[7, 8], [9]], c') \<and> conn_inbound c' = []"
proof -
  let ?b = "[[7, 8], [9]] :: byte list list"
  have fb: "frame_bytes lfse_HandleWrite example_encoder [7, 8] = [48, 52, 7, 8]"
    "frame_bytes lfse_HandleWrite example_encoder [9] = [48, 51, 9]"
    by (simp_all add: frame_bytes_def lfse_HandleWrite_def example_encoder_def field_value_def packFieldLengthStr_def
        strconv_FormatInt_def Sprintf_0d_def decimal.simps go_int_def Let_def)
  have s: "set ?b \<subseteq> sendable lfse_HandleWrite example_encoder example_decoder"
    by (auto simp: sendable_def fb) (simp_all add: lfse_HandleWrite_def example_encoder_def field_value_def packFieldLengthStr_def
        strconv_FormatInt_def Sprintf_0d_def decimal.simps go_int_def Let_def body_fits_def example_decoder_def)
  have w: "le_lengthFieldLength example_encoder \<le> 10 ^ 6" by (simp add: example_encoder_def)
  have c: "concat [[48], [52, 7, 8, 48], [51, 9]] = concat (map (frame_bytes lfse_HandleWrite example_encoder) ?b)"
    "length (concat [[48], [52, 7, 8, 48], [51, 9 :: byte]]) \<le> 2 ^ 59" by (simp_all add: fb)
  show ?thesis
    using decimal_codec_reassembles [OF cenv.conn_environment_axioms example_matches w packet_conn_ok(1) packet_conn_ok(2) s c]
    by blast
qed

end
