(* ===== verification/EventLoop.thy ===== *)
theory EventLoop
  imports Connection
begin

text \<open>
  The event loop of \<^verbatim>\<open>contribute/agonet/event_loop.go\<close>: connections are opened, fed, woken and closed by
  events that one goroutine takes from a queue. The user's \<open>EventHandler\<close> is an argument: each callback
  may change its connection and its own state, and may panic, in which case the changes made so far
  remain. What leaves the loop (handler calls, callbacks, closed sockets) is recorded in a trace.
\<close>

subsection \<open>Errors and actions\<close>

definition ErrEngineShutdown :: go_error where "ErrEngineShutdown = OtherError ''agonet: server is going to be shutdown''"
definition ErrMaxConnRejected :: go_error where "ErrMaxConnRejected = OtherError ''agonet: max connection quota exceeded''"
definition errInboundOverflow :: go_error where "errInboundOverflow = OtherError ''inbound buffer overflow (F3)''"

datatype Action = ActNone | ActClose | ActShutdown | ActOther

subsection \<open>State\<close>

text \<open>32-bit counters, as \<open>atomic.AddInt32\<close> updates them.\<close>

definition go_int32 :: "int \<Rightarrow> int" where
  "go_int32 x = (x + 2 ^ 31) mod 2 ^ 32 - 2 ^ 31"

datatype trace_event =
    TOnOpen nat
  | TOnTraffic nat
  | TOnClose nat "go_error option"
  | TRawClose nat
  | TCallback nat "go_error option"

record 'u eventloop =
  el_heap :: "nat \<Rightarrow> conn"
  el_connections :: "nat list"
  el_connCount :: int
  el_totalConn :: int
  el_pool :: RbPool
  el_user :: 'u
  el_trace :: "trace_event list"

text \<open>The options of the engine and the user's handler. A handler gets the identity of the connection, the
  connection and its own state; \<open>raw_Write\<close> is the socket's \<open>Write\<close>.\<close>

record 'u loop_config =
  lc_env :: conn_env
  lc_MaxConn :: int
  lc_InboundBufferLimit :: int
  lc_OnOpen :: "nat \<Rightarrow> conn \<Rightarrow> 'u \<Rightarrow> (byte list option \<times> Action) go \<times> conn \<times> 'u"
  lc_OnTraffic :: "nat \<Rightarrow> conn \<Rightarrow> 'u \<Rightarrow> Action go \<times> conn \<times> 'u"
  lc_OnClose :: "nat \<Rightarrow> conn \<Rightarrow> go_error option \<Rightarrow> 'u \<Rightarrow> Action go \<times> conn \<times> 'u"
  lc_raw_Write :: "nat \<Rightarrow> byte list \<Rightarrow> 'u \<Rightarrow> go_error option \<times> 'u"

text \<open>The pool of ring buffers is global: a connection is read together with it and written back with it.\<close>

definition el_get :: "'u eventloop \<Rightarrow> nat \<Rightarrow> conn" where
  "el_get s i = (el_heap s i)\<lparr>c_inboundBuffer := (c_inboundBuffer (el_heap s i))\<lparr>er_rbPool := el_pool s\<rparr>\<rparr>"

definition el_put :: "nat \<Rightarrow> conn \<Rightarrow> 'u eventloop \<Rightarrow> 'u eventloop" where
  "el_put i c s = s\<lparr>el_heap := (el_heap s)(i := c), el_pool := er_rbPool (c_inboundBuffer c)\<rparr>"

definition el_log :: "trace_event \<Rightarrow> 'u eventloop \<Rightarrow> 'u eventloop" where
  "el_log e s = s\<lparr>el_trace := el_trace s @ [e]\<rparr>"

definition el_incConn :: "int \<Rightarrow> 'u eventloop \<Rightarrow> 'u eventloop" where
  "el_incConn delta s = s\<lparr>el_connCount := go_int32 (el_connCount s + delta)\<rparr>"

definition el_addTotal :: "int \<Rightarrow> 'u eventloop \<Rightarrow> 'u eventloop" where
  "el_addTotal delta s = s\<lparr>el_totalConn := go_int32 (el_totalConn s + delta)\<rparr>"

definition el_callback :: "bool \<Rightarrow> nat \<Rightarrow> go_error option \<Rightarrow> 'u eventloop \<Rightarrow> 'u eventloop" where
  "el_callback cb i err s = (if cb then el_log (TCallback i err) s else s)"

text \<open>The user's callbacks.\<close>

definition call_OnOpen :: "'u loop_config \<Rightarrow> nat \<Rightarrow> 'u eventloop \<Rightarrow> (byte list option \<times> Action) go \<times> 'u eventloop" where
  "call_OnOpen cfg i s =
     (let (r, c, u) = lc_OnOpen cfg i (el_get s i) (el_user s)
      in (r, (el_put i c (el_log (TOnOpen i) s))\<lparr>el_user := u\<rparr>))"

definition call_OnTraffic :: "'u loop_config \<Rightarrow> nat \<Rightarrow> 'u eventloop \<Rightarrow> Action go \<times> 'u eventloop" where
  "call_OnTraffic cfg i s =
     (let (r, c, u) = lc_OnTraffic cfg i (el_get s i) (el_user s)
      in (r, (el_put i c (el_log (TOnTraffic i) s))\<lparr>el_user := u\<rparr>))"

definition call_OnClose :: "'u loop_config \<Rightarrow> nat \<Rightarrow> go_error option \<Rightarrow> 'u eventloop \<Rightarrow> Action go \<times> 'u eventloop" where
  "call_OnClose cfg i err s =
     (let (r, c, u) = lc_OnClose cfg i (el_get s i) err (el_user s)
      in (r, (el_put i c (el_log (TOnClose i err) s))\<lparr>el_user := u\<rparr>))"

lemma call_OnClose_connections [simp]: "el_connections (snd (call_OnClose cfg i err s)) = el_connections s"
  by (simp add: call_OnClose_def el_put_def el_log_def split: prod.splits)

subsection \<open>Operations\<close>

text \<open>Closing the socket and giving the buffers back.\<close>

definition close_and_release :: "'u loop_config \<Rightarrow> nat \<Rightarrow> 'u eventloop \<Rightarrow> unit go \<times> 'u eventloop" where
  "close_and_release cfg i s =
     (let s1 = el_log (TRawClose i) s in
      case conn_release (lc_env cfg) (el_get s1 i) of
        Inl p \<Rightarrow> (Inl p, s1)
      | Inr c \<Rightarrow> (Inr (), el_put i c s1))"

text \<open>\<open>close\<close> and \<open>handleAction\<close> call each other: an \<open>OnClose\<close> that answers \<open>Close\<close> closes again, which finds
  the connection gone.\<close>

function el_close :: "'u loop_config \<Rightarrow> 'u eventloop \<Rightarrow> nat \<Rightarrow> go_error option \<Rightarrow> go_error option go \<times> 'u eventloop" where
  "el_close cfg s i err =
     (if \<not> c_rawConn (el_heap s i) \<or> i \<notin> set (el_connections s) then (Inr None, s)
      else
        let s1 = el_addTotal (- 1) (el_incConn (- 1) (s\<lparr>el_connections := removeAll i (el_connections s)\<rparr>));
            rs = call_OnClose cfg i err s1;
            action = (case fst rs of Inl _ \<Rightarrow> ActNone | Inr a \<Rightarrow> a);
            (ret, s2) = (case action of
               ActNone \<Rightarrow> (Inr None, snd rs)
             | ActClose \<Rightarrow> el_close cfg (snd rs) i None
             | ActShutdown \<Rightarrow> (Inr (Some ErrEngineShutdown), snd rs)
             | ActOther \<Rightarrow> (Inr None, snd rs));
            (r, s3) = close_and_release cfg i s2
        in (case r of Inl p \<Rightarrow> (Inl p, s3) | Inr _ \<Rightarrow> (ret, s3)))"
  by pat_completeness auto
termination
proof (relation "measure (\<lambda>(cfg, s, i, err). length (el_connections s))")
  fix cfg :: "'u loop_config" and s i err s1 rs action
  assume "\<not> (\<not> c_rawConn (el_heap s i) \<or> i \<notin> set (el_connections s))"
    and s1: "s1 = el_addTotal (- 1) (el_incConn (- 1) (s\<lparr>el_connections := removeAll i (el_connections s)\<rparr>))"
    and rs: "rs = call_OnClose cfg i err s1"
  then have "length (removeAll i (el_connections s)) < length (el_connections s)"
    using length_removeAll_less [of i "el_connections s"] by simp
  then show "((cfg, snd rs, i, None), cfg, s, i, err) \<in> measure (\<lambda>(cfg, s, i, err). length (el_connections s))"
    by (simp add: rs s1 el_addTotal_def el_incConn_def)
qed simp

declare el_close.simps [simp del]

definition el_handleAction :: "'u loop_config \<Rightarrow> 'u eventloop \<Rightarrow> nat \<Rightarrow> Action \<Rightarrow> go_error option go \<times> 'u eventloop" where
  "el_handleAction cfg s i action =
     (case action of
        ActNone \<Rightarrow> (Inr None, s)
      | ActClose \<Rightarrow> el_close cfg s i None
      | ActShutdown \<Rightarrow> (Inr (Some ErrEngineShutdown), s)
      | ActOther \<Rightarrow> (Inr None, s))"

definition defaultInboundLimit :: int where "defaultInboundLimit = 16 * 1024 * 1024"
definition minInboundLimit :: int where "minInboundLimit = 1024 * 1024"

definition resolveInboundLimit :: "'u loop_config \<Rightarrow> int" where
  "resolveInboundLimit cfg =
     (let limit = (if lc_InboundBufferLimit cfg > 0 then lc_InboundBufferLimit cfg else defaultInboundLimit)
      in if limit < minInboundLimit then minInboundLimit else limit)"

text \<open>The deferred \<open>recover\<close> of \<open>read\<close> and of \<open>open\<close>: it reads the remote address of the socket before it
  closes the connection.\<close>

definition recover_close :: "'u loop_config \<Rightarrow> 'u eventloop \<Rightarrow> nat \<Rightarrow> go_error \<Rightarrow> go_error option go \<times> 'u eventloop" where
  "recover_close cfg s i err =
     (if \<not> c_rawConn (el_heap s i) then (Inl NilDereference, s) else el_close cfg s i (Some err))"

definition el_open :: "'u loop_config \<Rightarrow> 'u eventloop \<Rightarrow> nat \<Rightarrow> bool \<Rightarrow> go_error option go \<times> 'u eventloop" where
  "el_open cfg s0 i cb =
     (let s = (if lc_MaxConn cfg > 0 then el_addTotal 1 s0 else s0) in
      if lc_MaxConn cfg > 0 \<and> el_totalConn s > lc_MaxConn cfg
      then let (r, s1) = close_and_release cfg i (el_addTotal (- 1) s)
           in (case r of Inl p \<Rightarrow> (Inl p, s1) | Inr _ \<Rightarrow> (Inr None, el_callback cb i (Some ErrMaxConnRejected) s1))
      else
        let s1 = el_incConn 1 (s\<lparr>el_connections := i # removeAll i (el_connections s)\<rparr>);
            (r, s2) = call_OnOpen cfg i s1
        in (case r of
              Inl _ \<Rightarrow>
                let openErr = OtherError ''panic in OnOpen'';
                    (r2, s3) = recover_close cfg s2 i openErr;
                    s4 = el_callback cb i (Some openErr) s3
                in (case r2 of Inl p \<Rightarrow> (Inl p, s4) | Inr _ \<Rightarrow> (Inr None, s4))
            | Inr (out, action) \<Rightarrow>
                let (werr, u) = (case out of None \<Rightarrow> (None, el_user s2) | Some o' \<Rightarrow> lc_raw_Write cfg i o' (el_user s2));
                    s3 = s2\<lparr>el_user := u\<rparr>
                in (case werr of
                      Some e \<Rightarrow> (Inr (Some e), el_callback cb i None s3)
                    | None \<Rightarrow> let (ret, s4) = el_handleAction cfg s3 i action in (ret, el_callback cb i None s4))))"

definition el_read :: "'u loop_config \<Rightarrow> 'u eventloop \<Rightarrow> nat option \<Rightarrow> go_error option go \<times> 'u eventloop" where
  "el_read cfg s c =
     (case c of
        None \<Rightarrow> (Inr None, s)
      | Some i \<Rightarrow>
          if i \<notin> set (el_connections s) then (Inr None, s)
          else
            let (r, s1) = call_OnTraffic cfg i s; panicked = recover_close cfg s1 i (OtherError ''panic in handler'')
            in (case r of
                  Inl _ \<Rightarrow> panicked
                | Inr ActClose \<Rightarrow> el_close cfg s1 i None
                | Inr ActShutdown \<Rightarrow> (Inr (Some ErrEngineShutdown), s1)
                | Inr _ \<Rightarrow>
                    let c1 = el_get s1 i in
                    (case c_buffer c1 of
                       None \<Rightarrow> panicked
                     | Some b \<Rightarrow>
                         if int (er_Buffered (c_inboundBuffer c1) + bb_Len (lc_env cfg) b) > resolveInboundLimit cfg
                         then el_close cfg s1 i (Some errInboundOverflow)
                         else (case conn_stash (lc_env cfg) c1 of
                                 Inl _ \<Rightarrow> panicked
                               | Inr c2 \<Rightarrow> (Inr None, el_put i c2 s1)))))"

definition el_wake :: "'u loop_config \<Rightarrow> 'u eventloop \<Rightarrow> nat \<Rightarrow> go_error option go \<times> 'u eventloop" where
  "el_wake cfg s i =
     (if i \<notin> set (el_connections s) then (Inr None, s)
      else let (r, s1) = call_OnTraffic cfg i s
           in (case r of Inl p \<Rightarrow> (Inl p, s1) | Inr action \<Rightarrow> el_handleAction cfg s1 i action))"

subsection \<open>Events\<close>

text \<open>The messages of the queue. A function is \<open>Close\<close> or \<open>Wake\<close> of a connection, or a task of the user.\<close>

datatype 'u event =
    EvError go_error
  | EvNetErr nat "go_error option"
  | EvOpen nat bool
  | EvTcp nat tcpConn
  | EvClose nat
  | EvWake nat
  | EvTask "'u \<Rightarrow> go_error option go \<times> 'u"

definition el_handleEvent :: "'u loop_config \<Rightarrow> 'u eventloop \<Rightarrow> 'u event \<Rightarrow> go_error option go \<times> 'u eventloop" where
  "el_handleEvent cfg s ev =
     (case ev of
        EvError e \<Rightarrow> (Inr (Some e), s)
      | EvNetErr i err \<Rightarrow> el_close cfg s i err
      | EvOpen i cb \<Rightarrow> el_open cfg s i cb
      | EvTcp i tc \<Rightarrow>
          (case unpackTCPConn (lc_env cfg) (el_get s i) tc of
             Inl p \<Rightarrow> (Inl p, s)
           | Inr (None, _) \<Rightarrow> el_read cfg s None
           | Inr (Some c, _) \<Rightarrow> el_read cfg (el_put i c s) (Some i))
      | EvClose i \<Rightarrow> el_close cfg s i None
      | EvWake i \<Rightarrow> el_wake cfg s i
      | EvTask f \<Rightarrow> (let (r, u) = f (el_user s) in (r, s\<lparr>el_user := u\<rparr>)))"

definition el_safeHandle :: "'u loop_config \<Rightarrow> 'u eventloop \<Rightarrow> 'u event \<Rightarrow> go_error option \<times> 'u eventloop" where
  "el_safeHandle cfg s ev =
     (let (r, s') = el_handleEvent cfg s ev
      in (case r of Inl _ \<Rightarrow> (Some (OtherError ''panic recovered''), s') | Inr err \<Rightarrow> (err, s')))"

text \<open>\<open>rejectRemaining\<close> empties the queue, and \<open>drain\<close> handles it until it is empty or the deadline is over,
  which the argument \<open>late\<close> tells after each event.\<close>

fun el_rejectRemaining :: "'u loop_config \<Rightarrow> 'u eventloop \<Rightarrow> 'u event list \<Rightarrow> unit go \<times> 'u eventloop" where
  "el_rejectRemaining cfg s [] = (Inr (), s)"
| "el_rejectRemaining cfg s (EvOpen i cb # q) =
     (let (r, s1) = close_and_release cfg i s
      in (case r of
            Inl p \<Rightarrow> (Inl p, s1)
          | Inr _ \<Rightarrow> el_rejectRemaining cfg (el_callback cb i (Some ErrEngineShutdown) s1) q))"
| "el_rejectRemaining cfg s (_ # q) = el_rejectRemaining cfg s q"

fun el_drain :: "'u loop_config \<Rightarrow> bool list \<Rightarrow> 'u eventloop \<Rightarrow> 'u event list \<Rightarrow> unit go \<times> 'u eventloop" where
  "el_drain cfg late s [] = (Inr (), s)"
| "el_drain cfg late s (ev # q) =
     (let s1 = snd (el_safeHandle cfg s ev) in
      case late of
        True # _ \<Rightarrow> el_rejectRemaining cfg s1 q
      | False # late' \<Rightarrow> el_drain cfg late' s1 q
      | [] \<Rightarrow> el_drain cfg [] s1 q)"

text \<open>The main loop on the events it takes before the engine shuts down, the remaining queue at that moment
  and the deferred closing of what is still connected.\<close>

fun el_closeAll :: "'u loop_config \<Rightarrow> 'u eventloop \<Rightarrow> nat list \<Rightarrow> 'u eventloop" where
  "el_closeAll cfg s [] = s"
| "el_closeAll cfg s (i # is) = el_closeAll cfg (snd (el_close cfg s i None)) is"

fun el_events :: "'u loop_config \<Rightarrow> 'u eventloop \<Rightarrow> 'u event list \<Rightarrow> bool \<times> 'u eventloop" where
  "el_events cfg s [] = (True, s)"
| "el_events cfg s (ev # q) =
     (let (err, s1) = el_safeHandle cfg s ev
      in if err = Some ErrEngineShutdown then (False, s1) else el_events cfg s1 q)"

definition el_run :: "'u loop_config \<Rightarrow> bool list \<Rightarrow> 'u eventloop \<Rightarrow> 'u event list \<Rightarrow> 'u event list \<Rightarrow> 'u eventloop" where
  "el_run cfg late s taken queued =
     (let (drains, s1) = el_events cfg s taken;
          s2 = (if drains then snd (el_drain cfg late s1 queued) else s1)
      in el_closeAll cfg s2 (el_connections s2))"

subsection \<open>The life of a connection\<close>

datatype phase = Fresh | Opened | Closing | Released

fun trace_conn :: "trace_event \<Rightarrow> nat" where
  "trace_conn (TOnOpen i) = i"
| "trace_conn (TOnTraffic i) = i"
| "trace_conn (TOnClose i _) = i"
| "trace_conn (TRawClose i) = i"
| "trace_conn (TCallback i _) = i"

text \<open>What a handler may see of one connection: opened once, traffic only while it is open, closed once after
  that, and its socket closed and its buffers released exactly once, at the end. \<open>None\<close> is a violation.\<close>

fun phase_step :: "trace_event \<Rightarrow> phase \<Rightarrow> phase option" where
  "phase_step (TOnOpen i) ph = (if ph = Fresh then Some Opened else None)"
| "phase_step (TOnTraffic i) ph = (if ph = Opened then Some Opened else None)"
| "phase_step (TOnClose i e) ph = (if ph = Opened then Some Closing else None)"
| "phase_step (TRawClose i) ph = (if ph = Closing \<or> ph = Fresh then Some Released else None)"
| "phase_step (TCallback i e) ph = Some ph"

fun phase_from :: "phase \<Rightarrow> nat \<Rightarrow> trace_event list \<Rightarrow> phase option" where
  "phase_from ph i [] = Some ph"
| "phase_from ph i (e # es) =
     (if trace_conn e = i then Option.bind (phase_step e ph) (\<lambda>ph'. phase_from ph' i es) else phase_from ph i es)"

definition phase_of :: "nat \<Rightarrow> trace_event list \<Rightarrow> phase option" where
  "phase_of i tr = phase_from Fresh i tr"

lemma phase_from_append: "phase_from ph i (tr @ es) = Option.bind (phase_from ph i tr) (\<lambda>ph'. phase_from ph' i es)"
  by (induction tr arbitrary: ph) (auto split: bind_splits)

lemma phase_of_append: "phase_of i (tr @ es) = Option.bind (phase_of i tr) (\<lambda>ph. phase_from ph i es)"
  by (simp add: phase_of_def phase_from_append)

lemma phase_from_other: "\<forall>e\<in>set es. trace_conn e \<noteq> i \<Longrightarrow> phase_from ph i es = Some ph"
  by (induction es) auto

subsection \<open>Counters and the shared pool\<close>

lemma go_int32_id: "- (2 ^ 31) \<le> x \<Longrightarrow> x < 2 ^ 31 \<Longrightarrow> go_int32 x = x"
  by (simp add: go_int32_def)

lemma go_int32_add [simp]: "go_int32 (go_int32 x + d) = go_int32 (x + d)"
proof -
  have "((x + 2 ^ 31) mod 2 ^ 32 - 2 ^ 31 + d + 2 ^ 31) mod 2 ^ 32 = ((x + 2 ^ 31) mod 2 ^ 32 + d) mod (2 ^ 32 :: int)"
    by (simp add: algebra_simps)
  also have "\<dots> = (x + d + 2 ^ 31) mod 2 ^ 32" by (simp add: mod_simps algebra_simps)
  finally show ?thesis by (simp add: go_int32_def)
qed

lemma go_int32_add_left [simp]: "go_int32 (d + go_int32 x) = go_int32 (d + x)"
  using go_int32_add [of x d] by (simp add: add.commute)

lemma conn_ok_el_get:
  "conn_ok (el_get s i) \<longleftrightarrow> c_rawConn (el_heap s i) \<and> c_buffer (el_heap s i) \<noteq> None \<and> rp_inv (el_pool s)
     \<and> (case er_rb (c_inboundBuffer (el_heap s i)) of None \<Rightarrow> True | Some rb \<Rightarrow> rb_ok rb)"
  by (auto simp: conn_ok_def el_get_def er_ok_def)

lemma el_get_put_same [simp]: "el_get (el_put i c s) i = c"
  by (simp add: el_get_def el_put_def)

lemma conn_ok_pool: "conn_ok c \<Longrightarrow> rp_inv (er_rbPool (c_inboundBuffer c))"
  by (simp add: conn_ok_def er_ok_def)

text \<open>\<open>touches i es s s'\<close>: on the way from \<open>s\<close> to \<open>s'\<close> only connection \<open>i\<close> changed, with the trace \<open>es\<close>.\<close>

definition touches :: "nat \<Rightarrow> trace_event list \<Rightarrow> 'u eventloop \<Rightarrow> 'u eventloop \<Rightarrow> bool" where
  "touches i es s s' \<longleftrightarrow> (\<forall>j. j \<noteq> i \<longrightarrow> el_heap s' j = el_heap s j) \<and> el_trace s' = el_trace s @ es
     \<and> (\<forall>e\<in>set es. trace_conn e = i) \<and> removeAll i (el_connections s') = removeAll i (el_connections s)
     \<and> rp_inv (el_pool s')"

lemma touches_trans: "touches i es s s1 \<Longrightarrow> touches i es' s1 s2 \<Longrightarrow> touches i (es @ es') s s2"
  by (auto simp: touches_def)

lemma touches_conn_ok: "touches i es s s' \<Longrightarrow> j \<noteq> i \<Longrightarrow> conn_ok (el_get s j) \<Longrightarrow> conn_ok (el_get s' j)"
  by (auto simp: touches_def conn_ok_el_get)

lemma touches_phase: "touches i es s s' \<Longrightarrow> j \<noteq> i \<Longrightarrow> phase_of j (el_trace s') = phase_of j (el_trace s)"
  using phase_from_other [of es j] by (auto simp: touches_def phase_of_append split: bind_splits)

lemma touches_member: "touches i es s s' \<Longrightarrow> j \<noteq> i \<Longrightarrow> j \<in> set (el_connections s') \<longleftrightarrow> j \<in> set (el_connections s)"
proof -
  assume t: "touches i es s s'" and j: "j \<noteq> i"
  have "set (removeAll i (el_connections s')) = set (removeAll i (el_connections s))" using t by (simp add: touches_def)
  then show ?thesis using j by auto
qed

text \<open>A piece of the trace without callbacks.\<close>

definition quiet :: "trace_event list \<Rightarrow> bool" where
  "quiet es \<longleftrightarrow> (\<forall>i e. TCallback i e \<notin> set es)"

lemma quiet_simps [simp]:
  "quiet []" "quiet (es @ es') \<longleftrightarrow> quiet es \<and> quiet es'"
  "quiet (TOnOpen i # es) \<longleftrightarrow> quiet es" "quiet (TOnTraffic i # es) \<longleftrightarrow> quiet es"
  "quiet (TOnClose i err # es) \<longleftrightarrow> quiet es" "quiet (TRawClose i # es) \<longleftrightarrow> quiet es"
  by (auto simp: quiet_def)

definition callbacks :: "nat \<Rightarrow> trace_event list \<Rightarrow> nat" where
  "callbacks i es = length (filter (\<lambda>e. case e of TCallback j _ \<Rightarrow> j = i | _ \<Rightarrow> False) es)"

lemma callbacks_simps [simp]:
  "callbacks i [] = 0" "callbacks i (es @ es') = callbacks i es + callbacks i es'"
  "callbacks i (e # es) = (case e of TCallback j _ \<Rightarrow> if j = i then Suc (callbacks i es) else callbacks i es | _ \<Rightarrow> callbacks i es)"
  by (simp_all add: callbacks_def split: trace_event.splits)

lemma callbacks_quiet [simp]: "quiet es \<Longrightarrow> callbacks i es = 0"
  by (auto simp: callbacks_def quiet_def filter_empty_conv split: trace_event.splits)

subsection \<open>The invariant\<close>

text \<open>A connection is registered exactly while its trace says it is open, and then it is well-formed.
  \<open>others\<close> is the number of connections of the other loops of the engine.\<close>

definition conn_inv :: "'u eventloop \<Rightarrow> nat \<Rightarrow> bool" where
  "conn_inv s i \<longleftrightarrow> (if i \<in> set (el_connections s) then phase_of i (el_trace s) = Some Opened \<and> conn_ok (el_get s i)
     else phase_of i (el_trace s) \<in> {Some Fresh, Some Released})"

definition quota_inv :: "'u loop_config \<Rightarrow> int \<Rightarrow> 'u eventloop \<Rightarrow> bool" where
  "quota_inv cfg others s \<longleftrightarrow> (lc_MaxConn cfg > 0 \<longrightarrow>
     0 \<le> others \<and> lc_MaxConn cfg < 2 ^ 31 - 1 \<and> el_totalConn s = others + int (length (el_connections s))
     \<and> el_totalConn s \<le> lc_MaxConn cfg)"

definition el_inv :: "'u loop_config \<Rightarrow> int \<Rightarrow> 'u eventloop \<Rightarrow> bool" where
  "el_inv cfg others s \<longleftrightarrow> distinct (el_connections s) \<and> el_connCount s = go_int32 (int (length (el_connections s)))
     \<and> rp_inv (el_pool s) \<and> (\<forall>i. conn_inv s i) \<and> quota_inv cfg others s"

text \<open>A connection that waits for its \<open>openConn\<close> event.\<close>

definition pending :: "'u eventloop \<Rightarrow> nat \<Rightarrow> bool" where
  "pending s i \<longleftrightarrow> phase_of i (el_trace s) = Some Fresh \<and> conn_ok (el_get s i)"

fun opens :: "'u event list \<Rightarrow> nat list" where
  "opens [] = []"
| "opens (EvOpen i cb # q) = i # opens q"
| "opens (_ # q) = opens q"

fun awaited :: "'u event list \<Rightarrow> nat set" where
  "awaited [] = {}"
| "awaited (EvOpen i cb # q) = (if cb then insert i (awaited q) else awaited q)"
| "awaited (_ # q) = awaited q"

definition queue_ok :: "'u eventloop \<Rightarrow> 'u event list \<Rightarrow> bool" where
  "queue_ok s q \<longleftrightarrow> distinct (opens q) \<and> (\<forall>i\<in>set (opens q). pending s i)"

locale loop_environment =
  fixes cfg :: "'u loop_config"
  assumes env: "conn_environment (lc_env cfg)"
    and OnOpen_ok: "\<And>i c u r c' u'. conn_ok c \<Longrightarrow> lc_OnOpen cfg i c u = (r, c', u') \<Longrightarrow> conn_ok c'"
    and OnTraffic_ok: "\<And>i c u r c' u'. conn_ok c \<Longrightarrow> lc_OnTraffic cfg i c u = (r, c', u') \<Longrightarrow> conn_ok c'"
    and OnClose_ok: "\<And>i c e u r c' u'. conn_ok c \<Longrightarrow> lc_OnClose cfg i c e u = (r, c', u') \<Longrightarrow> conn_ok c'"
    and limit: "lc_InboundBufferLimit cfg \<le> 2 ^ 59"

sublocale loop_environment \<subseteq> conn_environment "lc_env cfg"
  by (rule env)

context loop_environment
begin

text \<open>A handler call on an open connection leaves it open and well-formed.\<close>

definition called :: "nat \<Rightarrow> trace_event \<Rightarrow> 'u eventloop \<Rightarrow> 'u eventloop \<Rightarrow> bool" where
  "called i e s s' \<longleftrightarrow> touches i [e] s s' \<and> conn_ok (el_get s' i) \<and> el_connections s' = el_connections s
     \<and> el_connCount s' = el_connCount s \<and> el_totalConn s' = el_totalConn s"

lemma calledI:
  assumes "conn_ok c" "trace_conn e = i"
  shows "called i e s ((el_put i c (el_log e s))\<lparr>el_user := u\<rparr>)"
proof -
  have "el_get ((el_put i c (el_log e s))\<lparr>el_user := u\<rparr>) i = c" by (simp add: el_get_def el_put_def)
  then show ?thesis using assms conn_ok_pool
    by (simp add: called_def touches_def) (simp add: el_put_def el_log_def)
qed

lemma called_OnOpen: "conn_ok (el_get s i) \<Longrightarrow> called i (TOnOpen i) s (snd (call_OnOpen cfg i s))"
  by (auto simp: call_OnOpen_def split: prod.splits intro!: calledI dest: OnOpen_ok)

lemma called_OnTraffic: "conn_ok (el_get s i) \<Longrightarrow> called i (TOnTraffic i) s (snd (call_OnTraffic cfg i s))"
  by (auto simp: call_OnTraffic_def split: prod.splits intro!: calledI dest: OnTraffic_ok)

lemma called_OnClose: "conn_ok (el_get s i) \<Longrightarrow> called i (TOnClose i e) s (snd (call_OnClose cfg i e s))"
  by (auto simp: call_OnClose_def split: prod.splits intro!: calledI dest: OnClose_ok)

lemma close_and_release_ok:
  assumes "conn_ok (el_get s i)"
  shows "\<exists>s'. close_and_release cfg i s = (Inr (), s') \<and> touches i [TRawClose i] s s' \<and> \<not> c_rawConn (el_heap s' i)
           \<and> el_connections s' = el_connections s \<and> el_connCount s' = el_connCount s \<and> el_totalConn s' = el_totalConn s"
proof -
  have g: "el_get (el_log (TRawClose i) s) i = el_get s i" by (simp add: el_get_def el_log_def)
  have "er_ok (c_inboundBuffer (el_get s i))" using assms by (simp add: conn_ok_def)
  from conn_release_ok [OF this] obtain c where c: "conn_release (lc_env cfg) (el_get s i) = Inr c" "\<not> c_rawConn c"
    "rp_inv (er_rbPool (c_inboundBuffer c))" by blast
  then show ?thesis by (simp add: close_and_release_def g touches_def) (simp add: el_put_def el_log_def)
qed

text \<open>Closing an open connection: deregistered, counted down, one \<open>OnClose\<close>, then released.\<close>

definition closed :: "nat \<Rightarrow> go_error option \<Rightarrow> 'u eventloop \<Rightarrow> 'u eventloop \<Rightarrow> bool" where
  "closed i err s s' \<longleftrightarrow> touches i [TOnClose i err, TRawClose i] s s' \<and> \<not> c_rawConn (el_heap s' i)
     \<and> el_connections s' = removeAll i (el_connections s)
     \<and> el_connCount s' = go_int32 (el_connCount s - 1) \<and> el_totalConn s' = go_int32 (el_totalConn s - 1)"

lemma el_close_stale: "i \<notin> set (el_connections s) \<Longrightarrow> el_close cfg s i err = (Inr None, s)"
  by (simp add: el_close.simps)

lemma el_close_open:
  assumes "conn_ok (el_get s i)" and "i \<in> set (el_connections s)"
  shows "\<exists>ret s'. el_close cfg s i err = (Inr ret, s') \<and> ret \<in> {None, Some ErrEngineShutdown} \<and> closed i err s s'"
proof -
  define s1 where "s1 = el_addTotal (- 1) (el_incConn (- 1) (s\<lparr>el_connections := removeAll i (el_connections s)\<rparr>))"
  define s2 where "s2 = snd (call_OnClose cfg i err s1)"
  define action where "action = (case fst (call_OnClose cfg i err s1) of Inl _ \<Rightarrow> ActNone | Inr a \<Rightarrow> a)"
  have g: "el_get s1 i = el_get s i" by (simp add: s1_def el_get_def el_addTotal_def el_incConn_def)
  have c2: "called i (TOnClose i err) s1 s2" unfolding s2_def by (rule called_OnClose) (simp add: g assms)
  then obtain s3 where s3: "close_and_release cfg i s2 = (Inr (), s3)" "touches i [TRawClose i] s2 s3"
      "\<not> c_rawConn (el_heap s3 i)" "el_connections s3 = el_connections s2" "el_connCount s3 = el_connCount s2"
      "el_totalConn s3 = el_totalConn s2"
    using close_and_release_ok [of s2 i] by (auto simp: called_def)
  have "el_connections s2 = removeAll i (el_connections s)"
    using c2 by (simp add: called_def s1_def el_addTotal_def el_incConn_def)
  then have stale: "el_close cfg s2 i None = (Inr None, s2)" by (intro el_close_stale) simp
  have t1: "touches i [] s s1"
    using assms by (auto simp: touches_def s1_def el_addTotal_def el_incConn_def conn_ok_el_get)
  have "touches i [TOnClose i err] s1 s2" using c2 by (simp add: called_def)
  from touches_trans [OF touches_trans [OF t1 this] s3(2)]
  have "touches i [TOnClose i err, TRawClose i] s s3" by simp
  then have "closed i err s s3"
    using c2 s3 by (auto simp: closed_def called_def) (auto simp: s1_def el_addTotal_def el_incConn_def)
  moreover have "el_close cfg s i err = (Inr (if action = ActShutdown then Some ErrEngineShutdown else None), s3)"
    using assms s3(1) stale
    by (subst el_close.simps) (cases action; simp add: Let_def conn_ok_el_get flip: s1_def s2_def action_def)
  ultimately show ?thesis by auto
qed

lemma conn_inv_other: "touches i es s s' \<Longrightarrow> j \<noteq> i \<Longrightarrow> conn_inv s j \<Longrightarrow> conn_inv s' j"
  by (auto simp: conn_inv_def touches_phase touches_member touches_conn_ok split: if_splits)

lemma conn_inv_all:
  assumes "touches i es s s'" and "\<forall>j. conn_inv s j" and "conn_inv s' i"
  shows "\<forall>j. conn_inv s' j"
  using assms conn_inv_other by (metis (full_types))

lemma length_removeAll_distinct: "distinct xs \<Longrightarrow> x \<in> set xs \<Longrightarrow> int (length (removeAll x xs)) = int (length xs) - 1"
  by (induction xs) auto

lemma closed_inv:
  assumes inv: "el_inv cfg others s" and i: "i \<in> set (el_connections s)" and c: "closed i err s s'"
  shows "el_inv cfg others s'"
proof -
  have ph: "phase_of i (el_trace s) = Some Opened" using inv i by (auto simp: el_inv_def conn_inv_def split: if_splits)
  have t: "touches i [TOnClose i err, TRawClose i] s s'" and conns: "el_connections s' = removeAll i (el_connections s)"
    using c by (auto simp: closed_def)
  then have "phase_of i (el_trace s') = Some Released" using ph by (simp add: touches_def phase_of_append)
  then have "conn_inv s' i" using conns by (simp add: conn_inv_def)
  moreover have "\<forall>j. conn_inv s j" using inv by (simp add: el_inv_def)
  ultimately have "\<forall>j. conn_inv s' j" using conn_inv_all [OF t] by blast
  moreover have len: "int (length (el_connections s')) = int (length (el_connections s)) - 1"
    unfolding conns using inv i by (intro length_removeAll_distinct) (auto simp: el_inv_def)
  moreover have "quota_inv cfg others s'"
    using inv c len i by (auto simp: quota_inv_def el_inv_def closed_def go_int32_id)
  ultimately show ?thesis using inv c t
    by (auto simp: el_inv_def closed_def touches_def distinct_removeAll go_int32_add [of _ "- 1", simplified])
qed

lemma el_close_inv:
  assumes "el_inv cfg others s"
  shows "\<exists>ret s'. el_close cfg s i err = (Inr ret, s') \<and> el_inv cfg others s'
           \<and> touches i (if i \<in> set (el_connections s) then [TOnClose i err, TRawClose i] else []) s s'
           \<and> i \<notin> set (el_connections s')"
proof (cases "i \<in> set (el_connections s)")
  case True
  then have "conn_ok (el_get s i)" using assms by (auto simp: el_inv_def conn_inv_def split: if_splits)
  from el_close_open [OF this True, of err] obtain ret s' where
    "el_close cfg s i err = (Inr ret, s')" "closed i err s s'" by blast
  then show ?thesis using closed_inv [OF assms True] True by (auto simp: closed_def)
next
  case False
  then show ?thesis using assms el_close_stale [OF False] by (auto simp: touches_def el_inv_def)
qed

lemma called_inv:
  assumes inv: "el_inv cfg others s" and c: "called i e s s'" and "i \<in> set (el_connections s)" and "e = TOnTraffic i"
  shows "el_inv cfg others s'"
proof -
  have t: "touches i [e] s s'" using c by (simp add: called_def)
  have "phase_of i (el_trace s) = Some Opened" using assms by (auto simp: el_inv_def conn_inv_def split: if_splits)
  then have "phase_of i (el_trace s') = Some Opened" using t assms(4) by (simp add: touches_def phase_of_append)
  then have "conn_inv s' i" using c assms(3) by (simp add: conn_inv_def called_def)
  moreover have "\<forall>j. conn_inv s j" using inv by (simp add: el_inv_def)
  ultimately have "\<forall>j. conn_inv s' j" using conn_inv_all [OF t] by blast
  moreover have "quota_inv cfg others s'" using inv c by (auto simp: el_inv_def called_def quota_inv_def)
  ultimately show ?thesis using inv c t by (simp add: el_inv_def called_def touches_def)
qed

lemma el_handleAction_inv:
  assumes "el_inv cfg others s"
  shows "\<exists>ret s' es. el_handleAction cfg s i a = (Inr ret, s') \<and> el_inv cfg others s' \<and> touches i es s s'
           \<and> quiet es"
proof (cases "a = ActClose")
  case True
  then show ?thesis using el_close_inv [OF assms, of i None] by (fastforce simp: el_handleAction_def)
next
  case False
  have "touches i [] s s" using assms by (simp add: touches_def el_inv_def)
  with False assms show ?thesis by (cases a) (fastforce simp: el_handleAction_def)+
qed

lemma recover_close_inv:
  assumes "el_inv cfg others s" "i \<in> set (el_connections s)"
  shows "\<exists>ret s' es. recover_close cfg s i err = (Inr ret, s') \<and> el_inv cfg others s' \<and> touches i es s s'
           \<and> i \<notin> set (el_connections s') \<and> quiet es"
proof -
  have "c_rawConn (el_heap s i)" using assms by (auto simp: el_inv_def conn_inv_def conn_ok_el_get split: if_splits)
  then show ?thesis using el_close_inv [OF assms(1), of i "Some err"] assms(2) by (fastforce simp: recover_close_def)
qed

subsection \<open>Every event keeps the invariant\<close>

lemma resolveInboundLimit_bounds: "resolveInboundLimit cfg \<le> 2 ^ 59"
  using limit by (simp add: resolveInboundLimit_def defaultInboundLimit_def minInboundLimit_def Let_def)

lemma put_inv:
  assumes inv: "el_inv cfg others s" and i: "i \<in> set (el_connections s)" and c: "conn_ok c"
  shows "el_inv cfg others (el_put i c s)" and "touches i [] s (el_put i c s)"
proof -
  show t: "touches i [] s (el_put i c s)" using conn_ok_pool [OF c] by (simp add: touches_def el_put_def)
  have "conn_inv (el_put i c s) i"
    using inv i c by (auto simp: el_inv_def conn_inv_def split: if_splits) (simp_all add: el_put_def)
  moreover have "\<forall>j. conn_inv s j" using inv by (simp add: el_inv_def)
  ultimately have "\<forall>j. conn_inv (el_put i c s) j" using conn_inv_all [OF t] by blast
  moreover have "quota_inv cfg others (el_put i c s)" using inv by (auto simp: el_inv_def quota_inv_def el_put_def)
  ultimately show "el_inv cfg others (el_put i c s)" using inv conn_ok_pool [OF c] by (simp add: el_inv_def) (simp add: el_put_def)
qed

lemma el_read_inv:
  assumes inv: "el_inv cfg others s"
  shows "\<exists>ret s' es. el_read cfg s (Some i) = (Inr ret, s') \<and> el_inv cfg others s' \<and> touches i es s s' \<and> quiet es
           \<and> (i \<in> set (el_connections s') \<longrightarrow> ret = Some ErrEngineShutdown
                \<or> int (length (conn_inbound (el_get s' i))) \<le> resolveInboundLimit cfg)"
proof (cases "i \<in> set (el_connections s)")
  case False
  then show ?thesis using inv
    by (intro exI [of _ None] exI [of _ s] exI [of _ "[]"]) (simp add: el_read_def touches_def el_inv_def)
next
  case True
  then have ok: "conn_ok (el_get s i)" using inv by (auto simp: el_inv_def conn_inv_def split: if_splits)
  obtain r s1 where rs: "call_OnTraffic cfg i s = (r, s1)" by force
  with called_OnTraffic [OF ok] have c1: "called i (TOnTraffic i) s s1" by simp
  have inv1: "el_inv cfg others s1" by (rule called_inv [OF inv c1 True refl])
  have t1: "touches i [TOnTraffic i] s s1" and ok1: "conn_ok (el_get s1 i)" and m1: "i \<in> set (el_connections s1)"
    using c1 True by (auto simp: called_def)
  let ?goal = "\<lambda>x. \<exists>ret s' es. x = (Inr ret, s') \<and> el_inv cfg others s' \<and> touches i es s s' \<and> quiet es
           \<and> (i \<in> set (el_connections s') \<longrightarrow> ret = Some ErrEngineShutdown
                \<or> int (length (conn_inbound (el_get s' i))) \<le> resolveInboundLimit cfg)"
  have close: "?goal (el_close cfg s1 i err)" for err
    using el_close_inv [OF inv1, of i err] touches_trans [OF t1] by (fastforce simp: m1)
  have rec: "?goal (recover_close cfg s1 i err)" for err
    using recover_close_inv [OF inv1 m1, of err] touches_trans [OF t1] by fastforce
  from conn_okE [OF ok1] obtain b where b: "c_buffer (el_get s1 i) = Some b" "er_ok (c_inboundBuffer (el_get s1 i))"
    "conn_inbound (el_get s1 i) = er_contents (c_inboundBuffer (el_get s1 i)) @ b" by blast
  have total: "er_Buffered (c_inboundBuffer (el_get s1 i)) + bb_Len (lc_env cfg) b = length (conn_inbound (el_get s1 i))"
    by (simp add: b(3) bb elastic.buffered_law [OF b(2)])
  let ?n = "int (length (conn_inbound (el_get s1 i)))"
  have rest: "?goal (if ?n > resolveInboundLimit cfg then el_close cfg s1 i (Some errInboundOverflow)
      else (case conn_stash (lc_env cfg) (el_get s1 i) of
              Inl _ \<Rightarrow> recover_close cfg s1 i (OtherError ''panic in handler'')
            | Inr c2 \<Rightarrow> (Inr None, el_put i c2 s1)))"
  proof (cases "?n > resolveInboundLimit cfg")
    case True
    then show ?thesis using close by simp
  next
    case False
    then have "?n \<le> 2 ^ 59" using resolveInboundLimit_bounds by linarith
    then have "length (conn_inbound (el_get s1 i)) \<le> 2 ^ 59" by (metis of_nat_le_iff of_nat_numeral of_nat_power)
    from conn_stash_ok [OF ok1 this] obtain c2 where
      c2: "conn_stash (lc_env cfg) (el_get s1 i) = Inr c2" "conn_ok c2" "conn_inbound c2 = conn_inbound (el_get s1 i)" by blast
    with put_inv [OF inv1 m1 c2(2)] touches_trans [OF t1] False show ?thesis by fastforce
  qed
  have "el_read cfg s (Some i) = (case r of
        Inl _ \<Rightarrow> recover_close cfg s1 i (OtherError ''panic in handler'')
      | Inr ActClose \<Rightarrow> el_close cfg s1 i None
      | Inr ActShutdown \<Rightarrow> (Inr (Some ErrEngineShutdown), s1)
      | Inr _ \<Rightarrow> (if ?n > resolveInboundLimit cfg then el_close cfg s1 i (Some errInboundOverflow)
          else (case conn_stash (lc_env cfg) (el_get s1 i) of
              Inl _ \<Rightarrow> recover_close cfg s1 i (OtherError ''panic in handler'')
            | Inr c2 \<Rightarrow> (Inr None, el_put i c2 s1))))"
    using True rs b(1) by (simp add: el_read_def Let_def total split: sum.splits Action.splits)
  moreover have "?goal (Inr (Some ErrEngineShutdown), s1)" using inv1 t1 by fastforce
  ultimately show ?thesis using close rec rest by (auto split: sum.splits Action.splits)
qed

lemma el_wake_inv:
  assumes inv: "el_inv cfg others s"
  shows "\<exists>es. el_inv cfg others (snd (el_wake cfg s i)) \<and> touches i es s (snd (el_wake cfg s i)) \<and> quiet es"
proof (cases "i \<in> set (el_connections s)")
  case False
  then show ?thesis using inv by (intro exI [of _ "[]"]) (simp add: el_wake_def touches_def el_inv_def)
next
  case True
  then have ok: "conn_ok (el_get s i)" using inv by (auto simp: el_inv_def conn_inv_def split: if_splits)
  obtain r s1 where rs: "call_OnTraffic cfg i s = (r, s1)" by force
  with called_OnTraffic [OF ok] have c1: "called i (TOnTraffic i) s s1" by simp
  have inv1: "el_inv cfg others s1" by (rule called_inv [OF inv c1 True refl])
  have t1: "touches i [TOnTraffic i] s s1" using c1 by (simp add: called_def)
  show ?thesis
  proof (cases r)
    case (Inl p)
    then show ?thesis using True rs inv1 t1 by (fastforce simp: el_wake_def)
  next
    case (Inr a)
    from el_handleAction_inv [OF inv1, of i a] obtain ret s2 es where
      s2: "el_handleAction cfg s1 i a = (Inr ret, s2)" "el_inv cfg others s2" "touches i es s1 s2" "quiet es" by blast
    then show ?thesis using True rs Inr touches_trans [OF t1 s2(3)] by (fastforce simp: el_wake_def)
  qed
qed

lemma pending_not_member: "el_inv cfg others s \<Longrightarrow> pending s i \<Longrightarrow> i \<notin> set (el_connections s)"
  by (auto simp: el_inv_def conn_inv_def pending_def split: if_splits dest!: spec [of _ i])

lemma pending_other: "touches j es s s' \<Longrightarrow> i \<noteq> j \<Longrightarrow> pending s i \<Longrightarrow> pending s' i"
  by (simp add: pending_def touches_phase touches_conn_ok)

lemma el_inv_cong:
  assumes "el_inv cfg others s" "\<And>j. phase_of j (el_trace s') = phase_of j (el_trace s)" "\<And>j. el_get s' j = el_get s j"
    "el_connections s' = el_connections s" "el_pool s' = el_pool s" "el_connCount s' = el_connCount s"
    "el_totalConn s' = el_totalConn s"
  shows "el_inv cfg others s'"
proof -
  have "conn_inv s' j = conn_inv s j" for j using assms by (simp add: conn_inv_def)
  moreover have "quota_inv cfg others s' = quota_inv cfg others s" using assms by (simp add: quota_inv_def)
  ultimately show ?thesis using assms by (simp add: el_inv_def)
qed

text \<open>A rejected connection: the quota is restored, the socket closed and the buffers released.\<close>

lemma reject_inv:
  assumes inv: "el_inv cfg others s" and p: "pending s i"
  shows "\<exists>s'. close_and_release cfg i s = (Inr (), s') \<and> el_inv cfg others s' \<and> touches i [TRawClose i] s s'"
proof -
  have nm: "i \<notin> set (el_connections s)" by (rule pending_not_member [OF inv p])
  from p close_and_release_ok [of s i] obtain s' where
    s': "close_and_release cfg i s = (Inr (), s')" "touches i [TRawClose i] s s'" "el_connections s' = el_connections s"
      "el_connCount s' = el_connCount s" "el_totalConn s' = el_totalConn s" by (auto simp: pending_def)
  have "phase_of i (el_trace s') = Some Released" using s'(2) p by (simp add: touches_def phase_of_append pending_def)
  then have "conn_inv s' i" using nm s'(3) by (simp add: conn_inv_def)
  moreover have "\<forall>j. conn_inv s j" using inv by (simp add: el_inv_def)
  ultimately have "\<forall>j. conn_inv s' j" using conn_inv_all [OF s'(2)] by blast
  moreover have "quota_inv cfg others s'" using inv s' by (auto simp: el_inv_def quota_inv_def)
  ultimately show ?thesis using s' inv by (simp add: el_inv_def touches_def)
qed

lemma callback_inv:
  assumes "el_inv cfg others s"
  shows "el_inv cfg others (el_callback cb i err s)"
    and "touches i (if cb then [TCallback i err] else []) s (el_callback cb i err s)"
proof -
  have ph: "phase_of j (el_trace (el_callback cb i err s)) = phase_of j (el_trace s)" for j
    by (auto simp: el_callback_def el_log_def phase_of_append split: bind_splits)
  have g: "el_get (el_callback cb i err s) j = el_get s j" for j
    by (simp add: el_callback_def el_log_def el_get_def)
  have f: "el_connections (el_callback cb i err s) = el_connections s" "el_pool (el_callback cb i err s) = el_pool s"
    "el_connCount (el_callback cb i err s) = el_connCount s" "el_totalConn (el_callback cb i err s) = el_totalConn s"
    by (simp_all add: el_callback_def el_log_def)
  show "el_inv cfg others (el_callback cb i err s)" by (rule el_inv_cong [OF assms ph g f(1,2,3,4)])
  show "touches i (if cb then [TCallback i err] else []) s (el_callback cb i err s)"
    using assms by (simp add: touches_def el_inv_def f) (simp add: el_callback_def el_log_def)
qed

text \<open>The state right after \<open>OnOpen\<close> of an accepted connection.\<close>

lemma accept_inv:
  assumes inv: "el_inv cfg others s" and p: "pending s i"
    and room: "lc_MaxConn cfg > 0 \<longrightarrow> el_totalConn s + 1 \<le> lc_MaxConn cfg"
  defines "s1 \<equiv> el_incConn 1 ((if lc_MaxConn cfg > 0 then el_addTotal 1 s else s)
                    \<lparr>el_connections := i # removeAll i (el_connections s)\<rparr>)"
  shows "el_inv cfg others (snd (call_OnOpen cfg i s1))" and "touches i [TOnOpen i] s (snd (call_OnOpen cfg i s1))"
    and "i \<in> set (el_connections (snd (call_OnOpen cfg i s1)))"
proof -
  let ?s2 = "snd (call_OnOpen cfg i s1)"
  have nm: "i \<notin> set (el_connections s)" by (rule pending_not_member [OF inv p])
  have conns: "el_connections s1 = i # el_connections s"
    using nm by (simp add: s1_def el_incConn_def el_addTotal_def removeAll_id)
  have f: "el_heap s1 = el_heap s" "el_pool s1 = el_pool s" "el_trace s1 = el_trace s"
    "el_connCount s1 = go_int32 (el_connCount s + 1)"
    "el_totalConn s1 = (if lc_MaxConn cfg > 0 then go_int32 (el_totalConn s + 1) else el_totalConn s)"
    by (simp_all add: s1_def el_incConn_def el_addTotal_def)
  have ok1: "conn_ok (el_get s1 i)" using p f by (simp add: pending_def el_get_def)
  note c = called_OnOpen [OF ok1]
  have t0: "touches i [] s s1" using inv f conns by (simp add: touches_def el_inv_def)
  show t: "touches i [TOnOpen i] s ?s2" using touches_trans [OF t0] c by (fastforce simp: called_def)
  show m: "i \<in> set (el_connections ?s2)" using c conns by (simp add: called_def)
  have "phase_of i (el_trace ?s2) = Some Opened" using t p by (simp add: touches_def phase_of_append pending_def)
  then have "conn_inv ?s2 i" using m c by (simp add: conn_inv_def called_def)
  moreover have "\<forall>j. conn_inv s j" using inv by (simp add: el_inv_def)
  ultimately have "\<forall>j. conn_inv ?s2 j" using conn_inv_all [OF t] by blast
  moreover have "quota_inv cfg others ?s2"
    using inv c room f conns by (auto simp: el_inv_def quota_inv_def called_def go_int32_id)
  ultimately show "el_inv cfg others ?s2"
    using inv c f conns t nm by (simp add: el_inv_def called_def touches_def add.commute)
qed

lemma user_inv: "el_inv cfg others s \<Longrightarrow> el_inv cfg others (s\<lparr>el_user := u\<rparr>)" "touches i es s0 s \<Longrightarrow> touches i es s0 (s\<lparr>el_user := u\<rparr>)"
  by (erule el_inv_cong) (simp_all add: touches_def el_get_def)

text \<open>The result of \<open>open\<close>: the connection's trace, then exactly one callback if one was asked for.\<close>

definition open_result :: "int \<Rightarrow> nat \<Rightarrow> bool \<Rightarrow> 'u eventloop \<Rightarrow> go_error option go \<times> 'u eventloop \<Rightarrow> bool" where
  "open_result others i cb s x \<longleftrightarrow> (\<exists>ret s' es err. x = (Inr ret, s') \<and> el_inv cfg others s'
     \<and> touches i (es @ (if cb then [TCallback i err] else [])) s s' \<and> quiet es)"

lemma open_resultI:
  assumes "el_inv cfg others s1" "touches i es s s1" "quiet es"
  shows "open_result others i cb s (Inr ret, el_callback cb i err s1)"
  unfolding open_result_def
  using callback_inv [OF assms(1), where cb = cb and i = i and err = err] touches_trans [OF assms(2)] assms(3) by blast

lemma el_open_inv:
  assumes inv: "el_inv cfg others s" and p: "pending s i"
  shows "open_result others i cb s (el_open cfg s i cb)"
proof -
  define s1 where "s1 = (if lc_MaxConn cfg > 0 then el_addTotal 1 s else s)"
  have tot: "el_totalConn s1 = el_totalConn s + 1" if "lc_MaxConn cfg > 0"
    using inv that by (auto simp: s1_def el_addTotal_def el_inv_def quota_inv_def go_int32_id)
  show ?thesis
  proof (cases "lc_MaxConn cfg > 0 \<and> el_totalConn s1 > lc_MaxConn cfg")
    case True
    then have undo: "el_addTotal (- 1) s1 = s" using inv
      by (simp add: s1_def el_addTotal_def el_inv_def quota_inv_def go_int32_id)
    from reject_inv [OF inv p] obtain s' where
      s': "close_and_release cfg i s = (Inr (), s')" "el_inv cfg others s'" "touches i [TRawClose i] s s'" by blast
    have "el_open cfg s i cb = (Inr None, el_callback cb i (Some ErrMaxConnRejected) s')"
    proof -
      have "el_addTotal 1 s = s1" using True by (simp add: s1_def)
      then show ?thesis using True s'(1) by (simp add: el_open_def Let_def undo)
    qed
    then show ?thesis using open_resultI [OF s'(2,3)] by simp
  next
    case False
    define s2 where "s2 = el_incConn 1 (s1\<lparr>el_connections := i # removeAll i (el_connections s)\<rparr>)"
    have conns: "el_connections s1 = el_connections s" by (simp add: s1_def el_addTotal_def)
    have room: "lc_MaxConn cfg > 0 \<longrightarrow> el_totalConn s + 1 \<le> lc_MaxConn cfg" using False tot by auto
    obtain r s3 where rs: "call_OnOpen cfg i s2 = (r, s3)" by force
    note acc = accept_inv [OF inv p room, folded s1_def, folded s2_def, unfolded rs, simplified]
    show ?thesis
    proof (cases r)
      case (Inl q)
      from recover_close_inv [OF acc(1,3), of "OtherError ''panic in OnOpen''"] obtain ret s4 es where
        s4: "recover_close cfg s3 i (OtherError ''panic in OnOpen'') = (Inr ret, s4)" "el_inv cfg others s4"
          "touches i es s3 s4" "quiet es" by blast
      have "el_open cfg s i cb = (Inr None, el_callback cb i (Some (OtherError ''panic in OnOpen'')) s4)"
        using False rs Inl s4(1) conns by (auto simp: el_open_def Let_def simp flip: s1_def s2_def)
      then show ?thesis using open_resultI [OF s4(2) touches_trans [OF acc(2) s4(3)]] s4(4) by auto
    next
      case (Inr oa)
      obtain out a where oa: "oa = (out, a)" by force
      obtain werr u where w: "(case out of None \<Rightarrow> (None, el_user s3) | Some o' \<Rightarrow> lc_raw_Write cfg i o' (el_user s3)) = (werr, u)"
        by force
      let ?s4 = "s3\<lparr>el_user := u\<rparr>"
      have inv4: "el_inv cfg others ?s4" "touches i [TOnOpen i] s ?s4" using acc(1,2) by (auto intro: user_inv)
      have run: "el_open cfg s i cb = (case werr of Some e \<Rightarrow> (Inr (Some e), el_callback cb i None ?s4)
          | None \<Rightarrow> (let (ret, s5) = el_handleAction cfg ?s4 i a in (ret, el_callback cb i None s5)))"
        using False rs Inr oa w conns by (auto simp: el_open_def Let_def simp flip: s1_def s2_def)
      from el_handleAction_inv [OF inv4(1), of i a] obtain ret s5 es where
        s5: "el_handleAction cfg ?s4 i a = (Inr ret, s5)" "el_inv cfg others s5" "touches i es ?s4 s5"
          "quiet es" by blast
      show ?thesis
        using run s5(1) open_resultI [OF inv4] open_resultI [OF s5(2) touches_trans [OF inv4(2) s5(3)]] s5(4)
        by (cases werr) simp_all
    qed
  qed
qed

subsection \<open>Sequences of events\<close>

lemma awaited_opens: "awaited q \<subseteq> set (opens q)"
  by (induction q rule: opens.induct) auto

lemma queue_ok_tail: "queue_ok s (ev # q) \<Longrightarrow> queue_ok s q"
  by (cases ev) (auto simp: queue_ok_def)

lemma queue_ok_touched:
  assumes "queue_ok s q" "touches i es s s'" "i \<in> set (opens q) \<Longrightarrow> pending s' i"
  shows "queue_ok s' q"
  using assms pending_other [OF assms(2)] unfolding queue_ok_def by metis

text \<open>What an event on connection \<open>i\<close> leaves behind.\<close>

definition handled :: "int \<Rightarrow> 'u event list \<Rightarrow> nat \<Rightarrow> 'u eventloop \<Rightarrow> 'u eventloop \<Rightarrow> bool" where
  "handled others q i s s' \<longleftrightarrow> el_inv cfg others s' \<and> queue_ok s' q \<and> (\<exists>es. touches i es s s' \<and> quiet es)"

lemma handled_refl: "el_inv cfg others s \<Longrightarrow> queue_ok s q \<Longrightarrow> handled others q i s s"
  by (auto simp: handled_def touches_def el_inv_def intro: exI [of _ "[]"])

lemma handled_open:
  assumes "el_inv cfg others s" "queue_ok s q" "i \<in> set (el_connections s)" "el_inv cfg others s'" "touches i es s s'" "quiet es"
  shows "handled others q i s s'"
proof -
  have "i \<notin> set (opens q)" using pending_not_member [OF assms(1)] assms(2,3) by (auto simp: queue_ok_def)
  then show ?thesis using assms queue_ok_touched [OF assms(2,5)] by (auto simp: handled_def)
qed

lemma handled_close:
  assumes "el_inv cfg others s" "queue_ok s q"
  shows "handled others q i s (snd (el_close cfg s i err))"
proof (cases "i \<in> set (el_connections s)")
  case True
  then show ?thesis using el_close_inv [OF assms(1), of i err] handled_open [OF assms True] by auto
qed (use handled_refl [OF assms] el_close_stale in simp)

lemma handled_wake:
  assumes "el_inv cfg others s" "queue_ok s q"
  shows "handled others q i s (snd (el_wake cfg s i))"
proof (cases "i \<in> set (el_connections s)")
  case True
  then show ?thesis using el_wake_inv [OF assms(1), of i] handled_open [OF assms True] by blast
qed (use handled_refl [OF assms] in \<open>simp add: el_wake_def\<close>)

text \<open>Bytes for a connection that is not registered only change its packet buffer.\<close>

lemma handled_tcp_stale:
  assumes inv: "el_inv cfg others s" and q: "queue_ok s q" and i: "i \<notin> set (el_connections s)" and b: "b \<noteq> None"
  shows "handled others q i s (el_put i ((el_get s i)\<lparr>c_buffer := b\<rparr>) s)" (is "handled _ _ _ _ ?s'")
proof -
  have pool: "el_pool ?s' = el_pool s" by (simp add: el_put_def el_get_def)
  then have t: "touches i [] s ?s'" using inv by (simp add: touches_def el_inv_def) (simp add: el_put_def)
  have f: "el_connections ?s' = el_connections s" "el_trace ?s' = el_trace s" "el_connCount ?s' = el_connCount s"
    "el_totalConn ?s' = el_totalConn s" by (simp_all add: el_put_def)
  have "conn_inv s i" and all: "\<forall>j. conn_inv s j" using inv by (auto simp: el_inv_def)
  then have "conn_inv ?s' i" using i f by (simp add: conn_inv_def)
  then have "\<forall>j. conn_inv ?s' j" using conn_inv_all [OF t all] by blast
  moreover have "quota_inv cfg others ?s'" using inv f by (auto simp: el_inv_def quota_inv_def)
  ultimately have "el_inv cfg others ?s'" using inv f pool by (simp add: el_inv_def)
  moreover have "pending ?s' i" if "pending s i"
    using that b f by (simp add: pending_def) (simp add: conn_ok_def)
  then have "queue_ok ?s' q" using q by (intro queue_ok_touched [OF q t]) (auto simp: queue_ok_def)
  ultimately show ?thesis using t by (auto simp: handled_def)
qed

lemma handled_tcp:
  assumes inv: "el_inv cfg others s" and q: "queue_ok s q"
  shows "handled others q i s (snd (el_handleEvent cfg s (EvTcp i tc)))"
proof (cases "c_buffer (el_get s i)")
  case None
  then show ?thesis using handled_refl [OF assms] by (simp add: el_handleEvent_def unpackTCPConn_def el_read_def)
next
  case (Some b)
  show ?thesis
  proof (cases "tc_b tc")
    case None
    then show ?thesis using handled_refl [OF assms] Some by (simp add: el_handleEvent_def unpackTCPConn_def)
  next
    case p: (Some p)
    let ?c = "(el_get s i)\<lparr>c_buffer := Some (bb_Write (lc_env cfg) b p)\<rparr>"
    have run: "el_handleEvent cfg s (EvTcp i tc) = el_read cfg (el_put i ?c s) (Some i)"
      using Some p by (simp add: el_handleEvent_def unpackTCPConn_def)
    show ?thesis
    proof (cases "i \<in> set (el_connections s)")
      case True
      then have "conn_ok ?c" using inv by (auto simp: el_inv_def conn_inv_def conn_ok_def split: if_splits)
      note put = put_inv [OF inv True this]
      from el_read_inv [OF put(1), of i] obtain s' es where
        s': "snd (el_read cfg (el_put i ?c s) (Some i)) = s'" "el_inv cfg others s'" "touches i es (el_put i ?c s) s'" "quiet es"
        by auto
      then show ?thesis using run handled_open [OF inv q True s'(2) touches_trans [OF put(2) s'(3)]] by simp
    next
      case False
      then have "el_read cfg (el_put i ?c s) (Some i) = (Inr None, el_put i ?c s)" by (simp add: el_read_def el_put_def)
      then show ?thesis using run handled_tcp_stale [OF assms False] by simp
    qed
  qed
qed

text \<open>Any event other than an open leaves the callbacks alone.\<close>

lemma el_handleEvent_other:
  assumes inv: "el_inv cfg others s" and q: "queue_ok s q" and ev: "\<forall>i cb. ev \<noteq> EvOpen i cb"
  shows "\<exists>i. handled others q i s (snd (el_handleEvent cfg s ev))"
proof (cases ev)
  case (EvTask f)
  obtain r u where ru: "f (el_user s) = (r, u)" by force
  have t: "touches 0 [] s (s\<lparr>el_user := u\<rparr>)" using inv by (simp add: touches_def el_inv_def)
  have "pending (s\<lparr>el_user := u\<rparr>) 0" if "pending s 0" using that by (simp add: pending_def el_get_def)
  then have "queue_ok (s\<lparr>el_user := u\<rparr>) q" using q by (intro queue_ok_touched [OF q t]) (auto simp: queue_ok_def)
  then have "handled others q 0 s (s\<lparr>el_user := u\<rparr>)" using user_inv(1) [OF inv] t by (fastforce simp: handled_def)
  then show ?thesis using EvTask ru by (auto simp: el_handleEvent_def)
next
  case (EvTcp i tc)
  then show ?thesis using handled_tcp [OF inv q] by blast
next
  case (EvClose i)
  then show ?thesis using handled_close [OF inv q] by (auto simp: el_handleEvent_def)
next
  case (EvNetErr i err)
  then show ?thesis using handled_close [OF inv q] by (auto simp: el_handleEvent_def)
next
  case (EvWake i)
  then show ?thesis using handled_wake [OF inv q, of i] by (auto simp: el_handleEvent_def)
next
  case (EvError e)
  then show ?thesis using handled_refl [OF inv q] by (auto simp: el_handleEvent_def)
qed (use ev in simp)

text \<open>A step that took one event: the invariant is kept, the rest of the queue stays ready, and a callback is
  made exactly for an open that asked for one.\<close>

definition took :: "int \<Rightarrow> 'u event list \<Rightarrow> 'u event list \<Rightarrow> 'u eventloop \<Rightarrow> 'u eventloop \<Rightarrow> bool" where
  "took others evs q s s' \<longleftrightarrow> el_inv cfg others s' \<and> queue_ok s' q
     \<and> (\<exists>es. el_trace s' = el_trace s @ es \<and> (\<forall>i. callbacks i es = (if i \<in> awaited evs then 1 else 0)))"

lemma el_safeHandle_took:
  assumes inv: "el_inv cfg others s" and q: "queue_ok s (ev # q)"
  shows "took others [ev] q s (snd (el_safeHandle cfg s ev))"
proof -
  note q' = queue_ok_tail [OF q]
  have same: "snd (el_safeHandle cfg s ev) = snd (el_handleEvent cfg s ev)"
    by (auto simp: el_safeHandle_def split: prod.splits sum.splits)
  show ?thesis
  proof (cases "\<exists>i cb. ev = EvOpen i cb")
    case True
    then obtain i cb where ev: "ev = EvOpen i cb" by blast
    with q have p: "pending s i" "i \<notin> set (opens q)" by (auto simp: queue_ok_def)
    from el_open_inv [OF inv p(1), of cb] obtain s' es err where
      s': "snd (el_open cfg s i cb) = s'" "el_inv cfg others s'" "touches i (es @ (if cb then [TCallback i err] else [])) s s'" "quiet es"
      by (auto simp: open_result_def)
    moreover have "queue_ok s' q" using queue_ok_touched [OF q' s'(3)] p(2) by blast
    ultimately have "took others [ev] q s (snd (el_handleEvent cfg s ev))" unfolding ev took_def
      by (auto simp: el_handleEvent_def touches_def intro!: exI [of _ "es @ (if cb then [TCallback i err] else [])"])
    then show ?thesis by (simp add: same)
  next
    case False
    then have "\<forall>i cb. ev \<noteq> EvOpen i cb" by blast
    from el_handleEvent_other [OF inv q' this] obtain i es where
      h: "el_inv cfg others (snd (el_handleEvent cfg s ev))" "queue_ok (snd (el_handleEvent cfg s ev)) q"
        "touches i es s (snd (el_handleEvent cfg s ev))" "quiet es" by (auto simp: handled_def)
    moreover have "awaited [ev] = {}" using False by (cases ev) auto
    ultimately show ?thesis unfolding same took_def by (auto simp: touches_def intro!: exI [of _ es])
  qed
qed

lemma took_nil: "el_inv cfg others s \<Longrightarrow> queue_ok s q \<Longrightarrow> took others [] q s s"
  by (simp add: took_def)

lemma awaited_Cons: "awaited (ev # q) = awaited [ev] \<union> awaited q"
  by (cases ev) auto

lemma took_trans:
  assumes "queue_ok s (ev # q)" "took others [ev] q s s1" "took others q r s1 s2"
  shows "took others (ev # q) r s s2"
proof -
  obtain es es' where e: "el_trace s1 = el_trace s @ es" "\<forall>i. callbacks i es = (if i \<in> awaited [ev] then 1 else 0)"
    "el_trace s2 = el_trace s1 @ es'" "\<forall>i. callbacks i es' = (if i \<in> awaited q then 1 else 0)"
    using assms(2,3) by (auto simp: took_def)
  have "awaited [ev] \<inter> awaited q = {}"
    using assms(1) awaited_opens [of q] by (cases ev) (auto simp: queue_ok_def)
  then have "\<forall>i. callbacks i (es @ es') = (if i \<in> awaited (ev # q) then 1 else 0)"
    using e(2,4) awaited_Cons [of ev q] by auto
  then show ?thesis using assms(3) e unfolding took_def by (auto intro!: exI [of _ "es @ es'"])
qed

lemma reject_took:
  assumes "el_inv cfg others s" "queue_ok s q"
  shows "\<exists>s'. el_rejectRemaining cfg s q = (Inr (), s') \<and> took others q [] s s'"
  using assms
proof (induction q arbitrary: s)
  case Nil
  then show ?case using took_nil by auto
next
  case (Cons ev q)
  note q' = queue_ok_tail [OF Cons.prems(2)]
  show ?case
  proof (cases "\<exists>i cb. ev = EvOpen i cb")
    case True
    then obtain i cb where ev: "ev = EvOpen i cb" by blast
    with Cons.prems have p: "pending s i" "i \<notin> set (opens q)" by (auto simp: queue_ok_def)
    from reject_inv [OF Cons.prems(1) p(1)] obtain s1 where
      s1: "close_and_release cfg i s = (Inr (), s1)" "el_inv cfg others s1" "touches i [TRawClose i] s s1" by blast
    let ?s2 = "el_callback cb i (Some ErrEngineShutdown) s1"
    note cb = callback_inv [OF s1(2), where cb = cb and i = i and err = "Some ErrEngineShutdown"]
    note t = touches_trans [OF s1(3) cb(2)]
    have "queue_ok ?s2 q" using queue_ok_touched [OF q' t] p(2) by blast
    then have took: "took others [ev] q s ?s2"
      using cb(1) t unfolding took_def ev by (auto simp: touches_def intro!: exI [of _ "[TRawClose i] @ (if cb then [TCallback i (Some ErrEngineShutdown)] else [])"])
    from Cons.IH [OF cb(1) \<open>queue_ok ?s2 q\<close>] obtain s' where
      "el_rejectRemaining cfg ?s2 q = (Inr (), s')" "took others q [] ?s2 s'" by blast
    then show ?thesis using took_trans [OF Cons.prems(2) took] s1(1) ev by auto
  next
    case False
    have "took others [ev] q s s" using Cons.prems(1) q' False by (cases ev) (auto simp: took_def)
    moreover have "el_rejectRemaining cfg s (ev # q) = el_rejectRemaining cfg s q" using False by (cases ev) auto
    ultimately show ?thesis using Cons.IH [OF Cons.prems(1) q'] took_trans [OF Cons.prems(2)] by auto
  qed
qed

lemma drain_took:
  assumes "el_inv cfg others s" "queue_ok s q"
  shows "\<exists>s'. el_drain cfg late s q = (Inr (), s') \<and> took others q [] s s'"
  using assms
proof (induction q arbitrary: s late)
  case Nil
  then show ?case using took_nil by auto
next
  case (Cons ev q)
  note tk = el_safeHandle_took [OF Cons.prems]
  let ?s1 = "snd (el_safeHandle cfg s ev)"
  have s1: "el_inv cfg others ?s1" "queue_ok ?s1 q" using tk by (auto simp: took_def)
  have ih: "\<exists>s'. el_drain cfg late' ?s1 q = (Inr (), s') \<and> took others (ev # q) [] s s'" for late'
    using Cons.IH [OF s1, of late'] took_trans [OF Cons.prems(2) tk] by blast
  have rj: "\<exists>s'. el_rejectRemaining cfg ?s1 q = (Inr (), s') \<and> took others (ev # q) [] s s'"
    using reject_took [OF s1] took_trans [OF Cons.prems(2) tk] by blast
  show ?case
  proof (cases late)
    case (Cons l ls)
    then show ?thesis using ih [of ls] rj by (cases l) (auto simp: Let_def)
  qed (use ih [of "[]"] in \<open>auto simp: Let_def\<close>)
qed

lemma queue_ok_append: "queue_ok s (p @ q) \<Longrightarrow> queue_ok s p"
proof -
  have "opens (p @ q) = opens p @ opens q" by (induction p rule: opens.induct) auto
  then show "queue_ok s (p @ q) \<Longrightarrow> queue_ok s p" by (auto simp: queue_ok_def)
qed

lemma el_events_took:
  assumes "el_inv cfg others s" "queue_ok s (taken @ queued)"
  shows "\<exists>seen rest. taken = seen @ rest \<and> took others seen (rest @ queued) s (snd (el_events cfg s taken))
           \<and> (fst (el_events cfg s taken) \<longrightarrow> rest = [])"
  using assms
proof (induction taken arbitrary: s)
  case Nil
  then show ?case using took_nil by auto
next
  case (Cons ev taken)
  have q: "queue_ok s (ev # taken @ queued)" using Cons.prems(2) by simp
  note tk = el_safeHandle_took [OF Cons.prems(1) q]
  obtain err s1 where s1: "el_safeHandle cfg s ev = (err, s1)" by force
  show ?case
  proof (cases "err = Some ErrEngineShutdown")
    case True
    then show ?thesis using tk s1 by (intro exI [of _ "[ev]"] exI [of _ taken]) auto
  next
    case False
    have "el_inv cfg others s1" "queue_ok s1 (taken @ queued)" using tk s1 by (auto simp: took_def)
    from Cons.IH [OF this] obtain seen rest where
      ih: "taken = seen @ rest" "took others seen (rest @ queued) s1 (snd (el_events cfg s1 taken))"
        "fst (el_events cfg s1 taken) \<longrightarrow> rest = []" by blast
    have "queue_ok s (ev # seen)" using q ih(1) queue_ok_append [of s "ev # seen" "rest @ queued"] by simp
    moreover have "took others [ev] seen s s1"
      using tk s1 ih(1) queue_ok_append [of s1 seen "rest @ queued"] by (auto simp: took_def)
    ultimately have "took others (ev # seen) (rest @ queued) s (snd (el_events cfg s1 taken))"
      using took_trans ih(2) by blast
    then show ?thesis using s1 False ih by (intro exI [of _ "ev # seen"] exI [of _ rest]) auto
  qed
qed

lemma took_append:
  assumes "queue_ok s (p @ q)" "took others p q s s1" "took others q r s1 s2"
  shows "took others (p @ q) r s s2"
proof -
  obtain es es' where e: "el_trace s1 = el_trace s @ es" "\<forall>i. callbacks i es = (if i \<in> awaited p then 1 else 0)"
    "el_trace s2 = el_trace s1 @ es'" "\<forall>i. callbacks i es' = (if i \<in> awaited q then 1 else 0)"
    using assms(2,3) by (auto simp: took_def)
  have o: "opens (p @ q) = opens p @ opens q" by (induction p rule: opens.induct) auto
  have a: "awaited (p @ q) = awaited p \<union> awaited q" by (induction p rule: awaited.induct) auto
  have "awaited p \<inter> awaited q = {}"
    using assms(1) awaited_opens [of q] awaited_opens [of p] by (auto simp: queue_ok_def o)
  then have "\<forall>i. callbacks i (es @ es') = (if i \<in> awaited (p @ q) then 1 else 0)" using e(2,4) a by auto
  then show ?thesis using assms(3) e unfolding took_def by (auto intro!: exI [of _ "es @ es'"])
qed

lemma closeAll_inv:
  assumes "el_inv cfg others s" "set (el_connections s) \<subseteq> set is"
  shows "el_inv cfg others (el_closeAll cfg s is) \<and> el_connections (el_closeAll cfg s is) = []
     \<and> (\<exists>es. el_trace (el_closeAll cfg s is) = el_trace s @ es \<and> quiet es)"
  using assms
proof (induction "is" arbitrary: s)
  case Nil
  then show ?case by auto
next
  case (Cons i "is")
  let ?es = "if i \<in> set (el_connections s) then [TOnClose i None, TRawClose i] else []"
  from el_close_inv [OF Cons.prems(1), of i None] obtain s' where
    s': "snd (el_close cfg s i None) = s'" "el_inv cfg others s'" "touches i ?es s s'" "i \<notin> set (el_connections s')" by fastforce
  have "set (el_connections s') \<subseteq> set is"
    using s'(4) touches_member [OF s'(3)] Cons.prems(2) by fastforce
  from Cons.IH [OF s'(2) this] s'(1,3) show ?case
    by (auto simp: touches_def split: if_splits)
qed

lemma el_run_ok:
  assumes inv: "el_inv cfg others s" and q: "queue_ok s (taken @ queued)"
  shows "el_inv cfg others (el_run cfg late s taken queued) \<and> el_connections (el_run cfg late s taken queued) = []
     \<and> (fst (el_events cfg s taken) \<longrightarrow>
          (\<exists>es. el_trace (el_run cfg late s taken queued) = el_trace s @ es
             \<and> (\<forall>i. callbacks i es = (if i \<in> awaited (taken @ queued) then 1 else 0))))"
proof -
  obtain drains s1 where s1: "el_events cfg s taken = (drains, s1)" by force
  from el_events_took [OF assms] s1 obtain seen rest where
    ev: "taken = seen @ rest" "took others seen (rest @ queued) s s1" "drains \<longrightarrow> rest = []" by auto
  define s2 where "s2 = (if drains then snd (el_drain cfg late s1 queued) else s1)"
  have tk: "drains \<longrightarrow> took others (taken @ queued) [] s s2"
  proof
    assume drains
    then have seen: "took others taken queued s s1" using ev by simp
    then have "el_inv cfg others s1" "queue_ok s1 queued" by (auto simp: took_def)
    from drain_took [OF this, of late] obtain s2' where
      "el_drain cfg late s1 queued = (Inr (), s2')" "took others queued [] s1 s2'" by blast
    then show "took others (taken @ queued) [] s s2" using took_append [OF q seen] \<open>drains\<close> by (simp add: s2_def)
  qed
  then have inv2: "el_inv cfg others s2" using ev(2) by (cases drains) (auto simp: took_def s2_def)
  from closeAll_inv [OF inv2 order.refl] obtain es where
    c: "el_inv cfg others (el_closeAll cfg s2 (el_connections s2))" "el_connections (el_closeAll cfg s2 (el_connections s2)) = []"
      "el_trace (el_closeAll cfg s2 (el_connections s2)) = el_trace s2 @ es" "quiet es" by blast
  have run: "el_run cfg late s taken queued = el_closeAll cfg s2 (el_connections s2)"
    by (simp add: el_run_def s1 s2_def Let_def)
  show ?thesis unfolding run using c tk s1 by (auto simp: took_def)
qed

end

subsection \<open>An instance\<close>

text \<open>A server that greets every connection, reads whatever arrives and asks to close on an empty packet.\<close>

definition example_config :: "unit loop_config" where
  "example_config = \<lparr>lc_env = example_conn_env, lc_MaxConn = 1, lc_InboundBufferLimit = 0,
     lc_OnOpen = (\<lambda>i c u. (Inr (Some [72, 105], ActNone), c, u)),
     lc_OnTraffic = (\<lambda>i c u. if conn_inbound c = [] then (Inr ActClose, c, u) else
        (case conn_Next example_conn_env c 1 of Inr (_, _, c') \<Rightarrow> (Inr ActNone, c', u) | Inl p \<Rightarrow> (Inl p, c, u))),
     lc_OnClose = (\<lambda>i c e u. (Inr ActNone, c, u)),
     lc_raw_Write = (\<lambda>i o' u. (None, u))\<rparr>"

interpretation example_loop: loop_environment example_config
proof (rule loop_environment.intro)
  show "conn_environment (lc_env example_config)" by (simp add: example_config_def cenv.conn_environment_axioms)
  show "lc_InboundBufferLimit example_config \<le> 2 ^ 59" by (simp add: example_config_def)
  fix c i u r c' u'
  assume ok: "conn_ok c" and t: "lc_OnTraffic example_config i c u = (r, c', u')"
  show "conn_ok c'"
  proof (cases "conn_inbound c")
    case (Cons b bs)
    with cenv.conn_Next_ok [OF ok, of 1] t show ?thesis by (auto simp: example_config_def)
  qed (use ok t in \<open>simp add: example_config_def\<close>)
qed (auto simp: example_config_def)

definition example_loop_state :: "unit eventloop" where
  "example_loop_state = \<lparr>el_heap = (\<lambda>_. newStreamConn example_conn_env rp_builtinPool), el_connections = [],
     el_connCount = 0, el_totalConn = 0, el_pool = rp_builtinPool, el_user = (), el_trace = []\<rparr>"

lemma example_loop_ok: "el_inv example_config 0 example_loop_state" "pending example_loop_state i"
  by (simp_all add: el_inv_def conn_inv_def quota_inv_def example_loop_state_def rp_inv_builtin phase_of_def go_int32_def
      example_config_def pending_def conn_ok_el_get newStreamConn_def)

subsection \<open>Properties\<close>

text \<open>C2: while the loop handles events, for any handler that leaves its connections well-formed, panics
  included: the connection count is the number of registered connections; a connection is registered
  exactly while it has been opened and not closed; the handler sees every connection in the order opened,
  traffic, closed, and its socket is closed once, after that; and with a quota set, the engine-wide count
  is exact and never exceeds it.\<close>

theorem event_loop_invariant:
  assumes "loop_environment cfg" and "el_inv cfg others s" and "queue_ok s evs"
  shows "let s' = snd (el_events cfg s evs) in
     el_connCount s' = go_int32 (int (length (el_connections s'))) \<and> distinct (el_connections s')
     \<and> (\<forall>i. phase_of i (el_trace s') \<noteq> None \<and> (i \<in> set (el_connections s') \<longleftrightarrow> phase_of i (el_trace s') = Some Opened))
     \<and> (lc_MaxConn cfg > 0 \<longrightarrow>
          el_totalConn s' = others + int (length (el_connections s')) \<and> el_totalConn s' \<le> lc_MaxConn cfg)"
proof -
  have "queue_ok s (evs @ [])" using assms(3) by simp
  from loop_environment.el_events_took [OF assms(1,2) this] have inv: "el_inv cfg others (snd (el_events cfg s evs))"
    by (auto simp: loop_environment.took_def [OF assms(1)])
  then have all: "conn_inv (snd (el_events cfg s evs)) i" for i by (simp add: el_inv_def)
  have "phase_of i (el_trace (snd (el_events cfg s evs))) \<noteq> None \<and> (i \<in> set (el_connections (snd (el_events cfg s evs)))
      \<longleftrightarrow> phase_of i (el_trace (snd (el_events cfg s evs))) = Some Opened)" for i
    using all [of i] by (cases "i \<in> set (el_connections (snd (el_events cfg s evs)))") (auto simp: conn_inv_def)
  moreover have "quota_inv cfg others (snd (el_events cfg s evs))" using inv by (simp add: el_inv_def)
  ultimately show ?thesis using inv unfolding Let_def el_inv_def quota_inv_def by blast
qed

theorem event_loop_invariant_witness:
  "let s' = snd (el_events example_config example_loop_state [EvOpen 1 True, EvOpen 2 True, EvTcp 1 \<lparr>tc_b = Some [7, 8]\<rparr>])
   in el_totalConn s' = int (length (el_connections s')) \<and> el_totalConn s' \<le> 1"
proof -
  have "queue_ok example_loop_state [EvOpen 1 True, EvOpen 2 True, EvTcp 1 \<lparr>tc_b = Some [7, 8]\<rparr>]"
    using example_loop_ok(2) by (simp add: queue_ok_def)
  from event_loop_invariant [OF example_loop.loop_environment_axioms example_loop_ok(1) this]
  show ?thesis by (simp add: Let_def) (simp add: example_config_def)
qed



text \<open>A read event bounds what a connection may hold back: if the connection is still open afterwards and
  no shutdown was asked for, the bytes it retains are at most the inbound limit, which is at least one
  megabyte and 16 by default; otherwise the connection was closed.\<close>

theorem read_bounds_inbound:
  assumes "loop_environment cfg" and "el_inv cfg others s"
  shows "\<exists>ret s'. el_read cfg s (Some i) = (Inr ret, s')
     \<and> (i \<in> set (el_connections s') \<longrightarrow> ret \<noteq> Some ErrEngineShutdown \<longrightarrow>
          int (length (conn_inbound (el_get s' i))) \<le> resolveInboundLimit cfg)
     \<and> 1024 * 1024 \<le> resolveInboundLimit cfg
     \<and> (lc_InboundBufferLimit cfg \<le> 0 \<longrightarrow> resolveInboundLimit cfg = 16 * 1024 * 1024)"
proof -
  have "1024 * 1024 \<le> resolveInboundLimit cfg"
    "lc_InboundBufferLimit cfg \<le> 0 \<longrightarrow> resolveInboundLimit cfg = 16 * 1024 * 1024"
    by (simp_all add: resolveInboundLimit_def defaultInboundLimit_def minInboundLimit_def Let_def)
  then show ?thesis using loop_environment.el_read_inv [OF assms, of i] by metis
qed

theorem read_bounds_inbound_witness:
  "resolveInboundLimit example_config = 16 * 1024 * 1024 \<and> (\<exists>ret s'. el_read example_config example_loop_state (Some 1) = (Inr ret, s'))"
  using read_bounds_inbound [OF example_loop.loop_environment_axioms example_loop_ok(1), of 1]
  by (auto simp: example_config_def)

text \<open>An \<open>OnOpen\<close> that answers \<open>Close\<close> closes the connection, and yet the callback of \<open>open\<close> reports
  success: the waiting \<open>Dial\<close> gets a closed connection and no error.\<close>

theorem OnOpen_Close_reports_success:
  assumes "loop_environment cfg" and "el_inv cfg others s" and "pending s i" and "lc_MaxConn cfg = 0"
    and "\<And>c u. \<exists>c' u'. lc_OnOpen cfg i c u = (Inr (None, ActClose), c', u')"
  shows "\<exists>ret s'. el_open cfg s i True = (Inr ret, s') \<and> i \<notin> set (el_connections s')
     \<and> el_trace s' = el_trace s @ [TOnOpen i, TOnClose i None, TRawClose i, TCallback i None]"
proof -
  define s1 where "s1 = el_incConn 1 (s\<lparr>el_connections := i # removeAll i (el_connections s)\<rparr>)"
  obtain s2 where s2: "call_OnOpen cfg i s1 = (Inr (None, ActClose), s2)"
    using assms(5) [of "el_get s1 i" "el_user s1"] by (auto simp: call_OnOpen_def)
  have acc: "el_inv cfg others s2" "touches i [TOnOpen i] s s2" "i \<in> set (el_connections s2)"
    using loop_environment.accept_inv [OF assms(1-3)] assms(4) s2 by (simp_all add: s1_def)
  from loop_environment.el_close_inv [OF assms(1) acc(1), of i None] acc(3) obtain ret s3 where
    s3: "el_close cfg s2 i None = (Inr ret, s3)" "touches i [TOnClose i None, TRawClose i] s2 s3" "i \<notin> set (el_connections s3)"
    by auto
  have "el_open cfg s i True = (Inr ret, el_callback True i None s3)"
    using assms(4) s2 s3(1) by (simp add: el_open_def Let_def el_handleAction_def flip: s1_def)
  then show ?thesis using acc(2) s3 by (simp add: touches_def el_callback_def el_log_def)
qed

definition refusing_config :: "unit loop_config" where
  "refusing_config = example_config\<lparr>lc_MaxConn := 0, lc_OnOpen := (\<lambda>i c u. (Inr (None, ActClose), c, u))\<rparr>"

lemma refusing_environment: "loop_environment refusing_config"
proof (rule loop_environment.intro)
  show "conn_environment (lc_env refusing_config)" using example_loop.env by (simp add: refusing_config_def)
  show "lc_InboundBufferLimit refusing_config \<le> 2 ^ 59" by (simp add: refusing_config_def example_config_def)
  show "conn_ok c'" if "conn_ok c" "lc_OnTraffic refusing_config i c u = (r, c', u')" for c i u r c' u'
    using example_loop.OnTraffic_ok that by (simp add: refusing_config_def)
qed (auto simp: refusing_config_def example_config_def)

theorem OnOpen_Close_reports_success_witness:
  "\<exists>ret s'. el_open refusing_config example_loop_state 1 True = (Inr ret, s') \<and> 1 \<notin> set (el_connections s')
     \<and> TCallback 1 None \<in> set (el_trace s')"
proof -
  have "el_inv refusing_config 0 example_loop_state"
    using example_loop_ok(1) by (simp add: el_inv_def quota_inv_def refusing_config_def)
  from OnOpen_Close_reports_success [OF refusing_environment this example_loop_ok(2), of 1]
  obtain ret s' where s': "el_open refusing_config example_loop_state 1 True = (Inr ret, s')" "1 \<notin> set (el_connections s')"
    "el_trace s' = el_trace example_loop_state @ [TOnOpen 1, TOnClose 1 None, TRawClose 1, TCallback 1 None]"
    by (auto simp: refusing_config_def)
  then show ?thesis by auto
qed

end
