(* ===== verification/LoadBalancer.thy ===== *)
theory LoadBalancer
  imports Prelude "HOL-Library.Multiset"
begin

text \<open>
  The load balancers of \<^verbatim>\<open>contribute/agonet/load_balancer.go\<close>, which pick the event loop of a new
  connection: in turn, or by the smallest number of connections. A loop is its index and its connection
  count; \<open>None\<close> is the nil of an empty balancer.
\<close>

record loop_ref =
  lr_idx :: int
  lr_connCount :: int

record baseLoadBalancer =
  lb_eventLoops :: "loop_ref list"
  lb_size :: int

record roundRobinLoadBalancer =
  rr_base :: baseLoadBalancer
  rr_nextIndex :: "64 word"

definition lb_register :: "baseLoadBalancer \<Rightarrow> loop_ref \<Rightarrow> baseLoadBalancer" where
  "lb_register lb el = lb\<lparr>lb_eventLoops := lb_eventLoops lb @ [el\<lparr>lr_idx := lb_size lb\<rparr>], lb_size := lb_size lb + 1\<rparr>"

definition lb_index :: "baseLoadBalancer \<Rightarrow> int \<Rightarrow> loop_ref option go" where
  "lb_index lb i =
     (if i \<ge> lb_size lb then Inr None
      else if i < 0 then Inl IndexOutOfRange
      else go_bind (go_index (lb_eventLoops lb) (nat i)) (\<lambda>el. Inr (Some el)))"

definition lb_len :: "baseLoadBalancer \<Rightarrow> int" where
  "lb_len lb = lb_size lb"

text \<open>\<open>iterate\<close> visits the loops in order until the function answers false; the visited positions.\<close>

fun iterate_from :: "nat \<Rightarrow> (nat \<Rightarrow> loop_ref \<Rightarrow> bool) \<Rightarrow> loop_ref list \<Rightarrow> nat list" where
  "iterate_from i f [] = []"
| "iterate_from i f (el # els) = i # (if f i el then iterate_from (Suc i) f els else [])"

definition lb_iterate :: "baseLoadBalancer \<Rightarrow> (nat \<Rightarrow> loop_ref \<Rightarrow> bool) \<Rightarrow> nat list" where
  "lb_iterate lb f = iterate_from 0 f (lb_eventLoops lb)"

definition rr_next :: "roundRobinLoadBalancer \<Rightarrow> (loop_ref option \<times> roundRobinLoadBalancer) go" where
  "rr_next lb =
     (if lb_size (rr_base lb) = 0 then Inr (None, lb)
      else
        let lb' = lb\<lparr>rr_nextIndex := rr_nextIndex lb + 1\<rparr>; old = rr_nextIndex lb' - 1
        in go_bind (go_mod (unat old) (nat (lb_size (rr_base lb))))
             (\<lambda>k. go_bind (go_index (lb_eventLoops (rr_base lb)) k) (\<lambda>el. Inr (Some el, lb'))))"

fun least_loop :: "loop_ref \<Rightarrow> int \<Rightarrow> loop_ref list \<Rightarrow> loop_ref" where
  "least_loop el minN [] = el"
| "least_loop el minN (v # vs) =
     (if lr_connCount v < minN then least_loop v (lr_connCount v) vs else least_loop el minN vs)"

definition lc_next :: "baseLoadBalancer \<Rightarrow> loop_ref option go" where
  "lc_next lb =
     (if lb_size lb = 0 then Inr None
      else case lb_eventLoops lb of
             [] \<Rightarrow> Inl IndexOutOfRange
           | el # els \<Rightarrow> Inr (Some (least_loop el (lr_connCount el) els)))"

subsection \<open>Invariant\<close>

definition lb_inv :: "baseLoadBalancer \<Rightarrow> bool" where
  "lb_inv lb \<longleftrightarrow> lb_size lb = int (length (lb_eventLoops lb))
     \<and> map lr_idx (lb_eventLoops lb) = map int [0..<length (lb_eventLoops lb)]"

lemma lb_inv_register: "lb_inv lb \<Longrightarrow> lb_inv (lb_register lb el)"
  by (simp add: lb_inv_def lb_register_def)

lemma least_loop_min:
  assumes "lr_connCount el = minN"
  shows "least_loop el minN vs \<in> insert el (set vs)
     \<and> (\<forall>v\<in>insert el (set vs). lr_connCount (least_loop el minN vs) \<le> lr_connCount v)"
  using assms
proof (induction vs arbitrary: el minN)
  case (Cons v vs)
  show ?case
  proof (cases "lr_connCount v < minN")
    case True
    then show ?thesis using Cons.IH [of v "lr_connCount v"] Cons.prems by fastforce
  next
    case False
    then show ?thesis using Cons.IH [of el minN] Cons.prems by fastforce
  qed
qed simp

fun rr_run :: "roundRobinLoadBalancer \<Rightarrow> nat \<Rightarrow> (loop_ref list \<times> roundRobinLoadBalancer) go" where
  "rr_run lb 0 = Inr ([], lb)"
| "rr_run lb (Suc n) =
     go_bind (rr_next lb)
       (\<lambda>(el, lb1). go_bind (rr_run lb1 n)
          (\<lambda>(els, lb2). Inr ((case el of None \<Rightarrow> [] | Some e \<Rightarrow> [e]) @ els, lb2)))"

lemma rr_run_eq:
  assumes "lb_inv (rr_base lb)" and "lb_eventLoops (rr_base lb) \<noteq> []" and "unat (rr_nextIndex lb) + n < 2 ^ 64"
  shows "\<exists>lb'. rr_run lb n = Inr (map (\<lambda>k. lb_eventLoops (rr_base lb) ! (k mod length (lb_eventLoops (rr_base lb))))
                    [unat (rr_nextIndex lb)..<unat (rr_nextIndex lb) + n], lb')
           \<and> rr_base lb' = rr_base lb \<and> unat (rr_nextIndex lb') = unat (rr_nextIndex lb) + n"
  using assms
proof (induction n arbitrary: lb)
  case (Suc n)
  let ?lb = "lb\<lparr>rr_nextIndex := rr_nextIndex lb + 1\<rparr>" and ?els = "lb_eventLoops (rr_base lb)"
  have pos: "0 < length ?els" using Suc.prems(2) by simp
  have nx: "unat (rr_nextIndex lb + 1) = unat (rr_nextIndex lb) + 1"
    using Suc.prems(3) unat_add_lem [of "rr_nextIndex lb" 1] by simp
  have step: "rr_next lb = Inr (Some (?els ! (unat (rr_nextIndex lb) mod length ?els)), ?lb)"
    using Suc.prems(1) pos by (simp add: rr_next_def lb_inv_def go_mod_def go_index_def)
  have "unat (rr_nextIndex ?lb) + n < 2 ^ 64" using Suc.prems(3) nx by simp
  then obtain lb' where lb': "rr_run ?lb n = Inr (map (\<lambda>k. ?els ! (k mod length ?els))
       [unat (rr_nextIndex lb) + 1..<unat (rr_nextIndex lb) + 1 + n], lb')"
     "rr_base lb' = rr_base lb" "unat (rr_nextIndex lb') = unat (rr_nextIndex lb) + 1 + n"
    using Suc.IH [of ?lb] Suc.prems nx by auto
  have "[unat (rr_nextIndex lb)..<unat (rr_nextIndex lb) + Suc n]
      = unat (rr_nextIndex lb) # [unat (rr_nextIndex lb) + 1..<unat (rr_nextIndex lb) + 1 + n]"
    by (simp add: upt_conv_Cons del: upt_Suc)
  with step lb' show ?case by (simp del: upt_Suc)
qed simp

text \<open>Any \<open>m\<close> consecutive numbers cover every remainder modulo \<open>m\<close> once.\<close>

lemma mset_consecutive_mod:
  assumes "0 < m"
  shows "mset (map (\<lambda>k. k mod m) [a..<a + m]) = mset [0..<m]"
proof (induction a)
  case 0
  have "map (\<lambda>k. k mod m) [0..<m] = [0..<m]" by (intro nth_equalityI) auto
  then show ?case by simp
next
  case (Suc a)
  have "[a..<a + m] = a # [Suc a..<a + m]" using assms by (simp add: upt_conv_Cons)
  moreover have "[Suc a..<Suc a + m] = [Suc a..<a + m] @ [a + m]" using assms by simp
  ultimately have "mset (map (\<lambda>k. k mod m) [Suc a..<Suc a + m]) = mset (map (\<lambda>k. k mod m) [a..<a + m])" by simp
  then show ?case using Suc by simp
qed

subsection \<open>Properties\<close>

text \<open>Round robin is fair: as many consecutive calls of \<open>next\<close> as there are loops pick every loop exactly
  once, from whatever position (as long as the 64-bit counter does not wrap around meanwhile).\<close>

theorem round_robin_fair:
  assumes "lb_inv (rr_base lb)" and "lb_eventLoops (rr_base lb) \<noteq> []"
    and "unat (rr_nextIndex lb) + length (lb_eventLoops (rr_base lb)) < 2 ^ 64"
  shows "\<exists>els lb'. rr_run lb (length (lb_eventLoops (rr_base lb))) = Inr (els, lb') \<and> rr_base lb' = rr_base lb
           \<and> mset els = mset (lb_eventLoops (rr_base lb))"
proof -
  let ?els = "lb_eventLoops (rr_base lb)" and ?a = "unat (rr_nextIndex lb)"
  have "mset (map (\<lambda>k. ?els ! (k mod length ?els)) [?a..<?a + length ?els])
      = image_mset ((!) ?els) (mset (map (\<lambda>k. k mod length ?els) [?a..<?a + length ?els]))"
    by (simp add: o_def image_mset.compositionality)
  also have "\<dots> = image_mset ((!) ?els) (mset [0..<length ?els])"
    using assms(2) by (subst mset_consecutive_mod) auto
  also have "\<dots> = mset ?els" by (metis map_nth mset_map)
  finally show ?thesis using rr_run_eq [OF assms] by auto
qed

definition example_lb :: baseLoadBalancer where
  "example_lb = lb_register (lb_register \<lparr>lb_eventLoops = [], lb_size = 0\<rparr> \<lparr>lr_idx = 9, lr_connCount = 4\<rparr>)
     \<lparr>lr_idx = 9, lr_connCount = 2\<rparr>"

lemma example_lb_inv: "lb_inv example_lb"
  unfolding example_lb_def by (intro lb_inv_register) (simp add: lb_inv_def)

theorem round_robin_fair_witness:
  "\<exists>els lb'. rr_run \<lparr>rr_base = example_lb, rr_nextIndex = 5\<rparr> 2 = Inr (els, lb') \<and> mset els = mset (lb_eventLoops example_lb)"
proof -
  have "lb_eventLoops example_lb \<noteq> []" "length (lb_eventLoops example_lb) = 2"
    by (simp_all add: example_lb_def lb_register_def)
  then show ?thesis using round_robin_fair [of "\<lparr>rr_base = example_lb, rr_nextIndex = 5\<rparr>"] example_lb_inv by auto
qed

text \<open>The least-connections balancer picks a registered loop than which no other has fewer connections,
  and none only when there is no loop at all.\<close>

theorem least_connections_minimal:
  assumes "lb_inv lb"
  shows "if lb_eventLoops lb = [] then lc_next lb = Inr None
         else \<exists>el. lc_next lb = Inr (Some el) \<and> el \<in> set (lb_eventLoops lb)
                \<and> (\<forall>v\<in>set (lb_eventLoops lb). lr_connCount el \<le> lr_connCount v)"
proof (cases "lb_eventLoops lb")
  case (Cons el els)
  with assms least_loop_min [of el "lr_connCount el" els] show ?thesis by (auto simp: lc_next_def lb_inv_def)
qed (use assms in \<open>simp add: lc_next_def lb_inv_def\<close>)

theorem least_connections_minimal_witness:
  "\<exists>el. lc_next example_lb = Inr (Some el) \<and> lr_connCount el = 2"
proof -
  have ne: "lb_eventLoops example_lb \<noteq> []" by (simp add: example_lb_def lb_register_def)
  obtain el where "lc_next example_lb = Inr (Some el)" "el \<in> set (lb_eventLoops example_lb)"
      "\<forall>v\<in>set (lb_eventLoops example_lb). lr_connCount el \<le> lr_connCount v"
    using least_connections_minimal [OF example_lb_inv] ne by auto
  then show ?thesis by (auto simp: example_lb_def lb_register_def)
qed

end
