(* ===== verification/CopyOnWrite.thy ===== *)
theory CopyOnWrite
  imports Prelude
begin

text \<open>
  The copy-on-write containers of \<open>ag/ag_ext/copy_on_write.go\<close>. What these types are for is that a
  reader keeps the slice or map it loaded while writers go on, so the model has the aliasing in
  it: backing arrays live in a heap, a slice is an address and a length (its capacity is the size
  of the array), and \<open>append\<close> writes in place when the capacity allows. The lock makes every
  operation atomic, so an execution is a sequence of operations. The locale \<open>cow_list\<close> is what
  the clients rely on: the effect of each operation on the list of elements, and that a slice
  handed out earlier never changes.
\<close>

section \<open>Slices over a heap of backing arrays\<close>

text \<open>A cell holds \<open>None\<close> while it still has the zero value \<open>make\<close> gave it. \<open>nil\<close> is a slice
  with no array.\<close>

type_synonym 'a heap = "'a option list list"

record slice_hdr =
  sl_arr :: nat
  sl_len :: nat

definition arr_of :: "'a heap \<Rightarrow> slice_hdr option \<Rightarrow> 'a option list" where
  "arr_of h s = (case s of None \<Rightarrow> [] | Some p \<Rightarrow> h ! sl_arr p)"

definition len_of :: "slice_hdr option \<Rightarrow> nat" where
  "len_of s = (case s of None \<Rightarrow> 0 | Some p \<Rightarrow> sl_len p)"

definition elems :: "'a heap \<Rightarrow> slice_hdr option \<Rightarrow> 'a list" where
  "elems h s = map the (take (len_of s) (arr_of h s))"

text \<open>\<open>make([]T, n, c)\<close>.\<close>

definition heap_make :: "'a heap \<Rightarrow> nat \<Rightarrow> nat \<Rightarrow> 'a heap \<times> slice_hdr option" where
  "heap_make h n c = (h @ [replicate c None], Some \<lparr>sl_arr = length h, sl_len = n\<rparr>)"

text \<open>\<open>append(s, xs...)\<close>: in place when the capacity suffices, otherwise into a new array whose
  capacity the run time chooses (\<open>grow\<close>, given the old capacity and the new length; the language
  promises only that the elements fit).\<close>

definition heap_append ::
  "(nat \<Rightarrow> nat \<Rightarrow> nat) \<Rightarrow> 'a heap \<Rightarrow> slice_hdr option \<Rightarrow> 'a list \<Rightarrow> 'a heap \<times> slice_hdr option" where
  "heap_append grow h s xs = (let arr = arr_of h s; n = len_of s; n' = n + length xs in
     if n' \<le> length arr
     then (case s of None \<Rightarrow> (h, None)
           | Some p \<Rightarrow> (h[sl_arr p := take n arr @ map Some xs @ drop n' arr], Some (p\<lparr>sl_len := n'\<rparr>)))
     else (h @ [take n arr @ map Some xs @ replicate (grow (length arr) n' - n') None],
           Some \<lparr>sl_arr = length h, sl_len = n'\<rparr>))"

text \<open>\<open>copy(dst, src)\<close> where \<open>dst\<close> has its own array.\<close>

definition go_copy_slice :: "'a heap \<Rightarrow> slice_hdr option \<Rightarrow> 'a list \<Rightarrow> 'a heap" where
  "go_copy_slice h s xs = (case s of None \<Rightarrow> h
     | Some p \<Rightarrow> h[sl_arr p := map Some (take (sl_len p) xs) @ drop (min (sl_len p) (length xs)) (h ! sl_arr p)])"

section \<open>CopyOnWriteSlice\<close>

record 'a CopyOnWriteSlice =
  cw_heap :: "'a heap"
  cw_value :: "slice_hdr option"

definition NewCopyOnWriteSlice :: "'a CopyOnWriteSlice" where
  "NewCopyOnWriteSlice = \<lparr>cw_heap = [], cw_value = None\<rparr>"

definition cows_Value :: "'a CopyOnWriteSlice \<Rightarrow> slice_hdr option" where
  "cows_Value c = cw_value c"

definition cows_Add :: "(nat \<Rightarrow> nat \<Rightarrow> nat) \<Rightarrow> 'a \<Rightarrow> 'a CopyOnWriteSlice \<Rightarrow> 'a CopyOnWriteSlice" where
  "cows_Add grow x c = (let (h, s) = heap_append grow (cw_heap c) (cw_value c) [x]
     in \<lparr>cw_heap = h, cw_value = s\<rparr>)"

definition cows_AddIndex ::
  "(nat \<Rightarrow> nat \<Rightarrow> nat) \<Rightarrow> int \<Rightarrow> 'a \<Rightarrow> 'a CopyOnWriteSlice \<Rightarrow> 'a CopyOnWriteSlice" where
  "cows_AddIndex grow index x c = (let current = elems (cw_heap c) (cw_value c);
       i = (if index < 0 then 0 else if index > int (length current) then length current else nat index);
       (h, s) = heap_make (cw_heap c) 0 (length current + 1);
       (h, s) = heap_append grow h s (take i current);
       (h, s) = heap_append grow h s [x];
       (h, s) = heap_append grow h s (drop i current)
     in \<lparr>cw_heap = h, cw_value = s\<rparr>)"

fun index_from :: "nat \<Rightarrow> ('a \<Rightarrow> bool) \<Rightarrow> 'a list \<Rightarrow> int" where
  "index_from i P [] = - 1"
| "index_from i P (v # vs) = (if P v then int i else index_from (Suc i) P vs)"

definition cows_IndexOf :: "'a \<Rightarrow> 'a CopyOnWriteSlice \<Rightarrow> int" where
  "cows_IndexOf target c = index_from 0 (\<lambda>v. v = target) (elems (cw_heap c) (cw_value c))"

fun delete_loop ::
  "(nat \<Rightarrow> nat \<Rightarrow> nat) \<Rightarrow> 'a \<Rightarrow> 'a list \<Rightarrow> 'a heap \<times> slice_hdr option \<Rightarrow> 'a heap \<times> slice_hdr option" where
  "delete_loop grow r [] hs = hs"
| "delete_loop grow r (v # vs) hs =
     delete_loop grow r vs (if v \<noteq> r then heap_append grow (fst hs) (snd hs) [v] else hs)"

definition cows_Delete :: "(nat \<Rightarrow> nat \<Rightarrow> nat) \<Rightarrow> 'a \<Rightarrow> 'a CopyOnWriteSlice \<Rightarrow> 'a CopyOnWriteSlice" where
  "cows_Delete grow r c = (let current = elems (cw_heap c) (cw_value c);
       (h, s) = delete_loop grow r current (heap_make (cw_heap c) 0 (length current))
     in \<lparr>cw_heap = h, cw_value = s\<rparr>)"

definition cows_Len :: "'a CopyOnWriteSlice \<Rightarrow> nat" where
  "cows_Len c = len_of (cw_value c)"

definition cows_DeleteIndex ::
  "(nat \<Rightarrow> nat \<Rightarrow> nat) \<Rightarrow> int \<Rightarrow> 'a CopyOnWriteSlice \<Rightarrow> 'a CopyOnWriteSlice" where
  "cows_DeleteIndex grow index c = (let current = elems (cw_heap c) (cw_value c) in
     if index < 0 \<or> index \<ge> int (length current) then c
     else (let (h, s) = heap_make (cw_heap c) 0 (length current - 1);
               (h, s) = heap_append grow h s (take (nat index) current);
               (h, s) = heap_append grow h s (drop (nat index + 1) current)
           in \<lparr>cw_heap = h, cw_value = s\<rparr>))"

definition cows_Set :: "int \<Rightarrow> 'a \<Rightarrow> 'a CopyOnWriteSlice \<Rightarrow> 'a CopyOnWriteSlice" where
  "cows_Set index x c = (let current = elems (cw_heap c) (cw_value c) in
     if index < 0 \<or> index \<ge> int (length current) then c
     else (let (h, s) = heap_make (cw_heap c) (length current) (length current);
               h = go_copy_slice h s current;
               h = (case s of None \<Rightarrow> h
                    | Some p \<Rightarrow> h[sl_arr p := (h ! sl_arr p)[nat index := Some x]])
           in \<lparr>cw_heap = h, cw_value = s\<rparr>))"

section \<open>CopyOnWriteMap\<close>

text \<open>Maps live in a heap as well; \<open>AsMap\<close> hands out the address, or the address of a new empty
  map when nothing was stored.\<close>

record ('k, 'v) CopyOnWriteMap =
  cm_heap :: "('k \<rightharpoonup> 'v) list"
  cm_value :: "nat option"

definition cowm_New :: "('k, 'v) CopyOnWriteMap" where
  "cowm_New = \<lparr>cm_heap = [], cm_value = None\<rparr>"

definition cowm_Load :: "('k, 'v) CopyOnWriteMap \<Rightarrow> 'k \<rightharpoonup> 'v" where
  "cowm_Load c = (case cm_value c of None \<Rightarrow> Map.empty | Some a \<Rightarrow> cm_heap c ! a)"

definition cowm_Put :: "'k \<Rightarrow> 'v \<Rightarrow> ('k, 'v) CopyOnWriteMap \<Rightarrow> ('k, 'v) CopyOnWriteMap" where
  "cowm_Put k v c = (let mapCopy = Map.empty ++ cowm_Load c
     in \<lparr>cm_heap = cm_heap c @ [mapCopy(k \<mapsto> v)], cm_value = Some (length (cm_heap c))\<rparr>)"

definition cowm_Get :: "'k \<Rightarrow> ('k, 'v) CopyOnWriteMap \<Rightarrow> 'v option" where
  "cowm_Get k c = cowm_Load c k"

definition cowm_AsMap :: "('k, 'v) CopyOnWriteMap \<Rightarrow> nat \<times> ('k, 'v) CopyOnWriteMap" where
  "cowm_AsMap c = (case cm_value c of
     None \<Rightarrow> (length (cm_heap c), c\<lparr>cm_heap := cm_heap c @ [Map.empty]\<rparr>)
   | Some a \<Rightarrow> (a, c))"

section \<open>The contract of a copy-on-write list\<close>

datatype 'a cow_op =
    OpAdd 'a
  | OpAddIndex int 'a
  | OpDelete 'a
  | OpDeleteIndex int
  | OpSet int 'a

text \<open>The operations on the list of elements: an index below zero or past the end is clipped by
  an insertion, and ignored by a deletion or an assignment.\<close>

definition clip :: "int \<Rightarrow> nat \<Rightarrow> nat" where
  "clip i n = min (nat i) n"

fun list_op :: "'a cow_op \<Rightarrow> 'a list \<Rightarrow> 'a list" where
  "list_op (OpAdd x) xs = xs @ [x]"
| "list_op (OpAddIndex i x) xs = take (clip i (length xs)) xs @ x # drop (clip i (length xs)) xs"
| "list_op (OpDelete x) xs = filter (\<lambda>v. v \<noteq> x) xs"
| "list_op (OpDeleteIndex i) xs =
     (if 0 \<le> i \<and> i < int (length xs) then take (nat i) xs @ drop (Suc (nat i)) xs else xs)"
| "list_op (OpSet i x) xs = (if 0 \<le> i \<and> i < int (length xs) then xs[nat i := x] else xs)"

text \<open>\<open>live c p\<close> says that the slice \<open>p\<close> was handed out at some time before the state \<open>c\<close>.\<close>

locale cow_list =
  fixes new :: 's
    and step :: "'a cow_op \<Rightarrow> 's \<Rightarrow> 's"
    and invar :: "'s \<Rightarrow> bool"
    and current :: "'s \<Rightarrow> 'p"
    and read :: "'s \<Rightarrow> 'p \<Rightarrow> 'a list"
    and live :: "'s \<Rightarrow> 'p \<Rightarrow> bool"
  assumes new_invar: "invar new"
    and new_empty: "read new (current new) = []"
    and step_invar: "invar c \<Longrightarrow> invar (step opr c)"
    and step_value: "invar c \<Longrightarrow> read (step opr c) (current (step opr c)) = list_op opr (read c (current c))"
    and value_live: "invar c \<Longrightarrow> live c (current c)"
    and step_live: "invar c \<Longrightarrow> live c p \<Longrightarrow> live (step opr c) p"
    and step_read: "invar c \<Longrightarrow> live c p \<Longrightarrow> read (step opr c) p = read c p"
begin

lemma run_invar: "invar c \<Longrightarrow> invar (fold step ops c)"
  by (induction ops arbitrary: c) (auto simp: step_invar)

lemma run_value: "invar c \<Longrightarrow>
    read (fold step ops c) (current (fold step ops c)) = fold list_op ops (read c (current c))"
  by (induction ops arbitrary: c) (auto simp: step_invar step_value)

lemma run_live: "invar c \<Longrightarrow> live c p \<Longrightarrow> live (fold step ops c) p"
  by (induction ops arbitrary: c) (auto simp: step_invar step_live)

lemma run_read: "invar c \<Longrightarrow> live c p \<Longrightarrow> read (fold step ops c) p = read c p"
  by (induction ops arbitrary: c) (auto simp: step_invar step_live step_read)

text \<open>A reader that loads the slice between two runs of writes keeps the elements of that moment.\<close>

lemma snapshot_kept:
  "read (fold step later (fold step before new)) (current (fold step before new)) = fold list_op before []"
  using run_read [OF run_invar value_live, OF new_invar run_invar, OF new_invar]
  by (simp add: run_value new_invar new_empty)

end

section \<open>The heap implements the contract\<close>

definition slice_ok :: "'a heap \<Rightarrow> slice_hdr option \<Rightarrow> bool" where
  "slice_ok h s = (case s of None \<Rightarrow> True
     | Some p \<Rightarrow> sl_arr p < length h \<and> sl_len p \<le> length (h ! sl_arr p))"

definition cows_inv :: "'a CopyOnWriteSlice \<Rightarrow> bool" where
  "cows_inv c = slice_ok (cw_heap c) (cw_value c)"

text \<open>\<open>not_ahead q p\<close>: the slice \<open>p\<close> is on another array than \<open>q\<close> or ends before it, so an
  append to \<open>q\<close> does not touch the elements of \<open>p\<close>.\<close>

definition not_ahead :: "slice_hdr option \<Rightarrow> slice_hdr option \<Rightarrow> bool" where
  "not_ahead q p = (case (q, p) of
     (Some q, Some p) \<Rightarrow> sl_arr p = sl_arr q \<longrightarrow> sl_len p \<le> sl_len q | _ \<Rightarrow> True)"

definition cows_live :: "'a CopyOnWriteSlice \<Rightarrow> slice_hdr option \<Rightarrow> bool" where
  "cows_live c p = (slice_ok (cw_heap c) p \<and> not_ahead (cw_value c) p)"

fun cows_step :: "(nat \<Rightarrow> nat \<Rightarrow> nat) \<Rightarrow> 'a cow_op \<Rightarrow> 'a CopyOnWriteSlice \<Rightarrow> 'a CopyOnWriteSlice" where
  "cows_step grow (OpAdd x) c = cows_Add grow x c"
| "cows_step grow (OpAddIndex i x) c = cows_AddIndex grow i x c"
| "cows_step grow (OpDelete x) c = cows_Delete grow x c"
| "cows_step grow (OpDeleteIndex i) c = cows_DeleteIndex grow i c"
| "cows_step grow (OpSet i x) c = cows_Set i x c"

definition cows_list :: "'a CopyOnWriteSlice \<Rightarrow> 'a list" where
  "cows_list c = elems (cw_heap c) (cw_value c)"

lemmas slice_defs = arr_of_def len_of_def elems_def slice_ok_def not_ahead_def

lemma not_ahead_refl [simp]: "not_ahead s s"
  by (simp add: not_ahead_def split: option.splits)

lemma length_elems [simp]: "slice_ok h s \<Longrightarrow> length (elems h s) = len_of s"
  by (cases s) (auto simp: slice_defs)

text \<open>\<open>extends h s h' s'\<close> collects what every allocation and append keeps: the result is a slice,
  and every slice that \<open>s\<close> is not behind still reads the same.\<close>

definition extends :: "'a heap \<Rightarrow> slice_hdr option \<Rightarrow> 'a heap \<Rightarrow> slice_hdr option \<Rightarrow> bool" where
  "extends h s h' s' = (slice_ok h' s' \<and> (\<forall>p. slice_ok h p \<and> not_ahead s p \<longrightarrow>
     slice_ok h' p \<and> not_ahead s' p \<and> elems h' p = elems h p))"

lemma extends_trans: "extends h s h' s' \<Longrightarrow> extends h' s' h'' s'' \<Longrightarrow> extends h s h'' s''"
  by (simp add: extends_def)

lemma heap_make_extends: "n \<le> c \<Longrightarrow> heap_make h n c = (h', s') \<Longrightarrow> extends h s h' s'"
  by (auto simp: heap_make_def extends_def slice_defs nth_append split: option.splits)

lemma heap_make_elems: "heap_make h 0 c = (h', s') \<Longrightarrow> elems h' s' = []"
  by (auto simp: heap_make_def slice_defs)

lemma heap_append_elems:
  assumes "slice_ok h s" and "heap_append grow h s xs = (h', s')"
  shows "elems h' s' = elems h s @ xs"
  using assms by (cases s)
    (auto simp: heap_append_def slice_defs Let_def nth_append comp_def split: if_splits)

lemma heap_append_extends:
  assumes "slice_ok h s" and "heap_append grow h s xs = (h', s')"
  shows "extends h s h' s'"
proof (cases "len_of s + length xs \<le> length (arr_of h s)")
  case True
  show ?thesis
  proof (cases s)
    case None
    then show ?thesis using assms True by (auto simp: heap_append_def extends_def slice_defs)
  next
    case (Some q)
    let ?arr = "take (sl_len q) (h ! sl_arr q) @ map Some xs @ drop (sl_len q + length xs) (h ! sl_arr q)"
    have h': "h' = h[sl_arr q := ?arr]" and s': "s' = Some (q\<lparr>sl_len := sl_len q + length xs\<rparr>)"
      using assms True Some by (auto simp: heap_append_def slice_defs Let_def)
    have len: "length ?arr = length (h ! sl_arr q)"
      using True Some by (simp add: slice_defs)
    have "slice_ok h' p \<and> not_ahead s' p \<and> elems h' p = elems h p"
      if "slice_ok h p" "not_ahead s p" for p
      using that assms(1) Some len
      by (cases "p")
        (auto simp: h' s' slice_defs nth_list_update min_def simp del: length_append)
    moreover have "slice_ok h' s'"
      using assms(1) Some len True by (auto simp: h' s' slice_defs simp del: length_append)
    ultimately show ?thesis by (simp add: extends_def)
  qed
next
  case False
  then show ?thesis using assms
    by (auto simp: heap_append_def extends_def Let_def) (auto simp: slice_defs nth_append split: option.splits)
qed

lemmas extends_ok = extends_def [THEN iffD1, THEN conjunct1]

lemma delete_loop_spec:
  assumes "slice_ok h s" and "delete_loop grow r vs (h, s) = (h', s')"
  shows "extends h s h' s' \<and> elems h' s' = elems h s @ filter (\<lambda>v. v \<noteq> r) vs"
  using assms
proof (induction vs arbitrary: h s)
  case Nil
  then show ?case by (simp add: extends_def)
next
  case (Cons v vs)
  obtain h1 s1 where a: "heap_append grow h s [v] = (h1, s1)" by fastforce
  show ?case
  proof (cases "v = r")
    case True
    then show ?thesis using Cons by simp
  next
    case False
    have e: "extends h s h1 s1" using heap_append_extends [OF Cons.prems(1) a] .
    have "extends h1 s1 h' s' \<and> elems h' s' = elems h1 s1 @ filter (\<lambda>v. v \<noteq> r) vs"
      using Cons.IH [OF extends_ok [OF e]] Cons.prems(2) a False by simp
    then show ?thesis
      using extends_trans [OF e] heap_append_elems [OF Cons.prems(1) a] False by simp
  qed
qed

text \<open>Each operation on the container.\<close>

definition cow_step_ok :: "'a CopyOnWriteSlice \<Rightarrow> 'a cow_op \<Rightarrow> 'a CopyOnWriteSlice \<Rightarrow> bool" where
  "cow_step_ok c opr c' = (extends (cw_heap c) (cw_value c) (cw_heap c') (cw_value c') \<and>
     cows_list c' = list_op opr (cows_list c))"

lemma cows_Add_ok: "cows_inv c \<Longrightarrow> cow_step_ok c (OpAdd x) (cows_Add grow x c)"
  by (auto simp: cow_step_ok_def cows_Add_def cows_inv_def cows_list_def split: prod.splits
      dest: heap_append_elems intro: heap_append_extends)

lemma clip_index:
  "(if index < 0 then 0 else if index > int n then n else nat index) = clip index n"
  by (auto simp: clip_def min_def)

lemma cows_AddIndex_ok:
  assumes "cows_inv c"
  shows "cow_step_ok c (OpAddIndex i x) (cows_AddIndex grow i x c)"
proof -
  let ?cur = "elems (cw_heap c) (cw_value c)"
  let ?i = "clip i (length ?cur)"
  obtain h1 s1 where m: "heap_make (cw_heap c) 0 (length ?cur + 1) = (h1, s1)" by fastforce
  obtain h2 s2 where a: "heap_append grow h1 s1 (take ?i ?cur) = (h2, s2)" by fastforce
  obtain h3 s3 where b: "heap_append grow h2 s2 [x] = (h3, s3)" by fastforce
  obtain h4 s4 where d: "heap_append grow h3 s3 (drop ?i ?cur) = (h4, s4)" by fastforce
  have 1: "extends (cw_heap c) (cw_value c) h1 s1" by (rule heap_make_extends [OF _ m]) simp
  have 2: "extends h1 s1 h2 s2" by (rule heap_append_extends [OF extends_ok [OF 1] a])
  have 3: "extends h2 s2 h3 s3" by (rule heap_append_extends [OF extends_ok [OF 2] b])
  have 4: "extends h3 s3 h4 s4" by (rule heap_append_extends [OF extends_ok [OF 3] d])
  have "elems h4 s4 = take ?i ?cur @ x # drop ?i ?cur"
    using heap_make_elems [OF m] heap_append_elems [OF extends_ok [OF 1] a]
      heap_append_elems [OF extends_ok [OF 2] b] heap_append_elems [OF extends_ok [OF 3] d] by simp
  moreover have "cows_AddIndex grow i x c = \<lparr>cw_heap = h4, cw_value = s4\<rparr>"
    using m a b d by (simp only: cows_AddIndex_def Let_def clip_index split)
  moreover have "extends (cw_heap c) (cw_value c) h4 s4"
    using 1 2 3 4 by (blast intro: extends_trans)
  ultimately show ?thesis by (simp add: cow_step_ok_def cows_list_def)
qed

lemma cows_Delete_ok: "cows_inv c \<Longrightarrow> cow_step_ok c (OpDelete x) (cows_Delete grow x c)"
proof -
  let ?cur = "elems (cw_heap c) (cw_value c)"
  obtain h1 s1 where m: "heap_make (cw_heap c) 0 (length ?cur) = (h1, s1)" by fastforce
  obtain h2 s2 where d: "delete_loop grow x ?cur (h1, s1) = (h2, s2)" by fastforce
  have 1: "extends (cw_heap c) (cw_value c) h1 s1" by (rule heap_make_extends [OF _ m]) simp
  show ?thesis
    using delete_loop_spec [OF extends_ok [OF 1] d] extends_trans [OF 1] heap_make_elems [OF m] m d
    by (simp add: cow_step_ok_def cows_Delete_def cows_list_def)
qed

lemma cow_step_ok_skip: "cows_inv c \<Longrightarrow> list_op opr (cows_list c) = cows_list c \<Longrightarrow> cow_step_ok c opr c"
  by (simp add: cow_step_ok_def extends_def cows_inv_def)

lemma cows_DeleteIndex_ok:
  assumes "cows_inv c"
  shows "cow_step_ok c (OpDeleteIndex i) (cows_DeleteIndex grow i c)"
proof (cases "i < 0 \<or> i \<ge> int (length (cows_list c))")
  case True
  then show ?thesis using cow_step_ok_skip [OF assms] by (auto simp: cows_DeleteIndex_def cows_list_def)
next
  case False
  let ?cur = "elems (cw_heap c) (cw_value c)"
  obtain h1 s1 where m: "heap_make (cw_heap c) 0 (length ?cur - 1) = (h1, s1)" by fastforce
  obtain h2 s2 where a: "heap_append grow h1 s1 (take (nat i) ?cur) = (h2, s2)" by fastforce
  obtain h3 s3 where b: "heap_append grow h2 s2 (drop (nat i + 1) ?cur) = (h3, s3)" by fastforce
  have 1: "extends (cw_heap c) (cw_value c) h1 s1" by (rule heap_make_extends [OF _ m]) simp
  have 2: "extends h1 s1 h2 s2" by (rule heap_append_extends [OF extends_ok [OF 1] a])
  have 3: "extends h2 s2 h3 s3" by (rule heap_append_extends [OF extends_ok [OF 2] b])
  have "elems h3 s3 = take (nat i) ?cur @ drop (Suc (nat i)) ?cur"
    using heap_make_elems [OF m] heap_append_elems [OF extends_ok [OF 1] a]
      heap_append_elems [OF extends_ok [OF 2] b] by simp
  moreover have "cows_DeleteIndex grow i c = \<lparr>cw_heap = h3, cw_value = s3\<rparr>"
    using m a b False by (simp add: cows_DeleteIndex_def cows_list_def)
  ultimately show ?thesis
    using False extends_trans [OF 1 extends_trans [OF 2 3]] by (auto simp: cow_step_ok_def cows_list_def)
qed

lemma cows_Set_ok:
  assumes "cows_inv c"
  shows "cow_step_ok c (OpSet i x) (cows_Set i x c)"
proof (cases "i < 0 \<or> i \<ge> int (length (cows_list c))")
  case True
  then show ?thesis using cow_step_ok_skip [OF assms] by (auto simp: cows_Set_def cows_list_def)
next
  case False
  let ?h = "cw_heap c" and ?cur = "elems (cw_heap c) (cw_value c)"
  have eq: "cows_Set i x c = \<lparr>cw_heap = ?h @ [(map Some ?cur)[nat i := Some x]],
      cw_value = Some \<lparr>sl_arr = length ?h, sl_len = length ?cur\<rparr>\<rparr>"
    using False by (simp add: cows_Set_def cows_list_def heap_make_def go_copy_slice_def Let_def)
  have "extends ?h (cw_value c) (cw_heap (cows_Set i x c)) (cw_value (cows_Set i x c))"
    by (auto simp: eq extends_def slice_defs nth_append split: option.splits)
  moreover have "cows_list (cows_Set i x c) = ?cur[nat i := x]"
    using False by (simp add: eq cows_list_def map_update) (simp add: slice_defs map_update comp_def)
  ultimately show ?thesis using False by (auto simp: cow_step_ok_def cows_list_def)
qed

lemma cows_step_ok: "cows_inv c \<Longrightarrow> cow_step_ok c opr (cows_step grow opr c)"
  by (cases opr) (simp_all add: cows_Add_ok cows_AddIndex_ok cows_Delete_ok cows_DeleteIndex_ok cows_Set_ok)

interpretation cows: cow_list NewCopyOnWriteSlice "cows_step grow" cows_inv cows_Value
  "\<lambda>c. elems (cw_heap c)" cows_live for grow
proof unfold_locales
  fix c :: "'a CopyOnWriteSlice" and opr p
  show "cows_inv (NewCopyOnWriteSlice :: 'a CopyOnWriteSlice)"
    by (simp add: cows_inv_def NewCopyOnWriteSlice_def slice_defs)
  show "elems (cw_heap NewCopyOnWriteSlice) (cows_Value NewCopyOnWriteSlice) = ([] :: 'a list)"
    by (simp add: cows_Value_def NewCopyOnWriteSlice_def slice_defs)
  assume inv: "cows_inv c"
  note ok = cows_step_ok [OF inv, of opr grow]
  show "cows_inv (cows_step grow opr c)"
    using ok by (simp add: cow_step_ok_def extends_def cows_inv_def)
  show "elems (cw_heap (cows_step grow opr c)) (cows_Value (cows_step grow opr c)) =
      list_op opr (elems (cw_heap c) (cows_Value c))"
    using ok by (simp add: cow_step_ok_def cows_list_def cows_Value_def)
  show "cows_live c (cows_Value c)"
    using inv by (auto simp: cows_live_def cows_inv_def cows_Value_def not_ahead_def split: option.splits)
  assume "cows_live c p"
  then show "cows_live (cows_step grow opr c) p"
    and "elems (cw_heap (cows_step grow opr c)) p = elems (cw_heap c) p"
    using ok by (simp_all add: cow_step_ok_def extends_def cows_live_def)
qed

section \<open>Properties\<close>

text \<open>C14: For every sequence of operations on a new copy-on-write slice, the elements are what the
  list operations give (insertions clip the index, deletions and assignments out of range do
  nothing), \<open>Len\<close> counts them, and a slice a reader loaded in between still shows the elements of
  that moment after any further writes, although \<open>Add\<close> appends in place into the array that
  slice is on.\<close>

theorem cows_snapshot_isolation:
  "cows_list (fold (cows_step grow) before NewCopyOnWriteSlice) = fold list_op before [] \<and>
   cows_Len (fold (cows_step grow) before NewCopyOnWriteSlice) = length (fold list_op before []) \<and>
   elems (cw_heap (fold (cows_step grow) later (fold (cows_step grow) before NewCopyOnWriteSlice)))
     (cows_Value (fold (cows_step grow) before NewCopyOnWriteSlice)) = fold list_op before []"
proof -
  have v: "cows_list (fold (cows_step grow) before NewCopyOnWriteSlice) = fold list_op before []"
    using cows.run_value [OF cows.new_invar, of grow before]
    by (simp add: cows_list_def cows_Value_def cows.new_empty [unfolded cows_Value_def])
  have "cows_inv (fold (cows_step grow) before NewCopyOnWriteSlice)"
    by (rule cows.run_invar [OF cows.new_invar])
  then have "cows_Len (fold (cows_step grow) before NewCopyOnWriteSlice) = length (fold list_op before [])"
    using v by (metis cows_Len_def cows_inv_def cows_list_def length_elems)
  then show ?thesis using v cows.snapshot_kept by blast
qed

definition cowm_inv :: "('k, 'v) CopyOnWriteMap \<Rightarrow> bool" where
  "cowm_inv c = (case cm_value c of None \<Rightarrow> True | Some a \<Rightarrow> a < length (cm_heap c))"

lemma cowm_Put_inv: "cowm_inv (cowm_Put k v c)"
  by (simp add: cowm_inv_def cowm_Put_def Let_def)

lemma cowm_Put_keeps: "a < length (cm_heap c) \<Longrightarrow>
    a < length (cm_heap (cowm_Put k v c)) \<and> cm_heap (cowm_Put k v c) ! a = cm_heap c ! a"
  by (simp add: cowm_Put_def Let_def nth_append)

lemma cowm_Puts_keep: "a < length (cm_heap c) \<Longrightarrow>
    cm_heap (fold (\<lambda>(k, v). cowm_Put k v) kvs c) ! a = cm_heap c ! a"
  by (induction kvs arbitrary: c) (auto simp: cowm_Put_keeps)

lemma cowm_Load_Put: "cowm_Load (cowm_Put k v c) = (cowm_Load c)(k \<mapsto> v)"
  by (simp add: cowm_Load_def cowm_Put_def Let_def)

lemma cowm_Load_Puts: "cowm_Load (fold (\<lambda>(k, v). cowm_Put k v) kvs c) = cowm_Load c ++ map_of (rev kvs)"
  by (induction kvs arbitrary: c) (auto simp: cowm_Load_Put)

text \<open>After any sequence of \<open>Put\<close>s, \<open>Get\<close> returns the value put last under the key, and the
  map a reader got from \<open>AsMap\<close> in between still holds exactly what was put before.\<close>

theorem cowm_snapshot_isolation:
  "cowm_Get k (fold (\<lambda>(k, v). cowm_Put k v) before cowm_New) = map_of (rev before) k \<and>
   (case cowm_AsMap (fold (\<lambda>(k, v). cowm_Put k v) before cowm_New) of (a, c) \<Rightarrow>
      cm_heap (fold (\<lambda>(k, v). cowm_Put k v) later c) ! a = map_of (rev before) \<and>
      cowm_Get k (fold (\<lambda>(k, v). cowm_Put k v) later c) = (map_of (rev before) ++ map_of (rev later)) k)"
proof -
  let ?put = "fold (\<lambda>(k, v). cowm_Put k v)"
  let ?c = "?put before cowm_New"
  have load: "cowm_Load ?c = map_of (rev before)"
    by (simp add: cowm_Load_Puts) (simp add: cowm_Load_def cowm_New_def)
  obtain a c where as: "cowm_AsMap ?c = (a, c)" by fastforce
  have inv: "cowm_inv ?c"
  proof (cases before rule: rev_cases)
    case Nil then show ?thesis by (simp add: cowm_inv_def cowm_New_def)
  next
    case (snoc xs x) then show ?thesis by (cases x) (simp add: cowm_Put_inv)
  qed
  have "a < length (cm_heap c) \<and> cm_heap c ! a = cowm_Load ?c \<and> cowm_Load c = cowm_Load ?c"
    using as inv by (auto simp: cowm_AsMap_def cowm_Load_def cowm_inv_def split: option.splits)
  then show ?thesis
    using as load by (simp add: cowm_Get_def cowm_Puts_keep cowm_Load_Puts)
qed

end
