(* ===== verification/PropertySources.thy ===== *)
theory PropertySources
  imports CopyOnWrite
begin

text \<open>
  The ordered collection of configuration sources of \<open>ag/ag_conf\<close>: the sources themselves
  (\<open>source_property_source.go\<close>), the collection (\<open>sources_mutable_property_sources.go\<close>) on top of
  the copy-on-write slice, the decrypted shadow sources (\<open>decrypt.go\<close>) and the refresh of a
  changed source with its change listeners (\<open>watcher_refresh.go\<close>). A source is an object behind a
  pointer; its map is an association list in the order in which a \<open>range\<close> visits it, with distinct
  keys. Decryption is a parameter (the encryptor is registered by the application).
\<close>

section \<open>Property sources\<close>

record PropertySource =
  ps_ptr :: nat
  ps_Name :: string
  ps_Source :: "(string \<times> any) list"

definition EqualsName :: "PropertySource \<Rightarrow> string \<Rightarrow> bool" where
  "EqualsName p n = (ps_Name p = n)"

text \<open>A lookup of a missing key in a Go map of type \<open>any\<close> gives \<open>nil\<close>.\<close>

definition ps_GetProperty :: "PropertySource \<Rightarrow> string \<Rightarrow> any" where
  "ps_GetProperty p key = (case map_of (ps_Source p) key of None \<Rightarrow> NilVal | Some v \<Rightarrow> v)"

definition ps_ContainsProperty :: "PropertySource \<Rightarrow> string \<Rightarrow> bool" where
  "ps_ContainsProperty p key = (map_of (ps_Source p) key \<noteq> None)"

definition ps_GetPropertyNames :: "PropertySource \<Rightarrow> string list" where
  "ps_GetPropertyNames p = map fst (ps_Source p)"

section \<open>MutablePropertySources\<close>

record MutablePropertySources =
  propertySourceList :: "PropertySource CopyOnWriteSlice"

definition NewMutablePropertySources :: MutablePropertySources where
  "NewMutablePropertySources = \<lparr>propertySourceList = NewCopyOnWriteSlice\<rparr>"

definition mps_GetPropertySources :: "MutablePropertySources \<Rightarrow> PropertySource list" where
  "mps_GetPropertySources m = elems (cw_heap (propertySourceList m)) (cows_Value (propertySourceList m))"

definition mps_Get :: "string \<Rightarrow> MutablePropertySources \<Rightarrow> PropertySource option" where
  "mps_Get name m = find (\<lambda>ps. EqualsName ps name) (mps_GetPropertySources m)"

definition mps_Contains :: "string \<Rightarrow> MutablePropertySources \<Rightarrow> bool" where
  "mps_Contains name m = list_ex (\<lambda>ps. EqualsName ps name) (mps_GetPropertySources m)"

definition mps_ContainsSource :: "PropertySource \<Rightarrow> MutablePropertySources \<Rightarrow> bool" where
  "mps_ContainsSource ps m = mps_Contains (ps_Name ps) m"

text \<open>The handler of a traversal may change the collection; the traversal goes over the slice
  loaded before, which later writes do not change.\<close>

fun range_sources ::
  "(PropertySource \<Rightarrow> 's \<Rightarrow> bool \<times> go_error option \<times> 's) \<Rightarrow> PropertySource list \<Rightarrow> 's \<Rightarrow> go_error option \<times> 's" where
  "range_sources handler [] st = (None, st)"
| "range_sources handler (ps # pss) st = (case handler ps st of (stop, err, st') \<Rightarrow>
     if stop \<or> err \<noteq> None then (err, st') else range_sources handler pss st')"

definition RangePropertySourceHandler where
  "RangePropertySourceHandler handler m st = range_sources handler (mps_GetPropertySources m) st"

definition RangePropertySourceHandlerReverse where
  "RangePropertySourceHandlerReverse handler m st =
     range_sources handler (rev (mps_GetPropertySources m)) st"

definition mps_indexOfName :: "string \<Rightarrow> MutablePropertySources \<Rightarrow> int" where
  "mps_indexOfName name m = index_from 0 (\<lambda>ps. ps_Name ps = name) (mps_GetPropertySources m)"

definition assertLegalRelativeAddition :: "string \<Rightarrow> PropertySource \<Rightarrow> go_error option" where
  "assertLegalRelativeAddition name ps =
     (if name = ps_Name ps then Some (OtherError ''cannot be added relative to itself'') else None)"

type_synonym growth = "nat \<Rightarrow> nat \<Rightarrow> nat"

definition removeIfPresent :: "growth \<Rightarrow> string \<Rightarrow> MutablePropertySources \<Rightarrow> MutablePropertySources" where
  "removeIfPresent grow toDelName m =
     (case find (\<lambda>ps. ps_Name ps = toDelName) (mps_GetPropertySources m) of
        None \<Rightarrow> m
      | Some ps \<Rightarrow> m\<lparr>propertySourceList := cows_Delete grow ps (propertySourceList m)\<rparr>)"

definition AddFirst :: "growth \<Rightarrow> PropertySource \<Rightarrow> MutablePropertySources \<Rightarrow> MutablePropertySources" where
  "AddFirst grow ps m = (let m = removeIfPresent grow (ps_Name ps) m
     in m\<lparr>propertySourceList := cows_AddIndex grow 0 ps (propertySourceList m)\<rparr>)"

definition AddLast :: "growth \<Rightarrow> PropertySource \<Rightarrow> MutablePropertySources \<Rightarrow> MutablePropertySources" where
  "AddLast grow ps m = (let m = removeIfPresent grow (ps_Name ps) m
     in m\<lparr>propertySourceList := cows_Add grow ps (propertySourceList m)\<rparr>)"

definition AddBefore ::
  "growth \<Rightarrow> string \<Rightarrow> PropertySource \<Rightarrow> MutablePropertySources \<Rightarrow> go_error option \<times> MutablePropertySources" where
  "AddBefore grow name ps m = (case assertLegalRelativeAddition name ps of
      Some e \<Rightarrow> (Some e, m)
    | None \<Rightarrow> (let index = mps_indexOfName name m in
        if index = - 1 then (Some (OtherError ''PropertySource not found''), m)
        else (let m = removeIfPresent grow (ps_Name ps) m
              in (None, m\<lparr>propertySourceList := cows_AddIndex grow index ps (propertySourceList m)\<rparr>))))"

definition AddAfter ::
  "growth \<Rightarrow> string \<Rightarrow> PropertySource \<Rightarrow> MutablePropertySources \<Rightarrow> go_error option \<times> MutablePropertySources" where
  "AddAfter grow name ps m = (case assertLegalRelativeAddition name ps of
      Some e \<Rightarrow> (Some e, m)
    | None \<Rightarrow> (let index = mps_indexOfName name m in
        if index = - 1 then (Some (OtherError ''PropertySource not found''), m)
        else (let m = removeIfPresent grow (ps_Name ps) m
              in (None, m\<lparr>propertySourceList := cows_AddIndex grow (index + 1) ps (propertySourceList m)\<rparr>))))"

definition mps_Remove :: "growth \<Rightarrow> string \<Rightarrow> MutablePropertySources \<Rightarrow> MutablePropertySources" where
  "mps_Remove grow name m = (let index = mps_indexOfName name m
     in m\<lparr>propertySourceList := cows_DeleteIndex grow index (propertySourceList m)\<rparr>)"

definition mps_Replace ::
  "string \<Rightarrow> PropertySource \<Rightarrow> MutablePropertySources \<Rightarrow> go_error option \<times> MutablePropertySources" where
  "mps_Replace name ps m = (let index = mps_indexOfName name m in
     if index = - 1 then (Some (OtherError ''PropertySource not found''), m)
     else (None, m\<lparr>propertySourceList := cows_Set index ps (propertySourceList m)\<rparr>))"

definition ReplaceSource ::
  "PropertySource \<Rightarrow> MutablePropertySources \<Rightarrow> go_error option \<times> MutablePropertySources" where
  "ReplaceSource ps m = mps_Replace (ps_Name ps) ps m"

definition RemoveIfPresent :: "growth \<Rightarrow> string \<Rightarrow> MutablePropertySources \<Rightarrow> MutablePropertySources" where
  "RemoveIfPresent grow toDelName m = removeIfPresent grow toDelName m"

section \<open>Decrypted sources\<close>

definition ConstEncryptKeyWords :: string where "ConstEncryptKeyWords = ''{cipher}''"
definition SourceKeyLocalPrefix :: string where "SourceKeyLocalPrefix = ''[LOCAL]''"
definition SourceKeyDecryptPrefix :: string where "SourceKeyDecryptPrefix = ''[DECRYPT]''"

definition strings_HasPrefix :: "string \<Rightarrow> string \<Rightarrow> bool" where
  "strings_HasPrefix s p = (take (length p) s = p)"

text \<open>\<open>Decrypt\<close> of the primary encryptor.\<close>

type_synonym decryptor = "string \<Rightarrow> go_error + string"

fun decrypt_entries :: "decryptor \<Rightarrow> (string \<times> any) list \<Rightarrow> go_error + (string \<times> any) list" where
  "decrypt_entries dec [] = Inr []"
| "decrypt_entries dec ((key, v) # kvs) =
     (case v of
        StrVal s \<Rightarrow>
          (if strings_HasPrefix s ConstEncryptKeyWords
           then (case dec (drop (length ConstEncryptKeyWords) s) of
                   Inl e \<Rightarrow> Inl e
                 | Inr t \<Rightarrow> (case decrypt_entries dec kvs of Inl e \<Rightarrow> Inl e | Inr r \<Rightarrow> Inr ((key, StrVal t) # r)))
           else decrypt_entries dec kvs)
      | _ \<Rightarrow> decrypt_entries dec kvs)"

definition decrypt_name :: "string \<Rightarrow> string" where
  "decrypt_name psname = SourceKeyDecryptPrefix @ ''_'' @ psname"

text \<open>\<open>ptr\<close> is the address the new source gets.\<close>

definition BuildDecryptForPropertySource ::
  "decryptor \<Rightarrow> nat \<Rightarrow> PropertySource \<Rightarrow> go_error + PropertySource" where
  "BuildDecryptForPropertySource dec ptr ps =
     (if strings_HasPrefix (ps_Name ps) SourceKeyDecryptPrefix
      then Inl (OtherError ''is already decrypt'')
      else (case decrypt_entries dec (ps_Source ps) of
              Inl e \<Rightarrow> Inl e
            | Inr kvs \<Rightarrow> Inr \<lparr>ps_ptr = ptr, ps_Name = decrypt_name (ps_Name ps), ps_Source = kvs\<rparr>))"

definition CreateOrUpdateDecryptForPropertySource ::
  "growth \<Rightarrow> decryptor \<Rightarrow> nat \<Rightarrow> PropertySource \<Rightarrow> MutablePropertySources \<Rightarrow> go_error option \<times> MutablePropertySources" where
  "CreateOrUpdateDecryptForPropertySource grow dec ptr ps m =
     (case BuildDecryptForPropertySource dec ptr ps of
        Inl e \<Rightarrow> (Some e, m)
      | Inr dsource \<Rightarrow>
          if 0 < length (ps_Source dsource) then AddBefore grow (ps_Name ps) dsource m
          else (None, RemoveIfPresent grow (ps_Name dsource) m))"

text \<open>The traversal of \<open>DecryptLocalConfig\<close>; the state carries the next free address.\<close>

definition decrypt_handler ::
  "growth \<Rightarrow> decryptor \<Rightarrow> PropertySource \<Rightarrow> nat \<times> MutablePropertySources
    \<Rightarrow> bool \<times> go_error option \<times> nat \<times> MutablePropertySources" where
  "decrypt_handler grow dec ps st =
     (if strings_HasPrefix (ps_Name ps) SourceKeyLocalPrefix
      then (case CreateOrUpdateDecryptForPropertySource grow dec (fst st) ps (snd st) of
              (Some e, m) \<Rightarrow> (True, Some e, Suc (fst st), m)
            | (None, m) \<Rightarrow> (False, None, Suc (fst st), m))
      else (False, None, st))"

definition DecryptLocalConfig ::
  "growth \<Rightarrow> decryptor \<Rightarrow> nat \<times> MutablePropertySources \<Rightarrow> go_error option \<times> nat \<times> MutablePropertySources" where
  "DecryptLocalConfig grow dec st = RangePropertySourceHandlerReverse (decrypt_handler grow dec) (snd st) st"

section \<open>Refresh\<close>

text \<open>\<open>strings.EqualFold\<close> on ASCII strings; configuration keys are ASCII.\<close>

definition lower :: "char \<Rightarrow> char" where
  "lower c = (if (65 :: nat) \<le> of_char c \<and> of_char c \<le> (90 :: nat) then char_of (of_char c + 32 :: nat) else c)"

definition strings_EqualFold :: "string \<Rightarrow> string \<Rightarrow> bool" where
  "strings_EqualFold s t = (map lower s = map lower t)"

text \<open>\<open>changes\<close> gives the keys removed, changed or new, with the new value.\<close>

definition changes :: "(string \<times> any) list \<Rightarrow> (string \<times> any) list \<Rightarrow> (string \<times> any) list" where
  "changes befor after =
     map (\<lambda>(k, v). (k, case map_of after k of None \<Rightarrow> NilVal | Some v' \<Rightarrow> v'))
         (filter (\<lambda>(k, v). map_of after k \<noteq> Some v) befor) @
     filter (\<lambda>(k, v). map_of befor k = None) after"

definition splitIndex :: "string \<Rightarrow> string \<times> bool" where
  "splitIndex key = (if CHR ''['' \<in> set key then (takeWhile (\<lambda>c. c \<noteq> CHR ''['') key, True) else (key, False))"

definition matchKeyWithoutIndex :: "string \<Rightarrow> string \<Rightarrow> bool" where
  "matchKeyWithoutIndex s t =
     (if length s < length t then False
      else if \<not> strings_EqualFold (take (length t) s) t then False
      else length s = length t \<or> s ! length t = CHR ''.'')"

definition matchRefreshKey :: "string \<Rightarrow> string \<Rightarrow> bool" where
  "matchRefreshKey s t = (let (sBase, sHasIndex) = splitIndex s; (tBase, tHasIndex) = splitIndex t in
     if sHasIndex \<and> tHasIndex then strings_EqualFold s t
     else if sHasIndex \<or> tHasIndex then matchKeyWithoutIndex sBase tBase
     else matchKeyWithoutIndex s t)"

text \<open>One round of the loop over the refreshed sources: the collection and the changed keys.\<close>

definition refresh_source ::
  "growth \<Rightarrow> decryptor \<Rightarrow> PropertySource \<Rightarrow> nat \<times> MutablePropertySources \<times> string list
    \<Rightarrow> nat \<times> MutablePropertySources \<times> string list" where
  "refresh_source grow dec ps st = (case st of (ptr, m, ks) \<Rightarrow>
     (case mps_Get (ps_Name ps) m of
        None \<Rightarrow> (ptr, m, ks)
      | Some psbefor \<Rightarrow>
          (let changs = changes (ps_Source psbefor) (ps_Source ps) in
           case BuildDecryptForPropertySource dec ptr ps of
             Inl e \<Rightarrow> (ptr, m, ks)
           | Inr dps \<Rightarrow>
               if mps_ContainsSource ps m
               then (case ReplaceSource ps m of
                       (Some e, m') \<Rightarrow> (Suc ptr, m', ks)
                     | (None, m') \<Rightarrow>
                         (Suc ptr,
                          if 0 < length (ps_Source dps) then snd (AddBefore grow (ps_Name ps) dps m')
                          else RemoveIfPresent grow (ps_Name dps) m',
                          ks @ map fst changs))
               else (Suc ptr, m, ks))))"

text \<open>The listeners run: the keys of the listener table that match a changed key, each with its
  listeners in the order of registration (the order between keys is that of a map).\<close>

definition invokeListeners :: "(string \<times> 'l list) list \<Rightarrow> string list \<Rightarrow> ('l \<times> string) list" where
  "invokeListeners refreshMap changeskeys =
     concat (map (\<lambda>(key, ls). if list_ex (\<lambda>ck. matchRefreshKey ck key) changeskeys
                              then map (\<lambda>l. (l, key)) ls else []) refreshMap)"

definition doRefreshPropertySource ::
  "growth \<Rightarrow> decryptor \<Rightarrow> (string \<times> 'l list) list \<Rightarrow> PropertySource list \<Rightarrow> nat \<times> MutablePropertySources
    \<Rightarrow> (nat \<times> MutablePropertySources) \<times> ('l \<times> string) list" where
  "doRefreshPropertySource grow dec refreshMap rpss st =
     (case fold (refresh_source grow dec) rpss (fst st, snd st, []) of (ptr, m, ks) \<Rightarrow>
        ((ptr, m), if ks = [] then [] else invokeListeners refreshMap ks))"

definition RegChangeListener :: "string \<Rightarrow> 'l \<Rightarrow> (string \<times> 'l list) list \<Rightarrow> (string \<times> 'l list) list" where
  "RegChangeListener key listener refreshMap =
     (case map_of refreshMap key of
        None \<Rightarrow> refreshMap @ [(key, [listener])]
      | Some ls \<Rightarrow> map (\<lambda>(k, l). if k = key then (k, l @ [listener]) else (k, l)) refreshMap)"

section \<open>The collection as a list and as a map from names\<close>

definition mps_inv :: "MutablePropertySources \<Rightarrow> bool" where
  "mps_inv m = (cows_inv (propertySourceList m) \<and> distinct (map ps_Name (mps_GetPropertySources m)))"

definition insert_at :: "nat \<Rightarrow> 'a \<Rightarrow> 'a list \<Rightarrow> 'a list" where
  "insert_at i x xs = take i xs @ x # drop i xs"

abbreviation without :: "string \<Rightarrow> PropertySource list \<Rightarrow> PropertySource list" where
  "without n xs \<equiv> filter (\<lambda>p. ps_Name p \<noteq> n) xs"

definition position :: "string \<Rightarrow> PropertySource list \<Rightarrow> nat" where
  "position n xs = length (takeWhile (\<lambda>p. ps_Name p \<noteq> n) xs)"

text \<open>The contract of the copy-on-write slice, at the operations the collection uses.\<close>

lemma cow_sources:
  assumes "cows_inv c"
  shows "cows_inv (cows_step grow opr c)"
    and "elems (cw_heap (cows_step grow opr c)) (cows_Value (cows_step grow opr c)) =
      list_op opr (elems (cw_heap c) (cows_Value c))"
  using cows.step_invar [OF assms] cows.step_value [OF assms] by auto

lemma sources_update:
  assumes "cows_inv (propertySourceList m)"
  shows "cows_inv (cows_step grow opr (propertySourceList m))"
    and "mps_GetPropertySources (m\<lparr>propertySourceList := cows_step grow opr (propertySourceList m)\<rparr>) =
      list_op opr (mps_GetPropertySources m)"
  using cow_sources [OF assms] by (simp_all add: mps_GetPropertySources_def)

lemmas sources_Add = sources_update [where opr = "OpAdd x" for x, simplified]
lemmas sources_AddIndex = sources_update [where opr = "OpAddIndex i x" for i x, simplified]
lemmas sources_Delete = sources_update [where opr = "OpDelete x" for x, simplified]
lemmas sources_DeleteIndex = sources_update [where opr = "OpDeleteIndex i" for i, simplified]
lemmas sources_Set = sources_update [where opr = "OpSet i x" for i x, simplified]

lemma index_from_takeWhile:
  "index_from i P xs = (if \<exists>x\<in>set xs. P x then int (i + length (takeWhile (\<lambda>x. \<not> P x) xs)) else - 1)"
  by (induction i P xs rule: index_from.induct) auto

lemma indexOfName_position:
  "mps_indexOfName n m = (if n \<in> ps_Name ` set (mps_GetPropertySources m)
     then int (position n (mps_GetPropertySources m)) else - 1)"
  by (auto simp: mps_indexOfName_def index_from_takeWhile position_def)

lemma filter_remove_found:
  assumes "distinct (map ps_Name xs)" and "find (\<lambda>ps. ps_Name ps = n) xs = Some p"
  shows "filter (\<lambda>v. v \<noteq> p) xs = without n xs"
proof -
  have p: "p \<in> set xs" "ps_Name p = n" using assms(2) by (auto simp: find_Some_iff)
  have "v = p \<longleftrightarrow> ps_Name v = n" if "v \<in> set xs" for v
    using assms(1) p that by (metis distinct_map inj_on_eq_iff)
  then show ?thesis by (intro filter_cong) auto
qed

lemma without_absent: "n \<notin> ps_Name ` set xs \<Longrightarrow> without n xs = xs"
  by (auto simp: filter_id_conv)

lemma removeIfPresent_spec:
  assumes "mps_inv m"
  shows "mps_GetPropertySources (removeIfPresent grow n m) = without n (mps_GetPropertySources m)"
    and "mps_inv (removeIfPresent grow n m)"
proof -
  let ?xs = "mps_GetPropertySources m"
  have inv: "cows_inv (propertySourceList m)" and d: "distinct (map ps_Name ?xs)"
    using assms by (auto simp: mps_inv_def)
  show eq: "mps_GetPropertySources (removeIfPresent grow n m) = without n ?xs"
  proof (cases "find (\<lambda>ps. ps_Name ps = n) ?xs")
    case None
    then have "n \<notin> ps_Name ` set ?xs" by (auto simp: find_None_iff)
    then show ?thesis using None by (simp add: removeIfPresent_def without_absent)
  next
    case (Some p)
    then show ?thesis
      by (simp add: removeIfPresent_def sources_Delete [OF inv] filter_remove_found [OF d Some])
  qed
  show "mps_inv (removeIfPresent grow n m)"
    using sources_Delete(1) [OF inv] assms d eq
    by (auto simp: mps_inv_def distinct_map_filter) (auto simp: removeIfPresent_def inv split: option.splits)
qed

lemma clip_nat [simp]: "clip (int i) n = min i n" "clip 0 n = 0" "clip (int i + 1) n = min (Suc i) n"
  by (simp_all add: clip_def nat_add_distrib)

lemma insert_at_min [simp]: "take (min i (length xs)) xs @ x # drop i xs = insert_at i x xs"
  by (simp add: insert_at_def min_def)

lemma AddFirst_spec:
  assumes "mps_inv m"
  shows "mps_GetPropertySources (AddFirst grow ps m) = ps # without (ps_Name ps) (mps_GetPropertySources m)"
    and "cows_inv (propertySourceList (AddFirst grow ps m))"
  using removeIfPresent_spec [OF assms]
  by (simp_all add: AddFirst_def Let_def mps_inv_def sources_AddIndex)

lemma AddLast_spec:
  assumes "mps_inv m"
  shows "mps_GetPropertySources (AddLast grow ps m) = without (ps_Name ps) (mps_GetPropertySources m) @ [ps]"
    and "cows_inv (propertySourceList (AddLast grow ps m))"
  using removeIfPresent_spec [OF assms]
  by (simp_all add: AddLast_def Let_def mps_inv_def sources_Add)

definition can_add :: "string \<Rightarrow> PropertySource \<Rightarrow> PropertySource list \<Rightarrow> bool" where
  "can_add name ps xs = (name \<noteq> ps_Name ps \<and> name \<in> ps_Name ` set xs)"

lemma AddBefore_spec:
  assumes "mps_inv m"
  shows "mps_GetPropertySources (snd (AddBefore grow name ps m)) =
      (if can_add name ps (mps_GetPropertySources m)
       then insert_at (position name (mps_GetPropertySources m)) ps
              (without (ps_Name ps) (mps_GetPropertySources m))
       else mps_GetPropertySources m)"
    and "cows_inv (propertySourceList (snd (AddBefore grow name ps m)))"
    and "fst (AddBefore grow name ps m) = None \<longleftrightarrow> can_add name ps (mps_GetPropertySources m)"
  using removeIfPresent_spec [OF assms, of grow "ps_Name ps"] assms
  by (auto simp: AddBefore_def Let_def mps_inv_def sources_AddIndex assertLegalRelativeAddition_def
      can_add_def indexOfName_position image_iff)

lemma AddAfter_spec:
  assumes "mps_inv m"
  shows "mps_GetPropertySources (snd (AddAfter grow name ps m)) =
      (if can_add name ps (mps_GetPropertySources m)
       then insert_at (Suc (position name (mps_GetPropertySources m))) ps
              (without (ps_Name ps) (mps_GetPropertySources m))
       else mps_GetPropertySources m)"
    and "cows_inv (propertySourceList (snd (AddAfter grow name ps m)))"
    and "fst (AddAfter grow name ps m) = None \<longleftrightarrow> can_add name ps (mps_GetPropertySources m)"
  using removeIfPresent_spec [OF assms, of grow "ps_Name ps"] assms
  by (auto simp: AddAfter_def Let_def mps_inv_def sources_AddIndex assertLegalRelativeAddition_def
      can_add_def indexOfName_position image_iff)

text \<open>With distinct names a source splits the list in a unique way.\<close>

lemma distinct_name_split:
  assumes "distinct (map ps_Name xs)" and "n \<in> ps_Name ` set xs"
  obtains us q vs where "xs = us @ q # vs" "ps_Name q = n" "n \<notin> ps_Name ` set us"
    "n \<notin> ps_Name ` set vs" "position n xs = length us"
proof -
  from assms(2) obtain q where q: "q \<in> set xs" "ps_Name q = n" by auto
  then obtain us vs where xs: "xs = us @ q # vs" by (meson split_list)
  then have n: "n \<notin> ps_Name ` set us" "n \<notin> ps_Name ` set vs" using assms(1) q by auto
  then have "position n xs = length us"
    using xs q by (auto simp: position_def takeWhile_append image_iff)
  then show ?thesis using that xs q n by blast
qed

lemma Remove_spec:
  assumes "mps_inv m"
  shows "mps_GetPropertySources (mps_Remove grow n m) = without n (mps_GetPropertySources m)"
    and "cows_inv (propertySourceList (mps_Remove grow n m))"
proof -
  let ?xs = "mps_GetPropertySources m"
  have inv: "cows_inv (propertySourceList m)" and d: "distinct (map ps_Name ?xs)"
    using assms by (auto simp: mps_inv_def)
  have "mps_GetPropertySources (mps_Remove grow n m) = list_op (OpDeleteIndex (mps_indexOfName n m)) ?xs"
    using sources_DeleteIndex(2) [OF inv] by (simp add: mps_Remove_def Let_def)
  also have "\<dots> = without n ?xs"
  proof (cases "n \<in> ps_Name ` set ?xs")
    case True
    then obtain us q vs where "?xs = us @ q # vs" "ps_Name q = n" "n \<notin> ps_Name ` set us"
      "n \<notin> ps_Name ` set vs" "position n ?xs = length us" using distinct_name_split [OF d] by blast
    then show ?thesis using True by (simp add: indexOfName_position without_absent)
  next
    case False
    then show ?thesis by (simp add: indexOfName_position without_absent)
  qed
  finally show "mps_GetPropertySources (mps_Remove grow n m) = without n ?xs" .
  show "cows_inv (propertySourceList (mps_Remove grow n m))"
    using sources_DeleteIndex(1) [OF inv] by (simp add: mps_Remove_def Let_def)
qed

lemma ReplaceSource_spec:
  assumes "mps_inv m"
  shows "mps_GetPropertySources (snd (ReplaceSource ps m)) =
      map (\<lambda>p. if ps_Name p = ps_Name ps then ps else p) (mps_GetPropertySources m)"
    and "cows_inv (propertySourceList (snd (ReplaceSource ps m)))"
    and "fst (ReplaceSource ps m) = None \<longleftrightarrow> ps_Name ps \<in> ps_Name ` set (mps_GetPropertySources m)"
proof -
  let ?xs = "mps_GetPropertySources m"
  have inv: "cows_inv (propertySourceList m)" and d: "distinct (map ps_Name ?xs)"
    using assms by (auto simp: mps_inv_def)
  show "mps_GetPropertySources (snd (ReplaceSource ps m)) = map (\<lambda>p. if ps_Name p = ps_Name ps then ps else p) ?xs"
  proof (cases "ps_Name ps \<in> ps_Name ` set ?xs")
    case True
    then obtain us q vs where s: "?xs = us @ q # vs" "ps_Name q = ps_Name ps" "ps_Name ps \<notin> ps_Name ` set us"
      "ps_Name ps \<notin> ps_Name ` set vs" "position (ps_Name ps) ?xs = length us"
      using distinct_name_split [OF d] by blast
    have "map (\<lambda>p. if ps_Name p = ps_Name ps then ps else p) us = us"
      "map (\<lambda>p. if ps_Name p = ps_Name ps then ps else p) vs = vs"
      using s(3,4) by (auto simp: image_iff intro!: map_idI)
    then show ?thesis using True s
      by (simp add: ReplaceSource_def mps_Replace_def indexOfName_position sources_Set [OF inv])
  next
    case False
    then have "map (\<lambda>p. if ps_Name p = ps_Name ps then ps else p) ?xs = ?xs"
      by (auto simp: image_iff intro!: map_idI)
    then show ?thesis using False by (simp add: ReplaceSource_def mps_Replace_def indexOfName_position)
  qed
  show "cows_inv (propertySourceList (snd (ReplaceSource ps m)))"
    using sources_Set(1) [OF inv] inv by (simp add: ReplaceSource_def mps_Replace_def Let_def)
  show "fst (ReplaceSource ps m) = None \<longleftrightarrow> ps_Name ps \<in> ps_Name ` set ?xs"
    by (simp add: ReplaceSource_def mps_Replace_def Let_def indexOfName_position)
qed

definition source_map :: "PropertySource list \<Rightarrow> string \<rightharpoonup> PropertySource" where
  "source_map xs = map_of (map (\<lambda>p. (ps_Name p, p)) xs)"

lemma find_source_map: "find (\<lambda>p. ps_Name p = n) xs = source_map xs n"
  by (induction xs) (auto simp: source_map_def)

lemma Get_source_map: "mps_Get n m = source_map (mps_GetPropertySources m) n"
  by (simp add: mps_Get_def EqualsName_def find_source_map)

lemma source_map_without: "source_map (without n xs) = (source_map xs)(n := None)"
  by (induction xs) (auto simp: source_map_def)

lemma source_map_insert_at:
  assumes "ps_Name p \<notin> ps_Name ` set xs"
  shows "source_map (insert_at i p xs) = (source_map xs)(ps_Name p \<mapsto> p)"
proof -
  have "source_map xs = source_map (take i xs @ drop i xs)" by simp
  moreover have "source_map (take i xs) (ps_Name p) = None"
    using assms by (auto simp: source_map_def map_of_eq_None_iff image_iff dest: in_set_takeD)
  ultimately show ?thesis
    by (auto simp: source_map_def insert_at_def map_add_def fun_eq_iff simp del: append_take_drop_id
        split: option.splits)
qed

lemma distinct_insert_at:
  assumes "distinct (map ps_Name xs)" and "ps_Name p \<notin> ps_Name ` set xs"
  shows "distinct (map ps_Name (insert_at i p xs))"
proof -
  have "distinct (map ps_Name (take i xs @ drop i xs))" "ps_Name p \<notin> ps_Name ` set (take i xs @ drop i xs)"
    using assms by simp_all
  then show ?thesis by (simp add: insert_at_def image_Un del: append_take_drop_id set_append)
      (simp add: image_Un del: append_take_drop_id)
qed

lemma insert_without:
  assumes "distinct (map ps_Name xs)"
  shows "distinct (map ps_Name (insert_at i p (without (ps_Name p) xs)))"
    and "source_map (insert_at i p (without (ps_Name p) xs)) = (source_map xs)(ps_Name p \<mapsto> p)"
proof -
  have n: "ps_Name p \<notin> ps_Name ` set (without (ps_Name p) xs)" by auto
  show "distinct (map ps_Name (insert_at i p (without (ps_Name p) xs)))"
    by (rule distinct_insert_at [OF distinct_map_filter [OF assms] n])
  show "source_map (insert_at i p (without (ps_Name p) xs)) = (source_map xs)(ps_Name p \<mapsto> p)"
    by (simp add: source_map_insert_at [OF n] source_map_without)
qed

lemma source_map_replace:
  "source_map (map (\<lambda>p. if ps_Name p = ps_Name ps then ps else p) xs) =
     (if ps_Name ps \<in> ps_Name ` set xs then (source_map xs)(ps_Name ps \<mapsto> ps) else source_map xs)"
  by (induction xs) (auto simp: source_map_def fun_eq_iff image_iff)

text \<open>The operations that change the collection, and what each does to the map from names.\<close>

datatype ps_op =
    PFirst PropertySource
  | PLast PropertySource
  | PBefore string PropertySource
  | PAfter string PropertySource
  | PRemove string
  | PReplace PropertySource
  | PRemoveIfPresent string

fun mps_step :: "growth \<Rightarrow> ps_op \<Rightarrow> MutablePropertySources \<Rightarrow> MutablePropertySources" where
  "mps_step grow (PFirst ps) m = AddFirst grow ps m"
| "mps_step grow (PLast ps) m = AddLast grow ps m"
| "mps_step grow (PBefore name ps) m = snd (AddBefore grow name ps m)"
| "mps_step grow (PAfter name ps) m = snd (AddAfter grow name ps m)"
| "mps_step grow (PRemove name) m = mps_Remove grow name m"
| "mps_step grow (PReplace ps) m = snd (ReplaceSource ps m)"
| "mps_step grow (PRemoveIfPresent name) m = RemoveIfPresent grow name m"

fun map_op :: "ps_op \<Rightarrow> (string \<rightharpoonup> PropertySource) \<Rightarrow> string \<rightharpoonup> PropertySource" where
  "map_op (PFirst ps) f = f(ps_Name ps \<mapsto> ps)"
| "map_op (PLast ps) f = f(ps_Name ps \<mapsto> ps)"
| "map_op (PBefore name ps) f = (if name \<noteq> ps_Name ps \<and> f name \<noteq> None then f(ps_Name ps \<mapsto> ps) else f)"
| "map_op (PAfter name ps) f = (if name \<noteq> ps_Name ps \<and> f name \<noteq> None then f(ps_Name ps \<mapsto> ps) else f)"
| "map_op (PRemove name) f = f(name := None)"
| "map_op (PReplace ps) f = (if f (ps_Name ps) \<noteq> None then f(ps_Name ps \<mapsto> ps) else f)"
| "map_op (PRemoveIfPresent name) f = f(name := None)"

lemma source_map_dom: "source_map xs n \<noteq> None \<longleftrightarrow> n \<in> ps_Name ` set xs"
  by (force simp: source_map_def map_of_eq_None_iff)

lemma mps_step_refines:
  assumes "mps_inv m"
  shows "mps_inv (mps_step grow opr m) \<and>
    source_map (mps_GetPropertySources (mps_step grow opr m)) = map_op opr (source_map (mps_GetPropertySources m))"
proof -
  let ?xs = "mps_GetPropertySources m"
  have d: "distinct (map ps_Name ?xs)" using assms by (simp add: mps_inv_def)
  note ins = insert_without [OF d]
  have first: "ps # without (ps_Name ps) ?xs = insert_at 0 ps (without (ps_Name ps) ?xs)" for ps
    by (simp add: insert_at_def)
  have last: "without (ps_Name ps) ?xs @ [ps] =
      insert_at (length (without (ps_Name ps) ?xs)) ps (without (ps_Name ps) ?xs)" for ps
    by (simp add: insert_at_def)
  show ?thesis
  proof (cases opr)
    case (PFirst ps)
    then show ?thesis using AddFirst_spec [OF assms] ins by (simp add: mps_inv_def first)
  next
    case (PLast ps)
    then show ?thesis using AddLast_spec [OF assms] ins by (simp add: mps_inv_def last)
  next
    case (PBefore name ps)
    then show ?thesis using AddBefore_spec [OF assms] ins d
      by (simp add: mps_inv_def can_add_def source_map_dom [symmetric])
  next
    case (PAfter name ps)
    then show ?thesis using AddAfter_spec [OF assms] ins d
      by (simp add: mps_inv_def can_add_def source_map_dom [symmetric])
  next
    case (PRemove name)
    then show ?thesis using Remove_spec [OF assms] d
      by (simp add: mps_inv_def source_map_without distinct_map_filter)
  next
    case (PReplace ps)
    have "map ps_Name (map (\<lambda>p. if ps_Name p = ps_Name ps then ps else p) ?xs) = map ps_Name ?xs"
      by simp
    then show ?thesis using PReplace ReplaceSource_spec [OF assms, of ps] d
      by (simp add: mps_inv_def source_map_replace source_map_dom [symmetric] del: map_map)
  next
    case (PRemoveIfPresent name)
    then show ?thesis using removeIfPresent_spec [OF assms]
      by (simp add: RemoveIfPresent_def source_map_without)
  qed
qed

lemma mps_inv_new: "mps_inv NewMutablePropertySources"
  using cows.new_invar
  by (simp add: mps_inv_def NewMutablePropertySources_def mps_GetPropertySources_def cows.new_empty)

lemma mps_run_refines:
  "mps_inv m \<Longrightarrow> mps_inv (fold (mps_step grow) ops m) \<and>
    source_map (mps_GetPropertySources (fold (mps_step grow) ops m)) =
      fold map_op ops (source_map (mps_GetPropertySources m))"
  by (induction ops arbitrary: m) (auto simp: mps_step_refines)

section \<open>Properties\<close>


lemma without_once:
  "distinct (map ps_Name xs) \<Longrightarrow> n \<in> ps_Name ` set xs \<Longrightarrow> Suc (length (without n xs)) = length xs"
  by (induction xs) (auto simp: without_absent)

lemma relative_split:
  assumes "distinct (map ps_Name (us @ q # vs))" and "ps_Name ps \<noteq> ps_Name q"
  shows "without (ps_Name ps) (us @ q # vs) = without (ps_Name ps) us @ q # without (ps_Name ps) vs"
    and "position (ps_Name q) (us @ q # vs) = length us"
    and "ps_Name ps \<in> ps_Name ` set us \<Longrightarrow> without (ps_Name ps) vs = vs"
    and "ps_Name ps \<in> ps_Name ` set us \<Longrightarrow> Suc (length (without (ps_Name ps) us)) = length us"
    and "ps_Name ps \<notin> ps_Name ` set us \<Longrightarrow> without (ps_Name ps) us = us"
proof -
  show "without (ps_Name ps) (us @ q # vs) = without (ps_Name ps) us @ q # without (ps_Name ps) vs"
    using assms by simp
  show "position (ps_Name q) (us @ q # vs) = length us"
    using assms by (auto simp: position_def takeWhile_append image_iff)
  show "ps_Name ps \<in> ps_Name ` set us \<Longrightarrow> without (ps_Name ps) vs = vs"
    using assms by (intro without_absent) auto
qed (use assms in \<open>auto intro: without_once without_absent\<close>)

text \<open>\<open>AddBefore\<close> relative to a present source puts the new source directly in front of it and
  \<open>AddAfter\<close> directly behind it, the old source of the same name removed, except when that old
  source stood earlier: the index is taken before the removal, so \<open>AddBefore\<close> then places the source
  directly behind the named one and \<open>AddAfter\<close> one place too far.\<close>

theorem relative_addition_position:
  assumes "mps_inv m" and "mps_GetPropertySources m = us @ q # vs" and "ps_Name ps \<noteq> ps_Name q"
  shows "fst (AddBefore grow (ps_Name q) ps m) = None \<and> fst (AddAfter grow (ps_Name q) ps m) = None \<and>
    mps_GetPropertySources (snd (AddBefore grow (ps_Name q) ps m)) =
      (if ps_Name ps \<in> ps_Name ` set us then without (ps_Name ps) us @ q # ps # vs
       else us @ ps # q # without (ps_Name ps) vs) \<and>
    mps_GetPropertySources (snd (AddAfter grow (ps_Name q) ps m)) =
      (if ps_Name ps \<in> ps_Name ` set us then without (ps_Name ps) us @ q # take 1 vs @ ps # drop 1 vs
       else us @ q # ps # without (ps_Name ps) vs)"
proof -
  have d: "distinct (map ps_Name (us @ q # vs))" using assms(1,2) by (simp add: mps_inv_def)
  note split = relative_split [OF d assms(3)]
  have c: "can_add (ps_Name q) ps (us @ q # vs)" using assms(3) by (simp add: can_add_def)
  show ?thesis
  proof (cases "ps_Name ps \<in> ps_Name ` set us")
    case True
    obtain n where n: "length us = Suc n" "length (without (ps_Name ps) us) = n"
      using split(4) [OF True] by auto
    show ?thesis
      using AddBefore_spec [OF assms(1), of grow "ps_Name q" ps] AddAfter_spec [OF assms(1), of grow "ps_Name q" ps]
        c split(1,2) split(3) [OF True] True
      by (simp add: assms(2) insert_at_def n)
  next
    case False
    then show ?thesis
      using AddBefore_spec [OF assms(1), of grow "ps_Name q" ps] AddAfter_spec [OF assms(1), of grow "ps_Name q" ps]
        c split(1,2) split(5) [OF False]
      by (simp add: assms(2) insert_at_def)
  qed
qed

definition exact_growth :: growth where
  "exact_growth c n = n"

definition named :: "nat \<Rightarrow> string \<Rightarrow> PropertySource" where
  "named i n = \<lparr>ps_ptr = i, ps_Name = n, ps_Source = []\<rparr>"

theorem relative_addition_position_witness:
  "\<exists>m us q vs. mps_inv m \<and> mps_GetPropertySources m = us @ q # vs \<and> ps_Name (named 3 ''a'') \<noteq> ps_Name q \<and>
     mps_GetPropertySources (snd (AddBefore exact_growth (ps_Name q) (named 3 ''a'') m)) =
       [named 1 ''b'', named 3 ''a'']"
proof -
  let ?m = "fold (mps_step exact_growth) [PLast (named 0 ''a''), PLast (named 1 ''b'')] NewMutablePropertySources"
  have inv: "mps_inv ?m" using mps_run_refines [OF mps_inv_new] by blast
  have l: "mps_GetPropertySources ?m = [named 0 ''a''] @ named 1 ''b'' # []"
    using AddLast_spec [OF mps_inv_new, of exact_growth "named 0 ''a''"]
      AddLast_spec(1) [of "fold (mps_step exact_growth) [PLast (named 0 ''a'')] NewMutablePropertySources" exact_growth "named 1 ''b''"]
      mps_run_refines [OF mps_inv_new, of exact_growth "[PLast (named 0 ''a'')]"]
    by (simp add: NewMutablePropertySources_def mps_GetPropertySources_def cows.new_empty named_def)
  have n: "ps_Name (named 3 ''a'') \<noteq> ps_Name (named 1 ''b'')" by (simp add: named_def)
  have "mps_GetPropertySources (snd (AddBefore exact_growth (ps_Name (named 1 ''b'')) (named 3 ''a'') ?m)) =
      [named 1 ''b'', named 3 ''a'']"
    using relative_addition_position [OF inv l n, of exact_growth] by (simp add: named_def)
  then show ?thesis using inv l n by blast
qed

text \<open>The refresh of one source: what the loop round does to the collection.\<close>

lemma refresh_source_found:
  assumes "mps_inv m" and "mps_Get (ps_Name ps) m = Some p"
    and "BuildDecryptForPropertySource dec ptr ps = Inr d"
  shows "refresh_source grow dec ps (ptr, m, ks) =
    (Suc ptr,
     if ps_Source d \<noteq> [] then snd (AddBefore grow (ps_Name ps) d (snd (ReplaceSource ps m)))
     else RemoveIfPresent grow (ps_Name d) (snd (ReplaceSource ps m)),
     ks @ map fst (changes (ps_Source p) (ps_Source ps)))"
proof -
  have "source_map (mps_GetPropertySources m) (ps_Name ps) \<noteq> None"
    using assms(2) by (simp add: Get_source_map)
  then have in_names: "ps_Name ps \<in> ps_Name ` set (mps_GetPropertySources m)"
    by (simp only: source_map_dom)
  then obtain x where "x \<in> set (mps_GetPropertySources m)" "ps_Name x = ps_Name ps" by auto
  then have "mps_ContainsSource ps m"
    by (auto simp: mps_ContainsSource_def mps_Contains_def EqualsName_def list_ex_iff)
  moreover obtain m' where "ReplaceSource ps m = (None, m')"
    using ReplaceSource_spec(3) [OF assms(1), of ps] in_names by (cases "ReplaceSource ps m") simp
  ultimately show ?thesis using assms(2,3) by (simp add: refresh_source_def)
qed

lemma replace_at:
  assumes "distinct (map ps_Name (us @ p # vs))" and "ps_Name ps = ps_Name p"
  shows "map (\<lambda>x. if ps_Name x = ps_Name ps then ps else x) (us @ p # vs) = us @ ps # vs"
proof -
  have "map (\<lambda>x. if ps_Name x = ps_Name ps then ps else x) xs = xs" if "ps_Name p \<notin> ps_Name ` set xs" for xs
    using that assms(2) by (auto simp: image_iff intro!: map_idI)
  then show ?thesis using assms by simp
qed

lemma BuildDecrypt_name:
  "BuildDecryptForPropertySource dec ptr ps = Inr d \<Longrightarrow> ps_Name d = decrypt_name (ps_Name ps)"
  by (auto simp: BuildDecryptForPropertySource_def split: if_splits sum.splits)

lemma decrypt_name_neq: "decrypt_name n \<noteq> n"
  by (simp add: decrypt_name_def SourceKeyDecryptPrefix_def)

lemma refresh_positions:
  assumes inv: "mps_inv m" and items: "mps_GetPropertySources m = us @ p # vs"
    and name: "ps_Name ps = ps_Name p"
    and d: "BuildDecryptForPropertySource dec ptr ps = Inr d" "ps_Source d \<noteq> []"
  shows "mps_inv (fst (snd (refresh_source grow dec ps (ptr, m, ks)))) \<and>
    mps_GetPropertySources (fst (snd (refresh_source grow dec ps (ptr, m, ks)))) =
      (if ps_Name d \<in> ps_Name ` set us then without (ps_Name d) us @ ps # d # vs
       else us @ d # ps # without (ps_Name d) vs)"
proof -
  have dist: "distinct (map ps_Name (us @ p # vs))" using inv items by (simp add: mps_inv_def)
  let ?m = "snd (ReplaceSource ps m)"
  have m: "mps_inv ?m" using mps_step_refines [OF inv, of undefined "PReplace ps"] by simp
  have l: "mps_GetPropertySources ?m = us @ ps # vs"
    using ReplaceSource_spec(1) [OF inv, of ps] replace_at [OF dist name] items by simp
  have "source_map (mps_GetPropertySources m) (ps_Name ps) \<noteq> None"
    unfolding source_map_dom using items name by simp
  then obtain q where "mps_Get (ps_Name ps) m = Some q" by (auto simp: Get_source_map)
  note step = refresh_source_found [OF inv this d(1)]
  have n: "ps_Name d \<noteq> ps_Name ps" using BuildDecrypt_name [OF d(1)] decrypt_name_neq by simp
  have "mps_inv (snd (AddBefore grow (ps_Name ps) d ?m))"
    using mps_step_refines [OF m, of grow "PBefore (ps_Name ps) d"] by simp
  moreover have "can_add (ps_Name ps) d (us @ ps # vs)" using n by (simp add: can_add_def)
  moreover have dist': "distinct (map ps_Name (us @ ps # vs))" using dist name by simp
  note split = relative_split [OF dist' n]
  have "mps_GetPropertySources (snd (AddBefore grow (ps_Name ps) d ?m)) =
      insert_at (length us) d (without (ps_Name d) us @ ps # without (ps_Name d) vs)"
    using AddBefore_spec(1) [OF m, of grow "ps_Name ps" d] split(1,2) calculation by (simp add: l)
  moreover have "insert_at (length us) d (without (ps_Name d) us @ ps # without (ps_Name d) vs) =
      (if ps_Name d \<in> ps_Name ` set us then without (ps_Name d) us @ ps # d # vs
       else us @ d # ps # without (ps_Name d) vs)"
  proof (cases "ps_Name d \<in> ps_Name ` set us")
    case True
    then obtain n where "length us = Suc n" "length (without (ps_Name d) us) = n" using split(4) by auto
    then show ?thesis using split(3) [OF True] True by (simp add: insert_at_def)
  next
    case False
    then show ?thesis using split(5) by (simp add: insert_at_def)
  qed
  ultimately show ?thesis using d(2) by (simp add: step)
qed

text \<open>What a change is.\<close>

lemma changes_keys:
  assumes "distinct (map fst befor)" and "distinct (map fst after)"
  shows "k \<in> set (map fst (changes befor after)) \<longleftrightarrow> map_of befor k \<noteq> map_of after k"
proof -
  have b: "(k, v) \<in> set befor \<longleftrightarrow> map_of befor k = Some v"
    and a: "(k, v) \<in> set after \<longleftrightarrow> map_of after k = Some v" for v
    using assms by simp_all
  have "k \<in> set (map fst (changes befor after)) \<longleftrightarrow>
      (\<exists>v. (k, v) \<in> set befor \<and> map_of after k \<noteq> Some v) \<or> (\<exists>v. (k, v) \<in> set after \<and> map_of befor k = None)"
    by (force simp: changes_def image_iff)
  then show ?thesis unfolding b a by (cases "map_of befor k"; cases "map_of after k") auto
qed

lemma invokeListeners_iff:
  "(l, key) \<in> set (invokeListeners tbl ks) \<longleftrightarrow>
     (\<exists>ls. (key, ls) \<in> set tbl \<and> l \<in> set ls) \<and> (\<exists>ck\<in>set ks. matchRefreshKey ck key)"
  by (auto simp: invokeListeners_def list_ex_iff split: if_splits)

lemma invokeListeners_Nil: "invokeListeners tbl [] = []"
  by (auto simp: invokeListeners_def)

text \<open>C16: When a known source is refreshed and its encrypted values can be decrypted, a change listener
  registered under a key runs exactly when some property whose value was added, changed or removed
  matches that key.\<close>

theorem refresh_notifies_changes:
  assumes "mps_inv m" and "mps_Get (ps_Name ps) m = Some p"
    and "BuildDecryptForPropertySource dec ptr ps = Inr d"
    and "distinct (map fst (ps_Source p))" and "distinct (map fst (ps_Source ps))"
  shows "(l, key) \<in> set (snd (doRefreshPropertySource grow dec tbl [ps] (ptr, m))) \<longleftrightarrow>
    (\<exists>ls. (key, ls) \<in> set tbl \<and> l \<in> set ls) \<and>
    (\<exists>k. map_of (ps_Source p) k \<noteq> map_of (ps_Source ps) k \<and> matchRefreshKey k key)"
proof -
  let ?ks = "map fst (changes (ps_Source p) (ps_Source ps))"
  have "snd (doRefreshPropertySource grow dec tbl [ps] (ptr, m)) = invokeListeners tbl ?ks"
    by (auto simp: doRefreshPropertySource_def refresh_source_found [OF assms(1-3)] invokeListeners_Nil)
  then show ?thesis
    by (simp only: invokeListeners_iff Bex_def changes_keys [OF assms(4,5)])
qed

definition server_conf :: "string \<Rightarrow> PropertySource" where
  "server_conf port = \<lparr>ps_ptr = 0, ps_Name = ''[LOCAL]-app.yml'',
     ps_Source = [(''server.port'', StrVal port), (''name'', StrVal ''demo'')]\<rparr>"

lemma mps_inv_AddLast: "mps_inv (AddLast grow ps NewMutablePropertySources)"
  and items_AddLast: "mps_GetPropertySources (AddLast grow ps NewMutablePropertySources) = [ps]"
  using mps_step_refines [OF mps_inv_new, of grow "PLast ps"] AddLast_spec(1) [OF mps_inv_new, of grow ps]
  by (simp_all add: NewMutablePropertySources_def mps_GetPropertySources_def cows.new_empty)

theorem refresh_notifies_changes_witness:
  "(7 :: nat, ''Server'') \<in> set (snd (doRefreshPropertySource exact_growth Inr [(''Server'', [7 :: nat])]
     [server_conf ''81''] (1, AddLast exact_growth (server_conf ''80'') NewMutablePropertySources)))"
proof -
  let ?m = "AddLast exact_growth (server_conf ''80'') NewMutablePropertySources"
  have g: "mps_Get (ps_Name (server_conf ''81'')) ?m = Some (server_conf ''80'')"
    by (simp add: mps_Get_def EqualsName_def items_AddLast server_conf_def)
  obtain d where d: "BuildDecryptForPropertySource Inr 1 (server_conf ''81'') = Inr d"
    by (simp add: BuildDecryptForPropertySource_def server_conf_def strings_HasPrefix_def
        SourceKeyDecryptPrefix_def ConstEncryptKeyWords_def)
  have k: "distinct (map fst (ps_Source (server_conf ''80'')))" "distinct (map fst (ps_Source (server_conf ''81'')))"
    by (simp_all add: server_conf_def)
  have "matchRefreshKey ''server.port'' ''Server''" by code_simp
  moreover have "map_of (ps_Source (server_conf ''80'')) ''server.port'' \<noteq> map_of (ps_Source (server_conf ''81'')) ''server.port''"
    by (simp add: server_conf_def)
  ultimately show ?thesis
    using refresh_notifies_changes [OF mps_inv_AddLast g d k, of "7 :: nat" "''Server''" exact_growth "[(''Server'', [7])]"]
    by auto
qed

end
