(* ===== verification/Placeholder.thy ===== *)
theory Placeholder
  imports PropertySources
begin

text \<open>
  Placeholder expansion of \<open>ag/ag_conf/property_placeholder_helper.go\<close>: \<open>${key}\<close> and
  \<open>${key:default}\<close> are replaced by the value of the key, recursively in the key, in the value and in
  the default, with a set of visited placeholders against circular definitions. The recursion is not
  bounded by the text (a value may bring new placeholders), so the model has fuel, and running out
  of fuel is the outcome \<open>Diverges\<close>: a theorem that an expansion returns shows that it terminates.
  The specification is a big-step semantics of templates. The pooled string builder is not modelled:
  nested calls use different builders, and each one starts with a reset.
\<close>

section \<open>The helper\<close>

record PropertyPlaceholderHelper =
  PlaceholderPrefix :: string
  PlaceholderSuffix :: string
  ValueSeparator :: string
  IgnoreUnresolvablePlaceholders :: bool

definition NewPropertyPlaceholderHelper :: "string \<Rightarrow> string \<Rightarrow> string \<Rightarrow> bool \<Rightarrow> PropertyPlaceholderHelper" where
  "NewPropertyPlaceholderHelper placeholderPrefix placeholderSuffix valueSeparator ignore =
     \<lparr>PlaceholderPrefix = placeholderPrefix, PlaceholderSuffix = placeholderSuffix,
      ValueSeparator = valueSeparator, IgnoreUnresolvablePlaceholders = ignore\<rparr>"

datatype placeholder_error =
    CircularReference string
  | CouldNotResolve string string

text \<open>\<open>strings.Index\<close>, with \<open>None\<close> for -1.\<close>

fun strings_Index :: "string \<Rightarrow> string \<Rightarrow> nat option" where
  "strings_Index [] sub = (if sub = [] then Some 0 else None)"
| "strings_Index (c # cs) sub =
     (if strings_HasPrefix (c # cs) sub then Some 0 else map_option Suc (strings_Index cs sub))"

fun end_loop :: "nat \<Rightarrow> PropertyPlaceholderHelper \<Rightarrow> string \<Rightarrow> nat \<Rightarrow> nat \<Rightarrow> nat option go" where
  "end_loop 0 ph buf index nested = Inl Diverges"
| "end_loop (Suc fuel) ph buf index nested =
     (if index < length buf
      then if strings_HasPrefix (drop index buf) (PlaceholderSuffix ph)
           then if 0 < nested
                then end_loop fuel ph buf (index + length (PlaceholderSuffix ph)) (nested - 1)
                else Inr (Some index)
           else if strings_HasPrefix (drop index buf) (PlaceholderPrefix ph)
                then end_loop fuel ph buf (index + length (PlaceholderPrefix ph)) (Suc nested)
                else end_loop fuel ph buf (Suc index) nested
      else Inr None)"

text \<open>Every round of the loop moves the index unless the prefix is empty, so the length of the text
  is enough fuel.\<close>

definition findPlaceholderEndIndex :: "PropertyPlaceholderHelper \<Rightarrow> string \<Rightarrow> nat \<Rightarrow> nat option go" where
  "findPlaceholderEndIndex ph buf startIndex =
     end_loop (Suc (length buf)) ph buf (startIndex + length (PlaceholderPrefix ph)) 0"

text \<open>The value of a resolved placeholder: the resolver's, or that of the part before the separator,
  or the default behind it. The resolver is a function of the client, which may panic.\<close>

definition placeholder_value :: "PropertyPlaceholderHelper \<Rightarrow> (string \<Rightarrow> string go) \<Rightarrow> string \<Rightarrow> string go" where
  "placeholder_value ph resolver resolved = go_bind (resolver resolved) (\<lambda>propVal.
     if propVal = [] \<and> ValueSeparator ph \<noteq> []
     then (case strings_Index resolved (ValueSeparator ph) of
             None \<Rightarrow> Inr propVal
           | Some sepIdx \<Rightarrow> go_bind (resolver (take sepIdx resolved)) (\<lambda>propVal.
               Inr (if propVal = [] then drop (sepIdx + length (ValueSeparator ph)) resolved else propVal)))
     else Inr propVal)"

text \<open>The visited map is shared by the nested calls, so it is passed in and handed back.\<close>

type_synonym parse_result = "((placeholder_error + string) \<times> string list) go"

definition next_placeholder :: "PropertyPlaceholderHelper \<Rightarrow> string \<Rightarrow> nat \<Rightarrow> nat option" where
  "next_placeholder ph buf searchPos =
     map_option (\<lambda>i. searchPos + i) (strings_Index (drop searchPos buf) (PlaceholderPrefix ph))"

fun parseStringValueWithVisited ::
    "nat \<Rightarrow> PropertyPlaceholderHelper \<Rightarrow> (string \<Rightarrow> string go) \<Rightarrow> string \<Rightarrow> string list \<Rightarrow> parse_result"
  and parse_loop ::
    "nat \<Rightarrow> PropertyPlaceholderHelper \<Rightarrow> (string \<Rightarrow> string go) \<Rightarrow> string \<Rightarrow> string \<Rightarrow> nat option \<Rightarrow> string list \<Rightarrow> parse_result"
where
  "parseStringValueWithVisited 0 ph resolver val visited = Inl Diverges"
| "parseStringValueWithVisited (Suc fuel) ph resolver val visited =
     parse_loop fuel ph resolver val val (strings_Index val (PlaceholderPrefix ph)) visited"
| "parse_loop 0 ph resolver val builder startIndex visited = Inl Diverges"
| "parse_loop (Suc fuel) ph resolver val builder startIndex visited =
     (case startIndex of
        None \<Rightarrow> Inr (Inr builder, visited)
      | Some start \<Rightarrow>
          go_bind (findPlaceholderEndIndex ph builder start) (\<lambda>end_index. case end_index of
            None \<Rightarrow> Inr (Inr builder, visited)
          | Some endIndex \<Rightarrow>
              go_bind (go_slice builder (start + length (PlaceholderPrefix ph)) endIndex) (\<lambda>placeholder.
              if placeholder \<in> set visited then Inr (Inl (CircularReference placeholder), visited)
              else go_bind (parseStringValueWithVisited fuel ph resolver placeholder (placeholder # visited))
                (\<lambda>(res, visited). case res of
                  Inl e \<Rightarrow> Inr (Inl e, visited)
                | Inr resolvedPlaceholder \<Rightarrow>
                    go_bind (placeholder_value ph resolver resolvedPlaceholder) (\<lambda>propVal.
                    if propVal \<noteq> []
                    then go_bind (parseStringValueWithVisited fuel ph resolver propVal visited)
                      (\<lambda>(res, visited). case res of
                        Inl e \<Rightarrow> Inr (Inl e, visited)
                      | Inr resolvedValue \<Rightarrow>
                          go_bind (go_slice builder (endIndex + length (PlaceholderSuffix ph)) (length builder))
                          (\<lambda>tail. let newStr = take start builder @ resolvedValue @ tail in
                             parse_loop fuel ph resolver val newStr
                               (next_placeholder ph newStr (start + length resolvedValue))
                               (removeAll placeholder visited)))
                    else if IgnoreUnresolvablePlaceholders ph
                    then parse_loop fuel ph resolver val builder
                           (next_placeholder ph builder (endIndex + length (PlaceholderSuffix ph)))
                           (removeAll placeholder visited)
                    else Inr (Inl (CouldNotResolve resolvedPlaceholder val), visited))))))"

definition parseStringValue ::
  "nat \<Rightarrow> PropertyPlaceholderHelper \<Rightarrow> (string \<Rightarrow> string go) \<Rightarrow> string \<Rightarrow> (placeholder_error + string) go" where
  "parseStringValue fuel ph resolver val =
     go_bind (parseStringValueWithVisited fuel ph resolver val []) (\<lambda>(res, visited). Inr res)"

definition ReplacePlaceholders ::
  "nat \<Rightarrow> PropertyPlaceholderHelper \<Rightarrow> (string \<Rightarrow> string go) \<Rightarrow> string \<Rightarrow> (placeholder_error + string) go" where
  "ReplacePlaceholders fuel ph resolver val =
     (if val = [] then Inr (Inr []) else parseStringValue fuel ph resolver val)"

definition ConstPlaceholderPrefix :: string where "ConstPlaceholderPrefix = ''${''"
definition ConstPlaceholderSuffix :: string where "ConstPlaceholderSuffix = ''}''"
definition ConstValueSeparator :: string where "ConstValueSeparator = '':''"

definition std_helper :: "bool \<Rightarrow> PropertyPlaceholderHelper" where
  "std_helper ignore = NewPropertyPlaceholderHelper ConstPlaceholderPrefix ConstPlaceholderSuffix
     ConstValueSeparator ignore"

lemma std_helper_fields [simp]:
  "PlaceholderPrefix (std_helper b) = ''${''"
  "PlaceholderSuffix (std_helper b) = ''}''"
  "ValueSeparator (std_helper b) = '':''"
  "IgnoreUnresolvablePlaceholders (std_helper b) = b"
  by (simp_all add: std_helper_def NewPropertyPlaceholderHelper_def ConstPlaceholderPrefix_def
      ConstPlaceholderSuffix_def ConstValueSeparator_def)

section \<open>Templates\<close>

text \<open>A template is a text in which a placeholder is a node. Literal characters are all but \<open>$\<close> and
  \<open>}\<close>, so that the rendered text has only the placeholders of the template.\<close>

datatype tmpl = Lit char | Ph "tmpl list"

fun render :: "tmpl list \<Rightarrow> string" where
  "render [] = []"
| "render (Lit c # ts) = c # render ts"
| "render (Ph ks # ts) = ''${'' @ render ks @ ''}'' @ render ts"

fun wf_tmpl :: "tmpl list \<Rightarrow> bool" where
  "wf_tmpl [] = True"
| "wf_tmpl (Lit c # ts) = (c \<noteq> CHR ''$'' \<and> c \<noteq> CHR ''}'' \<and> wf_tmpl ts)"
| "wf_tmpl (Ph ks # ts) = (wf_tmpl ks \<and> wf_tmpl ts)"

text \<open>The value of a key in a configuration of templates: its own, or that of the part before the
  first colon, or the text behind the colon. An empty template is a missing key.\<close>

definition tmpl_value :: "(string \<Rightarrow> tmpl list) \<Rightarrow> string \<Rightarrow> tmpl list" where
  "tmpl_value E k = (if E k \<noteq> [] then E k else
     case strings_Index k '':'' of
       None \<Rightarrow> []
     | Some i \<Rightarrow> if E (take i k) \<noteq> [] then E (take i k) else map Lit (drop (Suc i) k))"

text \<open>\<open>resolves E n ts s\<close>: the template \<open>ts\<close> expands to \<open>s\<close>, with at most \<open>n\<close> placeholders on a
  path of nested keys and values.\<close>

inductive resolves :: "(string \<Rightarrow> tmpl list) \<Rightarrow> nat \<Rightarrow> tmpl list \<Rightarrow> string \<Rightarrow> bool" for E where
  resolves_Nil: "resolves E n [] []"
| resolves_Lit: "resolves E n ts s \<Longrightarrow> resolves E n (Lit c # ts) (c # s)"
| resolves_Ph: "resolves E n ks k \<Longrightarrow> tmpl_value E k \<noteq> [] \<Longrightarrow> resolves E n (tmpl_value E k) w \<Longrightarrow>
    resolves E (Suc n) ts s \<Longrightarrow> resolves E (Suc n) (Ph ks # ts) (w @ s)"

inductive_cases resolves_NilE [elim!]: "resolves E n [] s"
inductive_cases resolves_LitE: "resolves E n (Lit c # ts) s"
inductive_cases resolves_PhE: "resolves E n (Ph ks # ts) s"

section \<open>Lemmas on templates\<close>

lemma render_eq_Nil [simp]: "render ts = [] \<longleftrightarrow> ts = []"
  by (cases ts rule: render.cases) auto

lemma render_map_Lit [simp]: "render (map Lit s) = s"
  by (induction s) auto

lemma wf_map_Lit: "wf_tmpl (map Lit s) \<longleftrightarrow> CHR ''$'' \<notin> set s \<and> CHR ''}'' \<notin> set s"
  by (induction s) auto

text \<open>Rendering is injective: a text ends where a \<open>}\<close> that no placeholder opens stands.\<close>

definition closes :: "string \<Rightarrow> bool" where
  "closes x = (x = [] \<or> hd x = CHR ''}'')"

lemma render_inj_closed:
  assumes "wf_tmpl ts" and "wf_tmpl us" and "render ts @ x = render us @ y" and "closes x" and "closes y"
  shows "ts = us \<and> x = y"
  using assms
proof (induction ts arbitrary: us x y rule: render.induct)
  case 1
  then show ?case by (cases us rule: render.cases) (auto simp: closes_def)
next
  case (2 c ts)
  then show ?case by (cases us rule: render.cases) (auto simp: closes_def)
next
  case (3 ks ts)
  show ?case
  proof (cases us rule: render.cases)
    case (3 ls us')
    have "render ks @ (''}'' @ render ts @ x) = render ls @ (''}'' @ render us' @ y)"
      using "3.prems"(3) \<open>us = Ph ls # us'\<close> by simp
    moreover have "wf_tmpl ks" "wf_tmpl ls" using "3.prems" \<open>us = Ph ls # us'\<close> by auto
    ultimately have "ks = ls \<and> ''}'' @ render ts @ x = ''}'' @ render us' @ y"
      by (intro "3.IH"(1)) (simp_all add: closes_def)
    then show ?thesis using "3.IH"(2) [of us' x y] "3.prems" \<open>us = Ph ls # us'\<close> by simp
  qed (use "3.prems" in \<open>auto simp: closes_def\<close>)
qed

lemma render_inj: "wf_tmpl ts \<Longrightarrow> wf_tmpl us \<Longrightarrow> render ts = render us \<Longrightarrow> ts = us"
  using render_inj_closed [of ts us "[]" "[]"] by (simp add: closes_def)

lemma resolves_mono: "resolves E n ts s \<Longrightarrow> n \<le> m \<Longrightarrow> resolves E m ts s"
proof (induction arbitrary: m rule: resolves.induct)
  case (resolves_Ph n ks k w ts s)
  then obtain m' where "m = Suc m'" "n \<le> m'" by (cases m) auto
  then show ?case using resolves_Ph.IH resolves_Ph.hyps resolves_Ph.prems
    by (auto intro!: resolves.resolves_Ph [where k = k])
qed (auto intro: resolves.intros)

lemma resolves_det: "resolves E n ts s \<Longrightarrow> resolves E m ts s' \<Longrightarrow> s = s'"
proof (induction arbitrary: m s' rule: resolves.induct)
  case (resolves_Lit n ts s c)
  then show ?case by (blast elim: resolves_LitE)
next
  case (resolves_Ph n ks k w ts s)
  obtain m' k' w' r where m: "s' = w' @ r" "resolves E m' ks k'" "resolves E m' (tmpl_value E k') w'"
    "resolves E (Suc m') ts r" using resolves_Ph.prems by (elim resolves_PhE)
  then have "k = k'" using resolves_Ph.IH(1) by blast
  then show ?case using m resolves_Ph.IH by blast
qed blast

definition wf_conf :: "(string \<Rightarrow> tmpl list) \<Rightarrow> bool" where
  "wf_conf E = (\<forall>k. wf_tmpl (E k))"

lemma strings_Index_le: "strings_Index s sub = Some i \<Longrightarrow> i + length sub \<le> length s"
  by (induction s sub arbitrary: i rule: strings_Index.induct)
    (auto simp: strings_HasPrefix_def split: if_splits dest: arg_cong [of _ _ length])

lemma plain_value:
  assumes "wf_conf E" and "CHR ''$'' \<notin> set k" and "CHR ''}'' \<notin> set k"
  shows "wf_tmpl (tmpl_value E k)"
  using assms by (auto simp: tmpl_value_def wf_conf_def wf_map_Lit dest: in_set_dropD split: option.splits)

lemma resolves_plain:
  "resolves E n ts s \<Longrightarrow> wf_conf E \<Longrightarrow> wf_tmpl ts \<Longrightarrow> CHR ''$'' \<notin> set s \<and> CHR ''}'' \<notin> set s"
  by (induction rule: resolves.induct) (auto simp: plain_value)

section \<open>Searching rendered text\<close>

lemma HasPrefix_simps [simp]:
  "strings_HasPrefix s []"
  "strings_HasPrefix [] (p # ps) = False"
  "strings_HasPrefix (c # s) (p # ps) = (c = p \<and> strings_HasPrefix s ps)"
  by (auto simp: strings_HasPrefix_def)

fun tmpl_steps :: "tmpl list \<Rightarrow> nat" where
  "tmpl_steps [] = 0"
| "tmpl_steps (Lit c # ts) = Suc (tmpl_steps ts)"
| "tmpl_steps (Ph ks # ts) = tmpl_steps ks + tmpl_steps ts + 2"

lemma tmpl_steps_le: "tmpl_steps ts \<le> length (render ts)"
  by (induction ts rule: tmpl_steps.induct) auto

lemma drop_eq_Cons: "drop i xs = c # ys \<Longrightarrow> i < length xs \<and> drop (Suc i) xs = ys"
  by (metis Cons_nth_drop_Suc drop_eq_Nil2 list.distinct(1) list.inject not_le)

text \<open>The search for the closing brace runs over a well-formed template and comes back at the same
  nesting depth.\<close>

lemma end_loop_skips:
  assumes "wf_tmpl ts" and "drop index buf = render ts @ rest"
  shows "end_loop (tmpl_steps ts + fuel) (std_helper b) buf index nested =
    end_loop fuel (std_helper b) buf (index + length (render ts)) nested"
  using assms
proof (induction ts arbitrary: index rest fuel nested rule: tmpl_steps.induct)
  case (2 c ts)
  then have "index < length buf \<and> drop (Suc index) buf = render ts @ rest" by (simp add: drop_eq_Cons)
  then show ?case using 2 by simp
next
  case (3 ks ts)
  have lt: "index < length buf" using "3.prems"(2) drop_eq_Cons by fastforce
  let ?i = "index + 2 + length (render ks)"
  have "drop (index + 2) buf = drop 2 (drop index buf)" by (simp add: add.commute)
  then have d1: "drop (index + 2) buf = render ks @ (''}'' @ render ts @ rest)"
    using "3.prems"(2) by simp
  have d2: "drop ?i buf = ''}'' @ render ts @ rest"
    using arg_cong [OF d1, of "drop (length (render ks))"] by (simp add: ac_simps)
  then have lt2: "?i < length buf" and d3: "drop (Suc ?i) buf = render ts @ rest"
    using drop_eq_Cons by fastforce+
  have "end_loop (tmpl_steps (Ph ks # ts) + fuel) (std_helper b) buf index nested =
      end_loop (tmpl_steps ks + Suc (tmpl_steps ts + fuel)) (std_helper b) buf (index + 2) (Suc nested)"
    using lt "3.prems"(2) by (simp add: ac_simps)
  also have "\<dots> = end_loop (Suc (tmpl_steps ts + fuel)) (std_helper b) buf ?i (Suc nested)"
    by (rule "3.IH"(1) [OF _ d1]) (use "3.prems"(1) in simp)
  also have "\<dots> = end_loop (tmpl_steps ts + fuel) (std_helper b) buf (Suc ?i) nested"
    using lt2 d2 by simp
  also have "\<dots> = end_loop fuel (std_helper b) buf (Suc ?i + length (render ts)) nested"
    by (rule "3.IH"(2) [OF _ d3]) (use "3.prems"(1) in simp)
  finally show ?case by (simp add: ac_simps)
qed simp

lemma find_end:
  assumes "wf_tmpl ks" and "buf = don @ ''${'' @ render ks @ ''}'' @ rest"
  shows "findPlaceholderEndIndex (std_helper b) buf (length don) = Inr (Some (length don + 2 + length (render ks)))"
proof -
  have d: "drop (length don + 2) buf = render ks @ (''}'' @ rest)" by (simp add: assms(2))
  obtain f where f: "Suc (length buf) = tmpl_steps ks + Suc f"
    using tmpl_steps_le [of ks] that [of "length buf - tmpl_steps ks"] by (simp add: assms(2))
  have "end_loop (Suc (length buf)) (std_helper b) buf (length don + 2) 0 =
      end_loop (Suc f) (std_helper b) buf (length don + 2 + length (render ks)) 0"
    unfolding f by (rule end_loop_skips [OF assms(1) d])
  also have "\<dots> = Inr (Some (length don + 2 + length (render ks)))"
    by (simp add: assms(2))
  finally show ?thesis by (simp add: findPlaceholderEndIndex_def)
qed

lemma placeholder_value_tmpl:
  "placeholder_value (std_helper b) (\<lambda>k. Inr (render (E k))) k = Inr (render (tmpl_value E k))"
  by (auto simp: placeholder_value_def tmpl_value_def Let_def split: option.splits)

section \<open>Expansion of templates\<close>

text \<open>\<open>fresh E n visited\<close>: no visited placeholder can be expanded within depth \<open>n\<close>, so none of them
  occurs in a text that can.\<close>

definition fresh :: "(string \<Rightarrow> tmpl list) \<Rightarrow> nat \<Rightarrow> string list \<Rightarrow> bool" where
  "fresh E n visited = (\<forall>ks s. wf_tmpl ks \<and> render ks \<in> set visited \<longrightarrow> \<not> resolves E n [Ph ks] s)"

lemma fresh_mono: "fresh E n visited \<Longrightarrow> m \<le> n \<Longrightarrow> fresh E m visited"
  unfolding fresh_def by (meson resolves_mono)

text \<open>The least depth at which a placeholder expands, with its key and its value.\<close>

lemma least_expansion:
  assumes "resolves E n [Ph ks] w"
  obtains m k where "m < n" "resolves E m ks k" "tmpl_value E k \<noteq> []" "resolves E m (tmpl_value E k) w"
    "\<And>s. \<not> resolves E m [Ph ks] s"
proof -
  let ?m = "LEAST m. \<exists>s. resolves E m [Ph ks] s"
  have ex: "\<exists>s. resolves E n [Ph ks] s" using assms by blast
  obtain s where s: "resolves E ?m [Ph ks] s" using LeastI [of "\<lambda>m. \<exists>s. resolves E m [Ph ks] s", OF ex] by blast
  obtain m k w' where m: "?m = Suc m" "s = w'" "resolves E m ks k" "tmpl_value E k \<noteq> []"
    "resolves E m (tmpl_value E k) w'"
    using s by (elim resolves_PhE) auto
  have "?m \<le> n" using ex by (rule Least_le)
  moreover have "\<not> resolves E m [Ph ks] s'" for s'
    using not_less_Least [of m "\<lambda>m. \<exists>s. resolves E m [Ph ks] s"] m(1) by auto
  moreover have "w' = w" using resolves_det [OF s assms] m(2) by simp
  ultimately show ?thesis using that [of m k] m by (simp add: Suc_le_eq)
qed

definition expands :: "(string \<Rightarrow> tmpl list) \<Rightarrow> bool \<Rightarrow> tmpl list \<Rightarrow> string list \<Rightarrow> string \<Rightarrow> bool" where
  "expands E b ts visited s = (\<exists>F. \<forall>f\<ge>F. parseStringValueWithVisited f (std_helper b) (\<lambda>k. Inr (render (E k)))
     (render ts) visited = Inr (Inr s, visited))"

definition loop_expands ::
  "(string \<Rightarrow> tmpl list) \<Rightarrow> bool \<Rightarrow> string \<Rightarrow> string \<Rightarrow> tmpl list \<Rightarrow> string list \<Rightarrow> string \<Rightarrow> bool" where
  "loop_expands E b val don ts visited s = (\<exists>F. \<forall>f\<ge>F.
     parse_loop f (std_helper b) (\<lambda>k. Inr (render (E k))) val (don @ render ts)
       (map_option (\<lambda>i. length don + i) (strings_Index (render ts) ''${'')) visited = Inr (Inr (don @ s), visited))"

lemma loop_expands_Nil: "loop_expands E b val don [] visited []"
  unfolding loop_expands_def by (rule exI [of _ 1]) (auto dest!: Suc_le_D)

lemma loop_expands_Lit:
  assumes "loop_expands E b val (don @ [c]) ts visited s" and "c \<noteq> CHR ''$''"
  shows "loop_expands E b val don (Lit c # ts) visited (c # s)"
  using assms by (simp add: loop_expands_def option.map_comp comp_def)

lemma loop_expands_Ph:
  assumes ks: "wf_tmpl ks" "render ks \<notin> set visited" "expands E b ks (render ks # visited) k"
    and v: "tmpl_value E k \<noteq> []" "expands E b (tmpl_value E k) (render ks # visited) w"
    and rest: "loop_expands E b val (don @ w) ts visited s"
  shows "loop_expands E b val don (Ph ks # ts) visited (w @ s)"
proof -
  let ?ph = "std_helper b" and ?res = "\<lambda>k. Inr (render (E k))"
  let ?buf = "don @ ''${'' @ render ks @ ''}'' @ render ts"
  obtain F1 where F1: "\<And>f. f \<ge> F1 \<Longrightarrow> parseStringValueWithVisited f ?ph ?res (render ks) (render ks # visited) =
      Inr (Inr k, render ks # visited)" using ks(3) by (auto simp: expands_def)
  obtain F2 where F2: "\<And>f. f \<ge> F2 \<Longrightarrow> parseStringValueWithVisited f ?ph ?res (render (tmpl_value E k)) (render ks # visited) =
      Inr (Inr w, render ks # visited)" using v(2) by (auto simp: expands_def)
  obtain F3 where F3: "\<And>f. f \<ge> F3 \<Longrightarrow> parse_loop f ?ph ?res val ((don @ w) @ render ts)
       (map_option (\<lambda>i. length (don @ w) + i) (strings_Index (render ts) ''${'')) visited = Inr (Inr ((don @ w) @ s), visited)"
    using rest by (auto simp: loop_expands_def)
  have end_ix: "findPlaceholderEndIndex ?ph ?buf (length don) = Inr (Some (length don + 2 + length (render ks)))"
    by (rule find_end [OF ks(1)]) simp
  have "parse_loop f ?ph ?res val ?buf (Some (length don)) visited = Inr (Inr (don @ w @ s), visited)"
    if f: "f \<ge> Suc (max F1 (max F2 F3))" for f
  proof -
    obtain g where g: "f = Suc g" "g \<ge> F1" "g \<ge> F2" "g \<ge> F3" using f by (cases f) auto
    have slice: "go_slice ?buf (length don + length (PlaceholderPrefix ?ph)) (length don + 2 + length (render ks)) = Inr (render ks)"
      by (simp add: go_slice_def)
    have tail: "go_slice ?buf (length don + 2 + length (render ks) + length (PlaceholderSuffix ?ph)) (length ?buf) = Inr (render ts)"
      by (simp add: go_slice_def numeral_3_eq_3)
    have nxt: "next_placeholder ?ph (don @ w @ render ts) (length don + length w) =
        map_option (\<lambda>i. length (don @ w) + i) (strings_Index (render ts) ''${'')"
      by (simp add: next_placeholder_def)
    have tk: "take (length don) ?buf = don" by simp
    show ?thesis
      using F1 [OF g(2)] F2 [OF g(3)] F3 [OF g(4)] v(1) ks(2)
      unfolding g(1) parse_loop.simps option.case end_ix go_bind_simps slice
      by (simp add: placeholder_value_tmpl [of b E k] tail [simplified] tk nxt [simplified] Let_def)
  qed
  then show ?thesis unfolding loop_expands_def by (intro exI [of _ "Suc (max F1 (max F2 F3))"]) simp
qed

lemma expands_if_loop: "loop_expands E b (render ts) [] ts visited s \<Longrightarrow> expands E b ts visited s"
  unfolding loop_expands_def expands_def
proof (elim exE)
  fix F
  assume F: "\<forall>f\<ge>F. parse_loop f (std_helper b) (\<lambda>k. Inr (render (E k))) (render ts) ([] @ render ts)
    (map_option (\<lambda>i. length [] + i) (strings_Index (render ts) ''${'')) visited = Inr (Inr ([] @ s), visited)"
  show "\<exists>F. \<forall>f\<ge>F. parseStringValueWithVisited f (std_helper b) (\<lambda>k. Inr (render (E k))) (render ts) visited =
    Inr (Inr s, visited)"
  proof (intro exI [of _ "Suc F"] allI impI)
    fix f assume "Suc F \<le> f"
    then obtain g where "f = Suc g" "F \<le> g" by (auto dest: Suc_le_D)
    then show "parseStringValueWithVisited f (std_helper b) (\<lambda>k. Inr (render (E k))) (render ts) visited = Inr (Inr s, visited)"
      using F by (simp add: option.map_ident)
  qed
qed

lemma resolves_expands:
  assumes "wf_conf E" and "resolves E n ts s" and "wf_tmpl ts" and "fresh E n visited"
  shows "loop_expands E b val don ts visited s"
  using assms(2-)
proof (induction n arbitrary: ts s visited val don rule: less_induct)
  case (less n)
  from less.prems show ?case
  proof (induction ts arbitrary: s don)
    case Nil
    then show ?case using loop_expands_Nil by blast
  next
    case (Cons t ts)
    show ?case
    proof (cases t)
      case (Lit c)
      then obtain r where "s = c # r" "resolves E n ts r" using Cons.prems(1) by (auto elim: resolves_LitE)
      then show ?thesis using Cons Lit by (auto intro: loop_expands_Lit)
    next
      case (Ph ks)
      then obtain n' k' w r where s: "n = Suc n'" "s = w @ r" "resolves E n ts r"
        "resolves E n' ks k'" "tmpl_value E k' \<noteq> []" "resolves E n' (tmpl_value E k') w"
        using Cons.prems(1) by (auto elim: resolves_PhE)
      then have "resolves E n [Ph ks] w"
        using resolves_Ph [OF s(4-6) resolves_Nil] by simp
      then obtain m k where m: "m < n" "resolves E m ks k" "tmpl_value E k \<noteq> []"
        "resolves E m (tmpl_value E k) w" and least: "\<And>s. \<not> resolves E m [Ph ks] s"
        using least_expansion by blast
      have wf: "wf_tmpl ks" "wf_tmpl ts" using Cons.prems(2) Ph by auto
      have new: "render ks \<notin> set visited"
        using Cons.prems(3) \<open>resolves E n [Ph ks] w\<close> wf(1) by (auto simp: fresh_def)
      have "fresh E m visited" using fresh_mono [OF Cons.prems(3)] m(1) by simp
      then have fr: "fresh E m (render ks # visited)"
        using least render_inj [OF _ wf(1)] by (auto simp: fresh_def)
      have "wf_tmpl (tmpl_value E k)"
        using plain_value [OF assms(1)] resolves_plain [OF m(2) assms(1) wf(1)] by blast
      then have "expands E b ks (render ks # visited) k" "expands E b (tmpl_value E k) (render ks # visited) w"
        using less.IH [OF m(1) m(2) wf(1) fr] less.IH [OF m(1) m(4) _ fr] expands_if_loop by blast+
      moreover have "loop_expands E b val (don @ w) ts visited r"
        using Cons.IH s(3) wf(2) Cons.prems(3) by blast
      ultimately show ?thesis using loop_expands_Ph [OF wf(1) new] m(3) s(2) Ph by blast
    qed
  qed
qed

lemma ReplacePlaceholders_resolves:
  assumes "wf_conf E" and "wf_tmpl ts" and "resolves E n ts s"
  shows "\<exists>F. \<forall>f\<ge>F. ReplacePlaceholders f (std_helper b) (\<lambda>k. Inr (render (E k))) (render ts) = Inr (Inr s)"
proof (cases "ts = []")
  case True
  then show ?thesis using assms(3) by (auto simp: ReplacePlaceholders_def)
next
  case False
  have "expands E b ts [] s"
    using resolves_expands [OF assms(1,3,2)] expands_if_loop by (auto simp: fresh_def)
  then obtain F where "\<And>f. F \<le> f \<Longrightarrow> parseStringValueWithVisited f (std_helper b) (\<lambda>k. Inr (render (E k)))
      (render ts) [] = Inr (Inr s, [])" by (auto simp: expands_def)
  then show ?thesis using False
    by (intro exI [of _ F]) (simp add: ReplacePlaceholders_def parseStringValue_def)
qed

section \<open>Properties\<close>

text \<open>C5: Placeholder expansion terminates and gives what the semantics of templates says: when the
  text is a template and the configuration gives templates, and the text expands to \<open>s\<close> (every
  placeholder, in nested keys, values and defaults, has a value at some finite depth), then
  \<open>ReplacePlaceholders\<close> returns \<open>s\<close>, with every amount of fuel from some point on, and reports no
  circular reference.\<close>

theorem ReplacePlaceholders_expands:
  assumes "wf_conf E" and "wf_tmpl ts" and "resolves E n ts s"
  shows "\<exists>F. \<forall>f\<ge>F. ReplacePlaceholders f (std_helper b) (\<lambda>k. Inr (render (E k))) (render ts) = Inr (Inr s)"
  using assms by (rule ReplacePlaceholders_resolves)

text \<open>A configuration with a nested key and a default: \<open>env = dev\<close>, \<open>url.dev = http://${host:localhost}\<close>.\<close>

definition example_conf :: "string \<Rightarrow> tmpl list" where
  "example_conf k = (if k = ''env'' then map Lit ''dev''
     else if k = ''url.dev'' then map Lit ''http://'' @ [Ph (map Lit ''host:localhost'')] else [])"

lemma resolves_Lits: "resolves E n (map Lit s) s"
  by (induction s) (auto intro: resolves.intros)

lemma resolves_append_Lits: "resolves E n ts r \<Longrightarrow> resolves E n (map Lit s @ ts) (s @ r)"
  by (induction s) (auto intro: resolves.intros)

lemma resolves_Ph_key:
  assumes "tmpl_value E k \<noteq> []" and "resolves E n (tmpl_value E k) w"
  shows "resolves E (Suc n) [Ph (map Lit k)] w"
  using resolves_Ph [OF resolves_Lits assms resolves_Nil] by simp

theorem ReplacePlaceholders_expands_witness:
  "\<exists>F. \<forall>f\<ge>F. ReplacePlaceholders f (std_helper False) (\<lambda>k. Inr (render (example_conf k))) ''${url.${env}}'' =
     Inr (Inr ''http://localhost'')"
proof -
  have wf: "wf_conf example_conf" by (auto simp: wf_conf_def example_conf_def)
  have h: "resolves example_conf (Suc 0) [Ph (map Lit ''host:localhost'')] ''localhost''"
    by (rule resolves_Ph_key)
      (use resolves_Lits [of example_conf 0 "''localhost''"] in \<open>simp_all add: tmpl_value_def example_conf_def\<close>)
  have url: "tmpl_value example_conf ''url.dev'' = map Lit ''http://'' @ [Ph (map Lit ''host:localhost'')]"
    by (simp add: tmpl_value_def example_conf_def)
  have env: "resolves example_conf 1 [Ph (map Lit ''env'')] ''dev''"
    using resolves_Ph_key [of example_conf "''env''" 0 "''dev''"] resolves_Lits [of example_conf 0 "''dev''"]
    by (simp add: tmpl_value_def example_conf_def)
  have key: "resolves example_conf 1 (map Lit ''url.'' @ [Ph (map Lit ''env'')]) ''url.dev''"
    using resolves_append_Lits [OF env, of "''url.''"] by simp
  have "resolves example_conf 1 (tmpl_value example_conf ''url.dev'') ''http://localhost''"
    using resolves_append_Lits [OF h, of "''http://''"] unfolding url by simp
  then have "resolves example_conf (Suc 1) [Ph (map Lit ''url.'' @ [Ph (map Lit ''env'')])] ''http://localhost''"
    using resolves_Ph [OF key _ _ resolves_Nil] url by fastforce
  from ReplacePlaceholders_expands [OF wf _ this, of False] show ?thesis by simp
qed

text \<open>A chain of definitions: each key of the list stands for a placeholder with the next one, the
  last one for a placeholder with \<open>k0\<close>.\<close>

fun chain :: "(string \<Rightarrow> tmpl list) \<Rightarrow> string \<Rightarrow> string list \<Rightarrow> bool" where
  "chain E k0 [] = False"
| "chain E k0 [k] = (E k = [Ph (map Lit k0)])"
| "chain E k0 (k # k' # ks) = (E k = [Ph (map Lit k')] \<and> chain E k0 (k' # ks))"

definition plain_key :: "string \<Rightarrow> bool" where
  "plain_key k = (CHR ''$'' \<notin> set k \<and> CHR ''}'' \<notin> set k)"

text \<open>One placeholder that stands alone.\<close>

lemma single_end:
  assumes "plain_key k"
  shows "findPlaceholderEndIndex (std_helper b) (''${'' @ k @ ''}'') 0 = Inr (Some (2 + length k))"
    and "go_slice (''${'' @ k @ ''}'') (0 + length (PlaceholderPrefix (std_helper b))) (2 + length k) = Inr k"
  using find_end [of "map Lit k" "''${'' @ k @ ''}''" "[]" "[]" b] assms
  by (simp_all add: wf_map_Lit plain_key_def go_slice_def)

lemma parse_single:
  "parseStringValueWithVisited (Suc (Suc g)) (std_helper b) res (''${'' @ k @ ''}'') visited =
   parse_loop (Suc g) (std_helper b) res (''${'' @ k @ ''}'') (''${'' @ k @ ''}'') (Some 0) visited"
  by (simp del: parse_loop.simps)

lemma parse_single_visited:
  assumes "plain_key k" and "k \<in> set visited"
  shows "parseStringValueWithVisited (Suc (Suc g)) (std_helper b) res (''${'' @ k @ ''}'') visited =
    Inr (Inl (CircularReference k), visited)"
  unfolding parse_single parse_loop.simps option.case single_end [OF assms(1)] go_bind_simps
  using assms(2) by simp

lemma parse_single_error:
  assumes "plain_key k" and "k \<notin> set visited"
    and "parseStringValueWithVisited g (std_helper b) res k (k # visited) = Inr (Inr k, k # visited)"
    and "placeholder_value (std_helper b) res k = Inr v" and "v \<noteq> []"
    and "parseStringValueWithVisited g (std_helper b) res v (k # visited) = Inr (Inl e, vis)"
  shows "parseStringValueWithVisited (Suc (Suc g)) (std_helper b) res (''${'' @ k @ ''}'') visited = Inr (Inl e, vis)"
  unfolding parse_single parse_loop.simps option.case single_end [OF assms(1)] go_bind_simps
  using assms(2-) by simp

lemma chain_value: "chain E k0 (k # ks) \<Longrightarrow> tmpl_value E k = [Ph (map Lit (case ks of [] \<Rightarrow> k0 | k' # _ \<Rightarrow> k'))]"
  by (cases ks) (simp_all add: tmpl_value_def)

lemma loop_expands_Lits: "CHR ''$'' \<notin> set k \<Longrightarrow> loop_expands E b val don (map Lit k) visited k"
  by (induction k arbitrary: don) (auto intro: loop_expands_Nil loop_expands_Lit)

lemma chain_circular:
  assumes "chain E k0 ks" and "distinct ks" and "\<forall>k\<in>set ks. plain_key k" and "plain_key k0"
    and "set ks \<inter> set visited = {}" and "k0 \<in> set visited \<or> k0 = hd ks"
  shows "\<exists>F. \<forall>f\<ge>F. \<exists>vis. parseStringValueWithVisited f (std_helper b) (\<lambda>k. Inr (render (E k)))
    (''${'' @ hd ks @ ''}'') visited = Inr (Inl (CircularReference k0), vis)"
  using assms
proof (induction ks arbitrary: visited)
  case (Cons k ks)
  let ?parse = "\<lambda>f. parseStringValueWithVisited f (std_helper b) (\<lambda>k. Inr (render (E k)))"
  let ?k' = "case ks of [] \<Rightarrow> k0 | k' # _ \<Rightarrow> k'"
  have pk: "plain_key k" and new: "k \<notin> set visited" using Cons.prems by auto
  have "expands E b (map Lit k) (k # visited) k"
    using pk by (intro expands_if_loop loop_expands_Lits) (simp add: plain_key_def)
  then obtain F1 where F1: "\<And>f. F1 \<le> f \<Longrightarrow> ?parse f k (k # visited) = Inr (Inr k, k # visited)"
    by (auto simp: expands_def)
  obtain F2 where F2: "\<And>f. F2 \<le> f \<Longrightarrow> \<exists>vis. ?parse f (''${'' @ ?k' @ ''}'') (k # visited) = Inr (Inl (CircularReference k0), vis)"
  proof (cases ks)
    case Nil
    then have "k0 \<in> set (k # visited)" using Cons.prems(6) by auto
    then have "?parse (Suc (Suc g)) (''${'' @ k0 @ ''}'') (k # visited) = Inr (Inl (CircularReference k0), k # visited)" for g
      by (rule parse_single_visited [OF Cons.prems(4)])
    moreover have "\<exists>g. f = Suc (Suc g)" if "2 \<le> f" for f :: nat using that by presburger
    ultimately show ?thesis using that [of 2] Nil by (metis list.simps(4))
  next
    case (Cons k' r)
    have "\<exists>F. \<forall>f\<ge>F. \<exists>vis. ?parse f (''${'' @ hd ks @ ''}'') (k # visited) = Inr (Inl (CircularReference k0), vis)"
      using Cons.prems Cons by (intro Cons.IH) auto
    then show ?thesis using that Cons by auto
  qed
  have "\<exists>vis. ?parse f (''${'' @ k @ ''}'') visited = Inr (Inl (CircularReference k0), vis)"
    if f: "f \<ge> Suc (Suc (max F1 F2))" for f
  proof -
    obtain g where g: "f = Suc (Suc g)" "g \<ge> F1" "g \<ge> F2"
      using f that [of "f - 2"] by fastforce
    obtain vis where "?parse g (''${'' @ ?k' @ ''}'') (k # visited) = Inr (Inl (CircularReference k0), vis)"
      using F2 [OF g(3)] by blast
    then have "?parse f (''${'' @ k @ ''}'') visited = Inr (Inl (CircularReference k0), vis)"
      unfolding g(1)
      by (intro parse_single_error [OF pk new F1 [OF g(2)]])
        (auto simp: placeholder_value_tmpl chain_value [OF Cons.prems(1)])
    then show ?thesis by blast
  qed
  then show ?case by auto
qed simp

text \<open>Circular definitions are detected: when \<open>k\<^sub>1\<close> is defined as a placeholder with \<open>k\<^sub>2\<close>, that one
  with \<open>k\<^sub>3\<close> and so on back to \<open>k\<^sub>1\<close>, expansion of a placeholder with \<open>k\<^sub>1\<close> terminates with the circular
  reference error for \<open>k\<^sub>1\<close>, whatever the length of the circle.\<close>

theorem circular_definitions_detected:
  assumes "chain E (hd ks) ks" and "distinct ks" and "\<forall>k\<in>set ks. plain_key k"
  shows "\<exists>F. \<forall>f\<ge>F. ReplacePlaceholders f (std_helper b) (\<lambda>k. Inr (render (E k))) (''${'' @ hd ks @ ''}'') =
    Inr (Inl (CircularReference (hd ks)))"
proof -
  have "ks \<noteq> []" using assms(1) by auto
  then have "\<exists>F. \<forall>f\<ge>F. \<exists>vis. parseStringValueWithVisited f (std_helper b) (\<lambda>k. Inr (render (E k)))
      (''${'' @ hd ks @ ''}'') [] = Inr (Inl (CircularReference (hd ks)), vis)"
    using assms by (intro chain_circular) auto
  then obtain F where "\<And>f. F \<le> f \<Longrightarrow> \<exists>vis. parseStringValueWithVisited f (std_helper b) (\<lambda>k. Inr (render (E k)))
      (''${'' @ hd ks @ ''}'') [] = Inr (Inl (CircularReference (hd ks)), vis)" by blast
  then show ?thesis
    by (intro exI [of _ F]) (fastforce simp: ReplacePlaceholders_def parseStringValue_def)
qed

definition circle_conf :: "string \<Rightarrow> tmpl list" where
  "circle_conf k = (if k = ''a'' then [Ph [Lit CHR ''b'']] else if k = ''b'' then [Ph [Lit CHR ''a'']] else [])"

theorem circular_definitions_detected_witness:
  "\<exists>F. \<forall>f\<ge>F. ReplacePlaceholders f (std_helper False) (\<lambda>k. Inr (render (circle_conf k))) ''${a}'' =
    Inr (Inl (CircularReference ''a''))"
  using circular_definitions_detected [of circle_conf "[''a'', ''b'']" False]
  by (simp add: circle_conf_def plain_key_def)

end
