(* ===== verification/Resolver.thy ===== *)
theory Resolver
  imports Placeholder
begin

text \<open>
  Property resolution of \<open>ag/ag_conf\<close>: \<open>AbstractPropertyResolver\<close>
  (\<open>resolver_abstract_property_resolver.go\<close>), \<open>PropertySourcesPropertyResolver\<close>
  (\<open>resolver_property_sources_property_resolver.go\<close>) and the prefix helpers of \<open>util.go\<close>. A lookup goes
  through the sources in order, ignores the case of keys and expands placeholders in the value found.
  The theorems put the collection of sources, placeholder expansion and the decrypted shadow sources
  together.
\<close>

section \<open>Prefix helpers\<close>

text \<open>\<open>unicode.ToLower\<close> on a byte taken as a rune (Latin-1).\<close>

definition rune_lower :: "nat \<Rightarrow> nat" where
  "rune_lower n = (if 65 \<le> n \<and> n \<le> 90 \<or> 192 \<le> n \<and> n \<le> 222 \<and> n \<noteq> 215 then n + 32 else n)"

definition ascii_lower :: "nat \<Rightarrow> nat" where
  "ascii_lower n = (if 65 \<le> n \<and> n \<le> 90 then n + 32 else n)"

definition same_byte_fold :: "nat \<Rightarrow> nat \<Rightarrow> bool" where
  "same_byte_fold sc pc = (let sc = ascii_lower sc; pc = ascii_lower pc in
     if sc > 127 \<or> pc > 127 then rune_lower sc = rune_lower pc else sc = pc)"

definition hasPrefixIgnoreCase :: "string \<Rightarrow> string \<Rightarrow> bool" where
  "hasPrefixIgnoreCase s prefix =
     (if length prefix > length s then False
      else list_all (\<lambda>(sc, pc). same_byte_fold (of_char sc) (of_char pc)) (zip s prefix))"

text \<open>The loop of \<open>trimPrefixIgnoreCase\<close>: after two different bytes with the same lower case above
  127 it moves on by the length of that rune in UTF-8, which is two. Between \<open>i\<close> and the length of the
  prefix both indices are in range.\<close>

fun trim_loop :: "nat \<Rightarrow> string \<Rightarrow> string \<Rightarrow> nat \<Rightarrow> bool" where
  "trim_loop 0 s prefix i = True"
| "trim_loop (Suc fuel) s prefix i =
     (if i < length prefix
      then (let sc = of_char (s ! i); pc = of_char (prefix ! i) in
        if sc = pc then trim_loop fuel s prefix (i + 1)
        else (let sc = ascii_lower sc; pc = ascii_lower pc in
          if sc > 127 \<or> pc > 127
          then if rune_lower sc \<noteq> rune_lower pc then False
               else trim_loop fuel s prefix (i + 1 + (if rune_lower sc > 127 then 1 else 0))
          else if sc \<noteq> pc then False
          else trim_loop fuel s prefix (i + 1)))
      else True)"

definition trimPrefixIgnoreCase :: "string \<Rightarrow> string \<Rightarrow> string" where
  "trimPrefixIgnoreCase s prefix =
     (if prefix = [] then s
      else if length prefix > length s then s
      else if trim_loop (length prefix) s prefix 0 then drop (length prefix) s else s)"

section \<open>AbstractPropertyResolver\<close>

record AbstractPropertyResolver =
  apr_PlaceholderPrefix :: string
  apr_PlaceholderSuffix :: string
  apr_ValueSeparator :: string
  apr_IgnoreUnresolvable :: bool
  apr_RequiredProperties :: "string list"
  apr_rrp :: "PropertyPlaceholderHelper option"
  apr_rp :: "PropertyPlaceholderHelper option"

text \<open>\<open>get\<close> stands for the concrete \<open>GetProperty\<close>, \<open>raw\<close> for \<open>GetPropertyAsRawString\<close>.\<close>

definition apr_ContainsProperty :: "(string \<Rightarrow> string) \<Rightarrow> string \<Rightarrow> bool" where
  "apr_ContainsProperty get key = (get key \<noteq> [])"

definition apr_GetPropertyDefault :: "(string \<Rightarrow> string) \<Rightarrow> string \<Rightarrow> string \<Rightarrow> string" where
  "apr_GetPropertyDefault get key defaultValue = (let v = get key in if v = [] then defaultValue else v)"

definition apr_GetRequiredProperty :: "(string \<Rightarrow> string) \<Rightarrow> string \<Rightarrow> go_error + string" where
  "apr_GetRequiredProperty get key = (let v = get key in
     if v = [] then Inl (OtherError ''Required key not found'') else Inr v)"

text \<open>The helpers are made once, from the settings of the first call.\<close>

definition apr_helper :: "bool \<Rightarrow> 'a AbstractPropertyResolver_scheme \<Rightarrow> PropertyPlaceholderHelper" where
  "apr_helper ignore r = NewPropertyPlaceholderHelper (apr_PlaceholderPrefix r) (apr_PlaceholderSuffix r)
     (apr_ValueSeparator r) ignore"

definition apr_ResolvePlaceholders ::
  "nat \<Rightarrow> (string \<Rightarrow> string go) \<Rightarrow> string \<Rightarrow> 'a AbstractPropertyResolver_scheme
    \<Rightarrow> string go \<times> 'a AbstractPropertyResolver_scheme" where
  "apr_ResolvePlaceholders fuel raw text r =
     (let h = (case apr_rp r of None \<Rightarrow> apr_helper True r | Some h \<Rightarrow> h);
          v = go_bind (ReplacePlaceholders fuel h raw text)
                (\<lambda>res. Inr (case res of Inl e \<Rightarrow> [] | Inr s \<Rightarrow> s))
      in (v, r\<lparr>apr_rp := Some h\<rparr>))"

definition apr_ResolveRequiredPlaceholders ::
  "nat \<Rightarrow> (string \<Rightarrow> string go) \<Rightarrow> string \<Rightarrow> 'a AbstractPropertyResolver_scheme
    \<Rightarrow> (placeholder_error + string) go \<times> 'a AbstractPropertyResolver_scheme" where
  "apr_ResolveRequiredPlaceholders fuel raw text r =
     (let h = (case apr_rrp r of None \<Rightarrow> apr_helper False r | Some h \<Rightarrow> h)
      in (ReplacePlaceholders fuel h raw text, r\<lparr>apr_rrp := Some h\<rparr>))"

definition apr_SetPlaceholdPrefix :: "string \<Rightarrow> 'a AbstractPropertyResolver_scheme \<Rightarrow> 'a AbstractPropertyResolver_scheme" where
  "apr_SetPlaceholdPrefix p r = r\<lparr>apr_PlaceholderPrefix := p\<rparr>"

definition apr_SetPlaceholdSuffix :: "string \<Rightarrow> 'a AbstractPropertyResolver_scheme \<Rightarrow> 'a AbstractPropertyResolver_scheme" where
  "apr_SetPlaceholdSuffix p r = r\<lparr>apr_PlaceholderSuffix := p\<rparr>"

definition apr_SetValueSeparator :: "string \<Rightarrow> 'a AbstractPropertyResolver_scheme \<Rightarrow> 'a AbstractPropertyResolver_scheme" where
  "apr_SetValueSeparator p r = r\<lparr>apr_ValueSeparator := p\<rparr>"

definition apr_SetIgnoreUnresolvable :: "bool \<Rightarrow> 'a AbstractPropertyResolver_scheme \<Rightarrow> 'a AbstractPropertyResolver_scheme" where
  "apr_SetIgnoreUnresolvable b r = r\<lparr>apr_IgnoreUnresolvable := b\<rparr>"

definition apr_SetRequiredProperties :: "string list \<Rightarrow> 'a AbstractPropertyResolver_scheme \<Rightarrow> 'a AbstractPropertyResolver_scheme" where
  "apr_SetRequiredProperties ks r = r\<lparr>apr_RequiredProperties := apr_RequiredProperties r @ ks\<rparr>"

text \<open>The keys that are missing; \<open>None\<close> when there is none.\<close>

definition apr_ValidateRequiredProperties ::
  "(string \<Rightarrow> string) \<Rightarrow> 'a AbstractPropertyResolver_scheme \<Rightarrow> string list option" where
  "apr_ValidateRequiredProperties get r =
     (let missingKeys = filter (\<lambda>key. \<not> apr_ContainsProperty get key) (apr_RequiredProperties r)
      in if missingKeys \<noteq> [] then Some missingKeys else None)"

definition apr_ResolveNestedPlaceholders ::
  "nat \<Rightarrow> (string \<Rightarrow> string go) \<Rightarrow> string \<Rightarrow> 'a AbstractPropertyResolver_scheme
    \<Rightarrow> (placeholder_error + string) go \<times> 'a AbstractPropertyResolver_scheme" where
  "apr_ResolveNestedPlaceholders fuel raw val r =
     (if apr_IgnoreUnresolvable r
      then (case apr_ResolvePlaceholders fuel raw val r of (v, r') \<Rightarrow> (go_bind v (\<lambda>s. Inr (Inr s)), r'))
      else apr_ResolveRequiredPlaceholders fuel raw val r)"

section \<open>PropertySourcesPropertyResolver\<close>

record PropertySourcesPropertyResolver = AbstractPropertyResolver +
  pspr_PropertySources :: "MutablePropertySources option"

definition NewPropertySourcesPropertyResolver ::
  "MutablePropertySources option \<Rightarrow> PropertySourcesPropertyResolver" where
  "NewPropertySourcesPropertyResolver m =
     \<lparr>apr_PlaceholderPrefix = ConstPlaceholderPrefix, apr_PlaceholderSuffix = ConstPlaceholderSuffix,
      apr_ValueSeparator = ConstValueSeparator, apr_IgnoreUnresolvable = False,
      apr_RequiredProperties = [], apr_rrp = None, apr_rp = None, pspr_PropertySources = m\<rparr>"

definition pspr_sources :: "PropertySourcesPropertyResolver \<Rightarrow> PropertySource list" where
  "pspr_sources r = (case pspr_PropertySources r of None \<Rightarrow> [] | Some m \<Rightarrow> mps_GetPropertySources m)"

definition pspr_ContainsProperty :: "string \<Rightarrow> PropertySourcesPropertyResolver \<Rightarrow> bool" where
  "pspr_ContainsProperty key r = list_ex (\<lambda>ps. ps_ContainsProperty ps key) (pspr_sources r)"

definition getPropertyFold :: "string \<Rightarrow> PropertySource \<Rightarrow> any" where
  "getPropertyFold key ps =
     (case find (\<lambda>(k, v). strings_EqualFold k key) (ps_Source ps) of
        None \<Rightarrow> NilVal
      | Some (k, v) \<Rightarrow> ps_GetProperty ps k)"

text \<open>The loop of \<open>getProperty\<close>: \<open>nested\<close> is what happens to a string value. A value of another type
  fails the type assertion.\<close>

fun property_loop ::
  "(string \<Rightarrow> 'r \<Rightarrow> (placeholder_error + string) go \<times> 'r) \<Rightarrow> string \<Rightarrow> PropertySource list \<Rightarrow> 'r
    \<Rightarrow> (placeholder_error + string) go \<times> 'r" where
  "property_loop nested key [] r = (Inr (Inr []), r)"
| "property_loop nested key (ps # pss) r =
     (case getPropertyFold key ps of
        NilVal \<Rightarrow> property_loop nested key pss r
      | StrVal v \<Rightarrow> nested v r
      | _ \<Rightarrow> (Inl (Panicked ''interface conversion''), r))"

text \<open>\<open>getProperty(key, false)\<close> and \<open>getProperty(key, true)\<close>.\<close>

definition raw_property :: "string \<Rightarrow> PropertySourcesPropertyResolver \<Rightarrow> (placeholder_error + string) go" where
  "raw_property key r = fst (property_loop (\<lambda>v u. (Inr (Inr v), u)) key (pspr_sources r) ())"

definition GetPropertyAsRawString :: "PropertySourcesPropertyResolver \<Rightarrow> string \<Rightarrow> string go" where
  "GetPropertyAsRawString r key =
     go_bind (raw_property key r) (\<lambda>res. Inr (case res of Inl e \<Rightarrow> [] | Inr s \<Rightarrow> s))"

definition pspr_getProperty ::
  "nat \<Rightarrow> string \<Rightarrow> PropertySourcesPropertyResolver
    \<Rightarrow> (placeholder_error + string) go \<times> PropertySourcesPropertyResolver" where
  "pspr_getProperty fuel key r =
     property_loop (\<lambda>v r'. apr_ResolveNestedPlaceholders fuel (GetPropertyAsRawString r) v r') key (pspr_sources r) r"

definition pspr_GetProperty ::
  "nat \<Rightarrow> string \<Rightarrow> PropertySourcesPropertyResolver \<Rightarrow> string go \<times> PropertySourcesPropertyResolver" where
  "pspr_GetProperty fuel key r = (case pspr_getProperty fuel key r of (v, r') \<Rightarrow>
     (go_bind v (\<lambda>res. Inr (case res of Inl e \<Rightarrow> [] | Inr s \<Rightarrow> s)), r'))"

definition pspr_GetRequiredProperty ::
  "nat \<Rightarrow> string \<Rightarrow> PropertySourcesPropertyResolver
    \<Rightarrow> (placeholder_error + string) go \<times> PropertySourcesPropertyResolver" where
  "pspr_GetRequiredProperty fuel key r = pspr_getProperty fuel key r"

section \<open>Lookup\<close>

lemma property_loop_skip:
  "\<forall>u\<in>set us. getPropertyFold key u = NilVal \<Longrightarrow>
    property_loop nested key (us @ pss) r = property_loop nested key pss r"
  by (induction us) auto

lemma property_loop_found:
  "\<forall>u\<in>set us. getPropertyFold key u = NilVal \<Longrightarrow> getPropertyFold key p = StrVal v \<Longrightarrow>
    property_loop nested key (us @ p # vs) r = nested v r"
  by (simp add: property_loop_skip)

text \<open>A key that only itself folds to: the lookup ignores the order of the map.\<close>

definition fold_unique :: "string \<Rightarrow> (string \<times> any) list \<Rightarrow> bool" where
  "fold_unique key kvs = (\<forall>(k, v)\<in>set kvs. strings_EqualFold k key \<longrightarrow> k = key)"

lemma getPropertyFold_unique:
  assumes "fold_unique key (ps_Source p)"
  shows "getPropertyFold key p = (case map_of (ps_Source p) key of None \<Rightarrow> NilVal | Some v \<Rightarrow> v)"
proof (cases "find (\<lambda>(k, v). strings_EqualFold k key) (ps_Source p)")
  case None
  then have "key \<notin> fst ` set (ps_Source p)" by (force simp: find_None_iff strings_EqualFold_def)
  then have "map_of (ps_Source p) key = None" by (simp add: map_of_eq_None_iff)
  then show ?thesis using None by (simp add: getPropertyFold_def)
next
  case (Some kv)
  then have "kv \<in> set (ps_Source p)" "strings_EqualFold (fst kv) key" by (auto simp: find_Some_iff) (metis nth_mem)
  then have "fst kv = key" using assms by (auto simp: fold_unique_def)
  then show ?thesis using Some by (cases kv) (simp add: getPropertyFold_def ps_GetProperty_def)
qed

section \<open>Properties\<close>

text \<open>C7: Precedence and expansion together: the value of a key is taken from the first source, in
  the order of the collection, that has the key in any case with a value that is not \<open>nil\<close>, and it is
  returned with its placeholders expanded over all the sources, when the raw values of the sources are
  templates and the value found expands.\<close>

theorem property_precedence_and_expansion:
  assumes "pspr_sources r = us @ p # vs" and "\<forall>u\<in>set us. getPropertyFold key u = NilVal"
    and "getPropertyFold key p = StrVal (render ts)"
    and "\<forall>k. GetPropertyAsRawString r k = Inr (render (E k))"
    and "wf_conf E" and "wf_tmpl ts" and "resolves E n ts s"
    and "apr_IgnoreUnresolvable r = False" and "apr_rrp r \<in> {None, Some (std_helper False)}"
    and "apr_helper False r = std_helper False"
  shows "\<exists>F. \<forall>f\<ge>F. fst (pspr_GetRequiredProperty f key r) = Inr (Inr s) \<and> fst (pspr_GetProperty f key r) = Inr s"
proof -
  have raw: "GetPropertyAsRawString r = (\<lambda>k. Inr (render (E k)))" using assms(4) by auto
  have h: "(case apr_rrp r of None \<Rightarrow> apr_helper False r | Some h \<Rightarrow> h) = std_helper False"
    using assms(9,10) by auto
  have get: "fst (pspr_getProperty f key r) = ReplacePlaceholders f (std_helper False) (\<lambda>k. Inr (render (E k))) (render ts)" for f
    unfolding pspr_getProperty_def assms(1) property_loop_found [OF assms(2,3)]
    using assms(8) h by (simp add: apr_ResolveNestedPlaceholders_def apr_ResolveRequiredPlaceholders_def raw Let_def)
  obtain F where "\<And>f. F \<le> f \<Longrightarrow> ReplacePlaceholders f (std_helper False) (\<lambda>k. Inr (render (E k))) (render ts) = Inr (Inr s)"
    using ReplacePlaceholders_resolves [OF assms(5-7)] by blast
  then have "fst (pspr_GetRequiredProperty f key r) = Inr (Inr s) \<and> fst (pspr_GetProperty f key r) = Inr s" if "F \<le> f" for f
    using that get [of f] by (cases "pspr_getProperty f key r") (simp add: pspr_GetRequiredProperty_def pspr_GetProperty_def)
  then show ?thesis by blast
qed

definition local_source :: PropertySource where
  "local_source = \<lparr>ps_ptr = 0, ps_Name = ''[LOCAL]-app.yml'', ps_Source = [(''Greeting'', StrVal ''hi ${who:you}'')]\<rparr>"

definition local_resolver :: PropertySourcesPropertyResolver where
  "local_resolver = NewPropertySourcesPropertyResolver (Some (AddLast exact_growth local_source NewMutablePropertySources))"

definition local_conf :: "string \<Rightarrow> tmpl list" where
  "local_conf k = (if strings_EqualFold ''Greeting'' k then map Lit ''hi '' @ [Ph (map Lit ''who:you'')] else [])"

lemma local_sources: "pspr_sources local_resolver = [] @ local_source # []"
  by (simp add: local_resolver_def NewPropertySourcesPropertyResolver_def pspr_sources_def items_AddLast)

lemma local_raw: "GetPropertyAsRawString local_resolver k = Inr (render (local_conf k))"
  by (simp add: GetPropertyAsRawString_def raw_property_def local_sources getPropertyFold_def local_source_def
      ps_GetProperty_def local_conf_def)

theorem property_precedence_and_expansion_witness:
  "\<exists>F. \<forall>f\<ge>F. fst (pspr_GetRequiredProperty f ''greeting'' local_resolver) = Inr (Inr ''hi you'') \<and>
     fst (pspr_GetProperty f ''greeting'' local_resolver) = Inr ''hi you''"
proof -
  let ?ts = "map Lit ''hi '' @ [Ph (map Lit ''who:you'')]"
  have eq: "strings_EqualFold ''Greeting'' ''greeting''" by code_simp
  have g: "getPropertyFold ''greeting'' local_source = StrVal (render ?ts)"
    by (simp add: getPropertyFold_def local_source_def ps_GetProperty_def eq)
  have E: "local_conf ''who:you'' = []" "local_conf ''who'' = []"
    by (simp_all add: local_conf_def strings_EqualFold_def)
  have wf: "wf_conf local_conf" "wf_tmpl ?ts" by (auto simp: wf_conf_def local_conf_def)
  have "resolves local_conf 1 [Ph (map Lit ''who:you'')] ''you''"
    using resolves_Ph_key [of local_conf "''who:you''" 0 "''you''"] resolves_Lits [of local_conf 0 "''you''"] E
    by (simp add: tmpl_value_def)
  then have rs: "resolves local_conf 1 ?ts ''hi you''"
    using resolves_append_Lits [of local_conf 1 _ "''you''" "''hi ''"] by simp
  show ?thesis
    by (rule property_precedence_and_expansion [OF local_sources _ g _ wf rs], simp, simp add: local_raw)
      (simp_all add: local_resolver_def NewPropertySourcesPropertyResolver_def apr_helper_def std_helper_def)
qed

text \<open>The decrypted entries of a source.\<close>

lemma decrypt_entries_keys:
  "decrypt_entries dec kvs = Inr ds \<Longrightarrow> fst ` set ds \<subseteq> fst ` set kvs"
proof (induction kvs arbitrary: ds)
  case (Cons kv kvs)
  obtain key v where kv: "kv = (key, v)" by fastforce
  obtain r where r: "decrypt_entries dec kvs = Inr r" "ds = r \<or> (\<exists>t. ds = (key, t) # r)"
    using Cons.prems kv by (cases v) (auto split: if_splits sum.splits)
  then show ?case using Cons.IH [OF r(1)] kv by (elim disjE exE) (simp_all, blast+)
qed simp

lemma decrypt_entries_lookup:
  assumes "decrypt_entries dec kvs = Inr ds" and "distinct (map fst kvs)"
    and "map_of kvs key = Some (StrVal (ConstEncryptKeyWords @ c))"
  shows "\<exists>t. dec c = Inr t \<and> map_of ds key = Some (StrVal t)"
  using assms
proof (induction kvs arbitrary: ds)
  case (Cons kv kvs)
  obtain k v where kv: "kv = (k, v)" by fastforce
  have pre: "strings_HasPrefix (ConstEncryptKeyWords @ c) ConstEncryptKeyWords"
    by (simp add: strings_HasPrefix_def)
  show ?case
  proof (cases "k = key")
    case True
    then show ?thesis using Cons.prems kv pre by (auto split: sum.splits)
  next
    case False
    obtain r where r: "decrypt_entries dec kvs = Inr r" "ds = r \<or> (\<exists>t. ds = (k, t) # r)"
      using Cons.prems(1) kv by (cases v) (auto split: if_splits sum.splits)
    then show ?thesis using Cons.IH [OF r(1)] Cons.prems(2,3) kv False by auto
  qed
qed simp

lemma BuildDecrypt_source:
  "BuildDecryptForPropertySource dec ptr ps = Inr d \<Longrightarrow> decrypt_entries dec (ps_Source ps) = Inr (ps_Source d)"
  by (auto simp: BuildDecryptForPropertySource_def split: if_splits sum.splits)

text \<open>\<open>cipher_source key c dec ptr ps d\<close>: the source has the encrypted value \<open>c\<close> under the key and \<open>d\<close> is
  its decrypted shadow.\<close>

definition cipher_source :: "string \<Rightarrow> string \<Rightarrow> decryptor \<Rightarrow> nat \<Rightarrow> PropertySource \<Rightarrow> PropertySource \<Rightarrow> bool" where
  "cipher_source key c dec ptr ps d =
     (BuildDecryptForPropertySource dec ptr ps = Inr d \<and> distinct (map fst (ps_Source ps)) \<and>
      fold_unique key (ps_Source ps) \<and> map_of (ps_Source ps) key = Some (StrVal (ConstEncryptKeyWords @ c)))"

lemma cipher_source_values:
  assumes "cipher_source key c dec ptr ps d"
  shows "getPropertyFold key ps = StrVal (ConstEncryptKeyWords @ c)"
    and "\<exists>t. dec c = Inr t \<and> getPropertyFold key d = StrVal t" and "ps_Source d \<noteq> []"
proof -
  have ds: "decrypt_entries dec (ps_Source ps) = Inr (ps_Source d)"
    and u: "fold_unique key (ps_Source ps)"
    using assms BuildDecrypt_source by (auto simp: cipher_source_def)
  have "fold_unique key (ps_Source d)"
    using decrypt_entries_keys [OF ds] u by (fastforce simp: fold_unique_def)
  moreover obtain t where t: "dec c = Inr t" "map_of (ps_Source d) key = Some (StrVal t)"
    using decrypt_entries_lookup [OF ds, of key c] assms unfolding cipher_source_def by blast
  ultimately show "\<exists>t. dec c = Inr t \<and> getPropertyFold key d = StrVal t" and "ps_Source d \<noteq> []"
    by (auto simp: getPropertyFold_unique)
  show "getPropertyFold key ps = StrVal (ConstEncryptKeyWords @ c)"
    using assms by (simp add: cipher_source_def getPropertyFold_unique)
qed

definition refreshed :: "growth \<Rightarrow> decryptor \<Rightarrow> PropertySource \<Rightarrow> nat \<Rightarrow> MutablePropertySources \<Rightarrow> MutablePropertySources" where
  "refreshed grow dec ps ptr m =
     snd (fst (doRefreshPropertySource grow dec ([] :: (string \<times> unit list) list) [ps] (ptr, m)))"

lemma refreshed_eq: "refreshed grow dec ps ptr m = fst (snd (refresh_source grow dec ps (ptr, m, [])))"
  by (simp add: refreshed_def doRefreshPropertySource_def split: prod.splits)

text \<open>C17: A refresh of a source with an encrypted value makes the plaintext visible the first time, and
  the ciphertext the second time: \<open>AddBefore\<close> puts the refreshed decrypted source behind the encrypted
  one when an older decrypted source stood in front of it.\<close>

theorem second_refresh_exposes_ciphertext:
  assumes "mps_inv m" and "mps_GetPropertySources m = us @ p # vs"
    and "\<forall>u\<in>set us. getPropertyFold key u = NilVal" and "decrypt_name (ps_Name p) \<notin> ps_Name ` set us"
    and "ps_Name ps = ps_Name p" and "cipher_source key c dec ptr ps d"
    and "ps_Name ps' = ps_Name p" and "cipher_source key c' dec ptr' ps' d'"
  shows "(\<exists>t. dec c = Inr t \<and> GetPropertyAsRawString
            (NewPropertySourcesPropertyResolver (Some (refreshed grow dec ps ptr m))) key = Inr t) \<and>
    GetPropertyAsRawString (NewPropertySourcesPropertyResolver
       (Some (refreshed grow dec ps' ptr' (refreshed grow dec ps ptr m)))) key = Inr (ConstEncryptKeyWords @ c')"
proof -
  let ?m1 = "refreshed grow dec ps ptr m"
  have look: "GetPropertyAsRawString (NewPropertySourcesPropertyResolver (Some m)) key = Inr v"
    if "mps_GetPropertySources m = us @ q # ws" "getPropertyFold key q = StrVal v" for m q ws v
    by (simp add: GetPropertyAsRawString_def raw_property_def pspr_sources_def
        NewPropertySourcesPropertyResolver_def that(1) property_loop_found [OF assms(3) that(2)])
  have b: "BuildDecryptForPropertySource dec ptr ps = Inr d" "BuildDecryptForPropertySource dec ptr' ps' = Inr d'"
    using assms(6,8) by (auto simp: cipher_source_def)
  note val = cipher_source_values [OF assms(6)] and val' = cipher_source_values [OF assms(8)]
  have n: "ps_Name d = decrypt_name (ps_Name p)" "ps_Name d' = decrypt_name (ps_Name p)"
    using BuildDecrypt_name b assms(5,7) by auto
  have m1: "mps_inv ?m1" "mps_GetPropertySources ?m1 = us @ d # ps # without (ps_Name d) vs"
    using refresh_positions [OF assms(1,2,5) b(1) val(3), of grow "[]"] assms(4) n by (simp_all add: refreshed_eq)
  have "mps_GetPropertySources ?m1 = (us @ [d]) @ ps # without (ps_Name d) vs" using m1(2) by simp
  then have "mps_GetPropertySources (refreshed grow dec ps' ptr' ?m1) = us @ ps' # d' # without (ps_Name d) vs"
    using refresh_positions [OF m1(1) _ _ b(2) val'(3), of "us @ [d]" ps "without (ps_Name d) vs" grow "[]"]
      assms(4,5,7) n without_absent [of "ps_Name d'" us] by (simp add: refreshed_eq)
  then show ?thesis using look m1(2) val(2) val'(1) by blast
qed

definition secret_source :: "string \<Rightarrow> PropertySource" where
  "secret_source c = \<lparr>ps_ptr = 0, ps_Name = ''[LOCAL]-app.yml'', ps_Source = [(''password'', StrVal (''{cipher}'' @ c))]\<rparr>"

definition reverse_decryptor :: decryptor where
  "reverse_decryptor s = Inr (rev s)"

lemma secret_cipher_source:
  "\<exists>d. cipher_source ''password'' c reverse_decryptor ptr (secret_source c) d"
  by (simp add: cipher_source_def BuildDecryptForPropertySource_def secret_source_def strings_HasPrefix_def
      SourceKeyDecryptPrefix_def ConstEncryptKeyWords_def reverse_decryptor_def fold_unique_def)

theorem second_refresh_exposes_ciphertext_witness:
  "\<exists>m. GetPropertyAsRawString (NewPropertySourcesPropertyResolver (Some m)) ''password'' = Inr ''{cipher}fedcba'' \<and>
     m = refreshed exact_growth reverse_decryptor (secret_source ''fedcba'') 2
          (refreshed exact_growth reverse_decryptor (secret_source ''fedcba'') 1
            (AddLast exact_growth (secret_source ''fedcba'') NewMutablePropertySources))"
proof -
  let ?s = "secret_source ''fedcba''"
  obtain d where d: "cipher_source ''password'' ''fedcba'' reverse_decryptor 1 ?s d" using secret_cipher_source by blast
  obtain d' where d': "cipher_source ''password'' ''fedcba'' reverse_decryptor 2 ?s d'" using secret_cipher_source by blast
  have items: "mps_GetPropertySources (AddLast exact_growth ?s NewMutablePropertySources) = [] @ ?s # []"
    by (simp add: items_AddLast)
  show ?thesis
    using second_refresh_exposes_ciphertext [OF mps_inv_AddLast items _ _ refl d refl d', of exact_growth]
    by (simp add: ConstEncryptKeyWords_def)
qed

section \<open>Prefix helpers\<close>

definition ascii_string :: "string \<Rightarrow> bool" where
  "ascii_string s = list_all (\<lambda>c. of_char c < (128 :: nat)) s"

lemma trim_loop_zip:
  assumes "ascii_string s" and "ascii_string prefix" and "length prefix \<le> length s" and "length prefix \<le> fuel + i"
  shows "trim_loop fuel s prefix i =
    list_all (\<lambda>(sc, pc). same_byte_fold (of_char sc) (of_char pc)) (zip (drop i s) (drop i prefix))"
  using assms(4)
proof (induction fuel arbitrary: i)
  case (Suc fuel)
  show ?case
  proof (cases "i < length prefix")
    case True
    have less: "of_char (s ! i) < (128 :: nat)" "of_char (prefix ! i) < (128 :: nat)"
      using assms(1-3) True by (auto simp: ascii_string_def list_all_length)
    have low: "ascii_lower (of_char (s ! i)) < 128" "ascii_lower (of_char (prefix ! i)) < 128"
      using less by (auto simp: ascii_lower_def)
    have "zip (drop i s) (drop i prefix) = (s ! i, prefix ! i) # zip (drop (Suc i) s) (drop (Suc i) prefix)"
      using True assms(3) by (metis Cons_nth_drop_Suc less_le_trans zip_Cons_Cons)
    then show ?thesis using Suc.IH [of "Suc i"] Suc.prems True low by (simp add: same_byte_fold_def Let_def not_less)
  qed (use Suc in simp)
qed simp

text \<open>On ASCII strings \<open>trimPrefixIgnoreCase\<close> removes the prefix exactly when
  \<open>hasPrefixIgnoreCase\<close> finds it, and leaves the string as it is otherwise.\<close>

theorem trimPrefix_removes_found_prefix:
  assumes "ascii_string s" and "ascii_string prefix"
  shows "trimPrefixIgnoreCase s prefix = (if hasPrefixIgnoreCase s prefix then drop (length prefix) s else s)"
  using trim_loop_zip [OF assms, of "length prefix" 0]
  by (auto simp: trimPrefixIgnoreCase_def hasPrefixIgnoreCase_def)

theorem trimPrefix_removes_found_prefix_witness:
  "trimPrefixIgnoreCase ''Server.Port'' ''server.'' = ''Port''"
  using trimPrefix_removes_found_prefix [of "''Server.Port''" "''server.''"]
  by (simp add: ascii_string_def hasPrefixIgnoreCase_def same_byte_fold_def ascii_lower_def)

text \<open>Above ASCII the two differ: the bytes C3 and E3 have the same lower case, and the byte behind them
  is then not compared.\<close>

lemma trimPrefix_skips_a_byte:
  "\<exists>s prefix. \<not> hasPrefixIgnoreCase s prefix \<and> trimPrefixIgnoreCase s prefix \<noteq> s"
proof (intro exI conjI)
  let ?s = "[char_of (195 :: nat), CHR ''a'']" and ?p = "[char_of (227 :: nat), CHR ''b'']"
  show "\<not> hasPrefixIgnoreCase ?s ?p" by (simp add: hasPrefixIgnoreCase_def same_byte_fold_def ascii_lower_def)
  show "trimPrefixIgnoreCase ?s ?p \<noteq> ?s"
    by code_simp
qed

end
