(* ===== verification/WhereClause.thy ===== *)
theory WhereClause
  imports Prelude
begin

text \<open>
  The WHERE clause builder of \<open>contribute/agdb/conditonwhere/where_clause_builder.go\<close>. Conditions are
  nodes behind pointers: the builder keeps a pointer to the root and a stack of pointers to the open
  groups, and appends through them, so the model has a heap of nodes. Building the SQL text recurses
  over the heap with fuel (a user can make a cycle with \<open>AddChild\<close>).
\<close>

section \<open>Conditions\<close>

text \<open>A value is a slice of type \<open>[]interface{}\<close> or something else.\<close>

datatype sql_value = VSlice "any list" | VScalar any

definition SQLOpEq :: string where "SQLOpEq = ''=''"
definition SQLOpNeq :: string where "SQLOpNeq = ''!=''"
definition SQLOpGt :: string where "SQLOpGt = ''>''"
definition SQLOpLt :: string where "SQLOpLt = ''<''"
definition SQLOpGte :: string where "SQLOpGte = ''>=''"
definition SQLOpLte :: string where "SQLOpLte = ''<=''"
definition SQLOpIn :: string where "SQLOpIn = ''in''"
definition SQLOpNotIn :: string where "SQLOpNotIn = ''not in''"
definition SQLOpBetween :: string where "SQLOpBetween = ''between''"
definition SQLLogicAnd :: string where "SQLLogicAnd = ''AND''"
definition SQLLogicOr :: string where "SQLLogicOr = ''OR''"

lemmas sql_op_defs = SQLOpEq_def SQLOpNeq_def SQLOpGt_def SQLOpLt_def SQLOpGte_def SQLOpLte_def
  SQLOpIn_def SQLOpNotIn_def SQLOpBetween_def

record WhereCondition =
  wc_Field :: string
  wc_Operator :: string
  wc_Value :: sql_value
  wc_Logic :: string
  wc_Children :: "nat option list"

type_synonym cond_heap = "WhereCondition list"

record WhereClauseBuilder =
  wb_heap :: cond_heap
  wb_root :: "nat option"
  wb_pendingLogic :: string
  wb_groupStack :: "nat list"

definition NewWhereClauseBuilder :: "cond_heap \<Rightarrow> WhereClauseBuilder" where
  "NewWhereClauseBuilder h = \<lparr>wb_heap = h, wb_root = None, wb_pendingLogic = [], wb_groupStack = []\<rparr>"

definition new_condition :: "WhereCondition \<Rightarrow> WhereClauseBuilder \<Rightarrow> nat \<times> WhereClauseBuilder" where
  "new_condition c b = (length (wb_heap b), b\<lparr>wb_heap := wb_heap b @ [c]\<rparr>)"

definition set_logic :: "string \<Rightarrow> nat \<Rightarrow> cond_heap \<Rightarrow> cond_heap" where
  "set_logic l a h = h[a := (h ! a)\<lparr>wc_Logic := l\<rparr>]"

definition add_child :: "nat option \<Rightarrow> nat \<Rightarrow> cond_heap \<Rightarrow> cond_heap" where
  "add_child c a h = h[a := (h ! a)\<lparr>wc_Children := wc_Children (h ! a) @ [c]\<rparr>]"

section \<open>The builder\<close>

definition wb_target :: "WhereClauseBuilder \<Rightarrow> nat option" where
  "wb_target b = (if wb_groupStack b \<noteq> [] then Some (last (wb_groupStack b)) else wb_root b)"

definition wb_attach :: "nat option \<Rightarrow> WhereClauseBuilder \<Rightarrow> WhereClauseBuilder" where
  "wb_attach cond b = (case wb_target b of
     None \<Rightarrow> b\<lparr>wb_root := cond\<rparr>
   | Some a \<Rightarrow> b\<lparr>wb_heap := add_child cond a (wb_heap b)\<rparr>)"

definition inherited_logic :: "WhereClauseBuilder \<Rightarrow> string" where
  "inherited_logic b =
     (let logic = wb_pendingLogic b in
      if logic = []
      then (let logic = (if wb_groupStack b \<noteq> [] then wc_Logic (wb_heap b ! last (wb_groupStack b)) else [])
            in if logic = [] then SQLLogicAnd else logic)
      else logic)"

definition AddCondition :: "nat option \<Rightarrow> WhereClauseBuilder \<Rightarrow> WhereClauseBuilder" where
  "AddCondition cond b =
     (let b1 = (case cond of
            Some a \<Rightarrow> (if wc_Logic (wb_heap b ! a) = []
                      then b\<lparr>wb_heap := set_logic (inherited_logic b) a (wb_heap b)\<rparr> else b)
          | None \<Rightarrow> b)
      in wb_attach cond (b1\<lparr>wb_pendingLogic := []\<rparr>))"

definition AddConditions :: "nat option list \<Rightarrow> WhereClauseBuilder \<Rightarrow> WhereClauseBuilder" where
  "AddConditions conds b = fold AddCondition conds b"

definition SetRoot :: "nat option \<Rightarrow> WhereClauseBuilder \<Rightarrow> WhereClauseBuilder" where
  "SetRoot cond b = b\<lparr>wb_root := cond\<rparr>"

definition next_logic :: "WhereClauseBuilder \<Rightarrow> string" where
  "next_logic b = (if wb_pendingLogic b = [] then SQLLogicAnd else wb_pendingLogic b)"

text \<open>The nine chain methods differ in operator and value only.\<close>

definition add_new :: "WhereCondition \<Rightarrow> WhereClauseBuilder \<Rightarrow> WhereClauseBuilder" where
  "add_new c b = (case new_condition c (b\<lparr>wb_pendingLogic := []\<rparr>) of (a, b') \<Rightarrow> AddCondition (Some a) b')"

definition chain_condition :: "string \<Rightarrow> string \<Rightarrow> sql_value \<Rightarrow> WhereClauseBuilder \<Rightarrow> WhereClauseBuilder" where
  "chain_condition opr field v b =
     add_new \<lparr>wc_Field = field, wc_Operator = opr, wc_Value = v, wc_Logic = next_logic b, wc_Children = []\<rparr> b"

definition wb_Eq where "wb_Eq field v b = chain_condition SQLOpEq field v b"
definition wb_Neq where "wb_Neq field v b = chain_condition SQLOpNeq field v b"
definition wb_Gt where "wb_Gt field v b = chain_condition SQLOpGt field v b"
definition wb_Lt where "wb_Lt field v b = chain_condition SQLOpLt field v b"
definition wb_Gte where "wb_Gte field v b = chain_condition SQLOpGte field v b"
definition wb_Lte where "wb_Lte field v b = chain_condition SQLOpLte field v b"
definition wb_In where "wb_In field vs b = chain_condition SQLOpIn field (VSlice vs) b"
definition wb_NotIn where "wb_NotIn field vs b = chain_condition SQLOpNotIn field (VSlice vs) b"
definition wb_Between where "wb_Between field lo hi b = chain_condition SQLOpBetween field (VSlice [lo, hi]) b"

definition wb_Or :: "WhereClauseBuilder \<Rightarrow> WhereClauseBuilder" where
  "wb_Or b = b\<lparr>wb_pendingLogic := SQLLogicOr\<rparr>"

definition wb_And :: "WhereClauseBuilder \<Rightarrow> WhereClauseBuilder" where
  "wb_And b = b\<lparr>wb_pendingLogic := SQLLogicAnd\<rparr>"

definition group_node :: "string \<Rightarrow> nat option list \<Rightarrow> WhereCondition" where
  "group_node l cs = \<lparr>wc_Field = [], wc_Operator = [], wc_Value = VScalar NilVal, wc_Logic = l, wc_Children = cs\<rparr>"

definition wb_Group :: "nat option list \<Rightarrow> WhereClauseBuilder \<Rightarrow> WhereClauseBuilder" where
  "wb_Group conditions b =
     (if conditions = [] then b else add_new (group_node (next_logic b) conditions) b)"

definition BeginGroup :: "WhereClauseBuilder \<Rightarrow> WhereClauseBuilder" where
  "BeginGroup b =
     (case new_condition (group_node (next_logic b) []) (b\<lparr>wb_pendingLogic := []\<rparr>) of (g, b1) \<Rightarrow>
       (let b2 = wb_attach (Some g) b1 in b2\<lparr>wb_groupStack := wb_groupStack b2 @ [g]\<rparr>))"

definition EndGroup :: "WhereClauseBuilder \<Rightarrow> WhereClauseBuilder" where
  "EndGroup b = (if wb_groupStack b \<noteq> [] then b\<lparr>wb_groupStack := butlast (wb_groupStack b)\<rparr> else b)"

text \<open>The loops \<open>c.Logic = ...\<close> of the group functions panic at a nil condition.\<close>

fun set_logics :: "string \<Rightarrow> nat option list \<Rightarrow> cond_heap \<Rightarrow> cond_heap go" where
  "set_logics l [] h = Inr h"
| "set_logics l (None # cs) h = Inl NilDereference"
| "set_logics l (Some a # cs) h = set_logics l cs (set_logic l a h)"

definition AndGroup :: "nat option list \<Rightarrow> WhereClauseBuilder \<Rightarrow> WhereClauseBuilder go" where
  "AndGroup conditions b =
     (if conditions = [] then Inr b
      else go_bind (set_logics SQLLogicAnd conditions (wb_heap b))
        (\<lambda>h. Inr (wb_Group conditions (b\<lparr>wb_heap := h\<rparr>))))"

definition OrGroup :: "nat option list \<Rightarrow> WhereClauseBuilder \<Rightarrow> WhereClauseBuilder go" where
  "OrGroup conditions b =
     (if conditions = [] then Inr b
      else go_bind (set_logics SQLLogicOr conditions (wb_heap b))
        (\<lambda>h. Inr (wb_Group conditions (b\<lparr>wb_pendingLogic := SQLLogicOr, wb_heap := h\<rparr>))))"

section \<open>Building the text\<close>

fun join_with :: "string \<Rightarrow> string list \<Rightarrow> string" where
  "join_with sep [] = []"
| "join_with sep [x] = x"
| "join_with sep (x # y # xs) = x @ sep @ join_with sep (y # xs)"

definition strings_Join :: "string list \<Rightarrow> string \<Rightarrow> string" where
  "strings_Join xs sep = join_with sep xs"

type_synonym build_result = "go_error + string \<times> sql_value list"

definition buildSingleCondition :: "string \<Rightarrow> string \<Rightarrow> sql_value \<Rightarrow> build_result" where
  "buildSingleCondition field opr v =
     (if field = [] then Inr ([], [])
      else let placeholders = (\<lambda>n. strings_Join (replicate n ''?'') '', '')
      in if opr = SQLOpEq then Inr (field @ '' = ?'', [v])
      else if opr = SQLOpNeq then Inr (field @ '' != ?'', [v])
      else if opr = SQLOpGt then Inr (field @ '' > ?'', [v])
      else if opr = SQLOpLt then Inr (field @ '' < ?'', [v])
      else if opr = SQLOpGte then Inr (field @ '' >= ?'', [v])
      else if opr = SQLOpLte then Inr (field @ '' <= ?'', [v])
      else if opr = SQLOpIn then
        (case v of
           VScalar x \<Rightarrow> Inl (OtherError ''IN operator requires []interface{} value'')
         | VSlice xs \<Rightarrow> if xs = [] then Inr ([], [])
                       else Inr (field @ '' IN ('' @ placeholders (length xs) @ '')'', map VScalar xs))
      else if opr = SQLOpNotIn then
        (case v of
           VScalar x \<Rightarrow> Inl (OtherError ''NOT IN operator requires []interface{} value'')
         | VSlice xs \<Rightarrow> if xs = [] then Inr ([], [])
                       else Inr (field @ '' NOT IN ('' @ placeholders (length xs) @ '')'', map VScalar xs))
      else if opr = SQLOpBetween then
        (case v of
           VSlice [x, y] \<Rightarrow> Inr (field @ '' BETWEEN ? AND ?'', [VScalar x, VScalar y])
         | _ \<Rightarrow> Inl (OtherError ''BETWEEN operator requires []interface{} with 2 values''))
      else Inl (OtherError ''unsupported operator''))"

definition needParentheses :: "string list \<Rightarrow> bool" where
  "needParentheses parts = (''OR'' \<in> set parts \<and> ''AND'' \<in> set parts)"

text \<open>One child in the loop over the children: with parts already there its logic goes first.\<close>

definition add_part :: "string \<Rightarrow> string \<times> sql_value list \<Rightarrow> string list \<times> sql_value list \<Rightarrow> string list \<times> sql_value list" where
  "add_part logic r acc = (case (r, acc) of ((childSQL, childArgs), (sqlParts, args)) \<Rightarrow>
     if childSQL = [] then (sqlParts, args)
     else ((if sqlParts \<noteq> [] then sqlParts @ [if logic = [] then SQLLogicAnd else logic] else sqlParts) @ [childSQL],
           args @ childArgs))"

fun buildWhereCondition :: "nat \<Rightarrow> cond_heap \<Rightarrow> nat option \<Rightarrow> build_result go"
  and build_children :: "nat \<Rightarrow> cond_heap \<Rightarrow> nat option list \<Rightarrow> string list \<times> sql_value list \<Rightarrow> (go_error + string list \<times> sql_value list) go"
where
  "buildWhereCondition 0 h p = Inl Diverges"
| "buildWhereCondition (Suc fuel) h p =
     (case p of
        None \<Rightarrow> Inr (Inr ([], []))
      | Some a \<Rightarrow> (let cond = h ! a in
          if wc_Field cond = [] \<and> wc_Children cond \<noteq> []
          then go_bind (build_children fuel h (wc_Children cond) ([], [])) (\<lambda>r.
            case r of
              Inl e \<Rightarrow> Inr (Inl e)
            | Inr (sqlParts, args) \<Rightarrow>
                if sqlParts = [] then Inr (Inr ([], []))
                else Inr (Inr (''('' @ strings_Join sqlParts '' '' @ '')'', args)))
          else (case buildSingleCondition (wc_Field cond) (wc_Operator cond) (wc_Value cond) of
              Inl e \<Rightarrow> Inr (Inl e)
            | Inr (conditionSQL, conditionArgs) \<Rightarrow>
                go_bind (build_children fuel h (wc_Children cond)
                    (if conditionSQL \<noteq> [] then ([conditionSQL], conditionArgs) else ([], []))) (\<lambda>r.
                  case r of
                    Inl e \<Rightarrow> Inr (Inl e)
                  | Inr (sqlParts, args) \<Rightarrow>
                      if sqlParts = [] then Inr (Inr ([], []))
                      else (let sql = strings_Join sqlParts '' '' in
                        Inr (Inr (if needParentheses sqlParts then ''('' @ sql @ '')'' else sql, args)))))))"
| "build_children fuel h [] acc = Inr (Inr acc)"
| "build_children 0 h (c # cs) acc = Inl Diverges"
| "build_children (Suc fuel) h (c # cs) acc =
     go_bind (buildWhereCondition fuel h c) (\<lambda>r.
       case r of
         Inl e \<Rightarrow> Inr (Inl e)
       | Inr r' \<Rightarrow> build_children (Suc fuel) h cs
                    (add_part (case c of None \<Rightarrow> [] | Some a \<Rightarrow> wc_Logic (h ! a)) r' acc))"

definition wb_Build :: "nat \<Rightarrow> WhereClauseBuilder \<Rightarrow> build_result go" where
  "wb_Build fuel b =
     (if wb_root b = None then Inr (Inr ([], []))
      else go_bind (buildWhereCondition fuel (wb_heap b) (wb_root b)) (\<lambda>r.
        case r of
          Inl e \<Rightarrow> Inr (Inl e)
        | Inr (sql, args) \<Rightarrow> Inr (Inr (if sql = [] then ([], []) else (sql, args)))))"

section \<open>Constructors of conditions\<close>

text \<open>The package functions that make a condition; they work on the heap alone.\<close>

definition leaf_node :: "string \<Rightarrow> string \<Rightarrow> sql_value \<Rightarrow> string \<Rightarrow> WhereCondition" where
  "leaf_node opr field v l = \<lparr>wc_Field = field, wc_Operator = opr, wc_Value = v, wc_Logic = l, wc_Children = []\<rparr>"

definition alloc :: "WhereCondition \<Rightarrow> cond_heap \<Rightarrow> nat \<times> cond_heap" where
  "alloc c h = (length h, h @ [c])"

definition ConditionEq where "ConditionEq field v h = alloc (leaf_node SQLOpEq field v SQLLogicAnd) h"
definition ConditionNeq where "ConditionNeq field v h = alloc (leaf_node SQLOpNeq field v SQLLogicAnd) h"
definition ConditionGt where "ConditionGt field v h = alloc (leaf_node SQLOpGt field v SQLLogicAnd) h"
definition ConditionLt where "ConditionLt field v h = alloc (leaf_node SQLOpLt field v SQLLogicAnd) h"
definition ConditionGte where "ConditionGte field v h = alloc (leaf_node SQLOpGte field v SQLLogicAnd) h"
definition ConditionLte where "ConditionLte field v h = alloc (leaf_node SQLOpLte field v SQLLogicAnd) h"
definition ConditionIn where "ConditionIn field vs h = alloc (leaf_node SQLOpIn field (VSlice vs) SQLLogicAnd) h"
definition ConditionNotIn where "ConditionNotIn field vs h = alloc (leaf_node SQLOpNotIn field (VSlice vs) SQLLogicAnd) h"
definition ConditionBetween where
  "ConditionBetween field lo hi h = alloc (leaf_node SQLOpBetween field (VSlice [lo, hi]) SQLLogicAnd) h"

definition cond_Or :: "nat \<Rightarrow> cond_heap \<Rightarrow> cond_heap" where
  "cond_Or a h = set_logic SQLLogicOr a h"

definition cond_And :: "nat \<Rightarrow> cond_heap \<Rightarrow> cond_heap" where
  "cond_And a h = set_logic SQLLogicAnd a h"

definition AddChild :: "nat option \<Rightarrow> nat \<Rightarrow> cond_heap \<Rightarrow> cond_heap" where
  "AddChild c a h = add_child c a h"

definition AddChildren :: "nat option list \<Rightarrow> nat \<Rightarrow> cond_heap \<Rightarrow> cond_heap" where
  "AddChildren cs a h = h[a := (h ! a)\<lparr>wc_Children := wc_Children (h ! a) @ cs\<rparr>]"

definition ConditionGroup :: "nat option list \<Rightarrow> cond_heap \<Rightarrow> nat option \<times> cond_heap" where
  "ConditionGroup cs h = (if cs = [] then (None, h) else case alloc (group_node [] cs) h of (a, h') \<Rightarrow> (Some a, h'))"

definition ConditionAndGroup :: "nat option list \<Rightarrow> cond_heap \<Rightarrow> (nat option \<times> cond_heap) go" where
  "ConditionAndGroup cs h = (if cs = [] then Inr (None, h)
     else go_bind (set_logics SQLLogicAnd cs h) (\<lambda>h'. Inr (ConditionGroup cs h')))"

definition ConditionOrGroup :: "nat option list \<Rightarrow> cond_heap \<Rightarrow> (nat option \<times> cond_heap) go" where
  "ConditionOrGroup cs h = (if cs = [] then Inr (None, h)
     else go_bind (set_logics SQLLogicOr cs h) (\<lambda>h'. Inr (ConditionGroup cs h')))"

section \<open>Index check\<close>

text \<open>The fields of a condition; the code keeps them in a map, so their order is not fixed.\<close>

fun collectConditionFields :: "nat \<Rightarrow> cond_heap \<Rightarrow> nat option \<Rightarrow> string list go"
  and collect_children :: "nat \<Rightarrow> cond_heap \<Rightarrow> nat option list \<Rightarrow> string list \<Rightarrow> string list go" where
  "collectConditionFields 0 h p = Inl Diverges"
| "collectConditionFields (Suc fuel) h p =
     (case p of
        None \<Rightarrow> Inr []
      | Some a \<Rightarrow> collect_children fuel h (wc_Children (h ! a))
                   (if wc_Field (h ! a) \<noteq> [] then [wc_Field (h ! a)] else []))"
| "collect_children fuel h [] found = Inr found"
| "collect_children 0 h (c # cs) found = Inl Diverges"
| "collect_children (Suc fuel) h (c # cs) found =
     go_bind (collectConditionFields fuel h c)
       (\<lambda>childFields. collect_children (Suc fuel) h cs (List.union childFields found))"

definition isPrimaryKeyUsed :: "string list \<Rightarrow> string list \<Rightarrow> bool" where
  "isPrimaryKeyUsed usedFields primaryKeyColumns =
     (case primaryKeyColumns of [] \<Rightarrow> False | leadingColumn # _ \<Rightarrow> leadingColumn \<in> set usedFields)"

text \<open>The number of the first index whose leading column is used.\<close>

fun findMatchingIndex :: "nat \<Rightarrow> string list \<Rightarrow> string list list \<Rightarrow> nat option" where
  "findMatchingIndex i usedFields [] = None"
| "findMatchingIndex i usedFields (index # indexes) =
     (case index of
        [] \<Rightarrow> findMatchingIndex (Suc i) usedFields indexes
      | leadingColumn # _ \<Rightarrow>
          if leadingColumn \<in> set usedFields then Some i else findMatchingIndex (Suc i) usedFields indexes)"

datatype used_index = NoIndex | PRIMARY | INDEX nat

definition BuildWithIndexCheck ::
  "nat \<Rightarrow> string list \<Rightarrow> string list list \<Rightarrow> WhereClauseBuilder \<Rightarrow> (go_error + string \<times> sql_value list \<times> used_index) go" where
  "BuildWithIndexCheck fuel primaryKeyColumns indexColumns b =
     (if wb_root b = None then Inr (Inr ([], [], NoIndex))
      else go_bind (buildWhereCondition fuel (wb_heap b) (wb_root b)) (\<lambda>r.
        case r of
          Inl e \<Rightarrow> Inr (Inl e)
        | Inr (sql, args) \<Rightarrow>
            if sql = [] then Inr (Inr ([], [], NoIndex))
            else go_bind (collectConditionFields fuel (wb_heap b) (wb_root b)) (\<lambda>usedFields.
              if isPrimaryKeyUsed usedFields primaryKeyColumns then Inr (Inr (''WHERE '' @ sql, args, PRIMARY))
              else case findMatchingIndex 0 usedFields indexColumns of
                     Some i \<Rightarrow> Inr (Inr (''WHERE '' @ sql, args, INDEX i))
                   | None \<Rightarrow> Inr (Inl (OtherError ''query does not use any index or primary key'')))))"

end
