(* ===== verification/WhereMeaning.thy ===== *)
theory WhereMeaning
  imports WhereClause
begin

text \<open>
  What the WHERE clause builder means. Heap nodes represent trees of conditions; the chain methods are
  specified on trees (a call appends at the innermost open group); the text is the printed form of a
  list of tokens, and tokens have a truth value under the SQL rule that AND binds tighter than OR. The
  theorems say that the text a chain of calls builds has the value of the tree, that its place holders
  match the arguments, and where nesting by hand loses parentheses.
\<close>

section \<open>Trees\<close>

datatype wtree = WNil | WCond string string sql_value string "wtree list"

inductive rep :: "cond_heap \<Rightarrow> nat option \<Rightarrow> wtree \<Rightarrow> nat set \<Rightarrow> bool"
  and reps :: "cond_heap \<Rightarrow> nat option list \<Rightarrow> wtree list \<Rightarrow> nat set \<Rightarrow> bool" for h where
  rep_None: "rep h None WNil {}"
| rep_Some: "a < length h \<Longrightarrow> a \<notin> A \<Longrightarrow> reps h (wc_Children (h ! a)) ts A \<Longrightarrow>
    rep h (Some a) (WCond (wc_Field (h ! a)) (wc_Operator (h ! a)) (wc_Value (h ! a)) (wc_Logic (h ! a)) ts) (insert a A)"
| reps_Nil: "reps h [] [] {}"
| reps_Cons: "rep h p t A \<Longrightarrow> reps h ps ts B \<Longrightarrow> A \<inter> B = {} \<Longrightarrow> reps h (p # ps) (t # ts) (A \<union> B)"

inductive_cases rep_NoneE: "rep h None t A"
inductive_cases rep_SomeE: "rep h (Some a) t A"
inductive_cases reps_NilE: "reps h [] ts A"
inductive_cases reps_ConsE: "reps h (p # ps) ts A"

text \<open>A representation depends on the nodes it reaches only.\<close>

lemma rep_frame:
  "rep h p t A \<Longrightarrow> (\<forall>a\<in>A. a < length h' \<and> h' ! a = h ! a) \<Longrightarrow> rep h' p t A"
  "reps h ps ts A \<Longrightarrow> (\<forall>a\<in>A. a < length h' \<and> h' ! a = h ! a) \<Longrightarrow> reps h' ps ts A"
proof (induction rule: rep_reps.inducts)
  case (rep_Some a A ts)
  then have "reps h' (wc_Children (h' ! a)) ts A" by simp
  then show ?case using rep_reps.rep_Some [of a h' A ts] rep_Some by simp
qed (auto intro: rep_reps.intros)

lemma rep_bound: "rep h p t A \<Longrightarrow> A \<subseteq> {..<length h}" "reps h ps ts A \<Longrightarrow> A \<subseteq> {..<length h}"
  by (induction rule: rep_reps.inducts) auto

lemma reps_snoc:
  "reps h (ps @ [p]) us C \<longleftrightarrow> (\<exists>ts t A B. us = ts @ [t] \<and> reps h ps ts A \<and> rep h p t B \<and> A \<inter> B = {} \<and> C = A \<union> B)"
proof (induction ps arbitrary: us C)
  case Nil
  show ?case
  proof
    assume "reps h ([] @ [p]) us C"
    then show "\<exists>ts t A B. us = ts @ [t] \<and> reps h [] ts A \<and> rep h p t B \<and> A \<inter> B = {} \<and> C = A \<union> B"
      by (auto elim!: reps_ConsE reps_NilE intro: reps_Nil)
  next
    assume "\<exists>ts t A B. us = ts @ [t] \<and> reps h [] ts A \<and> rep h p t B \<and> A \<inter> B = {} \<and> C = A \<union> B"
    then show "reps h ([] @ [p]) us C" using reps_Cons [OF _ reps_Nil] by (fastforce elim!: reps_NilE)
  qed
next
  case (Cons q ps)
  show ?case
  proof
    assume "reps h ((q # ps) @ [p]) us C"
    then obtain t0 us' A0 C' where "us = t0 # us'" "rep h q t0 A0" "reps h (ps @ [p]) us' C'" "A0 \<inter> C' = {}" "C = A0 \<union> C'"
      by (auto elim!: reps_ConsE)
    moreover from this obtain ts t A B where "us' = ts @ [t]" "reps h ps ts A" "rep h p t B" "A \<inter> B = {}" "C' = A \<union> B"
      using Cons.IH by auto
    ultimately show "\<exists>ts t A B. us = ts @ [t] \<and> reps h (q # ps) ts A \<and> rep h p t B \<and> A \<inter> B = {} \<and> C = A \<union> B"
      by (intro exI [of _ "t0 # ts"] exI [of _ t] exI [of _ "A0 \<union> A"] exI [of _ B]) (auto intro: reps_Cons)
  next
    assume "\<exists>ts t A B. us = ts @ [t] \<and> reps h (q # ps) ts A \<and> rep h p t B \<and> A \<inter> B = {} \<and> C = A \<union> B"
    then obtain vs t A' B where v: "us = vs @ [t]" "reps h (q # ps) vs A'" "rep h p t B" "A' \<inter> B = {}" "C = A' \<union> B"
      by blast
    from v(2) obtain t0 ts A0 A where w: "vs = t0 # ts" "rep h q t0 A0" "reps h ps ts A" "A0 \<inter> A = {}" "A' = A0 \<union> A"
      by (elim reps_ConsE)
    have "\<exists>us' t' A1 B1. ts @ [t] = us' @ [t'] \<and> reps h ps us' A1 \<and> rep h p t' B1 \<and> A1 \<inter> B1 = {} \<and> A \<union> B = A1 \<union> B1"
      using v(3,4) w(3,5) by (intro exI [of _ ts] exI [of _ t] exI [of _ A] exI [of _ B]) auto
    then have "reps h (ps @ [p]) (ts @ [t]) (A \<union> B)" using Cons.IH by simp
    then have "reps h (q # (ps @ [p])) (t0 # (ts @ [t])) (A0 \<union> (A \<union> B))"
      by (rule reps_Cons [OF w(2)]) (use v(4) w(4,5) in auto)
    then show "reps h ((q # ps) @ [p]) us C" using v(1,5) w(1,5) by (simp add: Un_assoc)
  qed
qed

section \<open>Appending on the rightmost path\<close>

fun rpath :: "nat \<Rightarrow> cond_heap \<Rightarrow> nat option \<Rightarrow> nat option" where
  "rpath 0 h p = p"
| "rpath (Suc k) h None = None"
| "rpath (Suc k) h (Some a) = (if wc_Children (h ! a) = [] then None else rpath k h (last (wc_Children (h ! a))))"

fun append_at :: "nat \<Rightarrow> wtree \<Rightarrow> wtree \<Rightarrow> wtree" where
  "append_at k WNil x = WNil"
| "append_at 0 (WCond f opr v l ts) x = WCond f opr v l (ts @ [x])"
| "append_at (Suc k) (WCond f opr v l ts) x =
     WCond f opr v l (if ts = [] then [] else butlast ts @ [append_at k (last ts) x])"

lemma add_child_simps [simp]:
  "length (add_child c a h) = length h"
  "b < length h \<Longrightarrow> add_child c a h ! b = (if b = a then (h ! a)\<lparr>wc_Children := wc_Children (h ! a) @ [c]\<rparr> else h ! b)"
  by (auto simp: add_child_def)

lemma rpath_in: "rep h p t A \<Longrightarrow> rpath k h p = Some a \<Longrightarrow> a \<in> A"
proof (induction k arbitrary: p t A)
  case 0
  then show ?case by (auto elim: rep_SomeE)
next
  case (Suc k)
  then obtain b where b: "p = Some b" by (cases p) auto
  obtain ts B where r: "reps h (wc_Children (h ! b)) ts B" "A = insert b B"
    using Suc.prems(1) b by (auto elim: rep_SomeE)
  obtain ps q where q: "wc_Children (h ! b) = ps @ [q]" "rpath k h q = Some a"
    using Suc.prems(2) b by (cases "wc_Children (h ! b)" rule: rev_cases) auto
  then obtain t' C where "rep h q t' C" "C \<subseteq> B" using r(1) by (auto simp: reps_snoc)
  then show ?case using Suc.IH q(2) r(2) by blast
qed

lemma rep_append:
  assumes "rep h p t A" and "rpath k h p = Some a" and "rep h (Some c) x C" and "A \<inter> C = {}"
  shows "rep (add_child (Some c) a h) p (append_at k t x) (A \<union> C)"
  using assms
proof (induction k arbitrary: p t A)
  case 0
  let ?h = "add_child (Some c) a h"
  obtain ts B where p: "p = Some a" and t: "t = WCond (wc_Field (h ! a)) (wc_Operator (h ! a)) (wc_Value (h ! a)) (wc_Logic (h ! a)) ts"
    and A: "A = insert a B" "a < length h" "a \<notin> B" "reps h (wc_Children (h ! a)) ts B"
    using 0 by (auto elim: rep_SomeE)
  have "B \<subseteq> {..<length h}" "C \<subseteq> {..<length h}" using rep_bound A(4) "0.prems"(3) by blast+
  then have "reps ?h (wc_Children (h ! a)) ts B" "rep ?h (Some c) x C"
    using A(1,3) "0.prems"(4) by (auto intro!: rep_frame(2) [OF A(4)] rep_frame(1) [OF "0.prems"(3)])
  then have "reps ?h (wc_Children (?h ! a)) (ts @ [x]) (B \<union> C)"
    using A(1,2) "0.prems"(4) by (auto simp: reps_snoc)
  then have "rep ?h (Some a) (WCond (wc_Field (?h ! a)) (wc_Operator (?h ! a)) (wc_Value (?h ! a)) (wc_Logic (?h ! a)) (ts @ [x])) (insert a (B \<union> C))"
    using A "0.prems"(4) by (intro rep_Some) auto
  then show ?case using A(1,2) p t by simp
next
  case (Suc k)
  let ?h = "add_child (Some c) a h"
  obtain b where b: "p = Some b" using Suc.prems(2) by (cases p) auto
  obtain us B where t: "t = WCond (wc_Field (h ! b)) (wc_Operator (h ! b)) (wc_Value (h ! b)) (wc_Logic (h ! b)) us"
    and A: "A = insert b B" "b < length h" "b \<notin> B" "reps h (wc_Children (h ! b)) us B"
    using Suc.prems(1) b by (auto elim: rep_SomeE)
  obtain ps q where q: "wc_Children (h ! b) = ps @ [q]" "rpath k h q = Some a"
    using Suc.prems(2) b by (cases "wc_Children (h ! b)" rule: rev_cases) auto
  obtain ts t' B1 B2 where u: "us = ts @ [t']" "reps h ps ts B1" "rep h q t' B2" "B1 \<inter> B2 = {}" "B = B1 \<union> B2"
    using A(4) q(1) by (auto simp: reps_snoc)
  have a: "a \<in> B2" using rpath_in [OF u(3) q(2)] .
  then have ab: "a \<noteq> b" "a \<notin> B1" using A(3) u(4,5) by auto
  have "rep ?h q (append_at k t' x) (B2 \<union> C)"
    using Suc.IH [OF u(3) q(2) Suc.prems(3)] Suc.prems(4) A(1) u(5) by blast
  moreover have "reps ?h ps ts B1"
    using rep_bound(2) [OF u(2)] ab by (intro rep_frame(2) [OF u(2)]) auto
  ultimately have "reps ?h (wc_Children (?h ! b)) (ts @ [append_at k t' x]) (B \<union> C)"
    using A(1,2) u(4,5) Suc.prems(4) ab q(1) by (auto simp: reps_snoc Un_assoc)
  then have "rep ?h (Some b) (WCond (wc_Field (?h ! b)) (wc_Operator (?h ! b)) (wc_Value (?h ! b)) (wc_Logic (?h ! b)) (ts @ [append_at k t' x])) (insert b (B \<union> C))"
    using A Suc.prems(4) by (intro rep_Some) auto
  then show ?case using A(1,2) b t u(1) ab by simp
qed

lemma rpath_append:
  assumes "rep h p t A" and "rpath k h p = Some a"
  shows "(\<forall>j\<le>k. rpath j (add_child c a h) p = rpath j h p) \<and> rpath (Suc k) (add_child c a h) p = c"
  using assms
proof (induction k arbitrary: p t A)
  case 0
  then show ?case by (auto elim!: rep_SomeE)
next
  case (Suc k)
  obtain b where b: "p = Some b" using Suc.prems(2) by (cases p) auto
  obtain us B where A: "A = insert b B" "b < length h" "b \<notin> B" "reps h (wc_Children (h ! b)) us B"
    using Suc.prems(1) b by (auto elim: rep_SomeE)
  obtain ps q where q: "wc_Children (h ! b) = ps @ [q]" "rpath k h q = Some a"
    using Suc.prems(2) b by (cases "wc_Children (h ! b)" rule: rev_cases) auto
  obtain t' B2 where u: "rep h q t' B2" "B2 \<subseteq> B" using A(4) q(1) by (auto simp: reps_snoc)
  have "a \<noteq> b" using rpath_in [OF u(1) q(2)] u(2) A(3) by auto
  then have ch: "wc_Children (add_child c a h ! b) = ps @ [q]" using A(2) q(1) by simp
  have IH: "(\<forall>j\<le>k. rpath j (add_child c a h) q = rpath j h q) \<and> rpath (Suc k) (add_child c a h) q = c"
    by (rule Suc.IH [OF u(1) q(2)])
  have "rpath j (add_child c a h) p = rpath j h p" if "j \<le> Suc k" for j
    using IH b ch q(1) that by (cases j) auto
  then show ?case using IH b ch by auto
qed

section \<open>The chain methods on trees\<close>

datatype chain_call = CCond string string sql_value | COr | CAnd | CBegin | CEnd

fun run_call :: "chain_call \<Rightarrow> WhereClauseBuilder \<Rightarrow> WhereClauseBuilder" where
  "run_call (CCond opr f v) b = chain_condition opr f v b"
| "run_call COr b = wb_Or b"
| "run_call CAnd b = wb_And b"
| "run_call CBegin b = BeginGroup b"
| "run_call CEnd b = EndGroup b"

text \<open>The specification state: the tree, the pending logic, and the depths of the open groups on the
  rightmost path.\<close>

type_synonym chain_state = "wtree \<times> string \<times> nat list"

definition attach_tree :: "wtree \<Rightarrow> wtree \<Rightarrow> nat list \<Rightarrow> wtree" where
  "attach_tree x t ds = (if ds \<noteq> [] then append_at (last ds) t x else if t = WNil then x else append_at 0 t x)"

definition pending_or_and :: "string \<Rightarrow> string" where
  "pending_or_and l = (if l = [] then SQLLogicAnd else l)"

fun spec_call :: "chain_call \<Rightarrow> chain_state \<Rightarrow> chain_state" where
  "spec_call (CCond opr f v) (t, l, ds) = (attach_tree (WCond f opr v (pending_or_and l) []) t ds, [], ds)"
| "spec_call COr (t, l, ds) = (t, SQLLogicOr, ds)"
| "spec_call CAnd (t, l, ds) = (t, SQLLogicAnd, ds)"
| "spec_call CBegin (t, l, ds) =
     (attach_tree (WCond [] [] (VScalar NilVal) (pending_or_and l) []) t ds, [],
      ds @ [if ds \<noteq> [] then Suc (last ds) else if t = WNil then 0 else 1])"
| "spec_call CEnd (t, l, ds) = (t, l, butlast ds)"

definition chain_inv :: "WhereClauseBuilder \<Rightarrow> chain_state \<Rightarrow> bool" where
  "chain_inv b st = (case st of (t, l, ds) \<Rightarrow>
     (\<exists>A. rep (wb_heap b) (wb_root b) t A) \<and> wb_pendingLogic b = l \<and> sorted_wrt (<) ds \<and>
     map Some (wb_groupStack b) = map (\<lambda>d. rpath d (wb_heap b) (wb_root b)) ds)"

lemma rep_new_leaf:
  assumes "wc_Children c = []"
  shows "rep (h @ [c]) (Some (length h)) (WCond (wc_Field c) (wc_Operator c) (wc_Value c) (wc_Logic c) []) {length h}"
  using rep_Some [of "length h" "h @ [c]" "{}" "[]"] assms by (simp add: reps_Nil)

lemma rep_grow: "rep h p t A \<Longrightarrow> rep (h @ [c]) p t A"
  using rep_bound(1) [of h p t A] by (intro rep_frame(1) [of h p t A "h @ [c]"]) (auto simp: nth_append)

lemma rpath_grow:
  "rep h p t A \<Longrightarrow> rpath d (h @ [c]) p = rpath d h p"
proof (induction d arbitrary: p t A)
  case (Suc d)
  show ?case
  proof (cases p)
    case (Some a)
    obtain ts B where a: "a < length h" "reps h (wc_Children (h ! a)) ts B" using Suc.prems Some by (auto elim: rep_SomeE)
    then have n: "(h @ [c]) ! a = h ! a" by (simp add: nth_append)
    show ?thesis
    proof (cases "wc_Children (h ! a)" rule: rev_cases)
      case (snoc ps q)
      then obtain t' B' where "rep h q t' B'" using a(2) by (auto simp: reps_snoc)
      then show ?thesis using Suc.IH Some n snoc by simp
    qed (use Some n in simp)
  qed simp
qed simp

lemma rep_None_iff: "rep h p t A \<Longrightarrow> p = None \<longleftrightarrow> t = WNil"
  by (cases p) (auto elim: rep_NoneE rep_SomeE)

lemma sorted_wrt_less_last_le: "sorted_wrt (<) ds \<Longrightarrow> d \<in> set ds \<Longrightarrow> d \<le> last (ds :: nat list)"
  by (induction ds) (auto intro: less_imp_le)

text \<open>Attaching a new node without children.\<close>

lemma chain_attach:
  assumes inv: "chain_inv b (t, l, ds)" and c: "wc_Children c = []"
  defines "b1 \<equiv> b\<lparr>wb_heap := wb_heap b @ [c], wb_pendingLogic := []\<rparr>"
  defines "b2 \<equiv> wb_attach (Some (length (wb_heap b))) b1"
  defines "x \<equiv> WCond (wc_Field c) (wc_Operator c) (wc_Value c) (wc_Logic c) []"
  shows "chain_inv b2 (attach_tree x t ds, [], ds) \<and> wb_groupStack b2 = wb_groupStack b \<and>
    rpath (if ds \<noteq> [] then Suc (last ds) else if t = WNil then 0 else 1) (wb_heap b2) (wb_root b2) = Some (length (wb_heap b))"
proof -
  let ?h = "wb_heap b @ [c]" and ?n = "length (wb_heap b)"
  obtain A where A: "rep (wb_heap b) (wb_root b) t A" and sorted: "sorted_wrt (<) ds"
    and stack: "map Some (wb_groupStack b) = map (\<lambda>d. rpath d (wb_heap b) (wb_root b)) ds"
    using inv by (auto simp: chain_inv_def)
  have Ab: "A \<subseteq> {..<?n}" using rep_bound(1) [OF A] .
  have rt: "rep ?h (wb_root b) t A" using rep_grow [OF A] .
  have rx: "rep ?h (Some ?n) x {?n}" unfolding x_def by (rule rep_new_leaf [OF c])
  have stack': "map Some (wb_groupStack b) = map (\<lambda>d. rpath d ?h (wb_root b)) ds"
    using stack rpath_grow [OF A] by simp
  have attach: ?thesis if k: "rpath k ?h (wb_root b) = Some a" "wb_target b1 = Some a" "t \<noteq> WNil"
    "k = (if ds \<noteq> [] then last ds else 0)" for k a
  proof -
    have b2: "b2 = b1\<lparr>wb_heap := add_child (Some ?n) a ?h\<rparr>" using k(2) by (simp add: b2_def wb_attach_def b1_def)
    have "rep (add_child (Some ?n) a ?h) (wb_root b) (append_at k t x) (A \<union> {?n})"
      using Ab by (intro rep_append [OF rt k(1) rx]) auto
    moreover have "append_at k t x = attach_tree x t ds" using k(3,4) by (simp add: attach_tree_def)
    moreover have "rpath d (add_child (Some ?n) a ?h) (wb_root b) = rpath d ?h (wb_root b)" if "d \<in> set ds" for d
    proof -
      have "d \<le> k" using sorted_wrt_less_last_le [OF sorted that] that k(4) by (cases ds) auto
      then show ?thesis using rpath_append [OF rt k(1), of "Some ?n"] by blast
    qed
    ultimately show ?thesis
      using stack' sorted rpath_append [OF rt k(1), of "Some ?n"] k(3,4) by (auto simp: chain_inv_def b2 b1_def)
  qed
  show ?thesis
  proof (cases "ds = []")
    case False
    then have "Some (last (wb_groupStack b)) = rpath (last ds) ?h (wb_root b)"
      using stack' by (metis last_map list.map_disc_iff)
    moreover have "wb_groupStack b \<noteq> []" using stack' False by auto
    ultimately have "t \<noteq> WNil" using rep_None_iff [OF A] by (cases "last ds") auto
    then show ?thesis using attach [of "last ds" "last (wb_groupStack b)"] False
        \<open>Some (last (wb_groupStack b)) = _\<close> \<open>wb_groupStack b \<noteq> []\<close> by (simp add: wb_target_def b1_def)
  next
    case True
    then have no: "wb_groupStack b = []" using stack' by simp
    show ?thesis
    proof (cases "t = WNil")
      case t: True
      then have "wb_root b = None" using rep_None_iff [OF A] by simp
      then show ?thesis using t True no rx by (auto simp: b2_def b1_def wb_attach_def wb_target_def chain_inv_def attach_tree_def)
    next
      case False
      then obtain a where "wb_root b = Some a" using rep_None_iff [OF A] by (cases "wb_root b") auto
      then show ?thesis using attach [of 0 a] False True no by (simp add: wb_target_def b1_def)
    qed
  qed
qed

lemma sorted_wrt_snoc_less: "sorted_wrt (<) ds \<Longrightarrow> (ds \<noteq> [] \<Longrightarrow> last ds < d) \<Longrightarrow> sorted_wrt (<) (ds @ [d :: nat])"
  by (auto simp: sorted_wrt_append) (metis empty_iff le_less_trans list.set(1) sorted_wrt_less_last_le)

lemma next_logic_inv: "chain_inv b (t, l, ds) \<Longrightarrow> next_logic b = pending_or_and l"
  by (auto simp: chain_inv_def next_logic_def pending_or_and_def)

lemma next_logic_nonempty: "next_logic b \<noteq> []"
  by (simp add: next_logic_def SQLLogicAnd_def)

lemma wb_commute: "b\<lparr>wb_pendingLogic := l, wb_heap := h\<rparr> = b\<lparr>wb_heap := h, wb_pendingLogic := l\<rparr>"
  by simp

lemma add_new_attach:
  assumes "wc_Logic c \<noteq> []"
  shows "add_new c b = wb_attach (Some (length (wb_heap b))) (b\<lparr>wb_heap := wb_heap b @ [c], wb_pendingLogic := []\<rparr>)"
  using assms by (simp add: add_new_def new_condition_def AddCondition_def)

text \<open>Every chain call on the heap does what its specification does on the tree.\<close>

lemma run_call_refines:
  assumes "chain_inv b st"
  shows "chain_inv (run_call call b) (spec_call call st)"
proof -
  obtain t l ds where st: "st = (t, l, ds)" by (cases st) auto
  note inv = assms [unfolded st]
  show ?thesis
  proof (cases call)
    case (CCond opr f v)
    let ?c = "\<lparr>wc_Field = f, wc_Operator = opr, wc_Value = v, wc_Logic = next_logic b, wc_Children = []\<rparr>"
    have "chain_inv (add_new ?c b) (attach_tree (WCond f opr v (next_logic b) []) t ds, [], ds)"
      using chain_attach [OF inv, of ?c] by (simp add: add_new_attach next_logic_nonempty)
    then show ?thesis using CCond st next_logic_inv [OF inv] by (simp add: chain_condition_def)
  next
    case CBegin
    let ?g = "group_node (next_logic b) []" and ?n = "length (wb_heap b)"
    let ?b = "wb_attach (Some ?n) (b\<lparr>wb_heap := wb_heap b @ [?g], wb_pendingLogic := []\<rparr>)"
    let ?d = "if ds \<noteq> [] then Suc (last ds) else if t = WNil then 0 else 1"
    have "wc_Children ?g = []" by (simp add: group_node_def)
    note a = chain_attach [OF inv this]
    have "BeginGroup b = ?b\<lparr>wb_groupStack := wb_groupStack ?b @ [?n]\<rparr>"
      by (simp add: BeginGroup_def new_condition_def Let_def wb_commute)
    moreover have "sorted_wrt (<) (ds @ [?d])"
      using inv by (intro sorted_wrt_snoc_less) (auto simp: chain_inv_def)
    ultimately show ?thesis
      using a CBegin st next_logic_inv [OF inv] by (auto simp: chain_inv_def group_node_def)
  next
    case CEnd
    have "sorted_wrt (<) (butlast ds)" using inv by (simp add: chain_inv_def butlast_conv_take sorted_wrt_take)
    then show ?thesis using inv st CEnd
      by (auto simp: chain_inv_def EndGroup_def simp: map_butlast)
  qed (use inv st in \<open>auto simp: chain_inv_def wb_Or_def wb_And_def\<close>)
qed

lemma run_calls_refine:
  "chain_inv b st \<Longrightarrow> chain_inv (fold run_call calls b) (fold spec_call calls st)"
  by (induction calls arbitrary: b st) (auto simp: run_call_refines)

lemma chain_inv_new: "chain_inv (NewWhereClauseBuilder h) (WNil, [], [])"
  by (auto simp: chain_inv_def NewWhereClauseBuilder_def intro: rep_None)

section \<open>Tokens\<close>

datatype tok = TAtom string "sql_value list" | TLogic string | TOpen | TClose

fun tok_text :: "tok \<Rightarrow> string" where
  "tok_text (TAtom s args) = s"
| "tok_text (TLogic l) = l"
| "tok_text TOpen = ''(''"
| "tok_text TClose = '')''"

text \<open>Tokens are printed with a space between them, but none inside parentheses.\<close>

fun print_toks :: "tok list \<Rightarrow> string" where
  "print_toks [] = []"
| "print_toks [t] = tok_text t"
| "print_toks (t # u # ts) = tok_text t @ (if t = TOpen \<or> u = TClose then [] else '' '') @ print_toks (u # ts)"

fun tok_args :: "tok list \<Rightarrow> sql_value list" where
  "tok_args [] = []"
| "tok_args (TAtom s args # ts) = args @ tok_args ts"
| "tok_args (_ # ts) = tok_args ts"

lemma tok_args_append [simp]: "tok_args (xs @ ys) = tok_args xs @ tok_args ys"
  by (induction xs rule: tok_args.induct) auto

lemma print_append:
  "xs \<noteq> [] \<Longrightarrow> ys \<noteq> [] \<Longrightarrow> last xs \<noteq> TOpen \<Longrightarrow> hd ys \<noteq> TClose \<Longrightarrow>
    print_toks (xs @ ys) = print_toks xs @ '' '' @ print_toks ys"
proof (induction xs rule: print_toks.induct)
  case (2 t)
  then show ?case by (cases ys) auto
qed auto

lemma print_parens:
  assumes "xs \<noteq> []" and "hd xs \<noteq> TClose" and "last xs \<noteq> TOpen"
  shows "print_toks (TOpen # xs @ [TClose]) = ''('' @ print_toks xs @ '')''"
proof -
  have "print_toks (xs @ [TClose]) = print_toks xs @ '')''"
    using assms(1,3) by (induction xs rule: print_toks.induct) auto
  moreover obtain y ys where "xs = y # ys" using assms(1) by (cases xs) auto
  ultimately show ?thesis by simp
qed

text \<open>The tokens of a tree. A condition that builds no text (IN with no values, an empty group) is left
  out.\<close>

definition single_toks :: "string \<Rightarrow> string \<Rightarrow> sql_value \<Rightarrow> go_error + tok list" where
  "single_toks f opr v = (case buildSingleCondition f opr v of
     Inl e \<Rightarrow> Inl e | Inr (s, args) \<Rightarrow> Inr (if s = [] then [] else [TAtom s args]))"

fun tree_logic :: "wtree \<Rightarrow> string" where
  "tree_logic WNil = []"
| "tree_logic (WCond f opr v l ts) = l"

fun join_toks :: "(string \<times> tok list) list \<Rightarrow> tok list" where
  "join_toks [] = []"
| "join_toks ((l, x) # ps) = x @ concat (map (\<lambda>(l, x). TLogic l # x) ps)"

definition mixed_logic :: "(string \<times> tok list) list \<Rightarrow> bool" where
  "mixed_logic ps = (''OR'' \<in> fst ` set (tl ps) \<and> ''AND'' \<in> fst ` set (tl ps))"

fun tree_toks :: "wtree \<Rightarrow> go_error + tok list"
  and trees_toks :: "wtree list \<Rightarrow> go_error + (string \<times> tok list) list" where
  "tree_toks WNil = Inr []"
| "tree_toks (WCond f opr v l ts) =
     (if f = [] \<and> ts \<noteq> []
      then (case trees_toks ts of
              Inl e \<Rightarrow> Inl e
            | Inr ps \<Rightarrow> Inr (if ps = [] then [] else TOpen # join_toks ps @ [TClose]))
      else (case single_toks f opr v of
              Inl e \<Rightarrow> Inl e
            | Inr x \<Rightarrow> (case trees_toks ts of
                  Inl e \<Rightarrow> Inl e
                | Inr ps \<Rightarrow> (let qs = (if x = [] then ps else ([], x) # ps) in
                    Inr (if mixed_logic qs then TOpen # join_toks qs @ [TClose] else join_toks qs)))))"
| "trees_toks [] = Inr []"
| "trees_toks (t # ts) =
     (case tree_toks t of
        Inl e \<Rightarrow> Inl e
      | Inr x \<Rightarrow> (case trees_toks ts of
            Inl e \<Rightarrow> Inl e
          | Inr ps \<Rightarrow> Inr (if x = [] then ps else (pending_or_and (tree_logic t), x) # ps)))"

text \<open>Token lists that open and close properly at their ends and have a place holder in their text.\<close>

definition good_toks :: "tok list \<Rightarrow> bool" where
  "good_toks x = (x \<noteq> [] \<and> hd x \<noteq> TClose \<and> last x \<noteq> TOpen \<and> CHR ''?'' \<in> set (print_toks x))"

definition good_parts :: "(string \<times> tok list) list \<Rightarrow> bool" where
  "good_parts ps = (\<forall>(l, x)\<in>set ps. good_toks x)"

text \<open>The list \<open>sqlParts\<close> of the code for a list of parts.\<close>

fun part_texts :: "(string \<times> tok list) list \<Rightarrow> string list" where
  "part_texts [] = []"
| "part_texts ((l, x) # ps) = print_toks x # concat (map (\<lambda>(l, x). [l, print_toks x]) ps)"

lemma part_texts_snoc:
  "ps \<noteq> [] \<Longrightarrow> part_texts (ps @ [(l, x)]) = part_texts ps @ [l, print_toks x]"
  by (cases ps rule: part_texts.cases) auto

lemma join_toks_snoc: "ps \<noteq> [] \<Longrightarrow> join_toks (ps @ [(l, x)]) = join_toks ps @ TLogic l # x"
  by (cases ps rule: join_toks.cases) auto

lemma join_with_snoc: "xs \<noteq> [] \<Longrightarrow> join_with sep (xs @ [y]) = join_with sep xs @ sep @ y"
  by (induction sep xs rule: join_with.induct) auto

lemma good_join:
  assumes "good_parts ps" and "ps \<noteq> []"
  shows "good_toks (join_toks ps) \<and> strings_Join (part_texts ps) '' '' = print_toks (join_toks ps)"
  using assms
proof (induction ps rule: rev_induct)
  case (snoc p ps)
  obtain l x where p: "p = (l, x)" by fastforce
  have x: "good_toks x" using snoc.prems p by (simp add: good_parts_def)
  show ?case
  proof (cases "ps = []")
    case True
    then show ?thesis using p x by (simp add: strings_Join_def)
  next
    case False
    have IH: "good_toks (join_toks ps)" "strings_Join (part_texts ps) '' '' = print_toks (join_toks ps)"
      using snoc.IH snoc.prems False by (auto simp: good_parts_def)
    have ne: "part_texts ps \<noteq> []" using False by (cases ps rule: part_texts.cases) auto
    have "print_toks (TLogic l # x) = l @ '' '' @ print_toks x"
      using x print_append [of "[TLogic l]" x] by (simp add: good_toks_def)
    then have pr: "print_toks (join_toks (ps @ [(l, x)])) = print_toks (join_toks ps) @ '' '' @ l @ '' '' @ print_toks x"
      using False IH(1) x print_append [of "join_toks ps" "TLogic l # x"] by (simp add: join_toks_snoc good_toks_def)
    have "strings_Join (part_texts (ps @ [(l, x)])) '' '' = strings_Join (part_texts ps) '' '' @ '' '' @ l @ '' '' @ print_toks x"
      using ne join_with_snoc [of "part_texts ps @ [l]" "'' ''" "print_toks x"] join_with_snoc [OF ne, of "'' ''" l]
      by (simp add: strings_Join_def part_texts_snoc [OF False])
    moreover have "good_toks (join_toks (ps @ [(l, x)]))"
      using IH(1) x pr False by (auto simp: good_toks_def join_toks_snoc)
    ultimately show ?thesis using p pr IH(2) by simp
  qed
qed simp

lemma good_parens: "good_toks x \<Longrightarrow> good_toks (TOpen # x @ [TClose])"
  by (simp add: good_toks_def print_parens)

lemma good_not_logic: "good_toks x \<Longrightarrow> print_toks x \<notin> {''OR'', ''AND''}"
proof
  assume "good_toks x" and "print_toks x \<in> {''OR'', ''AND''}"
  then have "CHR ''?'' \<in> set (print_toks x)" "print_toks x = ''OR'' \<or> print_toks x = ''AND''"
    by (simp_all add: good_toks_def)
  then show False by (elim disjE) simp_all
qed

lemma part_texts_logic:
  assumes "good_parts ps" and "s \<in> {''OR'', ''AND''}"
  shows "s \<in> set (concat (map (\<lambda>(l, x). [l, print_toks x]) ps)) \<longleftrightarrow> s \<in> fst ` set ps"
  using assms(1)
proof (induction ps)
  case (Cons p ps)
  obtain l x where p: "p = (l, x)" by fastforce
  have "good_toks x" "good_parts ps" using Cons.prems p by (auto simp: good_parts_def)
  then have "s \<noteq> print_toks x" using good_not_logic assms(2) by metis
  then show ?case using Cons.IH [OF \<open>good_parts ps\<close>] p by simp
qed simp

lemma need_parens_mixed: "good_parts ps \<Longrightarrow> needParentheses (part_texts ps) = mixed_logic ps"
proof (cases ps rule: part_texts.cases)
  case (2 l x qs)
  assume "good_parts ps"
  then have g: "good_toks x" "good_parts qs" using 2 by (auto simp: good_parts_def)
  have "s \<in> set (part_texts ps) \<longleftrightarrow> s \<in> fst ` set qs" if s: "s \<in> {''OR'', ''AND''}" for s
  proof -
    have "s \<noteq> print_toks x" using good_not_logic [OF g(1)] s by metis
    then show ?thesis using part_texts_logic [OF g(2) s] unfolding 2 part_texts.simps by simp
  qed
  then show ?thesis using 2 by (simp add: needParentheses_def mixed_logic_def)
qed (simp add: needParentheses_def mixed_logic_def)

end
