(* ===== verification/WhereSemantics.thy ===== *)
theory WhereSemantics
  imports WhereMeaning
begin

text \<open>
  The text the builder makes is the printed form of the tokens of the tree, and the tokens have the truth
  value of the tree. Truth values are computed by the usual one-pass evaluation with a stack, in which
  AND binds tighter than OR.
\<close>

section \<open>The text of a tree\<close>

lemma join_question: "0 < n \<Longrightarrow> CHR ''?'' \<in> set (join_with sep (replicate n ''?''))"
  by (cases n; cases "n - 1") auto

lemma buildSingle_question:
  assumes "buildSingleCondition f opr v = Inr (s, args)" and "s \<noteq> []"
  shows "CHR ''?'' \<in> set s"
  using assms
  by (auto simp: buildSingleCondition_def Let_def strings_Join_def join_question
      split: if_splits sql_value.splits list.splits)

lemma single_good: "single_toks f opr v = Inr x \<Longrightarrow> x \<noteq> [] \<Longrightarrow> good_toks x"
  using buildSingle_question by (fastforce simp: single_toks_def good_toks_def split: sum.splits if_splits)

definition part_acc :: "(string \<times> tok list) list \<Rightarrow> string list \<times> sql_value list" where
  "part_acc qs = (part_texts qs, tok_args (join_toks qs))"

definition toks_result :: "go_error + tok list \<Rightarrow> build_result" where
  "toks_result r = (case r of Inl e \<Rightarrow> Inl e | Inr x \<Rightarrow> Inr (print_toks x, tok_args x))"

lemma add_part_acc:
  assumes "x \<noteq> [] \<Longrightarrow> good_toks x"
  shows "add_part l (print_toks x, tok_args x) (part_acc qs) =
    part_acc (if x = [] then qs else qs @ [(pending_or_and l, x)])"
proof (cases "x = []")
  case False
  then have "print_toks x \<noteq> []" using assms by (auto simp: good_toks_def)
  moreover have "part_texts qs = [] \<longleftrightarrow> qs = []" by (cases qs rule: part_texts.cases) auto
  ultimately show ?thesis using False
    by (cases "qs = []") (simp_all add: add_part_def part_acc_def part_texts_snoc join_toks_snoc pending_or_and_def)
qed (simp add: add_part_def part_acc_def)

lemma rep_logic: "rep h p t A \<Longrightarrow> (case p of None \<Rightarrow> [] | Some a \<Rightarrow> wc_Logic (h ! a)) = tree_logic t"
  by (cases p) (auto elim: rep_NoneE rep_SomeE)

lemma tree_toks_good:
  "tree_toks t = Inr x \<Longrightarrow> x \<noteq> [] \<Longrightarrow> good_toks x"
  "trees_toks ts = Inr ps \<Longrightarrow> good_parts ps"
proof (induction t and ts arbitrary: x and ps rule: tree_toks_trees_toks.induct)
  case (2 f opr v l ts)
  show ?case
  proof (cases "f = [] \<and> ts \<noteq> []")
    case True
    then obtain ps where "trees_toks ts = Inr ps" "ps \<noteq> []" "x = TOpen # join_toks ps @ [TClose]"
      using "2.prems" by (auto split: sum.splits if_splits)
    then show ?thesis using "2.IH"(1) [OF True] good_join good_parens by metis
  next
    case False
    then obtain y ps where y: "single_toks f opr v = Inr y" "trees_toks ts = Inr ps"
      "x = (let qs = (if y = [] then ps else ([], y) # ps) in if mixed_logic qs then TOpen # join_toks qs @ [TClose] else join_toks qs)"
      using "2.prems"(1) by (auto simp: Let_def split: sum.splits)
    let ?qs = "if y = [] then ps else ([], y) # ps"
    have g: "good_parts ?qs" using "2.IH"(2) [OF False y(1,2)] single_good [OF y(1)] by (auto simp: good_parts_def)
    have "?qs \<noteq> []" using "2.prems"(2) y(3) by (auto simp: mixed_logic_def)
    then show ?thesis using good_join [OF g] good_parens y(3) by (auto simp: Let_def)
  qed
next
  case (4 t ts)
  then obtain x qs where x: "tree_toks t = Inr x" "trees_toks ts = Inr qs"
    "ps = (if x = [] then qs else (pending_or_and (tree_logic t), x) # qs)" by (auto split: sum.splits)
  then show ?case using 4 by (auto simp: good_parts_def)
qed (auto simp: good_parts_def)

lemma build_node_group:
  assumes g: "good_parts qs"
  shows "(if part_texts qs = [] then Inr (Inr ([], []))
      else Inr (Inr (''('' @ strings_Join (part_texts qs) '' '' @ '')'', tok_args (join_toks qs)))) =
    (Inr (toks_result (Inr (if qs = [] then [] else TOpen # join_toks qs @ [TClose]))) :: build_result go)"
proof (cases "qs = []")
  case False
  then have "part_texts qs \<noteq> []" by (cases qs rule: part_texts.cases) auto
  then show ?thesis using False good_join [OF g False] print_parens [of "join_toks qs"]
    by (simp add: toks_result_def good_toks_def)
qed (simp add: toks_result_def)

lemma build_node_plain:
  assumes g: "good_parts qs"
  shows "(if part_texts qs = [] then Inr (Inr ([], []))
      else (let sql = strings_Join (part_texts qs) '' '' in
        Inr (Inr (if needParentheses (part_texts qs) then ''('' @ sql @ '')'' else sql, tok_args (join_toks qs))))) =
    (Inr (toks_result (Inr (if mixed_logic qs then TOpen # join_toks qs @ [TClose] else join_toks qs))) :: build_result go)"
proof (cases "qs = []")
  case False
  then have "part_texts qs \<noteq> []" by (cases qs rule: part_texts.cases) auto
  then show ?thesis using False good_join [OF g False] print_parens [of "join_toks qs"] need_parens_mixed [OF g]
    by (simp add: toks_result_def good_toks_def)
qed (simp add: toks_result_def mixed_logic_def)

lemma build_rep:
  "rep h p t A \<Longrightarrow> \<exists>F. \<forall>f\<ge>F. buildWhereCondition f h p = Inr (toks_result (tree_toks t))"
  "reps h ps ts A \<Longrightarrow> \<exists>F. \<forall>f\<ge>F. \<forall>qs. good_parts qs \<longrightarrow> build_children f h ps (part_acc qs) =
     Inr (case trees_toks ts of Inl e \<Rightarrow> Inl e | Inr rs \<Rightarrow> Inr (part_acc (qs @ rs)))"
proof (induction rule: rep_reps.inducts)
  case rep_None
  show ?case by (intro exI [of _ 1] allI impI) (auto simp: toks_result_def dest: Suc_le_D)
next
  case (rep_Some a A ts)
  let ?c = "h ! a"
  obtain F where F: "\<And>f qs. F \<le> f \<Longrightarrow> good_parts qs \<Longrightarrow> build_children f h (wc_Children ?c) (part_acc qs) =
     Inr (case trees_toks ts of Inl e \<Rightarrow> Inl e | Inr rs \<Rightarrow> Inr (part_acc (qs @ rs)))"
    using rep_Some.IH by blast
  have len: "wc_Children ?c = [] \<longleftrightarrow> ts = []"
    using rep_Some.IH by (cases "wc_Children ?c") (auto elim: reps_NilE reps_ConsE)
  have nil: "part_acc [] = ([], [])" by (simp add: part_acc_def)
  have "buildWhereCondition (Suc f) h (Some a) =
      Inr (toks_result (tree_toks (WCond (wc_Field ?c) (wc_Operator ?c) (wc_Value ?c) (wc_Logic ?c) ts)))"
    if f: "F \<le> f" for f
  proof (cases "wc_Field ?c = [] \<and> ts \<noteq> []")
    case True
    have "build_children f h (wc_Children ?c) ([], []) =
        Inr (case trees_toks ts of Inl e \<Rightarrow> Inl e | Inr rs \<Rightarrow> Inr (part_acc rs))"
      using F [OF f, of "[]"] nil by (simp add: good_parts_def split: sum.splits)
    note ch = this
    show ?thesis
    proof (cases "trees_toks ts")
      case (Inl e)
      then show ?thesis using True len ch by (simp add: toks_result_def)
    next
      case (Inr rs)
      have "buildWhereCondition (Suc f) h (Some a) = (if part_texts rs = [] then Inr (Inr ([], []))
          else Inr (Inr (''('' @ strings_Join (part_texts rs) '' '' @ '')'', tok_args (join_toks rs))))"
        using True len ch Inr by (simp add: part_acc_def)
      then show ?thesis using True Inr unfolding build_node_group [OF tree_toks_good(2) [OF Inr]] by simp
    qed
  next
    case False
    show ?thesis
    proof (cases "buildSingleCondition (wc_Field ?c) (wc_Operator ?c) (wc_Value ?c)")
      case (Inl e)
      then have "single_toks (wc_Field ?c) (wc_Operator ?c) (wc_Value ?c) = Inl e" by (simp add: single_toks_def)
      then show ?thesis using False len Inl by (auto simp: toks_result_def)
    next
      case (Inr r)
      obtain s args where r: "r = (s, args)" by fastforce
      let ?x = "if s = [] then [] else [TAtom s args]"
      let ?qs = "if s = [] then [] else [([], [TAtom s args])]"
      have x: "single_toks (wc_Field ?c) (wc_Operator ?c) (wc_Value ?c) = Inr ?x" using Inr r by (simp add: single_toks_def)
      have gq: "good_parts ?qs" using single_good [OF x] by (auto simp: good_parts_def)
      have acc: "(if s \<noteq> [] then ([s], args) else ([], [])) = part_acc ?qs" by (simp add: part_acc_def)
      have ch: "build_children f h (wc_Children ?c) (part_acc ?qs) =
          Inr (case trees_toks ts of Inl e \<Rightarrow> Inl e | Inr rs \<Rightarrow> Inr (part_acc (?qs @ rs)))"
        by (rule F [OF f gq])
      show ?thesis
      proof (cases "trees_toks ts")
        case e: (Inl e)
        then show ?thesis using False len Inr r ch x by (auto simp: toks_result_def acc)
      next
        case rs: (Inr rs)
        have g: "good_parts (?qs @ rs)" using gq tree_toks_good(2) [OF rs] by (auto simp: good_parts_def)
        have "?qs @ rs = (if ?x = [] then rs else ([], ?x) # rs)" by simp
        then have tt: "tree_toks (WCond (wc_Field ?c) (wc_Operator ?c) (wc_Value ?c) (wc_Logic ?c) ts) =
            Inr (if mixed_logic (?qs @ rs) then TOpen # join_toks (?qs @ rs) @ [TClose] else join_toks (?qs @ rs))"
          using False x rs by (auto simp: Let_def)
        have "buildWhereCondition (Suc f) h (Some a) = (if part_texts (?qs @ rs) = [] then Inr (Inr ([], []))
            else (let sql = strings_Join (part_texts (?qs @ rs)) '' '' in
              Inr (Inr (if needParentheses (part_texts (?qs @ rs)) then ''('' @ sql @ '')'' else sql, tok_args (join_toks (?qs @ rs))))))"
          using False len Inr r ch rs unfolding buildWhereCondition.simps option.case Let_def
          by (simp only: acc go_bind_simps sum.case prod.case part_acc_def) auto
        then show ?thesis unfolding tt build_node_plain [OF g] .
      qed
    qed
  qed
  then show ?case by (intro exI [of _ "Suc F"] allI impI) (metis Suc_le_D Suc_le_mono)
next
  case reps_Nil
  show ?case by (simp add: part_acc_def)
next
  case (reps_Cons p t A ps ts B)
  obtain F1 where F1: "\<And>f. F1 \<le> f \<Longrightarrow> buildWhereCondition f h p = Inr (toks_result (tree_toks t))"
    using reps_Cons.IH(2) by blast
  obtain F2 where F2: "\<And>f qs. F2 \<le> f \<Longrightarrow> good_parts qs \<Longrightarrow> build_children f h ps (part_acc qs) =
     Inr (case trees_toks ts of Inl e \<Rightarrow> Inl e | Inr rs \<Rightarrow> Inr (part_acc (qs @ rs)))"
    using reps_Cons.IH(4) by blast
  have "build_children (Suc f) h (p # ps) (part_acc qs) =
      Inr (case trees_toks (t # ts) of Inl e \<Rightarrow> Inl e | Inr rs \<Rightarrow> Inr (part_acc (qs @ rs)))"
    if f: "F1 \<le> f" "F2 \<le> Suc f" and qs: "good_parts qs" for f qs
  proof (cases "tree_toks t")
    case (Inl e)
    then show ?thesis using F1 [OF f(1)] by (simp add: toks_result_def)
  next
    case (Inr x)
    let ?qs = "if x = [] then qs else qs @ [(pending_or_and (tree_logic t), x)]"
    have gx: "x \<noteq> [] \<Longrightarrow> good_toks x" using tree_toks_good(1) [OF Inr] .
    then have g: "good_parts ?qs" using qs by (auto simp: good_parts_def)
    have "build_children (Suc f) h (p # ps) (part_acc qs) = build_children (Suc f) h ps (part_acc ?qs)"
      using F1 [OF f(1)] Inr add_part_acc [OF gx, where l = "tree_logic t" and qs = qs] rep_logic [OF reps_Cons.IH(1)]
      by (simp add: toks_result_def)
    then show ?thesis using F2 [OF f(2) g] Inr by (auto split: sum.splits)
  qed
  note step = this
  show ?case
  proof (intro exI [of _ "Suc (max F1 F2)"] allI impI)
    fix f qs
    assume "Suc (max F1 F2) \<le> f" and qs: "good_parts qs"
    then obtain g where "f = Suc g" "F1 \<le> g" "F2 \<le> Suc g" by (cases f) auto
    then show "build_children f h (p # ps) (part_acc qs) =
        Inr (case trees_toks (t # ts) of Inl e \<Rightarrow> Inl e | Inr rs \<Rightarrow> Inr (part_acc (qs @ rs)))"
      using step qs by blast
  qed
qed

section \<open>Truth values\<close>

text \<open>The state of the evaluation: for every open parenthesis the disjunction of the finished terms and
  the conjunction of the current one.\<close>

fun ev :: "(string \<Rightarrow> sql_value list \<Rightarrow> bool) \<Rightarrow> tok list \<Rightarrow> (bool \<times> bool) list \<Rightarrow> bool" where
  "ev val [] ((d, c) # st) = (d \<or> c)"
| "ev val (TAtom s args # r) ((d, c) # st) = ev val r ((d, c \<and> val s args) # st)"
| "ev val (TLogic l # r) ((d, c) # st) = ev val r ((if l = ''OR'' then (d \<or> c, True) else (d, c)) # st)"
| "ev val (TOpen # r) st = ev val r ((False, True) # st)"
| "ev val (TClose # r) ((d, c) # (d', c') # st) = ev val r ((d', c' \<and> (d \<or> c)) # st)"
| "ev val ts st = False"

definition sql_value_of :: "(string \<Rightarrow> sql_value list \<Rightarrow> bool) \<Rightarrow> tok list \<Rightarrow> bool" where
  "sql_value_of val toks = ev val toks [(False, True)]"










text \<open>Trees the chain methods make: below the root a node is a single condition or a group.\<close>

fun unit_tree :: "wtree \<Rightarrow> bool" where
  "unit_tree WNil = True"
| "unit_tree (WCond f opr v l ts) = ((f = [] \<or> ts = []) \<and> list_all unit_tree ts)"

fun safe_tree :: "wtree \<Rightarrow> bool" where
  "safe_tree WNil = True"
| "safe_tree (WCond f opr v l ts) = list_all unit_tree ts"





section \<open>The trees of the chain methods\<close>

fun is_group :: "wtree \<Rightarrow> bool" where
  "is_group WNil = False"
| "is_group (WCond f opr v l ts) = (f = [])"

text \<open>The nodes of the rightmost path at depth 1 to \<open>k\<close> are groups.\<close>

fun groups_to :: "nat \<Rightarrow> wtree \<Rightarrow> bool" where
  "groups_to 0 t = True"
| "groups_to (Suc k) WNil = False"
| "groups_to (Suc k) (WCond f opr v l ts) = (ts \<noteq> [] \<and> is_group (last ts) \<and> groups_to k (last ts))"

lemma groups_to_mono: "groups_to k t \<Longrightarrow> j \<le> k \<Longrightarrow> groups_to j t"
proof (induction k t arbitrary: j rule: groups_to.induct)
  case (3 k f opr v l ts)
  then show ?case by (cases j) auto
qed auto

lemma is_group_append: "is_group t \<Longrightarrow> is_group (append_at k t x)"
  by (cases t; cases k) auto

lemma groups_to_append:
  "groups_to k t \<Longrightarrow> t \<noteq> WNil \<Longrightarrow> groups_to k (append_at k t x) \<and> (is_group x \<longrightarrow> groups_to (Suc k) (append_at k t x))"
proof (induction k t x rule: append_at.induct)
  case (3 k f opr v l ts x)
  then have "last ts \<noteq> WNil" by auto
  then show ?case using 3 is_group_append [of "last ts" k x] by auto
qed auto

lemma unit_append:
  "unit_tree t \<Longrightarrow> is_group t \<Longrightarrow> groups_to k t \<Longrightarrow> unit_tree x \<Longrightarrow> unit_tree (append_at k t x)"
proof (induction k t x rule: append_at.induct)
  case (3 k f opr v l ts x)
  obtain us u where ts: "ts = us @ [u]" using "3.prems"(3) by (cases ts rule: rev_cases) auto
  then have "unit_tree (append_at k u x)" using "3.IH" "3.prems" by auto
  then show ?case using "3.prems" ts by simp
qed auto

lemma safe_append:
  "safe_tree t \<Longrightarrow> groups_to k t \<Longrightarrow> unit_tree x \<Longrightarrow> safe_tree (append_at k t x)"
proof (cases "(k, t, x)" rule: append_at.cases)
  case (3 j f opr v l ts y)
  assume a: "safe_tree t" "groups_to k t" "unit_tree x"
  obtain us u where ts: "ts = us @ [u]" using a(2) 3 by (cases ts rule: rev_cases) auto
  then have "unit_tree (append_at j u x)" using a 3 by (intro unit_append) auto
  then show ?thesis using a(1) 3 ts by simp
qed auto

definition chain_ok :: "chain_state \<Rightarrow> bool" where
  "chain_ok st = (case st of (t, l, ds) \<Rightarrow> safe_tree t \<and> sorted_wrt (<) ds \<and>
     (ds \<noteq> [] \<longrightarrow> t \<noteq> WNil \<and> groups_to (last ds) t))"

lemma attach_ok:
  assumes "chain_ok (t, l, ds)" and "unit_tree x" and "x \<noteq> WNil"
  shows "safe_tree (attach_tree x t ds) \<and> attach_tree x t ds \<noteq> WNil \<and>
    (ds \<noteq> [] \<longrightarrow> groups_to (last ds) (attach_tree x t ds)) \<and>
    (is_group x \<longrightarrow> groups_to (if ds \<noteq> [] then Suc (last ds) else if t = WNil then 0 else 1) (attach_tree x t ds))"
proof -
  have nn: "append_at k t x \<noteq> WNil" if "t \<noteq> WNil" for k using that by (cases t; cases k) auto
  have ux: "safe_tree x" using assms(2) by (cases x) auto
  show ?thesis
  proof (cases "ds = [] \<and> t = WNil")
    case True
    then show ?thesis using ux assms(3) by (simp add: attach_tree_def)
  next
    case False
    let ?k = "if ds \<noteq> [] then last ds else 0"
    have t: "t \<noteq> WNil" "safe_tree t" "groups_to ?k t" using False assms(1) by (auto simp: chain_ok_def)
    have "attach_tree x t ds = append_at ?k t x" using False by (simp add: attach_tree_def)
    then show ?thesis using safe_append [OF t(2,3) assms(2)] groups_to_append [OF t(3,1), of x] nn [OF t(1)] False by auto
  qed
qed

lemma spec_call_ok: "chain_ok st \<Longrightarrow> chain_ok (spec_call call st)"
proof -
  assume ok: "chain_ok st"
  obtain t l ds where st: "st = (t, l, ds)" by (cases st) auto
  show ?thesis
  proof (cases call)
    case (CCond opr f v)
    then show ?thesis using attach_ok [of t l ds "WCond f opr v (pending_or_and l) []"] ok st by (auto simp: chain_ok_def)
  next
    case CBegin
    let ?d = "if ds \<noteq> [] then Suc (last ds) else if t = WNil then 0 else 1"
    have "sorted_wrt (<) (ds @ [?d])" using ok st by (intro sorted_wrt_snoc_less) (auto simp: chain_ok_def)
    then show ?thesis using CBegin attach_ok [of t l ds "WCond [] [] (VScalar NilVal) (pending_or_and l) []"] ok st
      by (auto simp: chain_ok_def)
  next
    case CEnd
    have "last (butlast ds) \<le> last ds" if "butlast ds \<noteq> []"
    proof (rule sorted_wrt_less_last_le)
      show "sorted_wrt (<) ds" using ok st by (simp add: chain_ok_def)
      show "last (butlast ds) \<in> set ds" using that by (meson in_set_butlastD last_in_set)
    qed
    moreover have "sorted_wrt (<) (butlast ds)" using ok st by (simp add: chain_ok_def butlast_conv_take sorted_wrt_take)
    ultimately show ?thesis using CEnd ok st groups_to_mono [of "last ds" t] by (auto simp: chain_ok_def)
  qed (use ok st in \<open>auto simp: chain_ok_def\<close>)
qed

lemma spec_calls_ok: "chain_ok st \<Longrightarrow> chain_ok (fold spec_call calls st)"
  by (induction calls arbitrary: st) (auto simp: spec_call_ok)

section \<open>Place holders\<close>

definition count_q :: "string \<Rightarrow> nat" where
  "count_q s = length (filter (\<lambda>c. c = CHR ''?'') s)"

lemma count_q_simps [simp]:
  "count_q [] = 0" "count_q (c # s) = (if c = CHR ''?'' then Suc (count_q s) else count_q s)"
  "count_q (s @ t) = count_q s + count_q t"
  by (auto simp: count_q_def)




fun clean_tree :: "wtree \<Rightarrow> bool" where
  "clean_tree WNil = True"
| "clean_tree (WCond f opr v l ts) = (CHR ''?'' \<notin> set f \<and> CHR ''?'' \<notin> set l \<and> list_all clean_tree ts)"







lemma clean_append: "clean_tree t \<Longrightarrow> clean_tree x \<Longrightarrow> clean_tree (append_at k t x)"
proof (induction k t x rule: append_at.induct)
  case (3 k f opr v l ts x)
  show ?case
  proof (cases ts rule: rev_cases)
    case (snoc us u)
    then show ?thesis using 3 by simp
  qed (use 3 in simp)
qed auto

lemma pending_or_and_no_q: "CHR ''?'' \<notin> set l \<Longrightarrow> CHR ''?'' \<notin> set (pending_or_and l)"
  by (simp add: pending_or_and_def SQLLogicAnd_def)

lemma attach_clean: "clean_tree t \<Longrightarrow> clean_tree x \<Longrightarrow> clean_tree (attach_tree x t ds)"
  by (simp add: attach_tree_def clean_append)

definition clean_call :: "chain_call \<Rightarrow> bool" where
  "clean_call c = (case c of CCond opr f v \<Rightarrow> CHR ''?'' \<notin> set f | _ \<Rightarrow> True)"

definition clean_state :: "chain_state \<Rightarrow> bool" where
  "clean_state st = (case st of (t, l, ds) \<Rightarrow> clean_tree t \<and> CHR ''?'' \<notin> set l)"

lemma spec_call_clean: "clean_state st \<Longrightarrow> clean_call c \<Longrightarrow> clean_state (spec_call c st)"
  by (cases "(c, st)" rule: spec_call.cases)
    (auto simp: clean_state_def clean_call_def pending_or_and_no_q SQLLogicOr_def SQLLogicAnd_def intro!: attach_clean)

lemma spec_calls_clean:
  "clean_state st \<Longrightarrow> list_all clean_call calls \<Longrightarrow> clean_state (fold spec_call calls st)"
  by (induction calls arbitrary: st) (auto simp: spec_call_clean)


section \<open>Properties\<close>

text \<open>The tree a chain of calls means.\<close>

definition chain_tree :: "chain_call list \<Rightarrow> wtree" where
  "chain_tree calls = fst (fold spec_call calls (WNil, [], []))"

lemma chain_tree_facts:
  obtains A l ds where "rep (wb_heap (fold run_call calls (NewWhereClauseBuilder h)))
      (wb_root (fold run_call calls (NewWhereClauseBuilder h))) (chain_tree calls) A"
    and "safe_tree (chain_tree calls)"
    and "list_all clean_call calls \<Longrightarrow> clean_tree (chain_tree calls)"
proof -
  obtain t l ds where st: "fold spec_call calls (WNil, [], []) = (t, l, ds)" by (metis surj_pair)
  have "chain_inv (fold run_call calls (NewWhereClauseBuilder h)) (t, l, ds)"
    using run_calls_refine [OF chain_inv_new, of calls h] st by simp
  moreover have "chain_ok (t, l, ds)" using spec_calls_ok [of "(WNil, [], [])" calls] st by (simp add: chain_ok_def)
  moreover have "clean_state (t, l, ds)" if "list_all clean_call calls"
    using spec_calls_clean [OF _ that, of "(WNil, [], [])"] st by (simp add: clean_state_def)
  ultimately show ?thesis using that st by (auto simp: chain_tree_def chain_inv_def chain_ok_def clean_state_def)
qed




text \<open>A condition with a field of its own and a single OR child, nested under another condition with
  AND, is built without parentheses: \<open>f AND (g OR h)\<close> becomes \<open>f = ? AND g = ? OR h = ?\<close>, which SQL reads as
  \<open>(f AND g) OR h\<close>.\<close>

theorem nested_condition_loses_parentheses:
  assumes "f \<noteq> []" and "g \<noteq> []" and "h \<noteq> []"
  shows "\<exists>heap r toks. (case ConditionEq h z [] of (c, h1) \<Rightarrow> case ConditionEq g y (cond_Or c h1) of (b, h2) \<Rightarrow>
        case ConditionEq f x (AddChild (Some c) b h2) of (a, h3) \<Rightarrow> (Some a, AddChild (Some b) a h3)) = (r, heap) \<and>
    wb_Build 8 (SetRoot r (NewWhereClauseBuilder heap)) = Inr (Inr (print_toks toks, [x, y, z])) \<and>
    print_toks toks = f @ '' = ? AND '' @ g @ '' = ? OR '' @ h @ '' = ?'' \<and>
    (\<forall>val. sql_value_of val toks =
      ((val (f @ '' = ?'') [x] \<and> val (g @ '' = ?'') [y]) \<or> val (h @ '' = ?'') [z]))"
proof -
  let ?toks = "[TAtom (f @ '' = ?'') [x], TLogic ''AND'', TAtom (g @ '' = ?'') [y], TLogic ''OR'', TAtom (h @ '' = ?'') [z]]"
  let ?heap = "[leaf_node SQLOpEq h z SQLLogicOr, (leaf_node SQLOpEq g y SQLLogicAnd)\<lparr>wc_Children := [Some 0]\<rparr>,
      (leaf_node SQLOpEq f x SQLLogicAnd)\<lparr>wc_Children := [Some 1]\<rparr>]"
  have heap: "(case ConditionEq h z [] of (c, h1) \<Rightarrow> case ConditionEq g y (cond_Or c h1) of (b, h2) \<Rightarrow>
      case ConditionEq f x (AddChild (Some c) b h2) of (a, h3) \<Rightarrow> (Some a, AddChild (Some b) a h3)) = (Some 2, ?heap)"
    by (simp add: ConditionEq_def alloc_def cond_Or_def AddChild_def add_child_def set_logic_def leaf_node_def numeral_2_eq_2)
  have single: "buildSingleCondition k SQLOpEq v = Inr (k @ '' = ?'', [v])" if "k \<noteq> []" for k v
    using that by (simp add: buildSingleCondition_def)
  have fuel: "(8::nat) = Suc (Suc (Suc (Suc (Suc (Suc (Suc (Suc 0)))))))" by simp
  have "buildWhereCondition 8 ?heap (Some 2) = Inr (Inr (f @ '' = ? AND '' @ g @ '' = ? OR '' @ h @ '' = ?'', [x, y, z]))"
    using assms unfolding fuel
    by (simp add: leaf_node_def single numeral_2_eq_2 add_part_def needParentheses_def strings_Join_def
        SQLLogicAnd_def SQLLogicOr_def)
  then have "wb_Build 8 (SetRoot (Some 2) (NewWhereClauseBuilder ?heap)) = Inr (Inr (print_toks ?toks, [x, y, z]))"
    by (simp add: wb_Build_def SetRoot_def NewWhereClauseBuilder_def)
  then show ?thesis using heap
    by (intro exI [of _ ?heap] exI [of _ "Some 2"] exI [of _ ?toks]) (simp add: sql_value_of_def)
qed

theorem nested_condition_loses_parentheses_witness:
  "\<exists>toks. print_toks toks = ''x = ? AND a = ? OR b = ?'' \<and> sql_value_of (\<lambda>s args. s = ''b = ?'') toks"
  using nested_condition_loses_parentheses [of "''x''" "''a''" "''b''" "VScalar NilVal" "VScalar NilVal" "VScalar NilVal"]
  by auto

section \<open>The index check\<close>

fun tree_fields :: "wtree \<Rightarrow> string set" where
  "tree_fields WNil = {}"
| "tree_fields (WCond f opr v l ts) = (if f \<noteq> [] then {f} else {}) \<union> (\<Union>t\<in>set ts. tree_fields t)"

lemma collect_rep:
  "rep h p t A \<Longrightarrow> \<exists>F. \<forall>f\<ge>F. \<exists>fs. collectConditionFields f h p = Inr fs \<and> set fs = tree_fields t"
  "reps h ps ts A \<Longrightarrow> \<exists>F. \<forall>f\<ge>F. \<forall>found. \<exists>fs. collect_children f h ps found = Inr fs \<and>
     set fs = set found \<union> (\<Union>t\<in>set ts. tree_fields t)"
proof (induction rule: rep_reps.inducts)
  case rep_None
  show ?case by (intro exI [of _ 1]) (auto dest!: Suc_le_D)
next
  case (rep_Some a A ts)
  obtain F where F: "\<And>f found. F \<le> f \<Longrightarrow> \<exists>fs. collect_children f h (wc_Children (h ! a)) found = Inr fs \<and>
      set fs = set found \<union> (\<Union>t\<in>set ts. tree_fields t)"
    using rep_Some.IH by blast
  show ?case
  proof (intro exI [of _ "Suc F"] allI impI)
    fix f assume "Suc F \<le> f"
    then obtain g where g: "f = Suc g" "F \<le> g" by (cases f) auto
    show "\<exists>fs. collectConditionFields f h (Some a) = Inr fs \<and>
        set fs = tree_fields (WCond (wc_Field (h ! a)) (wc_Operator (h ! a)) (wc_Value (h ! a)) (wc_Logic (h ! a)) ts)"
      using F [OF g(2), of "if wc_Field (h ! a) \<noteq> [] then [wc_Field (h ! a)] else []"] g(1) by auto
  qed
next
  case reps_Nil
  show ?case by simp
next
  case (reps_Cons p t A ps ts B)
  obtain F1 where F1: "\<And>f. F1 \<le> f \<Longrightarrow> \<exists>fs. collectConditionFields f h p = Inr fs \<and> set fs = tree_fields t"
    using reps_Cons.IH(2) by blast
  obtain F2 where F2: "\<And>f found. F2 \<le> f \<Longrightarrow> \<exists>fs. collect_children f h ps found = Inr fs \<and>
      set fs = set found \<union> (\<Union>t\<in>set ts. tree_fields t)"
    using reps_Cons.IH(4) by blast
  show ?case
  proof (intro exI [of _ "Suc (max F1 F2)"] allI impI)
    fix f found assume "Suc (max F1 F2) \<le> f"
    then obtain g where g: "f = Suc g" "F1 \<le> g" "F2 \<le> Suc g" by (cases f) auto
    obtain cs where cs: "collectConditionFields g h p = Inr cs" "set cs = tree_fields t" using F1 [OF g(2)] by blast
    then show "\<exists>fs. collect_children f h (p # ps) found = Inr fs \<and> set fs = set found \<union> (\<Union>t\<in>set (t # ts). tree_fields t)"
      using F2 [OF g(3), of "List.union cs found"] g(1) by auto
  qed
qed

text \<open>An index leads with a field of the query.\<close>

definition leads :: "string set \<Rightarrow> string list \<Rightarrow> bool" where
  "leads used cols = (cols \<noteq> [] \<and> hd cols \<in> used)"

lemma isPrimaryKeyUsed_leads: "isPrimaryKeyUsed fs pk = leads (set fs) pk"
  by (cases pk) (auto simp: isPrimaryKeyUsed_def leads_def)

lemma findMatchingIndex_first:
  "findMatchingIndex i fs idx = (if \<exists>c\<in>set idx. leads (set fs) c
     then Some (i + length (takeWhile (\<lambda>c. \<not> leads (set fs) c) idx)) else None)"
  by (induction i fs idx rule: findMatchingIndex.induct) (auto simp: leads_def split: list.splits)

text \<open>The index check of a query made by chain calls: with a primary key that leads with a field of
  some condition it reports PRIMARY, otherwise the first index that does, and with none it returns an
  error; the text and arguments are those of \<open>Build\<close>. A condition counts even when it builds no text (IN
  with an empty list), so a query that does not use the key at all can pass.\<close>

theorem index_check_result:
  assumes "tree_toks (chain_tree calls) = Inr toks" and "toks \<noteq> []"
  shows "\<exists>F. \<forall>fuel\<ge>F. BuildWithIndexCheck fuel pk idx (fold run_call calls (NewWhereClauseBuilder h)) =
    Inr (if leads (tree_fields (chain_tree calls)) pk then Inr (''WHERE '' @ print_toks toks, tok_args toks, PRIMARY)
         else if \<exists>c\<in>set idx. leads (tree_fields (chain_tree calls)) c
         then Inr (''WHERE '' @ print_toks toks, tok_args toks,
           INDEX (length (takeWhile (\<lambda>c. \<not> leads (tree_fields (chain_tree calls)) c) idx)))
         else Inl (OtherError ''query does not use any index or primary key''))"
proof -
  let ?b = "fold run_call calls (NewWhereClauseBuilder h)" and ?t = "chain_tree calls"
  obtain A where A: "rep (wb_heap ?b) (wb_root ?b) ?t A" using chain_tree_facts [of calls h] by metis
  have "?t \<noteq> WNil" using assms by auto
  then have root: "wb_root ?b \<noteq> None" using rep_None_iff [OF A] by simp
  have ne: "print_toks toks \<noteq> []" using tree_toks_good(1) [OF assms] by (auto simp: good_toks_def)
  obtain F1 where F1: "\<And>f. F1 \<le> f \<Longrightarrow> buildWhereCondition f (wb_heap ?b) (wb_root ?b) = Inr (toks_result (tree_toks ?t))"
    using build_rep(1) [OF A] by blast
  obtain F2 where F2: "\<And>f. F2 \<le> f \<Longrightarrow> \<exists>fs. collectConditionFields f (wb_heap ?b) (wb_root ?b) = Inr fs \<and> set fs = tree_fields ?t"
    using collect_rep(1) [OF A] by blast
  show ?thesis
  proof (intro exI [of _ "max F1 F2"] allI impI)
    fix f assume "max F1 F2 \<le> f"
    then have f: "F1 \<le> f" "F2 \<le> f" by auto
    obtain fs where fs: "collectConditionFields f (wb_heap ?b) (wb_root ?b) = Inr fs" "set fs = tree_fields ?t"
      using F2 [OF f(2)] by blast
    show "BuildWithIndexCheck f pk idx ?b =
      Inr (if leads (tree_fields ?t) pk then Inr (''WHERE '' @ print_toks toks, tok_args toks, PRIMARY)
         else if \<exists>c\<in>set idx. leads (tree_fields ?t) c
         then Inr (''WHERE '' @ print_toks toks, tok_args toks,
           INDEX (length (takeWhile (\<lambda>c. \<not> leads (tree_fields ?t) c) idx)))
         else Inl (OtherError ''query does not use any index or primary key''))"
      using F1 [OF f(1)] root ne fs assms(1)
      by (simp add: BuildWithIndexCheck_def toks_result_def isPrimaryKeyUsed_leads findMatchingIndex_first)
  qed
qed

definition dropped_calls :: "chain_call list" where
  "dropped_calls = [CCond SQLOpIn ''id'' (VSlice []), CCond SQLOpEq ''name'' (VScalar (IntVal 1))]"

theorem index_check_result_witness:
  "\<exists>F. \<forall>fuel\<ge>F. BuildWithIndexCheck fuel [''id''] [] (fold run_call dropped_calls (NewWhereClauseBuilder [])) =
    Inr (Inr (''WHERE name = ?'', [VScalar (IntVal 1)], PRIMARY))"
proof -
  let ?toks = "[TAtom ''name = ?'' [VScalar (IntVal 1)]]"
  have t: "tree_toks (chain_tree dropped_calls) = Inr ?toks" by code_simp
  have "chain_tree dropped_calls = WCond ''id'' SQLOpIn (VSlice []) SQLLogicAnd
      [WCond ''name'' SQLOpEq (VScalar (IntVal 1)) SQLLogicAnd []]" by code_simp
  then have "leads (tree_fields (chain_tree dropped_calls)) [''id'']" by (simp add: leads_def)
  then show ?thesis using index_check_result [OF t, of "[''id'']" "[]" "[]"] by simp
qed

end
