(* ===== verification/Pipeline.thy ===== *)
theory Pipeline
  imports Prelude "HOL-Library.Multiset"
begin

text \<open>
  The handler chain of \<open>contribute/agonet/simple\<close>: handlers and their contexts (\<open>apis.go\<close>, \<open>context.go\<close>),
  and the construction of the doubly linked list in \<open>pipeline.go\<close>. A handler is code of the user of
  the library; it acts on the framework only by the methods of its context, so it is a program tree
  over these methods. Here the chain is built; the theory \<open>Dispatch\<close> runs it.

  The contexts live in a heap of their own, because \<open>prev\<close> and \<open>next\<close> are pointers that the two
  ends of the list share.
\<close>

section \<open>Handlers\<close>

text \<open>The value of a Go panic, as \<open>recover\<close> returns it: an error or anything else.\<close>

datatype gopanic = ErrorPanic go_error | ValuePanic string

fun AsException :: "gopanic option \<Rightarrow> go_error option" where
  "AsException (Some (ErrorPanic e)) = Some e"
| "AsException (Some (ValuePanic s)) = Some (OtherError s)"
| "AsException None = None"

text \<open>A message is a byte slice or a value of another type; a signal is what travels along the chain.\<close>

datatype 'm message = Bytes "byte list" | Val 'm

datatype 'm signal =
    SActive
  | SInactive "go_error option"
  | SRead "'m message"
  | SWrite "'m message"
  | SException "go_error option"
  | SEvent "'m message"

text \<open>
  The body of a handler method. \<open>Local\<close> is any computation on the state of the user's objects; the other
  constructors are the calls of the context, its channel and its pipeline, each with what the body does
  afterwards. \<open>Recovering body h rest\<close> is a function literal whose deferred function recovers.
\<close>

datatype (dead 's, dead 'm) prog =
    Returns
  | Panic gopanic
  | Local "'s \<Rightarrow> 's \<times> ('s, 'm) prog"
  | Fire "'m signal" "('s, 'm) prog"
  | CtxWrite "'m message" "('s, 'm) prog"
  | CtxTrigger "'m message" "('s, 'm) prog"
  | ChWrite "'m message" "go_error option \<Rightarrow> ('s, 'm) prog"
  | ChTrigger "'m message" "('s, 'm) prog"
  | ChWrite1 "byte list" "int \<times> go_error option \<Rightarrow> ('s, 'm) prog"
  | ChClose "go_error option" "('s, 'm) prog"
  | ChIsActive "bool \<Rightarrow> ('s, 'm) prog"
  | ChException "go_error option" "('s, 'm) prog"
  | Recovering "('s, 'm) prog" "gopanic \<Rightarrow> ('s, 'm) prog" "('s, 'm) prog"

text \<open>
  A handler implements some of the handler interfaces. \<open>h_unshareable\<close> is the identity of a handler that
  embeds \<open>UnshareableHandlerBase\<close>, \<open>h_InactiveFunc\<close> tells whether its type is \<open>InactiveHandlerFunc\<close>.
\<close>

record ('s, 'm) Handler =
  HandleActive :: "('s, 'm) prog option"
  HandleInactive :: "(go_error option \<Rightarrow> ('s, 'm) prog) option"
  HandleRead :: "('m message \<Rightarrow> ('s, 'm) prog) option"
  HandleWrite :: "('m message \<Rightarrow> ('s, 'm) prog) option"
  HandleException :: "(go_error option \<Rightarrow> ('s, 'm) prog) option"
  HandleEvent :: "('m message \<Rightarrow> ('s, 'm) prog) option"
  h_unshareable :: "nat option"
  h_InactiveFunc :: bool

definition no_handler :: "('s, 'm) Handler" where
  "no_handler = \<lparr>HandleActive = None, HandleInactive = None, HandleRead = None, HandleWrite = None,
     HandleException = None, HandleEvent = None, h_unshareable = None, h_InactiveFunc = False\<rparr>"

text \<open>The two handlers of every chain: the head writes bytes to the connection, the tail closes the
  channel on an exception nobody handled.\<close>

definition headHandler :: "('s, 'm) Handler" where
  "headHandler = no_handler\<lparr>HandleWrite := Some (\<lambda>msg. case msg of
       Bytes m \<Rightarrow> ChWrite1 m (\<lambda>(n, err). case err of Some e \<Rightarrow> Panic (ErrorPanic e) | None \<Rightarrow> Returns)
     | Val _ \<Rightarrow> Panic (ErrorPanic (OtherError ''unsupported type'')))\<rparr>"

definition tailHandler :: "('s, 'm) Handler" where
  "tailHandler = no_handler\<lparr>HandleException := Some (\<lambda>ex. ChClose ex Returns)\<rparr>"

section \<open>Contexts and the chain\<close>

record ('s, 'm) handlerContext =
  hc_handler :: "('s, 'm) Handler"
  hc_prev :: "nat option"
  hc_next :: "nat option"

definition newHandlerContext :: "('s, 'm) Handler \<Rightarrow> nat option \<Rightarrow> nat option \<Rightarrow> ('s, 'm) handlerContext" where
  "newHandlerContext h p n = \<lparr>hc_handler = h, hc_prev = p, hc_next = n\<rparr>"

record ('s, 'm) pipeline =
  pl_ctxs :: "('s, 'm) handlerContext list"
  pl_head :: nat
  pl_tail :: nat
  pl_size :: nat
  pl_served :: bool
  pl_handlingException :: bool

text \<open>\<open>p.next.Store\<close> and \<open>p.prev.Store\<close> through a pointer.\<close>

definition store_next :: "nat \<Rightarrow> nat option \<Rightarrow> ('s, 'm, 'z) pipeline_scheme \<Rightarrow> ('s, 'm, 'z) pipeline_scheme" where
  "store_next a q p = p\<lparr>pl_ctxs := (pl_ctxs p)[a := (pl_ctxs p ! a)\<lparr>hc_next := q\<rparr>]\<rparr>"

definition store_prev :: "nat \<Rightarrow> nat option \<Rightarrow> ('s, 'm, 'z) pipeline_scheme \<Rightarrow> ('s, 'm, 'z) pipeline_scheme" where
  "store_prev a q p = p\<lparr>pl_ctxs := (pl_ctxs p)[a := (pl_ctxs p ! a)\<lparr>hc_prev := q\<rparr>]\<rparr>"

definition alloc_ctx ::
  "('s, 'm) handlerContext \<Rightarrow> ('s, 'm, 'z) pipeline_scheme \<Rightarrow> nat \<times> ('s, 'm, 'z) pipeline_scheme" where
  "alloc_ctx c p = (length (pl_ctxs p), p\<lparr>pl_ctxs := pl_ctxs p @ [c]\<rparr>)"

definition NewPipeline :: "('s, 'm) pipeline" where
  "NewPipeline = (let p = \<lparr>pl_ctxs = [], pl_head = 0, pl_tail = 0, pl_size = 0, pl_served = False,
                           pl_handlingException = False\<rparr>;
     (h, p) = alloc_ctx (newHandlerContext headHandler None None) p;
     (t, p) = alloc_ctx (newHandlerContext tailHandler None None) p;
     p = store_next h (Some t) (p\<lparr>pl_head := h, pl_tail := t\<rparr>);
     p = store_prev t (Some h) p
   in p\<lparr>pl_size := 2\<rparr>)"

definition ServeChannel :: "('s, 'm, 'z) pipeline_scheme \<Rightarrow> ('s, 'm, 'z) pipeline_scheme" where
  "ServeChannel p = p\<lparr>pl_served := True\<rparr>"

section \<open>Adding handlers\<close>

text \<open>\<open>TryBind\<close> swaps the flag of the handler object; the flags that are set are a set of identities,
  because a handler object may be offered to several chains.\<close>

definition TryBind :: "nat \<Rightarrow> nat set \<Rightarrow> bool \<times> nat set" where
  "TryBind i bound = (i \<notin> bound, insert i bound)"

definition bindHandler :: "('s, 'm) Handler \<Rightarrow> nat set \<Rightarrow> (gopanic + unit) \<times> nat set" where
  "bindHandler h bound = (case h_unshareable h of
      None \<Rightarrow> (Inr (), bound)
    | Some i \<Rightarrow> (case TryBind i bound of (ok, bound') \<Rightarrow>
        (if ok then Inr () else Inl (ValuePanic ''handler not sharable''), bound')))"

definition nil_pointer :: gopanic where
  "nil_pointer = ErrorPanic (OtherError ''nil pointer dereference'')"

definition addFirst ::
  "('s, 'm) Handler \<Rightarrow> nat set \<times> ('s, 'm, 'z) pipeline_scheme \<Rightarrow> (gopanic + unit) \<times> nat set \<times> ('s, 'm, 'z) pipeline_scheme" where
  "addFirst h = (\<lambda>(bound, p). case bindHandler h bound of (r, bound') \<Rightarrow> (case r of
      Inl x \<Rightarrow> (Inl x, bound', p)
    | Inr _ \<Rightarrow> (let oldNext = hc_next (pl_ctxs p ! pl_head p);
                   (ctx, p1) = alloc_ctx (newHandlerContext h (Some (pl_head p)) oldNext) p;
                   p2 = store_next (pl_head p) (Some ctx) p1
        in (case oldNext of
              None \<Rightarrow> (Inl nil_pointer, bound', p2)
            | Some b \<Rightarrow> (let p3 = store_prev b (Some ctx) p2
                 in (Inr (), bound', p3\<lparr>pl_size := pl_size p3 + 1\<rparr>))))))"

definition addLast ::
  "('s, 'm) Handler \<Rightarrow> nat set \<times> ('s, 'm, 'z) pipeline_scheme \<Rightarrow> (gopanic + unit) \<times> nat set \<times> ('s, 'm, 'z) pipeline_scheme" where
  "addLast h = (\<lambda>(bound, p). case bindHandler h bound of (r, bound') \<Rightarrow> (case r of
      Inl x \<Rightarrow> (Inl x, bound', p)
    | Inr _ \<Rightarrow> (let oldPrev = hc_prev (pl_ctxs p ! pl_tail p);
                   (ctx, p1) = alloc_ctx (newHandlerContext h oldPrev (Some (pl_tail p))) p;
                   p2 = store_prev (pl_tail p) (Some ctx) p1
        in (case oldPrev of
              None \<Rightarrow> (Inl nil_pointer, bound', p2)
            | Some a \<Rightarrow> (let p3 = store_next a (Some ctx) p2
                 in (Inr (), bound', p3\<lparr>pl_size := pl_size p3 + 1\<rparr>))))))"

text \<open>\<open>checkHandler\<close> names the interfaces of a handler, but for inactivity it names the function type.\<close>

definition recognized :: "('s, 'm) Handler \<Rightarrow> bool" where
  "recognized h \<longleftrightarrow> HandleRead h \<noteq> None \<or> HandleWrite h \<noteq> None \<or> HandleException h \<noteq> None
     \<or> HandleActive h \<noteq> None \<or> h_InactiveFunc h \<or> HandleEvent h \<noteq> None"

fun checkHandler :: "('s, 'm) Handler list \<Rightarrow> gopanic + unit" where
  "checkHandler [] = Inr ()"
| "checkHandler (h # hs) =
     (if recognized h then checkHandler hs else Inl (ErrorPanic (OtherError ''unrecognized Handler'')))"

fun add_each ::
  "(('s, 'm) Handler \<Rightarrow> 'w \<Rightarrow> (gopanic + unit) \<times> 'w) \<Rightarrow> ('s, 'm) Handler list \<Rightarrow> 'w \<Rightarrow> (gopanic + unit) \<times> 'w" where
  "add_each add [] w = (Inr (), w)"
| "add_each add (h # hs) w = (case add h w of
      (Inl x, w') \<Rightarrow> (Inl x, w')
    | (Inr _, w') \<Rightarrow> add_each add hs w')"

definition pl_AddFirst ::
  "('s, 'm) Handler list \<Rightarrow> nat set \<times> ('s, 'm, 'z) pipeline_scheme \<Rightarrow> (gopanic + unit) \<times> nat set \<times> ('s, 'm, 'z) pipeline_scheme" where
  "pl_AddFirst hs w = (case checkHandler hs of Inl x \<Rightarrow> (Inl x, w) | Inr _ \<Rightarrow> add_each addFirst hs w)"

definition pl_AddLast ::
  "('s, 'm) Handler list \<Rightarrow> nat set \<times> ('s, 'm, 'z) pipeline_scheme \<Rightarrow> (gopanic + unit) \<times> nat set \<times> ('s, 'm, 'z) pipeline_scheme" where
  "pl_AddLast hs w = (case checkHandler hs of Inl x \<Rightarrow> (Inl x, w) | Inr _ \<Rightarrow> add_each addLast hs w)"

section \<open>Walking the chain\<close>

text \<open>The loops of \<open>context.go\<close>: follow a link from a context to the first one whose handler implements an interface.\<close>

partial_function (option) search ::
  "(('s, 'm) handlerContext \<Rightarrow> nat option) \<Rightarrow> ('s, 'm) handlerContext list \<Rightarrow> (('s, 'm) Handler \<Rightarrow> bool) \<Rightarrow> nat \<Rightarrow> nat option option" where
  "search link cs impl a = (case link (cs ! a) of
      None \<Rightarrow> Some None
    | Some b \<Rightarrow> if impl (hc_handler (cs ! b)) then Some (Some b) else search link cs impl b)"

text \<open>The addresses met by following a link to its end.\<close>

partial_function (option) trail ::
  "(('s, 'm) handlerContext \<Rightarrow> nat option) \<Rightarrow> ('s, 'm) handlerContext list \<Rightarrow> nat option \<Rightarrow> nat list option" where
  "trail link cs a = (case a of
      None \<Rightarrow> Some []
    | Some b \<Rightarrow> Option.bind (trail link cs (link (cs ! b))) (\<lambda>bs. Some (b # bs)))"

section \<open>The shape of the chain\<close>

text \<open>A segment of the doubly linked list, with the pointer into it from the left and out of it to the right.\<close>

fun or_hd :: "nat list \<Rightarrow> nat option \<Rightarrow> nat option" where
  "or_hd [] q = q"
| "or_hd (b # bs) q = Some b"

fun or_last :: "nat option \<Rightarrow> nat list \<Rightarrow> nat option" where
  "or_last p [] = p"
| "or_last p (a # as) = or_last (Some a) as"

fun dseg :: "('s, 'm) handlerContext list \<Rightarrow> nat option \<Rightarrow> nat list \<Rightarrow> nat option \<Rightarrow> bool" where
  "dseg cs p [] q \<longleftrightarrow> True"
| "dseg cs p (a # as) q \<longleftrightarrow> a < length cs \<and> hc_prev (cs ! a) = p \<and> hc_next (cs ! a) = or_hd as q \<and> dseg cs (Some a) as q"

lemma or_hd_append [simp]: "or_hd (as @ bs) q = or_hd as (or_hd bs q)"
  by (cases as) auto

lemma or_last_append [simp]: "or_last p (as @ bs) = or_last (or_last p as) bs"
  by (induction as arbitrary: p) auto

lemma dseg_append [simp]:
  "dseg cs p (as @ bs) q \<longleftrightarrow> dseg cs p as (or_hd bs q) \<and> dseg cs (or_last p as) bs q"
  by (induction as arbitrary: p) auto

lemma dseg_frame:
  assumes "dseg cs p as q" and "length cs \<le> length cs'" and "\<And>a. a \<in> set as \<Longrightarrow> cs' ! a = cs ! a"
  shows "dseg cs' p as q"
  using assms by (induction as arbitrary: p) auto

lemma dseg_valid: "dseg cs p as q \<Longrightarrow> a \<in> set as \<Longrightarrow> a < length cs"
  by (induction as arbitrary: p) auto

lemma trail_next: "dseg cs p as None \<Longrightarrow> trail hc_next cs (or_hd as None) = Some as"
  by (induction as arbitrary: p) (auto simp: trail.simps)

lemma trail_prev: "dseg cs None as q \<Longrightarrow> trail hc_prev cs (or_last None as) = Some (rev as)"
proof (induction as arbitrary: q rule: rev_induct)
  case Nil
  then show ?case by (simp add: trail.simps)
next
  case (snoc a as)
  then show ?case using snoc.IH [of "Some a"] by (subst trail.simps) simp
qed

text \<open>Linking a new context between two neighbours; the two stores may come in either order.\<close>

lemma store_commute: "a \<noteq> b \<Longrightarrow> store_next a x (store_prev b y p) = store_prev b y (store_next a x p)"
  by (simp add: store_next_def store_prev_def list_update_swap)

lemma link_between:
  fixes h :: "('s, 'm) Handler"
  assumes "dseg cs None (xs @ a # b # ys) None" and "distinct (xs @ a # b # ys)"
  defines "n \<equiv> length cs"
  defines "cs' \<equiv> (cs @ [newHandlerContext h (Some a) (Some b)])
                   [a := (cs ! a)\<lparr>hc_next := Some n\<rparr>, b := (cs ! b)\<lparr>hc_prev := Some n\<rparr>]"
  shows "dseg cs' None (xs @ a # n # b # ys) None" and "distinct (xs @ a # n # b # ys)"
    and "\<forall>c < n. hc_handler (cs' ! c) = hc_handler (cs ! c)" and "hc_handler (cs' ! n) = h"
proof -
  have valid: "\<forall>c \<in> set (xs @ a # b # ys). c < n"
    using dseg_valid [OF assms(1)] by (auto simp: n_def)
  have xs: "dseg cs None xs (Some a)" and ab: "a < n" "b < n" "hc_prev (cs ! a) = or_last None xs"
      "hc_next (cs ! b) = or_hd ys None" and ys: "dseg cs (Some b) ys None"
    using assms(1) by (auto simp: n_def)
  have ne: "a \<noteq> b" "a \<notin> set xs" "b \<notin> set xs" "a \<notin> set ys" "b \<notin> set ys"
    using assms(2) by auto
  have len: "length cs' = Suc n" by (simp add: cs'_def n_def)
  have same: "cs' ! c = cs ! c" if "c < n" "c \<noteq> a" "c \<noteq> b" for c
    using that by (simp add: cs'_def n_def nth_append)
  have new: "cs' ! n = newHandlerContext h (Some a) (Some b)"
    using ab ne by (simp add: cs'_def n_def)
  have ca: "cs' ! a = (cs ! a)\<lparr>hc_next := Some n\<rparr>" and cb: "cs' ! b = (cs ! b)\<lparr>hc_prev := Some n\<rparr>"
    using ab ne by (simp_all add: cs'_def n_def)
  have "dseg cs' None xs (Some a)" and "dseg cs' (Some b) ys None"
    by (rule dseg_frame [OF xs] dseg_frame [OF ys]; use len n_def valid same ne in auto)+
  then show "dseg cs' None (xs @ a # n # b # ys) None"
    using ab len by (simp add: new ca cb newHandlerContext_def)
  show "distinct (xs @ a # n # b # ys)" using assms(2) valid by auto
  show "hc_handler (cs' ! n) = h" by (simp add: new newHandlerContext_def)
  show "\<forall>c < n. hc_handler (cs' ! c) = hc_handler (cs ! c)"
  proof (intro allI impI)
    fix c assume "c < n"
    then show "hc_handler (cs' ! c) = hc_handler (cs ! c)"
      by (cases "c = a"; cases "c = b") (auto simp: ca cb same)
  qed
qed

text \<open>A well-formed chain: head, the handlers that were added, tail, linked both ways.\<close>

definition chain_addrs :: "('s, 'm, 'z) pipeline_scheme \<Rightarrow> nat list \<Rightarrow> bool" where
  "chain_addrs p ms \<longleftrightarrow> dseg (pl_ctxs p) None (pl_head p # ms @ [pl_tail p]) None
     \<and> distinct (pl_head p # ms @ [pl_tail p])
     \<and> hc_handler (pl_ctxs p ! pl_head p) = headHandler \<and> hc_handler (pl_ctxs p ! pl_tail p) = tailHandler
     \<and> pl_size p = length ms + 2"

definition handlers_at :: "('s, 'm, 'z) pipeline_scheme \<Rightarrow> nat list \<Rightarrow> ('s, 'm) Handler list" where
  "handlers_at p as = map (\<lambda>a. hc_handler (pl_ctxs p ! a)) as"

definition chain :: "('s, 'm, 'z) pipeline_scheme \<Rightarrow> ('s, 'm) Handler list \<Rightarrow> bool" where
  "chain p L \<longleftrightarrow> (\<exists>ms. chain_addrs p ms \<and> handlers_at p ms = L)"

lemma handlers_at_simps [simp]:
  "handlers_at p [] = []"
  "handlers_at p (a # as) = hc_handler (pl_ctxs p ! a) # handlers_at p as"
  "handlers_at p (as @ bs) = handlers_at p as @ handlers_at p bs"
  by (simp_all add: handlers_at_def)

lemma chain_NewPipeline: "chain NewPipeline []"
  by (auto simp: chain_def chain_addrs_def handlers_at_def NewPipeline_def Let_def alloc_ctx_def store_next_def
      store_prev_def newHandlerContext_def)

text \<open>What the two ways of adding do to the list of handlers.\<close>

definition spec_add ::
  "('h \<Rightarrow> 'h list \<Rightarrow> 'h list) \<Rightarrow> ('h \<Rightarrow> nat set \<Rightarrow> (gopanic + unit) \<times> nat set) \<Rightarrow> 'h \<Rightarrow> nat set \<times> 'h list
    \<Rightarrow> (gopanic + unit) \<times> nat set \<times> 'h list" where
  "spec_add put bind h = (\<lambda>(bound, L). case bind h bound of
      (Inl x, bound') \<Rightarrow> (Inl x, bound', L)
    | (Inr _, bound') \<Rightarrow> (Inr (), bound', put h L))"

definition chain_rel :: "nat set \<times> ('s, 'm, 'z) pipeline_scheme \<Rightarrow> nat set \<times> ('s, 'm) Handler list \<Rightarrow> bool" where
  "chain_rel w a \<longleftrightarrow> fst w = fst a \<and> chain (snd w) (snd a)"

lemma chain_linked:
  fixes p p' :: "('s, 'm, 'z) pipeline_scheme" and h :: "('s, 'm) Handler"
  assumes ok: "chain_addrs p ms" and split: "pl_head p # ms @ [pl_tail p] = xs @ a # b # ys"
    and new: "pl_head p # ms' @ [pl_tail p] = xs @ a # length (pl_ctxs p) # b # ys"
    and p': "pl_ctxs p' = (pl_ctxs p @ [newHandlerContext h (Some a) (Some b)])
               [a := (pl_ctxs p ! a)\<lparr>hc_next := Some (length (pl_ctxs p))\<rparr>,
                b := (pl_ctxs p ! b)\<lparr>hc_prev := Some (length (pl_ctxs p))\<rparr>]"
      "pl_head p' = pl_head p" "pl_tail p' = pl_tail p" "pl_size p' = pl_size p + 1"
  shows "chain_addrs p' ms'" and "c < length (pl_ctxs p) \<Longrightarrow> hc_handler (pl_ctxs p' ! c) = hc_handler (pl_ctxs p ! c)"
    and "hc_handler (pl_ctxs p' ! length (pl_ctxs p)) = h"
proof -
  have "dseg (pl_ctxs p) None (xs @ a # b # ys) None" and "distinct (xs @ a # b # ys)"
    using ok unfolding chain_addrs_def split by auto
  note link = link_between(1) [OF this, where h = h, folded p'(1)] link_between(2) [OF this]
    link_between(3,4) [OF this, where h = h, folded p'(1)]
  show handlers: "c < length (pl_ctxs p) \<Longrightarrow> hc_handler (pl_ctxs p' ! c) = hc_handler (pl_ctxs p ! c)" for c
    using link(3) by blast
  show "hc_handler (pl_ctxs p' ! length (pl_ctxs p)) = h" by (rule link(4))
  have "pl_head p < length (pl_ctxs p)" and "pl_tail p < length (pl_ctxs p)"
    using ok by (auto simp: chain_addrs_def)
  moreover have "length ms' = length ms + 1"
    using arg_cong [OF split, of length] arg_cong [OF new, of length] by simp
  ultimately show "chain_addrs p' ms'"
    using link(1,2) ok handlers by (simp add: chain_addrs_def p'(2-4) new [symmetric])
qed

lemma handlers_at_old:
  assumes "chain_addrs p ms" and "\<And>c. c < length (pl_ctxs p) \<Longrightarrow> hc_handler (pl_ctxs p' ! c) = hc_handler (pl_ctxs p ! c)"
  shows "handlers_at p' ms = handlers_at p ms"
  using assms dseg_valid [of "pl_ctxs p"] by (fastforce simp: handlers_at_def chain_addrs_def)

lemma addFirst_simulates:
  assumes "chain_rel w (B, L)"
  shows "fst (addFirst h w) = fst (spec_add (#) bindHandler h (B, L))"
    and "chain_rel (snd (addFirst h w)) (snd (spec_add (#) bindHandler h (B, L)))"
proof -
  obtain p where w: "w = (B, p)" and "chain p L" using assms by (cases w) (auto simp: chain_rel_def)
  then obtain ms where ok: "chain_addrs p ms" and L: "handlers_at p ms = L" by (auto simp: chain_def)
  define ys where "ys = tl (ms @ [pl_tail p])"
  obtain b where "ms @ [pl_tail p] = b # ys" by (cases ms) (auto simp: ys_def)
  then have split: "pl_head p # ms @ [pl_tail p] = [] @ pl_head p # b # ys" by simp
  have nx: "hc_next (pl_ctxs p ! pl_head p) = Some b" and ne: "pl_head p \<noteq> b" "pl_head p < length (pl_ctxs p)" "b < length (pl_ctxs p)"
    using ok unfolding chain_addrs_def split by auto
  obtain r B' where bind: "bindHandler h B = (r, B')" by fastforce
  define p' where "p' = snd (snd (addFirst h (B, p)))"
  show "fst (addFirst h w) = fst (spec_add (#) bindHandler h (B, L))"
    by (auto simp: w addFirst_def spec_add_def bind nx Let_def alloc_ctx_def split: sum.splits)
  show "chain_rel (snd (addFirst h w)) (snd (spec_add (#) bindHandler h (B, L)))"
  proof (cases r)
    case (Inl x)
    with \<open>chain p L\<close> show ?thesis by (simp add: w addFirst_def spec_add_def bind chain_rel_def)
  next
    case (Inr u)
    then have res: "addFirst h (B, p) = (Inr (), B', p')"
      by (simp add: p'_def addFirst_def bind nx Let_def alloc_ctx_def)
    have p': "pl_ctxs p' = (pl_ctxs p @ [newHandlerContext h (Some (pl_head p)) (Some b)])
               [pl_head p := (pl_ctxs p ! pl_head p)\<lparr>hc_next := Some (length (pl_ctxs p))\<rparr>,
                b := (pl_ctxs p ! b)\<lparr>hc_prev := Some (length (pl_ctxs p))\<rparr>]"
        "pl_head p' = pl_head p" "pl_tail p' = pl_tail p" "pl_size p' = pl_size p + 1"
      using Inr ne by (simp_all add: p'_def addFirst_def bind nx Let_def alloc_ctx_def store_next_def store_prev_def nth_append)
    have "pl_head p # (length (pl_ctxs p) # ms) @ [pl_tail p] = [] @ pl_head p # length (pl_ctxs p) # b # ys"
      using split by simp
    note linked = chain_linked [OF ok split this p']
    then have "chain p' (h # L)"
      unfolding chain_def using handlers_at_old [OF ok linked(2)] L
      by (intro exI [of _ "length (pl_ctxs p) # ms"]) simp
    with Inr show ?thesis by (simp add: w res spec_add_def bind chain_rel_def)
  qed
qed

lemma addLast_simulates:
  assumes "chain_rel w (B, L)"
  shows "fst (addLast h w) = fst (spec_add (\<lambda>h L. L @ [h]) bindHandler h (B, L))"
    and "chain_rel (snd (addLast h w)) (snd (spec_add (\<lambda>h L. L @ [h]) bindHandler h (B, L)))"
proof -
  obtain p where w: "w = (B, p)" and "chain p L" using assms by (cases w) (auto simp: chain_rel_def)
  then obtain ms where ok: "chain_addrs p ms" and L: "handlers_at p ms = L" by (auto simp: chain_def)
  define xs where "xs = butlast (pl_head p # ms)"
  obtain a where "pl_head p # ms = xs @ [a]" unfolding xs_def by (metis append_butlast_last_id list.distinct(1))
  then have split: "pl_head p # ms @ [pl_tail p] = xs @ a # pl_tail p # []" by (metis append_Cons append_assoc append_Nil)
  have nx: "hc_prev (pl_ctxs p ! pl_tail p) = Some a" and ne: "a \<noteq> pl_tail p" "pl_tail p < length (pl_ctxs p)" "a < length (pl_ctxs p)"
    using ok unfolding chain_addrs_def split by auto
  obtain r B' where bind: "bindHandler h B = (r, B')" by fastforce
  define p' where "p' = snd (snd (addLast h (B, p)))"
  show "fst (addLast h w) = fst (spec_add (\<lambda>h L. L @ [h]) bindHandler h (B, L))"
    by (auto simp: w addLast_def spec_add_def bind nx Let_def alloc_ctx_def split: sum.splits)
  show "chain_rel (snd (addLast h w)) (snd (spec_add (\<lambda>h L. L @ [h]) bindHandler h (B, L)))"
  proof (cases r)
    case (Inl x)
    with \<open>chain p L\<close> show ?thesis by (simp add: w addLast_def spec_add_def bind chain_rel_def)
  next
    case (Inr u)
    then have res: "addLast h (B, p) = (Inr (), B', p')"
      by (simp add: p'_def addLast_def bind nx Let_def alloc_ctx_def)
    have p': "pl_ctxs p' = (pl_ctxs p @ [newHandlerContext h (Some a) (Some (pl_tail p))])
               [a := (pl_ctxs p ! a)\<lparr>hc_next := Some (length (pl_ctxs p))\<rparr>,
                pl_tail p := (pl_ctxs p ! pl_tail p)\<lparr>hc_prev := Some (length (pl_ctxs p))\<rparr>]"
        "pl_head p' = pl_head p" "pl_tail p' = pl_tail p" "pl_size p' = pl_size p + 1"
      using Inr ne by (simp_all add: p'_def addLast_def bind nx Let_def alloc_ctx_def store_next_def store_prev_def nth_append list_update_swap)
    have "pl_head p # (ms @ [length (pl_ctxs p)]) @ [pl_tail p] = xs @ a # length (pl_ctxs p) # pl_tail p # []"
      using \<open>pl_head p # ms = xs @ [a]\<close> by simp
    note linked = chain_linked [OF ok split this p']
    then have "chain p' (L @ [h])"
      unfolding chain_def using handlers_at_old [OF ok linked(2)] L
      by (intro exI [of _ "ms @ [length (pl_ctxs p)]"]) simp
    with Inr show ?thesis by (simp add: w res spec_add_def bind chain_rel_def)
  qed
qed

section \<open>Adding handlers refines a list\<close>

text \<open>One handler after the other: a simulation of single additions gives one of the whole call.\<close>

locale chain_simulation =
  fixes rel :: "'w \<Rightarrow> 'a \<Rightarrow> bool"
    and add :: "('s, 'm) Handler \<Rightarrow> 'w \<Rightarrow> (gopanic + unit) \<times> 'w"
    and spec :: "('s, 'm) Handler \<Rightarrow> 'a \<Rightarrow> (gopanic + unit) \<times> 'a"
  assumes same_result: "rel w a \<Longrightarrow> fst (add h w) = fst (spec h a)"
    and related: "rel w a \<Longrightarrow> rel (snd (add h w)) (snd (spec h a))"
begin

lemma add_each_simulates:
  assumes "rel w a"
  shows "fst (add_each add hs w) = fst (add_each spec hs a) \<and> rel (snd (add_each add hs w)) (snd (add_each spec hs a))"
  using assms
proof (induction hs arbitrary: w a)
  case (Cons h hs)
  obtain r w' where add: "add h w = (r, w')" by fastforce
  obtain r' a' where spec: "spec h a = (r', a')" by fastforce
  have "r' = r" and rel: "rel w' a'"
    using same_result [OF Cons.prems, of h] related [OF Cons.prems, of h] by (simp_all add: add spec)
  then show ?case using Cons.IH [OF rel] rel by (cases r) (simp_all add: add spec)
qed simp

end

interpretation first: chain_simulation chain_rel addFirst "spec_add (#) bindHandler"
  by unfold_locales (auto simp: addFirst_simulates split: prod.splits)

interpretation last: chain_simulation chain_rel addLast "spec_add (\<lambda>h L. L @ [h]) bindHandler"
  by unfold_locales (auto simp: addLast_simulates split: prod.splits)

text \<open>A sequence of calls on one chain; a panic of a call reaches its caller, and the chain stays usable.\<close>

datatype ('s, 'm) chain_op = OpFirst "('s, 'm) Handler list" | OpLast "('s, 'm) Handler list"

fun chain_step ::
  "('s, 'm) chain_op \<Rightarrow> nat set \<times> ('s, 'm, 'z) pipeline_scheme \<Rightarrow> (gopanic + unit) \<times> nat set \<times> ('s, 'm, 'z) pipeline_scheme" where
  "chain_step (OpFirst hs) w = pl_AddFirst hs w"
| "chain_step (OpLast hs) w = pl_AddLast hs w"

fun spec_step ::
  "('s, 'm) chain_op \<Rightarrow> nat set \<times> ('s, 'm) Handler list \<Rightarrow> (gopanic + unit) \<times> nat set \<times> ('s, 'm) Handler list" where
  "spec_step (OpFirst hs) a = (case checkHandler hs of
      Inl x \<Rightarrow> (Inl x, a) | Inr _ \<Rightarrow> add_each (spec_add (#) bindHandler) hs a)"
| "spec_step (OpLast hs) a = (case checkHandler hs of
      Inl x \<Rightarrow> (Inl x, a) | Inr _ \<Rightarrow> add_each (spec_add (\<lambda>h L. L @ [h]) bindHandler) hs a)"

fun run_ops :: "('o \<Rightarrow> 'w \<Rightarrow> 'r \<times> 'w) \<Rightarrow> 'o list \<Rightarrow> 'w \<Rightarrow> 'r list \<times> 'w" where
  "run_ops step [] w = ([], w)"
| "run_ops step (x # xs) w = (case step x w of (r, w') \<Rightarrow> (case run_ops step xs w' of (rs, w'') \<Rightarrow> (r # rs, w'')))"

lemma chain_step_simulates:
  assumes "chain_rel w a"
  shows "fst (chain_step x w) = fst (spec_step x a) \<and> chain_rel (snd (chain_step x w)) (snd (spec_step x a))"
  using assms first.add_each_simulates [OF assms] last.add_each_simulates [OF assms]
  by (cases x) (auto simp: pl_AddFirst_def pl_AddLast_def split: sum.splits)

lemma run_ops_simulates:
  assumes "chain_rel w a"
  shows "fst (run_ops chain_step xs w) = fst (run_ops spec_step xs a)
    \<and> chain_rel (snd (run_ops chain_step xs w)) (snd (run_ops spec_step xs a))"
  using assms
proof (induction xs arbitrary: w a)
  case (Cons x xs)
  obtain r w' where c: "chain_step x w = (r, w')" by (rule surj_pair [THEN exE, of "chain_step x w"]) blast
  obtain r' a' where s: "spec_step x a = (r', a')" by (rule surj_pair [THEN exE, of "spec_step x a"]) blast
  have "r' = r" and rel: "chain_rel w' a'" using chain_step_simulates [OF Cons.prems, of x] by (simp_all add: c s)
  then show ?case using Cons.IH [OF rel] by (auto simp: c s split: prod.splits)
qed simp

lemma chain_trails:
  assumes "chain p L"
  obtains ms where "trail hc_next (pl_ctxs p) (Some (pl_head p)) = Some (pl_head p # ms @ [pl_tail p])"
    and "trail hc_prev (pl_ctxs p) (Some (pl_tail p)) = Some (pl_tail p # rev ms @ [pl_head p])"
    and "handlers_at p (pl_head p # ms @ [pl_tail p]) = headHandler # L @ [tailHandler]" and "pl_size p = length L + 2"
proof -
  obtain ms where ok: "chain_addrs p ms" and L: "handlers_at p ms = L" using assms by (auto simp: chain_def)
  have seg: "dseg (pl_ctxs p) None (pl_head p # ms @ [pl_tail p]) None" using ok by (simp add: chain_addrs_def)
  have len: "length L = length ms" using L by (auto simp: handlers_at_def)
  show thesis using that [of ms] trail_next [OF seg] trail_prev [OF seg] ok L len by (simp add: chain_addrs_def)
qed

text \<open>C6: however handlers are added at both ends, with calls that panic in between, the chain that is
  followed from head to tail is the list of handlers between the two fixed ones, the chain that is followed
  back is its reverse, and the size counts it. A handler that is rejected leaves the handlers added before
  it in place; unrecognized handlers are rejected before any is added.\<close>

theorem pipeline_refines_handler_list:
  "case run_ops chain_step ops (B, NewPipeline) of (rs, B', p) \<Rightarrow>
   case run_ops spec_step ops (B, []) of (rs', B'', L) \<Rightarrow>
     rs = rs' \<and> B' = B'' \<and> pl_size p = length L + 2
     \<and> (\<exists>ms. trail hc_next (pl_ctxs p) (Some (pl_head p)) = Some (pl_head p # ms @ [pl_tail p])
           \<and> trail hc_prev (pl_ctxs p) (Some (pl_tail p)) = Some (pl_tail p # rev ms @ [pl_head p])
           \<and> handlers_at p (pl_head p # ms @ [pl_tail p]) = headHandler # L @ [tailHandler])"
proof -
  have start: "chain_rel (B, NewPipeline) (B, [])" by (simp add: chain_rel_def chain_NewPipeline)
  obtain rs B' p where c: "run_ops chain_step ops (B, NewPipeline) = (rs, B', p)" by (metis surj_pair)
  obtain rs' B'' L where s: "run_ops spec_step ops (B, []) = (rs', B'', L)" by (metis surj_pair)
  have same: "rs = rs'" "B' = B''" and L: "chain p L"
    using run_ops_simulates [OF start, of ops] by (simp_all add: c s chain_rel_def)
  obtain ms where "trail hc_next (pl_ctxs p) (Some (pl_head p)) = Some (pl_head p # ms @ [pl_tail p])"
    and "trail hc_prev (pl_ctxs p) (Some (pl_tail p)) = Some (pl_tail p # rev ms @ [pl_head p])"
    and "handlers_at p (pl_head p # ms @ [pl_tail p]) = headHandler # L @ [tailHandler]" and "pl_size p = length L + 2"
    by (rule chain_trails [OF L])
  with same show ?thesis by (auto simp: c s)
qed

section \<open>Handlers that may not be shared\<close>

definition unshared_ids :: "('s, 'm) Handler list \<Rightarrow> nat list" where
  "unshared_ids L = List.map_filter h_unshareable L"

text \<open>Several chains, which share the handler objects.\<close>

fun pool_step ::
  "nat \<times> ('s, 'm) chain_op \<Rightarrow> nat set \<times> ('s, 'm) pipeline list \<Rightarrow> (gopanic + unit) \<times> nat set \<times> ('s, 'm) pipeline list" where
  "pool_step (i, x) (B, ps) =
     (if i < length ps then (case chain_step x (B, ps ! i) of (r, B', p) \<Rightarrow> (r, B', ps[i := p])) else (Inr (), B, ps))"

text \<open>\<open>binds B L B' L'\<close>: the handlers that \<open>L'\<close> has more than \<open>L\<close> were not bound before and are now.\<close>

definition binds :: "nat set \<Rightarrow> ('s, 'm) Handler list \<Rightarrow> nat set \<Rightarrow> ('s, 'm) Handler list \<Rightarrow> bool" where
  "binds B L B' L' \<longleftrightarrow> (\<exists>xs. mset (unshared_ids L') = mset (xs @ unshared_ids L) \<and> distinct xs
     \<and> set xs \<inter> B = {} \<and> B \<union> set xs \<subseteq> B')"

lemma binds_refl: "B \<subseteq> B' \<Longrightarrow> binds B L B' L"
  by (auto simp: binds_def intro: exI [of _ "[]"])

lemma binds_trans:
  assumes "binds B L B1 L1" and "binds B1 L1 B2 L2"
  shows "binds B L B2 L2"
proof -
  obtain xs ys where "mset (unshared_ids L1) = mset (xs @ unshared_ids L)" "distinct xs" "set xs \<inter> B = {}" "B \<union> set xs \<subseteq> B1"
    and "mset (unshared_ids L2) = mset (ys @ unshared_ids L1)" "distinct ys" "set ys \<inter> B1 = {}" "B1 \<union> set ys \<subseteq> B2"
    using assms by (auto simp: binds_def)
  then show ?thesis unfolding binds_def by (intro exI [of _ "ys @ xs"]) auto
qed

lemma spec_add_binds:
  assumes "\<And>L. mset (unshared_ids (put h L)) = mset (unshared_ids (h # L))"
    and "spec_add put bindHandler h (B, L) = (r, B', L')"
  shows "binds B L B' L'"
proof (cases "h_unshareable h")
  case None
  then have "r = Inr () \<and> B' = B \<and> L' = put h L" using assms(2) by (auto simp: spec_add_def bindHandler_def)
  with None assms(1) show ?thesis unfolding binds_def
    by (intro exI [of _ "[]"]) (simp add: unshared_ids_def map_filter_simps)
next
  case (Some i)
  show ?thesis
  proof (cases "i \<in> B")
    case True
    with Some have "B' = insert i B \<and> L' = L" using assms(2) by (auto simp: spec_add_def bindHandler_def TryBind_def)
    then show ?thesis by (auto intro: binds_refl)
  next
    case False
    with Some have "B' = insert i B \<and> L' = put h L" using assms(2) by (auto simp: spec_add_def bindHandler_def TryBind_def)
    with Some False assms(1) show ?thesis unfolding binds_def
      by (intro exI [of _ "[i]"]) (simp add: unshared_ids_def map_filter_simps)
  qed
qed

lemma add_each_binds:
  assumes "\<And>h L. mset (unshared_ids (put h L)) = mset (unshared_ids (h # L))"
    and "add_each (spec_add put bindHandler) hs (B, L) = (r, B', L')"
  shows "binds B L B' L'"
  using assms(2)
proof (induction hs arbitrary: B L)
  case Nil
  then show ?case by (auto intro: binds_refl)
next
  case (Cons h hs)
  obtain r1 B1 L1 where step: "spec_add put bindHandler h (B, L) = (r1, B1, L1)" by (metis surj_pair)
  have "binds B L B1 L1" by (rule spec_add_binds [OF assms(1) step])
  moreover have "binds B1 L1 B' L'"
    using Cons step by (cases r1) (auto intro: binds_refl)
  ultimately show ?case by (rule binds_trans)
qed

lemma spec_step_binds:
  assumes "spec_step x (B, L) = (r, B', L')"
  shows "binds B L B' L'"
proof -
  have put: "mset (unshared_ids (h # L)) = mset (unshared_ids (h # L))"
      "mset (unshared_ids (L @ [h])) = mset (unshared_ids (h # L))" for h :: "('a, 'b) Handler" and L
    by (auto simp: unshared_ids_def map_filter_def)
  show ?thesis
    using assms add_each_binds [OF put(1)] add_each_binds [OF put(2)]
    by (cases x) (auto intro: binds_refl split: sum.splits)
qed

lemma mset_concat_update:
  assumes "i < length Ls" and "mset (f L') = mset (xs @ f (Ls ! i))"
  shows "mset (concat (map f (Ls[i := L']))) = mset (xs @ concat (map f Ls))"
  using assms
proof (induction Ls arbitrary: i)
  case (Cons L Ls)
  then show ?case by (cases i) auto
qed simp

definition pool_ok :: "nat set \<times> ('s, 'm) pipeline list \<Rightarrow> bool" where
  "pool_ok = (\<lambda>(B, ps). \<exists>Ls. list_all2 chain ps Ls \<and> distinct (concat (map unshared_ids Ls))
     \<and> set (concat (map unshared_ids Ls)) \<subseteq> B)"

lemma pool_step_ok:
  assumes "pool_ok w"
  shows "pool_ok (snd (pool_step (i, x) w))"
proof -
  obtain B ps where w: "w = (B, ps)" by fastforce
  show ?thesis
  proof (cases "i < length ps")
    case True
    obtain Ls where Ls: "list_all2 chain ps Ls" and dist: "distinct (concat (map unshared_ids Ls))"
      and sub: "set (concat (map unshared_ids Ls)) \<subseteq> B"
      using assms by (auto simp: pool_ok_def w)
    have len: "length Ls = length ps" using Ls by (simp add: list_all2_lengthD)
    have rel: "chain_rel (B, ps ! i) (B, Ls ! i)" using True Ls by (simp add: chain_rel_def list_all2_nthD)
    obtain r B' p where c: "chain_step x (B, ps ! i) = (r, B', p)" by (metis surj_pair)
    obtain r' B'' L where s: "spec_step x (B, Ls ! i) = (r', B'', L)" by (metis surj_pair)
    have "B'' = B'" and L: "chain p L" using chain_step_simulates [OF rel, of x] by (auto simp: c s chain_rel_def)
    with spec_step_binds [OF s] obtain xs where xs: "mset (unshared_ids L) = mset (xs @ unshared_ids (Ls ! i))"
      "distinct xs" "set xs \<inter> B = {}" "B \<union> set xs \<subseteq> B'" by (auto simp: binds_def)
    have "mset (concat (map unshared_ids (Ls[i := L]))) = mset (xs @ concat (map unshared_ids Ls))" (is "mset ?new = mset ?old")
      using True len xs(1) by (intro mset_concat_update) simp_all
    moreover have "distinct ?old" and "set ?old \<subseteq> B'" using dist sub xs by auto
    ultimately have "distinct ?new" and "set ?new \<subseteq> B'"
      by (metis mset_eq_imp_distinct_iff, metis mset_eq_setD)
    moreover have "list_all2 chain (ps[i := p]) (Ls[i := L])" using Ls L by (rule list_all2_update_cong)
    ultimately show ?thesis using True by (auto simp: w c pool_ok_def)
  qed (use assms in \<open>simp add: w\<close>)
qed

lemma run_ops_invariant:
  assumes "\<And>x w. P w \<Longrightarrow> P (snd (step x w))" and "P w"
  shows "P (snd (run_ops step xs w))"
  using assms(2)
proof (induction xs arbitrary: w)
  case (Cons x xs)
  then show ?case using assms(1) [of w x] by (simp add: case_prod_beta)
qed simp

text \<open>Whatever is added to however many chains, in any order and with rejected calls in between, no
  handler object that embeds \<open>UnshareableHandlerBase\<close> is twice in the chains: neither in two of them
  nor twice in one.\<close>

theorem unshareable_handler_in_one_chain:
  "case run_ops pool_step ops ({}, replicate n NewPipeline) of (rs, B, ps) \<Rightarrow>
     \<exists>Ls. list_all2 chain ps Ls \<and> distinct (concat (map unshared_ids Ls))"
proof -
  have "list_all2 chain (replicate n NewPipeline) (replicate n [])"
    by (simp add: list_all2_conv_all_nth chain_NewPipeline)
  then have "pool_ok ({}, replicate n NewPipeline)"
    unfolding pool_ok_def by (auto simp: unshared_ids_def map_filter_simps intro!: exI [of _ "replicate n []"])
  then have "pool_ok (snd (run_ops pool_step ops ({}, replicate n NewPipeline)))"
    by (rule run_ops_invariant [rotated]) (use pool_step_ok in auto)
  then show ?thesis by (auto simp: pool_ok_def split: prod.splits)
qed

end
