(* ===== verification/Dispatch.thy ===== *)
theory Dispatch
  imports Pipeline EventLoop
begin

text \<open>
  Running the handler chain: the \<open>Fire\<close> methods of \<open>context.go\<close>, the exception chain of \<open>pipeline.go\<close>,
  \<open>channel.go\<close>, the handlers the library ships (\<open>handler.go\<close>, \<open>simple_handler.go\<close>,
  \<open>codec_simple_codec.go\<close>, \<open>codec.go\<close>) and the callbacks of \<open>simple_event_handler.go\<close>.

  Handlers call back into the framework, so a run has fuel, one unit for each step of a handler body;
  \<open>Unfinished\<close> is a run that used it up. More fuel never changes a run that finished.
\<close>

section \<open>The channel\<close>

record ('s, 'm) channel = "('s, 'm) pipeline" +
  ch_closed :: bool
  ch_user :: 's

text \<open>
  What the channel uses of its connection and event loop: whether the caller runs in the loop, the direct write,
  the asynchronous write (\<open>Inl\<close>: refused at once, \<open>Inr\<close>: the error its callback was given) and handing the
  loop the task that closes the connection.
\<close>

record 's chan_env =
  ce_InEventLoop :: "'s \<Rightarrow> bool"
  ce_Write :: "byte list \<Rightarrow> 's \<Rightarrow> (int \<times> go_error option) \<times> 's"
  ce_AsyncWrite :: "byte list \<Rightarrow> 's \<Rightarrow> (go_error + go_error option) \<times> 's"
  ce_ExecuteClose :: "go_error option \<Rightarrow> 's \<Rightarrow> go_error option \<times> 's"

definition newChannel :: "'s \<Rightarrow> ('s, 'm) pipeline \<Rightarrow> ('s, 'm) channel" where
  "newChannel u p = pipeline.extend p \<lparr>ch_closed = False, ch_user = u\<rparr>"

definition IsActive :: "('s, 'm) channel \<Rightarrow> bool" where
  "IsActive w \<longleftrightarrow> \<not> ch_closed w"

definition ch_Write1 ::
  "'s chan_env \<Rightarrow> byte list \<Rightarrow> ('s, 'm) channel \<Rightarrow> (int \<times> go_error option) \<times> ('s, 'm) channel" where
  "ch_Write1 e m w =
     (if ce_InEventLoop e (ch_user w)
      then (case ce_Write e m (ch_user w) of (r, u) \<Rightarrow> (r, w\<lparr>ch_user := u\<rparr>))
      else (case ce_AsyncWrite e m (ch_user w) of (r, u) \<Rightarrow>
              ((int (length m), case r of Inl err3 \<Rightarrow> Some err3 | Inr err \<Rightarrow> err), w\<lparr>ch_user := u\<rparr>)))"

definition ch_Close :: "'s chan_env \<Rightarrow> go_error option \<Rightarrow> ('s, 'm) channel \<Rightarrow> ('s, 'm) channel" where
  "ch_Close e err w =
     (if ch_closed w then w
      else (case ce_ExecuteClose e err (ch_user w) of (_, u) \<Rightarrow> w\<lparr>ch_closed := True, ch_user := u\<rparr>))"

section \<open>Running handlers\<close>

datatype outcome = Done | Raise gopanic | Unfinished

type_synonym ('s, 'm) runner = "nat \<Rightarrow> ('s, 'm) prog \<Rightarrow> ('s, 'm) channel \<Rightarrow> outcome \<times> ('s, 'm) channel"

definition and_then ::
  "outcome \<times> ('s, 'm) channel \<Rightarrow> (('s, 'm) channel \<Rightarrow> outcome \<times> ('s, 'm) channel) \<Rightarrow> outcome \<times> ('s, 'm) channel" where
  "and_then r k = (case r of (Done, w) \<Rightarrow> k w | (Raise p, w) \<Rightarrow> (Raise p, w) | (Unfinished, w) \<Rightarrow> (Unfinished, w))"

text \<open>The deferred function of a Go function that recovers.\<close>

definition recovering ::
  "outcome \<times> ('s, 'm) channel \<Rightarrow> (gopanic \<Rightarrow> ('s, 'm) channel \<Rightarrow> outcome \<times> ('s, 'm) channel) \<Rightarrow> outcome \<times> ('s, 'm) channel" where
  "recovering r k = (case r of (Done, w) \<Rightarrow> (Done, w) | (Raise p, w) \<Rightarrow> k p w | (Unfinished, w) \<Rightarrow> (Unfinished, w))"

lemma and_then_Done [simp]: "and_then (Done, w) k = k w"
  by (simp add: and_then_def)

text \<open>The interface of a signal, with the method applied to its arguments; only writes travel towards the head.\<close>

fun cast :: "'m signal \<Rightarrow> ('s, 'm) Handler \<Rightarrow> ('s, 'm) prog option" where
  "cast SActive h = HandleActive h"
| "cast (SInactive e) h = map_option (\<lambda>f. f e) (HandleInactive h)"
| "cast (SRead m) h = map_option (\<lambda>f. f m) (HandleRead h)"
| "cast (SWrite m) h = map_option (\<lambda>f. f m) (HandleWrite h)"
| "cast (SException e) h = map_option (\<lambda>f. f e) (HandleException h)"
| "cast (SEvent m) h = map_option (\<lambda>f. f m) (HandleEvent h)"

fun link_of :: "'m signal \<Rightarrow> ('s, 'm) handlerContext \<Rightarrow> nat option" where
  "link_of (SWrite m) c = hc_prev c"
| "link_of SActive c = hc_next c"
| "link_of (SInactive e) c = hc_next c"
| "link_of (SRead m) c = hc_next c"
| "link_of (SException e) c = hc_next c"
| "link_of (SEvent m) c = hc_next c"

text \<open>\<open>FireActive\<close>, \<open>FireInactive\<close>, \<open>FireRead\<close>, \<open>FireWrite\<close>, \<open>FireExceptionCaught\<close> and \<open>FireEvent\<close> of a context.\<close>

definition fire :: "('s, 'm) runner \<Rightarrow> nat \<Rightarrow> 'm signal \<Rightarrow> ('s, 'm) channel \<Rightarrow> outcome \<times> ('s, 'm) channel" where
  "fire R ctx sig w = (case search (link_of sig) (pl_ctxs w) (\<lambda>h. cast sig h \<noteq> None) ctx of
      None \<Rightarrow> (Unfinished, w)
    | Some None \<Rightarrow> (Done, w)
    | Some (Some c) \<Rightarrow> (case cast sig (hc_handler (pl_ctxs w ! c)) of None \<Rightarrow> (Done, w) | Some body \<Rightarrow> R c body w))"

definition TryFireException ::
  "('s, 'm) runner \<Rightarrow> go_error option \<Rightarrow> ('s, 'm) channel \<Rightarrow> outcome \<times> bool \<times> ('s, 'm) channel" where
  "TryFireException R ex w =
     (if pl_handlingException w then (Done, False, w)
      else (case fire R (pl_head w) (SException ex) (w\<lparr>pl_handlingException := True\<rparr>) of
              (Done, w') \<Rightarrow> (Done, True, w'\<lparr>pl_handlingException := False\<rparr>)
            | (Raise _, w') \<Rightarrow> (Done, False, w')
            | (Unfinished, w') \<Rightarrow> (Unfinished, False, w')))"

definition FireChannelException ::
  "('s, 'm) runner \<Rightarrow> go_error option \<Rightarrow> ('s, 'm) channel \<Rightarrow> outcome \<times> ('s, 'm) channel" where
  "FireChannelException R ex w = (case TryFireException R ex w of (r, _, w') \<Rightarrow> (r, w'))"

text \<open>\<open>Write\<close> and \<open>Trigger\<close> of a context: the deferred function asserts that the panic value is an error.\<close>

definition recover_error ::
  "('s, 'm) runner \<Rightarrow> gopanic \<Rightarrow> ('s, 'm) channel \<Rightarrow> outcome \<times> ('s, 'm) channel" where
  "recover_error R p w = (case p of
      ErrorPanic err \<Rightarrow> FireChannelException R (Some err) w
    | ValuePanic _ \<Rightarrow> (Raise (ErrorPanic (OtherError ''interface conversion'')), w))"

definition hc_Write :: "('s, 'm) runner \<Rightarrow> nat \<Rightarrow> 'm message \<Rightarrow> ('s, 'm) channel \<Rightarrow> outcome \<times> ('s, 'm) channel" where
  "hc_Write R ctx m w = recovering (fire R ctx (SWrite m) w) (recover_error R)"

definition hc_Trigger :: "('s, 'm) runner \<Rightarrow> nat \<Rightarrow> 'm message \<Rightarrow> ('s, 'm) channel \<Rightarrow> outcome \<times> ('s, 'm) channel" where
  "hc_Trigger R ctx ev w = recovering (fire R ctx (SEvent ev) w) (recover_error R)"

definition invokeMethod ::
  "'s chan_env \<Rightarrow> ('s, 'm) runner \<Rightarrow> outcome \<times> ('s, 'm) channel \<Rightarrow> outcome \<times> ('s, 'm) channel" where
  "invokeMethod e R fn = recovering fn (\<lambda>p w.
     if ch_closed w then (Done, w)
     else (case TryFireException R (AsException (Some p)) w of
             (Unfinished, _, w') \<Rightarrow> (Unfinished, w')
           | (r, ok, w') \<Rightarrow> (r, if ok then w' else ch_Close e (AsException (Some p)) w')))"

definition ch_Write ::
  "'s chan_env \<Rightarrow> ('s, 'm) runner \<Rightarrow> 'm message \<Rightarrow> ('s, 'm) channel \<Rightarrow> (outcome \<times> ('s, 'm) channel) \<times> go_error option" where
  "ch_Write e R m w =
     (if \<not> IsActive w then ((Done, w), Some (OtherError ''channel is closed''))
      else (invokeMethod e R (fire R (pl_tail w) (SWrite m) w), None))"

definition ch_Trigger ::
  "'s chan_env \<Rightarrow> ('s, 'm) runner \<Rightarrow> 'm message \<Rightarrow> ('s, 'm) channel \<Rightarrow> outcome \<times> ('s, 'm) channel" where
  "ch_Trigger e R ev w =
     (if \<not> IsActive w then (Done, w) else invokeMethod e R (fire R (pl_head w) (SEvent ev) w))"

text \<open>\<open>ctx.Channel()\<close> is nil until \<open>ServeChannel\<close>.\<close>

definition on_channel ::
  "('s, 'm) channel \<Rightarrow> outcome \<times> ('s, 'm) channel \<Rightarrow> outcome \<times> ('s, 'm) channel" where
  "on_channel w r = (if pl_served w then r else (Raise nil_pointer, w))"

definition run_step :: "'s chan_env \<Rightarrow> ('s, 'm) runner \<Rightarrow> ('s, 'm) runner" where
  "run_step e R ctx body w = (case body of
      Returns \<Rightarrow> (Done, w)
    | Panic p \<Rightarrow> (Raise p, w)
    | Local f \<Rightarrow> (case f (ch_user w) of (u, rest) \<Rightarrow> R ctx rest (w\<lparr>ch_user := u\<rparr>))
    | Fire sig rest \<Rightarrow> and_then (fire R ctx sig w) (R ctx rest)
    | CtxWrite m rest \<Rightarrow> and_then (hc_Write R ctx m w) (R ctx rest)
    | CtxTrigger ev rest \<Rightarrow> and_then (hc_Trigger R ctx ev w) (R ctx rest)
    | ChWrite m rest \<Rightarrow> on_channel w (case ch_Write e R m w of (r, err) \<Rightarrow> and_then r (R ctx (rest err)))
    | ChTrigger ev rest \<Rightarrow> on_channel w (and_then (ch_Trigger e R ev w) (R ctx rest))
    | ChWrite1 m rest \<Rightarrow> on_channel w (case ch_Write1 e m w of (r, w') \<Rightarrow> R ctx (rest r) w')
    | ChClose err rest \<Rightarrow> on_channel w (R ctx rest (ch_Close e err w))
    | ChIsActive rest \<Rightarrow> on_channel w (R ctx (rest (IsActive w)) w)
    | ChException ex rest \<Rightarrow> on_channel w (and_then (FireChannelException R ex w) (R ctx rest))
    | Recovering inner h rest \<Rightarrow> and_then (recovering (R ctx inner w) (\<lambda>p. R ctx (h p))) (R ctx rest))"

primrec run :: "nat \<Rightarrow> 's chan_env \<Rightarrow> ('s, 'm) runner" where
  "run 0 e = (\<lambda>ctx body w. (Unfinished, w))"
| "run (Suc fuel) e = run_step e (run fuel e)"

section \<open>The handlers the library ships\<close>

definition ActiveHandlerFunc :: "('s, 'm) prog \<Rightarrow> ('s, 'm) Handler" where
  "ActiveHandlerFunc fn = no_handler\<lparr>HandleActive := Some fn\<rparr>"

definition InactiveHandlerFunc :: "(go_error option \<Rightarrow> ('s, 'm) prog) \<Rightarrow> ('s, 'm) Handler" where
  "InactiveHandlerFunc fn = no_handler\<lparr>HandleInactive := Some fn, h_InactiveFunc := True\<rparr>"

definition EventHandlerFunc :: "('m message \<Rightarrow> ('s, 'm) prog) \<Rightarrow> ('s, 'm) Handler" where
  "EventHandlerFunc fn = no_handler\<lparr>HandleEvent := Some fn\<rparr>"

definition ExceptionHandlerFunc :: "(go_error option \<Rightarrow> ('s, 'm) prog) \<Rightarrow> ('s, 'm) Handler" where
  "ExceptionHandlerFunc fn = no_handler\<lparr>HandleException := Some fn\<rparr>"

text \<open>The call of \<open>recover\<close> in \<open>HandleRead\<close> is not deferred and has no effect.\<close>

definition SimpleInboundHandler ::
  "('m message \<Rightarrow> bool) \<Rightarrow> ('m message \<Rightarrow> ('s, 'm) prog) option \<Rightarrow> ('s, 'm) Handler" where
  "SimpleInboundHandler isT OnMsg = no_handler\<lparr>HandleRead := Some (\<lambda>msg. case OnMsg of
      None \<Rightarrow> Fire (SRead msg) Returns
    | Some f \<Rightarrow> if isT msg then f msg else Fire (SRead msg) Returns)\<rparr>"

fun fire_all :: "('m message \<Rightarrow> 'm signal) \<Rightarrow> 'm message list \<Rightarrow> ('s, 'm) prog" where
  "fire_all sig [] = Returns"
| "fire_all sig (m # ms) = Fire (sig m) (fire_all sig ms)"

text \<open>A codec function is code of the user on its own state; \<open>isT\<close> is the type assertion on the message.\<close>

definition codec_body ::
  "('m message \<Rightarrow> 'm signal) \<Rightarrow> ('m message \<Rightarrow> bool) \<Rightarrow> ('m message \<Rightarrow> 's \<Rightarrow> ('m message list \<times> go_error option) \<times> 's) option
    \<Rightarrow> 'm message \<Rightarrow> ('s, 'm) prog" where
  "codec_body sig isT code msg = (case code of
      None \<Rightarrow> Fire (sig msg) Returns
    | Some f \<Rightarrow>
        if isT msg
        then Local (\<lambda>s. case f msg s of ((out, err), s') \<Rightarrow>
               (s', case err of Some x \<Rightarrow> Panic (ErrorPanic x) | None \<Rightarrow> fire_all sig out))
        else Fire (sig msg) Returns)"

definition SimpleCodec ::
  "('m message \<Rightarrow> bool) \<Rightarrow> ('m message \<Rightarrow> 's \<Rightarrow> ('m message list \<times> go_error option) \<times> 's) option
    \<Rightarrow> ('m message \<Rightarrow> bool) \<Rightarrow> ('m message \<Rightarrow> 's \<Rightarrow> ('m message list \<times> go_error option) \<times> 's) option \<Rightarrow> ('s, 'm) Handler" where
  "SimpleCodec isT decode isU encode = no_handler\<lparr>
     HandleRead := Some (codec_body SRead isT decode), HandleWrite := Some (codec_body SWrite isU encode)\<rparr>"

definition Combine :: "('s, 'm) Handler \<Rightarrow> ('s, 'm) Handler \<Rightarrow> ('s, 'm) Handler" where
  "Combine inbound outbound = no_handler\<lparr>HandleRead := HandleRead inbound, HandleWrite := HandleWrite outbound\<rparr>"

section \<open>The callbacks of the event loop\<close>

text \<open>The context of a connection: nil, not a context, or a context with or without a channel in it.\<close>

datatype conn_context = NilContext | NotContext | Context bool

abbreviation ErrConnContextIsNil :: go_error where
  "ErrConnContextIsNil \<equiv> OtherError ''agonet: conn context is nil''"

abbreviation ErrInvalidChannelType :: go_error where
  "ErrInvalidChannelType \<equiv> OtherError ''agonet: invalid channel type in context''"

abbreviation ErrInvalidContextType :: go_error where
  "ErrInvalidContextType \<equiv> OtherError ''agonet: invalid context type in conn''"

abbreviation ErrIncompletePacket :: go_error where
  "ErrIncompletePacket \<equiv> OtherError ''agonet: incomplete packet''"

fun getChannelFromConn :: "conn_context \<Rightarrow> go_error option" where
  "getChannelFromConn NilContext = Some ErrConnContextIsNil"
| "getChannelFromConn NotContext = Some ErrInvalidContextType"
| "getChannelFromConn (Context has_channel) = (if has_channel then None else Some ErrInvalidChannelType)"

definition OnOpen ::
  "'s chan_env \<Rightarrow> ('s, 'm) runner \<Rightarrow> (('s, 'm) channel \<Rightarrow> (gopanic + go_error option) \<times> ('s, 'm) channel) \<Rightarrow> conn_context \<Rightarrow> 's
    \<Rightarrow> (outcome \<times> Action) \<times> conn_context \<times> ('s, 'm) channel" where
  "OnOpen e R init cctx u =
     (let w = newChannel u NewPipeline in
      if cctx = NotContext then ((Done, ActClose), cctx, w)
      else (case init w of
          (Inl p, w1) \<Rightarrow> ((Done, ActClose), cctx, w1)
        | (Inr err, w1) \<Rightarrow>
            (let (action, w2) = (case err of Some x \<Rightarrow> (ActClose, ch_Close e (Some x) w1) | None \<Rightarrow> (ActNone, w1));
                 w3 = ServeChannel w2
             in (case fire R (pl_head w3) SActive w3 of
                   (Done, w4) \<Rightarrow> ((Done, action), Context True, w4)
                 | (Raise p, w4) \<Rightarrow> ((Done, ActClose), cctx, w4)
                 | (Unfinished, w4) \<Rightarrow> ((Unfinished, action), cctx, w4)))))"

definition OnClose ::
  "'s chan_env \<Rightarrow> ('s, 'm) runner \<Rightarrow> conn_context \<Rightarrow> go_error option \<Rightarrow> ('s, 'm) channel \<Rightarrow> outcome \<times> ('s, 'm) channel" where
  "OnClose e R cctx err w =
     (if getChannelFromConn cctx \<noteq> None then (Done, w)
      else and_then (fire R (pl_head w) (SInactive err) w) (\<lambda>w'. (Done, ch_Close e err w')))"

text \<open>\<open>OnTraffic\<close>; the reader it passes on is the message \<open>rd\<close>, \<open>buffered\<close> is \<open>InboundBuffered\<close> and \<open>wake\<close> asks
  the loop for another round.\<close>

definition OnTraffic ::
  "('s, 'm) runner \<Rightarrow> ('s \<Rightarrow> nat) \<Rightarrow> ('s \<Rightarrow> go_error option \<times> 's) \<Rightarrow> 'm message \<Rightarrow> conn_context \<Rightarrow> ('s, 'm) channel
    \<Rightarrow> (outcome \<times> Action) \<times> ('s, 'm) channel" where
  "OnTraffic R buffered wake rd cctx w =
     (if getChannelFromConn cctx \<noteq> None then ((Done, ActClose), w)
      else
        let before = buffered (ch_user w) in
        (case fire R (pl_head w) (SRead rd) w of
           (Done, w1) \<Rightarrow>
             (let after = buffered (ch_user w1)
              in ((Done, ActNone), if after > 0 \<and> after \<noteq> before then w1\<lparr>ch_user := snd (wake (ch_user w1))\<rparr> else w1))
         | (Raise p, w1) \<Rightarrow>
             if p = ErrorPanic ErrIncompletePacket then ((Done, ActNone), w1)
             else (case TryFireException R (case p of ErrorPanic err \<Rightarrow> Some err | ValuePanic _ \<Rightarrow> None) w1 of
                     (r, ok, w2) \<Rightarrow> ((r, if ok then ActNone else ActClose), w2))
         | (Unfinished, w1) \<Rightarrow> ((Unfinished, ActNone), w1)))"

section \<open>Which handler a signal reaches\<close>

lemma search_next:
  assumes "dseg cs p (a # as) None"
  shows "search hc_next cs impl a = Some (find (\<lambda>b. impl (hc_handler (cs ! b))) as)"
  using assms
proof (induction as arbitrary: p a)
  case Nil
  then show ?case by (subst search.simps) simp
next
  case (Cons b as)
  then show ?case using Cons.IH [of "Some a" b] by (subst search.simps) simp
qed

lemma search_prev:
  assumes "dseg cs None (as @ [a]) q"
  shows "search hc_prev cs impl a = Some (find (\<lambda>b. impl (hc_handler (cs ! b))) (rev as))"
  using assms
proof (induction as arbitrary: q a rule: rev_induct)
  case Nil
  then show ?case by (subst search.simps) simp
next
  case (snoc b as)
  then show ?case using snoc.IH [of b "Some a"] by (subst search.simps) simp
qed

definition chain_positions :: "('s, 'm, 'z) pipeline_scheme \<Rightarrow> nat list \<Rightarrow> nat list" where
  "chain_positions p ms = pl_head p # ms @ [pl_tail p]"

text \<open>The contexts a signal visits from the context at position \<open>i\<close> of the chain, in order.\<close>

fun route :: "'m signal \<Rightarrow> nat \<Rightarrow> nat list \<Rightarrow> nat list" where
  "route (SWrite m) i as = rev (take i as)"
| "route SActive i as = drop (Suc i) as"
| "route (SInactive e) i as = drop (Suc i) as"
| "route (SRead m) i as = drop (Suc i) as"
| "route (SException e) i as = drop (Suc i) as"
| "route (SEvent m) i as = drop (Suc i) as"

lemma link_of_eqs:
  "link_of SActive = hc_next" "link_of (SInactive e) = hc_next" "link_of (SRead m) = hc_next"
  "link_of (SWrite m) = hc_prev" "link_of (SException e) = hc_next" "link_of (SEvent m) = hc_next"
  by (simp_all add: fun_eq_iff)

lemma search_route:
  fixes sig :: "'m signal" and cs :: "('s, 'm) handlerContext list"
  assumes "dseg cs None as None" and "i < length as"
  shows "search (link_of sig) cs impl (as ! i) = Some (find (\<lambda>b. impl (hc_handler (cs ! b))) (route sig i as))"
proof -
  have "as = take i as @ as ! i # drop (Suc i) as" by (rule id_take_nth_drop [OF assms(2)])
  with assms(1) have seg: "dseg cs None (take i as @ as ! i # drop (Suc i) as) None" by simp
  then have fwd: "dseg cs (or_last None (take i as)) (as ! i # drop (Suc i) as) None"
    and bwd: "dseg cs None (take i as @ [as ! i]) (or_hd (drop (Suc i) as) None)" by simp_all
  show ?thesis using search_next [OF fwd, of impl] search_prev [OF bwd, of impl] by (cases sig) (simp_all add: link_of_eqs)
qed

lemma fire_route:
  assumes "chain_addrs w ms" and "i < length (chain_positions w ms)"
  shows "fire R (chain_positions w ms ! i) sig w =
    (case find (\<lambda>c. cast sig (hc_handler (pl_ctxs w ! c)) \<noteq> None) (route sig i (chain_positions w ms)) of
       None \<Rightarrow> (Done, w)
     | Some c \<Rightarrow> R c (the (cast sig (hc_handler (pl_ctxs w ! c)))) w)"
proof -
  have "dseg (pl_ctxs w) None (chain_positions w ms) None" using assms(1) by (simp add: chain_addrs_def chain_positions_def)
  note found = search_route [OF this assms(2), where sig = sig and impl = "\<lambda>h. cast sig h \<noteq> None"]
  show ?thesis
  proof (cases "find (\<lambda>c. cast sig (hc_handler (pl_ctxs w ! c)) \<noteq> None) (route sig i (chain_positions w ms))")
    case None
    then show ?thesis unfolding fire_def found by simp
  next
    case (Some c)
    then have "cast sig (hc_handler (pl_ctxs w ! c)) \<noteq> None" by (auto simp: find_Some_iff)
    with Some show ?thesis unfolding fire_def found by auto
  qed
qed

section \<open>More fuel\<close>

definition approx :: "outcome \<times> 'a \<Rightarrow> outcome \<times> 'a \<Rightarrow> bool" where
  "approx r r' \<longleftrightarrow> fst r = Unfinished \<or> r = r'"

definition below :: "('s, 'm) runner \<Rightarrow> ('s, 'm) runner \<Rightarrow> bool" where
  "below R R' \<longleftrightarrow> (\<forall>ctx body w. approx (R ctx body w) (R' ctx body w))"

named_theorems mono_rules \<open>operations of the framework are monotone in what a run of a handler gives\<close>

lemma approx_refl [mono_rules]: "approx r r"
  by (simp add: approx_def)

lemma below_run: "below R R' \<Longrightarrow> approx (R ctx body w) (R' ctx body w)"
  by (simp add: below_def)

lemma and_then_mono [mono_rules]:
  "approx r r' \<Longrightarrow> (\<And>w. approx (k w) (k' w)) \<Longrightarrow> approx (and_then r k) (and_then r' k')"
  by (cases r; cases r') (auto simp: approx_def and_then_def split: outcome.splits)

lemma recovering_mono [mono_rules]:
  "approx r r' \<Longrightarrow> (\<And>p w. approx (k p w) (k' p w)) \<Longrightarrow> approx (recovering r k) (recovering r' k')"
  by (cases r; cases r') (auto simp: approx_def recovering_def split: outcome.splits)

lemma on_channel_mono [mono_rules]: "approx r r' \<Longrightarrow> approx (on_channel w r) (on_channel w r')"
  by (simp add: approx_def on_channel_def)

lemma fire_mono [mono_rules]: "below R R' \<Longrightarrow> approx (fire R ctx sig w) (fire R' ctx sig w)"
  by (auto simp: fire_def approx_refl below_run split: option.splits)

lemma TryFireException_mono [mono_rules]:
  assumes "below R R'"
  shows "approx (TryFireException R ex w) (TryFireException R' ex w)"
  using fire_mono [OF assms, of "pl_head w" "SException ex" "w\<lparr>pl_handlingException := True\<rparr>"]
  by (auto simp: TryFireException_def approx_def split: prod.splits outcome.splits)

lemma FireChannelException_mono [mono_rules]:
  "below R R' \<Longrightarrow> approx (FireChannelException R ex w) (FireChannelException R' ex w)"
  using TryFireException_mono [of R R' ex w] by (auto simp: FireChannelException_def approx_def split: prod.splits)

lemma recover_error_mono [mono_rules]: "below R R' \<Longrightarrow> approx (recover_error R p w) (recover_error R' p w)"
  by (auto simp: recover_error_def mono_rules split: gopanic.splits)

lemma hc_Write_mono [mono_rules]: "below R R' \<Longrightarrow> approx (hc_Write R ctx m w) (hc_Write R' ctx m w)"
  unfolding hc_Write_def by (intro recovering_mono fire_mono recover_error_mono)

lemma hc_Trigger_mono [mono_rules]: "below R R' \<Longrightarrow> approx (hc_Trigger R ctx m w) (hc_Trigger R' ctx m w)"
  unfolding hc_Trigger_def by (intro recovering_mono fire_mono recover_error_mono)

lemma invokeMethod_mono [mono_rules]:
  assumes "below R R'" and "approx fn fn'"
  shows "approx (invokeMethod e R fn) (invokeMethod e R' fn')"
  unfolding invokeMethod_def
proof (rule recovering_mono [OF assms(2)])
  show "approx (if ch_closed w then (Done, w) else case TryFireException R (AsException (Some p)) w of
            (Unfinished, _, w') \<Rightarrow> (Unfinished, w') | (r, ok, w') \<Rightarrow> (r, if ok then w' else ch_Close e (AsException (Some p)) w'))
         (if ch_closed w then (Done, w) else case TryFireException R' (AsException (Some p)) w of
            (Unfinished, _, w') \<Rightarrow> (Unfinished, w') | (r, ok, w') \<Rightarrow> (r, if ok then w' else ch_Close e (AsException (Some p)) w'))"
    for p w
    using TryFireException_mono [OF assms(1), of "AsException (Some p)" w]
    by (auto simp: approx_def split: prod.splits outcome.splits)
qed

lemma ch_Trigger_mono [mono_rules]: "below R R' \<Longrightarrow> approx (ch_Trigger e R m w) (ch_Trigger e R' m w)"
  by (simp add: ch_Trigger_def mono_rules)

lemma run_step_mono:
  assumes "below R R'"
  shows "below (run_step e R) (run_step e R')"
  unfolding below_def
proof (intro allI)
  fix ctx body w
  show "approx (run_step e R ctx body w) (run_step e R' ctx body w)"
    by (cases body) (auto simp: run_step_def ch_Write_def intro!: mono_rules assms below_run [OF assms] split: prod.splits)
qed

lemma run_mono: "f \<le> g \<Longrightarrow> below (run f e) (run g e)"
proof (induction f arbitrary: g)
  case 0
  then show ?case by (simp add: below_def approx_def)
next
  case (Suc f)
  then obtain g' where "g = Suc g'" by (metis Suc_le_D)
  with Suc show ?case by (simp add: run_step_mono)
qed

section \<open>What a run keeps\<close>

text \<open>
  A relation between the states before and after, checked on the elementary changes of the channel,
  holds for every run that finishes. The exception chain is the one place where the framework writes
  the pipeline, so it has a law of its own.
\<close>

definition ends_in :: "('w \<Rightarrow> 'w \<Rightarrow> bool) \<Rightarrow> 'w \<Rightarrow> outcome \<times> 'w \<Rightarrow> bool" where
  "ends_in Q w r \<longleftrightarrow> fst r = Unfinished \<or> Q w (snd r)"

definition keeps :: "(('s, 'm) channel \<Rightarrow> ('s, 'm) channel \<Rightarrow> bool) \<Rightarrow> ('s, 'm) runner \<Rightarrow> bool" where
  "keeps Q R \<longleftrightarrow> (\<forall>ctx body w. ends_in Q w (R ctx body w))"

lemma fire_keeps: "keeps Q R \<Longrightarrow> Q w w \<Longrightarrow> ends_in Q w (fire R ctx sig w)"
  by (auto simp: fire_def keeps_def ends_in_def split: option.splits)

locale channel_relation =
  fixes e :: "'s chan_env" and Q :: "('s, 'm) channel \<Rightarrow> ('s, 'm) channel \<Rightarrow> bool"
  assumes Q_refl: "Q w w" and Q_trans: "Q w w' \<Longrightarrow> Q w' w'' \<Longrightarrow> Q w w''"
    and Q_user: "Q w (w\<lparr>ch_user := u\<rparr>)" and Q_close: "Q w (ch_Close e err w)"
    and Q_exception: "keeps Q (run f e) \<Longrightarrow> TryFireException (run f e) ex w = (r, ok, w') \<Longrightarrow> r \<noteq> Unfinished \<Longrightarrow> Q w w'"
begin

lemma ends_refl: "ends_in Q w (r, w)"
  by (simp add: ends_in_def Q_refl)

lemma ends_and_then: "ends_in Q w r \<Longrightarrow> (\<And>w'. ends_in Q w' (k w')) \<Longrightarrow> ends_in Q w (and_then r k)"
  by (cases r; cases "fst r") (auto simp: ends_in_def and_then_def intro: Q_trans)

lemma ends_recovering: "ends_in Q w r \<Longrightarrow> (\<And>p w'. ends_in Q w' (k p w')) \<Longrightarrow> ends_in Q w (recovering r k)"
  by (cases r; cases "fst r") (auto simp: ends_in_def recovering_def intro: Q_trans)

lemma ends_on_channel: "ends_in Q w r \<Longrightarrow> ends_in Q w (on_channel w r)"
  by (simp add: on_channel_def ends_refl)

lemma ends_after: "Q w w' \<Longrightarrow> ends_in Q w' r \<Longrightarrow> ends_in Q w r"
  by (auto simp: ends_in_def intro: Q_trans)

lemma Write1_keeps: "Q w (snd (ch_Write1 e m w))"
  by (auto simp: ch_Write1_def Q_user split: prod.splits)

lemma exception_keeps: "keeps Q (run f e) \<Longrightarrow> ends_in Q w (FireChannelException (run f e) ex w)"
  using Q_exception [of f ex w] by (auto simp: FireChannelException_def ends_in_def split: prod.splits)

lemma recover_error_keeps: "keeps Q (run f e) \<Longrightarrow> ends_in Q w (recover_error (run f e) p w)"
  by (auto simp: recover_error_def exception_keeps ends_refl split: gopanic.splits)

lemma invokeMethod_keeps:
  assumes "keeps Q (run f e)" and "ends_in Q w fn"
  shows "ends_in Q w (invokeMethod e (run f e) fn)"
  unfolding invokeMethod_def
proof (rule ends_recovering [OF assms(2)])
  fix p and w' :: "('s, 'm) channel"
  obtain r ok w'' where tr: "TryFireException (run f e) (AsException (Some p)) w' = (r, ok, w'')" by (metis surj_pair)
  have "r \<noteq> Unfinished \<Longrightarrow> Q w' w''" using Q_exception [OF assms(1) tr] .
  then show "ends_in Q w' (if ch_closed w' then (Done, w') else case TryFireException (run f e) (AsException (Some p)) w' of
      (Unfinished, _, w'') \<Rightarrow> (Unfinished, w'') | (r, ok, w'') \<Rightarrow> (r, if ok then w'' else ch_Close e (AsException (Some p)) w''))"
    using Q_refl Q_close Q_trans by (cases r) (auto simp: tr ends_in_def)
qed

lemma run_step_keeps:
  assumes "keeps Q (run f e)"
  shows "keeps Q (run_step e (run f e))"
  unfolding keeps_def
proof (intro allI)
  fix ctx w and body :: "('s, 'm) prog"
  note R = assms [unfolded keeps_def, rule_format]
  note fires = fire_keeps [OF assms Q_refl]
  show "ends_in Q w (run_step e (run f e) ctx body w)"
  proof (cases body)
    case (Local g)
    then show ?thesis using R by (auto simp: run_step_def intro: ends_after [OF Q_user] split: prod.splits)
  next
    case (ChWrite1 m rest)
    then show ?thesis using R Write1_keeps [of w m]
      by (auto simp: run_step_def intro!: ends_on_channel intro: ends_after split: prod.splits)
  next
    case (ChClose err rest)
    then show ?thesis using R by (auto simp: run_step_def intro!: ends_on_channel intro: ends_after [OF Q_close])
  qed (auto simp: run_step_def hc_Write_def hc_Trigger_def ch_Write_def ch_Trigger_def
      intro!: ends_refl ends_on_channel ends_and_then ends_recovering fires R exception_keeps [OF assms]
        recover_error_keeps [OF assms] invokeMethod_keeps [OF assms])
qed

lemma run_keeps: "keeps Q (run f e)"
proof (induction f)
  case 0
  show ?case by (simp add: keeps_def ends_in_def)
next
  case (Suc f)
  then show ?case by (simp add: run_step_keeps)
qed

lemma fire_run_keeps: "fire (run f e) ctx sig w = (r, w') \<Longrightarrow> r \<noteq> Unfinished \<Longrightarrow> Q w w'"
  using fire_keeps [OF run_keeps [of f] Q_refl, where w = w and ctx = ctx and sig = sig] by (simp add: ends_in_def)

lemma TryFireException_keeps: "TryFireException (run f e) ex w = (r, ok, w') \<Longrightarrow> r \<noteq> Unfinished \<Longrightarrow> Q w w'"
  by (rule Q_exception [OF run_keeps])

end

text \<open>Runs do not change the chain, never clear the exception flag of an outer run, and never reopen a channel.\<close>

definition same_chain :: "('s, 'm) channel \<Rightarrow> ('s, 'm) channel \<Rightarrow> bool" where
  "same_chain w w' \<longleftrightarrow> pl_ctxs w' = pl_ctxs w \<and> pl_head w' = pl_head w \<and> pl_tail w' = pl_tail w
     \<and> pl_size w' = pl_size w \<and> pl_served w' = pl_served w"

definition flag_stays :: "('s, 'm) channel \<Rightarrow> ('s, 'm) channel \<Rightarrow> bool" where
  "flag_stays w w' \<longleftrightarrow> (pl_handlingException w \<longrightarrow> pl_handlingException w')"

definition closed_stays :: "('s, 'm) channel \<Rightarrow> ('s, 'm) channel \<Rightarrow> bool" where
  "closed_stays w w' \<longleftrightarrow> (ch_closed w \<longrightarrow> ch_closed w')"

lemma TryFireException_cases:
  assumes "TryFireException R ex w = (r, ok, w')" and "r \<noteq> Unfinished"
  obtains (Reentered) "pl_handlingException w" "r = Done" "\<not> ok" "w' = w"
  | (Handled) w1 where "\<not> pl_handlingException w" "r = Done" ok "w' = w1\<lparr>pl_handlingException := False\<rparr>"
      "fire R (pl_head w) (SException ex) (w\<lparr>pl_handlingException := True\<rparr>) = (Done, w1)"
  | (Failed) p where "\<not> pl_handlingException w" "r = Done" "\<not> ok"
      "fire R (pl_head w) (SException ex) (w\<lparr>pl_handlingException := True\<rparr>) = (Raise p, w')"
  using assms by (auto simp: TryFireException_def split: if_splits prod.splits outcome.splits)

lemma TryFireException_via_fire:
  assumes "keeps Q R" and "TryFireException R ex w = (r, ok, w')" and "r \<noteq> Unfinished"
    and "\<not> pl_handlingException w" and "\<And>v. Q v v"
  shows "\<exists>w1. Q (w\<lparr>pl_handlingException := True\<rparr>) w1 \<and> (w' = w1 \<or> w' = w1\<lparr>pl_handlingException := False\<rparr>)"
  using assms(2,3)
proof (cases rule: TryFireException_cases)
  case (Handled w1)
  with fire_keeps [OF assms(1), of "w\<lparr>pl_handlingException := True\<rparr>" "pl_head w" "SException ex"] assms(5)
  show ?thesis by (auto simp: ends_in_def)
next
  case (Failed p)
  with fire_keeps [OF assms(1), of "w\<lparr>pl_handlingException := True\<rparr>" "pl_head w" "SException ex"] assms(5)
  show ?thesis by (auto simp: ends_in_def)
qed (use assms(4) in simp)

lemma ch_Close_simps [simp]:
  "pl_ctxs (ch_Close e err w) = pl_ctxs w" "pl_head (ch_Close e err w) = pl_head w"
  "pl_tail (ch_Close e err w) = pl_tail w" "pl_size (ch_Close e err w) = pl_size w"
  "pl_served (ch_Close e err w) = pl_served w" "pl_handlingException (ch_Close e err w) = pl_handlingException w"
  "ch_closed (ch_Close e err w)"
  by (auto simp: ch_Close_def split: prod.splits)

lemma same_chain_exception:
  assumes "keeps same_chain R" and "TryFireException R ex w = (r, ok, w')" and "r \<noteq> Unfinished"
  shows "same_chain w w'"
proof (cases "pl_handlingException w")
  case False
  from TryFireException_via_fire [OF assms this] show ?thesis by (auto simp: same_chain_def)
qed (use assms in \<open>auto simp: TryFireException_def same_chain_def\<close>)

lemma closed_stays_exception:
  assumes "keeps closed_stays R" and "TryFireException R ex w = (r, ok, w')" and "r \<noteq> Unfinished"
  shows "closed_stays w w'"
proof (cases "pl_handlingException w")
  case False
  from TryFireException_via_fire [OF assms this] show ?thesis by (auto simp: closed_stays_def)
qed (use assms in \<open>auto simp: TryFireException_def closed_stays_def\<close>)

interpretation same: channel_relation e same_chain
  by unfold_locales (erule (2) same_chain_exception | simp add: same_chain_def)+

interpretation flag: channel_relation e flag_stays
  by unfold_locales (auto simp: flag_stays_def TryFireException_def)

interpretation closed: channel_relation e closed_stays
  by unfold_locales (erule (2) closed_stays_exception | simp add: closed_stays_def)+

section \<open>Dispatch, exceptions and traffic\<close>

text \<open>C18: a signal that is fired from a context reaches the nearest handler that implements its interface,
  behind the context in the chain, or before it for writes, and no other; when there is none it is dropped.
  The walk over the atomic pointers of the contexts is the search in the list of handlers.\<close>

theorem signal_reaches_nearest_handler:
  assumes "chain_addrs w ms" and "i < length ms + 2"
  shows "fire R (chain_positions w ms ! i) sig w =
    (case find (\<lambda>c. cast sig (hc_handler (pl_ctxs w ! c)) \<noteq> None) (route sig i (chain_positions w ms)) of
       None \<Rightarrow> (Done, w)
     | Some c \<Rightarrow> R c (the (cast sig (hc_handler (pl_ctxs w ! c)))) w)"
  by (rule fire_route [OF assms(1)]) (use assms(2) in \<open>simp add: chain_positions_def\<close>)

text \<open>The exception chain is never entered twice. A call that finds it running does nothing and reports
  failure; a call that starts it reports success exactly when the flag is clear again afterwards; an
  exception handler that panics leaves it set, and then no run of any handler and no traffic clears it.
  \<open>TryFireException\<close> itself never panics.\<close>

theorem exception_chain_not_reentered:
  assumes "TryFireException (run f e) ex w = (r, ok, w')" and "r \<noteq> Unfinished"
  shows "r = Done \<and> (pl_handlingException w \<longrightarrow> \<not> ok \<and> w' = w)
    \<and> (\<not> pl_handlingException w \<longrightarrow> (ok \<longleftrightarrow> \<not> pl_handlingException w'))
    \<and> (\<forall>g ctx body. pl_handlingException w' \<longrightarrow> fst (run g e ctx body w') \<noteq> Unfinished
         \<longrightarrow> pl_handlingException (snd (run g e ctx body w')))"
proof -
  have keep: "pl_handlingException v \<Longrightarrow> fst (run g e ctx body v) \<noteq> Unfinished
      \<Longrightarrow> pl_handlingException (snd (run g e ctx body v))" for v g ctx and body :: "('a, 'b) prog"
    using flag.run_keeps [of g e] by (auto simp: keeps_def ends_in_def flag_stays_def)
  show ?thesis
    using assms
  proof (cases rule: TryFireException_cases)
    case Reentered
    with keep show ?thesis by simp
  next
    case (Handled w1)
    with keep show ?thesis by simp
  next
    case (Failed p)
    then have "pl_handlingException w'"
      using flag.fire_run_keeps [OF Failed(4)] by (simp add: flag_stays_def)
    with Failed keep show ?thesis by simp
  qed
qed

text \<open>A chain in which only the tail handles exceptions.\<close>

definition quiet :: "('s, 'm) channel \<Rightarrow> bool" where
  "quiet w \<longleftrightarrow> pl_served w \<and> (\<exists>ms. chain_addrs w ms \<and> (\<forall>h\<in>set (handlers_at w ms). HandleException h = None))"

lemma quiet_same: "same_chain w w' \<Longrightarrow> quiet w \<Longrightarrow> quiet w'"
  by (simp add: quiet_def same_chain_def chain_addrs_def handlers_at_def)

lemma quiet_fire:
  assumes "quiet w"
  shows "fire R (pl_head w) (SException ex) w = R (pl_tail w) (ChClose ex Returns) w"
proof -
  obtain ms where ok: "chain_addrs w ms" and none: "\<forall>h\<in>set (handlers_at w ms). HandleException h = None"
    using assms by (auto simp: quiet_def)
  have "find P (xs @ [y]) = Some y" if "\<forall>x\<in>set xs. \<not> P x" "P y" for P and xs :: "nat list" and y
    using that by (induction xs) auto
  moreover have "\<forall>c\<in>set ms. HandleException (hc_handler (pl_ctxs w ! c)) = None" using none by (simp add: handlers_at_def)
  moreover have "HandleException (hc_handler (pl_ctxs w ! pl_tail w)) = Some (\<lambda>ex. ChClose ex Returns)"
    using ok by (simp add: chain_addrs_def tailHandler_def)
  ultimately have "find (\<lambda>c. HandleException (hc_handler (pl_ctxs w ! c)) \<noteq> None) (ms @ [pl_tail w]) = Some (pl_tail w)"
    by simp
  then show ?thesis
    using fire_route [OF ok, where i = 0 and R = R and sig = "SException ex"] ok
    by (simp add: chain_positions_def chain_addrs_def tailHandler_def)
qed

lemma run_close:
  assumes "2 \<le> f" and "pl_served w"
  shows "run f e ctx (ChClose ex Returns) w = (Done, ch_Close e ex w)"
proof -
  obtain g where "f = Suc (Suc g)" using assms(1) by (auto simp: numeral_2_eq_2 dest: Suc_le_D)
  with assms(2) show ?thesis by (simp add: run_step_def on_channel_def)
qed

lemma run_close_short: "f < 2 \<Longrightarrow> pl_served w \<Longrightarrow> fst (run f e ctx (ChClose ex Returns) w) = Unfinished"
  by (auto simp: less_2_cases_iff run_step_def on_channel_def)

lemma Close_closed [simp]: "(ch_Close e err w)\<lparr>ch_closed := True\<rparr> = ch_Close e err w"
  by (cases w) (auto simp: ch_Close_def split: prod.splits)

lemma Close_under_flag:
  "\<not> pl_handlingException w \<Longrightarrow> (ch_Close e ex (w\<lparr>pl_handlingException := True\<rparr>))\<lparr>pl_handlingException := False\<rparr> = ch_Close e ex w"
  by (cases w) (auto simp: ch_Close_def split: prod.splits)

lemma quiet_exception:
  assumes "quiet w" and "\<not> pl_handlingException w"
  shows "if 2 \<le> f then TryFireException (run f e) ex w = (Done, True, ch_Close e ex w)
         else fst (TryFireException (run f e) ex w) = Unfinished"
proof -
  let ?w = "w\<lparr>pl_handlingException := True\<rparr>"
  have "quiet ?w" using assms(1) by (rule quiet_same [rotated]) (simp add: same_chain_def)
  then have fire: "fire R (pl_head w) (SException ex) ?w = R (pl_tail w) (ChClose ex Returns) ?w" for R
    using quiet_fire [of ?w R ex] by simp
  have served: "pl_served ?w" using assms(1) by (simp add: quiet_def)
  show ?thesis
  proof (cases "2 \<le> f")
    case True
    then show ?thesis using run_close [OF True served] assms(2)
      by (simp add: TryFireException_def fire Close_under_flag)
  next
    case False
    then show ?thesis using run_close_short [OF _ served, of f e "pl_tail w" ex] assms(2)
      by (auto simp: TryFireException_def fire split: prod.splits outcome.splits)
  qed
qed

definition quiet_stays :: "('s, 'm) channel \<Rightarrow> ('s, 'm) channel \<Rightarrow> bool" where
  "quiet_stays w w' \<longleftrightarrow> same_chain w w' \<and> (quiet w \<longrightarrow> \<not> pl_handlingException w \<longrightarrow> \<not> pl_handlingException w')"

lemma quiet_stays_exception:
  assumes "TryFireException (run f e) ex w = (r, ok, w')" and "r \<noteq> Unfinished"
  shows "quiet_stays w w'"
  using same.TryFireException_keeps [OF assms] quiet_exception [of w f e ex] assms
  by (auto simp: quiet_stays_def split: if_splits)

lemma quiet_stays_trans: "quiet_stays w w' \<Longrightarrow> quiet_stays w' w'' \<Longrightarrow> quiet_stays w w''"
  using quiet_same [of w w'] same.Q_trans [of w w' w''] by (auto simp: quiet_stays_def)

interpretation quiet: channel_relation e quiet_stays
  by unfold_locales (erule (1) quiet_stays_exception | erule (1) quiet_stays_trans
      | simp add: quiet_stays_def same_chain_def)+

text \<open>C9: no panic of a handler is lost. When a read handler panics and no handler but the tail of the
  chain handles exceptions, \<open>OnTraffic\<close> returns, the error of the panic reaches the tail and the channel
  is closed with it. The one exception is the panic with the error for incomplete packets, which leaves
  the connection as it is and waits for more bytes. A panic whose value is not an error closes the
  channel with no error.\<close>

theorem unhandled_panic_closes_channel:
  assumes "chain_addrs w ms" and "\<forall>h\<in>set (handlers_at w ms). HandleException h = None"
    and "pl_served w" and "\<not> pl_handlingException w" and "2 \<le> f"
    and "fire (run f e) (pl_head w) (SRead rd) w = (Raise p, w1)"
  shows "OnTraffic (run f e) buffered wake rd (Context True) w =
    (if p = ErrorPanic ErrIncompletePacket then ((Done, ActNone), w1)
     else ((Done, ActNone), (ch_Close e (case p of ErrorPanic err \<Rightarrow> Some err | ValuePanic _ \<Rightarrow> None) w1)\<lparr>ch_closed := True\<rparr>))"
proof -
  have "quiet w" using assms(1-3) by (auto simp: quiet_def)
  moreover have "quiet_stays w w1" using quiet.fire_run_keeps [OF assms(6)] by simp
  ultimately have "quiet w1" and "\<not> pl_handlingException w1"
    using assms(4) quiet_same [of w w1] by (auto simp: quiet_stays_def)
  from quiet_exception [OF this, of f e] assms(5)
  show "OnTraffic (run f e) buffered wake rd (Context True) w =
    (if p = ErrorPanic ErrIncompletePacket then ((Done, ActNone), w1)
     else ((Done, ActNone), (ch_Close e (case p of ErrorPanic err \<Rightarrow> Some err | ValuePanic _ \<Rightarrow> None) w1)\<lparr>ch_closed := True\<rparr>))"
    by (simp add: OnTraffic_def assms(6))
qed

section \<open>Termination\<close>

text \<open>A family of results, one for each fuel, settles when some fuel finishes it and more does not change it.\<close>

definition settles :: "(nat \<Rightarrow> outcome \<times> 'a) \<Rightarrow> bool" where
  "settles x \<longleftrightarrow> (\<forall>f g. f \<le> g \<longrightarrow> approx (x f) (x g)) \<and> (\<exists>f. fst (x f) \<noteq> Unfinished)"

lemma settles_const: "r \<noteq> Unfinished \<Longrightarrow> settles (\<lambda>f. (r, w))"
  by (simp add: settles_def approx_def)

lemma settlesD: "settles x \<Longrightarrow> f \<le> g \<Longrightarrow> approx (x f) (x g)"
  by (simp add: settles_def)

lemma settlesE:
  assumes "settles x"
  obtains f r w where "r \<noteq> Unfinished" and "\<And>g. f \<le> g \<Longrightarrow> x g = (r, w)"
proof -
  obtain f where f: "fst (x f) \<noteq> Unfinished" using assms by (auto simp: settles_def)
  have "x g = (fst (x f), snd (x f))" if "f \<le> g" for g
  proof -
    have "fst (x f) = Unfinished \<or> x f = x g" using settlesD [OF assms that] by (simp only: approx_def)
    with f show ?thesis by (elim disjE) simp_all
  qed
  with f show thesis by (rule that)
qed

lemma settlesI: "(\<And>f g. f \<le> g \<Longrightarrow> approx (x f) (x g)) \<Longrightarrow> fst (x f) \<noteq> Unfinished \<Longrightarrow> settles x"
  by (auto simp: settles_def)

text \<open>Sequencing: \<open>Q\<close> holds of the state in which the first part ends, for whatever reason.\<close>

lemma settles_then:
  assumes "settles x" and "\<And>f. ends_in (\<lambda>_. Q) w (x f)" and "\<And>w'. Q w' \<Longrightarrow> settles (k w')"
    and mono: "\<And>f g. f \<le> g \<Longrightarrow> approx (and_then (x f) (\<lambda>w. k w f)) (and_then (x g) (\<lambda>w. k w g))"
  shows "settles (\<lambda>f. and_then (x f) (\<lambda>w. k w f))"
proof -
  obtain f r w1 where r: "r \<noteq> Unfinished" and x: "\<And>g. f \<le> g \<Longrightarrow> x g = (r, w1)" using assms(1) by (rule settlesE) blast
  show ?thesis
  proof (cases r)
    case Done
    have "Q w1" using assms(2) [of f] r by (simp add: x ends_in_def)
    then obtain g r2 w2 where "r2 \<noteq> Unfinished" and "\<And>h. g \<le> h \<Longrightarrow> k w1 h = (r2, w2)"
      using assms(3) by (meson settlesE)
    with Done show ?thesis by (intro settlesI [OF mono, where f = "max f g"]) (auto simp: x and_then_def)
  next
    case (Raise p)
    then show ?thesis by (intro settlesI [OF mono, where f = f]) (auto simp: x and_then_def)
  qed (use r in simp)
qed

lemma settles_recovering:
  assumes "settles x" and "\<And>f. ends_in (\<lambda>_. Q) w (x f)" and "\<And>p w'. Q w' \<Longrightarrow> settles (k p w')"
    and mono: "\<And>f g. f \<le> g \<Longrightarrow> approx (recovering (x f) (\<lambda>p w. k p w f)) (recovering (x g) (\<lambda>p w. k p w g))"
  shows "settles (\<lambda>f. recovering (x f) (\<lambda>p w. k p w f))"
proof -
  obtain f r w1 where r: "r \<noteq> Unfinished" and x: "\<And>g. f \<le> g \<Longrightarrow> x g = (r, w1)" using assms(1) by (rule settlesE) blast
  show ?thesis
  proof (cases r)
    case Done
    then show ?thesis by (intro settlesI [OF mono, where f = f]) (auto simp: x recovering_def)
  next
    case (Raise p)
    have "Q w1" using assms(2) [of f] r by (simp add: x ends_in_def)
    then obtain g r2 w2 where "r2 \<noteq> Unfinished" and "\<And>h. g \<le> h \<Longrightarrow> k p w1 h = (r2, w2)"
      using assms(3) by (meson settlesE)
    with Raise show ?thesis by (intro settlesI [OF mono, where f = "max f g"]) (auto simp: x recovering_def)
  qed (use r in simp)
qed

text \<open>Bodies that only send some signals onwards; \<open>wide\<close> ones may also write through the context or
  the channel and raise exceptions.\<close>

primrec tame :: "('m signal \<Rightarrow> bool) \<Rightarrow> bool \<Rightarrow> ('s, 'm) prog \<Rightarrow> bool" where
  "tame S wide Returns \<longleftrightarrow> True"
| "tame S wide (Panic p) \<longleftrightarrow> True"
| "tame S wide (Local f) \<longleftrightarrow> (\<forall>s. snd ((map_prod id (tame S wide) \<circ> f) s))"
| "tame S wide (Fire sig rest) \<longleftrightarrow> S sig \<and> tame S wide rest"
| "tame S wide (CtxWrite m rest) \<longleftrightarrow> wide \<and> tame S wide rest"
| "tame S wide (CtxTrigger ev rest) \<longleftrightarrow> wide \<and> S (SEvent ev) \<and> tame S wide rest"
| "tame S wide (ChWrite m rest) \<longleftrightarrow> wide \<and> (\<forall>x. (tame S wide \<circ> rest) x)"
| "tame S wide (ChTrigger ev rest) \<longleftrightarrow> False"
| "tame S wide (ChWrite1 m rest) \<longleftrightarrow> (\<forall>x. (tame S wide \<circ> rest) x)"
| "tame S wide (ChClose err rest) \<longleftrightarrow> tame S wide rest"
| "tame S wide (ChIsActive rest) \<longleftrightarrow> (\<forall>x. (tame S wide \<circ> rest) x)"
| "tame S wide (ChException ex rest) \<longleftrightarrow> wide \<and> tame S wide rest"
| "tame S wide (Recovering inner h rest) \<longleftrightarrow> tame S wide inner \<and> (\<forall>p. (tame S wide \<circ> h) p) \<and> tame S wide rest"

fun is_write :: "'m signal \<Rightarrow> bool" where
  "is_write (SWrite m) = True"
| "is_write _ = False"

fun is_exception :: "'m signal \<Rightarrow> bool" where
  "is_exception (SException e) = True"
| "is_exception _ = False"

definition is_inbound :: "'m signal \<Rightarrow> bool" where
  "is_inbound sig \<longleftrightarrow> \<not> is_write sig \<and> \<not> is_exception sig"

definition ordinary :: "('s, 'm) Handler \<Rightarrow> bool" where
  "ordinary h \<longleftrightarrow> (\<forall>sig body. cast sig h = Some body \<longrightarrow>
     (if is_write sig then tame is_write False body
      else if is_exception sig then tame is_exception False body
      else tame is_inbound True body))"

text \<open>The operations of the framework settle when the walks they start do.\<close>

lemma settles_run:
  assumes "settles (\<lambda>f. run_step e (run f e) ctx body w)"
  shows "settles (\<lambda>f. run f e ctx body w)"
proof -
  obtain f where "fst (run_step e (run f e) ctx body w) \<noteq> Unfinished" using assms by (auto simp: settles_def)
  then show ?thesis by (intro settlesI [where f = "Suc f"] below_run run_mono) simp_all
qed

lemma settles_try:
  assumes "settles (\<lambda>f. fire (run f e) (pl_head w) (SException ex) (w\<lparr>pl_handlingException := True\<rparr>))"
  shows "settles (\<lambda>f. TryFireException (run f e) ex w)"
proof -
  obtain f r w1 where "r \<noteq> Unfinished"
      and "\<And>g. f \<le> g \<Longrightarrow> fire (run g e) (pl_head w) (SException ex) (w\<lparr>pl_handlingException := True\<rparr>) = (r, w1)"
    using assms by (rule settlesE) blast
  then show ?thesis
    by (intro settlesI [where f = f] TryFireException_mono run_mono) (auto simp: TryFireException_def split: outcome.splits)
qed

lemma settles_exception:
  assumes "settles (\<lambda>f. TryFireException (run f e) ex w)"
  shows "settles (\<lambda>f. FireChannelException (run f e) ex w)"
proof -
  obtain f r x where "r \<noteq> Unfinished" and "\<And>g. f \<le> g \<Longrightarrow> TryFireException (run g e) ex w = (r, x)"
    using assms by (rule settlesE) blast
  then show ?thesis
    by (intro settlesI [where f = f] FireChannelException_mono run_mono) (auto simp: FireChannelException_def split: prod.splits)
qed

text \<open>The walks that settle from a state with a given chain.\<close>

definition walks_settle :: "'s chan_env \<Rightarrow> ('s, 'm) channel \<Rightarrow> nat \<Rightarrow> ('m signal \<Rightarrow> bool) \<Rightarrow> bool" where
  "walks_settle e w0 ctx S \<longleftrightarrow> (\<forall>sig w. S sig \<longrightarrow> same_chain w0 w \<longrightarrow> settles (\<lambda>f. fire (run f e) ctx sig w))"

lemma fire_ends: "same_chain w0 w \<Longrightarrow> ends_in (\<lambda>_. same_chain w0) w (fire (run f e) ctx sig w)"
  using fire_keeps [OF same.run_keeps [of f e] same.Q_refl, of w ctx sig] by (auto simp: ends_in_def intro: same.Q_trans)

lemma run_ends: "same_chain w0 w \<Longrightarrow> ends_in (\<lambda>_. same_chain w0) w (run f e ctx body w)"
  using same.run_keeps [of f e] by (auto simp: keeps_def ends_in_def intro: same.Q_trans)

lemma settles_recover_error:
  assumes "walks_settle e w0 (pl_head w0) is_exception" and "same_chain w0 w"
  shows "settles (\<lambda>f. TryFireException (run f e) ex w)" and "settles (\<lambda>f. recover_error (run f e) p w)"
proof -
  have "pl_head w = pl_head w0" and "same_chain w0 (w\<lparr>pl_handlingException := True\<rparr>)"
    using assms(2) by (simp_all add: same_chain_def)
  with assms(1) show tr: "settles (\<lambda>f. TryFireException (run f e) ex w)" for ex
    by (intro settles_try) (simp add: walks_settle_def)
  show "settles (\<lambda>f. recover_error (run f e) p w)"
    using settles_exception [OF tr] by (cases p) (simp_all add: recover_error_def settles_const)
qed

lemma recover_error_ends: "same_chain w0 w \<Longrightarrow> ends_in (\<lambda>_. same_chain w0) w (recovering (fire (run f e) ctx sig w) (recover_error (run f e)))"
proof -
  assume "same_chain w0 w"
  have "ends_in same_chain w (recovering (fire (run f e) ctx sig w) (recover_error (run f e)))"
    by (intro same.ends_recovering [OF fire_keeps [OF same.run_keeps same.Q_refl]] same.recover_error_keeps same.run_keeps)
  with \<open>same_chain w0 w\<close> show ?thesis by (auto simp: ends_in_def intro: same.Q_trans)
qed

lemma settles_recovered_walk:
  assumes "walks_settle e w0 (pl_head w0) is_exception" and "walks_settle e w0 ctx S" and "S sig" and "same_chain w0 w"
  shows "settles (\<lambda>f. recovering (fire (run f e) ctx sig w) (recover_error (run f e)))"
proof (rule settles_recovering [where k = "\<lambda>p w f. recover_error (run f e) p w", OF _ fire_ends [OF assms(4)]])
  show "settles (\<lambda>f. fire (run f e) ctx sig w)" using assms by (simp add: walks_settle_def)
qed (use settles_recover_error(2) [OF assms(1)] in \<open>auto intro!: recovering_mono fire_mono recover_error_mono run_mono\<close>)

lemma settles_invokeMethod:
  assumes "walks_settle e w0 (pl_head w0) is_exception" and "settles (\<lambda>f. fire (run f e) ctx sig w)" and "same_chain w0 w"
  shows "settles (\<lambda>f. invokeMethod e (run f e) (fire (run f e) ctx sig w))"
proof -
  have mono: "f \<le> g \<Longrightarrow> approx (invokeMethod e (run f e) (fire (run f e) ctx sig w)) (invokeMethod e (run g e) (fire (run g e) ctx sig w))" for f g
    by (intro invokeMethod_mono fire_mono run_mono)
  obtain f r w1 where r: "r \<noteq> Unfinished" and x: "\<And>g. f \<le> g \<Longrightarrow> fire (run g e) ctx sig w = (r, w1)"
    using assms(2) by (rule settlesE) blast
  have "same_chain w0 w1" using fire_ends [OF assms(3), of f e ctx sig] r by (simp add: x ends_in_def)
  show ?thesis
  proof (cases r)
    case Done
    then show ?thesis by (intro settlesI [OF mono, where f = f]) (auto simp: x invokeMethod_def recovering_def)
  next
    case (Raise p)
    obtain g r2 z where "r2 \<noteq> Unfinished" and "\<And>h. g \<le> h \<Longrightarrow> TryFireException (run h e) (AsException (Some p)) w1 = (r2, z)"
      using settles_recover_error(1) [OF assms(1) \<open>same_chain w0 w1\<close>] by (rule settlesE) blast
    with Raise show ?thesis
      by (intro settlesI [OF mono, where f = "max f g"]) (auto simp: x invokeMethod_def recovering_def split: outcome.splits prod.splits)
  qed (use r in simp)
qed

lemma settles_seq:
  assumes "settles x" and "\<And>f. ends_in (\<lambda>_. same_chain w0) w (x f)"
    and "\<And>w'. same_chain w0 w' \<Longrightarrow> settles (\<lambda>f. run f e ctx rest w')"
  shows "settles (\<lambda>f. and_then (x f) (run f e ctx rest))"
proof (rule settles_then [where k = "\<lambda>w f. run f e ctx rest w", OF assms(1,2,3)])
  show "approx (and_then (x f) (run f e ctx rest)) (and_then (x g) (run g e ctx rest))" if "f \<le> g" for f g
    by (rule and_then_mono [OF settlesD [OF assms(1) that] below_run [OF run_mono [OF that]]])
qed

lemma settles_on_channel:
  assumes "settles x"
  shows "settles (\<lambda>f. on_channel w (x f))"
  using assms by (cases "pl_served w") (simp_all add: on_channel_def settles_const)

lemma invokeMethod_ends:
  assumes "same_chain w0 w"
  shows "ends_in (\<lambda>_. same_chain w0) w (invokeMethod e (run f e) (fire (run f e) ctx sig w))"
proof -
  have "ends_in same_chain w (invokeMethod e (run f e) (fire (run f e) ctx sig w))"
    by (intro same.invokeMethod_keeps fire_keeps same.run_keeps same.Q_refl)
  with assms show ?thesis by (auto simp: ends_in_def intro: same.Q_trans)
qed

lemma exception_ends:
  assumes "same_chain w0 w"
  shows "ends_in (\<lambda>_. same_chain w0) w (FireChannelException (run f e) ex w)"
proof -
  have "ends_in same_chain w (FireChannelException (run f e) ex w)" by (intro same.exception_keeps same.run_keeps)
  with assms show ?thesis by (auto simp: ends_in_def intro: same.Q_trans)
qed

lemma tame_body_settles:
  assumes S: "walks_settle e w0 ctx S"
    and W: "wide \<Longrightarrow> walks_settle e w0 ctx is_write" "wide \<Longrightarrow> walks_settle e w0 (pl_tail w0) is_write"
    and E: "wide \<Longrightarrow> walks_settle e w0 (pl_head w0) is_exception"
  shows "tame S wide body \<Longrightarrow> same_chain w0 w \<Longrightarrow> settles (\<lambda>f. run f e ctx body w)"
proof (induction body arbitrary: w)
  case Returns
  show ?case by (rule settles_run) (simp add: run_step_def settles_const)
next
  case (Panic p)
  show ?case by (rule settles_run) (simp add: run_step_def settles_const)
next
  case (Local g)
  obtain u rest where g: "g (ch_user w) = (u, rest)" by fastforce
  have "tame S wide rest" using Local.prems(1) g by (auto simp: map_prod_def split: prod.splits dest: spec [of _ "ch_user w"])
  then have "settles (\<lambda>f. run f e ctx rest (w\<lparr>ch_user := u\<rparr>))"
    using Local.IH [of "g (ch_user w)" rest "w\<lparr>ch_user := u\<rparr>"] Local.prems(2) rangeI [of g "ch_user w"]
    by (simp add: g same_chain_def)
  then show ?case by (intro settles_run) (simp add: run_step_def g)
next
  case (Fire sig rest)
  then have "settles (\<lambda>f. fire (run f e) ctx sig w)" using S by (simp add: walks_settle_def)
  then have "settles (\<lambda>f. and_then (fire (run f e) ctx sig w) (run f e ctx rest))"
    by (rule settles_seq [OF _ fire_ends]) (use Fire in auto)
  then show ?case by (intro settles_run) (simp add: run_step_def)
next
  case (CtxWrite m rest)
  then have "settles (\<lambda>f. hc_Write (run f e) ctx m w)"
    unfolding hc_Write_def by (intro settles_recovered_walk [OF E W(1)]) simp_all
  then have "settles (\<lambda>f. and_then (hc_Write (run f e) ctx m w) (run f e ctx rest))"
    by (rule settles_seq) (use CtxWrite recover_error_ends in \<open>auto simp: hc_Write_def\<close>)
  then show ?case by (intro settles_run) (simp add: run_step_def)
next
  case (CtxTrigger ev rest)
  then have "settles (\<lambda>f. hc_Trigger (run f e) ctx ev w)"
    unfolding hc_Trigger_def by (intro settles_recovered_walk [OF E S]) simp_all
  then have "settles (\<lambda>f. and_then (hc_Trigger (run f e) ctx ev w) (run f e ctx rest))"
    by (rule settles_seq) (use CtxTrigger recover_error_ends in \<open>auto simp: hc_Trigger_def\<close>)
  then show ?case by (intro settles_run) (simp add: run_step_def)
next
  case (ChWrite m rest)
  have tail: "pl_tail w = pl_tail w0" using ChWrite.prems(2) by (simp add: same_chain_def)
  have rest: "settles (\<lambda>f. run f e ctx (rest x) w')" if "same_chain w0 w'" for x w'
    using ChWrite.IH [of "rest x" w'] ChWrite.prems(1) that by auto
  have "settles (\<lambda>f. invokeMethod e (run f e) (fire (run f e) (pl_tail w) (SWrite m) w))"
    using ChWrite.prems W(2) by (intro settles_invokeMethod [OF E]) (simp_all add: tail walks_settle_def)
  then have "settles (\<lambda>f. and_then (invokeMethod e (run f e) (fire (run f e) (pl_tail w) (SWrite m) w)) (run f e ctx (rest None)))"
    by (rule settles_seq [OF _ invokeMethod_ends [OF ChWrite.prems(2)] rest])
  moreover have "settles (\<lambda>f. run f e ctx (rest (Some (OtherError ''channel is closed''))) w)"
    by (rule rest [OF ChWrite.prems(2)])
  ultimately show ?case
    by (intro settles_run) (cases "IsActive w"; simp add: run_step_def ch_Write_def settles_on_channel)
next
  case (ChTrigger ev rest)
  then show ?case by simp
next
  case (ChWrite1 m rest)
  obtain x w' where w': "ch_Write1 e m w = (x, w')" by fastforce
  have "same_chain w0 w'" using same.Q_trans [OF ChWrite1.prems(2) same.Write1_keeps [of w e m]] by (simp add: w')
  then have "settles (\<lambda>f. run f e ctx (rest x) w')" using ChWrite1.IH [of "rest x" w'] ChWrite1.prems(1) by (cases x) simp
  then show ?case by (intro settles_run) (simp add: run_step_def w' settles_on_channel)
next
  case (ChClose err rest)
  have "same_chain w0 (ch_Close e err w)" by (rule same.Q_trans [OF ChClose.prems(2) same.Q_close])
  with ChClose have "settles (\<lambda>f. run f e ctx rest (ch_Close e err w))" by simp
  then show ?case by (intro settles_run) (simp add: run_step_def settles_on_channel)
next
  case (ChIsActive rest)
  then have "settles (\<lambda>f. run f e ctx (rest (IsActive w)) w)" by simp
  then show ?case by (intro settles_run) (simp add: run_step_def settles_on_channel)
next
  case (ChException ex rest)
  then have "settles (\<lambda>f. FireChannelException (run f e) ex w)"
    by (intro settles_exception settles_recover_error(1) [OF E]) simp_all
  then have "settles (\<lambda>f. and_then (FireChannelException (run f e) ex w) (run f e ctx rest))"
    by (rule settles_seq [OF _ exception_ends]) (use ChException in auto)
  then show ?case by (intro settles_run) (simp add: run_step_def settles_on_channel)
next
  case (Recovering inner h rest)
  have inner: "settles (\<lambda>f. run f e ctx inner w)" using Recovering by simp
  have "settles (\<lambda>f. recovering (run f e ctx inner w) (\<lambda>p. run f e ctx (h p)))"
  proof (rule settles_recovering [where k = "\<lambda>p w f. run f e ctx (h p) w", OF inner run_ends [OF Recovering.prems(2)]])
    show "approx (recovering (run f e ctx inner w) (\<lambda>p. run f e ctx (h p))) (recovering (run g e ctx inner w) (\<lambda>p. run g e ctx (h p)))"
      if "f \<le> g" for f g
      by (rule recovering_mono [OF below_run [OF run_mono [OF that]] below_run [OF run_mono [OF that]]])
  qed (use Recovering in auto)
  moreover have "ends_in (\<lambda>_. same_chain w0) w (recovering (run f e ctx inner w) (\<lambda>p. run f e ctx (h p)))" for f
  proof -
    have "ends_in same_chain w (recovering (run f e ctx inner w) (\<lambda>p. run f e ctx (h p)))"
      by (intro same.ends_recovering same.run_keeps [unfolded keeps_def, rule_format])
    with Recovering.prems(2) show ?thesis by (auto simp: ends_in_def intro: same.Q_trans)
  qed
  ultimately have "settles (\<lambda>f. and_then (recovering (run f e ctx inner w) (\<lambda>p. run f e ctx (h p))) (run f e ctx rest))"
    by (rule settles_seq) (use Recovering in auto)
  then show ?case by (intro settles_run) (simp add: run_step_def)
qed

lemma level_settles:
  assumes chain: "chain_addrs w0 ms"
    and tame: "\<And>c sig body. c \<in> set (chain_positions w0 ms) \<Longrightarrow> S sig \<Longrightarrow> cast sig (hc_handler (pl_ctxs w0 ! c)) = Some body \<Longrightarrow> tame S wide body"
    and W: "\<And>c. wide \<Longrightarrow> c \<in> set (chain_positions w0 ms) \<Longrightarrow> walks_settle e w0 c is_write"
    and E: "wide \<Longrightarrow> walks_settle e w0 (pl_head w0) is_exception"
    and down: "\<And>sig i c. S sig \<Longrightarrow> i < length (chain_positions w0 ms) \<Longrightarrow> c \<in> set (route sig i (chain_positions w0 ms))
        \<Longrightarrow> \<exists>j. j < length (chain_positions w0 ms) \<and> c = chain_positions w0 ms ! j \<and> rank j < (rank i :: nat)"
  shows "i < length (chain_positions w0 ms) \<Longrightarrow> walks_settle e w0 (chain_positions w0 ms ! i) S"
proof (induction "rank i" arbitrary: i rule: less_induct)
  case less
  let ?as = "chain_positions w0 ms"
  show ?case unfolding walks_settle_def
  proof (intro allI impI)
    fix sig w assume "S sig" and same: "same_chain w0 w"
    have ctxs: "pl_ctxs w = pl_ctxs w0" and pos: "chain_positions w ms = ?as" and ok: "chain_addrs w ms"
      using same chain by (simp_all add: same_chain_def chain_positions_def chain_addrs_def)
    have walk: "fire R (?as ! i) sig w = (case find (\<lambda>c. cast sig (hc_handler (pl_ctxs w0 ! c)) \<noteq> None) (route sig i ?as) of
        None \<Rightarrow> (Done, w) | Some c \<Rightarrow> R c (the (cast sig (hc_handler (pl_ctxs w0 ! c)))) w)" for R
      using fire_route [OF ok, where i = i and R = R and sig = sig, unfolded pos ctxs] less.prems by simp
    show "settles (\<lambda>f. fire (run f e) (?as ! i) sig w)"
    proof (cases "find (\<lambda>c. cast sig (hc_handler (pl_ctxs w0 ! c)) \<noteq> None) (route sig i ?as)")
      case None
      then show ?thesis by (simp add: walk settles_const)
    next
      case (Some c)
      then have "c \<in> set (route sig i ?as)" by (auto simp: find_Some_iff)
      then obtain j where j: "j < length ?as" "c = ?as ! j" "rank j < rank i" using down [OF \<open>S sig\<close> less.prems] by blast
      obtain body where body: "cast sig (hc_handler (pl_ctxs w0 ! c)) = Some body" using Some by (auto simp: find_Some_iff)
      have "c \<in> set ?as" using j by simp
      then have "tame S wide body" using tame \<open>S sig\<close> body by blast
      moreover have "walks_settle e w0 c S" using less.hyps j by blast
      moreover have "pl_tail w0 \<in> set ?as" by (simp add: chain_positions_def)
      ultimately have "settles (\<lambda>f. run f e c body w)"
        using tame_body_settles [of e w0 c S wide body w] W [OF _ \<open>c \<in> set ?as\<close>] W [of "pl_tail w0"] E same by blast
      with Some body show ?thesis by (simp add: walk)
    qed
  qed
qed

lemma route_forward:
  assumes "\<not> is_write sig" and "i < length as" and "c \<in> set (route sig i as)"
  shows "\<exists>j. j < length as \<and> c = as ! j \<and> length as - j < length as - i"
proof -
  have "c \<in> set (drop (Suc i) as)" using assms by (cases sig) auto
  then obtain k where "k < length as - Suc i" "c = as ! (Suc i + k)" by (auto simp: in_set_conv_nth)
  then show ?thesis by (intro exI [of _ "Suc i + k"]) auto
qed

lemma route_backward:
  assumes "is_write sig" and "i < length as" and "c \<in> set (route sig i as)"
  shows "\<exists>j. j < length as \<and> c = as ! j \<and> j < i"
proof -
  have "c \<in> set (take i as)" using assms by (cases sig) auto
  then obtain j where "j < i" "c = as ! j" by (auto simp: in_set_conv_nth)
  with assms(2) show ?thesis by (intro exI [of _ j]) auto
qed

lemma ordinary_head: "ordinary headHandler"
  by (auto simp: ordinary_def headHandler_def no_handler_def elim!: cast.elims split: message.splits option.splits)

lemma ordinary_tail: "ordinary tailHandler"
  by (auto simp: ordinary_def tailHandler_def no_handler_def elim!: cast.elims)

text \<open>C10: a chain of ordinary handlers never runs forever. A handler is ordinary when what it does on a write
  or on an exception is to pass it on, and what it does otherwise is to pass signals on, to write and to
  raise exceptions, all with any computation on its own state and with panics, recovered or not. Then
  every signal fired at any place of the chain comes to an end, and with more fuel to the same one.\<close>

theorem ordinary_chain_terminates:
  assumes "chain_addrs w ms" and "\<forall>h\<in>set (handlers_at w ms). ordinary h" and "i < length ms + 2"
  shows "\<exists>f. fst (fire (run f e) (chain_positions w ms ! i) sig w) \<noteq> Unfinished
    \<and> (\<forall>g\<ge>f. fire (run g e) (chain_positions w ms ! i) sig w = fire (run f e) (chain_positions w ms ! i) sig w)"
proof -
  let ?as = "chain_positions w ms"
  have len: "length ?as = length ms + 2" by (simp add: chain_positions_def)
  have ord: "ordinary (hc_handler (pl_ctxs w ! c))" if "c \<in> set ?as" for c
    using that assms(1,2) ordinary_head ordinary_tail by (auto simp: chain_positions_def handlers_at_def chain_addrs_def)
  have tame: "cast sig (hc_handler (pl_ctxs w ! c)) = Some body \<Longrightarrow> c \<in> set ?as \<Longrightarrow>
     (if is_write sig then tame is_write False body else if is_exception sig then tame is_exception False body
      else tame is_inbound True body)" for c sig body
    using ord unfolding ordinary_def by blast
  have W: "walks_settle e w (?as ! j) is_write" if "j < length ?as" for j
  proof (rule level_settles [where rank = "\<lambda>j. j" and wide = False, OF assms(1) _ _ _ _ that])
    show "tame is_write False body" if "c \<in> set ?as" "is_write sig" "cast sig (hc_handler (pl_ctxs w ! c)) = Some body" for c sig body
      using tame [OF that(3,1)] that(2) by simp
  qed (use route_backward in auto)
  have E: "walks_settle e w (?as ! j) is_exception" if "j < length ?as" for j
  proof (rule level_settles [where rank = "\<lambda>j. length ?as - j" and wide = False, OF assms(1) _ _ _ _ that])
    show "tame is_exception False body" if "c \<in> set ?as" "is_exception sig" "cast sig (hc_handler (pl_ctxs w ! c)) = Some body" for c sig body
      using tame [OF that(3,1)] that(2) by (cases sig) auto
    show "\<exists>j. j < length ?as \<and> c = ?as ! j \<and> length ?as - j < length ?as - i"
      if "is_exception sig" "i < length ?as" "c \<in> set (route sig i ?as)" for sig i c
      using that by (intro route_forward [where sig = sig]) (cases sig; simp)+
  qed simp_all
  have I: "walks_settle e w (?as ! j) is_inbound" if "j < length ?as" for j
  proof (rule level_settles [where rank = "\<lambda>j. length ?as - j" and wide = True, OF assms(1) _ _ _ _ that])
    show "tame is_inbound True body" if "c \<in> set ?as" "is_inbound sig" "cast sig (hc_handler (pl_ctxs w ! c)) = Some body" for c sig body
      using tame [OF that(3,1)] that(2) by (simp add: is_inbound_def)
    show "walks_settle e w c is_write" if "c \<in> set ?as" for c using that W by (auto simp: in_set_conv_nth)
    show "walks_settle e w (pl_head w) is_exception" using E [of 0] by (simp add: chain_positions_def)
    show "\<exists>j. j < length ?as \<and> c = ?as ! j \<and> length ?as - j < length ?as - i"
      if "is_inbound sig" "i < length ?as" "c \<in> set (route sig i ?as)" for sig i c
      using that by (intro route_forward [where sig = sig]) (simp_all add: is_inbound_def)
  qed
  have "settles (\<lambda>f. fire (run f e) (?as ! i) sig w)"
    using W [of i] E [of i] I [of i] assms(3) same.Q_refl [of w] unfolding walks_settle_def is_inbound_def len by blast
  then obtain f r w' where "r \<noteq> Unfinished" and "\<And>g. f \<le> g \<Longrightarrow> fire (run g e) (?as ! i) sig w = (r, w')"
    by (rule settlesE) blast
  then show ?thesis by (intro exI [of _ f]) simp
qed

section \<open>Witnesses\<close>

text \<open>A channel with one handler of the user, which logs what the head writes.\<close>

definition one_handler :: "('s, 'm) Handler \<Rightarrow> 's \<Rightarrow> ('s, 'm) channel" where
  "one_handler h u = ServeChannel (newChannel u (snd (snd (pl_AddLast [h] ({}, NewPipeline)))))"

definition log_env :: "byte list list chan_env" where
  "log_env = \<lparr>ce_InEventLoop = (\<lambda>s. True), ce_Write = (\<lambda>m s. ((int (length m), None), s @ [m])),
     ce_AsyncWrite = (\<lambda>m s. (Inr None, s @ [m])), ce_ExecuteClose = (\<lambda>err s. (None, s))\<rparr>"

lemma one_handler_simps:
  assumes "recognized h" and "h_unshareable h = None"
  shows "pl_ctxs (one_handler h u) = [newHandlerContext headHandler None (Some 2), newHandlerContext tailHandler (Some 2) None,
           newHandlerContext h (Some 0) (Some 1)]"
    and "pl_head (one_handler h u) = 0" and "pl_tail (one_handler h u) = 1" and "pl_size (one_handler h u) = 3"
    and "pl_served (one_handler h u)" and "\<not> pl_handlingException (one_handler h u)" and "\<not> ch_closed (one_handler h u)"
    and "ch_user (one_handler h u) = u"
  using assms
  by (simp_all add: one_handler_def newChannel_def pipeline.extend_def ServeChannel_def pl_AddLast_def addLast_def bindHandler_def
      NewPipeline_def Let_def alloc_ctx_def store_next_def store_prev_def newHandlerContext_def)

lemma one_handler_chain:
  assumes "recognized h" and "h_unshareable h = None"
  shows "chain_addrs (one_handler h u) [2]" and "handlers_at (one_handler h u) [2] = [h]"
  by (simp_all add: chain_addrs_def one_handler_simps [OF assms] newHandlerContext_def)

definition echo_handler :: "(byte list list, nat) Handler" where
  "echo_handler = SimpleInboundHandler (\<lambda>_. True) (Some (\<lambda>m. CtxWrite m Returns))"

definition failing_handler :: "(byte list list, nat) Handler" where
  "failing_handler = SimpleInboundHandler (\<lambda>_. True) (Some (\<lambda>m. Panic (ErrorPanic EOF)))"

lemma demo_handlers:
  "recognized echo_handler" "h_unshareable echo_handler = None" "ordinary echo_handler" "HandleException echo_handler = None"
  "recognized failing_handler" "h_unshareable failing_handler = None" "HandleException failing_handler = None"
  by (auto simp: echo_handler_def failing_handler_def SimpleInboundHandler_def no_handler_def recognized_def ordinary_def
      is_inbound_def elim!: cast.elims)

lemma demo_reads [simp]:
  "HandleRead echo_handler = Some (\<lambda>m. CtxWrite m Returns)"
  "HandleRead failing_handler = Some (\<lambda>m. Panic (ErrorPanic EOF))"
  "HandleRead tailHandler = None"
  by (simp_all add: echo_handler_def failing_handler_def SimpleInboundHandler_def tailHandler_def no_handler_def)

lemmas echo_chain = one_handler_chain [OF demo_handlers(1,2)]
lemmas failing_chain = one_handler_chain [OF demo_handlers(5,6)]
lemmas failing_simps = one_handler_simps [OF demo_handlers(5,6)]
lemmas echo_simps = one_handler_simps [OF demo_handlers(1,2)]

theorem signal_reaches_nearest_handler_witness:
  "fire (run 9 log_env) 0 (SRead (Bytes [7])) (one_handler echo_handler []) =
     run 9 log_env 2 (CtxWrite (Bytes [7]) Returns) (one_handler echo_handler [])"
  using signal_reaches_nearest_handler [OF echo_chain(1) [of "[]"], where i = 0 and R = "run 9 log_env" and sig = "SRead (Bytes [7])"]
  by (simp add: chain_positions_def echo_simps newHandlerContext_def)

lemma failing_read:
  "fire (run (Suc (Suc f)) e) (pl_head (one_handler failing_handler u)) (SRead rd) (one_handler failing_handler u)
     = (Raise (ErrorPanic EOF), one_handler failing_handler u)"
  using fire_route [OF failing_chain(1) [of u], where i = 0 and R = "run (Suc (Suc f)) e" and sig = "SRead rd"]
  by (simp add: chain_positions_def failing_simps newHandlerContext_def run_step_def)

theorem exception_chain_not_reentered_witness:
  "snd (TryFireException (run 4 log_env) (Some EOF) (one_handler failing_handler []))
     = (True, ch_Close log_env (Some EOF) (one_handler failing_handler []))
   \<and> \<not> pl_handlingException (ch_Close log_env (Some EOF) (one_handler failing_handler []))"
proof -
  have "quiet (one_handler failing_handler [])"
    unfolding quiet_def
    by (intro conjI exI [of _ "[2]"]) (simp_all only: failing_chain failing_simps list.set ball_simps demo_handlers)
  from quiet_exception [OF this failing_simps(6), of 4 log_env "Some EOF"]
  have "TryFireException (run 4 log_env) (Some EOF) (one_handler failing_handler [])
    = (Done, True, ch_Close log_env (Some EOF) (one_handler failing_handler []))" by simp
  from this exception_chain_not_reentered [OF this] show ?thesis using failing_simps(6) [of "[]"] by simp
qed

theorem unhandled_panic_closes_channel_witness:
  "OnTraffic (run 4 log_env) length (\<lambda>s. (None, s)) (Bytes [1]) (Context True) (one_handler failing_handler []) =
     ((Done, ActNone), ch_Close log_env (Some EOF) (one_handler failing_handler []))"
proof -
  have "\<forall>h\<in>set (handlers_at (one_handler failing_handler []) [2]). HandleException h = None"
    unfolding failing_chain(2) using demo_handlers(7) by simp
  moreover have "fire (run 4 log_env) (pl_head (one_handler failing_handler [])) (SRead (Bytes [1])) (one_handler failing_handler [])
      = (Raise (ErrorPanic EOF), one_handler failing_handler [])"
    using failing_read [of 2 log_env "[]" "Bytes [1]"] by (simp add: numeral_eq_Suc)
  ultimately show ?thesis
    using unhandled_panic_closes_channel [OF failing_chain(1) [of "[]"] _ failing_simps(5,6), of 4 log_env "Bytes [1]" "ErrorPanic EOF"
        "one_handler failing_handler []" length "\<lambda>s. (None, s)"] by simp
qed

theorem ordinary_chain_terminates_witness:
  "\<exists>f. fst (fire (run f log_env) 0 (SRead (Bytes [7])) (one_handler echo_handler [])) \<noteq> Unfinished"
proof -
  have "\<forall>h\<in>set (handlers_at (one_handler echo_handler []) [2]). ordinary h"
    using echo_chain(2) demo_handlers(3) by simp
  from ordinary_chain_terminates [OF echo_chain(1) this, where i = 0 and e = log_env and sig = "SRead (Bytes [7])"]
  show ?thesis by (auto simp: chain_positions_def echo_simps)
qed

end
