(* ===== verification/Idle.thy ===== *)
theory Idle
  imports Dispatch
begin

text \<open>
  The idle detection handler of \<open>contribute/agonet/simple/handler_idle.go\<close>. Its three timers run on
  goroutines of the Go runtime; when one expires it only hands the event loop a task, so that the state
  below is read and written in the loop alone. The clock and the tasks the loop has not run yet are part
  of the model's state, and the history of what happened is a trace.
\<close>

section \<open>Data\<close>

datatype IdleState = READER_IDLE | WRITER_IDLE | ALL_IDLE

record IdleStateEvent =
  ev_State :: IdleState
  ev_First :: bool

text \<open>
  A timer is nil (\<open>None\<close>), or an object that is armed for a time (\<open>Some (Some d)\<close>) or has gone off
  (\<open>Some None\<close>). \<open>handlerCtx\<close> tells whether the context pointer is set.
\<close>

record idleHandler =
  readerIdleTime :: int
  writerIdleTime :: int
  allIdleTime :: int
  firstReadIdleEvent :: bool
  firstWriterIdleEvent :: bool
  firstAllIdleEvent :: bool
  lastReadTime :: int
  lastWritTime :: int
  readTimer :: "int option option"
  writTimer :: "int option option"
  allTimer :: "int option option"
  handlerCtx :: bool
  clock :: int
  pending :: "IdleState list"

abbreviation second :: int where
  "second \<equiv> 1000000000"

text \<open>The factory: a time that is not positive switches the detection off, any other is at least a second.
  The product is a 64-bit one.\<close>

definition idle_time :: "int \<Rightarrow> int \<Rightarrow> int" where
  "idle_time t unit = (if t \<le> 0 then 0 else max (go_int (t * unit)) second)"

definition IdleStateHandler :: "int \<Rightarrow> int \<Rightarrow> int \<Rightarrow> int \<Rightarrow> int \<Rightarrow> idleHandler" where
  "IdleStateHandler r w a unit now =
     \<lparr>readerIdleTime = idle_time r unit, writerIdleTime = idle_time w unit, allIdleTime = idle_time a unit,
      firstReadIdleEvent = True, firstWriterIdleEvent = True, firstAllIdleEvent = True,
      lastReadTime = 0, lastWritTime = 0, readTimer = None, writTimer = None, allTimer = None,
      handlerCtx = False, clock = now, pending = []\<rparr>"

definition newIdleStateEvent :: "IdleState \<Rightarrow> bool \<Rightarrow> IdleStateEvent" where
  "newIdleStateEvent st first = \<lparr>ev_State = st, ev_First = first\<rparr>"

section \<open>The steps of the handler\<close>

text \<open>\<open>timer.Reset(d)\<close> on a timer that is not nil.\<close>

definition reset_timer :: "int \<Rightarrow> int \<Rightarrow> int option option \<Rightarrow> int option option" where
  "reset_timer now d t = (case t of None \<Rightarrow> None | Some _ \<Rightarrow> Some (Some (now + d)))"

definition initialize :: "'z idleHandler_scheme \<Rightarrow> 'z idleHandler_scheme" where
  "initialize s = (let now = clock s in
     s\<lparr>handlerCtx := True, lastReadTime := now, lastWritTime := now,
       firstReadIdleEvent := True, firstWriterIdleEvent := True, firstAllIdleEvent := True,
       readTimer := (if readerIdleTime s > 0 then Some (Some (now + readerIdleTime s)) else readTimer s),
       writTimer := (if writerIdleTime s > 0 then Some (Some (now + writerIdleTime s)) else writTimer s),
       allTimer := (if allIdleTime s > 0 then Some (Some (now + allIdleTime s)) else allTimer s)\<rparr>)"

definition deactivate :: "'z idleHandler_scheme \<Rightarrow> 'z idleHandler_scheme" where
  "deactivate s = s\<lparr>handlerCtx := False, readTimer := None, writTimer := None, allTimer := None\<rparr>"

definition note_read :: "'z idleHandler_scheme \<Rightarrow> 'z idleHandler_scheme" where
  "note_read s = s\<lparr>lastReadTime := clock s, firstReadIdleEvent := True, firstAllIdleEvent := True,
     readTimer := reset_timer (clock s) (readerIdleTime s) (readTimer s)\<rparr>"

definition note_write :: "'z idleHandler_scheme \<Rightarrow> 'z idleHandler_scheme" where
  "note_write s = s\<lparr>lastWritTime := clock s, firstWriterIdleEvent := True, firstAllIdleEvent := True,
     writTimer := reset_timer (clock s) (writerIdleTime s) (writTimer s)\<rparr>"

text \<open>The timer goroutine: with a context it hands the loop the task of the check.\<close>

definition onTimeoutInEL :: "IdleState \<Rightarrow> 'z idleHandler_scheme \<Rightarrow> 'z idleHandler_scheme" where
  "onTimeoutInEL st s = (if handlerCtx s then s\<lparr>pending := pending s @ [st]\<rparr> else s)"

text \<open>The first half of each check: it returns early, finds that the time has not passed, or has an event to trigger.\<close>

datatype check_result = Skipped | NotExpired | Expired IdleStateEvent

definition onReadTimeout :: "'z idleHandler_scheme \<Rightarrow> check_result \<times> 'z idleHandler_scheme" where
  "onReadTimeout s =
     (if \<not> handlerCtx s \<or> readTimer s = None then (Skipped, s)
      else if clock s - lastReadTime s \<ge> readerIdleTime s
      then (Expired (newIdleStateEvent READER_IDLE (firstReadIdleEvent s)), s\<lparr>firstReadIdleEvent := False\<rparr>)
      else (NotExpired, s))"

definition onWriteTimeout :: "'z idleHandler_scheme \<Rightarrow> check_result \<times> 'z idleHandler_scheme" where
  "onWriteTimeout s =
     (if \<not> handlerCtx s \<or> writTimer s = None then (Skipped, s)
      else if clock s - lastWritTime s \<ge> writerIdleTime s
      then (Expired (newIdleStateEvent WRITER_IDLE (firstWriterIdleEvent s)), s\<lparr>firstWriterIdleEvent := False\<rparr>)
      else (NotExpired, s))"

definition onAllTimeout :: "'z idleHandler_scheme \<Rightarrow> check_result \<times> 'z idleHandler_scheme" where
  "onAllTimeout s =
     (if \<not> handlerCtx s \<or> allTimer s = None then (Skipped, s)
      else if clock s - lastReadTime s \<ge> allIdleTime s \<and> clock s - lastWritTime s \<ge> allIdleTime s
      then (Expired (newIdleStateEvent ALL_IDLE (firstAllIdleEvent s)), s\<lparr>firstAllIdleEvent := False\<rparr>)
      else (NotExpired, s))"

fun checkIdle :: "IdleState \<Rightarrow> 'z idleHandler_scheme \<Rightarrow> check_result \<times> 'z idleHandler_scheme" where
  "checkIdle READER_IDLE s = (if readTimer s = None then (Skipped, s) else onReadTimeout s)"
| "checkIdle WRITER_IDLE s = (if writTimer s = None then (Skipped, s) else onWriteTimeout s)"
| "checkIdle ALL_IDLE s = (if allTimer s = None then (Skipped, s) else onAllTimeout s)"

text \<open>The second half: the timer starts again unless the handler was switched off meanwhile.\<close>

fun rearm :: "IdleState \<Rightarrow> 'z idleHandler_scheme \<Rightarrow> 'z idleHandler_scheme" where
  "rearm READER_IDLE s = s\<lparr>readTimer := reset_timer (clock s) (readerIdleTime s) (readTimer s)\<rparr>"
| "rearm WRITER_IDLE s = s\<lparr>writTimer := reset_timer (clock s) (writerIdleTime s) (writTimer s)\<rparr>"
| "rearm ALL_IDLE s = s\<lparr>allTimer := reset_timer (clock s) (allIdleTime s) (allTimer s)\<rparr>"

section \<open>The handler in a chain\<close>

definition check_body :: "(IdleStateEvent \<Rightarrow> 'm) \<Rightarrow> IdleState \<Rightarrow> ('z idleHandler_scheme, 'm) prog" where
  "check_body as_msg st = Local (\<lambda>s. case checkIdle st s of
      (Skipped, s') \<Rightarrow> (s', Returns)
    | (NotExpired, s') \<Rightarrow> (s', Local (\<lambda>s. (rearm st s, Returns)))
    | (Expired ev, s') \<Rightarrow> (s', Recovering (CtxTrigger (Val (as_msg ev)) Returns) (\<lambda>p. ChException (AsException (Some p)) Returns)
                            (Local (\<lambda>s. (rearm st s, Returns)))))"

definition idle_handler :: "nat \<Rightarrow> ('z idleHandler_scheme, 'm) Handler" where
  "idle_handler i = no_handler\<lparr>
     HandleActive := Some (Local (\<lambda>s. (initialize s, Fire SActive Returns))),
     HandleInactive := Some (\<lambda>ex. Local (\<lambda>s. (deactivate s, Fire (SInactive ex) Returns))),
     HandleRead := Some (\<lambda>m. Fire (SRead m) (Local (\<lambda>s. (note_read s, Returns)))),
     HandleWrite := Some (\<lambda>m. Fire (SWrite m) (Local (\<lambda>s. (note_write s, Returns)))),
     h_unshareable := Some i\<rparr>"

section \<open>Histories\<close>

text \<open>
  What can happen to an active handler: time passes, a read or a write has been passed on, a timer goes off, the
  loop runs the first half of a check, the event handlers of the user return and the check ends, the channel
  becomes inactive. Between the two halves of a check anything else may happen except another check, which
  the loop runs later.
\<close>

datatype idle_label =
    Elapse nat
  | ReadDone
  | WriteDone
  | TimerFires IdleState
  | CheckStarts IdleState
  | CheckEnds
  | BecomesInactive

datatype happened = WasRead | WasWrite | WasEvent IdleStateEvent | WasInactive

type_synonym idle_trace = "(int \<times> happened) list"

fun timer_of :: "IdleState \<Rightarrow> 'z idleHandler_scheme \<Rightarrow> int option option" where
  "timer_of READER_IDLE s = readTimer s"
| "timer_of WRITER_IDLE s = writTimer s"
| "timer_of ALL_IDLE s = allTimer s"

fun time_of :: "IdleState \<Rightarrow> 'z idleHandler_scheme \<Rightarrow> int" where
  "time_of READER_IDLE s = readerIdleTime s"
| "time_of WRITER_IDLE s = writerIdleTime s"
| "time_of ALL_IDLE s = allIdleTime s"

fun gone_off :: "IdleState \<Rightarrow> 'z idleHandler_scheme \<Rightarrow> 'z idleHandler_scheme" where
  "gone_off READER_IDLE s = s\<lparr>readTimer := Some None\<rparr>"
| "gone_off WRITER_IDLE s = s\<lparr>writTimer := Some None\<rparr>"
| "gone_off ALL_IDLE s = s\<lparr>allTimer := Some None\<rparr>"

fun idle_do :: "idle_label \<Rightarrow> idleHandler \<times> IdleState option \<times> idle_trace \<Rightarrow> idleHandler \<times> IdleState option \<times> idle_trace" where
  "idle_do (Elapse d) (s, en, tr) = (s\<lparr>clock := clock s + int d\<rparr>, en, tr)"
| "idle_do ReadDone (s, en, tr) = (note_read s, en, tr @ [(clock s, WasRead)])"
| "idle_do WriteDone (s, en, tr) = (note_write s, en, tr @ [(clock s, WasWrite)])"
| "idle_do (TimerFires st) (s, en, tr) = (case timer_of st s of
      Some (Some d) \<Rightarrow> (if d \<le> clock s then onTimeoutInEL st (gone_off st s) else s, en, tr)
    | _ \<Rightarrow> (s, en, tr))"
| "idle_do (CheckStarts st) (s, en, tr) =
     (if en = None \<and> st \<in> set (pending s)
      then (case checkIdle st (s\<lparr>pending := remove1 st (pending s)\<rparr>) of
              (Skipped, s') \<Rightarrow> (s', None, tr)
            | (NotExpired, s') \<Rightarrow> (rearm st s', None, tr)
            | (Expired ev, s') \<Rightarrow> (s', Some st, tr @ [(clock s, WasEvent ev)]))
      else (s, en, tr))"
| "idle_do CheckEnds (s, en, tr) = (case en of None \<Rightarrow> (s, None, tr) | Some st \<Rightarrow> (rearm st s, None, tr))"
| "idle_do BecomesInactive (s, en, tr) = (deactivate s, en, tr @ [(clock s, WasInactive)])"

definition idle_history :: "int \<Rightarrow> int \<Rightarrow> int \<Rightarrow> int \<Rightarrow> int \<Rightarrow> idle_label list \<Rightarrow> idleHandler \<times> IdleState option \<times> idle_trace" where
  "idle_history r w a unit t0 ls = fold idle_do ls (initialize (IdleStateHandler r w a unit t0), None, [])"

section \<open>What the events mean\<close>

text \<open>The time of the last happening of a kind, or \<open>t0\<close>, and what happened since then.\<close>

definition last_time :: "(happened \<Rightarrow> bool) \<Rightarrow> int \<Rightarrow> idle_trace \<Rightarrow> int" where
  "last_time P t0 tr = (case rev (filter (P \<circ> snd) tr) of [] \<Rightarrow> t0 | x # _ \<Rightarrow> fst x)"

definition since :: "(happened \<Rightarrow> bool) \<Rightarrow> idle_trace \<Rightarrow> idle_trace" where
  "since P tr = rev (takeWhile (\<lambda>x. \<not> P (snd x)) (rev tr))"

lemma last_time_simps [simp]:
  "last_time P t0 [] = t0"
  "last_time P t0 (tr @ [x]) = (if P (snd x) then fst x else last_time P t0 tr)"
  by (simp_all add: last_time_def)

lemma since_simps [simp]:
  "since P [] = []"
  "since P (tr @ [x]) = (if P (snd x) then [] else since P tr @ [x])"
  by (simp_all add: since_def)

fun kinds :: "IdleState \<Rightarrow> happened list" where
  "kinds READER_IDLE = [WasRead]"
| "kinds WRITER_IDLE = [WasWrite]"
| "kinds ALL_IDLE = [WasRead, WasWrite]"

definition events_of :: "IdleState \<Rightarrow> idle_trace \<Rightarrow> IdleStateEvent list" where
  "events_of st tr = [ev. (t, WasEvent ev) \<leftarrow> tr, ev_State ev = st]"

text \<open>
  The contract of an event that is triggered at time \<open>t\<close> after the history \<open>pre\<close>: its detection is switched
  on; none of the activities it watches happened within its idle time; it is marked as the first exactly
  when no event of its kind was triggered since the last of these activities; the handler is active.
\<close>

definition event_ok :: "(IdleState \<Rightarrow> int) \<Rightarrow> int \<Rightarrow> idle_trace \<Rightarrow> int \<Rightarrow> IdleStateEvent \<Rightarrow> bool" where
  "event_ok cfg t0 pre t ev \<longleftrightarrow> (let st = ev_State ev in
     0 < cfg st \<and> (\<forall>k\<in>set (kinds st). cfg st \<le> t - last_time ((=) k) t0 pre)
     \<and> (ev_First ev \<longleftrightarrow> events_of st (since (\<lambda>x. x \<in> set (kinds st)) pre) = [])
     \<and> WasInactive \<notin> snd ` set pre)"

definition sound_trace :: "(IdleState \<Rightarrow> int) \<Rightarrow> int \<Rightarrow> idle_trace \<Rightarrow> bool" where
  "sound_trace cfg t0 tr \<longleftrightarrow> (\<forall>pre t ev post. tr = pre @ (t, WasEvent ev) # post \<longrightarrow> event_ok cfg t0 pre t ev)"

text \<open>A detection that is on has its timer armed for at most one idle time ahead, or its check is due or running.\<close>

definition timers_alive :: "idleHandler \<Rightarrow> IdleState option \<Rightarrow> bool" where
  "timers_alive s en \<longleftrightarrow> (\<forall>st. 0 < time_of st s \<longrightarrow>
     (\<exists>d. timer_of st s = Some (Some d) \<and> d \<le> clock s + time_of st s) \<or> timer_of st s \<noteq> None \<and> (st \<in> set (pending s) \<or> en = Some st))"

lemma sound_trace_Nil: "sound_trace cfg t0 []"
  by (simp add: sound_trace_def)

lemma sound_trace_snoc:
  "sound_trace cfg t0 (tr @ [x]) \<longleftrightarrow> sound_trace cfg t0 tr \<and> (\<forall>ev. snd x = WasEvent ev \<longrightarrow> event_ok cfg t0 tr (fst x) ev)"
proof -
  have "tr @ [x] = pre @ y # post \<longleftrightarrow> (post = [] \<and> pre = tr \<and> y = x) \<or> (\<exists>post'. post = post' @ [x] \<and> tr = pre @ y # post')"
    for pre y post
    by (cases post rule: rev_cases) auto
  then show ?thesis unfolding sound_trace_def by (cases x) (auto; blast)
qed

lemma events_of_simps [simp]:
  "events_of st [] = []"
  "events_of st (tr @ [x]) = events_of st tr @ (case snd x of WasEvent ev \<Rightarrow> if ev_State ev = st then [ev] else [] | _ \<Rightarrow> [])"
  by (cases x; cases "snd x"; simp add: events_of_def)+

section \<open>The invariant of histories\<close>

lemma all_IdleState: "(\<forall>st. P st) \<longleftrightarrow> P READER_IDLE \<and> P WRITER_IDLE \<and> P ALL_IDLE"
  by (metis IdleState.exhaust)

definition tracks :: "int \<Rightarrow> idleHandler \<Rightarrow> idle_trace \<Rightarrow> bool" where
  "tracks t0 s tr \<longleftrightarrow> lastReadTime s = last_time ((=) WasRead) t0 tr \<and> lastWritTime s = last_time ((=) WasWrite) t0 tr
     \<and> (firstReadIdleEvent s \<longleftrightarrow> events_of READER_IDLE (since (\<lambda>x. x \<in> set (kinds READER_IDLE)) tr) = [])
     \<and> (firstWriterIdleEvent s \<longleftrightarrow> events_of WRITER_IDLE (since (\<lambda>x. x \<in> set (kinds WRITER_IDLE)) tr) = [])
     \<and> (firstAllIdleEvent s \<longleftrightarrow> events_of ALL_IDLE (since (\<lambda>x. x \<in> set (kinds ALL_IDLE)) tr) = [])
     \<and> (handlerCtx s \<longleftrightarrow> WasInactive \<notin> snd ` set tr)"

definition wired :: "(IdleState \<Rightarrow> int) \<Rightarrow> idleHandler \<Rightarrow> bool" where
  "wired cfg s \<longleftrightarrow> (\<forall>st. time_of st s = cfg st \<and> (timer_of st s \<noteq> None \<longrightarrow> 0 < cfg st \<and> handlerCtx s))"

definition idle_inv :: "(IdleState \<Rightarrow> int) \<Rightarrow> int \<Rightarrow> idleHandler \<times> IdleState option \<times> idle_trace \<Rightarrow> bool" where
  "idle_inv cfg t0 = (\<lambda>(s, en, tr). tracks t0 s tr \<and> wired cfg s \<and> (handlerCtx s \<longrightarrow> timers_alive s en) \<and> sound_trace cfg t0 tr)"

lemmas idle_steps = note_read_def note_write_def deactivate_def onTimeoutInEL_def reset_timer_def

lemma rearm_keeps:
  "tracks t0 (rearm st s) tr = tracks t0 s tr" "wired cfg (rearm st s) = wired cfg s" "handlerCtx (rearm st s) = handlerCtx s"
  "clock (rearm st s) = clock s"
  by (cases st; auto simp: tracks_def wired_def all_IdleState reset_timer_def split: option.splits)+

lemma rearm_alive: "timers_alive s (Some st) \<Longrightarrow> timers_alive (rearm st s) None"
  by (cases st) (auto simp: timers_alive_def all_IdleState reset_timer_def split: option.splits)

lemma check_alive:
  assumes "timers_alive s None"
  shows "timers_alive (s\<lparr>pending := remove1 st (pending s)\<rparr>) (Some st)"
  using assms by (cases st) (auto simp: timers_alive_def all_IdleState in_set_remove1)

text \<open>What the first half of a check finds and changes.\<close>

lemma checkIdle_result:
  assumes "checkIdle st s = (r, s')" and "wired cfg s" and "tracks t0 s tr" and "sound_trace cfg t0 tr"
  shows "case r of Skipped \<Rightarrow> s' = s \<and> timer_of st s = None
         | NotExpired \<Rightarrow> s' = s \<and> handlerCtx s
         | Expired ev \<Rightarrow> tracks t0 s' (tr @ [(clock s, WasEvent ev)]) \<and> wired cfg s' \<and> handlerCtx s
             \<and> sound_trace cfg t0 (tr @ [(clock s, WasEvent ev)]) \<and> (\<forall>en. timers_alive s' en = timers_alive s en)"
  using assms
  by (cases st)
    (auto simp: onReadTimeout_def onWriteTimeout_def onAllTimeout_def newIdleStateEvent_def wired_def all_IdleState tracks_def
      sound_trace_snoc event_ok_def timers_alive_def split: if_splits)

lemma clock_irrelevant [simp]: "timer_of st (s\<lparr>clock := c\<rparr>) = timer_of st s" "time_of st (s\<lparr>clock := c\<rparr>) = time_of st s"
  by (cases st; simp)+

lemma elapse_alive:
  assumes "timers_alive s en"
  shows "timers_alive (s\<lparr>clock := clock s + int d\<rparr>) en"
  unfolding timers_alive_def
proof (intro allI impI)
  fix st assume "0 < time_of st (s\<lparr>clock := clock s + int d\<rparr>)"
  then consider d' where "timer_of st s = Some (Some d')" "d' \<le> clock s + time_of st s"
    | "timer_of st s \<noteq> None" "st \<in> set (pending s) \<or> en = Some st"
    using assms by (auto simp: timers_alive_def)
  then show "(\<exists>d'. timer_of st (s\<lparr>clock := clock s + int d\<rparr>) = Some (Some d')
        \<and> d' \<le> clock (s\<lparr>clock := clock s + int d\<rparr>) + time_of st (s\<lparr>clock := clock s + int d\<rparr>))
      \<or> timer_of st (s\<lparr>clock := clock s + int d\<rparr>) \<noteq> None \<and> (st \<in> set (pending (s\<lparr>clock := clock s + int d\<rparr>)) \<or> en = Some st)"
    by cases simp_all
qed

lemma alive_step:
  assumes "timers_alive s en" and "\<And>st. time_of st s' = time_of st s" and "clock s' = clock s" and "set (pending s) \<subseteq> set (pending s')"
    and "\<And>st. timer_of st s' = timer_of st s \<or> timer_of st s' = reset_timer (clock s) (time_of st s) (timer_of st s)
           \<or> timer_of st s' \<noteq> None \<and> st \<in> set (pending s')"
  shows "timers_alive s' en"
  unfolding timers_alive_def
proof (intro allI impI)
  fix st assume on: "0 < time_of st s'"
  have was: "(\<exists>d. timer_of st s = Some (Some d) \<and> d \<le> clock s + time_of st s) \<or> timer_of st s \<noteq> None \<and> (st \<in> set (pending s) \<or> en = Some st)"
    using assms(1) on by (simp add: timers_alive_def assms(2))
  show "(\<exists>d. timer_of st s' = Some (Some d) \<and> d \<le> clock s' + time_of st s') \<or> timer_of st s' \<noteq> None \<and> (st \<in> set (pending s') \<or> en = Some st)"
    using assms(5) [of st]
  proof (elim disjE)
    assume "timer_of st s' = timer_of st s"
    with was assms(4) show ?thesis by (auto simp: assms(2,3))
  next
    assume "timer_of st s' = reset_timer (clock s) (time_of st s) (timer_of st s)"
    with was show ?thesis by (auto simp: assms(2,3) reset_timer_def)
  qed simp
qed

lemma fires_keeps:
  assumes "tracks t0 s tr" and "wired cfg s" and "timer_of st s \<noteq> None" and "handlerCtx s \<Longrightarrow> timers_alive s en"
  shows "tracks t0 (onTimeoutInEL st (gone_off st s)) tr" and "wired cfg (onTimeoutInEL st (gone_off st s))"
    and "timers_alive (onTimeoutInEL st (gone_off st s)) en"
proof -
  have act: "handlerCtx s" using assms(2,3) by (simp add: wired_def)
  show "tracks t0 (onTimeoutInEL st (gone_off st s)) tr"
    using assms(1) by (cases st) (simp_all add: tracks_def onTimeoutInEL_def)
  show "wired cfg (onTimeoutInEL st (gone_off st s))"
    using assms(2,3) act by (cases st) (auto simp: wired_def all_IdleState onTimeoutInEL_def)
  show "timers_alive (onTimeoutInEL st (gone_off st s)) en"
  proof (rule alive_step [OF assms(4) [OF act]])
    fix st'
    show "time_of st' (onTimeoutInEL st (gone_off st s)) = time_of st' s"
      by (cases st; cases st') (simp_all add: onTimeoutInEL_def)
    show "timer_of st' (onTimeoutInEL st (gone_off st s)) = timer_of st' s
        \<or> timer_of st' (onTimeoutInEL st (gone_off st s)) = reset_timer (clock s) (time_of st' s) (timer_of st' s)
        \<or> timer_of st' (onTimeoutInEL st (gone_off st s)) \<noteq> None \<and> st' \<in> set (pending (onTimeoutInEL st (gone_off st s)))"
      using act by (cases st; cases st') (simp_all add: onTimeoutInEL_def)
  qed (cases st; simp add: onTimeoutInEL_def subset_insertI)+
qed

lemma idle_do_inv:
  assumes "idle_inv cfg t0 x"
  shows "idle_inv cfg t0 (idle_do l x)"
proof -
  obtain s en tr where x: "x = (s, en, tr)" by (cases x)
  have tracks: "tracks t0 s tr" and wired: "wired cfg s" and alive: "handlerCtx s \<Longrightarrow> timers_alive s en"
    and sound: "sound_trace cfg t0 tr"
    using assms by (auto simp: x idle_inv_def)
  show ?thesis
  proof (cases l)
    case (Elapse d)
    with tracks wired alive sound show ?thesis
      by (auto simp: x idle_inv_def tracks_def wired_def elapse_alive)
  next
    case ReadDone
    with tracks wired alive sound show ?thesis
      by (auto simp: x idle_inv_def tracks_def wired_def timers_alive_def all_IdleState idle_steps sound_trace_snoc split: option.splits)
  next
    case WriteDone
    with tracks wired alive sound show ?thesis
      by (auto simp: x idle_inv_def tracks_def wired_def timers_alive_def all_IdleState idle_steps sound_trace_snoc split: option.splits)
  next
    case (TimerFires st)
    then show ?thesis using assms fires_keeps [OF tracks wired _ alive, of st] sound
      by (auto simp: x idle_inv_def split: option.splits)
  next
    case (CheckStarts st)
    show ?thesis
    proof (cases "en = None \<and> st \<in> set (pending s)")
      case True
      let ?s = "s\<lparr>pending := remove1 st (pending s)\<rparr>"
      obtain r s' where chk: "checkIdle st ?s = (r, s')" by fastforce
      have "tracks t0 ?s tr" and "wired cfg ?s" using tracks wired by (auto simp: tracks_def wired_def all_IdleState)
      note result = checkIdle_result [OF chk this(2,1) sound]
      have alive': "handlerCtx s \<Longrightarrow> timers_alive ?s (Some st)" using alive True check_alive [of s st] by auto
      show ?thesis
      proof (cases r)
        case Skipped
        have "handlerCtx s \<Longrightarrow> timers_alive ?s None"
          using alive' result Skipped by (auto simp: timers_alive_def)
        with Skipped result True show ?thesis
          using \<open>tracks t0 ?s tr\<close> \<open>wired cfg ?s\<close> sound by (auto simp: x CheckStarts chk idle_inv_def)
      next
        case NotExpired
        with result True show ?thesis
          using \<open>tracks t0 ?s tr\<close> \<open>wired cfg ?s\<close> sound alive' rearm_alive [of ?s st]
          by (auto simp: x CheckStarts chk idle_inv_def rearm_keeps)
      next
        case (Expired ev)
        with result True alive' show ?thesis
          by (auto simp: x CheckStarts chk idle_inv_def)
      qed
    qed (use assms in \<open>auto simp: x CheckStarts\<close>)
  next
    case CheckEnds
    with assms alive rearm_alive show ?thesis
      by (cases en) (auto simp: x idle_inv_def rearm_keeps)
  next
    case BecomesInactive
    with tracks wired sound show ?thesis
      by (auto simp: x idle_inv_def tracks_def wired_def all_IdleState idle_steps sound_trace_snoc)
  qed
qed

lemma idle_time_cases: "idle_time t u = 0 \<or> second \<le> idle_time t u"
  by (simp add: idle_time_def)

fun idle_cfg :: "int \<Rightarrow> int \<Rightarrow> int \<Rightarrow> int \<Rightarrow> IdleState \<Rightarrow> int" where
  "idle_cfg r w a u READER_IDLE = idle_time r u"
| "idle_cfg r w a u WRITER_IDLE = idle_time w u"
| "idle_cfg r w a u ALL_IDLE = idle_time a u"

lemma idle_history_inv: "idle_inv (idle_cfg r w a u) t0 (idle_history r w a u t0 ls)"
proof -
  have "idle_inv (idle_cfg r w a u) t0 (initialize (IdleStateHandler r w a u t0), None, [])"
    by (auto simp: idle_inv_def tracks_def wired_def timers_alive_def all_IdleState initialize_def IdleStateHandler_def Let_def
        sound_trace_Nil)
  then show ?thesis unfolding idle_history_def
    by (induction ls rule: rev_induct) (auto intro: idle_do_inv)
qed

text \<open>C8: every idle event is true. In every history of an active handler, with reads, writes, timers, checks
  and user code interleaved in any way, an event that is triggered has its detection switched on, was
  preceded by at least the configured time (never less than a second) without the activity it reports
  as missing, is marked as the first one exactly when no event of its kind was triggered since that
  activity, and none is triggered after the channel became inactive.\<close>

theorem idle_events_are_true:
  "case idle_history r w a u t0 ls of (s, en, tr) \<Rightarrow> sound_trace (idle_cfg r w a u) t0 tr"
  using idle_history_inv [of r w a u t0 ls] by (auto simp: idle_inv_def)


end
