(* ===== verification/Strconv.thy ===== *)
theory Strconv
  imports Prelude
begin

text \<open>
  The conversions of Go's package \<open>strconv\<close> that the configuration binder and the address ranges call:
  \<open>ParseInt\<close> and \<open>ParseUint\<close> with base 0 (the base is taken from the prefix of the text, and digits may
  be separated by underscores), \<open>ParseBool\<close>, \<open>Atoi\<close> and the decimal printing of integers.
\<close>

datatype num_error = ErrSyntax | ErrRange

definition char_code :: "char \<Rightarrow> nat" where
  "char_code c = of_char c"

definition lower_code :: "char \<Rightarrow> nat" where
  "lower_code c = (let n = char_code c in if 65 \<le> n \<and> n \<le> 90 then n + 32 else n)"

definition char_digit :: "char \<Rightarrow> nat option" where
  "char_digit c = (let n = char_code c; l = lower_code c in
     if 48 \<le> n \<and> n \<le> 57 then Some (n - 48) else if 97 \<le> l \<and> l \<le> 122 then Some (l - 97 + 10) else None)"

definition is_dec :: "char \<Rightarrow> bool" where
  "is_dec c \<longleftrightarrow> 48 \<le> char_code c \<and> char_code c \<le> 57"

text \<open>The digit loop of \<open>ParseUint\<close>.\<close>

fun parse_digits :: "nat \<Rightarrow> bool \<Rightarrow> nat \<Rightarrow> nat \<Rightarrow> string \<Rightarrow> num_error + nat" where
  "parse_digits base base0 maxv n [] = Inr n"
| "parse_digits base base0 maxv n (c # cs) =
     (if base0 \<and> c = CHR ''_'' then parse_digits base base0 maxv n cs
      else (case char_digit c of
              None \<Rightarrow> Inl ErrSyntax
            | Some d \<Rightarrow>
                if d \<ge> base then Inl ErrSyntax
                else let n1 = n * base + d in
                  if n1 > maxv then Inl ErrRange else parse_digits base base0 maxv n1 cs))"

definition base_prefix :: "string \<Rightarrow> nat \<times> string" where
  "base_prefix s = (case s of
      [] \<Rightarrow> (10, [])
    | c # r \<Rightarrow>
        if c \<noteq> CHR ''0'' then (10, s)
        else (case r of
            [] \<Rightarrow> (8, [])
          | p # r' \<Rightarrow>
              if length s \<ge> 3 \<and> lower_code p = char_code CHR ''b'' then (2, r')
              else if length s \<ge> 3 \<and> lower_code p = char_code CHR ''o'' then (8, r')
              else if length s \<ge> 3 \<and> lower_code p = char_code CHR ''x'' then (16, r')
              else (8, r)))"

text \<open>\<open>underscoreOK\<close>: the last character seen was a digit, an underscore, the beginning or something else.\<close>

datatype saw = SawDigit | SawUnderscore | SawStart | SawOther

fun underscore_loop :: "bool \<Rightarrow> saw \<Rightarrow> string \<Rightarrow> bool" where
  "underscore_loop hex saw [] = (saw \<noteq> SawUnderscore)"
| "underscore_loop hex saw (c # cs) =
     (if is_dec c \<or> hex \<and> 97 \<le> lower_code c \<and> lower_code c \<le> 102 then underscore_loop hex SawDigit cs
      else if c = CHR ''_'' then saw = SawDigit \<and> underscore_loop hex SawUnderscore cs
      else saw \<noteq> SawUnderscore \<and> underscore_loop hex SawOther cs)"

definition underscoreOK :: "string \<Rightarrow> bool" where
  "underscoreOK s0 = (let s = (if s0 \<noteq> [] \<and> (hd s0 = CHR ''-'' \<or> hd s0 = CHR ''+'') then tl s0 else s0) in
     case s of
       CHR ''0'' # p # r \<Rightarrow>
         if lower_code p = char_code CHR ''b'' \<or> lower_code p = char_code CHR ''o'' \<or> lower_code p = char_code CHR ''x''
         then underscore_loop (lower_code p = char_code CHR ''x'') SawDigit r
         else underscore_loop False SawStart s
     | _ \<Rightarrow> underscore_loop False SawStart s)"

definition ParseUint :: "string \<Rightarrow> nat \<Rightarrow> num_error + nat" where
  "ParseUint s bitSize =
     (if s = [] then Inl ErrSyntax
      else let (base, digits) = base_prefix s in
        case parse_digits base True (2 ^ bitSize - 1) 0 digits of
          Inl e \<Rightarrow> Inl e
        | Inr n \<Rightarrow> if CHR ''_'' \<in> set digits \<and> \<not> underscoreOK s then Inl ErrSyntax else Inr n)"

definition split_sign :: "string \<Rightarrow> bool \<times> string" where
  "split_sign s = (case s of
      c # r \<Rightarrow> if c = CHR ''+'' then (False, r) else if c = CHR ''-'' then (True, r) else (False, s)
    | [] \<Rightarrow> (False, []))"

definition ParseInt :: "string \<Rightarrow> nat \<Rightarrow> num_error + int" where
  "ParseInt s bitSize =
     (if s = [] then Inl ErrSyntax
      else let (neg, digits) = split_sign s in
        case ParseUint digits bitSize of
          Inl e \<Rightarrow> Inl e
        | Inr un \<Rightarrow>
            if \<not> neg \<and> un \<ge> 2 ^ (bitSize - 1) then Inl ErrRange
            else if neg \<and> un > 2 ^ (bitSize - 1) then Inl ErrRange
            else Inr (if neg then - int un else int un))"

definition ParseBool :: "string \<Rightarrow> num_error + bool" where
  "ParseBool s =
     (if s \<in> set [''1'', ''t'', ''T'', ''true'', ''TRUE'', ''True''] then Inr True
      else if s \<in> set [''0'', ''f'', ''F'', ''false'', ''FALSE'', ''False''] then Inr False
      else Inl ErrSyntax)"

text \<open>\<open>Atoi\<close>: base 10 without underscores. With the error ignored, a text that is not a number gives 0 and a
  number out of range the nearest one in range.\<close>

definition Atoi :: "string \<Rightarrow> num_error option \<times> int" where
  "Atoi s =
     (let (neg, digits) = split_sign s in
      if digits = [] then (Some ErrSyntax, 0)
      else case parse_digits 10 False (2 ^ 64 - 1) 0 digits of
        Inl ErrSyntax \<Rightarrow> (Some ErrSyntax, 0)
      | Inl ErrRange \<Rightarrow> (Some ErrRange, if neg then - (2 ^ 63) else 2 ^ 63 - 1)
      | Inr un \<Rightarrow>
          if \<not> neg \<and> un \<ge> 2 ^ 63 then (Some ErrRange, 2 ^ 63 - 1)
          else if neg \<and> un > 2 ^ 63 then (Some ErrRange, - (2 ^ 63))
          else (None, if neg then - int un else int un))"

section \<open>Printing\<close>

definition digit_char :: "nat \<Rightarrow> char" where
  "digit_char d = char_of (48 + d)"

fun show_nat :: "nat \<Rightarrow> string" where
  "show_nat n = (if n < 10 then [digit_char n] else show_nat (n div 10) @ [digit_char (n mod 10)])"

declare show_nat.simps [simp del]

definition show_int :: "int \<Rightarrow> string" where
  "show_int n = (if n < 0 then CHR ''-'' # show_nat (nat (- n)) else show_nat (nat n))"

section \<open>Numbers in range\<close>

lemma parse_digits_bound: "parse_digits base b0 maxv n cs = Inr m \<Longrightarrow> n \<le> maxv \<Longrightarrow> m \<le> maxv"
  by (induction cs arbitrary: n) (auto simp: Let_def split: if_splits option.splits)

lemma ParseUint_range:
  assumes "ParseUint s bits = Inr n"
  shows "n < 2 ^ bits"
proof -
  obtain base digits where "parse_digits base True (2 ^ bits - 1) 0 digits = Inr n"
    using assms by (auto simp: ParseUint_def split: if_splits prod.splits sum.splits)
  from parse_digits_bound [OF this] have "n \<le> 2 ^ bits - 1" by simp
  moreover have "(0 :: nat) < 2 ^ bits" by simp
  ultimately show ?thesis by linarith
qed

lemma ParseInt_range:
  assumes "ParseInt s bits = Inr i"
  shows "- (2 ^ (bits - 1)) \<le> i \<and> i < 2 ^ (bits - 1)"
proof -
  obtain neg digits where sign: "split_sign s = (neg, digits)" by fastforce
  obtain un where un: "ParseUint digits bits = Inr un" and i: "i = (if neg then - int un else int un)"
      and bound: "\<not> (\<not> neg \<and> un \<ge> 2 ^ (bits - 1))" "\<not> (neg \<and> un > 2 ^ (bits - 1))"
    using assms by (auto simp: ParseInt_def sign split: if_splits sum.splits)
  have pow: "int (2 ^ (bits - 1)) = 2 ^ (bits - 1)" by simp
  show ?thesis
  proof (cases neg)
    case True
    then have "int un \<le> int (2 ^ (bits - 1))" using bound(2) by (subst of_nat_le_iff) simp
    moreover have "(0 :: int) < 2 ^ (bits - 1)" by simp
    ultimately have "- (2 ^ (bits - 1)) \<le> - int un" and "- int un < 2 ^ (bits - 1)" unfolding pow by linarith+
    then show ?thesis using True i by simp
  next
    case False
    then have "int un < int (2 ^ (bits - 1))" using bound(1) by (subst of_nat_less_iff) simp
    then show ?thesis using False i pow by (auto intro: order_trans [of _ 0])
  qed
qed

section \<open>Printing and parsing\<close>

lemma char_code_digit [simp]: "d < 10 \<Longrightarrow> char_code (digit_char d) = 48 + d"
  by (simp add: char_code_def digit_char_def)

lemma is_dec_digit [simp]: "d < 10 \<Longrightarrow> is_dec (digit_char d)"
  by (simp add: is_dec_def)

lemma char_digit_dec: "is_dec c \<Longrightarrow> char_digit c = Some (char_code c - 48)"
  by (simp add: char_digit_def is_dec_def Let_def)

lemma dec_not_special: "is_dec c \<Longrightarrow> c \<notin> {CHR ''_'', CHR ''-'', CHR ''+'', CHR ''.'', CHR ''['', CHR '']'', CHR '':'', CHR '',''}"
  by (auto simp: is_dec_def char_code_def)

lemma show_nat_dec: "\<forall>c\<in>set (show_nat n). is_dec c"
proof (induction n rule: show_nat.induct)
  case (1 n)
  then show ?case by (subst show_nat.simps) (auto simp: is_dec_digit)
qed

lemma show_nat_not_Nil [simp]: "show_nat n \<noteq> []"
  by (subst show_nat.simps) simp

text \<open>The value of a string of decimal digits.\<close>

definition dec_value :: "string \<Rightarrow> nat" where
  "dec_value cs = foldl (\<lambda>a c. a * 10 + (char_code c - 48)) 0 cs"

lemma dec_value_show: "dec_value (show_nat n) = n"
proof (induction n rule: show_nat.induct)
  case (1 n)
  then show ?case by (subst show_nat.simps) (auto simp: dec_value_def)
qed

lemma show_nat_inj: "show_nat m = show_nat n \<Longrightarrow> m = n"
  by (metis dec_value_show)

lemma foldl_dec_mono: "a \<le> foldl (\<lambda>a c. a * 10 + (char_code c - 48)) (a :: nat) cs"
proof (induction cs arbitrary: a)
  case (Cons c cs)
  have "a \<le> a * 10 + (char_code c - 48)" by simp
  also have "\<dots> \<le> foldl (\<lambda>a c. a * 10 + (char_code c - 48)) (a * 10 + (char_code c - 48)) cs" by (rule Cons.IH)
  finally show ?case by simp
qed simp

lemma parse_dec:
  assumes "\<forall>c\<in>set cs. is_dec c" and "foldl (\<lambda>a c. a * 10 + (char_code c - 48)) n cs \<le> maxv"
  shows "parse_digits 10 b0 maxv n cs = Inr (foldl (\<lambda>a c. a * 10 + (char_code c - 48)) n cs)"
  using assms
proof (induction cs arbitrary: n)
  case (Cons c cs)
  have "c \<noteq> CHR ''_''" using Cons.prems(1) dec_not_special [of c] by auto
  moreover have "char_digit c = Some (char_code c - 48)" and "char_code c - 48 < 10"
    using Cons.prems(1) char_digit_dec [of c] by (auto simp: is_dec_def)
  moreover have "n * 10 + (char_code c - 48) \<le> maxv"
    using Cons.prems(2) foldl_dec_mono [of "n * 10 + (char_code c - 48)" cs] by (simp add: order_trans)
  ultimately show ?case using Cons by (simp add: Let_def)
qed simp

lemma show_nat_lead: "n \<noteq> 0 \<Longrightarrow> hd (show_nat n) \<noteq> CHR ''0''"
proof (induction n rule: show_nat.induct)
  case (1 n)
  show ?case
  proof (cases "n < 10")
    case True
    then have "char_code (digit_char n) \<noteq> char_code CHR ''0''" using "1.prems" by (simp add: char_code_def [of "CHR ''0''"])
    then have "digit_char n \<noteq> CHR ''0''" by metis
    with True show ?thesis by (subst show_nat.simps) simp
  next
    case False
    then have "n div 10 \<noteq> 0" by simp
    with 1 False show ?thesis by (subst show_nat.simps) simp
  qed
qed

lemma ParseUint_show:
  assumes "n < 2 ^ bits"
  shows "ParseUint (show_nat n) bits = Inr n"
proof (cases "n = 0")
  case True
  have "show_nat 0 = [CHR ''0'']" by code_simp
  with True show ?thesis by (simp add: ParseUint_def base_prefix_def)
next
  case False
  obtain c cs where sn: "show_nat n = c # cs" by (cases "show_nat n") auto
  have "c \<noteq> CHR ''0''" using show_nat_lead [OF False] by (simp add: sn)
  then have "base_prefix (show_nat n) = (10, show_nat n)" by (simp add: sn base_prefix_def)
  moreover have "parse_digits 10 True (2 ^ bits - 1) 0 (show_nat n) = Inr n"
    using parse_dec [OF show_nat_dec, of 0 n "2 ^ bits - 1" True] dec_value_show [of n] assms
    by (simp add: dec_value_def)
  moreover have "CHR ''_'' \<notin> set (show_nat n)" using show_nat_dec [of n] dec_not_special by blast
  ultimately show ?thesis by (simp add: ParseUint_def)
qed

lemma ParseInt_show:
  assumes "- (2 ^ (bits - 1)) \<le> i" and "i < 2 ^ (bits - 1)" and "0 < bits"
  shows "ParseInt (show_int i) bits = Inr i"
proof -
  have half: "(2 :: nat) ^ bits = 2 * 2 ^ (bits - 1)" using assms(3) by (cases bits) auto
  have pos: "(0 :: nat) < 2 ^ (bits - 1)" by simp
  show ?thesis
  proof (cases "i < 0")
    case True
    have le: "nat (- i) \<le> 2 ^ (bits - 1)" using assms(1) by (simp add: nat_le_iff)
    then have "nat (- i) < 2 ^ bits" using half pos by linarith
    with True le show ?thesis by (simp add: ParseInt_def show_int_def split_sign_def ParseUint_show)
  next
    case False
    have lt: "nat i < 2 ^ (bits - 1)" using assms(2) False by (simp add: nat_less_iff)
    then have "nat i < 2 ^ bits" using half pos by linarith
    moreover obtain c cs where sn: "show_nat (nat i) = c # cs" by (cases "show_nat (nat i)") auto
    moreover have "c \<noteq> CHR ''+'' \<and> c \<noteq> CHR ''-''" using show_nat_dec [of "nat i"] dec_not_special [of c] by (simp add: sn)
    ultimately show ?thesis using False lt ParseUint_show [of "nat i" bits]
      by (simp add: ParseInt_def show_int_def split_sign_def)
  qed
qed

lemma Atoi_show:
  assumes "- (2 ^ 63) \<le> i" and "i < 2 ^ 63"
  shows "Atoi (show_int i) = (None, i)"
proof -
  have parse: "parse_digits 10 False (2 ^ 64 - 1) 0 (show_nat n) = Inr n" if "n \<le> 2 ^ 63" for n
    using parse_dec [OF show_nat_dec, of 0 n "2 ^ 64 - 1" False] dec_value_show [of n] that by (simp add: dec_value_def)
  show ?thesis
  proof (cases "i < 0")
    case True
    then have "nat (- i) \<le> 2 ^ 63" using assms(1) by (simp add: nat_le_iff)
    with True parse [of "nat (- i)"] show ?thesis by (simp add: Atoi_def show_int_def split_sign_def)
  next
    case False
    then have "nat i < 2 ^ 63" using assms(2) by (simp add: nat_less_iff)
    moreover obtain d ds where sn: "show_nat (nat i) = d # ds" by (cases "show_nat (nat i)") auto
    moreover have "d \<noteq> CHR ''+'' \<and> d \<noteq> CHR ''-''" using show_nat_dec [of "nat i"] dec_not_special [of d] by (simp add: sn)
    ultimately show ?thesis using False parse [of "nat i"] by (simp add: Atoi_def show_int_def split_sign_def)
  qed
qed

end
