(* ===== verification/Bind.thy ===== *)
theory Bind
  imports Resolver Strconv
begin

text \<open>
  The configuration binder of \<open>ag/ag_conf/bind.go\<close>: it walks a Go value by its type, with the \<open>reflect\<close>
  package, and fills it with properties of the environment. Types and values are datatypes here, the
  walk is a function on the type, and a bound variable is a value that is returned updated, together
  with the error if there is one; a panic of the walk is \<open>Inl\<close>.
\<close>

section \<open>Types and values\<close>

text \<open>What \<open>reflect.StructField\<close> tells about a field, with its two tags.\<close>

record field_info =
  fi_Name :: string
  fi_Exported :: bool
  fi_Anonymous :: bool
  fi_value :: "string option"
  fi_required :: "string option"

datatype gotype =
    TInt nat
  | TUint nat
  | TFloat nat
  | TBool
  | TString
  | TDuration
  | TPointer gotype
  | TArray gotype
  | TSlice gotype
  | TMap gotype gotype
  | TStruct "(field_info \<times> gotype) list"
  | TOther

text \<open>Floats are bit patterns; a pointer owns what it points to.\<close>

datatype govalue =
    VInt int
  | VUint nat
  | VFloat "64 word"
  | VBool bool
  | VString string
  | VPointer "govalue option"
  | VArray "govalue list"
  | VSlice "govalue list"
  | VMap "(string \<times> govalue) list"
  | VStruct "govalue list"
  | VOther

fun zero_value :: "gotype \<Rightarrow> govalue" where
  "zero_value (TInt b) = VInt 0"
| "zero_value (TUint b) = VUint 0"
| "zero_value (TFloat b) = VFloat 0"
| "zero_value TBool = VBool False"
| "zero_value TString = VString []"
| "zero_value TDuration = VInt 0"
| "zero_value (TPointer t) = VPointer None"
| "zero_value (TArray t) = VArray []"
| "zero_value (TSlice t) = VSlice []"
| "zero_value (TMap k t) = VMap []"
| "zero_value (TStruct fs) = VStruct (map (\<lambda>(f, t). zero_value t) fs)"
| "zero_value TOther = VOther"

fun has_type :: "gotype \<Rightarrow> govalue \<Rightarrow> bool"
  and have_types :: "(field_info \<times> gotype) list \<Rightarrow> govalue list \<Rightarrow> bool"
where
  "has_type (TInt b) v = (case v of VInt i \<Rightarrow> - (2 ^ (b - 1)) \<le> i \<and> i < 2 ^ (b - 1) | _ \<Rightarrow> False)"
| "has_type (TUint b) v = (case v of VUint n \<Rightarrow> n < 2 ^ b | _ \<Rightarrow> False)"
| "has_type (TFloat b) v = (case v of VFloat f \<Rightarrow> True | _ \<Rightarrow> False)"
| "has_type TBool v = (case v of VBool x \<Rightarrow> True | _ \<Rightarrow> False)"
| "has_type TString v = (case v of VString x \<Rightarrow> True | _ \<Rightarrow> False)"
| "has_type TDuration v = (case v of VInt i \<Rightarrow> - (2 ^ 63) \<le> i \<and> i < 2 ^ 63 | _ \<Rightarrow> False)"
| "has_type (TPointer t) v = (case v of VPointer None \<Rightarrow> True | VPointer (Some w) \<Rightarrow> has_type t w | _ \<Rightarrow> False)"
| "has_type (TArray t) v = (case v of VArray vs \<Rightarrow> \<forall>w\<in>set vs. has_type t w | _ \<Rightarrow> False)"
| "has_type (TSlice t) v = (case v of VSlice vs \<Rightarrow> \<forall>w\<in>set vs. has_type t w | _ \<Rightarrow> False)"
| "has_type (TMap k t) v = (case v of
      VMap kvs \<Rightarrow> (kvs = [] \<or> k = TString) \<and> distinct (map fst kvs) \<and> (\<forall>w\<in>snd ` set kvs. has_type t w) | _ \<Rightarrow> False)"
| "has_type (TStruct fs) v = (case v of VStruct vs \<Rightarrow> have_types fs vs | _ \<Rightarrow> False)"
| "has_type TOther v = (case v of VOther \<Rightarrow> True | _ \<Rightarrow> False)"
| "have_types [] vs = (vs = [])"
| "have_types ((f, t) # fs) vs = (case vs of [] \<Rightarrow> False | v # vs' \<Rightarrow> has_type t v \<and> have_types fs vs')"

text \<open>A type has only the integer widths of Go.\<close>

fun go_type :: "gotype \<Rightarrow> bool" where
  "go_type (TInt b) \<longleftrightarrow> b \<in> {8, 16, 32, 64}"
| "go_type (TUint b) \<longleftrightarrow> b \<in> {8, 16, 32, 64}"
| "go_type (TFloat b) \<longleftrightarrow> b \<in> {32, 64}"
| "go_type (TPointer t) \<longleftrightarrow> go_type t"
| "go_type (TArray t) \<longleftrightarrow> go_type t"
| "go_type (TSlice t) \<longleftrightarrow> go_type t"
| "go_type (TMap k t) \<longleftrightarrow> go_type k \<and> go_type t"
| "go_type (TStruct fs) \<longleftrightarrow> (\<forall>ft\<in>set fs. go_type (snd ft))"
| "go_type _ \<longleftrightarrow> True"

section \<open>Tags\<close>

datatype bind_error =
    CanNotSet
  | UnBindableType
  | UnsupportedType
  | NotPointer
  | NonEmptyDefault
  | NotExist string
  | InvalidSyntax
  | Conversion num_error
  | BadDuration

record ParsedTag =
  pt_Key :: string
  pt_Def :: string
  pt_HasDef :: bool

record BindParam =
  bp_Key :: string
  bp_PTag :: ParsedTag
  bp_Required :: bool

definition no_tag :: ParsedTag where
  "no_tag = \<lparr>pt_Key = [], pt_Def = [], pt_HasDef = False\<rparr>"

definition key_param :: "string \<Rightarrow> BindParam" where
  "key_param key = \<lparr>bp_Key = key, bp_PTag = no_tag, bp_Required = False\<rparr>"

definition last_index :: "char \<Rightarrow> string \<Rightarrow> nat option" where
  "last_index c s = (if c \<in> set s then Some (length s - 1 - length (takeWhile (\<lambda>x. x \<noteq> c) (rev s))) else None)"

text \<open>\<open>SplitN(s, ":", 2)\<close>.\<close>

definition split_once :: "char \<Rightarrow> string \<Rightarrow> string \<times> string option" where
  "split_once c s = (let a = takeWhile (\<lambda>x. x \<noteq> c) s in
     (a, if length a < length s then Some (drop (length a + 1) s) else None))"

text \<open>The slice of the tag panics when the prefix stands behind the suffix.\<close>

definition ParseTag :: "string \<Rightarrow> (bind_error + ParsedTag) go" where
  "ParseTag tag = (case last_index (CHR ''}'') tag of
      None \<Rightarrow> Inr (Inl InvalidSyntax)
    | Some j \<Rightarrow>
        if j = 0 then Inr (Inl InvalidSyntax)
        else (case strings_Index tag ''${'' of
            None \<Rightarrow> Inr (Inl InvalidSyntax)
          | Some k \<Rightarrow> go_bind (go_slice tag (k + 2) j) (\<lambda>body.
              (case split_once (CHR '':'') body of (key, def) \<Rightarrow>
                 Inr (Inr (case def of
                     None \<Rightarrow> \<lparr>pt_Key = key, pt_Def = [], pt_HasDef = False\<rparr>
                   | Some d \<Rightarrow> \<lparr>pt_Key = key, pt_Def = d, pt_HasDef = True\<rparr>))))))"

definition BindTag :: "string \<Rightarrow> BindParam \<Rightarrow> (bind_error + BindParam) go" where
  "BindTag tag param = go_bind (ParseTag tag) (\<lambda>res. case res of
      Inl e \<Rightarrow> Inr (Inl e)
    | Inr pt \<Rightarrow>
        if pt_Key pt = [] then if pt_HasDef pt then Inr (Inr (param\<lparr>bp_PTag := pt\<rparr>)) else Inr (Inl InvalidSyntax)
        else let pt = (if pt_Key pt = ''ROOT'' then pt\<lparr>pt_Key := []\<rparr> else pt);
                 key = (if bp_Key param = [] then pt_Key pt
                        else if pt_Key pt \<noteq> [] then bp_Key param @ ''.'' @ pt_Key pt else bp_Key param)
             in Inr (Inr (param\<lparr>bp_Key := key, bp_PTag := pt\<rparr>)))"

section \<open>Keys of the environment\<close>

text \<open>
  The environment: the sources, the lookup of a property, and the two conversions of the standard library
  that work on floating point numbers (\<open>strconv.ParseFloat\<close>, and \<open>time.ParseDuration\<close>, where \<open>Inl True\<close>
  is the error for a missing unit).
\<close>

record bind_env =
  be_sources :: "PropertySource list"
  be_GetProperty :: "string \<Rightarrow> string"
  be_ParseFloat :: "string \<Rightarrow> nat \<Rightarrow> num_error + 64 word"
  be_ParseDuration :: "string \<Rightarrow> bool + 64 word"

definition env_keys :: "bind_env \<Rightarrow> string list" where
  "env_keys env = concat (map (\<lambda>ps. map fst (ps_Source ps)) (be_sources env))"

text \<open>The regular expression \<^verbatim>\<open>^.+\[\d+\]$\<close>.\<close>

definition isArrayKey :: "string \<Rightarrow> bool" where
  "isArrayKey key = (case rev key of
      CHR '']'' # r \<Rightarrow> (let ds = takeWhile is_dec r; p = dropWhile is_dec r in
        ds \<noteq> [] \<and> (case p of c # q \<Rightarrow> c = CHR ''['' \<and> q \<noteq> [] \<and> CHR ''\<newline>'' \<notin> set q | [] \<Rightarrow> False))
    | _ \<Rightarrow> False)"

definition containsDescendantOfName :: "bind_env \<Rightarrow> string \<Rightarrow> bool" where
  "containsDescendantOfName env name =
     list_ex (\<lambda>k. strings_EqualFold k name \<or> hasPrefixIgnoreCase k (name @ ''.'')
        \<or> isArrayKey name \<and> hasPrefixIgnoreCase k (name @ ''['') \<and> isArrayKey k) (env_keys env)"

definition getDescendantKeysOfName :: "bind_env \<Rightarrow> string \<Rightarrow> string list" where
  "getDescendantKeysOfName env name = filter (\<lambda>k. k = name \<or> hasPrefixIgnoreCase k (name @ ''.'')) (env_keys env)"

text \<open>The end of the first segment of a sub-key: the first dot or bracket that is not at the beginning.\<close>

definition segment_end :: "string \<Rightarrow> nat" where
  "segment_end s = (let mi = length s;
       mi = (case strings_Index s ''.'' of Some d \<Rightarrow> if 0 < d \<and> d < mi then d else mi | None \<Rightarrow> mi);
       mi = (case strings_Index s ''['' of Some b \<Rightarrow> if 0 < b \<and> b < mi then b else mi | None \<Rightarrow> mi)
     in mi)"

fun sub_keys :: "string \<Rightarrow> string \<Rightarrow> string list \<Rightarrow> string list \<Rightarrow> string list" where
  "sub_keys name prefix [] acc = acc"
| "sub_keys name prefix (k # ks) acc =
     (if k = name \<or> \<not> hasPrefixIgnoreCase k prefix then sub_keys name prefix ks acc
      else let s = trimPrefixIgnoreCase k prefix; s = take (segment_end s) s in
        sub_keys name prefix ks (if s \<noteq> [] \<and> s \<notin> set acc then acc @ [s] else acc))"

definition getDescendantSubKeysOfName :: "bind_env \<Rightarrow> string \<Rightarrow> string list" where
  "getDescendantSubKeysOfName env name =
     sub_keys name (if name \<noteq> [] then name @ ''.'' else name) (getDescendantKeysOfName env name) []"

section \<open>Values\<close>

fun collection_elem :: "gotype \<Rightarrow> gotype option" where
  "collection_elem (TMap k t) = Some t"
| "collection_elem (TSlice t) = Some t"
| "collection_elem (TPointer t) = Some t"
| "collection_elem (TArray t) = None"
| "collection_elem t = Some t"

fun basic_kind :: "gotype \<Rightarrow> bool" where
  "basic_kind (TPointer t) = False"
| "basic_kind (TArray t) = False"
| "basic_kind TOther = False"
| "basic_kind t = True"

definition IsBindableType :: "gotype \<Rightarrow> bool" where
  "IsBindableType t = (case collection_elem t of None \<Rightarrow> False | Some e \<Rightarrow> basic_kind e)"

fun parseValue :: "bind_env \<Rightarrow> string \<Rightarrow> gotype \<Rightarrow> govalue \<Rightarrow> bind_error option \<times> govalue" where
  "parseValue env s (TInt b) v = (case ParseInt s b of Inl e \<Rightarrow> (Some (Conversion e), v) | Inr i \<Rightarrow> (None, VInt i))"
| "parseValue env s TDuration v = (case be_ParseDuration env s of
      Inr d \<Rightarrow> (None, VInt (sint d))
    | Inl missing_unit \<Rightarrow>
        if missing_unit
        then (case ParseInt s 64 of Inl e \<Rightarrow> (Some (Conversion e), v) | Inr i \<Rightarrow> (None, VInt i))
        else (Some BadDuration, v))"
| "parseValue env s (TUint b) v = (case ParseUint s b of Inl e \<Rightarrow> (Some (Conversion e), v) | Inr n \<Rightarrow> (None, VUint n))"
| "parseValue env s (TFloat b) v = (case be_ParseFloat env s b of Inl e \<Rightarrow> (Some (Conversion e), v) | Inr f \<Rightarrow> (None, VFloat f))"
| "parseValue env s TBool v = (case ParseBool s of Inl e \<Rightarrow> (Some (Conversion e), v) | Inr b \<Rightarrow> (None, VBool b))"
| "parseValue env s TString v = (None, VString s)"
| "parseValue env s t v = (Some UnsupportedType, v)"

definition doBindValue :: "bind_env \<Rightarrow> gotype \<Rightarrow> govalue \<Rightarrow> BindParam \<Rightarrow> bind_error option \<times> govalue" where
  "doBindValue env t v p = (let val = be_GetProperty env (bp_Key p) in
     if val = []
     then if pt_HasDef (bp_PTag p) then parseValue env (pt_Def (bp_PTag p)) t v
          else if bp_Required p then (Some (NotExist (bp_Key p)), v)
          else (None, v)
     else parseValue env val t v)"

section \<open>The walk\<close>

type_synonym bind_result = "(bind_error option \<times> govalue) go"

text \<open>\<open>bindSlice\<close>: elements \<open>key[0]\<close>, \<open>key[1]\<close> and so on as long as the environment has keys for them. The
  fuel is one more than the number of keys.\<close>

fun slice_loop ::
  "nat \<Rightarrow> (govalue \<Rightarrow> BindParam \<Rightarrow> bind_result) \<Rightarrow> bind_env \<Rightarrow> govalue \<Rightarrow> BindParam \<Rightarrow> nat \<Rightarrow> govalue list
    \<Rightarrow> (bind_error option \<times> govalue list) go" where
  "slice_loop 0 bind env z p i acc = Inl Diverges"
| "slice_loop (Suc fuel) bind env z p i acc =
     (let sub = key_param (bp_Key p @ ''['' @ show_nat i @ '']'') in
      if \<not> containsDescendantOfName env (bp_Key sub)
      then Inr (if i = 0 \<and> bp_Required p then Some (NotExist (bp_Key sub)) else None, acc)
      else go_bind (bind z sub) (\<lambda>(err, ev). case err of
          Some e \<Rightarrow> Inr (Some e, acc)
        | None \<Rightarrow> slice_loop fuel bind env z p (i + 1) (acc @ [ev])))"

text \<open>\<open>bindMap\<close>: \<open>SetMapIndex\<close> panics unless the keys of the map are strings (maps keyed by an interface are
  left out). The order of a source stands for the order in which \<open>range\<close> visits it.\<close>

definition set_map :: "string \<Rightarrow> govalue \<Rightarrow> (string \<times> govalue) list \<Rightarrow> (string \<times> govalue) list" where
  "set_map k v m = filter (\<lambda>kv. fst kv \<noteq> k) m @ [(k, v)]"

fun map_loop ::
  "bool \<Rightarrow> (govalue \<Rightarrow> BindParam \<Rightarrow> bind_result) \<Rightarrow> govalue \<Rightarrow> BindParam \<Rightarrow> string list \<Rightarrow> (string \<times> govalue) list
    \<Rightarrow> (bind_error option \<times> (string \<times> govalue) list) go" where
  "map_loop string_keys bind z p [] acc = Inr (None, acc)"
| "map_loop string_keys bind z p (k # ks) acc =
     (let key = (if bp_Key p \<noteq> [] then bp_Key p @ ''.'' @ k else bp_Key p) in
      go_bind (bind z (key_param key)) (\<lambda>(err, ev). case err of
          Some e \<Rightarrow> Inr (Some e, acc)
        | None \<Rightarrow> if string_keys then map_loop string_keys bind z p ks (set_map k ev acc)
                  else Inl (Panicked ''value of type string is not assignable to the key type'')))"

definition bindMap ::
  "bind_env \<Rightarrow> (govalue \<Rightarrow> BindParam \<Rightarrow> bind_result) \<Rightarrow> bool \<Rightarrow> govalue \<Rightarrow> govalue \<Rightarrow> BindParam \<Rightarrow> bind_result" where
  "bindMap env bind string_keys z v p =
     (if pt_HasDef (bp_PTag p) \<and> pt_Def (bp_PTag p) \<noteq> [] then Inr (Some NonEmptyDefault, v)
      else if \<not> containsDescendantOfName env (bp_Key p)
      then Inr (if \<not> pt_HasDef (bp_PTag p) \<and> bp_Required p then Some (NotExist (bp_Key p)) else None, VMap [])
      else go_bind (map_loop string_keys bind z p (getDescendantSubKeysOfName env (bp_Key p)) [])
             (\<lambda>(err, m). Inr (err, VMap m)))"

text \<open>The checks of \<open>bindStruct\<close> before it visits the fields: \<open>Some\<close> is the result when it stops there.\<close>

definition struct_stops :: "bind_env \<Rightarrow> BindParam \<Rightarrow> bind_error option option" where
  "struct_stops env p =
     (if pt_HasDef (bp_PTag p) \<and> pt_Def (bp_PTag p) \<noteq> [] then Some (Some NonEmptyDefault)
      else if \<not> containsDescendantOfName env (bp_Key p)
      then Some (if \<not> pt_HasDef (bp_PTag p) \<and> bp_Required p then Some (NotExist (bp_Key p)) else None)
      else None)"

text \<open>The parameter for a field: its tags, or the name of the field when they give no key.\<close>

definition field_param :: "BindParam \<Rightarrow> field_info \<Rightarrow> (bind_error + BindParam) go" where
  "field_param p f =
     go_bind (case fi_value f of None \<Rightarrow> Inr (Inr (key_param (bp_Key p))) | Some tag \<Rightarrow> BindTag tag (key_param (bp_Key p)))
       (\<lambda>res. Inr (case res of
           Inl e \<Rightarrow> Inl e
         | Inr sub \<Rightarrow> (case (case fi_required f of None \<Rightarrow> Inr (bp_Required sub) | Some r \<Rightarrow> ParseBool r) of
               Inl e \<Rightarrow> Inl (Conversion e)
             | Inr req \<Rightarrow>
                 Inr (sub\<lparr>bp_Required := req,
                     bp_Key := (if bp_Key sub = bp_Key p
                                then if bp_Key p = [] then fi_Name f else bp_Key p @ ''.'' @ fi_Name f
                                else bp_Key sub)\<rparr>))))"

fun struct_values :: "govalue \<Rightarrow> govalue list" where
  "struct_values (VStruct vs) = vs"
| "struct_values v = []"

fun BindValue :: "bind_env \<Rightarrow> gotype \<Rightarrow> govalue \<Rightarrow> BindParam \<Rightarrow> bind_result"
  and bindFields :: "bind_env \<Rightarrow> (field_info \<times> gotype) list \<Rightarrow> govalue list \<Rightarrow> BindParam \<Rightarrow> (bind_error option \<times> govalue list) go"
where
  "BindValue env (TPointer t) v p =
     (if \<not> IsBindableType (TPointer t) then Inr (Some UnBindableType, v)
      else (case v of
          VPointer (Some w) \<Rightarrow> go_bind (BindValue env t w p) (\<lambda>(err, w'). Inr (err, VPointer (Some w')))
        | _ \<Rightarrow> Inr (Some CanNotSet, v)))"
| "BindValue env (TArray t) v p = Inr (Some UnBindableType, v)"
| "BindValue env (TSlice t) v p =
     (if \<not> IsBindableType (TSlice t) then Inr (Some UnBindableType, v)
      else go_bind (slice_loop (Suc (length (env_keys env))) (BindValue env t) env (zero_value t) p 0 [])
             (\<lambda>(err, vs). Inr (err, VSlice vs)))"
| "BindValue env (TMap k t) v p =
     (if \<not> IsBindableType (TMap k t) then Inr (Some UnBindableType, v)
      else bindMap env (BindValue env t) (k = TString) (zero_value t) v p)"
| "BindValue env (TStruct fs) v p = (case struct_stops env p of
      Some r \<Rightarrow> Inr (r, v)
    | None \<Rightarrow> go_bind (bindFields env fs (struct_values v) p) (\<lambda>(err, vs). Inr (err, VStruct vs)))"
| "BindValue env TOther v p = Inr (Some UnBindableType, v)"
| "BindValue env (TInt b) v p = Inr (doBindValue env (TInt b) v p)"
| "BindValue env (TUint b) v p = Inr (doBindValue env (TUint b) v p)"
| "BindValue env (TFloat b) v p = Inr (doBindValue env (TFloat b) v p)"
| "BindValue env TBool v p = Inr (doBindValue env TBool v p)"
| "BindValue env TString v p = Inr (doBindValue env TString v p)"
| "BindValue env TDuration v p = Inr (doBindValue env TDuration v p)"
| "bindFields env [] vs p = Inr (None, vs)"
| "bindFields env ((f, t) # fs) [] p = Inr (None, [])"
| "bindFields env ((f, t) # fs) (v # vs) p =
     (let rest = (\<lambda>v'. go_bind (bindFields env fs vs p) (\<lambda>(err, vs'). Inr (err, v' # vs'))) in
      if \<not> fi_Exported f then rest v
      else if fi_Anonymous f
      then (case t of
          TStruct gs \<Rightarrow> (case struct_stops env (key_param (bp_Key p)) of
              Some None \<Rightarrow> rest v
            | Some (Some e) \<Rightarrow> Inr (Some e, v # vs)
            | None \<Rightarrow> go_bind (bindFields env gs (struct_values v) (key_param (bp_Key p))) (\<lambda>(err, ws). case err of
                  Some e \<Rightarrow> Inr (Some e, VStruct ws # vs)
                | None \<Rightarrow> rest (VStruct ws)))
        | _ \<Rightarrow> rest v)
      else go_bind (field_param p f) (\<lambda>res. case res of
          Inl e \<Rightarrow> Inr (Some e, v # vs)
        | Inr sub \<Rightarrow> go_bind (BindValue env t v sub) (\<lambda>(err, v'). case err of
              Some e \<Rightarrow> Inr (Some e, v' # vs)
            | None \<Rightarrow> rest v')))"

text \<open>\<open>Bind\<close> of a pointer to a variable. It also registers a listener for the root key, at the first value of
  the walk that is not a pointer; a pointer to a pointer that cannot be bound is refused before. An argument
  that is not a pointer, or a nil pointer, is refused as well.\<close>

fun watched_keys :: "gotype \<Rightarrow> BindParam \<Rightarrow> string list" where
  "watched_keys (TPointer t) p = (if IsBindableType (TPointer t) then [bp_Key p] else [])"
| "watched_keys t p = [bp_Key p]"

definition cpb_Bind :: "bind_env \<Rightarrow> gotype \<Rightarrow> govalue \<Rightarrow> string option \<Rightarrow> bind_result \<times> string list" where
  "cpb_Bind env t v name = (case t of
      TPointer e \<Rightarrow> (case v of
          VPointer (Some w) \<Rightarrow>
            (let rootkey = (case name of Some n \<Rightarrow> if n \<noteq> [] then n else ''ROOT'' | None \<Rightarrow> ''ROOT'') in
             case BindTag (''${'' @ rootkey @ ''}'') (key_param []) of
               Inl x \<Rightarrow> (Inl x, [])
             | Inr (Inl err) \<Rightarrow> (Inr (Some err, v), [])
             | Inr (Inr root) \<Rightarrow>
                 (go_bind (BindValue env e w root) (\<lambda>(err, w'). Inr (err, VPointer (Some w'))), watched_keys e root))
        | _ \<Rightarrow> (Inr (Some CanNotSet, v), []))
    | _ \<Rightarrow> (Inr (Some NotPointer, v), []))"

section \<open>Type soundness\<close>

lemma zero_value_type: "go_type t \<Longrightarrow> has_type t (zero_value t)"
proof (induction t)
  case (TStruct fs)
  have "\<forall>ft\<in>set gs. has_type (snd ft) (zero_value (snd ft)) \<Longrightarrow> have_types gs (map (\<lambda>(f, t). zero_value t) gs)" for gs
    by (induction gs) auto
  moreover have "\<forall>ft\<in>set fs. has_type (snd ft) (zero_value (snd ft))"
    using TStruct by (auto simp: snds.simps)
  ultimately show ?case by simp
qed auto

lemma parseValue_type:
  assumes "has_type t v" and "parseValue env s t v = (err, v')"
  shows "has_type t v'"
  using assms
proof (cases t)
  case TDuration
  have "- (2 ^ 63) \<le> sint d \<and> sint d < 2 ^ 63" for d :: "64 word"
    using sint_ge [of d] sint_lt [of d] by simp
  with assms TDuration ParseInt_range [of s 64] show ?thesis by (auto split: sum.splits if_splits)
next
  case (TInt b)
  with assms ParseInt_range [of s b] show ?thesis by (auto split: sum.splits)
next
  case (TUint b)
  with assms ParseUint_range [of s b] show ?thesis by (auto split: sum.splits)
qed (auto split: sum.splits)

lemma doBindValue_type: "has_type t v \<Longrightarrow> doBindValue env t v p = (err, v') \<Longrightarrow> has_type t v'"
  by (auto simp: doBindValue_def Let_def parseValue_type split: if_splits)

text \<open>A binder for the elements of a collection that keeps their type.\<close>

definition keeps_type :: "gotype \<Rightarrow> (govalue \<Rightarrow> BindParam \<Rightarrow> bind_result) \<Rightarrow> bool" where
  "keeps_type t bind \<longleftrightarrow> (\<forall>v p err v'. has_type t v \<longrightarrow> bind v p = Inr (err, v') \<longrightarrow> has_type t v')"

lemma slice_loop_type:
  assumes "keeps_type t bind" and "has_type t z" and "slice_loop fuel bind env z p i acc = Inr (err, vs)"
    and "\<forall>w\<in>set acc. has_type t w"
  shows "\<forall>w\<in>set vs. has_type t w"
  using assms(3,4)
proof (induction fuel arbitrary: i acc)
  case (Suc fuel)
  define sub where "sub = key_param (bp_Key p @ ''['' @ show_nat i @ '']'')"
  note step = Suc.prems(1) [unfolded slice_loop.simps Let_def, folded sub_def]
  show ?case
  proof (cases "containsDescendantOfName env (bp_Key sub)")
    case False
    then show ?thesis using step Suc.prems(2) by simp
  next
    case True
    with step have *: "go_bind (bind z sub) (\<lambda>(err, ev). case err of
        Some e \<Rightarrow> Inr (Some e, acc) | None \<Rightarrow> slice_loop fuel bind env z p (i + 1) (acc @ [ev])) = Inr (err, vs)"
      by simp
    then obtain e ev where b: "bind z sub = Inr (e, ev)" by (elim go_bind_InrE) auto
    have ev: "has_type t ev" using assms(1,2) b by (auto simp: keeps_type_def)
    show ?thesis
    proof (cases e)
      case None
      then have "slice_loop fuel bind env z p (i + 1) (acc @ [ev]) = Inr (err, vs)" using * by (simp add: b)
      then show ?thesis by (rule Suc.IH) (use Suc.prems(2) ev in auto)
    qed (use * b Suc.prems(2) in simp)
  qed
qed simp

lemma map_loop_type:
  assumes "keeps_type t bind" and "has_type t z" and "map_loop (k = TString) bind z p ks acc = Inr (err, m)"
    and "has_type (TMap k t) (VMap acc)"
  shows "has_type (TMap k t) (VMap m)"
  using assms(3,4)
proof (induction ks arbitrary: acc)
  case (Cons x ks)
  define sub where "sub = key_param (if bp_Key p \<noteq> [] then bp_Key p @ ''.'' @ x else bp_Key p)"
  have *: "go_bind (bind z sub) (\<lambda>(err, ev). case err of
        Some e \<Rightarrow> Inr (Some e, acc)
      | None \<Rightarrow> if k = TString then map_loop (k = TString) bind z p ks (set_map x ev acc)
                else Inl (Panicked ''value of type string is not assignable to the key type'')) = Inr (err, m)"
    using Cons.prems(1) unfolding map_loop.simps Let_def sub_def .
  then obtain e ev where b: "bind z sub = Inr (e, ev)" by (elim go_bind_InrE) auto
  have ev: "has_type t ev" using assms(1,2) b by (auto simp: keeps_type_def)
  show ?case
  proof (cases e)
    case None
    with * b have k: "k = TString" and loop: "map_loop (k = TString) bind z p ks (set_map x ev acc) = Inr (err, m)"
      by (auto split: if_splits)
    have "has_type (TMap k t) (VMap (set_map x ev acc))"
      using Cons.prems(2) ev k by (auto simp: set_map_def distinct_map_filter)
    with loop show ?thesis by (rule Cons.IH)
  next
    case (Some y)
    with * b Cons.prems(2) show ?thesis by simp
  qed
qed simp

definition fields_keep :: "bind_env \<Rightarrow> (field_info \<times> gotype) list \<Rightarrow> bool" where
  "fields_keep env fs \<longleftrightarrow> (\<forall>vs p err vs'. have_types fs vs \<longrightarrow> bindFields env fs vs p = Inr (err, vs') \<longrightarrow> have_types fs vs')"

lemma bindFields_type:
  assumes "\<forall>ft\<in>set fs. keeps_type (snd ft) (BindValue env (snd ft)) \<and> (\<forall>gs. snd ft = TStruct gs \<longrightarrow> fields_keep env gs)"
  shows "fields_keep env fs"
  using assms
proof (induction fs)
  case Nil
  show ?case by (simp add: fields_keep_def)
next
  case (Cons ft fs)
  obtain f t where ft: "ft = (f, t)" by fastforce
  have keep: "keeps_type t (BindValue env t)" and anon: "\<And>gs. t = TStruct gs \<Longrightarrow> fields_keep env gs"
    and IH: "fields_keep env fs"
    using Cons by (auto simp: ft)
  show ?case unfolding fields_keep_def
  proof (intro allI impI)
    fix vs p err vs'
    assume typed: "have_types (ft # fs) vs" and run: "bindFields env (ft # fs) vs p = Inr (err, vs')"
    obtain v ws where vs: "vs = v # ws" and v: "has_type t v" and ws: "have_types fs ws"
      using typed by (auto simp: ft split: list.splits)
    define rest where "rest = (\<lambda>v'. go_bind (bindFields env fs ws p) (\<lambda>(err, vs'). Inr (err, v' # vs')))"
    have rest: "has_type t v' \<Longrightarrow> rest v' = Inr (err, vs') \<Longrightarrow> have_types (ft # fs) vs'" for v'
      using IH ws by (auto simp: rest_def ft fields_keep_def elim!: go_bind_InrE)
    have stop: "has_type t v' \<Longrightarrow> have_types (ft # fs) (v' # ws)" for v' using ws by (simp add: ft)
    show "have_types (ft # fs) vs'"
    proof (cases "fi_Exported f \<and> \<not> fi_Anonymous f")
      case True
      with run have *: "go_bind (field_param p f) (\<lambda>res. case res of
          Inl e \<Rightarrow> Inr (Some e, v # ws)
        | Inr sub \<Rightarrow> go_bind (BindValue env t v sub) (\<lambda>(err, v'). case err of
              Some e \<Rightarrow> Inr (Some e, v' # ws)
            | None \<Rightarrow> rest v')) = Inr (err, vs')"
        unfolding rest_def by (simp add: ft vs)
      show ?thesis
        using * keep v rest stop unfolding keeps_type_def
        by (elim go_bind_InrE) (fastforce split: sum.splits option.splits elim!: go_bind_InrE)
    next
      case plain: False
      show ?thesis
      proof (cases "\<exists>gs. fi_Exported f \<and> t = TStruct gs")
        case False
        with run plain have "rest v = Inr (err, vs')"
          by (cases "fi_Exported f"; cases t) (simp_all add: ft vs rest_def)
        with v show ?thesis by (rule rest)
      next
        case True
        then obtain gs where t: "t = TStruct gs" and ex: "fi_Exported f" "fi_Anonymous f" using plain by auto
        obtain us where us: "v = VStruct us" "have_types gs us" using v by (auto simp: t split: govalue.splits)
        have sub: "have_types gs us'" if "bindFields env gs us q = Inr (e, us')" for q e us'
          using anon [OF t] us(2) that by (auto simp: fields_keep_def)
        have run': "(case struct_stops env (key_param (bp_Key p)) of
              Some None \<Rightarrow> rest v
            | Some (Some e) \<Rightarrow> Inr (Some e, v # ws)
            | None \<Rightarrow> go_bind (bindFields env gs us (key_param (bp_Key p))) (\<lambda>(err, ws'). case err of
                  Some e \<Rightarrow> Inr (Some e, VStruct ws' # ws)
                | None \<Rightarrow> rest (VStruct ws'))) = Inr (err, vs')"
          using run ex unfolding rest_def us(1) by (simp add: ft vs t us(1) cong: option.case_cong)
        show ?thesis
        proof (cases "struct_stops env (key_param (bp_Key p))")
          case None
          with run' obtain e us' where b: "bindFields env gs us (key_param (bp_Key p)) = Inr (e, us')"
            by (auto elim!: go_bind_InrE)
          have "has_type t (VStruct us')" using sub [OF b] by (simp add: t)
          with run' None b rest stop show ?thesis by (cases e) auto
        next
          case (Some r)
          with run' rest [OF v] stop [OF v] show ?thesis by (cases r) auto
        qed
      qed
    qed
  qed
qed

lemma BindValue_keeps:
  "go_type t \<Longrightarrow> keeps_type t (BindValue env t) \<and> (\<forall>gs. t = TStruct gs \<longrightarrow> fields_keep env gs)"
proof (induction t)
  case (TPointer t)
  then show ?case
    by (auto simp: keeps_type_def split: if_splits govalue.splits option.splits elim!: go_bind_InrE)
next
  case (TSlice t)
  then have "keeps_type t (BindValue env t)" and "has_type t (zero_value t)" by (auto simp: zero_value_type)
  from slice_loop_type [OF this] show ?case
    by (auto simp: keeps_type_def simp del: slice_loop.simps split: if_splits elim!: go_bind_InrE)
next
  case (TMap k t)
  then have "keeps_type t (BindValue env t)" and "has_type t (zero_value t)" by (auto simp: zero_value_type)
  from map_loop_type [OF this, of k] show ?case
    by (fastforce simp: keeps_type_def bindMap_def simp del: map_loop.simps split: if_splits elim!: go_bind_InrE)
next
  case (TStruct fs)
  then have "fields_keep env fs" by (intro bindFields_type) (auto simp: snds.simps)
  then show ?case
    by (auto simp: keeps_type_def fields_keep_def split: option.splits govalue.splits elim!: go_bind_InrE)
qed (auto simp: keeps_type_def doBindValue_type simp del: has_type.simps)

text \<open>C20: binding is type-safe. Whatever the environment holds, a variable that is bound has a value of its
  type afterwards, also when the binding stops with an error half-way: integers are in the range of
  their width, maps have string keys, structures have all their fields.\<close>

theorem binding_is_type_safe:
  assumes "go_type t" and "has_type t v" and "cpb_Bind env t v name = (Inr (err, v'), reg)"
  shows "has_type t v'"
proof (cases t)
  case (TPointer e)
  have keep: "keeps_type e (BindValue env e)" using BindValue_keeps [of e env] assms(1) by (simp add: TPointer)
  show ?thesis
  proof (cases "\<exists>w. v = VPointer (Some w)")
    case True
    then obtain w where v: "v = VPointer (Some w)" by blast
    have "has_type e w" using assms(2) by (simp add: TPointer v)
    with keep assms(2,3) show ?thesis
      by (auto simp: cpb_Bind_def TPointer v keeps_type_def Let_def split: sum.splits elim!: go_bind_InrE)
  next
    case False
    with assms(2,3) show ?thesis by (auto simp: cpb_Bind_def TPointer split: govalue.splits option.splits)
  qed
qed (use assms(2,3) in \<open>auto simp: cpb_Bind_def\<close>)

definition server_type :: gotype where
  "server_type = TStruct [
     (\<lparr>fi_Name = ''Host'', fi_Exported = True, fi_Anonymous = False, fi_value = Some ''${host:localhost}'', fi_required = None\<rparr>, TString),
     (\<lparr>fi_Name = ''Port'', fi_Exported = True, fi_Anonymous = False, fi_value = None, fi_required = Some ''true''\<rparr>, TUint 8),
     (\<lparr>fi_Name = ''Peers'', fi_Exported = True, fi_Anonymous = False, fi_value = None, fi_required = None\<rparr>, TSlice TString)]"

definition env_of :: "(string \<times> string) list \<Rightarrow> bind_env" where
  "env_of kvs = \<lparr>be_sources = [\<lparr>ps_ptr = 0, ps_Name = ''local'', ps_Source = map (\<lambda>(k, v). (k, StrVal v)) kvs\<rparr>],
     be_GetProperty = (\<lambda>key. case find (\<lambda>(k, v). strings_EqualFold k key) kvs of None \<Rightarrow> [] | Some (k, v) \<Rightarrow> v),
     be_ParseFloat = (\<lambda>s b. Inl ErrSyntax), be_ParseDuration = (\<lambda>s. Inl False)\<rparr>"

definition server_env :: bind_env where
  "server_env = env_of [(''server.port'', ''0x1F''), (''server.peers[0]'', ''a''), (''server.peers[1]'', ''b'')]"

theorem binding_is_type_safe_witness:
  "cpb_Bind server_env (TPointer server_type) (VPointer (Some (zero_value server_type))) (Some ''server'') =
     (Inr (None, VPointer (Some (VStruct [VString ''localhost'', VUint 31, VSlice [VString ''a'', VString ''b'']]))), [''server''])
   \<and> has_type (TPointer server_type) (VPointer (Some (VStruct [VString ''localhost'', VUint 31, VSlice [VString ''a'', VString ''b'']])))"
proof -
  have run: "cpb_Bind server_env (TPointer server_type) (VPointer (Some (zero_value server_type))) (Some ''server'') =
     (Inr (None, VPointer (Some (VStruct [VString ''localhost'', VUint 31, VSlice [VString ''a'', VString ''b'']]))), [''server''])"
    by code_simp
  moreover have "go_type (TPointer server_type)" and "has_type (TPointer server_type) (VPointer (Some (zero_value server_type)))"
    by (simp_all add: server_type_def)
  ultimately show ?thesis using binding_is_type_safe by blast
qed

section \<open>Termination\<close>

text \<open>A byte that is equal to a digit or a bracket up to case is equal to it.\<close>

lemma same_fold_exact:
  assumes "same_byte_fold (of_char c) (of_char d)" and "of_char d < (65 :: nat) \<or> of_char d \<in> {91, 93 :: nat}"
  shows "c = d"
proof -
  have "(of_char c :: nat) = of_char d"
    using assms by (auto simp: same_byte_fold_def ascii_lower_def rune_lower_def Let_def split: if_splits)
  then show ?thesis by simp
qed


















text \<open>Without a name, or with an empty one, \<open>Bind\<close> silently binds nothing to a structure: the root key is
  the empty key, and no key that the readers produce is empty or starts with a dot.\<close>

theorem root_structure_is_not_bound:
  assumes "\<forall>k\<in>set (env_keys env). k \<noteq> [] \<and> hd k \<noteq> CHR ''.''" and "name = None \<or> name = Some []"
  shows "fst (cpb_Bind env (TPointer (TStruct fs)) (VPointer (Some v)) name) = Inr (None, VPointer (Some v))"
proof -
  have root: "BindTag ''${ROOT}'' (key_param []) = Inr (Inr (\<lparr>bp_Key = [], bp_PTag = no_tag, bp_Required = False\<rparr>))"
    by code_simp
  have "\<not> strings_EqualFold k [] \<and> \<not> hasPrefixIgnoreCase k ''.''" if "k \<in> set (env_keys env)" for k
    using assms(1) that same_fold_exact [of "hd k" "CHR ''.''"]
    by (cases k) (auto simp: strings_EqualFold_def hasPrefixIgnoreCase_def)
  moreover have "\<not> isArrayKey []" by (simp add: isArrayKey_def)
  ultimately have "\<not> containsDescendantOfName env []" by (auto simp: containsDescendantOfName_def list_ex_iff)
  then show ?thesis using assms(2)
    by (auto simp: cpb_Bind_def root struct_stops_def no_tag_def)
qed

theorem root_structure_is_not_bound_witness:
  "fst (cpb_Bind (env_of [(''port'', ''1'')]) (TPointer server_type) (VPointer (Some (zero_value server_type))) None)
     = Inr (None, VPointer (Some (zero_value server_type)))"
  using root_structure_is_not_bound [of "env_of [(''port'', ''1'')]" None]
  by (simp add: env_of_def env_keys_def server_type_def)

end
