(* ===== verification/AsyncLog.thy ===== *)
theory AsyncLog
  imports Prelude "HOL-Library.Multiset"
begin

text \<open>
  Asynchronous logging, \<open>ag/ag_log/async\<close>: log records travel in pooled task objects through a bounded
  channel from the callers of \<open>Handle\<close> to the workers of a group, and the group is shared by reference
  counting. Callers, workers and a stop run concurrently; the model is a state machine whose steps are the
  channel operations of the code, so that a run is any interleaving of them. The state carries the history of
  the records that were given, logged, dropped and lost, which the code does not have.
\<close>

section \<open>The group and its threads\<close>

record AsyncGroupConfig =
  Worker :: nat
  Queue :: nat
  FullStrategy :: string

text \<open>A worker waits in the blocking select, works on a task, polls for more tasks, or has returned.\<close>

datatype worker =
    Waiting
  | Working nat
  | Polling
  | Returned

text \<open>The points of a call of \<open>Submit\<close> between its channel operations.\<close>

datatype submit =
    Submitting nat
  | Sent
  | Dropping nat
  | TakingOld nat
  | DroppingOld nat nat
  | SendingAgain nat
  | Finished

text \<open>\<open>Stop\<close> is either not running or has received some of the tokens of the workers.\<close>

datatype stop = NotStopping | Stopping nat

record 'r WorkerGroup =
  config :: AsyncGroupConfig
  registered :: bool
  logQueue :: "nat list"
  workers :: "worker list"
  workerCount :: nat
  shutdownChan :: bool
  doneChan :: nat
  Queued :: nat
  Processed :: nat
  Dropped :: nat
  Errors :: nat
  Refs :: nat
  refCount :: int
  taskPool :: "nat list"
  logTask :: "nat \<Rightarrow> 'r option"
  submits :: "submit list"
  stopping :: stop
  crash :: "panic option"
  given :: "'r list"
  sent :: "'r list"
  logged :: "'r list"
  dropped :: "'r list"
  lost :: "'r list"

text \<open>The state before the first \<open>GetWorkerGroup\<close>.\<close>

definition no_group :: "AsyncGroupConfig \<Rightarrow> 'r WorkerGroup" where
  "no_group c = \<lparr>config = c, registered = False, logQueue = [], workers = [], workerCount = 0,
     shutdownChan = False, doneChan = 0, Queued = 0, Processed = 0, Dropped = 0, Errors = 0, Refs = 0,
     refCount = 0, taskPool = [], logTask = (\<lambda>_. None), submits = [], stopping = NotStopping, crash = None,
     given = [], sent = [], logged = [], dropped = [], lost = []\<rparr>"

section \<open>Tasks\<close>

text \<open>\<open>Borrow\<close> takes an object of the pool, by its position, or a new one.\<close>

definition Borrow :: "nat + nat \<Rightarrow> 'r WorkerGroup \<Rightarrow> (nat \<times> 'r WorkerGroup) option" where
  "Borrow choice s = (case choice of
      Inl i \<Rightarrow> if i < length (taskPool s)
               then Some (taskPool s ! i, s\<lparr>taskPool := take i (taskPool s) @ drop (Suc i) (taskPool s)\<rparr>) else None
    | Inr t \<Rightarrow> if logTask s t \<noteq> None \<or> t \<in> set (taskPool s) then None else Some (t, s))"

text \<open>\<open>Return\<close> resets the task and puts it into the pool.\<close>

definition ReturnTask :: "nat \<Rightarrow> 'r WorkerGroup \<Rightarrow> 'r WorkerGroup" where
  "ReturnTask t s = s\<lparr>taskPool := t # taskPool s, logTask := (logTask s)(t := None)\<rparr>"

definition record_of :: "'r WorkerGroup \<Rightarrow> nat \<Rightarrow> 'r" where
  "record_of s t = the (logTask s t)"

section \<open>Submitting\<close>

text \<open>\<open>AsyncHandler.Handle\<close> fills a task and calls \<open>Submit\<close>.\<close>

definition Handle :: "'r \<Rightarrow> nat + nat \<Rightarrow> 'r WorkerGroup \<Rightarrow> 'r WorkerGroup option" where
  "Handle r choice s = (if \<not> registered s then None else (case Borrow choice s of
      None \<Rightarrow> None
    | Some (t, s') \<Rightarrow> Some (s'\<lparr>logTask := (logTask s')(t := Some r), submits := submits s' @ [Submitting t],
                              given := given s' @ [r]\<rparr>)))"

definition room :: "'r WorkerGroup \<Rightarrow> bool" where
  "room s \<longleftrightarrow> length (logQueue s) < Queue (config s)"

definition send :: "nat \<Rightarrow> nat \<Rightarrow> 'r WorkerGroup \<Rightarrow> 'r WorkerGroup" where
  "send i t s = s\<lparr>logQueue := logQueue s @ [t], submits := (submits s)[i := Sent], sent := sent s @ [record_of s t]\<rparr>"

definition pc :: "nat \<Rightarrow> submit \<Rightarrow> 'r WorkerGroup \<Rightarrow> 'r WorkerGroup" where
  "pc i p s = s\<lparr>submits := (submits s)[i := p]\<rparr>"

definition drop_task :: "nat \<Rightarrow> 'r WorkerGroup \<Rightarrow> 'r WorkerGroup" where
  "drop_task t s = ReturnTask t (s\<lparr>Dropped := Dropped s + 1, dropped := dropped s @ [record_of s t]\<rparr>)"

text \<open>The first select of \<open>Submit\<close>; \<open>None\<close> is a call that blocks. With a strategy that it does not know, \<open>Submit\<close>
  forgets the task.\<close>

definition submit_first :: "nat \<Rightarrow> nat \<Rightarrow> 'r WorkerGroup \<Rightarrow> 'r WorkerGroup option" where
  "submit_first i t s =
     (if FullStrategy (config s) = ''drop_new'' then Some (if room s then send i t s else pc i (Dropping t) s)
      else if FullStrategy (config s) = ''block_wait'' then if room s then Some (send i t s) else None
      else if FullStrategy (config s) = ''drop_old'' then Some (if room s then send i t s else pc i (TakingOld t) s)
      else Some (pc i Finished (s\<lparr>lost := lost s @ [record_of s t]\<rparr>)))"

text \<open>One step of the call \<open>i\<close> of \<open>Submit\<close>.\<close>

definition Submit :: "nat \<Rightarrow> 'r WorkerGroup \<Rightarrow> 'r WorkerGroup option" where
  "Submit i s = (if length (submits s) \<le> i then None else (case submits s ! i of
      Submitting t \<Rightarrow> submit_first i t s
    | Sent \<Rightarrow> Some (pc i Finished (s\<lparr>Queued := Queued s + 1\<rparr>))
    | Dropping t \<Rightarrow> Some (pc i Finished (drop_task t s))
    | TakingOld t \<Rightarrow> (case logQueue s of
          [] \<Rightarrow> Some (pc i (Dropping t) s)
        | old # q \<Rightarrow> Some (pc i (DroppingOld t old) (s\<lparr>logQueue := q\<rparr>)))
    | DroppingOld t old \<Rightarrow> Some (pc i (SendingAgain t) (drop_task old s))
    | SendingAgain t \<Rightarrow> Some (if room s then send i t s else pc i (Dropping t) s)
    | Finished \<Rightarrow> None))"

section \<open>Workers\<close>

definition set_worker :: "nat \<Rightarrow> worker \<Rightarrow> 'r WorkerGroup \<Rightarrow> 'r WorkerGroup" where
  "set_worker i w s = s\<lparr>workers := (workers s)[i := w]\<rparr>"

text \<open>A worker receives a task, in the blocking select or while polling.\<close>

definition receive :: "nat \<Rightarrow> 'r WorkerGroup \<Rightarrow> 'r WorkerGroup option" where
  "receive i s = (if i < length (workers s) \<and> workers s ! i \<in> {Waiting, Polling} then (case logQueue s of
      [] \<Rightarrow> None
    | t # q \<Rightarrow> Some (set_worker i (Working t) (s\<lparr>logQueue := q\<rparr>))) else None)"

text \<open>The polling select finds no task.\<close>

definition poll_default :: "nat \<Rightarrow> 'r WorkerGroup \<Rightarrow> 'r WorkerGroup option" where
  "poll_default i s = (if i < length (workers s) \<and> workers s ! i = Polling \<and> logQueue s = []
     then Some (set_worker i Waiting s) else None)"

text \<open>The blocking select sees the shutdown, and the worker returns and leaves a token.\<close>

definition quit :: "nat \<Rightarrow> 'r WorkerGroup \<Rightarrow> 'r WorkerGroup option" where
  "quit i s = (if i < length (workers s) \<and> workers s ! i = Waiting \<and> shutdownChan s
     then Some (set_worker i Returned (s\<lparr>doneChan := doneChan s + 1\<rparr>)) else None)"

text \<open>The end of \<open>processTask\<close>: the wrapped handler has logged the record or failed on it. A task that was reset
  has no handler, and calling it is a nil dereference.\<close>

definition processTask :: "nat \<Rightarrow> bool \<Rightarrow> 'r WorkerGroup \<Rightarrow> 'r WorkerGroup option" where
  "processTask i failed s = (if length (workers s) \<le> i then None else (case workers s ! i of
      Working t \<Rightarrow> Some (case logTask s t of
          None \<Rightarrow> s\<lparr>crash := Some NilDereference\<rparr>
        | Some r \<Rightarrow> set_worker i Polling (ReturnTask t (s\<lparr>logged := logged s @ [r],
              Errors := Errors s + (if failed then 1 else 0), Processed := Processed s + (if failed then 0 else 1)\<rparr>)))
    | _ \<Rightarrow> None))"

section \<open>Starting, stopping and sharing\<close>

definition NewWorkerGroup :: "'r WorkerGroup \<Rightarrow> 'r WorkerGroup" where
  "NewWorkerGroup s = s\<lparr>logQueue := [], workers := replicate (Worker (config s)) Waiting,
     workerCount := Worker (config s), shutdownChan := False, doneChan := 0,
     Queued := 0, Processed := 0, Dropped := 0, Errors := 0, Refs := 0, refCount := 0\<rparr>"

definition Ref :: "'r WorkerGroup \<Rightarrow> 'r WorkerGroup" where
  "Ref s = s\<lparr>refCount := refCount s + 1, Refs := Refs s + 1\<rparr>"

text \<open>The lock of the manager is held during a release, so that the two wait for each other.\<close>

definition GetWorkerGroup :: "'r WorkerGroup \<Rightarrow> 'r WorkerGroup option" where
  "GetWorkerGroup s = (if stopping s \<noteq> NotStopping then None
     else Some (if registered s then Ref s else Ref ((NewWorkerGroup s)\<lparr>registered := True\<rparr>)))"

text \<open>The end of a release: the manager forgets the group if its statistics count no reference.\<close>

definition forget_unused :: "'r WorkerGroup \<Rightarrow> 'r WorkerGroup" where
  "forget_unused s = (if Refs s = 0 then s\<lparr>registered := False\<rparr> else s)"

text \<open>The beginning of \<open>Stop\<close>: closing a closed channel panics.\<close>

definition begin_stop :: "'r WorkerGroup \<Rightarrow> 'r WorkerGroup" where
  "begin_stop s = (if workerCount s = 0 then forget_unused s
     else if shutdownChan s then s\<lparr>crash := Some (Panicked ''close of closed channel'')\<rparr>
     else s\<lparr>shutdownChan := True, stopping := Stopping 0\<rparr>)"

definition ReleaseWorkerGroup :: "'r WorkerGroup \<Rightarrow> 'r WorkerGroup option" where
  "ReleaseWorkerGroup s = (if stopping s \<noteq> NotStopping then None
     else if \<not> registered s then Some s
     else let s = s\<lparr>refCount := refCount s - 1\<rparr> in
       Some (if refCount s \<le> 0 then begin_stop s else forget_unused s))"

text \<open>\<open>Stop\<close> receives the token of a worker, or gives up after the time limit.\<close>

definition stop_receive :: "'r WorkerGroup \<Rightarrow> 'r WorkerGroup option" where
  "stop_receive s = (case stopping s of
      Stopping c \<Rightarrow>
        if 0 < doneChan s
        then Some (if c + 1 < Worker (config s) then s\<lparr>doneChan := doneChan s - 1, stopping := Stopping (c + 1)\<rparr>
             else forget_unused (s\<lparr>doneChan := doneChan s - 1, workerCount := 0, stopping := NotStopping\<rparr>))
        else None
    | NotStopping \<Rightarrow> None)"

definition stop_timeout :: "'r WorkerGroup \<Rightarrow> 'r WorkerGroup option" where
  "stop_timeout s = (case stopping s of
      Stopping c \<Rightarrow> Some (forget_unused (s\<lparr>stopping := NotStopping\<rparr>))
    | NotStopping \<Rightarrow> None)"

section \<open>Runs\<close>

datatype 'r action =
    AHandle 'r "nat + nat"
  | ASubmit nat
  | AReceive nat
  | APollDefault nat
  | AQuit nat
  | AProcess nat bool
  | AGet
  | ARelease
  | AStopReceive
  | AStopTimeout

fun act :: "'r action \<Rightarrow> 'r WorkerGroup \<Rightarrow> 'r WorkerGroup option" where
  "act (AHandle r choice) s = Handle r choice s"
| "act (ASubmit i) s = Submit i s"
| "act (AReceive i) s = receive i s"
| "act (APollDefault i) s = poll_default i s"
| "act (AQuit i) s = quit i s"
| "act (AProcess i failed) s = processTask i failed s"
| "act AGet s = GetWorkerGroup s"
| "act ARelease s = ReleaseWorkerGroup s"
| "act AStopReceive s = stop_receive s"
| "act AStopTimeout s = stop_timeout s"

fun run_group :: "'r action list \<Rightarrow> 'r WorkerGroup \<Rightarrow> 'r WorkerGroup option" where
  "run_group [] s = Some s"
| "run_group (a # as) s = (case act a s of None \<Rightarrow> None | Some s' \<Rightarrow> if crash s' = None then run_group as s' else Some s')"

text \<open>The states a group with a channel of some capacity can reach.\<close>

inductive reachable :: "AsyncGroupConfig \<Rightarrow> 'r WorkerGroup \<Rightarrow> bool" for c where
  start: "0 < Queue c \<Longrightarrow> reachable c (no_group c)"
| step: "reachable c s \<Longrightarrow> crash s = None \<Longrightarrow> act a s = Some s' \<Longrightarrow> reachable c s'"

section \<open>Ownership of tasks\<close>

fun worker_task :: "worker \<Rightarrow> nat multiset" where
  "worker_task (Working t) = {#t#}"
| "worker_task w = {#}"

fun submit_tasks :: "submit \<Rightarrow> nat multiset" where
  "submit_tasks (Submitting t) = {#t#}"
| "submit_tasks (Dropping t) = {#t#}"
| "submit_tasks (TakingOld t) = {#t#}"
| "submit_tasks (DroppingOld t old) = {#t, old#}"
| "submit_tasks (SendingAgain t) = {#t#}"
| "submit_tasks _ = {#}"

definition all_of :: "('a \<Rightarrow> nat multiset) \<Rightarrow> 'a list \<Rightarrow> nat multiset" where
  "all_of f xs = sum_list (map f xs)"

lemma all_of_simps [simp]:
  "all_of f [] = {#}" "all_of f (x # xs) = f x + all_of f xs" "all_of f (xs @ ys) = all_of f xs + all_of f ys"
  "all_of worker_task (replicate n Waiting) = {#}"
  by (simp_all add: all_of_def, induction n, simp_all)

lemma all_of_update: "i < length xs \<Longrightarrow> all_of f (xs[i := y]) + f (xs ! i) = all_of f xs + f y"
  by (induction xs arbitrary: i) (auto split: nat.splits simp: ac_simps)

lemma all_of_member: "i < length xs \<Longrightarrow> t \<in># f (xs ! i) \<Longrightarrow> t \<in># all_of f xs"
  by (induction xs arbitrary: i) (auto simp: nth_Cons split: nat.splits)

text \<open>The tasks on their way: in the channel, with a worker or with a caller.\<close>

definition held :: "'r WorkerGroup \<Rightarrow> nat multiset" where
  "held s = mset (logQueue s) + all_of worker_task (workers s) + all_of submit_tasks (submits s)"

text \<open>Every task has one owner, a task on its way has its record, and the records add up.\<close>

definition flow_inv :: "'r WorkerGroup \<Rightarrow> bool" where
  "flow_inv s \<longleftrightarrow>
     (\<forall>t. count (mset (taskPool s) + held s) t \<le> 1)
   \<and> (\<forall>t. t \<in># held s \<longrightarrow> logTask s t \<noteq> None)
   \<and> mset (given s) = mset (logged s) + mset (dropped s) + mset (lost s) + image_mset (record_of s) (held s)"

lemma record_of_cong: "logTask s' = logTask s \<Longrightarrow> record_of s' = record_of s"
  by (simp add: record_of_def fun_eq_iff)

text \<open>The four ways in which tasks and records move.\<close>

lemma flow_keep:
  assumes "flow_inv s" and "held s' = held s" and "taskPool s' = taskPool s" and "logTask s' = logTask s"
    and "given s' = given s" and "logged s' = logged s" and "dropped s' = dropped s" and "lost s' = lost s"
  shows "flow_inv s'"
  using assms record_of_cong [OF assms(4)] by (simp add: flow_inv_def)

lemma flow_lose:
  assumes "flow_inv s" and "held s = add_mset t (held s')" and "taskPool s' = taskPool s" and "logTask s' = logTask s"
    and "given s' = given s" and "logged s' = logged s" and "dropped s' = dropped s" and "lost s' = lost s @ [record_of s t]"
  shows "flow_inv s'"
proof -
  have "count (mset (taskPool s') + held s') u \<le> 1" for u
  proof -
    have "count (mset (taskPool s') + held s') u \<le> count (mset (taskPool s) + held s) u" using assms(2,3) by simp
    then show ?thesis using assms(1) by (metis flow_inv_def order_trans)
  qed
  then show ?thesis using assms record_of_cong [OF assms(4)] by (simp add: flow_inv_def)
qed

lemma flow_retire:
  assumes "flow_inv s" and "held s = add_mset t (held s')"
    and "taskPool s' = t # taskPool s" and "logTask s' = (logTask s)(t := None)"
    and "given s' = given s" and "lost s' = lost s"
    and "mset (logged s') + mset (dropped s') = add_mset (record_of s t) (mset (logged s) + mset (dropped s))"
  shows "flow_inv s'"
proof -
  have one: "count (mset (taskPool s) + held s) u \<le> 1" for u using assms(1) by (simp add: flow_inv_def)
  have fresh: "t \<notin># held s'" using one [of t] assms(2) by (auto simp: not_in_iff)
  then have "image_mset (record_of s') (held s') = image_mset (record_of s) (held s')"
    by (intro image_mset_cong) (auto simp: record_of_def assms(4))
  then have "mset (given s') = mset (logged s') + mset (dropped s') + mset (lost s') + image_mset (record_of s') (held s')"
    using assms by (simp add: flow_inv_def)
  moreover have "\<forall>u. u \<in># held s' \<longrightarrow> logTask s' u \<noteq> None"
    using assms(1,2,4) fresh by (auto simp: flow_inv_def)
  moreover have "\<forall>u. count (mset (taskPool s') + held s') u \<le> 1" using one assms(2,3) by simp
  ultimately show ?thesis by (simp add: flow_inv_def)
qed

lemma flow_borrow:
  assumes "flow_inv s" and "held s' = add_mset t (held s)" and "logTask s' = (logTask s)(t := Some r)"
    and "t \<notin># held s" and "add_mset t (mset (taskPool s')) = mset (taskPool s) \<or> t \<notin> set (taskPool s) \<and> taskPool s' = taskPool s"
    and "given s' = given s @ [r]" and "logged s' = logged s" and "dropped s' = dropped s" and "lost s' = lost s"
  shows "flow_inv s'"
proof -
  have one: "count (mset (taskPool s) + held s) u \<le> 1" for u using assms(1) by (simp add: flow_inv_def)
  have "image_mset (record_of s') (held s) = image_mset (record_of s) (held s)"
    using assms(4) by (intro image_mset_cong) (auto simp: record_of_def assms(3))
  then have "mset (given s') = mset (logged s') + mset (dropped s') + mset (lost s') + image_mset (record_of s') (held s')"
    using assms by (simp add: flow_inv_def record_of_def [of s' t])
  moreover have "\<forall>u. u \<in># held s' \<longrightarrow> logTask s' u \<noteq> None"
    using assms(1,2,3) by (auto simp: flow_inv_def)
  moreover have "count (mset (taskPool s') + held s') u \<le> 1" for u
    using assms(5)
  proof
    assume "add_mset t (mset (taskPool s')) = mset (taskPool s)"
    then have "mset (taskPool s') + held s' = mset (taskPool s) + held s" using assms(2) by simp
    then show ?thesis using one by metis
  next
    assume "t \<notin> set (taskPool s) \<and> taskPool s' = taskPool s"
    then show ?thesis using one [of u] assms(2,4) by (auto simp: not_in_iff)
  qed
  ultimately show ?thesis by (simp add: flow_inv_def)
qed

text \<open>How the operations move tasks between the owners.\<close>

lemma held_pc:
  assumes "i < length (submits s)"
  shows "held (pc i p s) + submit_tasks (submits s ! i) = held s + submit_tasks p"
  using all_of_update [OF assms, of submit_tasks p] by (simp add: held_def pc_def ac_simps)

lemma held_send:
  assumes "i < length (submits s)"
  shows "held (send i t s) + submit_tasks (submits s ! i) = add_mset t (held s)"
  using all_of_update [OF assms, of submit_tasks Sent] by (simp add: held_def send_def ac_simps)

lemma held_set_worker:
  assumes "i < length (workers s)"
  shows "held (set_worker i w s) + worker_task (workers s ! i) = held s + worker_task w"
  using all_of_update [OF assms, of worker_task w] by (simp add: held_def set_worker_def ac_simps)

lemma held_queue: "logQueue s = t # q \<Longrightarrow> held s = add_mset t (held (s\<lparr>logQueue := q\<rparr>))"
  by (simp add: held_def)

lemma held_drop_task [simp]: "held (drop_task t s) = held s"
  by (simp add: held_def drop_task_def ReturnTask_def)

lemma held_ReturnTask [simp]: "held (ReturnTask t s) = held s"
  by (simp add: held_def ReturnTask_def)

lemma submits_queue [simp]: "submits (drop_task t s) = submits s"
  by (simp add: drop_task_def ReturnTask_def)


lemma flow_send:
  assumes "flow_inv s" and "i < length (submits s)" and "submit_tasks (submits s ! i) = {#t#}"
  shows "flow_inv (send i t s)"
  using held_send [OF assms(2), of t] assms(3) by (intro flow_keep [OF assms(1)]) (simp_all add: send_def)

lemma flow_pc:
  assumes "flow_inv s" and "i < length (submits s)" and "submit_tasks (submits s ! i) = submit_tasks p"
  shows "flow_inv (pc i p s)"
  using held_pc [OF assms(2), of p] assms(3) by (intro flow_keep [OF assms(1)]) (simp_all add: pc_def)

lemma flow_drop:
  assumes "flow_inv s" and "i < length (submits s)" and "submit_tasks (submits s ! i) = add_mset t (submit_tasks p)"
  shows "flow_inv (pc i p (drop_task t s))"
proof (rule flow_retire [OF assms(1)])
  show "held s = add_mset t (held (pc i p (drop_task t s)))"
    using held_pc [of i "drop_task t s" p] assms(2,3) by simp
qed (simp_all add: pc_def drop_task_def ReturnTask_def)

lemma flow_Submit:
  assumes "flow_inv s" and "Submit i s = Some s'"
  shows "flow_inv s'"
proof -
  have i: "i < length (submits s)" using assms(2) by (auto simp: Submit_def split: if_splits)
  note flow = flow_send [OF assms(1) i] flow_pc [OF assms(1) i] flow_drop [OF assms(1) i]
  show ?thesis
  proof (cases "submits s ! i")
    case (Submitting t)
    have "flow_inv (pc i Finished (s\<lparr>lost := lost s @ [record_of s t]\<rparr>))"
    proof (rule flow_lose [OF assms(1)])
      show "held s = add_mset t (held (pc i Finished (s\<lparr>lost := lost s @ [record_of s t]\<rparr>)))"
        using held_pc [of i "s\<lparr>lost := lost s @ [record_of s t]\<rparr>" Finished] i Submitting by (simp add: held_def)
    qed (simp_all add: pc_def)
    with Submitting i assms(2) flow show ?thesis by (auto simp: Submit_def submit_first_def split: if_splits)
  next
    case Sent
    have "flow_inv (s\<lparr>Queued := Queued s + 1\<rparr>)" by (rule flow_keep [OF assms(1)]) (simp_all add: held_def)
    from flow_pc [OF this] Sent i assms(2) show ?thesis by (auto simp: Submit_def)
  next
    case (TakingOld t)
    show ?thesis
    proof (cases "logQueue s")
      case Nil
      with TakingOld i assms(2) flow show ?thesis by (auto simp: Submit_def)
    next
      case (Cons old q)
      have "held (pc i (DroppingOld t old) (s\<lparr>logQueue := q\<rparr>)) = held s"
        using held_pc [of i "s\<lparr>logQueue := q\<rparr>" "DroppingOld t old"] i TakingOld held_queue [OF Cons] by simp
      then have "flow_inv (pc i (DroppingOld t old) (s\<lparr>logQueue := q\<rparr>))"
        by (intro flow_keep [OF assms(1)]) (simp_all add: pc_def)
      with TakingOld Cons i assms(2) show ?thesis by (auto simp: Submit_def)
    qed
  qed (use i assms(2) flow in \<open>auto simp: Submit_def split: if_splits\<close>)
qed

lemma flow_worker:
  assumes "flow_inv s" and "receive i s = Some s' \<or> poll_default i s = Some s' \<or> quit i s = Some s'"
  shows "flow_inv s'"
  using assms(2)
proof (elim disjE)
  assume r: "receive i s = Some s'"
  then obtain t q where q: "logQueue s = t # q" "s' = set_worker i (Working t) (s\<lparr>logQueue := q\<rparr>)"
    and i: "i < length (workers s)" "workers s ! i \<in> {Waiting, Polling}"
    by (auto simp: receive_def split: if_splits list.splits)
  have "held s' = held s"
    using held_set_worker [of i "s\<lparr>logQueue := q\<rparr>" "Working t"] i held_queue [OF q(1)] by (auto simp: q(2))
  then show ?thesis by (intro flow_keep [OF assms(1)]) (simp_all add: q(2) set_worker_def)
next
  assume "poll_default i s = Some s'"
  then have "s' = set_worker i Waiting s" and i: "i < length (workers s)" "workers s ! i = Polling"
    by (auto simp: poll_default_def split: if_splits)
  with held_set_worker [OF i(1), of Waiting] show ?thesis
    by (intro flow_keep [OF assms(1)]) (simp_all add: set_worker_def)
next
  assume "quit i s = Some s'"
  then have s': "s' = set_worker i Returned (s\<lparr>doneChan := doneChan s + 1\<rparr>)" and i: "i < length (workers s)" "workers s ! i = Waiting"
    by (auto simp: quit_def split: if_splits)
  have "held s' = held s" using held_set_worker [of i "s\<lparr>doneChan := doneChan s + 1\<rparr>" Returned] i
    by (simp add: s') (simp add: held_def)
  then show ?thesis by (intro flow_keep [OF assms(1)]) (simp_all add: s' set_worker_def)
qed

lemma working_record:
  assumes "flow_inv s" and "i < length (workers s)" and "workers s ! i = Working t"
  shows "\<exists>r. logTask s t = Some r"
proof -
  have "t \<in># held s" using all_of_member [OF assms(2), of t worker_task] assms(3) by (simp add: held_def)
  then show ?thesis using assms(1) by (auto simp: flow_inv_def)
qed

lemma flow_process:
  assumes "flow_inv s" and "processTask i failed s = Some s'"
  shows "flow_inv s'"
proof -
  obtain t where i: "i < length (workers s)" "workers s ! i = Working t"
    using assms(2) by (auto simp: processTask_def split: if_splits worker.splits)
  from working_record [OF assms(1) i] obtain r where r: "logTask s t = Some r" ..
  define u where "u = s\<lparr>logged := logged s @ [r], Errors := Errors s + (if failed then 1 else 0),
    Processed := Processed s + (if failed then 0 else 1)\<rparr>"
  have s': "s' = set_worker i Polling (ReturnTask t u)"
    using assms(2) i r by (simp add: processTask_def u_def)
  have "held s = add_mset t (held s')"
    using held_set_worker [of i "ReturnTask t u" Polling] i by (simp add: s' ReturnTask_def u_def) (simp add: held_def)
  then show ?thesis
    by (rule flow_retire [OF assms(1)]) (simp_all add: s' u_def set_worker_def ReturnTask_def record_of_def r)
qed

lemma flow_Handle:
  assumes "flow_inv s" and "Handle r choice s = Some s'"
  shows "flow_inv s'"
proof -
  obtain t u where u: "Borrow choice s = Some (t, u)"
    and s': "s' = u\<lparr>logTask := (logTask u)(t := Some r), submits := submits u @ [Submitting t], given := given u @ [r]\<rparr>"
    using assms(2) by (auto simp: Handle_def split: if_splits option.splits)
  have one: "count (mset (taskPool s)) t + count (held s) t \<le> 1" using assms(1) by (simp add: flow_inv_def)
  have "t \<notin># held s \<and> (add_mset t (mset (taskPool u)) = mset (taskPool s) \<or> t \<notin> set (taskPool s) \<and> taskPool u = taskPool s)"
  proof (cases choice)
    case (Inl i)
    then have i: "i < length (taskPool s)" "t = taskPool s ! i" "taskPool u = take i (taskPool s) @ drop (Suc i) (taskPool s)"
      using u by (auto simp: Borrow_def split: if_splits)
    then have "taskPool s = take i (taskPool s) @ t # drop (Suc i) (taskPool s)" by (simp add: id_take_nth_drop)
    then have "mset (taskPool s) = add_mset t (mset (taskPool u))" by (metis i(3) mset.simps(2) mset_append union_mset_add_mset_right)
    then show ?thesis using one by (auto simp: not_in_iff)
  next
    case (Inr t')
    then have "u = s" "t' = t" "logTask s t = None" "t \<notin> set (taskPool s)" using u by (auto simp: Borrow_def split: if_splits)
    moreover from this have "t \<notin># held s" using assms(1) by (auto simp: flow_inv_def)
    ultimately show ?thesis by simp
  qed
  moreover have "held u = held s" and "logTask u = logTask s" "given u = given s" "logged u = logged s" "dropped u = dropped s" "lost u = lost s"
    using u by (auto simp: Borrow_def held_def split: sum.splits if_splits)
  moreover have "held s' = add_mset t (held u)" by (simp add: s' held_def)
  ultimately show ?thesis by (intro flow_borrow [OF assms(1), of _ t r]) (simp_all add: s')
qed


section \<open>Workers and the stop\<close>

definition known :: "AsyncGroupConfig \<Rightarrow> bool" where
  "known c \<longleftrightarrow> FullStrategy c \<in> {''drop_new'', ''block_wait'', ''drop_old''}"

definition returned :: "'r WorkerGroup \<Rightarrow> nat" where
  "returned s = count_list (workers s) Returned"

lemma count_list_update:
  "i < length xs \<Longrightarrow> count_list (xs[i := y]) a + of_bool (xs ! i = a) = count_list xs a + of_bool (y = a)"
  by (induction xs arbitrary: i) (fastforce split: nat.splits)+

lemma count_Waiting: "count_list (replicate n Waiting) Returned = 0"
  by (induction n) simp_all

lemma count_list_all: "count_list xs a = length xs \<longleftrightarrow> (\<forall>x\<in>set xs. x = a)"
  by (induction xs) (auto simp: count_le_length le_imp_less_Suc less_imp_neq)

definition stop_inv :: "'r WorkerGroup \<Rightarrow> bool" where
  "stop_inv s \<longleftrightarrow> length (workers s) = Worker (config s) \<and> (case stopping s of
      Stopping k \<Rightarrow> shutdownChan s \<and> k < Worker (config s) \<and> 0 < workerCount s \<and> refCount s \<le> 0 \<and> returned s = doneChan s + k
    | NotStopping \<Rightarrow> (\<not> shutdownChan s \<longrightarrow> returned s = 0 \<and> doneChan s = 0 \<and> workerCount s = Worker (config s))
        \<and> (workerCount s = 0 \<longrightarrow> (\<forall>w\<in>set (workers s). w = Returned)))"

text \<open>The control part of the invariant: the manager never forgets the group, and the workers that have
  returned left their tokens.\<close>

definition control_inv :: "AsyncGroupConfig \<Rightarrow> 'r WorkerGroup \<Rightarrow> bool" where
  "control_inv c s \<longleftrightarrow> config s = c \<and> length (logQueue s) \<le> Queue c
   \<and> (if registered s then 0 < Refs s \<and> stop_inv s else s = no_group c)"

lemma stop_inv_worker:
  assumes "stop_inv s" and "i < length (workers s)" and "workers s ! i \<noteq> Returned" and "w \<noteq> Returned"
    and "workers s' = (workers s)[i := w]" and "config s' = config s" and "stopping s' = stopping s"
    and "shutdownChan s' = shutdownChan s" and "workerCount s' = workerCount s" and "refCount s' = refCount s"
    and "doneChan s' = doneChan s"
  shows "stop_inv s'"
proof -
  have "returned s' = returned s"
    using count_list_update [OF assms(2), of w Returned] assms(3,4) by (simp add: returned_def assms(5))
  moreover have "\<exists>w\<in>set (workers s). w \<noteq> Returned" using assms(2,3) nth_mem by blast
  ultimately show ?thesis using assms by (auto simp: stop_inv_def split: stop.splits)
qed

lemma stop_inv_quit:
  assumes "stop_inv s" and "quit i s = Some s'"
  shows "stop_inv s'"
proof -
  have i: "i < length (workers s)" "workers s ! i = Waiting" "shutdownChan s"
    and s': "s' = set_worker i Returned (s\<lparr>doneChan := doneChan s + 1\<rparr>)"
    using assms(2) by (auto simp: quit_def split: if_splits)
  have "returned s' = returned s + 1"
    using count_list_update [OF i(1), of Returned Returned] i(2) by (simp add: returned_def s' set_worker_def)
  moreover have "\<exists>w\<in>set (workers s). w \<noteq> Returned" using i nth_mem by fastforce
  ultimately show ?thesis using assms(1) i(3) by (auto simp: stop_inv_def s' set_worker_def split: stop.splits)
qed

lemma stop_inv_begin:
  assumes "stop_inv s" and "stopping s = NotStopping" and "refCount s \<le> 0" and "0 < Refs s" and "crash s = None"
  shows "stop_inv (begin_stop s)"
proof (cases "workerCount s = 0 \<or> shutdownChan s")
  case True
  then show ?thesis using assms by (auto simp: begin_stop_def forget_unused_def stop_inv_def returned_def)
next
  case False
  then show ?thesis using assms by (auto simp: begin_stop_def stop_inv_def returned_def)
qed

lemma stop_inv_receive:
  assumes "stop_inv s" and "0 < Refs s" and "stop_receive s = Some s'"
  shows "stop_inv s'"
proof -
  obtain k where k: "stopping s = Stopping k" "0 < doneChan s"
    using assms(3) by (auto simp: stop_receive_def split: stop.splits if_splits)
  have inv: "shutdownChan s" "k < Worker (config s)" "returned s = doneChan s + k" "length (workers s) = Worker (config s)"
    "0 < workerCount s" "refCount s \<le> 0"
    using assms(1) k(1) by (auto simp: stop_inv_def)
  show ?thesis
  proof (cases "k + 1 < Worker (config s)")
    case True
    then show ?thesis using assms(3) k inv by (auto simp: stop_receive_def stop_inv_def returned_def)
  next
    case False
    then have "length (workers s) \<le> returned s" using inv k(2) by linarith
    then have "\<forall>w\<in>set (workers s). w = Returned"
      using count_le_length [of "workers s" Returned] count_list_all [of "workers s" Returned] by (simp add: returned_def)
    then show ?thesis using False assms(2,3) k inv
      by (auto simp: stop_receive_def stop_inv_def returned_def forget_unused_def)
  qed
qed

lemma Submit_control:
  assumes "Submit i s = Some s'"
  shows "config s' = config s" "workers s' = workers s" "workerCount s' = workerCount s" "shutdownChan s' = shutdownChan s"
    "doneChan s' = doneChan s" "refCount s' = refCount s" "Refs s' = Refs s" "stopping s' = stopping s" "registered s' = registered s"
    "crash s' = crash s" "length (logQueue s) \<le> Queue (config s) \<Longrightarrow> length (logQueue s') \<le> Queue (config s)"
  using assms
  by (auto simp: Submit_def submit_first_def send_def pc_def drop_task_def ReturnTask_def room_def
      split: if_splits submit.splits list.splits)

lemma Handle_control:
  assumes "Handle r choice s = Some s'"
  shows "config s' = config s" "workers s' = workers s" "workerCount s' = workerCount s" "shutdownChan s' = shutdownChan s"
    "doneChan s' = doneChan s" "refCount s' = refCount s" "Refs s' = Refs s" "stopping s' = stopping s" "registered s' = registered s"
    "registered s" "crash s' = crash s" "logQueue s' = logQueue s"
  using assms by (auto simp: Handle_def Borrow_def split: if_splits option.splits sum.splits)

lemma stop_inv_cong:
  assumes "stop_inv s" and "config s' = config s" "workers s' = workers s" "workerCount s' = workerCount s" "shutdownChan s' = shutdownChan s"
    "doneChan s' = doneChan s" "refCount s' = refCount s" "stopping s' = stopping s"
  shows "stop_inv s'"
  using assms by (simp add: stop_inv_def returned_def cong: stop.case_cong)

lemma control_step:
  assumes inv: "control_inv c s" and "flow_inv s" and a: "act a s = Some s'" and "crash s = None"
  shows "control_inv c s'"
proof (cases "registered s")
  case False
  then have s: "s = no_group c" using inv by (simp add: control_inv_def)
  then have "s' = s \<or> s' = Ref ((NewWorkerGroup s)\<lparr>registered := True\<rparr>)" using a
    by (cases a) (auto simp: no_group_def Handle_def Submit_def receive_def poll_default_def quit_def processTask_def
        GetWorkerGroup_def ReleaseWorkerGroup_def stop_receive_def stop_timeout_def)
  then show ?thesis using inv s
    by (auto simp: control_inv_def no_group_def Ref_def NewWorkerGroup_def stop_inv_def returned_def count_Waiting)
next
  case True
  then have s: "config s = c" "length (logQueue s) \<le> Queue c" "0 < Refs s" "stop_inv s"
    using inv by (auto simp: control_inv_def)
  show ?thesis
  proof (cases a)
    case (AHandle r choice)
    note c = Handle_control [OF a [unfolded AHandle act.simps]]
    show ?thesis using s c stop_inv_cong [OF s(4) c(1-6,8)] by (simp add: control_inv_def)
  next
    case (ASubmit i)
    note c = Submit_control [OF a [unfolded ASubmit act.simps]]
    show ?thesis using s c True stop_inv_cong [OF s(4) c(1-6,8)] by (simp add: control_inv_def)
  next
    case (AReceive i)
    then obtain t q where q: "logQueue s = t # q" "s' = set_worker i (Working t) (s\<lparr>logQueue := q\<rparr>)"
      and i: "i < length (workers s)" "workers s ! i \<in> {Waiting, Polling}"
      using a by (auto simp: receive_def split: if_splits list.splits)
    have "stop_inv s'" using i by (intro stop_inv_worker [OF s(4) i(1), of "Working t"]) (auto simp: q(2) set_worker_def)
    then show ?thesis using s True q by (simp add: control_inv_def set_worker_def)
  next
    case (APollDefault i)
    then have i: "i < length (workers s)" "workers s ! i = Polling" and s': "s' = set_worker i Waiting s"
      using a by (auto simp: poll_default_def split: if_splits)
    have "stop_inv s'" using i by (intro stop_inv_worker [OF s(4) i(1), of Waiting]) (auto simp: s' set_worker_def)
    then show ?thesis using s True s' by (simp add: control_inv_def set_worker_def)
  next
    case (AQuit i)
    then have "quit i s = Some s'" using a by simp
    moreover from this have "s' = set_worker i Returned (s\<lparr>doneChan := doneChan s + 1\<rparr>)" by (auto simp: quit_def split: if_splits)
    ultimately show ?thesis using s True stop_inv_quit [OF s(4)] by (simp add: control_inv_def set_worker_def)
  next
    case (AProcess i failed)
    then obtain t where i: "i < length (workers s)" "workers s ! i = Working t"
      using a by (auto simp: processTask_def split: if_splits worker.splits)
    from working_record [OF assms(2) i] obtain r where r: "logTask s t = Some r" ..
    have s': "workers s' = (workers s)[i := Polling]" "config s' = config s" "stopping s' = stopping s" "shutdownChan s' = shutdownChan s"
      "workerCount s' = workerCount s" "refCount s' = refCount s" "doneChan s' = doneChan s" "Refs s' = Refs s"
      "registered s' = registered s" "logQueue s' = logQueue s"
      using a AProcess i r by (auto simp: processTask_def set_worker_def ReturnTask_def)
    have "stop_inv s'" using i by (intro stop_inv_worker [OF s(4) i(1), of Polling] s') auto
    then show ?thesis using s True s' by (simp add: control_inv_def)
  next
    case AGet
    then show ?thesis using a s True
      by (auto simp: GetWorkerGroup_def Ref_def control_inv_def stop_inv_def returned_def split: if_splits)
  next
    case ARelease
    define u where "u = s\<lparr>refCount := refCount s - 1\<rparr>"
    have u: "stopping s = NotStopping" "s' = (if refCount u \<le> 0 then begin_stop u else forget_unused u)"
      using a ARelease True by (auto simp: ReleaseWorkerGroup_def u_def Let_def split: if_splits)
    have inv_u: "stop_inv u" "0 < Refs u" using s u(1) by (auto simp: u_def stop_inv_def returned_def)
    have "stop_inv s'" using u inv_u stop_inv_begin [of u] assms(4) by (auto simp: u_def forget_unused_def)
    then show ?thesis using u s True by (auto simp: control_inv_def begin_stop_def forget_unused_def u_def)
  next
    case AStopReceive
    then have "stop_receive s = Some s'" using a by simp
    moreover from this have "config s' = config s" "Refs s' = Refs s" "registered s' = registered s" "logQueue s' = logQueue s"
      using s(3) by (auto simp: stop_receive_def forget_unused_def split: stop.splits if_splits)
    ultimately show ?thesis using s True stop_inv_receive [OF s(4,3)] by (simp add: control_inv_def)
  next
    case AStopTimeout
    then obtain k where "stopping s = Stopping k" "s' = s\<lparr>stopping := NotStopping\<rparr>"
      using a s(3) by (auto simp: stop_timeout_def forget_unused_def split: stop.splits)
    then show ?thesis using s True by (auto simp: control_inv_def stop_inv_def returned_def)
  qed
qed


section \<open>Records and counters\<close>

definition count_inv :: "'r WorkerGroup \<Rightarrow> bool" where
  "count_inv s \<longleftrightarrow> Processed s + Errors s = length (logged s) \<and> Dropped s = length (dropped s)
   \<and> (FullStrategy (config s) = ''block_wait'' \<longrightarrow> dropped s = []
        \<and> (\<forall>p\<in>set (submits s). p = Sent \<or> p = Finished \<or> (\<exists>t. p = Submitting t)))
   \<and> (known (config s) \<longrightarrow> lost s = [])"

lemma count_cong:
  assumes "count_inv s" and "Processed s' = Processed s" "Errors s' = Errors s" "logged s' = logged s" "Dropped s' = Dropped s"
    "dropped s' = dropped s" "config s' = config s" "submits s' = submits s" "lost s' = lost s"
  shows "count_inv s'"
  using assms by (simp add: count_inv_def)

lemma Submit_count:
  assumes "count_inv s" and "Submit i s = Some s'"
  shows "count_inv s'"
proof (cases "FullStrategy (config s) = ''block_wait''")
  case True
  have i: "i < length (submits s)" using assms(2) by (auto simp: Submit_def split: if_splits)
  then have "submits s ! i = Sent \<or> submits s ! i = Finished \<or> (\<exists>t. submits s ! i = Submitting t)"
    using assms(1) True by (auto simp: count_inv_def)
  then have "s' = pc i Finished (s\<lparr>Queued := Queued s + 1\<rparr>) \<or> (\<exists>t. s' = send i t s)"
    using assms(2) True i by (auto simp: Submit_def submit_first_def split: if_splits)
  moreover have "p \<in> set (submits s)" if "p \<in> set ((submits s)[i := q])" "p \<noteq> q" for p q
    using that set_update_subset_insert [of "submits s" i q] by auto
  ultimately show ?thesis using assms(1) True by (fastforce simp: count_inv_def send_def pc_def)
next
  case False
  then show ?thesis using assms
    by (auto simp: count_inv_def Submit_def submit_first_def send_def pc_def drop_task_def ReturnTask_def known_def
        split: if_splits submit.splits list.splits)
qed

lemma count_step:
  assumes "count_inv s" and "flow_inv s" and "control_inv c s" and "act a s = Some s'"
  shows "count_inv s'"
proof (cases a)
  case (AHandle r choice)
  then show ?thesis using assms(1,4)
    by (auto simp: count_inv_def Handle_def Borrow_def split: if_splits sum.splits)
next
  case (ASubmit i) then show ?thesis using Submit_count [OF assms(1)] assms(4) by simp
next
  case (AProcess i failed)
  then obtain t where i: "i < length (workers s)" "workers s ! i = Working t"
    using assms(4) by (auto simp: processTask_def split: if_splits worker.splits)
  from working_record [OF assms(2) i] obtain r where "logTask s t = Some r" ..
  then show ?thesis using assms(1,4) AProcess i
    by (auto simp: processTask_def set_worker_def ReturnTask_def count_inv_def split: if_splits)
next
  case AGet
  then show ?thesis using assms(1,3,4)
    by (auto simp: GetWorkerGroup_def Ref_def NewWorkerGroup_def count_inv_def control_inv_def no_group_def split: if_splits)
next
  case (AReceive i) then show ?thesis using assms(4)
    by (intro count_cong [OF assms(1)]) (auto simp: receive_def set_worker_def split: if_splits list.splits)
next
  case (APollDefault i) then show ?thesis using assms(4)
    by (intro count_cong [OF assms(1)]) (auto simp: poll_default_def set_worker_def split: if_splits)
next
  case (AQuit i) then show ?thesis using assms(4)
    by (intro count_cong [OF assms(1)]) (auto simp: quit_def set_worker_def split: if_splits)
next
  case ARelease then show ?thesis using assms(4)
    by (intro count_cong [OF assms(1)])
      (auto simp: ReleaseWorkerGroup_def begin_stop_def forget_unused_def Let_def split: if_splits)
next
  case AStopReceive then show ?thesis using assms(4)
    by (intro count_cong [OF assms(1)]) (auto simp: stop_receive_def forget_unused_def split: if_splits stop.splits)
next
  case AStopTimeout then show ?thesis using assms(4)
    by (intro count_cong [OF assms(1)]) (auto simp: stop_timeout_def forget_unused_def split: if_splits stop.splits)
qed

lemma flow_step:
  assumes "flow_inv s" and "control_inv c s" and "act a s = Some s'"
  shows "flow_inv s'"
proof -
  have same: "flow_inv u" if "logQueue u = logQueue s" "workers u = workers s" "submits u = submits s" "taskPool u = taskPool s"
    "logTask u = logTask s" "given u = given s" "logged u = logged s" "dropped u = dropped s" "lost u = lost s" for u
    using that by (intro flow_keep [OF assms(1)]) (simp_all add: held_def)
  show ?thesis
  proof (cases a)
    case AGet
    show ?thesis
    proof (cases "registered s")
      case False
      then have "s = no_group c" using assms(2) by (simp add: control_inv_def)
      then show ?thesis using assms(3) AGet
        by (auto simp: GetWorkerGroup_def Ref_def NewWorkerGroup_def no_group_def flow_inv_def held_def split: if_splits)
    qed (use AGet assms(3) same in \<open>auto simp: GetWorkerGroup_def Ref_def split: if_splits\<close>)
  next
    case ARelease
    then show ?thesis using assms(3)
      by (auto simp: ReleaseWorkerGroup_def begin_stop_def forget_unused_def Let_def split: if_splits intro!: same)
  next
    case AStopReceive
    then show ?thesis using assms(3)
      by (auto simp: stop_receive_def forget_unused_def split: if_splits stop.splits intro!: same)
  next
    case AStopTimeout
    then show ?thesis using assms(3) by (auto simp: stop_timeout_def forget_unused_def split: if_splits stop.splits intro!: same)
  next
    case (AReceive i) then show ?thesis using flow_worker [OF assms(1), of i s'] assms(3) by simp
  next
    case (APollDefault i) then show ?thesis using flow_worker [OF assms(1), of i s'] assms(3) by simp
  next
    case (AQuit i) then show ?thesis using flow_worker [OF assms(1), of i s'] assms(3) by simp
  qed (use assms(3) flow_Handle [OF assms(1)] flow_Submit [OF assms(1)] flow_process [OF assms(1)] in auto)
qed

lemma no_nil_step:
  assumes "flow_inv s" and "act a s = Some s'" and "crash s = None"
  shows "crash s' \<noteq> Some NilDereference"
proof (cases a)
  case (AProcess i failed)
  then obtain t where i: "i < length (workers s)" "workers s ! i = Working t"
    using assms(2) by (auto simp: processTask_def split: if_splits worker.splits)
  from working_record [OF assms(1) i] obtain r where "logTask s t = Some r" ..
  then show ?thesis using assms(2,3) AProcess i by (auto simp: processTask_def set_worker_def ReturnTask_def)
next
  case (ASubmit i) then show ?thesis using assms Submit_control(10) [of i s s'] by simp
next
  case (AHandle r choice) then show ?thesis using assms Handle_control(11) [of r choice s s'] by simp
qed (use assms(2,3) in \<open>auto simp: receive_def poll_default_def quit_def set_worker_def GetWorkerGroup_def Ref_def NewWorkerGroup_def
    ReleaseWorkerGroup_def begin_stop_def forget_unused_def stop_receive_def stop_timeout_def Let_def
    split: if_splits list.splits stop.splits\<close>)

lemma reachable_inv:
  assumes "reachable c s"
  shows "flow_inv s \<and> control_inv c s \<and> count_inv s \<and> crash s \<noteq> Some NilDereference"
  using assms
proof induction
  case start
  then show ?case
    by (simp add: flow_inv_def control_inv_def count_inv_def held_def no_group_def)
next
  case (step s a s')
  then show ?case using flow_step control_step count_step no_nil_step by blast
qed


section \<open>Properties\<close>

text \<open>C22: in every interleaving of callers, workers and stops every record that was given to \<open>Handle\<close> is, exactly
  once, logged, counted as dropped, or still on its way, with its own contents: task objects that are reused
  never mix up records, no task has two owners, and no worker meets a task that was reset. With \<open>block_wait\<close>
  nothing is dropped, and the counters are those of the history.\<close>

theorem async_log_accounts_for_records:
  assumes "reachable c s" and "known c"
  shows "mset (given s) = mset (logged s) + mset (dropped s) + image_mset (record_of s) (held s)
    \<and> (\<forall>t. count (mset (taskPool s) + held s) t \<le> 1)
    \<and> Processed s + Errors s = length (logged s) \<and> Dropped s = length (dropped s)
    \<and> (FullStrategy c = ''block_wait'' \<longrightarrow> dropped s = [])
    \<and> length (logQueue s) \<le> Queue c \<and> crash s \<noteq> Some NilDereference"
proof -
  have "flow_inv s" "control_inv c s" "count_inv s" "crash s \<noteq> Some NilDereference"
    using reachable_inv [OF assms(1)] by auto
  then show ?thesis using assms(2) by (simp add: flow_inv_def control_inv_def count_inv_def)
qed

lemma reachable_run:
  assumes "reachable c s" and "crash s = None" and "run_group as s = Some s'"
  shows "reachable c s'"
  using assms
  by (induction as s rule: run_group.induct) (auto split: option.splits if_splits intro: reachable.step)

definition demo :: AsyncGroupConfig where
  "demo = \<lparr>Worker = 1, Queue = 1, FullStrategy = ''drop_old''\<rparr>"

lemma demo_run:
  assumes "run_group as (no_group demo) = Some s"
  shows "reachable demo s"
proof (rule reachable_run)
  show "reachable demo (no_group demo)" by (rule reachable.start) (simp add: demo_def)
qed (use assms in \<open>simp_all add: no_group_def\<close>)

text \<open>Two records meet a channel of one place: the older one is dropped, its task is reused for a third record.\<close>

definition demo_actions :: "nat action list" where
  "demo_actions = [AGet, AHandle 1 (Inr 0), ASubmit 0, ASubmit 0, AHandle 2 (Inr 1), ASubmit 1, ASubmit 1, ASubmit 1,
     AHandle 3 (Inl 0), ASubmit 1, AReceive 0, AProcess 0 False]"

theorem async_log_accounts_for_records_witness:
  "\<exists>s. run_group demo_actions (no_group demo) = Some s \<and> logged s = [2] \<and> dropped s = [1] \<and> submits s ! 2 = Submitting 0
    \<and> mset (given s) = mset (logged s) + mset (dropped s) + image_mset (record_of s) (held s)"
proof -
  obtain s where s: "run_group demo_actions (no_group demo) = Some s" and "logged s = [2]" "dropped s = [1]" "submits s ! 2 = Submitting 0"
    by (simp add: demo_actions_def no_group_def demo_def GetWorkerGroup_def Ref_def NewWorkerGroup_def Handle_def Borrow_def
        Submit_def submit_first_def room_def send_def pc_def drop_task_def ReturnTask_def record_of_def receive_def set_worker_def
        processTask_def numeral_eq_Suc)
  moreover have "known demo" by (simp add: known_def demo_def)
  ultimately show ?thesis using async_log_accounts_for_records [OF demo_run [OF s]] by blast
qed


text \<open>A group whose workers have all returned.\<close>

definition dead :: "'r WorkerGroup \<Rightarrow> bool" where
  "dead s \<longleftrightarrow> registered s \<and> 0 < Refs s \<and> workerCount s = 0 \<and> stopping s = NotStopping \<and> (\<forall>w\<in>set (workers s). w = Returned)"

lemma dead_step:
  assumes "dead s" and "act a s = Some s'"
  shows "dead s' \<and> logged s' = logged s"
proof -
  have w: "i < length (workers s) \<Longrightarrow> workers s ! i = Returned" for i using assms(1) nth_mem by (auto simp: dead_def)
  have "receive i s = None" "poll_default i s = None" "quit i s = None" "processTask i failed s = None" for i failed
    using w [of i] by (cases "i < length (workers s)"; simp add: receive_def poll_default_def quit_def processTask_def)+
  note idle = this
  show ?thesis
  proof (cases a)
    case (ASubmit i)
    then have "Submit i s = Some s'" using assms(2) by simp
    moreover from this have "logged s' = logged s"
      by (auto simp: Submit_def submit_first_def send_def pc_def drop_task_def ReturnTask_def
          split: if_splits submit.splits list.splits)
    ultimately show ?thesis using assms(1) Submit_control [of i s s'] by (simp add: dead_def)
  next
    case (AHandle r choice)
    then have "Handle r choice s = Some s'" using assms(2) by simp
    moreover from this have "logged s' = logged s" by (auto simp: Handle_def Borrow_def split: if_splits option.splits sum.splits)
    ultimately show ?thesis using assms(1) Handle_control [of r choice s s'] by (simp add: dead_def)
  next
    case ARelease
    then show ?thesis using assms
      by (auto simp: dead_def ReleaseWorkerGroup_def begin_stop_def forget_unused_def Let_def split: if_splits)
  qed (use assms in \<open>auto simp: dead_def idle GetWorkerGroup_def Ref_def
      stop_receive_def stop_timeout_def split: if_splits\<close>)
qed

lemma dead_run: "run_group as s = Some s' \<Longrightarrow> dead s \<Longrightarrow> dead s' \<and> logged s' = logged s"
proof (induction as s rule: run_group.induct)
  case (2 a as s)
  then obtain u where u: "act a s = Some u" by (auto split: option.splits)
  with 2 dead_step [OF "2.prems"(2) u] show ?case by (auto split: if_splits)
qed simp

text \<open>Releasing the last reference stops the workers but does not remove the group from the manager, because the
  removal looks at a counter that is never decremented. Whoever asks for the group afterwards gets the stopped one,
  and whatever happens then, no record is logged any more.\<close>

theorem released_group_never_logs:
  assumes "reachable c s" and "registered s" and "workerCount s = 0" and "stopping s = NotStopping" and "run_group as s = Some s'"
  shows "logged s' = logged s \<and> registered s' \<and> (\<forall>w\<in>set (workers s'). w = Returned)"
proof -
  have "dead s" using reachable_inv [OF assms(1)] assms(2-4) by (auto simp: dead_def control_inv_def stop_inv_def)
  then show ?thesis using dead_run [OF assms(5)] by (simp add: dead_def)
qed

definition release_actions :: "nat action list" where
  "release_actions = [AGet, ARelease, AQuit 0, AStopReceive]"

theorem released_group_never_logs_witness:
  "\<exists>s s'. run_group release_actions (no_group demo) = Some s
    \<and> run_group [AGet, AHandle 7 (Inr 0), ASubmit 0, ASubmit 0] s = Some s' \<and> logQueue s' = [0] \<and> logged s' = [] \<and> registered s'"
proof -
  obtain s s' where s: "run_group release_actions (no_group demo) = Some s" "registered s" "workerCount s = 0" "stopping s = NotStopping"
    and s': "run_group [AGet, AHandle 7 (Inr 0), ASubmit 0, ASubmit 0] s = Some s'" "logQueue s' = [0]" "logged s = []"
    by (simp add: release_actions_def no_group_def demo_def GetWorkerGroup_def Ref_def NewWorkerGroup_def ReleaseWorkerGroup_def
        begin_stop_def quit_def set_worker_def stop_receive_def forget_unused_def Handle_def Borrow_def
        Submit_def submit_first_def room_def send_def pc_def record_of_def)
  show ?thesis using released_group_never_logs [OF demo_run [OF s(1)] s(2-4) s'(1)] s s' by auto
qed

text \<open>When a stop has run into its time limit, the next release of the group panics.\<close>

lemma release_after_timeout_panics:
  assumes "reachable c s" and "registered s" and "stop_timeout s = Some s1" and "GetWorkerGroup s1 = Some s2" and "ReleaseWorkerGroup s2 = Some s3"
  shows "crash s3 = Some (Panicked ''close of closed channel'')"
proof -
  obtain k where k: "stopping s = Stopping k" using assms(3) by (auto simp: stop_timeout_def split: stop.splits)
  have "0 < Refs s" "shutdownChan s" "0 < workerCount s" "refCount s \<le> 0"
    using reachable_inv [OF assms(1)] k assms(2) by (auto simp: control_inv_def stop_inv_def)
  then show ?thesis using assms(2-5) k
    by (auto simp: stop_timeout_def forget_unused_def GetWorkerGroup_def ReleaseWorkerGroup_def begin_stop_def Ref_def Let_def
        split: if_splits)
qed

section \<open>Progress\<close>

fun worker_work :: "worker \<Rightarrow> nat" where
  "worker_work (Working t) = 2"
| "worker_work Polling = 1"
| "worker_work w = 0"

definition work_left :: "'r WorkerGroup \<Rightarrow> nat" where
  "work_left s = 3 * length (logQueue s) + sum_list (map worker_work (workers s))"

fun worker_action :: "'r action \<Rightarrow> bool" where
  "worker_action (AReceive i) = True"
| "worker_action (APollDefault i) = True"
| "worker_action (AQuit i) = True"
| "worker_action (AProcess i failed) = True"
| "worker_action a = False"

lemma sum_list_update_work:
  "i < length xs \<Longrightarrow> sum_list (map worker_work (xs[i := w])) + worker_work (xs ! i) = sum_list (map worker_work xs) + worker_work w"
  by (induction xs arbitrary: i) (fastforce split: nat.splits)+

lemma worker_step_work:
  assumes "flow_inv s" and "\<not> shutdownChan s" and "worker_action a" and "act a s = Some s'"
  shows "work_left s' < work_left s \<and> \<not> shutdownChan s' \<and> submits s' = submits s \<and> crash s' = crash s"
proof (cases a)
  case (AReceive i)
  then obtain t q where q: "logQueue s = t # q" "s' = set_worker i (Working t) (s\<lparr>logQueue := q\<rparr>)"
    and i: "i < length (workers s)" "workers s ! i \<in> {Waiting, Polling}"
    using assms(4) by (auto simp: receive_def split: if_splits list.splits)
  then show ?thesis using assms(2) sum_list_update_work [OF i(1), of "Working t"]
    by (auto simp: work_left_def set_worker_def)
next
  case (APollDefault i)
  then have i: "i < length (workers s)" "workers s ! i = Polling" and s': "s' = set_worker i Waiting s"
    using assms(4) by (auto simp: poll_default_def split: if_splits)
  then show ?thesis using assms(2) sum_list_update_work [OF i(1), of Waiting] by (auto simp: work_left_def set_worker_def)
next
  case (AProcess i failed)
  then obtain t where i: "i < length (workers s)" "workers s ! i = Working t"
    using assms(4) by (auto simp: processTask_def split: if_splits worker.splits)
  from working_record [OF assms(1) i] obtain r where "logTask s t = Some r" ..
  then show ?thesis using assms(2,4) AProcess i sum_list_update_work [OF i(1), of Polling]
    by (auto simp: work_left_def set_worker_def processTask_def ReturnTask_def)
qed (use assms in \<open>auto simp: quit_def split: if_splits\<close>)

lemma worker_run_work:
  assumes "reachable c s" and "crash s = None" and "\<not> shutdownChan s" and "\<forall>a\<in>set as. worker_action a" and "run_group as s = Some s'"
  shows "length as + work_left s' \<le> work_left s \<and> \<not> shutdownChan s' \<and> submits s' = submits s \<and> reachable c s'"
  using assms
proof (induction as s rule: run_group.induct)
  case (2 a as s)
  then obtain u where u: "act a s = Some u" by (auto split: option.splits)
  have "work_left u < work_left s \<and> \<not> shutdownChan u \<and> submits u = submits s \<and> crash u = crash s"
    using worker_step_work [OF _ "2.prems"(3) _ u] reachable_inv [OF "2.prems"(1)] "2.prems"(4) by auto
  moreover have "reachable c u" using "2.prems"(1,2) u by (rule reachable.step)
  ultimately show ?case using "2.IH" [OF u] "2.prems" u by auto
qed simp

lemma workers_idle:
  assumes "reachable c s" and "registered s" and "\<not> shutdownChan s" and "0 < Worker c" and "\<forall>a. worker_action a \<longrightarrow> act a s = None"
  shows "logQueue s = [] \<and> all_of worker_task (workers s) = {#}"
proof -
  have inv: "flow_inv s" "stop_inv s" "config s = c" using reachable_inv [OF assms(1)] assms(2) by (auto simp: control_inv_def)
  then have ret: "returned s = 0" and len: "length (workers s) = Worker c" using assms(3) by (auto simp: stop_inv_def split: stop.splits)
  have waiting: "workers s ! i = Waiting" if i: "i < length (workers s)" for i
  proof (cases "workers s ! i")
    case (Working t)
    then show ?thesis using assms(5) [rule_format, of "AProcess i False"] i by (auto simp: processTask_def)
  next
    case Polling
    then show ?thesis using assms(5) [rule_format, of "APollDefault i"] assms(5) [rule_format, of "AReceive i"] i
      by (auto simp: poll_default_def receive_def split: list.splits if_splits)
  next
    case Returned
    then have "Returned \<in> set (workers s)" using i nth_mem by metis
    then show ?thesis using ret by (simp add: returned_def count_list_0_iff)
  qed
  have "logQueue s = []"
    using assms(4) assms(5) [rule_format, of "AReceive 0"] waiting [of 0] len by (auto simp: receive_def split: list.splits)
  moreover have "workers s = replicate (length (workers s)) Waiting"
    using waiting by (metis length_replicate list_eq_iff_nth_eq nth_replicate)
  then have "all_of worker_task (workers s) = {#}" by (metis all_of_simps(4))
  ultimately show ?thesis by simp
qed

text \<open>C23: while the group is not stopped its workers make progress: however they are scheduled they do at most
  \<open>work_left\<close> steps on their own, and when none of them can do another one the channel is empty and every record that
  was given is logged, counted as dropped, or still with the caller that submits it.\<close>

theorem async_log_drains:
  assumes "reachable c s" and "crash s = None" and "registered s" and "\<not> shutdownChan s" and "0 < Worker c" and "known c"
    and "\<forall>a\<in>set as. worker_action a" and "run_group as s = Some s'"
  shows "length as \<le> work_left s
    \<and> ((\<forall>a. worker_action a \<longrightarrow> act a s' = None) \<longrightarrow>
        logQueue s' = [] \<and> mset (given s') = mset (logged s') + mset (dropped s') + image_mset (record_of s') (all_of submit_tasks (submits s)))"
proof -
  have r: "length as + work_left s' \<le> work_left s" "\<not> shutdownChan s'" "submits s' = submits s" "reachable c s'"
    using worker_run_work [OF assms(1,2,4,7,8)] by auto
  have reg: "registered s'" using assms(2,3,7,8)
  proof (induction as s rule: run_group.induct)
    case (2 a as s)
    then obtain u where u: "act a s = Some u" by (auto split: option.splits)
    then have "registered u" using 2 by (cases a)
      (auto simp: receive_def poll_default_def quit_def processTask_def set_worker_def ReturnTask_def
          split: if_splits list.splits worker.splits option.splits)
    then show ?case using 2 u by (auto split: if_splits)
  qed simp
  have "flow_inv s'" "count_inv s'" "config s' = c" using reachable_inv [OF r(4)] by (auto simp: control_inv_def)
  then have sum: "mset (given s') = mset (logged s') + mset (dropped s') + image_mset (record_of s') (held s')"
    using assms(6) by (simp add: flow_inv_def count_inv_def)
  show ?thesis
  proof (intro conjI impI)
    show "length as \<le> work_left s" using r(1) by simp
    assume "\<forall>a. worker_action a \<longrightarrow> act a s' = None"
    from workers_idle [OF r(4) reg r(2) assms(5) this] have idle: "logQueue s' = []" "all_of worker_task (workers s') = {#}" by auto
    then show "logQueue s' = []" by simp
    have "held s' = all_of submit_tasks (submits s)" using idle r(3) by (simp add: held_def)
    then show "mset (given s') = mset (logged s') + mset (dropped s') + image_mset (record_of s') (all_of submit_tasks (submits s))"
      using sum by simp
  qed
qed

theorem async_log_drains_witness:
  "\<exists>s s'. run_group demo_actions (no_group demo) = Some s \<and> run_group [AReceive 0, AProcess 0 False] s = None
    \<and> run_group [APollDefault 0] s = Some s' \<and> length [APollDefault 0 :: nat action] \<le> work_left s"
proof -
  obtain s s' where s: "run_group demo_actions (no_group demo) = Some s" "crash s = None" "registered s" "\<not> shutdownChan s"
    and s': "run_group [AReceive 0, AProcess 0 False] s = None" "run_group [APollDefault 0] s = Some s'"
    by (simp add: demo_actions_def no_group_def demo_def GetWorkerGroup_def Ref_def NewWorkerGroup_def Handle_def Borrow_def
        Submit_def submit_first_def room_def send_def pc_def drop_task_def ReturnTask_def record_of_def receive_def set_worker_def
        processTask_def poll_default_def numeral_eq_Suc)
  show ?thesis using async_log_drains [OF demo_run [OF s(1)] s(2-4) _ _ _ s'(2)] s s' by (auto simp: known_def demo_def)
qed


section \<open>Order\<close>

text \<open>With one worker, the records that were sent are the logged ones, the one at work and the queued ones, in order.\<close>

fun working_tasks :: "worker list \<Rightarrow> nat list" where
  "working_tasks (Working t # ws) = t # working_tasks ws"
| "working_tasks (w # ws) = working_tasks ws"
| "working_tasks [] = []"

fun drops_old :: "submit \<Rightarrow> bool" where
  "drops_old (TakingOld t) = True"
| "drops_old (DroppingOld t old) = True"
| "drops_old p = False"

definition order_inv :: "'r WorkerGroup \<Rightarrow> bool" where
  "order_inv s \<longleftrightarrow> sent s = logged s @ map (record_of s) (working_tasks (workers s) @ logQueue s)
   \<and> (\<forall>p\<in>set (submits s). \<not> drops_old p)"

lemma working_tasks_mset: "mset (working_tasks ws) = all_of worker_task ws"
  by (induction ws rule: working_tasks.induct) auto

lemma in_order_held:
  assumes "t \<in> set (working_tasks (workers s) @ logQueue s)"
  shows "t \<in># held s"
proof -
  have "t \<in># mset (working_tasks (workers s)) + mset (logQueue s)" using assms by simp
  then show ?thesis by (auto simp: held_def working_tasks_mset)
qed

lemma order_keep:
  assumes "order_inv s" and "sent s' = sent s" "logged s' = logged s" "working_tasks (workers s') @ logQueue s' = working_tasks (workers s) @ logQueue s"
    and "\<And>t. t \<in> set (working_tasks (workers s) @ logQueue s) \<Longrightarrow> logTask s' t = logTask s t"
    and "\<forall>p\<in>set (submits s'). p \<in> set (submits s) \<or> \<not> drops_old p"
  shows "order_inv s'"
proof -
  have "map (record_of s') (working_tasks (workers s) @ logQueue s) = map (record_of s) (working_tasks (workers s) @ logQueue s)"
    using assms(5) by (intro map_cong refl) (simp add: record_of_def)
  then show ?thesis using assms by (auto simp: order_inv_def)
qed

lemma submitter_task_apart:
  assumes "flow_inv s" and "i < length (submits s)" and "t \<in># submit_tasks (submits s ! i)"
    and "u \<in> set (working_tasks (workers s) @ logQueue s)"
  shows "u \<noteq> t"
proof
  assume "u = t"
  have one: "count (mset (taskPool s) + held s) t \<le> 1" using assms(1) unfolding flow_inv_def by blast
  have "0 < count (mset (working_tasks (workers s)) + mset (logQueue s)) t"
    using assms(4) \<open>u = t\<close> by auto
  moreover have "0 < count (all_of submit_tasks (submits s)) t" using all_of_member [of i "submits s" t submit_tasks] assms(2,3) by simp
  ultimately show False using one by (simp add: held_def working_tasks_mset del: count_greater_zero_iff)
qed

lemma order_Submit:
  assumes "flow_inv s" and "order_inv s" and "FullStrategy (config s) \<noteq> ''drop_old''" and "Submit i s = Some s'"
  shows "order_inv s'"
proof -
  have i: "i < length (submits s)" using assms(4) by (auto simp: Submit_def split: if_splits)
  have upd: "\<forall>p\<in>set ((submits s)[i := q]). p \<in> set (submits s) \<or> \<not> drops_old p"
    if "\<not> drops_old q" for q
    using that set_update_subset_insert [of "submits s" i q] by auto
  have send: "order_inv (send i t s)" for t
    using assms(2) upd [of Sent] by (auto simp: order_inv_def send_def record_of_def)
  have pc: "order_inv (pc i q s)" if "\<not> drops_old q" for q
    using upd [OF that] by (intro order_keep [OF assms(2)]) (simp_all add: pc_def)
  show ?thesis
  proof (cases "submits s ! i")
    case (Submitting t)
    have "order_inv (pc i Finished (s\<lparr>lost := lost s @ [record_of s t]\<rparr>))"
      using upd [of Finished] by (intro order_keep [OF assms(2)]) (simp_all add: pc_def)
    then show ?thesis using Submitting assms(3,4) i send pc [of "Dropping t"] by (auto simp: Submit_def submit_first_def split: if_splits)
  next
    case Sent
    have "order_inv (pc i Finished (s\<lparr>Queued := Queued s + 1\<rparr>))"
      using upd [of Finished] by (intro order_keep [OF assms(2)]) (simp_all add: pc_def)
    then show ?thesis using Sent assms(4) i by (auto simp: Submit_def)
  next
    case (Dropping t)
    have "order_inv (pc i Finished (drop_task t s))"
      using upd [of Finished] submitter_task_apart [OF assms(1) i, of t] Dropping
      by (intro order_keep [OF assms(2)]) (auto simp: pc_def drop_task_def ReturnTask_def)
    then show ?thesis using Dropping assms(4) i by (auto simp: Submit_def)
  next
    case (SendingAgain t)
    then show ?thesis using assms(4) i send pc [of "Dropping t"] by (auto simp: Submit_def split: if_splits)
  qed (use assms(2,4) i nth_mem [OF i] in \<open>auto simp: Submit_def order_inv_def\<close>)
qed

lemma Borrow_fresh:
  assumes "flow_inv s" and "Borrow choice s = Some (t, u)"
  shows "t \<notin># held s"
proof -
  have one: "count (mset (taskPool s)) t + count (held s) t \<le> 1" using assms(1) by (simp add: flow_inv_def)
  have "t \<in># mset (taskPool s) \<or> logTask s t = None"
    using assms(2) by (auto simp: Borrow_def split: sum.splits if_splits)
  then show ?thesis
  proof
    assume "t \<in># mset (taskPool s)"
    then have "0 < count (mset (taskPool s)) t" by (simp only: count_greater_zero_iff)
    with one show ?thesis by (simp add: not_in_iff del: count_greater_zero_iff)
  qed (use assms(1) in \<open>auto simp: flow_inv_def\<close>)
qed

lemma order_step:
  assumes "flow_inv s" and "control_inv c s" and "order_inv s" and "FullStrategy c \<noteq> ''drop_old''" and "Worker c = 1" and "act a s = Some s'"
  shows "order_inv s'"
proof -
  note cong = order_keep [OF assms(3)]
  have conf: "config s = c" and one: "registered s \<Longrightarrow> \<exists>w. workers s = [w]" and "\<not> registered s \<Longrightarrow> s = no_group c"
    using assms(2,5) by (auto simp: control_inv_def stop_inv_def length_Suc_conv)
  then have one': "\<exists>w. workers s = [w]" if "i < length (workers s)" for i
    using that by (cases "registered s") (auto simp: no_group_def)
  show ?thesis
  proof (cases a)
    case (AHandle r choice)
    then obtain t u where u: "Borrow choice s = Some (t, u)"
      and s': "s' = u\<lparr>logTask := (logTask u)(t := Some r), submits := submits u @ [Submitting t], given := given u @ [r]\<rparr>"
      using assms(6) by (auto simp: Handle_def split: if_splits option.splits)
    moreover have "logTask u = logTask s" "submits u = submits s" "sent u = sent s" "logged u = logged s" "workers u = workers s" "logQueue u = logQueue s"
      using u by (auto simp: Borrow_def split: sum.splits if_splits)
    ultimately show ?thesis using Borrow_fresh [OF assms(1) u] in_order_held [of _ s] by (intro cong) auto
  next
    case (ASubmit i) then show ?thesis using order_Submit [OF assms(1,3), of i s'] assms(4,6) conf by simp
  next
    case (AReceive i)
    then obtain t q w where "logQueue s = t # q" "s' = set_worker i (Working t) (s\<lparr>logQueue := q\<rparr>)" "i < length (workers s)" "workers s ! i \<in> {Waiting, Polling}"
      "workers s = [w]"
      using assms(6) one' [of i] by (auto simp: receive_def split: if_splits list.splits)
    then show ?thesis by (intro cong) (auto simp: set_worker_def)
  next
    case (AProcess i failed)
    then obtain t where i: "i < length (workers s)" "workers s ! i = Working t"
      using assms(6) by (auto simp: processTask_def split: if_splits worker.splits)
    with one' [of i] have w: "workers s = [Working t]" by (auto simp: less_Suc_eq_0_disj)
    from working_record [OF assms(1) i(1,2)] obtain r where r: "logTask s t = Some r" ..
    have "t \<notin> set (logQueue s)"
    proof
      assume "t \<in> set (logQueue s)"
      moreover have "count (mset (taskPool s) + held s) t \<le> 1" using assms(1) unfolding flow_inv_def by blast
      ultimately show False using w by (simp add: held_def)
    qed
    then have "map (record_of s') (logQueue s) = map (record_of s) (logQueue s)"
      using assms(6) AProcess i r by (intro map_cong refl) (auto simp: record_of_def processTask_def set_worker_def ReturnTask_def)
    moreover have "record_of s t = r" by (simp add: record_of_def r)
    moreover have "sent s' = sent s" "logged s' = logged s @ [r]" "workers s' = [Polling]" "logQueue s' = logQueue s" "submits s' = submits s"
      using assms(6) AProcess i w r by (auto simp: processTask_def set_worker_def ReturnTask_def)
    ultimately show ?thesis using assms(3) w by (simp add: order_inv_def)
  next
    case (APollDefault i)
    then show ?thesis using assms(6) one' [of i] by (intro cong) (auto simp: poll_default_def set_worker_def split: if_splits)
  next
    case (AQuit i)
    then show ?thesis using assms(6) one' [of i] by (intro cong) (auto simp: quit_def set_worker_def split: if_splits)
  next
    case AGet
    show ?thesis
    proof (cases "registered s")
      case False
      then have "s = no_group c" using assms(2) by (simp add: control_inv_def)
      then show ?thesis using assms(6) AGet
        by (auto simp: GetWorkerGroup_def Ref_def NewWorkerGroup_def no_group_def order_inv_def assms(5) split: if_splits)
    qed (use AGet assms(6) in \<open>auto simp: GetWorkerGroup_def Ref_def split: if_splits intro!: cong\<close>)
  next
    case ARelease then show ?thesis using assms(6)
      by (intro cong) (auto simp: ReleaseWorkerGroup_def begin_stop_def forget_unused_def Let_def split: if_splits)
  next
    case AStopReceive then show ?thesis using assms(6)
      by (intro cong) (auto simp: stop_receive_def forget_unused_def split: if_splits stop.splits)
  next
    case AStopTimeout then show ?thesis using assms(6)
      by (intro cong) (auto simp: stop_timeout_def forget_unused_def split: if_splits stop.splits)
  qed
qed

text \<open>A group with one worker, whose callers do not drop old records, logs records in the order in which they
  entered the channel, whatever the interleaving.\<close>

theorem single_worker_logs_in_order:
  assumes "reachable c s" and "Worker c = 1" and "FullStrategy c \<noteq> ''drop_old''"
  shows "\<exists>rest. sent s = logged s @ rest"
proof -
  have "order_inv s" using assms
  proof induction
    case (step s a s')
    then show ?case using order_step reachable_inv [OF step(1)] by blast
  qed (simp add: order_inv_def no_group_def)
  then show ?thesis by (auto simp: order_inv_def)
qed


theorem single_worker_logs_in_order_witness:
  "\<exists>s. run_group [AGet, AHandle (5 :: nat) (Inr 0), AHandle 6 (Inr 1), ASubmit 1, AReceive 0, ASubmit 0, AProcess 0 False]
      (no_group (demo\<lparr>FullStrategy := ''block_wait''\<rparr>)) = Some s \<and> (\<exists>rest. sent s = logged s @ rest)"
proof -
  let ?c = "demo\<lparr>FullStrategy := ''block_wait''\<rparr>"
  obtain s where s: "run_group [AGet, AHandle (5 :: nat) (Inr 0), AHandle 6 (Inr 1), ASubmit 1, AReceive 0, ASubmit 0, AProcess 0 False]
      (no_group ?c) = Some s"
    by (simp add: no_group_def demo_def GetWorkerGroup_def Ref_def NewWorkerGroup_def Handle_def Borrow_def
        Submit_def submit_first_def room_def send_def pc_def ReturnTask_def record_of_def receive_def set_worker_def
        processTask_def)
  have "reachable ?c s"
  proof (rule reachable_run [OF _ _ s])
    show "reachable ?c (no_group ?c)" by (rule reachable.start) (simp add: demo_def)
  qed (simp add: no_group_def)
  from single_worker_logs_in_order [OF this] s show ?thesis by (simp add: demo_def)
qed

end
