(* ===== verification/FieldMask.thy ===== *)
theory FieldMask
  imports WhereSemantics Placeholder
begin

text \<open>
  Dynamic conditions, \<open>contribute/agdb/conditonwhere/fieldmask.go\<close>: a condition tree from a configuration file is
  reduced to the parts whose parameters a caller has set (the field mask) and printed as SQL with named
  parameters; on the way, wildcards next to a parameter become calls of CONCAT.
\<close>

section \<open>Conditions and masks\<close>

datatype MaskWhereCondition =
  MaskWhereCondition (mw_Operator: string) (mw_Conditions: "MaskWhereCondition list") (mw_Expr: string)


text \<open>The set of marked fields; \<open>GetFields\<close> returns them in some order, here in that of the list.\<close>

type_synonym FieldMask = "string list"

definition NewFieldMask :: FieldMask where
  "NewFieldMask = []"

definition mask_Set :: "FieldMask \<Rightarrow> string \<Rightarrow> FieldMask" where
  "mask_Set m field = List.insert field m"

definition mask_IsSet :: "FieldMask \<Rightarrow> string \<Rightarrow> bool" where
  "mask_IsSet m field = List.member m field"

definition mask_GetFields :: "FieldMask \<Rightarrow> string list" where
  "mask_GetFields m = m"

definition mask_Merge :: "FieldMask \<Rightarrow> FieldMask option \<Rightarrow> FieldMask" where
  "mask_Merge m other = (case other of None \<Rightarrow> m | Some fs \<Rightarrow> fold (\<lambda>f m. mask_Set m f) fs m)"

definition mask_Reset :: "FieldMask \<Rightarrow> FieldMask" where
  "mask_Reset m = []"

definition mask_Size :: "FieldMask \<Rightarrow> nat" where
  "mask_Size m = length m"

section \<open>Wildcards\<close>

definition wildcard :: "char \<Rightarrow> bool" where
  "wildcard c \<longleftrightarrow> c = CHR ''%'' \<or> c = CHR ''_''"

definition name_char :: "char \<Rightarrow> bool" where
  "name_char c = (let b = of_char c :: nat in
     97 \<le> b \<and> b \<le> 122 \<or> 65 \<le> b \<and> b \<le> 90 \<or> 48 \<le> b \<and> b \<le> 57 \<or> c = CHR ''_'')"

text \<open>What the loop finds at a parameter: the wildcards before it, its name, and the wildcards behind it.\<close>

definition prefix_wild :: "string \<Rightarrow> nat \<Rightarrow> string" where
  "prefix_wild expr at = rev (takeWhile wildcard (rev (take at expr)))"

definition param_name :: "string \<Rightarrow> nat \<Rightarrow> string" where
  "param_name expr at = takeWhile name_char (drop (at + 1) expr)"

definition suffix_wild :: "string \<Rightarrow> nat \<Rightarrow> string" where
  "suffix_wild expr at = takeWhile wildcard (dropWhile name_char (drop (at + 1) expr))"

definition concat_call :: "string \<Rightarrow> string \<Rightarrow> string \<Rightarrow> string" where
  "concat_call pre name suf = ''CONCAT(''
     @ (if pre \<noteq> [] then [CHR 0x27] @ pre @ [CHR 0x27] @ '', '' else []) @ ''@'' @ name
     @ (if suf \<noteq> [] then '', '' @ [CHR 0x27] @ suf @ [CHR 0x27] else []) @ '')''"

lemma strings_Index_at: "strings_Index s ''@'' = Some i \<Longrightarrow> i < length s"
  using strings_Index_le [of s "''@''" i] by simp

function convert_loop :: "string \<Rightarrow> nat \<Rightarrow> string \<Rightarrow> (nat \<times> string) go" where
  "convert_loop expr lastEnd buf = (case strings_Index (drop lastEnd expr) ''@'' of
      None \<Rightarrow> Inr (lastEnd, buf)
    | Some i \<Rightarrow>
        let at = i + lastEnd;
            pre = prefix_wild expr at;
            name = param_name expr at;
            suf = suffix_wild expr at in
        if name = [] \<or> pre = [] \<and> suf = []
        then go_bind (go_slice expr lastEnd (at + 1)) (\<lambda>t. convert_loop expr (at + 1) (buf @ t))
        else go_bind (go_slice expr lastEnd (at - length pre)) (\<lambda>t.
               convert_loop expr (at + 1 + length name + length suf) (buf @ t @ concat_call pre name suf)))"
  by pat_completeness auto
termination
  by (relation "measure (\<lambda>(expr, lastEnd, buf). length expr - lastEnd)") (auto dest!: strings_Index_at)

definition convertLikeWildcards :: "string \<Rightarrow> string go" where
  "convertLikeWildcards expr = go_bind (convert_loop expr 0 []) (\<lambda>(lastEnd, buf).
     if lastEnd = 0 then Inr expr else Inr (buf @ drop lastEnd expr))"

declare convert_loop.simps [simp del]

section \<open>Filtering and printing\<close>

definition extractParamName :: "string \<Rightarrow> string" where
  "extractParamName expr = (case strings_Index expr ''@'' of
      None \<Rightarrow> []
    | Some i \<Rightarrow> takeWhile (\<lambda>c. c \<notin> {CHR '' '', CHR '')'', CHR ''%'', CHR ''_''}) (drop (i + 1) expr))"

fun FilterMaskWhereCondition :: "FieldMask option \<Rightarrow> MaskWhereCondition \<Rightarrow> MaskWhereCondition option"
  and filter_all :: "FieldMask \<Rightarrow> MaskWhereCondition list \<Rightarrow> MaskWhereCondition list" where
  "FilterMaskWhereCondition None c = None"
| "FilterMaskWhereCondition (Some m) (MaskWhereCondition opr cs expr) =
     (if expr \<noteq> []
      then let name = extractParamName expr in
        if name \<noteq> [] \<and> \<not> mask_IsSet m name then None else Some (MaskWhereCondition opr [] expr)
      else let fs = filter_all m cs in
        if fs = [] then None else Some (MaskWhereCondition opr fs []))"
| "filter_all m [] = []"
| "filter_all m (c # cs) = (case FilterMaskWhereCondition (Some m) c of None \<Rightarrow> filter_all m cs | Some f \<Rightarrow> f # filter_all m cs)"



definition RegisterWhereConfig ::
  "string \<Rightarrow> MaskWhereCondition \<Rightarrow> (string \<rightharpoonup> MaskWhereCondition) \<Rightarrow> (string \<rightharpoonup> MaskWhereCondition)" where
  "RegisterWhereConfig methodName whereData data = data(methodName \<mapsto> whereData)"

definition GetWhereConfig :: "string \<Rightarrow> (string \<rightharpoonup> MaskWhereCondition) \<Rightarrow> MaskWhereCondition option" where
  "GetWhereConfig methodName data = data methodName"

definition BuildWhereSQL :: "string list \<Rightarrow> string \<Rightarrow> string" where
  "BuildWhereSQL conditions opr =
     (if conditions = [] then ''WHERE 1=1''
      else if length conditions = 1 then ''WHERE ('' @ conditions ! 0 @ '')''
      else ''WHERE ('' @ strings_Join conditions ('' '' @ opr @ '' '') @ '')'')"

definition ValidateLeadingCol :: "string \<Rightarrow> string list \<Rightarrow> bool" where
  "ValidateLeadingCol sql leadingCols \<longleftrightarrow> (if leadingCols = [] then False else list_ex (\<lambda>col. strings_Index sql col \<noteq> None) leadingCols)"


text \<open>A configuration file gives a tree of maps, lists and strings.\<close>

datatype yaml = YString string | YList "yaml list" | YMap "(string \<times> yaml) list" | YOther

lemma map_of_size: "map_of d k = Some v \<Longrightarrow> size v < Suc (size_list (size_prod (\<lambda>x. 0) size) d)"
  by (drule map_of_SomeD, induction d) auto

function ParseWhereCondition :: "(string \<times> yaml) list \<Rightarrow> MaskWhereCondition go"
  and parse_conditions :: "yaml list \<Rightarrow> MaskWhereCondition list go" where
  "ParseWhereCondition d =
     go_bind (case map_of d ''conditions'' of Some (YList ys) \<Rightarrow> parse_conditions ys | _ \<Rightarrow> Inr [])
       (\<lambda>cs. Inr (MaskWhereCondition (case map_of d ''operator'' of Some (YString opr) \<Rightarrow> opr | _ \<Rightarrow> ''AND'') cs []))"
| "parse_conditions [] = Inr []"
| "parse_conditions (y # ys) = (case y of
      YMap d \<Rightarrow>
        go_bind (case map_of d ''expr'' of
            Some (YString e) \<Rightarrow> Inr (MaskWhereCondition [] [] e)
          | Some v \<Rightarrow> Inl (Panicked ''interface conversion'')
          | None \<Rightarrow> ParseWhereCondition d) (\<lambda>c. go_bind (parse_conditions ys) (\<lambda>cs. Inr (c # cs)))
    | _ \<Rightarrow> parse_conditions ys)"
  by pat_completeness auto
termination
proof (relation "measure (\<lambda>x. case x of Inl d \<Rightarrow> size (YMap d) | Inr ys \<Rightarrow> size (YList ys))", goal_cases)
  case (2 d y ys)
  then show ?case using map_of_size [of d "''conditions''" y] by simp
qed auto


section \<open>What the text means\<close>




















section \<open>Wildcards and parameters\<close>

lemma char_facts [simp]:
  "\<not> name_char (CHR ''@'')" "\<not> wildcard (CHR ''@'')" "\<not> name_char (CHR ''%'')" "wildcard (CHR ''%'')"
  by (simp_all add: name_char_def wildcard_def)

lemma strings_Index_first: "CHR ''@'' \<notin> set u \<Longrightarrow> strings_Index (u @ CHR ''@'' # r) ''@'' = Some (length u)"
  by (induction u) (auto simp: strings_HasPrefix_def)

lemma strings_Index_none: "CHR ''@'' \<notin> set u \<Longrightarrow> strings_Index u ''@'' = None"
  by (induction u) (auto simp: strings_HasPrefix_def)

text \<open>What the loop finds at a parameter that is set off from the text around it.\<close>

definition set_off :: "string \<Rightarrow> bool" where
  "set_off s \<longleftrightarrow> (s \<noteq> [] \<longrightarrow> \<not> wildcard (hd s) \<and> \<not> name_char (hd s))"

lemma prefix_wild_found:
  assumes "list_all wildcard pre" and "u \<noteq> [] \<Longrightarrow> \<not> wildcard (last u)"
  shows "prefix_wild (u @ pre @ CHR ''@'' # r) (length u + length pre) = pre"
proof -
  have "takeWhile wildcard (rev u) = []" using assms(2) by (cases u rule: rev_cases) auto
  then have "takeWhile wildcard (rev pre @ rev u) = rev pre"
    using assms(1) by (subst takeWhile_append2) (auto simp: list_all_iff)
  then show ?thesis by (simp add: prefix_wild_def)
qed

lemma name_found:
  assumes "list_all name_char name" and "suf \<noteq> [] \<Longrightarrow> hd suf = CHR ''%''" and "list_all wildcard suf" and "set_off r"
  shows "takeWhile name_char (name @ suf @ r) = name" and "takeWhile wildcard (dropWhile name_char (name @ suf @ r)) = suf"
proof -
  have nx: "takeWhile name_char (suf @ r) = []" "dropWhile name_char (suf @ r) = suf @ r"
    using assms(2,4) by (cases suf; cases r; simp add: set_off_def)+
  have "takeWhile wildcard r = []" using assms(4) by (cases r) (auto simp: set_off_def)
  with nx assms(1,3) show "takeWhile name_char (name @ suf @ r) = name"
    and "takeWhile wildcard (dropWhile name_char (name @ suf @ r)) = suf"
    by (simp_all add: list_all_iff takeWhile_append2 dropWhile_append2)
qed

text \<open>One round of the loop.\<close>

lemma convert_step:
  assumes "strings_Index (drop lastEnd expr) ''@'' = Some i" and "at = i + lastEnd"
  shows "param_name expr at = [] \<or> prefix_wild expr at = [] \<and> suffix_wild expr at = [] \<Longrightarrow>
      convert_loop expr lastEnd buf = go_bind (go_slice expr lastEnd (at + 1)) (\<lambda>t. convert_loop expr (at + 1) (buf @ t))"
    and "param_name expr at \<noteq> [] \<Longrightarrow> prefix_wild expr at \<noteq> [] \<or> suffix_wild expr at \<noteq> [] \<Longrightarrow>
      convert_loop expr lastEnd buf = go_bind (go_slice expr lastEnd (at - length (prefix_wild expr at))) (\<lambda>t.
        convert_loop expr (at + 1 + length (param_name expr at) + length (suffix_wild expr at))
          (buf @ t @ concat_call (prefix_wild expr at) (param_name expr at) (suffix_wild expr at)))"
  unfolding assms(2) by (subst convert_loop.simps; auto simp: assms(1) Let_def)+

text \<open>An expression as text and parameters with wildcards around them, and what it should become.\<close>

type_synonym piece = "string \<times> string \<times> string \<times> string"

fun template :: "piece list \<Rightarrow> string \<Rightarrow> string" where
  "template [] tail = tail"
| "template ((x, pre, name, suf) # ps) tail = x @ pre @ ''@'' @ name @ suf @ template ps tail"

fun expansion :: "piece list \<Rightarrow> string \<Rightarrow> string" where
  "expansion [] tail = tail"
| "expansion ((x, pre, name, suf) # ps) tail =
     x @ (if pre = [] \<and> suf = [] then ''@'' @ name else concat_call pre name suf) @ expansion ps tail"

fun pieces_ok :: "piece list \<Rightarrow> string \<Rightarrow> bool" where
  "pieces_ok [] tail \<longleftrightarrow> CHR ''@'' \<notin> set tail"
| "pieces_ok ((x, pre, name, suf) # ps) tail \<longleftrightarrow>
     CHR ''@'' \<notin> set x \<and> (x \<noteq> [] \<longrightarrow> \<not> wildcard (last x)) \<and> list_all wildcard pre \<and> name \<noteq> [] \<and> list_all name_char name
     \<and> list_all wildcard suf \<and> (suf \<noteq> [] \<longrightarrow> hd suf = CHR ''%'')
     \<and> (case ps of [] \<Rightarrow> set_off tail | (y, _) # _ \<Rightarrow> y \<noteq> [] \<and> set_off y) \<and> pieces_ok ps tail"

lemma template_set_off:
  "(case ps of [] \<Rightarrow> set_off tail | (y, _) # _ \<Rightarrow> y \<noteq> [] \<and> set_off y) \<Longrightarrow> set_off (template ps tail)"
  by (cases ps) (auto simp: set_off_def)

lemma no_at_name: "list_all name_char name \<Longrightarrow> CHR ''@'' \<notin> set name"
  by (auto simp: list_all_iff)

lemma convert_loop_template:
  assumes "pieces_ok ps tail" and "CHR ''@'' \<notin> set u"
    and "don @ u \<noteq> [] \<Longrightarrow> (case ps of [] \<Rightarrow> True | (y, _) # _ \<Rightarrow> y \<noteq> [])"
  shows "\<exists>e b. convert_loop (don @ u @ template ps tail) (length don) buf = Inr (e, b)
    \<and> b @ drop e (don @ u @ template ps tail) = buf @ u @ expansion ps tail \<and> length don \<le> e \<and> (e = 0 \<longrightarrow> b = buf)"
  using assms
proof (induction ps tail arbitrary: don u buf rule: pieces_ok.induct)
  case (1 tail)
  then show ?case using strings_Index_none [of "u @ tail"] by (simp add: convert_loop.simps)
next
  case (2 x pre name suf ps tail)
  let ?r = "template ps tail"
  let ?e = "don @ u @ x @ pre @ CHR ''@'' # name @ suf @ ?r"
  let ?at = "length don + length u + length x + length pre"
  have ok: "CHR ''@'' \<notin> set x" "list_all wildcard pre" "name \<noteq> []" "list_all name_char name" "list_all wildcard suf"
    "suf \<noteq> [] \<Longrightarrow> hd suf = CHR ''%''" "set_off ?r" "pieces_ok ps tail"
    "case ps of [] \<Rightarrow> True | (y, _) # _ \<Rightarrow> y \<noteq> []"
    using "2.prems"(1) template_set_off [where ps = ps and tail = tail] by (auto split: list.splits)
  have last: "\<not> wildcard (last (don @ u @ x))" if "don @ u @ x \<noteq> []"
    using "2.prems"(1,3) that by (cases "x = []") auto
  have "CHR ''@'' \<notin> set pre" using ok(2) by (auto simp: list_all_iff)
  then have idx: "strings_Index (drop (length don) ?e) ''@'' = Some (length u + length x + length pre)"
    using strings_Index_first [of "u @ x @ pre"] "2.prems"(2) ok(1) by (simp add: add.assoc)
  have found: "prefix_wild ?e ?at = pre" "param_name ?e ?at = name" "suffix_wild ?e ?at = suf"
    using prefix_wild_found [OF ok(2) last] name_found [OF ok(4,6,5,7)]
    by (simp_all add: param_name_def suffix_wild_def add.assoc)
  have at: "length u + length x + length pre + length don = ?at" by simp
  show ?case
  proof (cases "pre = [] \<and> suf = []")
    case True
    let ?don = "don @ u @ x @ ''@''"
    have e: "?e = ?don @ name @ ?r" using True by simp
    obtain e b where IH: "convert_loop (?don @ name @ ?r) (length ?don) (buf @ u @ x @ ''@'') = Inr (e, b)"
      "b @ drop e (?don @ name @ ?r) = (buf @ u @ x @ ''@'') @ name @ expansion ps tail" "length ?don \<le> e"
      using "2.IH" [OF ok(8) no_at_name [OF ok(4)], of ?don "buf @ u @ x @ ''@''"] ok(9) by blast
    have "convert_loop ?e (length don) buf = convert_loop ?e (length ?don) (buf @ u @ x @ ''@'')"
      using convert_step(1) [OF idx at [symmetric], of buf, unfolded found] True by (simp add: go_slice_def add.assoc)
    then show ?thesis using IH True e by (intro exI [of _ e] exI [of _ b]) auto
  next
    case False
    let ?don = "don @ u @ x @ pre @ ''@'' @ name @ suf"
    let ?buf = "buf @ u @ x @ concat_call pre name suf"
    obtain e b where IH: "convert_loop (?don @ [] @ ?r) (length ?don) ?buf = Inr (e, b)"
      "b @ drop e (?don @ [] @ ?r) = ?buf @ [] @ expansion ps tail" "length ?don \<le> e"
      using "2.IH" [OF ok(8), of "[]" ?don ?buf] ok(9) by auto
    have "convert_loop ?e (length don) buf = convert_loop ?e (length ?don) ?buf"
      using convert_step(2) [OF idx at [symmetric], of buf, unfolded found] False ok(3) by (simp add: go_slice_def add.assoc)
    then show ?thesis using IH False by (intro exI [of _ e] exI [of _ b]) auto
  qed
qed

text \<open>In an expression whose parameters are set off by some text, every parameter with wildcards next to it becomes
  a call of CONCAT with the wildcards as strings, and everything else is left as it is.\<close>

theorem wildcards_become_concat:
  assumes "pieces_ok ps tail"
  shows "convertLikeWildcards (template ps tail) = Inr (expansion ps tail)"
proof -
  obtain e b where "convert_loop (template ps tail) 0 [] = Inr (e, b)"
    "b @ drop e (template ps tail) = expansion ps tail" "e = 0 \<longrightarrow> b = []"
    using convert_loop_template [OF assms, of "[]" "[]" "[]"] by auto
  then show ?thesis by (auto simp: convertLikeWildcards_def)
qed


theorem wildcards_become_concat_witness:
  "convertLikeWildcards ''A = @Id AND B LIKE %@Name%'' = Inr (''A = @Id AND B LIKE '' @ concat_call ''%'' ''Name'' ''%'')"
  using wildcards_become_concat [of "[(''A = '', [], ''Id'', []), ('' AND B LIKE '', ''%'', ''Name'', ''%'')]" "[]"]
  by (simp add: set_off_def wildcard_def name_char_def)

text \<open>A wildcard between two parameters makes the conversion panic: the second parameter claims the wildcard that the
  first one has consumed.\<close>

theorem shared_wildcard_panics:
  assumes "CHR ''@'' \<notin> set x" and "a \<noteq> []" "list_all name_char a" and "b \<noteq> []" "list_all name_char b"
  shows "convertLikeWildcards (x @ ''@'' @ a @ ''%@'' @ b) = Inl SliceBounds"
proof -
  let ?e = "x @ CHR ''@'' # a @ CHR ''%'' # CHR ''@'' # b"
  let ?stop = "length x + 1 + length a + 1"
  have n1: "param_name ?e (length x) = a" "suffix_wild ?e (length x) = ''%''"
    using name_found [OF assms(3), of "''%''" "CHR ''@'' # b"] by (simp_all add: param_name_def suffix_wild_def set_off_def)
  have i1: "strings_Index (drop 0 ?e) ''@'' = Some (length x)" using strings_Index_first [OF assms(1)] by simp
  have "strings_Index (CHR ''@'' # b) ''@'' = Some 0" by (simp add: strings_HasPrefix_def)
  then have i2: "strings_Index (drop ?stop ?e) ''@'' = Some 0" by simp
  have "?e = (x @ CHR ''@'' # a @ ''%@'') @ b" and "length (x @ CHR ''@'' # a @ ''%@'') = ?stop + 1" by simp_all
  then have "drop (?stop + 1) ?e = b" by (metis append_eq_conv_conj)
  then have n2: "param_name ?e ?stop \<noteq> []" using assms(4,5) by (cases b) (simp_all add: param_name_def)
  have "take ?stop ?e = (x @ CHR ''@'' # a) @ ''%''" by simp
  then have p2: "prefix_wild ?e ?stop \<noteq> []" unfolding prefix_wild_def by simp
  have "go_slice ?e ?stop (?stop - length (prefix_wild ?e ?stop)) = Inl SliceBounds"
    using p2 by (cases "prefix_wild ?e ?stop") (simp_all add: go_slice_def)
  then have "convert_loop ?e ?stop buf = Inl SliceBounds" for buf
    using convert_step(2) [OF i2, of ?stop buf] n2 p2 by simp
  moreover have "length x - length (prefix_wild ?e (length x)) \<le> length ?e" by simp
  ultimately have "convert_loop ?e 0 [] = Inl SliceBounds"
    using convert_step(2) [OF i1, of "length x" "[]"] n1 assms(2) by (simp add: go_slice_def)
  then show ?thesis by (simp add: convertLikeWildcards_def)
qed

theorem shared_wildcard_panics_witness:
  "convertLikeWildcards ''NAME LIKE @First%@Last'' = Inl SliceBounds"
  using shared_wildcard_panics [of "''NAME LIKE ''" "''First''" "''Last''"] by (simp add: name_char_def)

text \<open>The filter cuts the name of a parameter at an underscore, while the conversion of wildcards takes underscores
  as part of the name: a condition on a parameter such as \<open>@user_id\<close> is filtered out although the caller marked it.\<close>

theorem underscore_parameter_filtered_out:
  assumes "CHR ''@'' \<notin> set x" and "list_all name_char a" and "CHR ''_'' \<notin> set a" and "a \<noteq> []" and "list_all name_char b" and "set_off r"
  shows "param_name (x @ ''@'' @ a @ ''_'' @ b @ r) (length x) = a @ ''_'' @ b
    \<and> FilterMaskWhereCondition (Some (mask_Set NewFieldMask (a @ ''_'' @ b))) (MaskWhereCondition opr cs (x @ ''@'' @ a @ ''_'' @ b @ r)) = None"
proof
  let ?n = "a @ CHR ''_'' # b"
  have "list_all name_char ?n" using assms(2,5) by (simp add: name_char_def)
  from name_found(1) [OF this, of "[]"] assms(6) show "param_name (x @ ''@'' @ a @ ''_'' @ b @ r) (length x) = a @ ''_'' @ b"
    by (simp add: param_name_def)
  have "c \<notin> {CHR '' '', CHR '')'', CHR ''%'', CHR ''_''}" if "c \<in> set a" for c
    using assms(2,3) that by (auto simp: list_all_iff name_char_def)
  then have "extractParamName (x @ CHR ''@'' # a @ CHR ''_'' # b @ r) = a"
    unfolding extractParamName_def using strings_Index_first [OF assms(1)]
    by (simp add: takeWhile_append2)
  then show "FilterMaskWhereCondition (Some (mask_Set NewFieldMask (a @ ''_'' @ b))) (MaskWhereCondition opr cs (x @ ''@'' @ a @ ''_'' @ b @ r)) = None"
    using assms(4) by (simp add: mask_IsSet_def mask_Set_def NewFieldMask_def)
qed

theorem underscore_parameter_filtered_out_witness:
  "FilterMaskWhereCondition (Some [''user_id'']) (MaskWhereCondition ''AND'' [] ''ID = @user_id'') = None"
  using underscore_parameter_filtered_out [of "''ID = ''" "''user''" "''id''" "[]" "''AND''" "[]"]
  by (simp add: name_char_def set_off_def mask_Set_def NewFieldMask_def)


end
