(* ===== verification/Cache.thy ===== *)
theory Cache
  imports Strconv "HOL-Library.AList"
begin

text \<open>
  The cache abstraction of \<open>ag/ag_cache\<close>: a typed cache serializes values into an engine, which stores bytes
  under prefixed keys and may lose entries at any time; a manager creates one cache per name. Engines are
  implemented outside (Ristretto, Redis) except for the mock of \<open>mock.go\<close>; here an engine is a record of its
  methods, and its contract is a locale that is interpreted on the mock.
\<close>

section \<open>Errors and engines\<close>

datatype cache_error =
    ErrCacheMiss
  | ErrBackend
  | LoaderPanic
  | OtherErr string

definition errBackend :: "cache_error \<Rightarrow> cache_error" where
  "errBackend e = (if e = ErrCacheMiss then ErrCacheMiss else ErrBackend)"

type_synonym bytes = string

text \<open>The methods of \<open>Engine\<close>, each with its effect on the state of the engine, and the optional capabilities
  \<open>TTLSetter\<close>, \<open>BulkDelEngine\<close> and \<open>syncer\<close>. A method returns or panics; \<open>None\<close> is a nil error.\<close>

record 'e Engine =
  eng_Get :: "string \<Rightarrow> 'e \<Rightarrow> (cache_error + bytes) go \<times> 'e"
  eng_Set :: "string \<Rightarrow> bytes \<Rightarrow> 'e \<Rightarrow> cache_error option go \<times> 'e"
  eng_Del :: "string \<Rightarrow> 'e \<Rightarrow> cache_error option go \<times> 'e"
  eng_Clear :: "string \<Rightarrow> 'e \<Rightarrow> cache_error option go \<times> 'e"
  eng_SetWithTTL :: "(string \<Rightarrow> bytes \<Rightarrow> nat \<Rightarrow> 'e \<Rightarrow> cache_error option go \<times> 'e) option"
  eng_DelMany :: "(string list \<Rightarrow> 'e \<Rightarrow> cache_error option go \<times> 'e) option"
  eng_Sync :: "('e \<Rightarrow> 'e) option"

definition cachePrefix :: "string \<Rightarrow> string" where
  "cachePrefix name = ''agcache::'' @ name @ ''::''"

section \<open>The typed cache\<close>

record ('e, 'v) typedCache =
  tc_engine :: "'e Engine"
  tc_name :: string
  tc_prefix :: string
  tc_Marshal :: "'v \<Rightarrow> cache_error + bytes"
  tc_Unmarshal :: "bytes \<Rightarrow> cache_error + 'v"
  tc_defaultTTL :: nat
  tc_ttlSet :: bool

text \<open>\<open>recoverPanic\<close> turns a panic of the engine into a backend error.\<close>

definition recoverPanic :: "(cache_error + 'a) go \<Rightarrow> cache_error + 'a" where
  "recoverPanic r = (case r of Inl p \<Rightarrow> Inl ErrBackend | Inr x \<Rightarrow> x)"

definition recover_err :: "cache_error option go \<Rightarrow> cache_error option" where
  "recover_err r = (case r of Inl p \<Rightarrow> Some ErrBackend | Inr e \<Rightarrow> map_option errBackend e)"

definition tc_Get :: "('e, 'v) typedCache \<Rightarrow> string \<Rightarrow> 'e \<Rightarrow> (cache_error + 'v) \<times> 'e" where
  "tc_Get c key e = (case eng_Get (tc_engine c) (tc_prefix c @ key) e of (r, e') \<Rightarrow>
     (case recoverPanic r of Inl err \<Rightarrow> Inl (errBackend err) | Inr data \<Rightarrow> tc_Unmarshal c data, e'))"

text \<open>\<open>TryGet\<close> has no deferred recovery: a panic of the engine reaches the caller.\<close>

definition tc_TryGet :: "('e, 'v) typedCache \<Rightarrow> string \<Rightarrow> 'e \<Rightarrow> (cache_error + 'v option) go \<times> 'e" where
  "tc_TryGet c key e = (case eng_Get (tc_engine c) (tc_prefix c @ key) e of (r, e') \<Rightarrow>
     (go_bind r (\<lambda>res. Inr (case res of
         Inl err \<Rightarrow> if err = ErrCacheMiss then Inr None else Inl (errBackend err)
       | Inr data \<Rightarrow> (case tc_Unmarshal c data of Inl err \<Rightarrow> Inl err | Inr v \<Rightarrow> Inr (Some v)))), e'))"

definition setWithTTL :: "('e, 'v) typedCache \<Rightarrow> string \<Rightarrow> bytes \<Rightarrow> nat \<Rightarrow> 'e \<Rightarrow> cache_error option go \<times> 'e" where
  "setWithTTL c key data ttl e = (case eng_SetWithTTL (tc_engine c) of
      Some f \<Rightarrow> f key data ttl e
    | None \<Rightarrow> eng_Set (tc_engine c) key data e)"

definition store :: "('e, 'v) typedCache \<Rightarrow> string \<Rightarrow> bytes \<Rightarrow> 'e \<Rightarrow> cache_error option go \<times> 'e" where
  "store c ekey data e =
     (if tc_ttlSet c then setWithTTL c ekey data (tc_defaultTTL c) e else eng_Set (tc_engine c) ekey data e)"

definition tc_Set :: "('e, 'v) typedCache \<Rightarrow> string \<Rightarrow> 'v \<Rightarrow> 'e \<Rightarrow> cache_error option \<times> 'e" where
  "tc_Set c key v e = (case tc_Marshal c v of
      Inl err \<Rightarrow> (Some err, e)
    | Inr data \<Rightarrow> (case store c (tc_prefix c @ key) data e of (r, e') \<Rightarrow> (recover_err r, e')))"

definition tc_SetWithTTL :: "('e, 'v) typedCache \<Rightarrow> string \<Rightarrow> 'v \<Rightarrow> nat \<Rightarrow> 'e \<Rightarrow> cache_error option \<times> 'e" where
  "tc_SetWithTTL c key v ttl e = (case tc_Marshal c v of
      Inl err \<Rightarrow> (Some err, e)
    | Inr data \<Rightarrow> (case setWithTTL c (tc_prefix c @ key) data ttl e of (r, e') \<Rightarrow> (recover_err r, e')))"

fun del_loop :: "('e, 'v) typedCache \<Rightarrow> string list \<Rightarrow> 'e \<Rightarrow> cache_error option \<times> 'e" where
  "del_loop c [] e = (None, e)"
| "del_loop c (k # ks) e = (case eng_Del (tc_engine c) (tc_prefix c @ k) e of (r, e') \<Rightarrow>
     (case recover_err r of Some err \<Rightarrow> (Some err, e') | None \<Rightarrow> del_loop c ks e'))"

definition tc_Del :: "('e, 'v) typedCache \<Rightarrow> string list \<Rightarrow> 'e \<Rightarrow> cache_error option \<times> 'e" where
  "tc_Del c keys e =
     (if keys = [] then (None, e)
      else (case eng_DelMany (tc_engine c) of
          Some f \<Rightarrow> (case f (map (\<lambda>k. tc_prefix c @ k) keys) e of (r, e') \<Rightarrow> (recover_err r, e'))
        | None \<Rightarrow> del_loop c keys e))"

definition tc_Clear :: "('e, 'v) typedCache \<Rightarrow> 'e \<Rightarrow> cache_error option \<times> 'e" where
  "tc_Clear c e = (case eng_Clear (tc_engine c) (tc_prefix c) e of (r, e') \<Rightarrow> (recover_err r, e'))"

text \<open>A loader works on the rest of the world and may panic, which the cache recovers.\<close>

type_synonym ('v, 'w) loader = "string \<Rightarrow> 'w \<Rightarrow> (cache_error + 'v) go \<times> 'w"

text \<open>The function that \<open>GetOrElse\<close> runs under the single flight: it looks again, loads, stores what was loaded as
  well as it can and returns it.\<close>

definition load_and_store :: "('e, 'v) typedCache \<Rightarrow> string \<Rightarrow> 'v \<Rightarrow> 'e \<Rightarrow> (cache_error + 'v) go \<times> 'e" where
  "load_and_store c key v e = (case tc_Marshal c v of
      Inl err \<Rightarrow> (Inr (Inl err), e)
    | Inr data \<Rightarrow> (case store c (tc_prefix c @ key) data e of
          (Inl p, e') \<Rightarrow> (Inl p, e')
        | (Inr (Some err), e') \<Rightarrow> (Inr (Inr v), e')
        | (Inr None, e') \<Rightarrow> (Inr (Inr v), case eng_Sync (tc_engine c) of Some f \<Rightarrow> f e' | None \<Rightarrow> e')))"

definition flight :: "('e, 'v) typedCache \<Rightarrow> string \<Rightarrow> ('v, 'w) loader \<Rightarrow> 'e \<Rightarrow> 'w \<Rightarrow> (cache_error + 'v) go \<times> 'e \<times> 'w" where
  "flight c key loader e w = (case eng_Get (tc_engine c) (tc_prefix c @ key) e of
      (Inl p, e') \<Rightarrow> (Inl p, e', w)
    | (Inr (Inr data), e') \<Rightarrow> (Inr (tc_Unmarshal c data), e', w)
    | (Inr (Inl err), e') \<Rightarrow>
        if err \<noteq> ErrCacheMiss then (Inr (Inl (errBackend err)), e', w)
        else (case loader key w of
            (Inl p, w') \<Rightarrow> (Inr (Inl LoaderPanic), e', w')
          | (Inr (Inl err), w') \<Rightarrow> (Inr (Inl err), e', w')
          | (Inr (Inr v), w') \<Rightarrow> (case load_and_store c key v e' of (r, e'') \<Rightarrow> (r, e'', w'))))"

definition tc_GetOrElse :: "('e, 'v) typedCache \<Rightarrow> string \<Rightarrow> ('v, 'w) loader \<Rightarrow> 'e \<Rightarrow> 'w \<Rightarrow> (cache_error + 'v) \<times> 'e \<times> 'w" where
  "tc_GetOrElse c key loader e w = (case eng_Get (tc_engine c) (tc_prefix c @ key) e of
      (Inl p, e') \<Rightarrow> (Inl ErrBackend, e', w)
    | (Inr (Inr data), e') \<Rightarrow> (tc_Unmarshal c data, e', w)
    | (Inr (Inl err), e') \<Rightarrow>
        if err \<noteq> ErrCacheMiss then (Inl (errBackend err), e', w)
        else (case flight c key loader e' w of (r, e'', w') \<Rightarrow> (recoverPanic r, e'', w')))"

section \<open>The mock engine\<close>

record MockEngine =
  me_data :: "(string \<times> bytes) list"
  me_Hits :: nat
  me_Misses :: nat
  me_EntryCount :: nat
  me_PanicNext :: bool
  me_Err :: "cache_error option"

definition NewMockEngine :: MockEngine where
  "NewMockEngine = \<lparr>me_data = [], me_Hits = 0, me_Misses = 0, me_EntryCount = 0, me_PanicNext = False, me_Err = None\<rparr>"

definition me_Get :: "string \<Rightarrow> MockEngine \<Rightarrow> (cache_error + bytes) go \<times> MockEngine" where
  "me_Get key e =
     (if me_PanicNext e then (Inl (Panicked ''mock engine failure''), e\<lparr>me_PanicNext := False\<rparr>)
      else (case me_Err e of
          Some err \<Rightarrow> (Inr (Inl err), e)
        | None \<Rightarrow> (case map_of (me_data e) key of
              Some v \<Rightarrow> (Inr (Inr v), e\<lparr>me_Hits := me_Hits e + 1\<rparr>)
            | None \<Rightarrow> (Inr (Inl ErrCacheMiss), e\<lparr>me_Misses := me_Misses e + 1\<rparr>))))"

definition me_put :: "string \<Rightarrow> bytes \<Rightarrow> MockEngine \<Rightarrow> MockEngine" where
  "me_put key data e = (let d = AList.update key data (me_data e) in e\<lparr>me_data := d, me_EntryCount := length d\<rparr>)"

definition me_Set :: "string \<Rightarrow> bytes \<Rightarrow> MockEngine \<Rightarrow> cache_error option go \<times> MockEngine" where
  "me_Set key data e =
     (if me_PanicNext e then (Inl (Panicked ''mock engine failure''), e\<lparr>me_PanicNext := False\<rparr>)
      else (case me_Err e of Some err \<Rightarrow> (Inr (Some err), e) | None \<Rightarrow> (Inr None, me_put key data e)))"

definition me_SetWithTTL :: "string \<Rightarrow> bytes \<Rightarrow> nat \<Rightarrow> MockEngine \<Rightarrow> cache_error option go \<times> MockEngine" where
  "me_SetWithTTL key data ttl e = (Inr None, me_put key data e)"

definition me_Del :: "string \<Rightarrow> MockEngine \<Rightarrow> cache_error option go \<times> MockEngine" where
  "me_Del key e = (let d = AList.delete key (me_data e) in (Inr None, e\<lparr>me_data := d, me_EntryCount := length d\<rparr>))"

definition me_Clear :: "string \<Rightarrow> MockEngine \<Rightarrow> cache_error option go \<times> MockEngine" where
  "me_Clear prefix e = (Inr None, e\<lparr>me_data := [], me_EntryCount := 0\<rparr>)"

text \<open>The numbers of hits, misses, evictions and entries.\<close>

definition me_Stats :: "MockEngine \<Rightarrow> nat \<times> nat \<times> nat \<times> nat" where
  "me_Stats e = (me_Hits e, me_Misses e, 0, length (me_data e))"

definition mock_engine :: "MockEngine Engine" where
  "mock_engine = \<lparr>eng_Get = me_Get, eng_Set = me_Set, eng_Del = me_Del, eng_Clear = me_Clear,
     eng_SetWithTTL = Some me_SetWithTTL, eng_DelMany = None, eng_Sync = None\<rparr>"

section \<open>Serializers\<close>

text \<open>The fast paths of \<open>DefaultSerializer\<close> for strings and byte slices, booleans and integers; \<open>Sscanf\<close> with \<open>%d\<close>
  skips spaces and reads a sign and digits.\<close>

definition string_Marshal :: "string \<Rightarrow> cache_error + bytes" where
  "string_Marshal v = Inr v"

definition string_Unmarshal :: "bytes \<Rightarrow> cache_error + string" where
  "string_Unmarshal data = Inr data"

definition bool_Marshal :: "bool \<Rightarrow> cache_error + bytes" where
  "bool_Marshal v = Inr (if v then ''1'' else ''0'')"

definition bool_Unmarshal :: "bytes \<Rightarrow> cache_error + bool" where
  "bool_Unmarshal data = Inr (data = ''1'' \<or> data = ''true'')"

definition int_Marshal :: "int \<Rightarrow> cache_error + bytes" where
  "int_Marshal v = Inr (show_int v)"

definition Sscanf_d :: "bytes \<Rightarrow> cache_error + int" where
  "Sscanf_d data = (let s = dropWhile (\<lambda>c. c = CHR '' '') data;
       sign = (if s \<noteq> [] \<and> (hd s = CHR ''-'' \<or> hd s = CHR ''+'') then [hd s] else []);
       digits = takeWhile is_dec (drop (length sign) s) in
     case Atoi (sign @ digits) of (None, n) \<Rightarrow> Inr n | (Some _, _) \<Rightarrow> Inl (OtherErr ''scan''))"

definition int_Unmarshal :: "bytes \<Rightarrow> cache_error + int" where
  "int_Unmarshal data = Sscanf_d data"


section \<open>The contract of an engine\<close>




text \<open>An engine may lose entries, fail and panic, but it never makes an entry up: what it returns is in its contents,
  and its contents change only by a successful store, and by losses.\<close>

locale engine =
  fixes E :: "'e Engine" and contents :: "'e \<Rightarrow> string \<rightharpoonup> bytes"
  assumes get_hit: "eng_Get E k e = (Inr (Inr data), e') \<Longrightarrow> contents e k = Some data"
    and get_miss: "eng_Get E k e = (Inr (Inl ErrCacheMiss), e') \<Longrightarrow> contents e' k = None"
    and get_keeps: "contents (snd (eng_Get E k e)) \<subseteq>\<^sub>m contents e"
    and set_stores: "contents (snd (eng_Set E k data e)) \<subseteq>\<^sub>m (if fst (eng_Set E k data e) = Inr None then (contents e)(k \<mapsto> data) else contents e)"
    and ttl_stores: "eng_SetWithTTL E = Some f \<Longrightarrow>
      contents (snd (f k data t e)) \<subseteq>\<^sub>m (if fst (f k data t e) = Inr None then (contents e)(k \<mapsto> data) else contents e)"
    and del_removes: "contents (snd (eng_Del E k e)) \<subseteq>\<^sub>m (if fst (eng_Del E k e) = Inr None then (contents e)(k := None) else contents e)"
    and del_many_removes: "eng_DelMany E = Some g \<Longrightarrow>
      contents (snd (g ks e)) \<subseteq>\<^sub>m (if fst (g ks e) = Inr None then contents e |` (- set ks) else contents e)"
    and clear_empties: "contents (snd (eng_Clear E p e)) \<subseteq>\<^sub>m (if fst (eng_Clear E p e) = Inr None then Map.empty else contents e)"
    and sync_keeps: "eng_Sync E = Some h \<Longrightarrow> contents (h e) \<subseteq>\<^sub>m contents e"

text \<open>A serializer reads back what it wrote.\<close>

locale serializer =
  fixes marshal :: "'v \<Rightarrow> cache_error + bytes" and unmarshal :: "bytes \<Rightarrow> cache_error + 'v" and domain :: "'v \<Rightarrow> bool"
  assumes round_trip: "domain v \<Longrightarrow> \<exists>data. marshal v = Inr data \<and> unmarshal data = Inr v"





section \<open>The contracts hold for the mock and the serializers\<close>

definition mock_contents :: "MockEngine \<Rightarrow> string \<rightharpoonup> bytes" where
  "mock_contents e = (if me_Err e = Some ErrCacheMiss then Map.empty else map_of (me_data e))"

lemmas mock_defs = mock_engine_def mock_contents_def me_Get_def me_Set_def me_SetWithTTL_def me_Del_def me_Clear_def me_put_def

interpretation mock: engine mock_engine mock_contents
proof
  fix k data ks p and e e' :: MockEngine and f g h and t
  show "eng_Get mock_engine k e = (Inr (Inr data), e') \<Longrightarrow> mock_contents e k = Some data"
    by (auto simp: mock_defs split: if_splits option.splits)
  show "eng_Get mock_engine k e = (Inr (Inl ErrCacheMiss), e') \<Longrightarrow> mock_contents e' k = None"
    by (auto simp: mock_defs split: if_splits option.splits)
  show "mock_contents (snd (eng_Get mock_engine k e)) \<subseteq>\<^sub>m mock_contents e"
    by (auto simp: mock_defs split: if_splits option.splits)
  show "mock_contents (snd (eng_Set mock_engine k data e)) \<subseteq>\<^sub>m
      (if fst (eng_Set mock_engine k data e) = Inr None then (mock_contents e)(k \<mapsto> data) else mock_contents e)"
    by (auto simp: mock_defs Let_def update_conv' split: if_splits option.splits)
  show "eng_SetWithTTL mock_engine = Some f \<Longrightarrow>
      mock_contents (snd (f k data t e)) \<subseteq>\<^sub>m (if fst (f k data t e) = Inr None then (mock_contents e)(k \<mapsto> data) else mock_contents e)"
    by (auto simp: mock_defs Let_def update_conv')
  show "mock_contents (snd (eng_Del mock_engine k e)) \<subseteq>\<^sub>m
      (if fst (eng_Del mock_engine k e) = Inr None then (mock_contents e)(k := None) else mock_contents e)"
    by (auto simp: mock_defs Let_def delete_conv')
qed (auto simp: mock_defs)

lemma Sscanf_show:
  assumes "- (2 ^ 63) \<le> i" and "i < 2 ^ 63"
  shows "Sscanf_d (show_int i) = Inr i"
proof -
  have dec: "takeWhile is_dec (show_nat n) = show_nat n" for n
    using show_nat_dec by (simp add: takeWhile_eq_all_conv)
  show ?thesis
  proof (cases "i < 0")
    case True
    then show ?thesis using Atoi_show [OF assms] by (simp add: Sscanf_d_def show_int_def dec)
  next
    case False
    obtain d ds where sn: "show_nat (nat i) = d # ds" by (cases "show_nat (nat i)") auto
    have s: "show_int i = d # ds" using False by (simp add: show_int_def sn)
    have d: "is_dec d" using show_nat_dec [of "nat i"] by (simp add: sn)
    have "\<not> is_dec (CHR '' '')" by (simp add: is_dec_def char_code_def)
    then have ne: "d \<noteq> CHR '' ''" "d \<noteq> CHR ''-''" "d \<noteq> CHR ''+''" using d dec_not_special [OF d] by auto
    have "dropWhile (\<lambda>c. c = CHR '' '') (d # ds) = d # ds" using ne(1) by simp
    moreover have "takeWhile is_dec (d # ds) = d # ds" using dec [of "nat i"] by (simp only: sn)
    ultimately have "Sscanf_d (d # ds) = (case Atoi (d # ds) of (None, n) \<Rightarrow> Inr n | (Some _, _) \<Rightarrow> Inl (OtherErr ''scan''))"
      unfolding Sscanf_d_def Let_def by (simp only: list.sel ne simp_thms if_False list.size drop_0 append_Nil)
    moreover have "Atoi (d # ds) = (None, i)" using Atoi_show [OF assms] by (simp only: s)
    ultimately show ?thesis by (simp only: s prod.case option.case)
  qed
qed

interpretation ints: serializer int_Marshal int_Unmarshal "\<lambda>i. - (2 ^ 63) \<le> i \<and> i < 2 ^ 63"
  by unfold_locales (simp add: int_Marshal_def int_Unmarshal_def Sscanf_show)

interpretation strings: serializer string_Marshal string_Unmarshal "\<lambda>s. True"
  by unfold_locales (simp add: string_Marshal_def string_Unmarshal_def)

interpretation bools: serializer bool_Marshal bool_Unmarshal "\<lambda>b. True"
  by unfold_locales (simp add: bool_Marshal_def bool_Unmarshal_def)

section \<open>Properties\<close>


definition text_cache :: "string \<Rightarrow> (MockEngine, string) typedCache" where
  "text_cache name = \<lparr>tc_engine = mock_engine, tc_name = name, tc_prefix = cachePrefix name, tc_Marshal = string_Marshal,
     tc_Unmarshal = string_Unmarshal, tc_defaultTTL = 0, tc_ttlSet = False\<rparr>"




text \<open>\<open>GetOrElse\<close> reads through: with a value in the cache it returns that value and does not call the loader; with a
  backend that fails or panics it returns a backend error and does not call the loader either; on a miss it calls the
  loader once and returns what the loader returned, which the next \<open>Get\<close> finds.\<close>

theorem cache_reads_through:
  assumes "loader k w = (r, w')" and "me_Err e \<noteq> Some ErrCacheMiss"
  shows "\<exists>e'. tc_GetOrElse (text_cache n) k loader e w =
      (if me_PanicNext e \<or> me_Err e \<noteq> None then (Inl ErrBackend, e', w)
       else (case map_of (me_data e) (cachePrefix n @ k) of
           Some v \<Rightarrow> (Inr v, e', w)
         | None \<Rightarrow> (case r of Inl p \<Rightarrow> Inl LoaderPanic | Inr x \<Rightarrow> x, e', w')))
    \<and> (\<forall>v. r = Inr (Inr v) \<longrightarrow> \<not> me_PanicNext e \<longrightarrow> me_Err e = None \<longrightarrow> map_of (me_data e) (cachePrefix n @ k) = None \<longrightarrow>
        fst (tc_Get (text_cache n) k e') = Inr v)"
proof -
  note defs = tc_GetOrElse_def flight_def load_and_store_def store_def text_cache_def mock_engine_def me_Get_def me_Set_def
    errBackend_def recoverPanic_def string_Marshal_def string_Unmarshal_def
  consider (fault) "me_PanicNext e \<or> me_Err e \<noteq> None"
    | (hit) v where "\<not> me_PanicNext e" "me_Err e = None" "map_of (me_data e) (cachePrefix n @ k) = Some v"
    | (failed) "\<not> me_PanicNext e" "me_Err e = None" "map_of (me_data e) (cachePrefix n @ k) = None" "\<And>v. r \<noteq> Inr (Inr v)"
    | (loaded) v where "\<not> me_PanicNext e" "me_Err e = None" "map_of (me_data e) (cachePrefix n @ k) = None" "r = Inr (Inr v)"
    by blast
  then show ?thesis
  proof cases
    case fault
    then show ?thesis using assms by (auto simp: defs)
  next
    case (hit v)
    then show ?thesis by (auto simp: defs)
  next
    case failed
    then show ?thesis using assms by (auto simp: defs split: sum.splits)
  next
    case (loaded v)
    let ?e = "me_put (cachePrefix n @ k) v (e\<lparr>me_Misses := me_Misses e + 2\<rparr>)"
    have "tc_GetOrElse (text_cache n) k loader e w = (Inr v, ?e, w')" using loaded assms by (simp add: defs)
    moreover have "fst (tc_Get (text_cache n) k ?e) = Inr v"
      using loaded by (simp add: tc_Get_def defs me_put_def Let_def update_conv')
    ultimately show ?thesis using loaded by auto
  qed
qed

theorem cache_reads_through_witness:
  "\<exists>e'. tc_GetOrElse (text_cache ''n'') ''k'' (\<lambda>k w. (Inr (Inr (k @ ''!'')), w + 1)) NewMockEngine (0 :: nat) = (Inr ''k!'', e', 1)
    \<and> fst (tc_Get (text_cache ''n'') ''k'' e') = Inr ''k!''"
  using cache_reads_through [of "\<lambda>k w. (Inr (Inr (k @ ''!'')), w + 1)" "''k''" "0 :: nat" "Inr (Inr ''k!'')" 1 NewMockEngine "''n''"]
  by (auto simp: NewMockEngine_def)

text \<open>The keys of caches with different names never meet in a shared engine, if the names have no colon; a name that
  contains the separator can make two caches share a key.\<close>

theorem cache_namespaces_are_disjoint:
  assumes "cachePrefix n1 @ k1 = cachePrefix n2 @ k2" and "CHR '':'' \<notin> set n1" and "CHR '':'' \<notin> set n2"
  shows "n1 = n2 \<and> k1 = k2"
proof -
  have eq: "n1 @ CHR '':'' # CHR '':'' # k1 = n2 @ CHR '':'' # CHR '':'' # k2" using assms(1) by (simp add: cachePrefix_def)
  have "takeWhile (\<lambda>c. c \<noteq> CHR '':'') (n @ CHR '':'' # r) = n" if "CHR '':'' \<notin> set n" for n r
    using that by (subst takeWhile_append2) auto
  from this [OF assms(2)] this [OF assms(3)] eq have "n1 = n2" by metis
  with eq show ?thesis by simp
qed

theorem cache_namespaces_are_disjoint_witness:
  "cachePrefix ''user'' @ ''7'' \<noteq> cachePrefix ''order'' @ ''7'' \<and> cachePrefix ''a'' @ ''b::c'' = cachePrefix ''a::b'' @ ''c''"
  using cache_namespaces_are_disjoint [of "''user''" "''7''" "''order''" "''7''"] by (auto simp: cachePrefix_def)

text \<open>A panic of the engine is a backend error for every operation but \<open>TryGet\<close>, where it reaches the caller.\<close>

theorem engine_panic_escapes_TryGet:
  assumes "eng_Get (tc_engine c) (tc_prefix c @ k) e = (Inl p, e')"
  shows "tc_TryGet c k e = (Inl p, e') \<and> tc_Get c k e = (Inl ErrBackend, e') \<and> tc_GetOrElse c k loader e w = (Inl ErrBackend, e', w)"
  using assms by (simp add: tc_TryGet_def tc_Get_def tc_GetOrElse_def recoverPanic_def errBackend_def)

theorem engine_panic_escapes_TryGet_witness:
  "fst (tc_TryGet (text_cache ''n'') ''k'' (NewMockEngine\<lparr>me_PanicNext := True\<rparr>)) = Inl (Panicked ''mock engine failure'')"
  using engine_panic_escapes_TryGet [of "text_cache ''n''" "''k''" "NewMockEngine\<lparr>me_PanicNext := True\<rparr>" "Panicked ''mock engine failure''"
      NewMockEngine "\<lambda>_ w. (Inr (Inr []), w)" "()"]
  by (simp add: text_cache_def mock_engine_def me_Get_def NewMockEngine_def)

section \<open>Options and the cache with a loader\<close>

text \<open>\<open>NewWithEngine\<close> applies its options in order to a cache without a prefix; \<open>WithDefaultTTL\<close> panics on a negative
  duration when the option is built. \<open>LoaderCache\<close> of \<open>loader_cache.go\<close> binds a loader to a cache, which makes its
  \<open>Get\<close> a read-through.\<close>

definition NewWithEngine ::
  "'e Engine \<Rightarrow> ('v \<Rightarrow> cache_error + bytes) \<Rightarrow> (bytes \<Rightarrow> cache_error + 'v) \<Rightarrow> (('e, 'v) typedCache \<Rightarrow> ('e, 'v) typedCache) list \<Rightarrow> ('e, 'v) typedCache" where
  "NewWithEngine E marshal unmarshal opts = fold (\<lambda>opt c. opt c) opts
     \<lparr>tc_engine = E, tc_name = [], tc_prefix = [], tc_Marshal = marshal, tc_Unmarshal = unmarshal, tc_defaultTTL = 0, tc_ttlSet = False\<rparr>"

definition WithDefaultTTL :: "int \<Rightarrow> (('e, 'v) typedCache \<Rightarrow> ('e, 'v) typedCache) go" where
  "WithDefaultTTL ttl =
     (if ttl < 0 then Inl (Panicked ''agcache: WithDefaultTTL: ttl must not be negative'')
      else Inr (\<lambda>c. c\<lparr>tc_defaultTTL := nat ttl, tc_ttlSet := True\<rparr>))"

definition WithSerializer ::
  "('v \<Rightarrow> cache_error + bytes) \<Rightarrow> (bytes \<Rightarrow> cache_error + 'v) \<Rightarrow> ('e, 'v) typedCache \<Rightarrow> ('e, 'v) typedCache" where
  "WithSerializer marshal unmarshal c = c\<lparr>tc_Marshal := marshal, tc_Unmarshal := unmarshal\<rparr>"

record ('e, 'v, 'w) LoaderCache =
  lc_inner :: "('e, 'v) typedCache"
  lc_loader :: "('v, 'w) loader"

definition WithLoader :: "('e, 'v) typedCache \<Rightarrow> ('v, 'w) loader \<Rightarrow> ('e, 'v, 'w) LoaderCache" where
  "WithLoader c loader = \<lparr>lc_inner = c, lc_loader = loader\<rparr>"

definition lc_Get :: "('e, 'v, 'w) LoaderCache \<Rightarrow> string \<Rightarrow> 'e \<Rightarrow> 'w \<Rightarrow> (cache_error + 'v) \<times> 'e \<times> 'w" where
  "lc_Get c key = tc_GetOrElse (lc_inner c) key (lc_loader c)"

definition lc_GetOrElse :: "('e, 'v, 'w) LoaderCache \<Rightarrow> string \<Rightarrow> ('v, 'w) loader \<Rightarrow> 'e \<Rightarrow> 'w \<Rightarrow> (cache_error + 'v) \<times> 'e \<times> 'w" where
  "lc_GetOrElse c key loader = tc_GetOrElse (lc_inner c) key loader"

definition lc_Set :: "('e, 'v, 'w) LoaderCache \<Rightarrow> string \<Rightarrow> 'v \<Rightarrow> 'e \<Rightarrow> cache_error option \<times> 'e" where
  "lc_Set c = tc_Set (lc_inner c)"

definition lc_SetWithTTL :: "('e, 'v, 'w) LoaderCache \<Rightarrow> string \<Rightarrow> 'v \<Rightarrow> nat \<Rightarrow> 'e \<Rightarrow> cache_error option \<times> 'e" where
  "lc_SetWithTTL c = tc_SetWithTTL (lc_inner c)"

definition lc_Del :: "('e, 'v, 'w) LoaderCache \<Rightarrow> string list \<Rightarrow> 'e \<Rightarrow> cache_error option \<times> 'e" where
  "lc_Del c = tc_Del (lc_inner c)"

definition lc_Clear :: "('e, 'v, 'w) LoaderCache \<Rightarrow> 'e \<Rightarrow> cache_error option \<times> 'e" where
  "lc_Clear c = tc_Clear (lc_inner c)"

definition lc_TryGet :: "('e, 'v, 'w) LoaderCache \<Rightarrow> string \<Rightarrow> 'e \<Rightarrow> (cache_error + 'v option) go \<times> 'e" where
  "lc_TryGet c = tc_TryGet (lc_inner c)"

text \<open>A value that was loaded once is not loaded again as long as the engine keeps it.\<close>

lemma lc_Get_loads_once:
  assumes "\<not> me_PanicNext e" and "me_Err e = None" and "loader k w = (Inr (Inr v), w')"
    and "lc_Get (WithLoader (text_cache n) loader) k e w = (r, e1, w1)"
  shows "\<exists>e2. lc_Get (WithLoader (text_cache n) loader) k e1 w2 = (r, e2, w2)"
  using assms
  by (auto simp: lc_Get_def WithLoader_def tc_GetOrElse_def flight_def load_and_store_def store_def text_cache_def mock_engine_def me_Get_def
      me_Set_def me_put_def string_Marshal_def string_Unmarshal_def recoverPanic_def update_conv' Let_def split: option.splits)

section \<open>The mock cache\<close>

text \<open>\<open>MockCache\<close> of \<open>mock.go\<close>: the cache without an engine that tests use instead.\<close>

record 'v MockCache =
  mc_data :: "(string \<times> 'v) list"
  mc_Hits :: nat
  mc_Misses :: nat
  mc_EntryCount :: nat
  mc_err :: "cache_error option"

definition NewMock :: "'v MockCache" where
  "NewMock = \<lparr>mc_data = [], mc_Hits = 0, mc_Misses = 0, mc_EntryCount = 0, mc_err = None\<rparr>"

definition mc_Get :: "string \<Rightarrow> 'v MockCache \<Rightarrow> (cache_error + 'v) \<times> 'v MockCache" where
  "mc_Get key m = (case map_of (mc_data m) key of
      Some v \<Rightarrow> (Inr v, m\<lparr>mc_Hits := mc_Hits m + 1\<rparr>)
    | None \<Rightarrow> (Inl ErrCacheMiss, m\<lparr>mc_Misses := mc_Misses m + 1\<rparr>))"

definition mc_TryGet :: "string \<Rightarrow> 'v MockCache \<Rightarrow> cache_error + 'v option" where
  "mc_TryGet key m = Inr (map_of (mc_data m) key)"

definition mc_Set :: "string \<Rightarrow> 'v \<Rightarrow> 'v MockCache \<Rightarrow> cache_error option \<times> 'v MockCache" where
  "mc_Set key v m = (let d = AList.update key v (mc_data m) in (None, m\<lparr>mc_data := d, mc_EntryCount := length d\<rparr>))"

definition mc_SetWithTTL :: "string \<Rightarrow> 'v \<Rightarrow> nat \<Rightarrow> 'v MockCache \<Rightarrow> cache_error option \<times> 'v MockCache" where
  "mc_SetWithTTL key v ttl m = mc_Set key v m"

definition mc_SetError :: "cache_error option \<Rightarrow> 'v MockCache \<Rightarrow> 'v MockCache" where
  "mc_SetError err m = m\<lparr>mc_err := err\<rparr>"

definition mc_Del :: "string list \<Rightarrow> 'v MockCache \<Rightarrow> cache_error option \<times> 'v MockCache" where
  "mc_Del keys m = (let d = fold AList.delete keys (mc_data m) in (None, m\<lparr>mc_data := d, mc_EntryCount := length d\<rparr>))"

definition mc_Clear :: "'v MockCache \<Rightarrow> cache_error option \<times> 'v MockCache" where
  "mc_Clear m = (None, m\<lparr>mc_data := [], mc_EntryCount := 0\<rparr>)"

definition mc_GetOrElse :: "string \<Rightarrow> ('v, 'w) loader \<Rightarrow> 'v MockCache \<Rightarrow> 'w \<Rightarrow> (cache_error + 'v) go \<times> 'v MockCache \<times> 'w" where
  "mc_GetOrElse key loader m w = (case mc_err m of
      Some err \<Rightarrow> (Inr (Inl err), m, w)
    | None \<Rightarrow> (case map_of (mc_data m) key of
          Some v \<Rightarrow> (Inr (Inr v), m\<lparr>mc_Hits := mc_Hits m + 1\<rparr>, w)
        | None \<Rightarrow> (case loader key w of
              (Inl p, w') \<Rightarrow> (Inl p, m, w')
            | (Inr (Inl err), w') \<Rightarrow> (Inr (Inl err), m\<lparr>mc_Misses := mc_Misses m + 1\<rparr>, w')
            | (Inr (Inr v), w') \<Rightarrow> (let d = AList.update key v (mc_data m) in
                (Inr (Inr v), m\<lparr>mc_data := d, mc_Misses := mc_Misses m + 1, mc_EntryCount := length d\<rparr>, w')))))"

text \<open>The mock cache and the typed cache over the mock engine have the same entries.\<close>

definition same_entries :: "string \<Rightarrow> MockEngine \<Rightarrow> string MockCache \<Rightarrow> bool" where
  "same_entries n e m \<longleftrightarrow> \<not> me_PanicNext e \<and> me_Err e = None \<and> mc_err m = None
     \<and> (\<forall>k. map_of (me_data e) (cachePrefix n @ k) = map_of (mc_data m) k)"

lemmas mock_cache_defs = mc_Get_def mc_TryGet_def mc_Set_def mc_Del_def mc_Clear_def mc_GetOrElse_def

lemma me_Del_entries:
  assumes "same_entries n e m"
  shows "same_entries n (snd (me_Del (cachePrefix n @ k) e)) (m\<lparr>mc_data := AList.delete k (mc_data m)\<rparr>)"
  using assms by (simp add: same_entries_def me_Del_def Let_def delete_conv')

lemma del_loop_entries:
  assumes "same_entries n e m"
  shows "\<exists>e'. del_loop (text_cache n) ks e = (None, e') \<and> same_entries n e' (m\<lparr>mc_data := fold AList.delete ks (mc_data m)\<rparr>)"
  using assms
proof (induction ks arbitrary: e m)
  case (Cons k ks)
  obtain e1 where d: "me_Del (cachePrefix n @ k) e = (Inr None, e1)" by (simp add: me_Del_def Let_def)
  then have "same_entries n e1 (m\<lparr>mc_data := AList.delete k (mc_data m)\<rparr>)" using me_Del_entries [OF Cons.prems, of k] by simp
  from Cons.IH [OF this] d show ?case by (simp add: text_cache_def mock_engine_def recover_err_def)
qed simp

text \<open>The mock cache behaves like the typed cache over the mock engine: the same results, and the same entries
  afterwards, for every operation, as long as no failure is injected and the loader does not panic.\<close>

theorem mock_cache_behaves_like_typed_cache:
  assumes "same_entries n e m"
  shows "fst (tc_Get (text_cache n) k e) = fst (mc_Get k m) \<and> same_entries n (snd (tc_Get (text_cache n) k e)) (snd (mc_Get k m))
    \<and> fst (tc_TryGet (text_cache n) k e) = Inr (mc_TryGet k m)
    \<and> fst (tc_Set (text_cache n) k v e) = fst (mc_Set k v m) \<and> same_entries n (snd (tc_Set (text_cache n) k v e)) (snd (mc_Set k v m))
    \<and> fst (tc_Del (text_cache n) ks e) = fst (mc_Del ks m) \<and> same_entries n (snd (tc_Del (text_cache n) ks e)) (snd (mc_Del ks m))
    \<and> fst (tc_Clear (text_cache n) e) = fst (mc_Clear m) \<and> same_entries n (snd (tc_Clear (text_cache n) e)) (snd (mc_Clear m))
    \<and> (fst (loader k w) = Inr r \<longrightarrow>
        mc_GetOrElse k loader m w = (Inr res, m', w') \<longrightarrow>
        (\<exists>e'. tc_GetOrElse (text_cache n) k loader e w = (res, e', w') \<and> same_entries n e' m'))"
    (is "?get \<and> ?getE \<and> ?tryGet \<and> ?set \<and> ?setE \<and> ?del \<and> ?delE \<and> ?clear \<and> ?clearE \<and> ?load")
proof (intro conjI)
  note defs = text_cache_def mock_engine_def mock_cache_defs same_entries_def me_Get_def me_Set_def me_put_def me_Clear_def
    string_Marshal_def string_Unmarshal_def recoverPanic_def recover_err_def errBackend_def Let_def update_conv'
  show ?get ?getE ?tryGet using assms by (auto simp: tc_Get_def tc_TryGet_def defs split: option.splits)
  show ?set ?setE using assms by (auto simp: tc_Set_def store_def defs)
  show ?clear ?clearE using assms by (auto simp: tc_Clear_def defs)
  obtain e' where d: "del_loop (text_cache n) ks e = (None, e')" "same_entries n e' (m\<lparr>mc_data := fold AList.delete ks (mc_data m)\<rparr>)"
    using del_loop_entries [OF assms] by blast
  have tc: "tc_Del (text_cache n) ks e = (None, e')"
    using d(1) by (auto simp: tc_Del_def text_cache_def mock_engine_def)
  show ?del ?delE using d(2) by (auto simp: tc mc_Del_def Let_def same_entries_def)
  show ?load
    using assms by (cases "loader k w") (auto simp: tc_GetOrElse_def flight_def load_and_store_def store_def defs split: option.splits sum.splits)
qed

theorem mock_cache_behaves_like_typed_cache_witness:
  "fst (tc_TryGet (text_cache ''n'') ''k'' NewMockEngine) = Inr (mc_TryGet ''k'' NewMock)"
  using mock_cache_behaves_like_typed_cache [of "''n''" NewMockEngine NewMock "''k''" "[]" "[]" "\<lambda>k w. (Inr (Inr k), w)" "()" "Inr []" "Inr []" NewMock "()"]
  by (simp add: same_entries_def NewMockEngine_def NewMock_def)

end
