(* ===== verification/CacheManager.thy ===== *)
theory CacheManager
  imports Cache "HOL-Library.Multiset"
begin

text \<open>
  The cache manager of \<open>ag/ag_cache/manager.go\<close>: caches are created on demand, by name, with an engine from the
  configured factory. The engine is created outside the lock, so that calls of several goroutines for one name
  may race; the model has one step for every section between lock operations.
\<close>

section \<open>The manager and its calls\<close>

text \<open>A cache is an engine, by its number, and the type of the values, by its name. A factory may fail.\<close>

record cache_entry =
  ce_type :: string
  ce_engine :: nat

record Manager =
  m_defaultEngine :: string
  m_engineFactories :: "(string \<times> (string \<Rightarrow> bool)) list"
  m_caches :: "(string \<times> cache_entry) list"
  m_created :: nat
  m_closed :: "nat list"

definition NewManager :: "string \<Rightarrow> Manager" where
  "NewManager defaultEngine =
     \<lparr>m_defaultEngine = (if defaultEngine = [] then ''ristretto'' else defaultEngine), m_engineFactories = [], m_caches = [],
      m_created = 0, m_closed = []\<rparr>"

definition SetEngineFactory :: "string \<Rightarrow> (string \<Rightarrow> bool) \<Rightarrow> Manager \<Rightarrow> Manager" where
  "SetEngineFactory name f m = m\<lparr>m_engineFactories := AList.update name f (m_engineFactories m)\<rparr>"

definition EngineFactory :: "string \<Rightarrow> Manager \<Rightarrow> (string \<Rightarrow> bool) option" where
  "EngineFactory name m = map_of (m_engineFactories m) name"

definition mgr_Close :: "Manager \<Rightarrow> Manager" where
  "mgr_Close m = m\<lparr>m_closed := map (\<lambda>c. ce_engine (snd c)) (m_caches m) @ m_closed m, m_caches := []\<rparr>"

definition DefaultEngine :: "Manager option \<Rightarrow> string" where
  "DefaultEngine m = (case m of None \<Rightarrow> [] | Some m \<Rightarrow> m_defaultEngine m)"

text \<open>The default manager is a global pointer: \<open>CloseAll\<close> gives the closed manager and the new pointer.\<close>

definition SetDefault :: "Manager option \<Rightarrow> Manager option \<Rightarrow> Manager option" where
  "SetDefault m old = m"

definition CloseAll :: "Manager option \<Rightarrow> Manager option \<times> Manager option" where
  "CloseAll d = (map_option mgr_Close d, None)"

text \<open>What a call of \<open>getOrCreate\<close> returns: a cache, an error, or the panic of the type assertion.\<close>

datatype get_result =
    GotCache cache_entry
  | NotRegistered
  | CreateFailed
  | WrongType

datatype get_call =
    Looking string string
  | Creating string string
  | Inserting string string nat
  | Got string string get_result

definition assert_type :: "string \<Rightarrow> cache_entry \<Rightarrow> get_result" where
  "assert_type T c = (if ce_type c = T then GotCache c else WrongType)"

text \<open>The three sections of \<open>getOrCreate\<close>.\<close>

definition gc_lookup :: "string \<Rightarrow> string \<Rightarrow> Manager \<Rightarrow> get_call" where
  "gc_lookup name T m = (case map_of (m_caches m) name of
      Some c \<Rightarrow> Got name T (assert_type T c)
    | None \<Rightarrow> Creating name T)"

definition gc_create :: "string \<Rightarrow> string \<Rightarrow> Manager \<Rightarrow> get_call \<times> Manager" where
  "gc_create name T m = (case EngineFactory (m_defaultEngine m) m of
      None \<Rightarrow> (Got name T NotRegistered, m)
    | Some f \<Rightarrow>
        if f name then (Inserting name T (m_created m), m\<lparr>m_created := m_created m + 1\<rparr>)
        else (Got name T CreateFailed, m))"

definition gc_insert :: "string \<Rightarrow> string \<Rightarrow> nat \<Rightarrow> Manager \<Rightarrow> get_call \<times> Manager" where
  "gc_insert name T n m = (case map_of (m_caches m) name of
      Some c \<Rightarrow> (Got name T (assert_type T c), m\<lparr>m_closed := n # m_closed m\<rparr>)
    | None \<Rightarrow> (let c = \<lparr>ce_type = T, ce_engine = n\<rparr> in (Got name T (GotCache c), m\<lparr>m_caches := (name, c) # m_caches m\<rparr>)))"

definition gc_step :: "get_call \<Rightarrow> Manager \<Rightarrow> (get_call \<times> Manager) option" where
  "gc_step p m = (case p of
      Looking name T \<Rightarrow> Some (gc_lookup name T m, m)
    | Creating name T \<Rightarrow> Some (gc_create name T m)
    | Inserting name T n \<Rightarrow> Some (gc_insert name T n m)
    | Got name T r \<Rightarrow> None)"

section \<open>Interleavings\<close>

text \<open>Some goroutines call the manager; one of them may register a factory at any time. The state remembers whether
  the manager has been closed.\<close>

record mgr_state =
  ms_mgr :: Manager
  ms_calls :: "get_call list"
  ms_wasClosed :: bool

datatype mgr_action =
    ACall string string
  | AStep nat
  | ARegister string "string \<Rightarrow> bool"
  | AClose

fun mgr_act :: "mgr_action \<Rightarrow> mgr_state \<Rightarrow> mgr_state option" where
  "mgr_act (ACall name T) s = Some (s\<lparr>ms_calls := ms_calls s @ [Looking name T]\<rparr>)"
| "mgr_act (AStep i) s = (if length (ms_calls s) \<le> i then None else (case gc_step (ms_calls s ! i) (ms_mgr s) of
      None \<Rightarrow> None
    | Some (p, m) \<Rightarrow> Some (s\<lparr>ms_calls := (ms_calls s)[i := p], ms_mgr := m\<rparr>)))"
| "mgr_act (ARegister name f) s = Some (s\<lparr>ms_mgr := SetEngineFactory name f (ms_mgr s)\<rparr>)"
| "mgr_act AClose s = Some (s\<lparr>ms_mgr := mgr_Close (ms_mgr s), ms_wasClosed := True\<rparr>)"

inductive mgr_reachable :: "string \<Rightarrow> mgr_state \<Rightarrow> bool" for d where
  start: "mgr_reachable d \<lparr>ms_mgr = NewManager d, ms_calls = [], ms_wasClosed = False\<rparr>"
| step: "mgr_reachable d s \<Longrightarrow> mgr_act a s = Some s' \<Longrightarrow> mgr_reachable d s'"

section \<open>Invariant\<close>

declare mset_upt [simp del]

fun call_engine :: "get_call \<Rightarrow> nat list" where
  "call_engine (Inserting name T n) = [n]"
| "call_engine p = []"

definition engines_of :: "mgr_state \<Rightarrow> nat multiset" where
  "engines_of s = mset (map (\<lambda>c. ce_engine (snd c)) (m_caches (ms_mgr s))) + mset (m_closed (ms_mgr s)) + mset (concat (map call_engine (ms_calls s)))"

text \<open>Every engine that was created is in a cache, closed, or with a call that has not finished; and as long as the
  manager is open, what a call got is the cache of the name.\<close>

definition mgr_inv :: "mgr_state \<Rightarrow> bool" where
  "mgr_inv s \<longleftrightarrow> engines_of s = mset [0..<m_created (ms_mgr s)] \<and> distinct (map fst (m_caches (ms_mgr s)))
   \<and> (\<not> ms_wasClosed s \<longrightarrow> (\<forall>name T c. Got name T (GotCache c) \<in> set (ms_calls s) \<longrightarrow>
        map_of (m_caches (ms_mgr s)) name = Some c \<and> ce_type c = T))"

lemma calls_update:
  "i < length ps \<Longrightarrow> mset (concat (map call_engine (ps[i := q]))) + mset (call_engine (ps ! i)) = mset (concat (map call_engine ps)) + mset (call_engine q)"
  by (induction ps arbitrary: i) (fastforce split: nat.splits)+

lemma calls_member: "p \<in> set (ps[i := q]) \<Longrightarrow> p = q \<or> p \<in> set ps"
  using set_update_subset_insert [of ps i q] by auto

lemma step_inv:
  assumes "mgr_inv s" and i: "i < length (ms_calls s)" and "gc_step (ms_calls s ! i) (ms_mgr s) = Some (p, m)"
  shows "mgr_inv (s\<lparr>ms_calls := (ms_calls s)[i := p], ms_mgr := m\<rparr>)"
proof -
  note u = calls_update [OF i, of p]
  have inv: "engines_of s = mset [0..<m_created (ms_mgr s)]" "distinct (map fst (m_caches (ms_mgr s)))"
    "\<And>name T c. \<not> ms_wasClosed s \<Longrightarrow> Got name T (GotCache c) \<in> set (ms_calls s) \<Longrightarrow>
      map_of (m_caches (ms_mgr s)) name = Some c \<and> ce_type c = T"
    using assms(1) by (auto simp: mgr_inv_def)
  show ?thesis
  proof (cases "ms_calls s ! i")
    case (Looking name T)
    then have p: "m = ms_mgr s" "call_engine p = []" "p = gc_lookup name T (ms_mgr s)"
      using assms(3) by (auto simp: gc_step_def gc_lookup_def split: option.splits)
    have "engines_of (s\<lparr>ms_calls := (ms_calls s)[i := p], ms_mgr := m\<rparr>) = engines_of s"
      using u p Looking by (simp add: engines_of_def)
    then show ?thesis using inv p
      by (auto simp: mgr_inv_def gc_lookup_def assert_type_def split: option.splits if_splits dest!: calls_member)
  next
    case (Creating name T)
    then have p: "gc_create name T (ms_mgr s) = (p, m)" using assms(3) by (simp add: gc_step_def)
    have "m_caches m = m_caches (ms_mgr s)" and "\<And>name T c. p \<noteq> Got name T (GotCache c)"
      using p by (auto simp: gc_create_def split: option.splits if_splits)
    moreover have "engines_of (s\<lparr>ms_calls := (ms_calls s)[i := p], ms_mgr := m\<rparr>) = mset [0..<m_created m]"
      using u p Creating inv(1) by (auto simp: gc_create_def engines_of_def split: option.splits if_splits)
    ultimately show ?thesis using inv by (auto simp: mgr_inv_def dest!: calls_member)
  next
    case (Inserting name T n)
    then have p: "gc_insert name T n (ms_mgr s) = (p, m)" using assms(3) by (simp add: gc_step_def)
    have "engines_of (s\<lparr>ms_calls := (ms_calls s)[i := p], ms_mgr := m\<rparr>) = engines_of s"
      using u p Inserting by (auto simp: gc_insert_def engines_of_def Let_def split: option.splits)
    moreover have "m_created m = m_created (ms_mgr s)" using p by (auto simp: gc_insert_def Let_def split: option.splits)
    moreover have "distinct (map fst (m_caches m))"
      using p inv(2) by (auto simp: gc_insert_def Let_def map_of_eq_None_iff split: option.splits)
    moreover have "map_of (m_caches m) name' = Some c \<and> ce_type c = T'"
      if "\<not> ms_wasClosed s" "Got name' T' (GotCache c) \<in> set ((ms_calls s)[i := p])" for name' T' c
      using calls_member [OF that(2)] inv(3) [OF that(1)] p
      by (fastforce simp: gc_insert_def Let_def assert_type_def split: option.splits if_splits)
    ultimately show ?thesis using inv(1) by (simp add: mgr_inv_def)
  next
    case (Got name T r)
    then show ?thesis using assms(3) by (simp add: gc_step_def)
  qed
qed

lemma act_inv:
  assumes "mgr_inv s" and "mgr_act a s = Some s'"
  shows "mgr_inv s'"
proof (cases a)
  case (AStep i)
  then show ?thesis using assms step_inv [OF assms(1)] by (auto split: if_splits option.splits)
qed (use assms in \<open>auto simp: mgr_inv_def engines_of_def SetEngineFactory_def mgr_Close_def\<close>)

lemma mgr_reachable_inv: "mgr_reachable d s \<Longrightarrow> mgr_inv s"
proof (induction rule: mgr_reachable.induct)
  case start
  then show ?case by (simp add: mgr_inv_def engines_of_def NewManager_def)
qed (rule act_inv)

section \<open>Properties\<close>

text \<open>C26: however the calls of several goroutines interleave, no engine leaks and none is closed twice: when no call is in
  progress every engine that was created either belongs to a cache of the manager or was closed once. As long as the
  manager is open, all calls for one name return the same cache, which is the one the manager holds.\<close>

theorem one_cache_per_name:
  assumes "mgr_reachable d s"
  shows "mset (map (\<lambda>c. ce_engine (snd c)) (m_caches (ms_mgr s))) + mset (m_closed (ms_mgr s)) + mset (concat (map call_engine (ms_calls s)))
      = mset [0..<m_created (ms_mgr s)]
    \<and> (\<not> ms_wasClosed s \<longrightarrow> Got name T (GotCache c) \<in> set (ms_calls s) \<longrightarrow> Got name T' (GotCache c') \<in> set (ms_calls s) \<longrightarrow>
        c = c' \<and> map_of (m_caches (ms_mgr s)) name = Some c)"
proof -
  have "engines_of s = mset [0..<m_created (ms_mgr s)]"
    and got: "\<And>name T c. \<not> ms_wasClosed s \<Longrightarrow> Got name T (GotCache c) \<in> set (ms_calls s) \<Longrightarrow> map_of (m_caches (ms_mgr s)) name = Some c"
    using mgr_reachable_inv [OF assms] by (auto simp: mgr_inv_def)
  moreover have "c = c'" if "\<not> ms_wasClosed s" "Got name T (GotCache c) \<in> set (ms_calls s)" "Got name T' (GotCache c') \<in> set (ms_calls s)"
    using got [OF that(1,2)] got [OF that(1,3)] by simp
  ultimately show ?thesis by (auto simp: engines_of_def)
qed

fun mgr_run :: "mgr_action list \<Rightarrow> mgr_state \<Rightarrow> mgr_state option" where
  "mgr_run [] s = Some s"
| "mgr_run (a # as) s = (case mgr_act a s of None \<Rightarrow> None | Some s' \<Rightarrow> mgr_run as s')"

lemma mgr_run_reachable: "mgr_reachable d s \<Longrightarrow> mgr_run as s = Some s' \<Longrightarrow> mgr_reachable d s'"
  by (induction as s rule: mgr_run.induct) (auto split: option.splits intro: mgr_reachable.step)

text \<open>Two calls race: both create an engine, the second one closes its own and returns the cache of the first.\<close>

definition race :: "mgr_action list" where
  "race = [ARegister ''ristretto'' (\<lambda>n. True), ACall ''a'' ''int'', ACall ''a'' ''int'', AStep 0, AStep 1, AStep 0, AStep 1, AStep 1, AStep 0]"

theorem one_cache_per_name_witness:
  "\<exists>s. mgr_run race \<lparr>ms_mgr = NewManager [], ms_calls = [], ms_wasClosed = False\<rparr> = Some s
    \<and> m_created (ms_mgr s) = 2 \<and> m_closed (ms_mgr s) = [0]
    \<and> mset (map (\<lambda>c. ce_engine (snd c)) (m_caches (ms_mgr s))) + mset (m_closed (ms_mgr s)) + mset (concat (map call_engine (ms_calls s))) = mset [0..<2]"
proof -
  obtain s where s: "mgr_run race \<lparr>ms_mgr = NewManager [], ms_calls = [], ms_wasClosed = False\<rparr> = Some s"
    and n: "m_created (ms_mgr s) = 2" "m_closed (ms_mgr s) = [0]"
    by (simp add: race_def NewManager_def SetEngineFactory_def gc_step_def gc_lookup_def gc_create_def gc_insert_def EngineFactory_def
        assert_type_def Let_def)
  have "mgr_reachable [] s" using mgr_run_reachable [OF mgr_reachable.start s] .
  from one_cache_per_name [OF this] s n show ?thesis by auto
qed

text \<open>A second use of a name with another type of values panics, although the functions promise an error instead.\<close>

theorem wrong_type_panics:
  assumes "map_of (m_caches m) name = Some c" and "ce_type c \<noteq> T"
  shows "gc_lookup name T m = Got name T WrongType \<and> fst (gc_insert name T n m) = Got name T WrongType"
  using assms by (simp add: gc_lookup_def gc_insert_def assert_type_def)

theorem wrong_type_panics_witness:
  "gc_lookup ''a'' ''string'' ((NewManager [])\<lparr>m_caches := [(''a'', \<lparr>ce_type = ''int'', ce_engine = 0\<rparr>)]\<rparr>) = Got ''a'' ''string'' WrongType"
  using wrong_type_panics [of "(NewManager [])\<lparr>m_caches := [(''a'', \<lparr>ce_type = ''int'', ce_engine = 0\<rparr>)]\<rparr>" "''a''" "\<lparr>ce_type = ''int'', ce_engine = 0\<rparr>" "''string''" 0]
  by simp

end
