(* ===== verification/ServiceChain.thy ===== *)
theory ServiceChain
  imports CopyOnWrite "HOL-Library.Multiset"
begin

text \<open>
  The call chain of \<open>ag/ag_service\<close>: a builder turns the implementation of a service method into an endpoint
  wrapped in middlewares. Global middlewares come from the container, others with the call; they are filtered by
  their conditions, ordered by priority and folded around the implementation. The information about the call is
  an object on a heap that is locked when the chain is built and bound to the context of every call.
\<close>

section \<open>Information about a call\<close>

datatype svc_error =
    ErrCallInfoLocked
  | ErrTagKeyExist
  | ErrExtraKeyExist
  | PropagationNotSupported int
  | Recovered panic
  | SvcError string

text \<open>Keys and values of tags are values of any type; what matters is that the private key of the transaction
  support is no string.\<close>

datatype tag_key = StringKey string | PropagationKey

datatype tag_value = TagBool bool | TagPropagation int | TagOther string

record ServiceInfo =
  si_packageName :: string
  si_serviceName :: string
  si_handlerType :: string

record CallInfo =
  ci_serviceInfo :: ServiceInfo
  ci_callName :: string
  ci_clientStreaming :: bool
  ci_serverStreaming :: bool
  ci_Extra :: "string \<rightharpoonup> string"
  ci_tag :: "tag_key \<rightharpoonup> tag_value"
  ci_locked :: bool

definition NewServiceInfo :: "string \<Rightarrow> string \<Rightarrow> string \<Rightarrow> ServiceInfo" where
  "NewServiceInfo packageName serviceName handlerType =
     \<lparr>si_packageName = packageName, si_serviceName = serviceName, si_handlerType = handlerType\<rparr>"

definition NewCallInfo :: "ServiceInfo \<Rightarrow> string \<Rightarrow> bool \<Rightarrow> bool \<Rightarrow> CallInfo" where
  "NewCallInfo serviceInfo callName clientStreaming serverStreaming =
     \<lparr>ci_serviceInfo = serviceInfo, ci_callName = callName, ci_clientStreaming = clientStreaming,
      ci_serverStreaming = serverStreaming, ci_Extra = Map.empty, ci_tag = Map.empty, ci_locked = False\<rparr>"

definition GetTag :: "CallInfo \<Rightarrow> tag_key \<Rightarrow> tag_value option" where
  "GetTag ci key = ci_tag ci key"

definition HasTag :: "CallInfo \<Rightarrow> tag_key \<Rightarrow> bool" where
  "HasTag ci key = (ci_tag ci key \<noteq> None)"

definition AddTag :: "CallInfo \<Rightarrow> tag_key \<Rightarrow> tag_value \<Rightarrow> svc_error option \<times> CallInfo" where
  "AddTag ci key value =
     (if ci_locked ci then (Some ErrCallInfoLocked, ci)
      else if HasTag ci key then (Some ErrTagKeyExist, ci)
      else (None, ci\<lparr>ci_tag := (ci_tag ci)(key \<mapsto> value)\<rparr>))"

text \<open>\<open>AddExtra\<close> does not look at the lock.\<close>

definition AddExtra :: "CallInfo \<Rightarrow> string \<Rightarrow> string \<Rightarrow> svc_error option \<times> CallInfo" where
  "AddExtra ci key value =
     (if ci_Extra ci key \<noteq> None then (Some ErrExtraKeyExist, ci)
      else (None, ci\<lparr>ci_Extra := (ci_Extra ci)(key \<mapsto> value)\<rparr>))"

definition GetExtra :: "CallInfo \<Rightarrow> string \<Rightarrow> string option" where
  "GetExtra ci key = ci_Extra ci key"

definition ci_lock :: "CallInfo \<Rightarrow> CallInfo" where
  "ci_lock ci = ci\<lparr>ci_locked := True\<rparr>"

section \<open>Endpoints and middlewares\<close>

text \<open>A context carries the address of the call information and the current transaction. The world has the heap
  of call informations, the database and everything else. An endpoint returns a response and an error, or panics.\<close>

record svc_ctx =
  ctx_callInfo :: "nat option"
  ctx_tx :: "nat option"

record ('d, 'm) svc_world =
  sw_infos :: "CallInfo list"
  sw_db :: 'd
  sw_env :: 'm

type_synonym ('q, 'r, 'd, 'm) Endpoint =
  "svc_ctx \<Rightarrow> 'q \<Rightarrow> ('d, 'm) svc_world \<Rightarrow> ('r option \<times> svc_error option) go \<times> ('d, 'm) svc_world"

type_synonym ('q, 'r, 'd, 'm) MiddlewareFunc = "('q, 'r, 'd, 'm) Endpoint \<Rightarrow> ('q, 'r, 'd, 'm) Endpoint"

definition GetCallInfoFromContext :: "svc_ctx \<Rightarrow> nat option" where
  "GetCallInfoFromContext ctx = ctx_callInfo ctx"

text \<open>A provider has its middleware and may have an order and a condition. \<open>MinInt\<close> is the order of the provider
  that binds the call information.\<close>

record ('q, 'r, 'd, 'm) MiddlewareProvider =
  mw_order :: "int option"
  mw_cond :: "(CallInfo \<Rightarrow> bool) option"
  mw_Middleware :: "('q, 'r, 'd, 'm) MiddlewareFunc"

definition PriorityNormal :: int where
  "PriorityNormal = 2000"

definition MinInt :: int where
  "MinInt = - (2 ^ 63)"

definition SimpleMiddleware :: "('q, 'r, 'd, 'm) MiddlewareFunc \<Rightarrow> ('q, 'r, 'd, 'm) MiddlewareProvider" where
  "SimpleMiddleware mw = \<lparr>mw_order = None, mw_cond = None, mw_Middleware = mw\<rparr>"

definition callInfoCtxBindMw :: "nat \<Rightarrow> ('q, 'r, 'd, 'm) MiddlewareFunc" where
  "callInfoCtxBindMw a next ctx q w = next (ctx\<lparr>ctx_callInfo := Some a\<rparr>) q w"

text \<open>The response of a call that panicked is nil.\<close>

definition recoveryMiddleware :: "('q, 'r, 'd, 'm) MiddlewareFunc" where
  "recoveryMiddleware next ctx q w = (case next ctx q w of
      (Inl p, w') \<Rightarrow> (Inr (None, Some (Recovered p)), w')
    | (Inr r, w') \<Rightarrow> (Inr r, w'))"

section \<open>Building the chain\<close>

type_synonym ('q, 'r, 'd, 'm) prioritized = "int \<times> ('q, 'r, 'd, 'm) MiddlewareFunc"

definition accepts :: "CallInfo \<Rightarrow> ('q, 'r, 'd, 'm) MiddlewareProvider \<Rightarrow> bool" where
  "accepts ci mw = (case mw_cond mw of None \<Rightarrow> True | Some cond \<Rightarrow> cond ci)"

definition prioritize :: "('q, 'r, 'd, 'm) MiddlewareProvider \<Rightarrow> ('q, 'r, 'd, 'm) prioritized" where
  "prioritize mw = (case mw_order mw of None \<Rightarrow> PriorityNormal | Some n \<Rightarrow> n, mw_Middleware mw)"

text \<open>The loop over the middlewares, with the slice of those that apply as its accumulator.\<close>

fun pmws_loop ::
  "CallInfo \<Rightarrow> ('q, 'r, 'd, 'm) MiddlewareProvider list \<Rightarrow> ('q, 'r, 'd, 'm) prioritized list \<Rightarrow> ('q, 'r, 'd, 'm) prioritized list" where
  "pmws_loop ci [] pmws = pmws"
| "pmws_loop ci (mw # mws) pmws =
     (if \<not> accepts ci mw then pmws_loop ci mws pmws else pmws_loop ci mws (pmws @ [prioritize mw]))"

text \<open>The loop that wraps the implementation, from the last middleware to the first.\<close>

fun wrap_loop :: "('q, 'r, 'd, 'm) prioritized list \<Rightarrow> nat \<Rightarrow> ('q, 'r, 'd, 'm) Endpoint \<Rightarrow> ('q, 'r, 'd, 'm) Endpoint" where
  "wrap_loop pmws 0 chain = chain"
| "wrap_loop pmws (Suc i) chain = wrap_loop pmws i (snd (pmws ! i) chain)"

text \<open>\<open>sort.Sort\<close> is an argument: it orders by priority and is not stable.\<close>

definition buildEndpointChain ::
  "(('q, 'r, 'd, 'm) prioritized list \<Rightarrow> ('q, 'r, 'd, 'm) prioritized list) \<Rightarrow> nat \<Rightarrow> CallInfo list \<Rightarrow>
    ('q, 'r, 'd, 'm) MiddlewareProvider list \<Rightarrow> ('q, 'r, 'd, 'm) Endpoint \<Rightarrow> ('q, 'r, 'd, 'm) Endpoint \<times> CallInfo list" where
  "buildEndpointChain srt a infos middlewares actual =
     (let infos = infos[a := ci_lock (infos ! a)];
          pmws = srt (pmws_loop (infos ! a) middlewares [(MinInt, callInfoCtxBindMw a)])
      in (wrap_loop pmws (length pmws) actual, infos))"

type_synonym CallInfoOpt = "CallInfo \<Rightarrow> svc_error option \<times> CallInfo"

record agServiceBuilder =
  asb_callInfoOpts :: "CallInfoOpt list"
  asb_globalMWs :: "slice_hdr option"

text \<open>The slices of providers share backing arrays: \<open>append\<close> works in place when there is room.\<close>

definition NewAgServiceBuilder ::
  "(nat \<Rightarrow> nat \<Rightarrow> nat) \<Rightarrow> ('q, 'r, 'd, 'm) MiddlewareProvider heap \<Rightarrow> CallInfoOpt list \<Rightarrow> slice_hdr option \<Rightarrow>
    ('q, 'r, 'd, 'm) MiddlewareProvider list \<Rightarrow> ('q, 'r, 'd, 'm) MiddlewareFunc list \<Rightarrow>
    ('q, 'r, 'd, 'm) MiddlewareProvider heap \<times> agServiceBuilder" where
  "NewAgServiceBuilder grow h ciOpts globalMWs gpMWs globalMWFuns =
     (case fold (\<lambda>mw (h, s). heap_append grow h s [mw]) (gpMWs @ map SimpleMiddleware globalMWFuns) (h, globalMWs) of
        (h', mws) \<Rightarrow> (h', \<lparr>asb_callInfoOpts = ciOpts, asb_globalMWs = mws\<rparr>))"

fun run_opts :: "CallInfoOpt list \<Rightarrow> CallInfo \<Rightarrow> svc_error option \<times> CallInfo" where
  "run_opts [] ci = (None, ci)"
| "run_opts (opt # opts) ci = (case opt ci of (Some e, ci') \<Rightarrow> (Some e, ci') | (None, ci') \<Rightarrow> run_opts opts ci')"

text \<open>The method in its two parts: the options and the append, then the chain from what the appended slice holds by then.\<close>

definition build_append ::
  "(nat \<Rightarrow> nat \<Rightarrow> nat) \<Rightarrow> agServiceBuilder \<Rightarrow> ('q, 'r, 'd, 'm) MiddlewareProvider list \<Rightarrow>
    ('q, 'r, 'd, 'm) MiddlewareProvider heap \<Rightarrow> ('q, 'r, 'd, 'm) MiddlewareProvider heap \<times> slice_hdr option" where
  "build_append grow b customMws h = heap_append grow h (asb_globalMWs b) customMws"

definition BuildEndpointChain ::
  "(('q, 'r, 'd, 'm) prioritized list \<Rightarrow> ('q, 'r, 'd, 'm) prioritized list) \<Rightarrow> (nat \<Rightarrow> nat \<Rightarrow> nat) \<Rightarrow>
    agServiceBuilder \<Rightarrow> nat \<Rightarrow> ('q, 'r, 'd, 'm) MiddlewareProvider list \<Rightarrow> ('q, 'r, 'd, 'm) Endpoint \<Rightarrow>
    ('q, 'r, 'd, 'm) MiddlewareProvider heap \<Rightarrow> CallInfo list \<Rightarrow>
    (svc_error + ('q, 'r, 'd, 'm) Endpoint) \<times> ('q, 'r, 'd, 'm) MiddlewareProvider heap \<times> CallInfo list" where
  "BuildEndpointChain srt grow b a customMws actual h infos =
     (case run_opts (asb_callInfoOpts b) (infos ! a) of
        (Some e, ci) \<Rightarrow> (Inl e, h, infos[a := ci])
      | (None, ci) \<Rightarrow> (case build_append grow b customMws h of (h', mws) \<Rightarrow>
          (case buildEndpointChain srt a (infos[a := ci]) (elems h' mws) actual of (chain, infos') \<Rightarrow> (Inr chain, h', infos'))))"

section \<open>The older chain of handlers\<close>

text \<open>\<open>RegisterHandler\<close> sorts the slice of its caller in place, so the sorted list is a result as well.\<close>

type_synonym ('q, 'r, 'd, 'm) Middleware =
  "string \<Rightarrow> svc_ctx \<Rightarrow> 'q \<Rightarrow> ('q, 'r, 'd, 'm) Endpoint \<Rightarrow> ('d, 'm) svc_world \<Rightarrow> ('r option \<times> svc_error option) go \<times> ('d, 'm) svc_world"

fun register_loop ::
  "string \<Rightarrow> ('q, 'r, 'd, 'm) Middleware list \<Rightarrow> nat \<Rightarrow> ('q, 'r, 'd, 'm) Endpoint \<Rightarrow> ('q, 'r, 'd, 'm) Endpoint" where
  "register_loop methodName mws 0 handler = handler"
| "register_loop methodName mws (Suc i) handler =
     register_loop methodName mws i (\<lambda>ctx q. (mws ! i) methodName ctx q handler)"

definition RegisterHandler ::
  "((int \<times> ('q, 'r, 'd, 'm) Middleware) list \<Rightarrow> (int \<times> ('q, 'r, 'd, 'm) Middleware) list) \<Rightarrow> string \<Rightarrow>
    (int \<times> ('q, 'r, 'd, 'm) Middleware) list \<Rightarrow> ('q, 'r, 'd, 'm) Endpoint \<Rightarrow>
    ('q, 'r, 'd, 'm) Endpoint \<times> (int \<times> ('q, 'r, 'd, 'm) Middleware) list" where
  "RegisterHandler srt methodName prioritizedMws handler =
     (let ordered = srt prioritizedMws; middlewares = map snd ordered
      in (register_loop methodName middlewares (length middlewares) handler, ordered))"

definition loggingMiddleware :: "('q, 'r, 'd, 'm) Middleware" where
  "loggingMiddleware method ctx q next w = next ctx q w"

section \<open>The endpoints of a service\<close>

record ('q, 'r, 'd, 'm) AgServiceProxyBase =
  asp_ServiceInfo :: ServiceInfo
  asp_CallInfos :: "string \<rightharpoonup> nat"
  asp_endpoints :: "string \<rightharpoonup> ('q, 'r, 'd, 'm) Endpoint"

definition NewAgServiceProxyBase :: "ServiceInfo \<Rightarrow> (string \<rightharpoonup> nat) \<Rightarrow> ('q, 'r, 'd, 'm) AgServiceProxyBase" where
  "NewAgServiceProxyBase serviceInfo callInfos =
     \<lparr>asp_ServiceInfo = serviceInfo, asp_CallInfos = callInfos, asp_endpoints = Map.empty\<rparr>"

definition RegisterEndpoint ::
  "string \<Rightarrow> ('q, 'r, 'd, 'm) Endpoint \<Rightarrow> ('q, 'r, 'd, 'm) AgServiceProxyBase \<Rightarrow> ('q, 'r, 'd, 'm) AgServiceProxyBase" where
  "RegisterEndpoint callName endpoint p = p\<lparr>asp_endpoints := (asp_endpoints p)(callName \<mapsto> endpoint)\<rparr>"

definition GetEndpoint :: "string \<Rightarrow> ('q, 'r, 'd, 'm) AgServiceProxyBase \<Rightarrow> ('q, 'r, 'd, 'm) Endpoint option" where
  "GetEndpoint callName p = asp_endpoints p callName"

section \<open>Order of the chain\<close>

text \<open>What \<open>sort.Sort\<close> promises: the elements in an order of their priorities.\<close>

definition orders :: "((int \<times> 'a) list \<Rightarrow> (int \<times> 'a) list) \<Rightarrow> bool" where
  "orders srt \<longleftrightarrow> (\<forall>xs. mset (srt xs) = mset xs \<and> sorted (map fst (srt xs)))"

lemma orders_sort_key: "orders (sort_key fst)"
  by (simp add: orders_def)

lemma pmws_loop_eq: "pmws_loop ci mws pmws = pmws @ map prioritize (filter (accepts ci) mws)"
  by (induction ci mws pmws rule: pmws_loop.induct) simp_all

lemma wrap_loop_eq: "n \<le> length pmws \<Longrightarrow> wrap_loop pmws n chain = foldr snd (take n pmws) chain"
  by (induction n arbitrary: chain) (simp_all add: take_Suc_conv_app_nth)

lemma register_loop_eq:
  "n \<le> length mws \<Longrightarrow>
    register_loop name mws n h = foldr (\<lambda>mw next ctx q. mw name ctx q next) (take n mws) h"
  by (induction n arbitrary: h) (simp_all add: take_Suc_conv_app_nth)

text \<open>The only element of the least priority comes first, whatever the sort does with equal ones.\<close>

lemma orders_least_first:
  assumes "orders srt" and "\<And>y. y \<in> set ys \<Longrightarrow> fst x < fst y"
  shows "\<exists>zs. srt (x # ys) = x # zs \<and> mset zs = mset ys \<and> sorted (map fst zs)"
proof -
  have m: "mset (srt (x # ys)) = add_mset x (mset ys)" and s: "sorted (map fst (srt (x # ys)))"
    using assms(1) by (simp_all add: orders_def)
  then obtain z zs where z: "srt (x # ys) = z # zs" by (cases "srt (x # ys)") auto
  have "x \<in> set (z # zs)" using m z by (metis set_mset_mset union_single_eq_member)
  then have "fst z \<le> fst x" using s z by auto
  moreover have "z \<in> insert x (set ys)" using m z by (metis list.set_intros(1) set_mset_add_mset_insert set_mset_mset)
  ultimately have "z = x" using assms(2) by fastforce
  with m s z show ?thesis by auto
qed

lemma buildEndpointChain_order:
  assumes "orders srt" and "a < length infos" and "\<And>mw n. mw \<in> set mws \<Longrightarrow> mw_order mw = Some n \<Longrightarrow> MinInt < n"
  shows "\<exists>ps. mset ps = mset (map prioritize (filter (accepts (ci_lock (infos ! a))) mws)) \<and> sorted (map fst ps)
    \<and> buildEndpointChain srt a infos mws actual = (callInfoCtxBindMw a (foldr snd ps actual), infos[a := ci_lock (infos ! a)])"
proof -
  let ?ys = "map prioritize (filter (accepts (ci_lock (infos ! a))) mws)"
  have "fst (MinInt, callInfoCtxBindMw a) < fst y" if "y \<in> set ?ys" for y
    using that assms(3) by (auto simp: prioritize_def PriorityNormal_def MinInt_def split: option.splits)
  from orders_least_first [OF assms(1), of ?ys, OF this] obtain zs where
    z: "srt ((MinInt, callInfoCtxBindMw a) # ?ys) = (MinInt, callInfoCtxBindMw a) # zs"
      "mset zs = mset ?ys" "sorted (map fst zs)"
    by blast
  show ?thesis
    by (rule exI [of _ zs]) (use z assms(2) in \<open>simp add: buildEndpointChain_def pmws_loop_eq wrap_loop_eq Let_def\<close>)
qed

lemma BuildEndpointChain_order:
  assumes "orders srt" and "slice_ok h (asb_globalMWs b)" and "a < length infos"
    and "run_opts (asb_callInfoOpts b) (infos ! a) = (None, ci)"
    and "\<forall>mw \<in> set (elems h (asb_globalMWs b) @ customMws). \<forall>n. mw_order mw = Some n \<longrightarrow> MinInt < n"
  shows "\<exists>ps. BuildEndpointChain srt grow b a customMws actual h infos
      = (Inr (callInfoCtxBindMw a (foldr snd ps actual)), fst (build_append grow b customMws h), infos[a := ci_lock ci])
    \<and> mset ps = mset (map prioritize (filter (accepts (ci_lock ci)) (elems h (asb_globalMWs b) @ customMws))) \<and> sorted (map fst ps)"
proof -
  obtain h' mws where app: "heap_append grow h (asb_globalMWs b) customMws = (h', mws)" by fastforce
  have el: "elems h' mws = elems h (asb_globalMWs b) @ customMws" by (rule heap_append_elems [OF assms(2) app])
  obtain ps where "mset ps = mset (map prioritize (filter (accepts (ci_lock ci)) (elems h (asb_globalMWs b) @ customMws)))"
      "sorted (map fst ps)"
      "buildEndpointChain srt a (infos[a := ci]) (elems h' mws) actual = (callInfoCtxBindMw a (foldr snd ps actual), infos[a := ci_lock ci])"
    using buildEndpointChain_order [OF assms(1), of a "infos[a := ci]" "elems h' mws" actual] assms(3,5) by (force simp: el)
  then show ?thesis
    by (intro exI [of _ ps]) (simp add: BuildEndpointChain_def build_append_def assms(4) app)
qed

lemma build_append_keeps:
  assumes "slice_ok h (asb_globalMWs b)"
  shows "elems (fst (build_append grow b mws h)) (asb_globalMWs b) = elems h (asb_globalMWs b)"
  using heap_append_extends [OF assms, of grow mws] assms by (cases "heap_append grow h (asb_globalMWs b) mws") (simp add: build_append_def extends_def)

text \<open>C27: the chain that \<open>BuildEndpointChain\<close> returns binds the call information outermost, then has exactly the global and
  the given middlewares whose condition holds for the call information after the options, each once and in the order of
  their priorities, and the implementation innermost; the call information is locked, and the global middlewares are as
  before, although the append may write behind them in place.\<close>

theorem service_chain_in_order:
  assumes "orders srt" and "slice_ok h (asb_globalMWs b)" and "a < length infos"
    and "run_opts (asb_callInfoOpts b) (infos ! a) = (None, ci)"
    and "\<forall>mw \<in> set (elems h (asb_globalMWs b) @ customMws). \<forall>n. mw_order mw = Some n \<longrightarrow> MinInt < n"
  shows "\<exists>ps h'. BuildEndpointChain srt grow b a customMws actual h infos
      = (Inr (callInfoCtxBindMw a (foldr snd ps actual)), h', infos[a := ci_lock ci])
    \<and> mset ps = mset (map prioritize (filter (accepts (ci_lock ci)) (elems h (asb_globalMWs b) @ customMws)))
    \<and> sorted (map fst ps) \<and> elems h' (asb_globalMWs b) = elems h (asb_globalMWs b)"
  using BuildEndpointChain_order [OF assms, of grow actual] build_append_keeps [OF assms(2), of grow customMws] by blast

definition demo_info :: CallInfo where
  "demo_info = NewCallInfo (NewServiceInfo ''p'' ''s'' ''h'') ''call'' False False"

definition demo_builder :: agServiceBuilder where
  "demo_builder = \<lparr>asb_callInfoOpts = [\<lambda>ci. AddTag ci (StringKey ''k'') (TagBool True)], asb_globalMWs = Some \<lparr>sl_arr = 0, sl_len = 1\<rparr>\<rparr>"

text \<open>A middleware and an implementation that write their number into the environment.\<close>

definition step_mw :: "nat \<Rightarrow> (unit, unit, unit, nat list) MiddlewareFunc" where
  "step_mw n next ctx q w = next ctx q (w\<lparr>sw_env := sw_env w @ [n]\<rparr>)"

definition at_order :: "int \<Rightarrow> nat \<Rightarrow> (unit, unit, unit, nat list) MiddlewareProvider" where
  "at_order n k = \<lparr>mw_order = Some n, mw_cond = None, mw_Middleware = step_mw k\<rparr>"

definition demo_heap :: "(unit, unit, unit, nat list) MiddlewareProvider heap" where
  "demo_heap = [[Some (at_order 3000 1), None, None]]"

definition answer :: "(unit, unit, unit, nat list) Endpoint" where
  "answer ctx q w = (Inr (Some (), None), w\<lparr>sw_env := sw_env w @ [0]\<rparr>)"

theorem service_chain_in_order_witness:
  "\<exists>ps h'. BuildEndpointChain (sort_key fst) (\<lambda>c n. n) demo_builder 0 [at_order 1000 2, SimpleMiddleware (step_mw 3)] answer demo_heap [demo_info]
      = (Inr (callInfoCtxBindMw 0 (foldr snd ps answer)), h', [demo_info\<lparr>ci_tag := [StringKey ''k'' \<mapsto> TagBool True], ci_locked := True\<rparr>])
    \<and> mset ps = {#(3000 :: int, step_mw 1), (1000, step_mw 2), (2000, step_mw 3)#} \<and> sorted (map fst ps)
    \<and> elems h' (asb_globalMWs demo_builder) = [at_order 3000 1]"
proof -
  let ?b = demo_builder and ?ci = "demo_info\<lparr>ci_tag := [StringKey ''k'' \<mapsto> TagBool True]\<rparr>"
  have ok: "slice_ok demo_heap (asb_globalMWs ?b)" and el: "elems demo_heap (asb_globalMWs ?b) = [at_order 3000 1]"
    by (simp_all add: demo_heap_def demo_builder_def slice_defs)
  have opts: "run_opts (asb_callInfoOpts ?b) ([demo_info] ! 0) = (None, ?ci)"
    by (simp add: demo_builder_def AddTag_def HasTag_def demo_info_def NewCallInfo_def)
  show ?thesis
    using service_chain_in_order [OF orders_sort_key ok _ opts, of "[at_order 1000 2, SimpleMiddleware (step_mw 3)]" "\<lambda>c n. n" answer]
    by (simp add: el at_order_def SimpleMiddleware_def MinInt_def accepts_def prioritize_def PriorityNormal_def ci_lock_def add_mset_commute)
qed

section \<open>Builds that overlap\<close>

text \<open>The append of a build writes behind the global middlewares in the shared array when there is room. When two
  builds of one builder overlap, the chain of the first is built with the middlewares of the second.\<close>

theorem overlapping_builds_mix_middlewares:
  assumes "slice_ok h (asb_globalMWs b)" and "len_of (asb_globalMWs b) + length xs \<le> length (arr_of h (asb_globalMWs b))"
    and "length ys = length xs"
    and "build_append grow b xs h = (h1, s1)" and "build_append grow b ys h1 = (h2, s2)"
  shows "buildEndpointChain srt a infos (elems h2 s1) actual
    = buildEndpointChain srt a infos (elems h (asb_globalMWs b) @ ys) actual"
proof (cases "asb_globalMWs b")
  case None
  with assms show ?thesis by (auto simp: build_append_def heap_append_def slice_defs)
next
  case (Some p)
  let ?n = "sl_len p + length xs" and ?arr = "h ! sl_arr p"
  have h1: "h1 = h[sl_arr p := take (sl_len p) ?arr @ map Some xs @ drop ?n ?arr]" and s1: "s1 = Some (p\<lparr>sl_len := ?n\<rparr>)"
    using assms(2,4) by (auto simp: build_append_def heap_append_def Some arr_of_def len_of_def Let_def)
  have "h2 = h1[sl_arr p := take (sl_len p) (h1 ! sl_arr p) @ map Some ys @ drop ?n (h1 ! sl_arr p)]"
    using assms(1,2,3,5) by (auto simp: build_append_def heap_append_def Some slice_defs Let_def h1 split: if_splits)
  then have "elems h2 s1 = elems h (asb_globalMWs b) @ ys"
    using assms(1,2,3) by (simp add: h1 s1 Some slice_defs)
  then show ?thesis by simp
qed

theorem overlapping_builds_mix_middlewares_witness:
  "snd (fst (buildEndpointChain (sort_key fst) 0 [demo_info]
      (elems (fst (build_append (\<lambda>c n. n) demo_builder [at_order 1000 2] (fst (build_append (\<lambda>c n. n) demo_builder [at_order 1000 5] demo_heap))))
        (snd (build_append (\<lambda>c n. n) demo_builder [at_order 1000 5] demo_heap))) answer) \<lparr>ctx_callInfo = None, ctx_tx = None\<rparr> ()
      \<lparr>sw_infos = [demo_info], sw_db = (), sw_env = []\<rparr>)
    = \<lparr>sw_infos = [demo_info], sw_db = (), sw_env = [2, 1, 0]\<rparr>"
proof -
  let ?a = "\<lambda>k. build_append (\<lambda>c n. n) demo_builder [at_order 1000 k]"
  have ok: "slice_ok demo_heap (asb_globalMWs demo_builder)" and el: "elems demo_heap (asb_globalMWs demo_builder) = [at_order 3000 1]"
    and room: "len_of (asb_globalMWs demo_builder) + length [at_order 1000 5] \<le> length (arr_of demo_heap (asb_globalMWs demo_builder))"
    by (simp_all add: demo_heap_def demo_builder_def slice_defs)
  have "buildEndpointChain (sort_key fst) 0 [demo_info] (elems (fst (?a 2 (fst (?a 5 demo_heap)))) (snd (?a 5 demo_heap))) answer
    = buildEndpointChain (sort_key fst) 0 [demo_info] [at_order 3000 1, at_order 1000 2] answer"
    using overlapping_builds_mix_middlewares [OF ok room, of "[at_order 1000 2]" "\<lambda>c n. n" "fst (?a 5 demo_heap)" "snd (?a 5 demo_heap)"
        "fst (?a 2 (fst (?a 5 demo_heap)))" "snd (?a 2 (fst (?a 5 demo_heap)))" "sort_key fst" 0 "[demo_info]" answer]
    by (simp add: el)
  then show ?thesis
    by (simp add: buildEndpointChain_def at_order_def accepts_def prioritize_def MinInt_def Let_def callInfoCtxBindMw_def step_mw_def answer_def)
qed

end
