(* ===== verification/Transaction.thy ===== *)
theory Transaction
  imports ServiceChain
begin

text \<open>
  Transactions of service calls: \<open>contribute/agdb/transaction.go\<close> (propagation), \<open>transaction_service_middleware.go\<close>
  (the option and the middleware that put a call into a transaction) and \<open>gormdb/repository.go\<close> (the transaction manager
  over GORM). GORM is a parameter; what its documentation says of \<open>Transaction\<close> is the hypothesis \<open>atomic_gorm\<close>.
\<close>

section \<open>Propagation\<close>

definition PropagationUnknown :: int where
  "PropagationUnknown = 0"

definition PropagationSupports :: int where
  "PropagationSupports = 1"

definition PropagationRequired :: int where
  "PropagationRequired = 2"

lemmas propagation_defs = PropagationUnknown_def PropagationSupports_def PropagationRequired_def

definition IsSupportsTransaction :: "int \<Rightarrow> bool" where
  "IsSupportsTransaction tp \<longleftrightarrow> tp = PropagationSupports \<or> tp = PropagationRequired"

definition BindTxToCtx :: "svc_ctx \<Rightarrow> nat \<Rightarrow> svc_ctx" where
  "BindTxToCtx ctx tx = ctx\<lparr>ctx_tx := Some tx\<rparr>"

definition GetTxFromCtx :: "svc_ctx \<Rightarrow> nat option" where
  "GetTxFromCtx ctx = ctx_tx ctx"

definition HasCurrentTx :: "svc_ctx \<Rightarrow> bool" where
  "HasCurrentTx ctx \<longleftrightarrow> ctx_tx ctx \<noteq> None"

text \<open>A body works on the world and on the variables its closure captures, and returns an error or panics.\<close>

type_synonym ('d, 'm, 'c) tx_state = "('d, 'm) svc_world \<times> 'c"

type_synonym ('d, 'm, 'c) tx_body = "svc_ctx \<Rightarrow> ('d, 'm, 'c) tx_state \<Rightarrow> svc_error option go \<times> ('d, 'm, 'c) tx_state"

type_synonym ('d, 'm, 'c) TransactionManager =
  "svc_ctx \<Rightarrow> ('d, 'm, 'c) tx_body \<Rightarrow> ('d, 'm, 'c) tx_state \<Rightarrow> svc_error option go \<times> ('d, 'm, 'c) tx_state"

definition doTransactionWithRequired ::
  "svc_ctx \<Rightarrow> ('d, 'm, 'c) TransactionManager \<Rightarrow> ('d, 'm, 'c) tx_body \<Rightarrow> ('d, 'm, 'c) tx_state \<Rightarrow> svc_error option go \<times> ('d, 'm, 'c) tx_state" where
  "doTransactionWithRequired ctx tm fn s = (if HasCurrentTx ctx then fn ctx s else tm ctx (\<lambda>ctx. fn ctx) s)"

definition WithTransaction ::
  "svc_ctx \<Rightarrow> ('d, 'm, 'c) TransactionManager \<Rightarrow> int \<Rightarrow> ('d, 'm, 'c) tx_body \<Rightarrow> ('d, 'm, 'c) tx_state \<Rightarrow> svc_error option go \<times> ('d, 'm, 'c) tx_state" where
  "WithTransaction ctx tm tp fn s =
     (if tp = PropagationUnknown then fn ctx s
      else if tp = PropagationSupports then fn ctx s
      else if tp = PropagationRequired then doTransactionWithRequired ctx tm fn s
      else fn ctx s)"

section \<open>The repository over GORM\<close>

text \<open>\<open>gorm\<close> is GORM's \<open>Transaction\<close> on a connection with the context.\<close>

type_synonym ('d, 'm, 'c) gorm_Transaction =
  "svc_ctx \<Rightarrow> (nat \<Rightarrow> ('d, 'm, 'c) tx_state \<Rightarrow> svc_error option go \<times> ('d, 'm, 'c) tx_state) \<Rightarrow> ('d, 'm, 'c) tx_state \<Rightarrow>
    svc_error option go \<times> ('d, 'm, 'c) tx_state"

definition repo_Transaction :: "('d, 'm, 'c) gorm_Transaction \<Rightarrow> ('d, 'm, 'c) TransactionManager" where
  "repo_Transaction gorm ctx fn s = gorm ctx (\<lambda>tx. fn (BindTxToCtx ctx tx)) s"

definition TransactionWithTP ::
  "('d, 'm, 'c) gorm_Transaction \<Rightarrow> svc_ctx \<Rightarrow> int \<Rightarrow> ('d, 'm, 'c) tx_body \<Rightarrow> ('d, 'm, 'c) tx_state \<Rightarrow> svc_error option go \<times> ('d, 'm, 'c) tx_state" where
  "TransactionWithTP gorm ctx tp fn s = WithTransaction ctx (repo_Transaction gorm) tp fn s"

datatype db_handle = BaseDB | TxDB nat

definition repo_DB :: "svc_ctx \<Rightarrow> db_handle" where
  "repo_DB ctx = (case GetTxFromCtx ctx of Some tx \<Rightarrow> TxDB tx | None \<Rightarrow> BaseDB)"

section \<open>The option and the middleware\<close>

definition TransactionPreOpt :: CallInfoOpt where
  "TransactionPreOpt ci = (case GetTag ci (StringKey ''transaction'') of
      None \<Rightarrow> (None, ci)
    | Some (TagBool False) \<Rightarrow> (None, ci)
    | Some (TagBool True) \<Rightarrow> AddTag ci PropagationKey (TagPropagation PropagationRequired)
    | Some (TagPropagation tp) \<Rightarrow>
        if \<not> IsSupportsTransaction tp then (Some (PropagationNotSupported tp), ci) else AddTag ci PropagationKey (TagPropagation tp)
    | Some (TagOther _) \<Rightarrow> (None, ci))"

text \<open>The body runs the rest of the chain and leaves its response and error in the variables \<open>resp\<close> and \<open>rerr\<close> of the
  surrounding function.\<close>

definition tx_body ::
  "('q, 'r, 'd, 'm) Endpoint \<Rightarrow> 'q \<Rightarrow> ('d, 'm, 'r option \<times> svc_error option) tx_body" where
  "tx_body next q ctx s = (case next ctx q (fst s) of
      (Inl p, w) \<Rightarrow> (Inl p, (w, snd s))
    | (Inr (resp, rerr), w) \<Rightarrow> (Inr rerr, (w, (resp, rerr))))"

definition tx_Middleware ::
  "('d, 'm, 'r option \<times> svc_error option) TransactionManager \<Rightarrow> ('q, 'r, 'd, 'm) MiddlewareFunc" where
  "tx_Middleware tm next ctx q w = (case GetCallInfoFromContext ctx of
      None \<Rightarrow> (Inl NilDereference, w)
    | Some a \<Rightarrow>
       (let tp = (case GetTag (sw_infos w ! a) PropagationKey of Some (TagPropagation tp) \<Rightarrow> tp | _ \<Rightarrow> PropagationUnknown) in
        case WithTransaction ctx tm tp (tx_body next q) (w, (None, None)) of
          (Inl p, (w', _)) \<Rightarrow> (Inl p, w')
        | (Inr (Some terr), (w', (resp, _))) \<Rightarrow> (Inr (resp, Some terr), w')
        | (Inr None, (w', (resp, rerr))) \<Rightarrow> (Inr (resp, rerr), w')))"

definition TransactionMiddlewareProvider ::
  "('d, 'm, 'r option \<times> svc_error option) TransactionManager \<Rightarrow> ('q, 'r, 'd, 'm) MiddlewareProvider" where
  "TransactionMiddlewareProvider tm =
     \<lparr>mw_order = None, mw_cond = Some (\<lambda>ci. HasTag ci PropagationKey), mw_Middleware = tx_Middleware tm\<rparr>"

section \<open>All or nothing\<close>

text \<open>What GORM promises: \<open>Transaction\<close> may fail before it runs the body; otherwise it runs the body once, commits if the body
  returns nil, which may fail, and rolls the database back if the body returns an error or panics. Only the database is
  rolled back.\<close>

definition rolled_back :: "('d, 'm, 'c) tx_state \<Rightarrow> ('d, 'm, 'c) tx_state \<Rightarrow> ('d, 'm, 'c) tx_state" where
  "rolled_back s s' = ((fst s')\<lparr>sw_db := sw_db (fst s)\<rparr>, snd s')"

definition atomic_gorm :: "('d, 'm, 'c) gorm_Transaction \<Rightarrow> bool" where
  "atomic_gorm gorm \<longleftrightarrow> (\<forall>ctx fn s. (\<exists>e. gorm ctx fn s = (Inr (Some e), s)) \<or>
     (\<exists>tx r s'. fn tx s = (r, s') \<and>
        (if r = Inr None then gorm ctx fn s = (Inr None, s') \<or> (\<exists>e. gorm ctx fn s = (Inr (Some e), rolled_back s s'))
         else gorm ctx fn s = (r, rolled_back s s'))))"


definition starts_required :: "nat \<Rightarrow> svc_ctx \<Rightarrow> ('d, 'm) svc_world \<Rightarrow> bool" where
  "starts_required a ctx w \<longleftrightarrow> ctx_callInfo ctx = Some a \<and> ctx_tx ctx = None
     \<and> GetTag (sw_infos w ! a) PropagationKey = Some (TagPropagation PropagationRequired)"




text \<open>The middleware of a call that needs a transaction and has none.\<close>

lemma tx_Middleware_required:
  assumes "starts_required a ctx w"
  shows "tx_Middleware (repo_Transaction gorm) next ctx q w =
    (case gorm ctx (\<lambda>tx. tx_body next q (BindTxToCtx ctx tx)) (w, (None, None)) of
      (Inl p, (w', _)) \<Rightarrow> (Inl p, w')
    | (Inr (Some terr), (w', (resp, _))) \<Rightarrow> (Inr (resp, Some terr), w')
    | (Inr None, (w', (resp, rerr))) \<Rightarrow> (Inr (resp, rerr), w'))"
  using assms by (simp add: tx_Middleware_def GetCallInfoFromContext_def starts_required_def WithTransaction_def propagation_defs
      doTransactionWithRequired_def HasCurrentTx_def repo_Transaction_def)




text \<open>A transaction manager that never fails by itself, and the wiring of the framework: the transaction middleware and the
  recovery are both global and have the same priority.\<close>

definition demo_gorm :: "('d, 'm, 'c) gorm_Transaction" where
  "demo_gorm ctx fn s = (case fn 7 s of (r, s') \<Rightarrow> if r = Inr None then (Inr None, s') else (r, rolled_back s s'))"

lemma atomic_demo_gorm: "atomic_gorm demo_gorm"
  unfolding atomic_gorm_def
proof (intro allI disjI2)
  fix ctx and fn :: "nat \<Rightarrow> ('a, 'b, 'c) tx_state \<Rightarrow> svc_error option go \<times> ('a, 'b, 'c) tx_state" and s
  obtain r s' where "fn 7 s = (r, s')" by (cases "fn 7 s")
  then show "\<exists>tx r s'. fn tx s = (r, s') \<and>
      (if r = Inr None then demo_gorm ctx fn s = (Inr None, s') \<or> (\<exists>e. demo_gorm ctx fn s = (Inr (Some e), rolled_back s s'))
       else demo_gorm ctx fn s = (r, rolled_back s s'))"
    by (intro exI [of _ 7] exI [of _ r] exI [of _ s']) (simp add: demo_gorm_def)
qed

definition wired :: "('d, 'm, 'r option \<times> svc_error option) gorm_Transaction \<Rightarrow> ('q, 'r, 'd, 'm) MiddlewareProvider heap" where
  "wired gorm = [[Some (TransactionMiddlewareProvider (repo_Transaction gorm)), Some (SimpleMiddleware recoveryMiddleware)]]"

definition wired_builder :: agServiceBuilder where
  "wired_builder = \<lparr>asb_callInfoOpts = [TransactionPreOpt], asb_globalMWs = Some \<lparr>sl_arr = 0, sl_len = 2\<rparr>\<rparr>"


lemma wired_elems:
  "slice_ok (wired gorm) (asb_globalMWs wired_builder)"
  "elems (wired gorm) (asb_globalMWs wired_builder) = [TransactionMiddlewareProvider (repo_Transaction gorm), SimpleMiddleware recoveryMiddleware]"
  by (simp_all add: wired_def wired_builder_def slice_defs)

lemma wired_orders:
  "\<forall>mw \<in> set (elems (wired gorm) (asb_globalMWs wired_builder) @ []). \<forall>n. mw_order mw = Some n \<longrightarrow> MinInt < n"
  by (simp add: wired_elems TransactionMiddlewareProvider_def SimpleMiddleware_def)

definition tx_info :: CallInfo where
  "tx_info = (NewCallInfo (NewServiceInfo ''p'' ''s'' ''h'') ''call'' False False)\<lparr>ci_tag := [StringKey ''transaction'' \<mapsto> TagBool True]\<rparr>"

lemma wired_opts:
  "\<not> ci_locked ci \<Longrightarrow> ci_tag ci (StringKey ''transaction'') = Some (TagBool True) \<Longrightarrow> ci_tag ci PropagationKey = None \<Longrightarrow>
    run_opts (asb_callInfoOpts wired_builder) ci
      = (None, ci\<lparr>ci_tag := (ci_tag ci)(PropagationKey \<mapsto> TagPropagation PropagationRequired)\<rparr>)"
  by (simp add: wired_builder_def TransactionPreOpt_def GetTag_def AddTag_def HasTag_def)



section \<open>The outcome of a transactional call\<close>

text \<open>The two possible chains of the wiring do the same.\<close>

lemma two_orders: "mset ps = {#x, y#} \<Longrightarrow> ps = [x, y] \<or> ps = [y, x]"
proof -
  assume m: "mset ps = {#x, y#}"
  then have "length ps = 2" by (metis size_mset size_add_mset size_empty numeral_2_eq_2)
  then obtain u v where "ps = [u, v]" by (auto simp: numeral_2_eq_2 length_Suc_conv)
  with m show ?thesis by (auto simp: add_eq_conv_ex)
qed

text \<open>\<open>outcome\<close> describes what a transactional call may do with the implementation \<open>next\<close>, which does not panic: nothing at
  all when the transaction does not start; otherwise it runs it once in the transaction and returns what it returned, with
  the database rolled back if that is an error, or if the commit fails.\<close>

definition outcome ::
  "('q, 'r, 'd, 'm) Endpoint \<Rightarrow> svc_ctx \<Rightarrow> 'q \<Rightarrow> ('d, 'm) svc_world \<Rightarrow> ('r option \<times> svc_error option) go \<times> ('d, 'm) svc_world \<Rightarrow> bool" where
  "outcome next ctx q w result \<longleftrightarrow>
     (\<exists>e. result = (Inr (None, Some e), w)) \<or>
     (\<exists>tx resp err w'. next (BindTxToCtx ctx tx) q w = (Inr (resp, err), w') \<and>
        (if err = None then result = (Inr (resp, None), w') \<or> (\<exists>e. result = (Inr (resp, Some e), w'\<lparr>sw_db := sw_db w\<rparr>))
         else result = (Inr (resp, err), w'\<lparr>sw_db := sw_db w\<rparr>)))"

lemma recovery_returns: "\<exists>resp err w'. recoveryMiddleware next ctx q w = (Inr (resp, err), w')"
  by (cases "next ctx q w"; cases "fst (next ctx q w)") (auto simp: recoveryMiddleware_def)

text \<open>The runs that GORM's contract allows.\<close>

lemma atomic_gormE [consumes 1, case_names begin_failed ran]:
  assumes "atomic_gorm gorm"
  obtains (begin_failed) e where "gorm ctx fn s = (Inr (Some e), s)"
    | (ran) tx r s' where "fn tx s = (r, s')"
      "if r = Inr None then gorm ctx fn s = (Inr None, s') \<or> (\<exists>e. gorm ctx fn s = (Inr (Some e), rolled_back s s'))
       else gorm ctx fn s = (r, rolled_back s s')"
  using assms unfolding atomic_gorm_def by meson

lemma outcome_tx_outside:
  assumes "atomic_gorm gorm" and "starts_required a ctx w"
  shows "outcome (recoveryMiddleware actual) ctx q w (tx_Middleware (repo_Transaction gorm) (recoveryMiddleware actual) ctx q w)"
proof -
  let ?s = "(w, (None, None))" and ?fn = "\<lambda>tx. tx_body (recoveryMiddleware actual) q (BindTxToCtx ctx tx)"
  have mw: "tx_Middleware (repo_Transaction gorm) (recoveryMiddleware actual) ctx q w = (case gorm ctx ?fn ?s of
      (Inl p, (w', _)) \<Rightarrow> (Inl p, w')
    | (Inr (Some terr), (w', (resp, _))) \<Rightarrow> (Inr (resp, Some terr), w')
    | (Inr None, (w', (resp, rerr))) \<Rightarrow> (Inr (resp, rerr), w'))"
    by (rule tx_Middleware_required [OF assms(2)])
  from assms(1) show ?thesis
  proof (cases rule: atomic_gormE [where ctx = ctx and fn = ?fn and s = ?s])
    case begin_failed
    then show ?thesis by (auto simp: mw outcome_def)
  next
    case (ran tx r s')
    obtain resp err w' where n: "recoveryMiddleware actual (BindTxToCtx ctx tx) q w = (Inr (resp, err), w')"
      using recovery_returns [of actual "BindTxToCtx ctx tx" q w] by blast
    then have "r = Inr err" and "s' = (w', (resp, err))" using ran(1) by (simp_all add: tx_body_def)
    with ran(2) n show ?thesis
      unfolding outcome_def by (intro disjI2 exI [of _ tx] exI [of _ resp] exI [of _ err] exI [of _ w']) (auto simp: mw rolled_back_def split: option.splits)
  qed
qed

lemma outcome_tx_inside:
  assumes "atomic_gorm gorm" and "starts_required a ctx w"
  shows "outcome (recoveryMiddleware actual) ctx q w (recoveryMiddleware (tx_Middleware (repo_Transaction gorm) actual) ctx q w)"
proof -
  let ?s = "(w, (None, None))" and ?fn = "\<lambda>tx. tx_body actual q (BindTxToCtx ctx tx)"
  note mw = recoveryMiddleware_def tx_Middleware_required [OF assms(2)]
  from assms(1) show ?thesis
  proof (cases rule: atomic_gormE [where ctx = ctx and fn = ?fn and s = ?s])
    case begin_failed
    then show ?thesis by (auto simp: mw outcome_def)
  next
    case (ran tx r s')
    obtain x w' where x: "actual (BindTxToCtx ctx tx) q w = (x, w')" by fastforce
    show ?thesis
    proof (cases x)
      case (Inl p)
      then have "gorm ctx ?fn ?s = (Inl p, w'\<lparr>sw_db := sw_db w\<rparr>, None, None)" using ran x by (auto simp: tx_body_def rolled_back_def)
      with x Inl show ?thesis
        unfolding outcome_def by (intro disjI2 exI [of _ tx] exI [of _ None] exI [of _ "Some (Recovered p)"] exI [of _ w']) (simp add: mw)
    next
      case (Inr y)
      obtain resp err where y: "y = (resp, err)" by fastforce
      with ran x Inr have "r = Inr err" and "s' = (w', (resp, err))" by (simp_all add: tx_body_def)
      with ran(2) x y Inr show ?thesis
        unfolding outcome_def by (intro disjI2 exI [of _ tx] exI [of _ resp] exI [of _ err] exI [of _ w']) (auto simp: mw rolled_back_def split: option.splits)
    qed
  qed
qed

text \<open>In the wiring of the framework a call with the transaction tag never panics and either does nothing, when no
  transaction can be started, or runs its implementation exactly once in a new transaction: if the implementation returns
  without an error its response is returned with its changes, unless the commit fails, and otherwise its error, or that of
  its panic, with the database as before. It does not matter in which order the sort puts the two middlewares, which have
  the same priority.\<close>

theorem transactional_call_outcome:
  assumes "atomic_gorm gorm" and "orders srt" and "a < length infos" and "ctx_tx ctx = None"
    and "\<not> ci_locked (infos ! a)" and "GetTag (infos ! a) (StringKey ''transaction'') = Some (TagBool True)"
    and "\<not> HasTag (infos ! a) PropagationKey"
  shows "\<exists>chain h' infos'. BuildEndpointChain srt grow wired_builder a [] actual (wired gorm) infos = (Inr chain, h', infos')
    \<and> (\<forall>w q. sw_infos w = infos' \<longrightarrow>
        outcome (recoveryMiddleware actual) (ctx\<lparr>ctx_callInfo := Some a\<rparr>) q w (chain ctx q w))"
proof -
  let ?ci = "(infos ! a)\<lparr>ci_tag := (ci_tag (infos ! a))(PropagationKey \<mapsto> TagPropagation PropagationRequired)\<rparr>"
  have opts: "run_opts (asb_callInfoOpts wired_builder) (infos ! a) = (None, ?ci)"
    using assms(5-7) by (simp add: wired_opts GetTag_def HasTag_def)
  obtain ps where b: "BuildEndpointChain srt grow wired_builder a [] actual (wired gorm) infos
      = (Inr (callInfoCtxBindMw a (foldr snd ps actual)), fst (build_append grow wired_builder [] (wired gorm)), infos[a := ci_lock ?ci])"
    and m: "mset ps = mset (map prioritize (filter (accepts (ci_lock ?ci)) (elems (wired gorm) (asb_globalMWs wired_builder) @ [])))"
    using BuildEndpointChain_order [OF assms(2) wired_elems(1) assms(3) opts wired_orders] by blast
  have "mset ps = {#(PriorityNormal, tx_Middleware (repo_Transaction gorm)), (PriorityNormal, recoveryMiddleware)#}"
    using m by (simp add: wired_elems accepts_def prioritize_def TransactionMiddlewareProvider_def SimpleMiddleware_def HasTag_def ci_lock_def)
  note ps = two_orders [OF this]
  have "outcome (recoveryMiddleware actual) (ctx\<lparr>ctx_callInfo := Some a\<rparr>) q w (callInfoCtxBindMw a (foldr snd ps actual) ctx q w)"
    if "sw_infos w = infos[a := ci_lock ?ci]" for w q
  proof -
    have "starts_required a (ctx\<lparr>ctx_callInfo := Some a\<rparr>) w"
      using that assms(3,4) by (simp add: starts_required_def GetTag_def ci_lock_def)
    from outcome_tx_outside [OF assms(1) this] outcome_tx_inside [OF assms(1) this] ps show ?thesis
      by (auto simp: callInfoCtxBindMw_def)
  qed
  with b show ?thesis by blast
qed

definition deposit :: "(nat, nat, nat, unit) Endpoint" where
  "deposit ctx q w = (Inr (Some (sw_db w + q), None), w\<lparr>sw_db := sw_db w + q\<rparr>)"

theorem transactional_call_outcome_witness:
  "\<exists>chain h' infos'. BuildEndpointChain (sort_key fst) (\<lambda>c n. n) wired_builder 0 [] deposit (wired demo_gorm) [tx_info] = (Inr chain, h', infos')
    \<and> outcome (recoveryMiddleware deposit) \<lparr>ctx_callInfo = Some 0, ctx_tx = None\<rparr> 3 \<lparr>sw_infos = infos', sw_db = 5, sw_env = ()\<rparr>
        (chain \<lparr>ctx_callInfo = None, ctx_tx = None\<rparr> 3 \<lparr>sw_infos = infos', sw_db = 5, sw_env = ()\<rparr>)"
proof -
  have "\<not> ci_locked ([tx_info] ! 0)" and "GetTag ([tx_info] ! 0) (StringKey ''transaction'') = Some (TagBool True)"
    and "\<not> HasTag ([tx_info] ! 0) PropagationKey"
    by (simp_all add: tx_info_def NewCallInfo_def GetTag_def HasTag_def)
  from transactional_call_outcome [OF atomic_demo_gorm orders_sort_key _ _ this, of "\<lparr>ctx_callInfo = None, ctx_tx = None\<rparr>" "\<lambda>c n. n" deposit]
  show ?thesis by fastforce
qed

section \<open>Building a chain again\<close>

text \<open>The call information is locked by the first build, and the option that marks transactional calls wants to add a
  tag: a second build for the same call information fails with \<open>ErrCallInfoLocked\<close> if the call has the transaction tag, and
  the chain cannot be rebuilt.\<close>

theorem transactional_chain_builds_once:
  assumes "asb_callInfoOpts b = [TransactionPreOpt]" and "a < length infos"
    and "GetTag (infos ! a) (StringKey ''transaction'') = Some (TagBool True)"
    and "BuildEndpointChain srt grow b a mws actual h infos = (Inr chain, h1, infos1)"
  shows "BuildEndpointChain srt grow b a mws' actual' h2 infos1 = (Inl ErrCallInfoLocked, h2, infos1)"
proof -
  have "\<not> ci_locked (infos ! a) \<and> \<not> HasTag (infos ! a) PropagationKey"
    using assms by (auto simp: BuildEndpointChain_def TransactionPreOpt_def AddTag_def split: if_splits prod.splits)
  then have "infos1 ! a = ci_lock ((infos ! a)\<lparr>ci_tag := (ci_tag (infos ! a))(PropagationKey \<mapsto> TagPropagation PropagationRequired)\<rparr>)"
    using assms by (auto simp: BuildEndpointChain_def TransactionPreOpt_def AddTag_def buildEndpointChain_def Let_def split: prod.splits)
  then have "TransactionPreOpt (infos1 ! a) = (Some ErrCallInfoLocked, infos1 ! a)"
    using assms(3) by (simp add: TransactionPreOpt_def GetTag_def AddTag_def ci_lock_def)
  then show ?thesis using assms(1) by (simp add: BuildEndpointChain_def)
qed

theorem transactional_chain_builds_once_witness:
  "\<exists>chain h1 infos1. BuildEndpointChain (sort_key fst) (\<lambda>c n. n) wired_builder 0 [] deposit (wired demo_gorm) [tx_info] = (Inr chain, h1, infos1)
    \<and> BuildEndpointChain (sort_key fst) (\<lambda>c n. n) wired_builder 0 [] deposit h1 infos1 = (Inl ErrCallInfoLocked, h1, infos1)"
proof -
  have t: "GetTag ([tx_info] ! 0) (StringKey ''transaction'') = Some (TagBool True)" by (simp add: tx_info_def GetTag_def)
  have o: "run_opts (asb_callInfoOpts wired_builder) ([tx_info] ! 0) = (None, tx_info\<lparr>ci_tag := (ci_tag tx_info)(PropagationKey \<mapsto> TagPropagation PropagationRequired)\<rparr>)"
    by (simp add: wired_opts tx_info_def NewCallInfo_def)
  obtain chain h1 infos1 where b: "BuildEndpointChain (sort_key fst) (\<lambda>c n. n) wired_builder 0 [] deposit (wired demo_gorm) [tx_info] = (Inr chain, h1, infos1)"
    using BuildEndpointChain_order [OF orders_sort_key wired_elems(1) _ o wired_orders, of "\<lambda>c n. n" deposit demo_gorm] by auto
  from transactional_chain_builds_once [OF _ _ t b, of "[]" deposit h1] b show ?thesis
    by (simp add: wired_builder_def)
qed

end
