(* ===== verification/NamingSql.thy ===== *)
theory NamingSql
  imports FieldMask "HOL-Library.Sublist"
begin

text \<open>
  Named SQL of \<open>contribute/agdb/gormdb\<close>: \<open>namingsql_support.go\<close> turns named parameters into placeholders, collects the
  values of the parameters from a structure and computes the limits of a page; \<open>page.go\<close> builds ORDER BY clauses.
\<close>

section \<open>Named parameters\<close>

text \<open>The two regular expressions, \<open>inRegex\<close> as a scanner. None of its parts can end in two ways, so that the greedy match
  is the only one. White space is what \<open>\s\<close> stands for.\<close>

definition rx_space :: "char \<Rightarrow> bool" where
  "rx_space c \<longleftrightarrow> c \<in> {CHR '' '', CHR 0x09, CHR 0x0A, CHR 0x0C, CHR 0x0D}"

definition skip_space :: "string \<Rightarrow> string" where
  "skip_space s = dropWhile rx_space s"

definition skip_spaces :: "string \<Rightarrow> string option" where
  "skip_spaces s = (if s \<noteq> [] \<and> rx_space (hd s) then Some (skip_space s) else None)"

text \<open>A word without regard to case.\<close>

definition scan_word :: "string \<Rightarrow> string \<Rightarrow> string option" where
  "scan_word w s = (if map lower (take (length w) s) = w then Some (drop (length w) s) else None)"

definition scan_char :: "char \<Rightarrow> string \<Rightarrow> string option" where
  "scan_char c s = (if s \<noteq> [] \<and> hd s = c then Some (tl s) else None)"

definition scan_not :: "string \<Rightarrow> (bool \<times> string) option" where
  "scan_not s = (case scan_word ''not'' s of
      Some r \<Rightarrow> map_option (\<lambda>r. (True, r)) (skip_spaces r)
    | None \<Rightarrow> Some (False, s))"

text \<open>The part of \<open>inRegex\<close> up to the parameter, and the parameter with the closing parenthesis: the name and the rest.\<close>

definition scan_in :: "string \<Rightarrow> (bool \<times> string) option" where
  "scan_in s = Option.bind (skip_spaces s) (\<lambda>s. Option.bind (scan_not s) (\<lambda>(neg, s).
     Option.bind (scan_word ''in'' s) (\<lambda>s. Option.bind (scan_char CHR ''('' (skip_space s)) (\<lambda>s. Some (neg, skip_space s)))))"

definition scan_name :: "string \<Rightarrow> (string \<times> string) option" where
  "scan_name s = (let n = takeWhile name_char s in if n = [] then None else Some (n, dropWhile name_char s))"

definition match_in :: "string \<Rightarrow> (bool \<times> string \<times> string) option" where
  "match_in s = Option.bind (scan_in s) (\<lambda>(neg, s). Option.bind (scan_char CHR ''@'' s) (\<lambda>s.
     Option.bind (scan_name s) (\<lambda>(n, s). Option.bind (scan_char CHR '')'' (skip_space s)) (\<lambda>r. Some (neg, n, r)))))"

lemma skip_space_length: "length (skip_space s) \<le> length s"
  by (simp add: skip_space_def length_dropWhile_le)

lemma scan_lengths:
  "skip_spaces s = Some r \<Longrightarrow> length r \<le> length s"
  "scan_word w s = Some r \<Longrightarrow> length r \<le> length s"
  "scan_char c s = Some r \<Longrightarrow> length r < length s"
  "scan_not s = Some (neg, r) \<Longrightarrow> length r \<le> length s"
  "scan_name s = Some (n, r) \<Longrightarrow> length r \<le> length s"
proof -
  show a: "skip_spaces s = Some r \<Longrightarrow> length r \<le> length s" for s r
    using skip_space_length [of s] by (auto simp: skip_spaces_def split: if_splits)
  show b: "scan_word w s = Some r \<Longrightarrow> length r \<le> length s" for w s r
    by (auto simp: scan_word_def split: if_splits)
  show "scan_char c s = Some r \<Longrightarrow> length r < length s" by (cases s) (auto simp: scan_char_def split: if_splits)
  show "scan_not s = Some (neg, r) \<Longrightarrow> length r \<le> length s"
    by (auto simp: scan_not_def split: option.splits dest!: a b)
  show "scan_name s = Some (n, r) \<Longrightarrow> length r \<le> length s"
    by (auto simp: scan_name_def Let_def length_dropWhile_le split: if_splits)
qed

lemma scan_in_length:
  assumes "scan_in s = Some (neg, r)"
  shows "length r < length s"
proof -
  obtain s1 s2 s3 s4 where "skip_spaces s = Some s1" "scan_not s1 = Some (neg, s2)" "scan_word ''in'' s2 = Some s3"
      "scan_char CHR ''('' (skip_space s3) = Some s4" "r = skip_space s4"
    using assms by (auto simp: scan_in_def bind_eq_Some_conv)
  then show ?thesis using skip_space_length [of s3] skip_space_length [of s4] by (auto dest!: scan_lengths)
qed

lemma match_in_length:
  assumes "match_in s = Some (neg, n, r)"
  shows "length r < length s"
proof -
  obtain s1 s2 s3 where "scan_in s = Some (neg, s1)" "scan_char CHR ''@'' s1 = Some s2" "scan_name s2 = Some (n, s3)"
      "scan_char CHR '')'' (skip_space s3) = Some r"
    using assms by (auto simp: match_in_def bind_eq_Some_conv)
  then show ?thesis using skip_space_length [of s3] by (auto dest!: scan_lengths scan_in_length)
qed

text \<open>\<open>ReplaceAllStringFunc\<close> with \<open>inRegex\<close>: the text with the matches replaced, and the names the function collects.\<close>

function replace_in :: "string \<Rightarrow> string \<times> string list" where
  "replace_in s = (case match_in s of
      Some (neg, n, r) \<Rightarrow> (case replace_in r of (t, ns) \<Rightarrow> ((if neg then '' not in ?'' else '' in ?'') @ t, n # ns))
    | None \<Rightarrow> (case s of [] \<Rightarrow> ([], []) | c # r \<Rightarrow> (case replace_in r of (t, ns) \<Rightarrow> (c # t, ns))))"
  by pat_completeness auto
termination
  by (relation "measure length") (auto dest: match_in_length)

declare replace_in.simps [simp del]

function replace_named :: "string \<Rightarrow> string \<times> string list" where
  "replace_named [] = ([], [])"
| "replace_named (c # r) = (case (if c = CHR ''@'' then scan_name r else None) of
      Some (n, r') \<Rightarrow> (case replace_named r' of (t, ns) \<Rightarrow> (CHR ''?'' # t, n # ns))
    | None \<Rightarrow> (case replace_named r of (t, ns) \<Rightarrow> (c # t, ns)))"
  by pat_completeness auto
termination
  by (relation "measure length") (auto dest: scan_lengths(5) split: if_splits)

definition ReplaceNamedParamsWithIn :: "string \<Rightarrow> string \<times> string list" where
  "ReplaceNamedParamsWithIn sql = (case replace_in sql of (sql, inParamNames) \<Rightarrow>
     (case replace_named sql of (sql, otherParamNames) \<Rightarrow> (sql, inParamNames @ otherParamNames)))"

text \<open>A structure is the list of its fields with their names, whether they are exported, and their values; \<open>None\<close> is an
  argument that is no structure. Reading a field that is not exported panics.\<close>

datatype naming_error = NotAStruct | NoField string

fun params_loop :: "(string \<times> bool \<times> any) list \<Rightarrow> string list \<Rightarrow> any list \<Rightarrow> (naming_error + any list) go" where
  "params_loop fs [] params = Inr (Inr params)"
| "params_loop fs (n # ns) params = (case map_of fs n of
      None \<Rightarrow> Inr (Inl (NoField n))
    | Some (exported, v) \<Rightarrow> if exported then params_loop fs ns (params @ [v]) else Inl (Panicked ''reflect''))"

definition GetParamsByNames :: "(string \<times> bool \<times> any) list option \<Rightarrow> string list \<Rightarrow> (naming_error + any list) go" where
  "GetParamsByNames arg paramNames = (case arg of None \<Rightarrow> Inr (Inl NotAStruct) | Some fs \<Rightarrow> params_loop fs paramNames [])"

section \<open>Pages\<close>

datatype page_error = PageNumTooSmall | PageSizeTooSmall

text \<open>The quotient of Go is rounded towards zero; the divisor is positive here.\<close>

definition go_quot :: "int \<Rightarrow> int \<Rightarrow> int" where
  "go_quot a b = (if 0 \<le> a then a div b else - ((- a) div b))"

definition go_rem :: "int \<Rightarrow> int \<Rightarrow> int" where
  "go_rem a b = a - b * go_quot a b"

definition CalcPageStartRecord :: "int \<Rightarrow> int \<Rightarrow> int \<Rightarrow> string \<Rightarrow> (int \<times> int \<times> int \<times> bool) \<times> page_error option" where
  "CalcPageStartRecord pageNum pageSize totalCount dbType =
     (if pageNum \<le> 0 then ((0, 0, 0, False), Some PageNumTooSmall)
      else if pageSize \<le> 0 then ((0, 0, 0, False), Some PageSizeTooSmall)
      else if totalCount = 0 then ((0, 0, 0, False), None)
      else (let mysql = (dbType = ''mysql'' \<or> dbType = ''MYSQL'');
                startRecord = (if mysql then go_int (go_int (pageNum - 1) * pageSize)
                               else go_int (go_int (go_int (pageNum - 1) * pageSize) + 1));
                endRecord = (if mysql then pageSize else go_int (go_int (startRecord + pageSize) - 1));
                totalPage = (let t = go_quot totalCount pageSize in if go_rem totalCount pageSize \<noteq> 0 then go_int (t + 1) else t)
            in if startRecord > totalCount then ((pageNum, pageSize, totalPage, False), None)
               else ((startRecord, if endRecord > totalCount then totalCount else endRecord, totalPage, True), None)))"

section \<open>ORDER BY\<close>

type_synonym Order = "string \<times> string"

definition Order_String :: "Order \<Rightarrow> string" where
  "Order_String ord = fst ord @ '' '' @ snd ord"

definition ToSqlOrder :: "Order list \<Rightarrow> string" where
  "ToSqlOrder orderSlice = strings_Join (map Order_String orderSlice) '', ''"

type_synonym OrderBuilder = "Order list"

definition NewOrderBuilder :: OrderBuilder where
  "NewOrderBuilder = []"

definition ob_Asc :: "string \<Rightarrow> OrderBuilder \<Rightarrow> OrderBuilder" where
  "ob_Asc colName b = b @ [(colName, ''ASC'')]"

definition ob_Desc :: "string \<Rightarrow> OrderBuilder \<Rightarrow> OrderBuilder" where
  "ob_Desc colName b = b @ [(colName, ''DESC'')]"

definition ob_Order :: "string \<Rightarrow> string \<Rightarrow> OrderBuilder \<Rightarrow> OrderBuilder" where
  "ob_Order colName dir b = b @ [(colName, dir)]"

definition ob_Orders :: "Order list \<Rightarrow> OrderBuilder \<Rightarrow> OrderBuilder" where
  "ob_Orders orders b = b @ orders"

definition ob_Build :: "OrderBuilder \<Rightarrow> string" where
  "ob_Build b = (if b = [] then [] else ToSqlOrder b)"

definition ob_BuildWithoutKeyword :: "OrderBuilder \<Rightarrow> string" where
  "ob_BuildWithoutKeyword b = (if b = [] then [] else ToSqlOrder b)"

definition ob_Clear :: "OrderBuilder \<Rightarrow> OrderBuilder" where
  "ob_Clear b = []"

section \<open>Pages partition the records\<close>

lemma CalcPageStartRecord_exact:
  assumes "1 \<le> p" and "0 < k" and "p * k < 2 ^ 63" and "0 < n" and "n < 2 ^ 63" and "dbType \<noteq> ''mysql''" and "dbType \<noteq> ''MYSQL''"
  shows "\<exists>tp. CalcPageStartRecord p k n dbType =
    (if n \<le> (p - 1) * k then ((p, k, tp, False), None) else (((p - 1) * k + 1, min (p * k) n, tp, True), None))"
proof -
  have le: "0 \<le> (p - 1) * k" "p \<le> p * k" "k \<le> p * k" "(p - 1) * k + k = p * k"
    using assms mult_left_mono [of 1 k p] mult_right_mono [of 1 p k] by (simp_all add: left_diff_distrib)
  have small: "go_int x = x" if "0 \<le> x" "x \<le> p * k" for x
    using go_int_id [of x] that assms(3) by simp
  have id: "go_int (p - 1) = p - 1" "go_int ((p - 1) * k) = (p - 1) * k" "go_int ((p - 1) * k + 1) = (p - 1) * k + 1"
    "go_int ((p - 1) * k + 1 + k - 1) = p * k"
    by (rule small [of "p - 1"], use le assms(1,2) in linarith, use le assms(1,2) in linarith) (use le assms(1,2) in \<open>simp_all add: small\<close>)
  have wrap: "go_int (go_int ((p - 1) * k + 1 + k) - 1) = p * k"
  proof -
    have "go_int (go_int x - 1) = go_int (x - 1)" for x by (simp add: go_int_sint)
    with id(4) show ?thesis by simp
  qed
  show ?thesis using assms le id wrap by (auto simp: CalcPageStartRecord_def Let_def min_def)
qed

text \<open>C29: for a database with row numbers and counts that do not overflow, every record is on exactly one page: the pages
  with a query cover the record numbers from 1 to the total and do not overlap.\<close>

theorem pages_partition_records:
  assumes "0 < k" and "1 \<le> r" and "r \<le> n" and "n + k < 2 ^ 63" and "dbType \<noteq> ''mysql''" and "dbType \<noteq> ''MYSQL''"
  shows "\<exists>!p. p * k < 2 ^ 63 \<and> (\<exists>first last tp. CalcPageStartRecord p k n dbType = ((first, last, tp, True), None) \<and> first \<le> r \<and> r \<le> last)"
proof (intro ex1I [of _ "(r - 1) div k + 1"] conjI)
  let ?p = "(r - 1) div k + 1"
  have dm: "(r - 1) div k * k \<le> r - 1" "r - 1 < (r - 1) div k * k + k"
    using assms(1) by (metis div_mult_mod_eq le_add_same_cancel1 pos_mod_sign, metis add_less_cancel_left div_mult_mod_eq pos_mod_bound)
  have pk: "?p * k = (r - 1) div k * k + k" by (simp add: distrib_right)
  show small: "?p * k < 2 ^ 63" using dm(1) pk assms by linarith
  have "1 \<le> ?p" using assms by (simp add: pos_imp_zdiv_nonneg_iff)
  then show "\<exists>first last tp. CalcPageStartRecord ?p k n dbType = ((first, last, tp, True), None) \<and> first \<le> r \<and> r \<le> last"
    using CalcPageStartRecord_exact [of ?p k n dbType] assms small dm pk by auto
next
  fix p assume p: "p * k < 2 ^ 63 \<and> (\<exists>first last tp. CalcPageStartRecord p k n dbType = ((first, last, tp, True), None) \<and> first \<le> r \<and> r \<le> last)"
  then have "1 \<le> p" by (auto simp: CalcPageStartRecord_def split: if_splits)
  with CalcPageStartRecord_exact [of p k n dbType] p assms have "(p - 1) * k + 1 \<le> r" "r \<le> p * k"
    by (auto split: if_splits)
  then have "(r - 1) div k = p - 1" by (intro int_div_pos_eq [of _ _ _ "r - 1 - (p - 1) * k"]) (simp_all add: algebra_simps)
  then show "p = (r - 1) div k + 1" by simp
qed

theorem pages_partition_records_witness:
  "\<exists>!p :: int. p * 10 < 2 ^ 63 \<and> (\<exists>first last tp. CalcPageStartRecord p 10 25 ''DB2'' = ((first, last, tp, True), None) \<and> first \<le> 21 \<and> 21 \<le> last)"
  using pages_partition_records [of 10 21 25 "''DB2''"] by simp

text \<open>The limits of a page are computed without a check for overflow: with a page size of four, the page number
  \<open>2 ^ 62 + 1\<close> wraps around to the first page, which is returned as if it were the page asked for.\<close>

theorem far_page_is_first_page:
  assumes "0 < n" and "dbType \<noteq> ''mysql''" and "dbType \<noteq> ''MYSQL''"
  shows "CalcPageStartRecord (2 ^ 62 + 1) 4 n dbType = CalcPageStartRecord 1 4 n dbType
    \<and> snd (snd (snd (fst (CalcPageStartRecord 1 4 n dbType))))"
  using assms by (simp add: CalcPageStartRecord_def Let_def go_int_def)

theorem far_page_is_first_page_witness:
  "CalcPageStartRecord (2 ^ 62 + 1) 4 10 ''DB2'' = ((1, 4, 3, True), None)"
  using far_page_is_first_page [of 10 "''DB2''"] by (simp add: CalcPageStartRecord_def Let_def go_int_def go_quot_def go_rem_def)

text \<open>For MySQL the start is an offset from zero: the page behind the last one is still queried when it would begin exactly
  at the total.\<close>

lemma mysql_queries_empty_page:
  assumes "0 < k" and "0 < m" and "m * k < 2 ^ 62" and "m < 2 ^ 62"
  shows "\<exists>e tp. CalcPageStartRecord (m + 1) k (m * k) ''mysql'' = ((m * k, e, tp, True), None)"
proof -
  have "0 < m * k" using assms by simp
  then have "go_int (m * k) = m * k" using go_int_id [of "m * k"] assms(3) by simp
  with assms \<open>0 < m * k\<close> show ?thesis by (simp add: CalcPageStartRecord_def Let_def go_int_id)
qed

section \<open>The order of named parameters\<close>

text \<open>A statement as a list of parameters, each with the text before it: a plain one, or one in an IN list with what stands
  between the text and the parameter and what closes the list; then the text behind the last one.\<close>

datatype sql_param =
    Plain string string
  | InList string string bool string string

fun sql_text :: "sql_param list \<Rightarrow> string \<Rightarrow> string" where
  "sql_text [] e = e"
| "sql_text (Plain t n # ps) e = t @ CHR ''@'' # n @ sql_text ps e"
| "sql_text (InList t pre neg n post # ps) e = t @ pre @ CHR ''@'' # n @ post @ sql_text ps e"

fun placeholders :: "sql_param list \<Rightarrow> string \<Rightarrow> string" where
  "placeholders [] e = e"
| "placeholders (Plain t n # ps) e = t @ CHR ''?'' # placeholders ps e"
| "placeholders (InList t pre neg n post # ps) e = t @ (if neg then '' not in ?'' else '' in ?'') @ placeholders ps e"

fun param_of :: "sql_param \<Rightarrow> string" where
  "param_of (Plain t n) = n"
| "param_of (InList t pre neg n post) = n"

fun is_in :: "sql_param \<Rightarrow> bool" where
  "is_in (Plain t n) = False"
| "is_in (InList t pre neg n post) = True"

text \<open>The pieces are read as they are meant: texts have no parameter, a name is followed by another character, a plain
  parameter does not stand in an IN list, and the IN part begins as far left as possible.\<close>

definition in_head :: "string \<Rightarrow> bool option" where
  "in_head t = (case scan_in t of Some (neg, []) \<Rightarrow> Some neg | _ \<Rightarrow> None)"

definition name_ok :: "string \<Rightarrow> string \<Rightarrow> bool" where
  "name_ok n r \<longleftrightarrow> n \<noteq> [] \<and> list_all name_char n \<and> (r = [] \<or> \<not> name_char (hd r))"

fun params_ok :: "sql_param list \<Rightarrow> string \<Rightarrow> bool" where
  "params_ok [] e \<longleftrightarrow> CHR ''@'' \<notin> set e"
| "params_ok (Plain t n # ps) e \<longleftrightarrow> CHR ''@'' \<notin> set t \<and> list_all (\<lambda>u. in_head u = None) (suffixes t)
     \<and> name_ok n (sql_text ps e) \<and> params_ok ps e"
| "params_ok (InList t pre neg n post # ps) e \<longleftrightarrow> CHR ''@'' \<notin> set t \<and> CHR ''@'' \<notin> set pre \<and> in_head pre = Some neg
     \<and> list_all (\<lambda>u. u = [] \<or> in_head (u @ pre) = None) (suffixes t)
     \<and> name_ok n post \<and> scan_char CHR '')'' (skip_space post) = Some [] \<and> params_ok ps e"

subsection \<open>Scanning up to a parameter\<close>

lemma at_no_space [simp]: "\<not> rx_space CHR ''@''"
  by (simp add: rx_space_def)

lemma skip_space_at: "CHR ''@'' \<notin> set t \<Longrightarrow> skip_space (t @ CHR ''@'' # r) = skip_space t @ CHR ''@'' # r"
  by (induction t) (simp_all add: skip_space_def)

lemma skip_spaces_at: "CHR ''@'' \<notin> set t \<Longrightarrow> skip_spaces (t @ CHR ''@'' # r) = map_option (\<lambda>u. u @ CHR ''@'' # r) (skip_spaces t)"
  by (cases t) (simp_all add: skip_spaces_def skip_space_at [symmetric])

lemma scan_char_at: "c \<noteq> CHR ''@'' \<Longrightarrow> scan_char c (t @ CHR ''@'' # r) = map_option (\<lambda>u. u @ CHR ''@'' # r) (scan_char c t)"
  by (cases t) (simp_all add: scan_char_def)

lemma scan_word_at:
  assumes "CHR ''@'' \<notin> set w"
  shows "scan_word w (t @ CHR ''@'' # r) = map_option (\<lambda>u. u @ CHR ''@'' # r) (scan_word w t)"
proof (cases "length w \<le> length t")
  case True
  then show ?thesis by (simp add: scan_word_def)
next
  case False
  then obtain m where m: "length w - length t = Suc m" by (metis Suc_diff_Suc not_le)
  have "lower CHR ''@'' = CHR ''@''" by (simp add: lower_def)
  then have "map lower (take (length w) (t @ CHR ''@'' # r)) \<noteq> w"
    using assms False m by (auto dest!: arg_cong [of _ w set])
  moreover have "map lower (take (length w) t) \<noteq> w" using False by (auto dest!: arg_cong [of _ w length])
  ultimately show ?thesis by (simp add: scan_word_def)
qed

lemma scan_suffix:
  "set (skip_space t) \<subseteq> set t"
  "skip_spaces t = Some u \<Longrightarrow> set u \<subseteq> set t"
  "scan_word w t = Some u \<Longrightarrow> set u \<subseteq> set t"
  "scan_char c t = Some u \<Longrightarrow> set u \<subseteq> set t"
  by (auto simp: skip_space_def skip_spaces_def scan_word_def scan_char_def dest: set_dropWhileD in_set_dropD list.set_sel(2) split: if_splits)

lemma scan_not_at:
  assumes "CHR ''@'' \<notin> set t"
  shows "scan_not (t @ CHR ''@'' # r) = map_option (\<lambda>(neg, u). (neg, u @ CHR ''@'' # r)) (scan_not t)"
proof (cases "scan_word ''not'' t")
  case (Some u)
  then have "CHR ''@'' \<notin> set u" using scan_suffix(3) assms by blast
  with Some show ?thesis by (simp add: scan_not_def scan_word_at skip_spaces_at option.map_comp comp_def)
qed (simp add: scan_not_def scan_word_at)

lemma scan_not_suffix: "scan_not t = Some (neg, u) \<Longrightarrow> set u \<subseteq> set t"
  by (auto simp: scan_not_def split: option.splits dest: scan_suffix(2,3))

lemma scan_in_at:
  assumes "CHR ''@'' \<notin> set t"
  shows "scan_in (t @ CHR ''@'' # r) = map_option (\<lambda>(neg, u). (neg, u @ CHR ''@'' # r)) (scan_in t)"
proof -
  have at: "CHR ''@'' \<notin> set u" if "set u \<subseteq> set t" for u using that assms by blast
  show ?thesis
  proof (cases "skip_spaces t")
    case (Some t1)
    note a1 = at [OF scan_suffix(2) [OF Some]]
    show ?thesis
    proof (cases "scan_not t1")
      case (Some p)
      obtain neg t2 where p: "p = (neg, t2)" by fastforce
      have "set t2 \<subseteq> set t" using scan_not_suffix Some p scan_suffix(2) [OF \<open>skip_spaces t = Some t1\<close>] by blast
      note a2 = at [OF this]
      show ?thesis
      proof (cases "scan_word ''in'' t2")
        case (Some t3)
        have a3: "CHR ''@'' \<notin> set t3" using scan_suffix(3) [OF Some] a2 by blast
        show ?thesis
        proof (cases "scan_char CHR ''('' (skip_space t3)")
          case (Some t4)
          then have "CHR ''@'' \<notin> set t4" using scan_suffix(1) scan_suffix(4) [OF Some] a3 by blast
          with Some \<open>scan_word ''in'' t2 = Some t3\<close> \<open>scan_not t1 = Some p\<close> \<open>skip_spaces t = Some t1\<close> p a1 a2 a3 assms show ?thesis
            by (simp add: scan_in_def skip_spaces_at scan_not_at scan_word_at skip_space_at scan_char_at)
        qed (use Some \<open>scan_not t1 = Some p\<close> \<open>skip_spaces t = Some t1\<close> p a1 a2 a3 assms in
            \<open>simp add: scan_in_def skip_spaces_at scan_not_at scan_word_at skip_space_at scan_char_at\<close>)
      qed (use Some \<open>skip_spaces t = Some t1\<close> p a1 a2 assms in \<open>simp add: scan_in_def skip_spaces_at scan_not_at scan_word_at\<close>)
    qed (use Some a1 assms in \<open>simp add: scan_in_def skip_spaces_at scan_not_at\<close>)
  qed (use assms in \<open>simp add: scan_in_def skip_spaces_at\<close>)
qed

lemma scan_in_suffix:
  assumes "scan_in t = Some (neg, u)"
  shows "set u \<subseteq> set t"
proof -
  obtain s1 s2 s3 s4 where s: "skip_spaces t = Some s1" "scan_not s1 = Some (neg, s2)" "scan_word ''in'' s2 = Some s3"
      "scan_char CHR ''('' (skip_space s3) = Some s4" "u = skip_space s4"
    using assms by (auto simp: scan_in_def bind_eq_Some_conv)
  have "set u \<subseteq> set s4" "set s4 \<subseteq> set (skip_space s3)" "set (skip_space s3) \<subseteq> set s3" "set s3 \<subseteq> set s2" "set s2 \<subseteq> set s1" "set s1 \<subseteq> set t"
    using scan_suffix(1) [of s4] scan_suffix(4) [OF s(4)] scan_suffix(1) [of s3] scan_suffix(3) [OF s(3)] scan_not_suffix [OF s(2)] scan_suffix(2) [OF s(1)]
    by (simp_all add: s(5))
  then show ?thesis by blast
qed

lemma match_in_at:
  assumes "CHR ''@'' \<notin> set t"
  shows "match_in (t @ CHR ''@'' # r) = (case in_head t of None \<Rightarrow> None | Some neg \<Rightarrow>
    Option.bind (scan_name r) (\<lambda>(n, s). Option.bind (scan_char CHR '')'' (skip_space s)) (\<lambda>r'. Some (neg, n, r'))))"
proof (cases "scan_in t")
  case (Some p)
  obtain neg u where p: "p = (neg, u)" by fastforce
  then have "CHR ''@'' \<notin> set u" using scan_in_suffix Some assms by blast
  with Some p assms show ?thesis by (cases u) (auto simp: match_in_def scan_in_at in_head_def scan_char_def)
qed (use assms in \<open>simp add: match_in_def scan_in_at in_head_def\<close>)

lemma match_in_no_at: "CHR ''@'' \<notin> set t \<Longrightarrow> match_in t = None"
proof (cases "scan_in t")
  case (Some p)
  assume "CHR ''@'' \<notin> set t"
  obtain neg u where p: "p = (neg, u)" by fastforce
  then have "CHR ''@'' \<notin> set u" using scan_in_suffix Some \<open>CHR ''@'' \<notin> set t\<close> by blast
  with Some p show ?thesis by (cases u) (auto simp: match_in_def scan_char_def)
qed (simp add: match_in_def)

lemma match_in_no_space: "s = [] \<or> \<not> rx_space (hd s) \<Longrightarrow> match_in s = None"
  by (auto simp: match_in_def scan_in_def skip_spaces_def)

lemma name_no_space: "name_char c \<Longrightarrow> \<not> rx_space c"
  by (auto simp: rx_space_def name_char_def)

lemma replace_in_skip: "match_in (c # r) = None \<Longrightarrow> replace_in (c # r) = (c # fst (replace_in r), snd (replace_in r))"
  by (subst replace_in.simps) (simp split: prod.splits)

lemma replace_in_plain: "CHR ''@'' \<notin> set e \<Longrightarrow> replace_in e = (e, [])"
proof (induction e)
  case Nil
  then show ?case by (subst replace_in.simps) (simp add: match_in_no_space)
next
  case (Cons c e)
  then show ?case by (simp add: replace_in_skip match_in_no_at)
qed

lemma replace_in_name: "list_all name_char n \<Longrightarrow> replace_in (n @ r) = (n @ fst (replace_in r), snd (replace_in r))"
  by (induction n) (simp_all add: replace_in_skip match_in_no_space name_no_space)

lemma replace_in_Plain:
  assumes "CHR ''@'' \<notin> set t" and "list_all (\<lambda>u. in_head u = None) (suffixes t)" and "list_all name_char n"
  shows "replace_in (t @ CHR ''@'' # n @ r) = (t @ CHR ''@'' # n @ fst (replace_in r), snd (replace_in r))"
  using assms(1,2)
proof (induction t)
  case Nil
  then show ?case by (simp add: replace_in_skip match_in_no_space replace_in_name [OF assms(3)])
next
  case (Cons c t)
  have "match_in ((c # t) @ CHR ''@'' # n @ r) = None" using Cons.prems by (simp add: match_in_at del: append_Cons)
  with Cons show ?case by (simp add: replace_in_skip)
qed

lemma scan_name_found: "name_ok n r \<Longrightarrow> scan_name (n @ r) = Some (n, r)"
  by (cases r; cases n) (auto simp: name_ok_def scan_name_def Let_def list_all_iff takeWhile_append2 dropWhile_append2)

lemma replace_in_InList:
  assumes "CHR ''@'' \<notin> set t" and "CHR ''@'' \<notin> set pre" and "in_head pre = Some neg"
    and "list_all (\<lambda>u. u = [] \<or> in_head (u @ pre) = None) (suffixes t)"
    and "name_ok n post" and "scan_char CHR '')'' (skip_space post) = Some []"
  shows "replace_in (t @ pre @ CHR ''@'' # n @ post @ r)
    = (t @ (if neg then '' not in ?'' else '' in ?'') @ fst (replace_in r), n # snd (replace_in r))"
  using assms(1,4)
proof (induction t)
  case Nil
  have post: "skip_space post = CHR '')'' # []"
    using assms(6) by (cases "skip_space post") (auto simp: scan_char_def split: if_splits)
  then have "skip_space (post @ r) = CHR '')'' # r"
    unfolding skip_space_def by (metis append_Cons append_Nil dropWhile_append dropWhile_eq_Nil_conv list.distinct(1))
  moreover have "post \<noteq> []" using post by (auto simp: skip_space_def)
  with assms(5) have "name_ok n (post @ r)" by (simp add: name_ok_def)
  ultimately have "match_in (pre @ CHR ''@'' # n @ post @ r) = Some (neg, n, r)"
    using assms(2,3) by (simp add: match_in_at scan_name_found scan_char_def)
  then show ?case by (subst replace_in.simps) (simp split: prod.splits)
next
  case (Cons c t)
  have "match_in (((c # t) @ pre) @ CHR ''@'' # n @ post @ r) = None"
    using Cons.prems assms(2) by (subst match_in_at) auto
  with Cons show ?case by (simp add: replace_in_skip)
qed

text \<open>The text between the two replacements.\<close>

fun in_replaced :: "sql_param list \<Rightarrow> string \<Rightarrow> string" where
  "in_replaced [] e = e"
| "in_replaced (Plain t n # ps) e = t @ CHR ''@'' # n @ in_replaced ps e"
| "in_replaced (InList t pre neg n post # ps) e = t @ (if neg then '' not in ?'' else '' in ?'') @ in_replaced ps e"

lemma replace_in_text:
  "params_ok ps e \<Longrightarrow> replace_in (sql_text ps e) = (in_replaced ps e, map param_of (filter is_in ps))"
proof (induction ps e rule: params_ok.induct)
  case (1 e)
  then show ?case by (simp add: replace_in_plain)
next
  case (2 t n ps e)
  then show ?case using replace_in_Plain [of t n "sql_text ps e"] by (simp add: name_ok_def)
next
  case (3 t pre neg n post ps e)
  then show ?case using replace_in_InList [of t pre neg n post "sql_text ps e"] by simp
qed

lemma name_ok_replaced:
  assumes "name_ok n (sql_text ps e)" and "params_ok ps e"
  shows "name_ok n (in_replaced ps e)"
proof -
  have "\<not> name_char CHR '' ''" and "\<not> name_char CHR ''@''" by (simp_all add: name_char_def)
  with assms show ?thesis
    by (cases "(ps, e)" rule: params_ok.cases) (auto simp: name_ok_def hd_append split: if_splits)
qed

lemma replace_named_text: "CHR ''@'' \<notin> set t \<Longrightarrow> replace_named (t @ r) = (t @ fst (replace_named r), snd (replace_named r))"
  by (induction t) (auto split: prod.splits)

lemma replace_named_param:
  "name_ok n r \<Longrightarrow> replace_named (CHR ''@'' # n @ r) = (CHR ''?'' # fst (replace_named r), n # snd (replace_named r))"
  by (simp add: scan_name_found split: prod.splits)

lemma replace_named_replaced:
  "params_ok ps e \<Longrightarrow> replace_named (in_replaced ps e) = (placeholders ps e, map param_of (filter (\<lambda>p. \<not> is_in p) ps))"
proof (induction ps e rule: params_ok.induct)
  case (1 e)
  then show ?case using replace_named_text [of e "[]"] by simp
next
  case (2 t n ps e)
  then have "name_ok n (in_replaced ps e)" using name_ok_replaced by simp
  with 2 show ?case by (simp add: replace_named_text replace_named_param del: replace_named.simps)
next
  case (3 t pre neg n post ps e)
  have "CHR ''@'' \<notin> set '' not in ?''" and "CHR ''@'' \<notin> set '' in ?''" by simp_all
  with 3 show ?case
    using replace_named_text [of "t @ '' not in ?''" "in_replaced ps e"] replace_named_text [of "t @ '' in ?''" "in_replaced ps e"]
    by simp
qed

text \<open>C30: named parameters become placeholders in the order of the text, an IN list a single one. The names come in another
  order: first those of the IN lists, then the others. The values belong to the placeholders only if the statement has its IN
  lists first.\<close>

theorem named_parameters_replaced:
  assumes "params_ok ps e"
  shows "ReplaceNamedParamsWithIn (sql_text ps e)
    = (placeholders ps e, map param_of (filter is_in ps) @ map param_of (filter (\<lambda>p. \<not> is_in p) ps))"
  using replace_in_text [OF assms] replace_named_replaced [OF assms] by (simp add: ReplaceNamedParamsWithIn_def)

theorem named_parameters_replaced_witness:
  "ReplaceNamedParamsWithIn ''select 1 where a = @A and b  NOT in ( @B_2 ) and c = @C''
    = (''select 1 where a = ? and b not in ? and c = ?'', [''B_2'', ''A'', ''C''])"
proof -
  let ?ps = "[Plain ''select 1 where a = '' ''A'', InList '' and b'' ''  NOT in ( '' True ''B_2'' '' )'', Plain '' and c = '' ''C'']"
  have "params_ok ?ps []" by code_simp
  from named_parameters_replaced [OF this] show ?thesis by simp
qed

text \<open>In a statement with a plain parameter before an IN list the two values are exchanged: the first placeholder gets the
  value of the IN list.\<close>

theorem in_list_takes_first_placeholder:
  assumes "params_ok [Plain t a, InList t' pre neg b post] e" and "map_of fs a = Some (True, va)" and "map_of fs b = Some (True, vb)"
    and "ReplaceNamedParamsWithIn (sql_text [Plain t a, InList t' pre neg b post] e) = (sql, names)"
  shows "sql = t @ ''?'' @ t' @ (if neg then '' not in ?'' else '' in ?'') @ e \<and> GetParamsByNames (Some fs) names = Inr (Inr [vb, va])"
proof -
  have "replace_in (sql_text [Plain t a, InList t' pre neg b post] e) = (in_replaced [Plain t a, InList t' pre neg b post] e, [b])"
    using replace_in_text [OF assms(1)] by simp
  moreover have "replace_named (in_replaced [Plain t a, InList t' pre neg b post] e) = (placeholders [Plain t a, InList t' pre neg b post] e, [a])"
    using replace_named_replaced [OF assms(1)] by simp
  ultimately show ?thesis using assms(2-4) by (auto simp: ReplaceNamedParamsWithIn_def GetParamsByNames_def)
qed

theorem in_list_takes_first_placeholder_witness:
  "ReplaceNamedParamsWithIn ''a = @A and b in (@B)'' = (''a = ? and b in ?'', [''B'', ''A''])
    \<and> GetParamsByNames (Some [(''A'', True, IntVal 1), (''B'', True, IntVal 2)]) [''B'', ''A''] = Inr (Inr [IntVal 2, IntVal 1])"
proof -
  let ?ps = "[Plain ''a = '' ''A'', InList '' and b'' '' in ('' False ''B'' '')'']"
  have ok: "params_ok ?ps []" by code_simp
  have r: "ReplaceNamedParamsWithIn (sql_text ?ps []) = (''a = ? and b in ?'', [''B'', ''A''])" by code_simp
  from in_list_takes_first_placeholder [OF ok _ _ r, of "[(''A'', True, IntVal 1), (''B'', True, IntVal 2)]" "IntVal 1" "IntVal 2"] r
  show ?thesis by simp
qed

end
