(* ===== verification/Future.thy ===== *)
theory Future
  imports Prelude
begin

text \<open>
  The futures of \<open>ag/ag_ext/future\<close>: \<open>NewFuture\<close> takes an object from a pool and submits a task to a worker pool (the
  third-party ants, whose \<open>Submit\<close> may refuse), the task writes its result into the object and closes a channel, and
  \<open>Await\<close> waits for the channel, reads the result and puts the object back. Every goroutine works on shared objects, so
  the model has one step for every access of one of them.
\<close>

section \<open>State\<close>

datatype future_error =
    TaskPanic panic
  | TaskErr string
  | SubmitErr string
  | AlreadyConsumed
  | CtxErr

text \<open>An object; channels are numbers. \<open>val\<close> is \<open>None\<close> for the zero value.\<close>

record 'v future =
  fu_val :: "'v option"
  fu_err :: "future_error option"
  fu_ready :: nat
  fu_consumed :: bool

type_synonym 'v fresult = "'v option \<times> future_error option"

datatype task_phase = Submitted | Ran | Finished

text \<open>A call of \<open>NewFuture\<close>: its object, and its task with the result it wrote; \<open>nf_chan\<close> is the channel the call made.\<close>

record 'v new_call =
  nf_obj :: nat
  nf_chan :: nat
  nf_phase :: task_phase
  nf_result :: "'v fresult option"

datatype 'v await_phase =
    Entering
  | Won
  | Waiting nat
  | Reading
  | Putting "'v fresult"
  | Returned "future_error + 'v fresult"

text \<open>A call of \<open>Await\<close> on the object that a call of \<open>NewFuture\<close> returned.\<close>

record 'v await_call =
  aw_future :: nat
  aw_phase :: "'v await_phase"

record 'v fut_state =
  fs_objs :: "'v future list"
  fs_closed :: "bool list"
  fs_pool :: "nat list"
  fs_news :: "'v new_call list"
  fs_awaits :: "'v await_call list"
  fs_crashed :: bool

definition no_futures :: "'v fut_state" where
  "no_futures = \<lparr>fs_objs = [], fs_closed = [], fs_pool = [], fs_news = [], fs_awaits = [], fs_crashed = False\<rparr>"

section \<open>Operations\<close>

definition set_obj :: "nat \<Rightarrow> ('v future \<Rightarrow> 'v future) \<Rightarrow> 'v fut_state \<Rightarrow> 'v fut_state" where
  "set_obj x f s = s\<lparr>fs_objs := (fs_objs s)[x := f (fs_objs s ! x)]\<rparr>"

definition set_new :: "nat \<Rightarrow> ('v new_call \<Rightarrow> 'v new_call) \<Rightarrow> 'v fut_state \<Rightarrow> 'v fut_state" where
  "set_new g f s = s\<lparr>fs_news := (fs_news s)[g := f (fs_news s ! g)]\<rparr>"

definition set_await :: "nat \<Rightarrow> 'v await_phase \<Rightarrow> 'v fut_state \<Rightarrow> 'v fut_state" where
  "set_await k p s = s\<lparr>fs_awaits := (fs_awaits s)[k := (fs_awaits s ! k)\<lparr>aw_phase := p\<rparr>]\<rparr>"

text \<open>\<open>pool.Get\<close> gives any object of the pool or a new one.\<close>

definition fpool_Get :: "nat option \<Rightarrow> 'v fut_state \<Rightarrow> (nat \<times> 'v fut_state) option" where
  "fpool_Get choice s = (case choice of
      None \<Rightarrow> Some (length (fs_objs s), s\<lparr>fs_objs := fs_objs s @ [\<lparr>fu_val = None, fu_err = None, fu_ready = 0, fu_consumed = False\<rparr>]\<rparr>)
    | Some x \<Rightarrow> if x \<in> set (fs_pool s) then Some (x, s\<lparr>fs_pool := remove1 x (fs_pool s)\<rparr>) else None)"

definition close_chan :: "nat \<Rightarrow> 'v fut_state \<Rightarrow> 'v fut_state" where
  "close_chan c s = (if fs_closed s ! c then s\<lparr>fs_crashed := True\<rparr> else s\<lparr>fs_closed := (fs_closed s)[c := True]\<rparr>)"

definition NewFuture :: "nat option \<Rightarrow> string option \<Rightarrow> 'v fut_state \<Rightarrow> 'v fut_state option" where
  "NewFuture choice submitErr s = (case fpool_Get choice s of
      None \<Rightarrow> None
    | Some (x, s) \<Rightarrow>
       (let c = length (fs_closed s);
            s = set_obj x (\<lambda>f. \<lparr>fu_val = None, fu_err = None, fu_ready = c, fu_consumed = False\<rparr>) (s\<lparr>fs_closed := fs_closed s @ [False]\<rparr>)
        in case submitErr of
            None \<Rightarrow> Some (s\<lparr>fs_news := fs_news s @ [\<lparr>nf_obj = x, nf_chan = c, nf_phase = Submitted, nf_result = None\<rparr>]\<rparr>)
          | Some e \<Rightarrow>
             (let s = close_chan c (set_obj x (\<lambda>f. f\<lparr>fu_err := Some (SubmitErr e)\<rparr>) s)
              in Some (s\<lparr>fs_news := fs_news s @ [\<lparr>nf_obj = x, nf_chan = c, nf_phase = Finished, nf_result = Some (None, Some (SubmitErr e))\<rparr>]\<rparr>))))"

text \<open>The submitted function: the task returns or panics, and its result is written into the object; then the channel of
  the object is closed.\<close>

definition write_result :: "'v fresult go \<Rightarrow> 'v future \<Rightarrow> 'v future" where
  "write_result r f = (case r of
      Inl p \<Rightarrow> f\<lparr>fu_err := Some (TaskPanic p)\<rparr>
    | Inr (v, e) \<Rightarrow> f\<lparr>fu_val := v, fu_err := e\<rparr>)"

definition task_run :: "nat \<Rightarrow> 'v fresult go \<Rightarrow> 'v fut_state \<Rightarrow> 'v fut_state option" where
  "task_run g r s = (if length (fs_news s) \<le> g \<or> nf_phase (fs_news s ! g) \<noteq> Submitted then None
     else (let x = nf_obj (fs_news s ! g);
               s = set_obj x (write_result r) s
           in Some (set_new g (\<lambda>n. n\<lparr>nf_phase := Ran, nf_result := Some (fu_val (fs_objs s ! x), fu_err (fs_objs s ! x))\<rparr>) s)))"

definition task_close :: "nat \<Rightarrow> 'v fut_state \<Rightarrow> 'v fut_state option" where
  "task_close g s = (if length (fs_news s) \<le> g \<or> nf_phase (fs_news s ! g) \<noteq> Ran then None
     else Some (set_new g (\<lambda>n. n\<lparr>nf_phase := Finished\<rparr>) (close_chan (fu_ready (fs_objs s ! nf_obj (fs_news s ! g))) s)))"

text \<open>\<open>Await\<close> in its steps: the compare-and-swap, the evaluation of the channel, the two cases of the select, the reads and
  the return of the object to the pool.\<close>

definition aw_obj :: "'v fut_state \<Rightarrow> nat \<Rightarrow> nat" where
  "aw_obj s k = nf_obj (fs_news s ! aw_future (fs_awaits s ! k))"

definition Await :: "nat \<Rightarrow> 'v fut_state \<Rightarrow> 'v fut_state option" where
  "Await g s = (if length (fs_news s) \<le> g then None
     else Some (s\<lparr>fs_awaits := fs_awaits s @ [\<lparr>aw_future = g, aw_phase = Entering\<rparr>]\<rparr>))"

definition await_step :: "nat \<Rightarrow> bool \<Rightarrow> 'v fut_state \<Rightarrow> 'v fut_state option" where
  "await_step k cancelled s = (if length (fs_awaits s) \<le> k then None
     else (let x = aw_obj s k; f = fs_objs s ! x in
       case aw_phase (fs_awaits s ! k) of
         Entering \<Rightarrow>
           if fu_consumed f then Some (set_await k (Returned (Inl AlreadyConsumed)) s)
           else Some (set_await k Won (set_obj x (\<lambda>f. f\<lparr>fu_consumed := True\<rparr>) s))
       | Won \<Rightarrow> Some (set_await k (Waiting (fu_ready f)) s)
       | Waiting c \<Rightarrow>
           if cancelled then Some (set_await k (Returned (Inl CtxErr)) s)
           else if fs_closed s ! c then Some (set_await k Reading s) else None
       | Reading \<Rightarrow> Some (set_await k (Putting (fu_val f, fu_err f)) s)
       | Putting r \<Rightarrow> Some (set_await k (Returned (Inr r)) (s\<lparr>fs_pool := x # fs_pool s\<rparr>))
       | Returned r \<Rightarrow> None))"

datatype 'v fut_action =
    ANew "nat option" "string option"
  | ARun nat "'v fresult go"
  | AFinish nat
  | AAwait nat
  | AStep nat bool

fun fut_act :: "'v fut_action \<Rightarrow> 'v fut_state \<Rightarrow> 'v fut_state option" where
  "fut_act (ANew choice e) s = NewFuture choice e s"
| "fut_act (ARun g r) s = task_run g r s"
| "fut_act (AFinish g) s = task_close g s"
| "fut_act (AAwait g) s = Await g s"
| "fut_act (AStep k cancelled) s = await_step k cancelled s"


fun fut_run :: "'v fut_action list \<Rightarrow> 'v fut_state \<Rightarrow> 'v fut_state option" where
  "fut_run [] s = Some s"
| "fut_run (a # as) s = (case fut_act a s of None \<Rightarrow> None | Some s' \<Rightarrow> fut_run as s')"


section \<open>A stale handle\<close>

text \<open>A future that was awaited goes back to the pool, and the next \<open>NewFuture\<close> may hand out the same object with its
  flag cleared. A second \<open>Await\<close> on the old handle then does not report that the future was consumed: it returns the
  result of the other future, and the owner of that one is told that it was consumed already.\<close>

theorem stale_await_steals_result:
  "\<exists>s. fut_run [ANew None None, ARun 0 (Inr (Some a, None)), AFinish 0,
      AAwait 0, AStep 0 False, AStep 0 False, AStep 0 False, AStep 0 False, AStep 0 False,
      ANew (Some 0) None, ARun 1 (Inr (Some b, None)), AFinish 1,
      AAwait 0, AStep 1 False, AStep 1 False, AStep 1 False, AStep 1 False, AStep 1 False,
      AAwait 1, AStep 2 False] no_futures = Some s
    \<and> map aw_phase (fs_awaits s) = [Returned (Inr (Some a, None)), Returned (Inr (Some b, None)), Returned (Inl AlreadyConsumed)]
    \<and> map aw_future (fs_awaits s) = [0, 0, 1]"
  by (simp add: no_futures_def NewFuture_def fpool_Get_def set_obj_def task_run_def write_result_def set_new_def task_close_def close_chan_def Await_def
      await_step_def set_await_def aw_obj_def Let_def)

section \<open>Handles that are awaited once\<close>

text \<open>A call has given its object back when its \<open>Await\<close> returned a result. Until then the object is its own: it is not in the
  pool, its channel is the one of the call, and what the task wrote is in it.\<close>

definition released :: "'v fut_state \<Rightarrow> nat \<Rightarrow> bool" where
  "released s g \<longleftrightarrow> (\<exists>w \<in> set (fs_awaits s). aw_future w = g \<and> (\<exists>r. aw_phase w = Returned (Inr r)))"

definition entered :: "'v fut_state \<Rightarrow> nat \<Rightarrow> bool" where
  "entered s g \<longleftrightarrow> (\<exists>w \<in> set (fs_awaits s). aw_future w = g \<and> aw_phase w \<noteq> Entering)"

lemma awaits_only [simp]:
  "released (s\<lparr>fs_objs := a\<rparr>) = released s" "entered (s\<lparr>fs_objs := a\<rparr>) = entered s"
  "released (s\<lparr>fs_closed := b\<rparr>) = released s" "entered (s\<lparr>fs_closed := b\<rparr>) = entered s"
  "released (s\<lparr>fs_pool := c\<rparr>) = released s" "entered (s\<lparr>fs_pool := c\<rparr>) = entered s"
  "released (s\<lparr>fs_news := d\<rparr>) = released s" "entered (s\<lparr>fs_news := d\<rparr>) = entered s"
  "released (s\<lparr>fs_crashed := e\<rparr>) = released s" "entered (s\<lparr>fs_crashed := e\<rparr>) = entered s"
  by (simp_all add: released_def entered_def fun_eq_iff)










subsection \<open>A new call\<close>





subsection \<open>The task\<close>





subsection \<open>Await\<close>



lemma set_await_fields [simp]:
  "fs_objs (set_await k p s) = fs_objs s" "fs_closed (set_await k p s) = fs_closed s" "fs_pool (set_await k p s) = fs_pool s"
  "fs_news (set_await k p s) = fs_news s" "fs_crashed (set_await k p s) = fs_crashed s"
  by (simp_all add: set_await_def)










section \<open>Pools by type\<close>

text \<open>\<open>getPool\<close> keeps one pool for every text that \<open>%T\<close> prints for the zero value of the type. The zero value of an interface
  type is nil, for which the text is \<open><nil>\<close>. A pool creates the futures of the type it was made for.\<close>

datatype go_type = ConcreteType string | InterfaceType string

fun fmt_T :: "go_type \<Rightarrow> string" where
  "fmt_T (ConcreteType n) = n"
| "fmt_T (InterfaceType n) = ''<nil>''"

definition getPool :: "go_type \<Rightarrow> (string \<rightharpoonup> go_type) \<Rightarrow> go_type \<times> (string \<rightharpoonup> go_type)" where
  "getPool T pools = (case pools (fmt_T T) of Some P \<Rightarrow> (P, pools) | None \<Rightarrow> (T, pools(fmt_T T \<mapsto> T)))"

definition take_future :: "go_type \<Rightarrow> (string \<rightharpoonup> go_type) \<Rightarrow> unit go \<times> (string \<rightharpoonup> go_type)" where
  "take_future T pools = (case getPool T pools of (P, pools) \<Rightarrow> (if P = T then Inr () else Inl (Panicked ''interface conversion''), pools))"

text \<open>Futures of two interface types share a pool, and the second \<open>NewFuture\<close> panics.\<close>

lemma interface_futures_panic:
  "a \<noteq> b \<Longrightarrow> fst (take_future (InterfaceType b) (snd (take_future (InterfaceType a) Map.empty))) = Inl (Panicked ''interface conversion'')"
  by (simp add: take_future_def getPool_def)

section \<open>Functions as futures\<close>

text \<open>\<open>NewFutureFunc\<close>: what the returned function returns once the channel is closed, as often as it is called. A refused
  submission is its error.\<close>

definition NewFutureFunc :: "string option \<Rightarrow> ('w \<Rightarrow> 'v fresult go \<times> 'w) \<Rightarrow> 'w \<Rightarrow> 'v fresult \<times> 'w" where
  "NewFutureFunc submitErr f w = (case submitErr of
      Some e \<Rightarrow> ((None, Some (SubmitErr e)), w)
    | None \<Rightarrow> (case f w of (Inl p, w') \<Rightarrow> ((None, Some (TaskPanic p)), w') | (Inr r, w') \<Rightarrow> (r, w')))"

text \<open>\<open>FutureCall\<close>: the deferred function recovers a panic of the callback as well, and calls it again.\<close>

definition FutureCall ::
  "string option \<Rightarrow> ('w \<Rightarrow> 'v fresult go \<times> 'w) \<Rightarrow> ('v fresult \<Rightarrow> 'w \<Rightarrow> unit go \<times> 'w) \<Rightarrow> 'w \<Rightarrow> unit go \<times> 'w" where
  "FutureCall submitErr f callback w = (case submitErr of
      Some e \<Rightarrow> callback (None, Some (SubmitErr e)) w
    | None \<Rightarrow> (case f w of
          (Inl p, w1) \<Rightarrow> callback (None, Some (TaskPanic p)) w1
        | (Inr r, w1) \<Rightarrow> (case callback r w1 of
              (Inl p, w2) \<Rightarrow> callback (None, Some (TaskPanic p)) w2
            | (Inr u, w2) \<Rightarrow> (Inr u, w2))))"

text \<open>The callback runs exactly once, unless it panics on a result: then it runs a second time with the panic as its error.\<close>

lemma FutureCall_callbacks:
  assumes "\<And>r ls. callback r ls = (if snd r = None then c else Inr (), ls @ [r])"
  shows "FutureCall None (\<lambda>ls. (Inr (Some v, None), ls)) callback [] =
    (case c of Inl p \<Rightarrow> (Inr (), [(Some v, None), (None, Some (TaskPanic p))]) | Inr u \<Rightarrow> (Inr (), [(Some v, None)]))"
  by (cases c) (simp_all add: FutureCall_def assms)

end
