(* ===== verification/Flatten.thy ===== *)
theory Flatten
  imports Strconv
begin

text \<open>
  The flattening of configuration trees, \<open>GetFlattenedMap\<close> of \<open>ag/ag_ext/util.go\<close>: nested maps and lists, as the readers of
  configuration files give them, become a map from paths such as \<open>a.b[0].c\<close> to texts.
\<close>

section \<open>The code\<close>

text \<open>A value of type any: a string, a map, a list, nil, or something else with the text that \<open>%v\<close> prints. A map is the list
  of its entries in the order of this iteration; keys that are no strings are given by their texts, as the code makes them.\<close>

datatype cnode =
    CStr string
  | CMap "(string \<times> cnode) list"
  | CList "cnode list"
  | CNil
  | COther string

datatype flat_error =
    NilMap
  | DepthExceeded
  | UnsupportedType
  | EmptyKey
  | FailedKey string flat_error
  | FailedItem nat string flat_error

type_synonym flat_result = "(string \<rightharpoonup> string) \<times> flat_error option"

definition newKey :: "string \<Rightarrow> string \<Rightarrow> string" where
  "newKey path key = (if path \<noteq> [] then (if key \<noteq> [] \<and> hd key = CHR ''['' then path @ key else path @ ''.'' @ key) else key)"

definition indexKey :: "nat \<Rightarrow> string" where
  "indexKey i = ''['' @ show_nat i @ '']''"

definition dots :: "string \<Rightarrow> nat" where
  "dots path = length (filter (\<lambda>c. c = CHR ''.'') path)"

text \<open>The loop over the entries of a map, the switch over the type of a value, and the loop over the items of a list, whose
  items are wrapped into maps with one entry.\<close>

fun flat_entries :: "nat \<Rightarrow> string \<Rightarrow> (string \<times> cnode) list \<Rightarrow> (string \<rightharpoonup> string) \<Rightarrow> flat_result"
  and flat_value :: "nat \<Rightarrow> string \<Rightarrow> cnode \<Rightarrow> (string \<rightharpoonup> string) \<Rightarrow> flat_result"
  and flat_items :: "nat \<Rightarrow> string \<Rightarrow> nat \<Rightarrow> cnode list \<Rightarrow> (string \<rightharpoonup> string) \<Rightarrow> flat_result" where
  "flat_entries d path [] m = (m, None)"
| "flat_entries d path ((key, v) # kvs) m =
     (if key = [] then (m, Some EmptyKey)
      else (case flat_value d (newKey path key) v m of
          (m', Some e) \<Rightarrow> (m', Some e)
        | (m', None) \<Rightarrow> flat_entries d path kvs m'))"
| "flat_value d k (CStr s) m = (m(k \<mapsto> s), None)"
| "flat_value d k (CMap kvs) m =
     (if dots k > d then (m, Some (FailedKey k DepthExceeded))
      else (case flat_entries d k kvs m of (m', e) \<Rightarrow> (m', map_option (FailedKey k) e)))"
| "flat_value d k (CList vs) m = flat_items d k 0 vs m"
| "flat_value d k CNil m = (m(k \<mapsto> []), None)"
| "flat_value d k (COther t) m = (m(k \<mapsto> t), None)"
| "flat_items d k i [] m = (m, None)"
| "flat_items d k i (v # vs) m =
     (if dots k > d then (m, Some (FailedItem i k DepthExceeded))
      else (case flat_value d (newKey k (indexKey i)) v m of
          (m', Some e) \<Rightarrow> (m', Some (FailedItem i k e))
        | (m', None) \<Rightarrow> flat_items d k (Suc i) vs m'))"

definition buildFlattenedMap :: "(string \<rightharpoonup> string) \<Rightarrow> cnode \<Rightarrow> string \<Rightarrow> nat \<Rightarrow> flat_result" where
  "buildFlattenedMap m source path d =
     (if source = CNil then (m, Some NilMap)
      else if dots path > d then (m, Some DepthExceeded)
      else (case source of CMap kvs \<Rightarrow> flat_entries d path kvs m | _ \<Rightarrow> (m, Some UnsupportedType)))"

text \<open>\<open>envDepth\<close> is the value of the environment variable, empty if it is not set.\<close>

definition max_depth :: "string \<Rightarrow> nat" where
  "max_depth envDepth = (if envDepth \<noteq> [] then (case Atoi envDepth of (None, n) \<Rightarrow> if n > 0 then nat n else 100 | _ \<Rightarrow> 100) else 100)"

definition GetFlattenedMap :: "string \<Rightarrow> cnode \<Rightarrow> flat_result" where
  "GetFlattenedMap envDepth source = buildFlattenedMap Map.empty source [] (max_depth envDepth)"

section \<open>Paths into a tree\<close>

text \<open>A path is a list of keys and indices; \<open>leaf_at\<close> is the text of the leaf it leads to.\<close>

datatype seg = SKey string | SIdx nat

function (sequential) leaf_at :: "cnode \<Rightarrow> seg list \<Rightarrow> string option" where
  "leaf_at (CStr s) [] = Some s"
| "leaf_at CNil [] = Some []"
| "leaf_at (COther t) [] = Some t"
| "leaf_at (CMap kvs) (SKey k # ps) = (case map_of kvs k of None \<Rightarrow> None | Some v \<Rightarrow> leaf_at v ps)"
| "leaf_at (CList vs) (SIdx i # ps) = (if i < length vs then leaf_at (vs ! i) ps else None)"
| "leaf_at v ps = None"
  by pat_completeness auto
termination
  by (relation "measure (\<lambda>(v, ps). length ps)") auto

fun path_step :: "string \<Rightarrow> seg \<Rightarrow> string" where
  "path_step p (SKey k) = newKey p k"
| "path_step p (SIdx i) = newKey p (indexKey i)"

definition path_text :: "seg list \<Rightarrow> string" where
  "path_text ps = foldl path_step [] ps"

text \<open>In a clean tree the keys of a map are distinct, not empty and without the characters that separate paths.\<close>

definition clean_key :: "string \<Rightarrow> bool" where
  "clean_key k \<longleftrightarrow> k \<noteq> [] \<and> CHR ''.'' \<notin> set k \<and> CHR ''['' \<notin> set k"

fun clean :: "cnode \<Rightarrow> bool" where
  "clean (CMap kvs) = (distinct (map fst kvs) \<and> list_all (\<lambda>kv. clean_key (fst kv) \<and> clean (snd kv)) kvs)"
| "clean (CList vs) = list_all clean vs"
| "clean v = True"

text \<open>\<open>fits d n v\<close>: no map or list below \<open>v\<close>, which stands below \<open>n\<close> nested maps, is deeper than \<open>d\<close>.\<close>

fun fits :: "nat \<Rightarrow> nat \<Rightarrow> cnode \<Rightarrow> bool" where
  "fits d n (CMap kvs) = (n \<le> d \<and> list_all (\<lambda>kv. fits d (Suc n) (snd kv)) kvs)"
| "fits d n (CList vs) = ((vs = [] \<or> n \<le> d) \<and> list_all (fits d n) vs)"
| "fits d n v = True"

subsection \<open>The leaves the code visits\<close>

fun leaves :: "string \<Rightarrow> cnode \<Rightarrow> (string \<times> string) list"
  and entry_leaves :: "string \<Rightarrow> (string \<times> cnode) list \<Rightarrow> (string \<times> string) list"
  and item_leaves :: "string \<Rightarrow> nat \<Rightarrow> cnode list \<Rightarrow> (string \<times> string) list" where
  "leaves p (CStr s) = [(p, s)]"
| "leaves p CNil = [(p, [])]"
| "leaves p (COther t) = [(p, t)]"
| "leaves p (CMap kvs) = entry_leaves p kvs"
| "leaves p (CList vs) = item_leaves p 0 vs"
| "entry_leaves p [] = []"
| "entry_leaves p ((k, v) # kvs) = leaves (newKey p k) v @ entry_leaves p kvs"
| "item_leaves p i [] = []"
| "item_leaves p i (v # vs) = leaves (newKey p (indexKey i)) v @ item_leaves p (Suc i) vs"

lemma dots_simps [simp]: "dots [] = 0" "dots (xs @ ys) = dots xs + dots ys"
  by (simp_all add: dots_def)

lemma dots_clean: "clean_key k \<Longrightarrow> dots k = 0"
  by (simp add: dots_def clean_key_def filter_empty_conv) metis

lemma dots_show_nat [simp]: "dots (show_nat n) = 0"
  using show_nat_dec [of n] dec_not_special by (fastforce simp: dots_def filter_empty_conv)

lemma dots_newKey: "p \<noteq> [] \<Longrightarrow> clean_key k \<Longrightarrow> dots (newKey p k) = Suc (dots p)"
  using dots_clean [of k] by (cases k) (auto simp: newKey_def clean_key_def dots_def)

lemma dots_index: "p \<noteq> [] \<Longrightarrow> dots (newKey p (indexKey i)) = dots p"
proof -
  assume "p \<noteq> []"
  then have "dots (newKey p (indexKey i)) = dots p + dots (indexKey i)" by (simp add: newKey_def indexKey_def)
  also have "dots (indexKey i) = dots ''['' + dots (show_nat i) + dots '']''" by (simp only: indexKey_def dots_simps)
  also have "\<dots> = 0" by simp (simp add: dots_def)
  finally show ?thesis by simp
qed

lemma newKey_not_Nil [simp]: "k \<noteq> [] \<Longrightarrow> newKey p k \<noteq> []"
  by (simp add: newKey_def)

lemma indexKey_not_Nil [simp]: "indexKey i \<noteq> []"
  by (simp add: indexKey_def)

text \<open>The code visits every leaf and stores its text, if the tree is not too deep.\<close>

lemma flat_visits:
  "p = [] \<and> n = 0 \<or> p \<noteq> [] \<and> n = Suc (dots p) \<Longrightarrow> list_all (\<lambda>kv. clean_key (fst kv) \<and> clean (snd kv)) kvs \<Longrightarrow> list_all (\<lambda>kv. fits d n (snd kv)) kvs \<Longrightarrow>
    flat_entries d p kvs m = (m ++ map_of (rev (entry_leaves p kvs)), None)"
  "p \<noteq> [] \<Longrightarrow> clean v \<Longrightarrow> fits d (dots p) v \<Longrightarrow> flat_value d p v m = (m ++ map_of (rev (leaves p v)), None)"
  "p \<noteq> [] \<Longrightarrow> list_all clean vs \<Longrightarrow> vs = [] \<or> dots p \<le> d \<Longrightarrow> list_all (fits d (dots p)) vs \<Longrightarrow>
    flat_items d p i vs m = (m ++ map_of (rev (item_leaves p i vs)), None)"
proof (induction d p kvs m and d p v m and d p i vs m arbitrary: n and and rule: flat_entries_flat_value_flat_items.induct)
  case (2 d p k v kvs m)
  have "dots (newKey p k) = n" using 2(3,4) dots_newKey [of p k] dots_clean [of k] by (auto simp: newKey_def)
  with 2 show ?case by (auto simp: clean_key_def)
next
  case (9 d p i v vs m)
  then show ?case by (auto simp: dots_index)
qed auto

text \<open>What it visits are the leaves of the tree, under the texts of their paths.\<close>

lemma set_entry_leaves: "set (entry_leaves p kvs) = (\<Union>(k, v) \<in> set kvs. set (leaves (newKey p k) v))"
  by (induction kvs) auto

lemma set_item_leaves: "set (item_leaves p i vs) = (\<Union>j < length vs. set (leaves (newKey p (indexKey (i + j))) (vs ! j)))"
proof (induction vs arbitrary: i)
  case (Cons v vs)
  have "{..<length (v # vs)} = insert 0 (Suc ` {..<length vs})" by (auto simp: lessThan_Suc_eq_insert_0)
  with Cons show ?case by simp
qed simp

lemma leaf_at_plain:
  "leaf_at (CStr s) ps = Some t \<longleftrightarrow> ps = [] \<and> t = s"
  "leaf_at CNil ps = Some t \<longleftrightarrow> ps = [] \<and> t = []"
  "leaf_at (COther u) ps = Some t \<longleftrightarrow> ps = [] \<and> t = u"
  by (cases ps; auto)+

lemma set_leaves: "clean v \<Longrightarrow> set (leaves p v) = {(foldl path_step p ps, t) | ps t. leaf_at v ps = Some t}"
proof (induction v arbitrary: p)
  case (CStr s)
  show ?case by (auto simp: leaf_at_plain)
next
  case (CMap kvs)
  show ?case
  proof (intro set_eqI iffI)
    fix x assume "x \<in> set (leaves p (CMap kvs))"
    then obtain k v where kv: "(k, v) \<in> set kvs" "x \<in> set (leaves (newKey p k) v)" by (auto simp: set_entry_leaves)
    moreover have "clean v" using kv(1) CMap.prems by (auto simp: list_all_iff)
    ultimately obtain ps t where "x = (foldl path_step (newKey p k) ps, t)" "leaf_at v ps = Some t"
      using CMap.IH [OF kv(1), of v "newKey p k"] by auto
    moreover have "map_of kvs k = Some v" using kv(1) CMap.prems by simp
    ultimately show "x \<in> {(foldl path_step p ps, t) | ps t. leaf_at (CMap kvs) ps = Some t}"
      by (auto intro!: exI [of _ "SKey k # ps"])
  next
    fix x assume "x \<in> {(foldl path_step p ps, t) | ps t. leaf_at (CMap kvs) ps = Some t}"
    then obtain ps t where x: "x = (foldl path_step p ps, t)" "leaf_at (CMap kvs) ps = Some t" by blast
    then obtain k v qs where k: "ps = SKey k # qs" "map_of kvs k = Some v" "leaf_at v qs = Some t"
      by (auto elim: leaf_at.elims split: option.splits)
    then have kv: "(k, v) \<in> set kvs" by (simp add: map_of_SomeD)
    with CMap.IH [OF kv, of v "newKey p k"] CMap.prems x k show "x \<in> set (leaves p (CMap kvs))"
      by (force simp: set_entry_leaves list_all_iff)
  qed
next
  case (CList vs)
  have IH: "set (leaves q (vs ! j)) = {(foldl path_step q ps, t) | ps t. leaf_at (vs ! j) ps = Some t}" if "j < length vs" for j q
    using CList.IH [of "vs ! j" q] CList.prems that by (auto simp: list_all_iff)
  show ?case
  proof (intro set_eqI iffI)
    fix x assume "x \<in> set (leaves p (CList vs))"
    then obtain j where j: "j < length vs" "x \<in> set (leaves (newKey p (indexKey j)) (vs ! j))" by (auto simp: set_item_leaves)
    with IH obtain ps t where "x = (foldl path_step (newKey p (indexKey j)) ps, t)" "leaf_at (vs ! j) ps = Some t" by auto
    with j(1) show "x \<in> {(foldl path_step p ps, t) | ps t. leaf_at (CList vs) ps = Some t}"
      by (auto intro!: exI [of _ "SIdx j # ps"])
  next
    fix x assume "x \<in> {(foldl path_step p ps, t) | ps t. leaf_at (CList vs) ps = Some t}"
    then obtain ps t where x: "x = (foldl path_step p ps, t)" "leaf_at (CList vs) ps = Some t" by blast
    then obtain j qs where "ps = SIdx j # qs" "j < length vs" "leaf_at (vs ! j) qs = Some t"
      by (auto elim: leaf_at.elims split: if_splits)
    with x IH show "x \<in> set (leaves p (CList vs))" by (auto simp: set_item_leaves)
  qed
next
  case CNil
  show ?case by (auto simp: leaf_at_plain)
next
  case (COther t)
  show ?case by (auto simp: leaf_at_plain)
qed

subsection \<open>Paths and their texts\<close>

text \<open>Each step adds a text that begins with a separator and has no other one.\<close>

fun seg_text :: "seg \<Rightarrow> string" where
  "seg_text (SKey k) = CHR ''.'' # k"
| "seg_text (SIdx i) = indexKey i"

fun clean_seg :: "seg \<Rightarrow> bool" where
  "clean_seg (SKey k) = clean_key k"
| "clean_seg (SIdx i) = True"

definition separator :: "char \<Rightarrow> bool" where
  "separator c \<longleftrightarrow> c = CHR ''.'' \<or> c = CHR ''[''"

lemma path_step_text: "p \<noteq> [] \<Longrightarrow> clean_seg q \<Longrightarrow> path_step p q = p @ seg_text q"
  by (cases q) (auto simp: newKey_def clean_key_def indexKey_def neq_Nil_conv)

lemma path_text_append: "p \<noteq> [] \<Longrightarrow> list_all clean_seg ps \<Longrightarrow> foldl path_step p ps = p @ concat (map seg_text ps)"
  by (induction ps arbitrary: p) (simp_all add: path_step_text)

lemma seg_text_shape: "clean_seg q \<Longrightarrow> \<exists>c body. seg_text q = c # body \<and> separator c \<and> list_all (\<lambda>c. \<not> separator c) body"
proof (cases q)
  case (SIdx i)
  have "\<not> separator c" if "c \<in> set (show_nat i)" for c using show_nat_dec that dec_not_special by (fastforce simp: separator_def)
  with SIdx show ?thesis by (simp add: indexKey_def separator_def list_all_iff)
qed (auto simp: separator_def clean_key_def list_all_iff)

lemma seg_text_inj: "clean_seg q \<Longrightarrow> clean_seg r \<Longrightarrow> seg_text q = seg_text r \<Longrightarrow> q = r"
  by (cases q; cases r) (auto simp: indexKey_def dest: show_nat_inj)

lemma takeWhile_separators:
  assumes "list_all (\<lambda>c. \<not> separator c) body" and "list_all clean_seg ps"
  shows "takeWhile (\<lambda>c. \<not> separator c) (body @ concat (map seg_text ps)) = body"
proof -
  obtain r where r: "concat (map seg_text ps) = r" by simp
  have "r = [] \<or> separator (hd r)" using assms(2) r by (cases ps) (auto dest!: seg_text_shape)
  then show ?thesis unfolding r using assms(1) by (cases r) (auto simp: list_all_iff takeWhile_append2)
qed

lemma seg_texts_inj:
  "list_all clean_seg ps \<Longrightarrow> list_all clean_seg qs \<Longrightarrow> concat (map seg_text ps) = concat (map seg_text qs) \<Longrightarrow> ps = qs"
proof (induction ps arbitrary: qs)
  case Nil
  then show ?case by (cases qs) (auto dest!: seg_text_shape)
next
  case (Cons p ps)
  obtain c body where p: "seg_text p = c # body" "list_all (\<lambda>c. \<not> separator c) body" using Cons.prems(1) seg_text_shape [of p] by auto
  with Cons.prems(3) obtain q qs' where qs: "qs = q # qs'" by (cases qs) auto
  obtain d body' where q: "seg_text q = d # body'" "list_all (\<lambda>c. \<not> separator c) body'" using Cons.prems(2) seg_text_shape [of q] by (auto simp: qs)
  have eq: "c = d" "body @ concat (map seg_text ps) = body' @ concat (map seg_text qs')" using Cons.prems(3) by (simp_all add: p q qs)
  then have "body = body'"
    using takeWhile_separators [OF p(2), of ps] takeWhile_separators [OF q(2), of qs'] Cons.prems(1,2) by (simp add: qs)
  with eq p q have "seg_text p = seg_text q" "concat (map seg_text ps) = concat (map seg_text qs')" by simp_all
  with Cons.IH [of qs'] Cons.prems seg_text_inj [of p q] show ?case by (simp add: qs)
qed

lemma leaf_segs_clean: "clean v \<Longrightarrow> leaf_at v ps = Some t \<Longrightarrow> list_all clean_seg ps"
proof (induction v ps rule: leaf_at.induct)
  case (4 kvs k ps)
  then obtain v where v: "map_of kvs k = Some v" "leaf_at v ps = Some t" by (auto split: option.splits)
  then have "clean_key k" "clean v" using 4(2) map_of_SomeD [OF v(1)] by (auto simp: list_all_iff)
  with 4(1) [OF v(1)] v show ?case by simp
next
  case (5 vs i ps)
  then show ?case by (auto simp: list_all_iff split: if_splits)
qed auto

lemma path_text_inj:
  assumes "clean (CMap kvs)" and "leaf_at (CMap kvs) ps = Some t" and "leaf_at (CMap kvs) qs = Some u" and "path_text ps = path_text qs"
  shows "ps = qs"
proof -
  obtain k ps' where p: "ps = SKey k # ps'" using assms(2) by (auto elim: leaf_at.elims)
  obtain l qs' where q: "qs = SKey l # qs'" using assms(3) by (auto elim: leaf_at.elims)
  have c: "clean_key k" "list_all clean_seg ps'" "clean_key l" "list_all clean_seg qs'"
    using leaf_segs_clean [OF assms(1,2)] leaf_segs_clean [OF assms(1,3)] by (simp_all add: p q)
  then have ne: "k \<noteq> []" "l \<noteq> []" and ns: "list_all (\<lambda>c. \<not> separator c) k" "list_all (\<lambda>c. \<not> separator c) l"
    by (auto simp: clean_key_def separator_def list_all_iff)
  have eq: "k @ concat (map seg_text ps') = l @ concat (map seg_text qs')"
    using assms(4) c ne by (simp add: path_text_def p q newKey_def path_text_append)
  then have "k = l" using takeWhile_separators [OF ns(1) c(2)] takeWhile_separators [OF ns(2) c(4)] by simp
  with eq seg_texts_inj [OF c(2,4)] show ?thesis by (simp add: p q)
qed

section \<open>Flattening is reading leaves\<close>

text \<open>C32: a clean tree that is not too deep is flattened without an error, and the flat map has exactly the leaves of the tree:
  the text of a leaf under the text of its path, and nothing else, whatever the order in which Go iterates over the maps.\<close>

theorem flatten_has_the_leaves:
  assumes "clean (CMap kvs)" and "list_all (\<lambda>kv. fits (max_depth env) 0 (snd kv)) kvs"
  shows "\<exists>m. GetFlattenedMap env (CMap kvs) = (m, None)
    \<and> (\<forall>ps t. leaf_at (CMap kvs) ps = Some t \<longrightarrow> m (path_text ps) = Some t)
    \<and> (\<forall>k t. m k = Some t \<longrightarrow> (\<exists>ps. k = path_text ps \<and> leaf_at (CMap kvs) ps = Some t))"
proof -
  let ?l = "entry_leaves [] kvs"
  have "GetFlattenedMap env (CMap kvs) = (map_of (rev ?l), None)"
    using flat_visits(1) [of "[]" 0 kvs "max_depth env" Map.empty] assms by (simp add: GetFlattenedMap_def buildFlattenedMap_def)
  moreover have set_l: "set (rev ?l) = {(path_text ps, t) | ps t. leaf_at (CMap kvs) ps = Some t}"
    using set_leaves [OF assms(1), of "[]"] by (simp add: path_text_def)
  moreover have "map_of (rev ?l) (path_text ps) = Some t" if "leaf_at (CMap kvs) ps = Some t" for ps t
  proof -
    have "(path_text ps, t) \<in> set (rev ?l)" using that unfolding set_l by blast
    then obtain u where u: "map_of (rev ?l) (path_text ps) = Some u" by (metis fst_conv image_eqI map_of_eq_None_iff option.exhaust)
    then have "(path_text ps, u) \<in> set (rev ?l)" by (rule map_of_SomeD)
    then obtain qs where "path_text ps = path_text qs" "leaf_at (CMap kvs) qs = Some u" unfolding set_l by blast
    with path_text_inj [OF assms(1) that] that u show ?thesis by simp
  qed
  ultimately show ?thesis using map_of_SomeD [of "rev ?l"] by blast
qed

definition demo_tree :: "(string \<times> cnode) list" where
  "demo_tree = [(''server'', CMap [(''name'', CStr ''x''), (''ports'', CList [COther ''80'', COther ''443''])]), (''debug'', CNil)]"

theorem flatten_has_the_leaves_witness:
  "\<exists>m. GetFlattenedMap [] (CMap demo_tree) = (m, None) \<and> m ''server.ports[1]'' = Some ''443'' \<and> m ''debug'' = Some [] \<and> m ''server'' = None"
proof -
  have "clean (CMap demo_tree)" and f: "list_all (\<lambda>kv. fits (max_depth []) 0 (snd kv)) demo_tree"
    by (simp_all add: demo_tree_def clean_key_def max_depth_def)
  from flatten_has_the_leaves [OF this] obtain m where m: "GetFlattenedMap [] (CMap demo_tree) = (m, None)"
    and l: "\<And>ps t. leaf_at (CMap demo_tree) ps = Some t \<Longrightarrow> m (path_text ps) = Some t"
    by blast
  have "path_text [SKey ''server'', SKey ''ports'', SIdx 1] = ''server.ports[1]''" by code_simp
  then have "m ''server.ports[1]'' = Some ''443''" using l [of "[SKey ''server'', SKey ''ports'', SIdx 1]" "''443''"] by (simp add: demo_tree_def)
  moreover have "m ''debug'' = Some []" using l [of "[SKey ''debug'']" "[]"] by (simp add: demo_tree_def path_text_def newKey_def)
  moreover have "fst (GetFlattenedMap [] (CMap demo_tree)) ''server'' = None" by code_simp
  ultimately show ?thesis using m by simp
qed

text \<open>A key that contains a separator can meet the path of another leaf; which of the two texts is kept depends on the order of
  the iteration.\<close>

lemma flatten_depends_on_iteration:
  "fst (GetFlattenedMap [] (CMap [(''a.b'', CStr ''x''), (''a'', CMap [(''b'', CStr ''y'')])])) ''a.b'' = Some ''y''"
  "fst (GetFlattenedMap [] (CMap [(''a'', CMap [(''b'', CStr ''y'')]), (''a.b'', CStr ''x'')])) ''a.b'' = Some ''x''"
  by (simp_all add: GetFlattenedMap_def buildFlattenedMap_def max_depth_def newKey_def dots_def)

end
