(* ===== verification/IpRange.thy ===== *)
theory IpRange
  imports Strconv
begin

text \<open>
  The ranges of addresses of \<open>ag/ag_ext/ip/ip_range.go\<close>, with which a server picks the network interface it registers, and the
  search for a free port of \<open>ip.go\<close>. The network itself is a parameter.
\<close>

section \<open>Regular expressions\<close>

text \<open>The regular expressions the code uses, with matching by derivatives; \<open>MatchString\<close> of an anchored expression asks
  whether the whole text is in its language.\<close>

datatype rx = RNone | REps | RSet string | RSeq rx rx | RAlt rx rx | RStar rx

fun nullable :: "rx \<Rightarrow> bool" where
  "nullable RNone = False"
| "nullable REps = True"
| "nullable (RSet cs) = False"
| "nullable (RSeq r s) = (nullable r \<and> nullable s)"
| "nullable (RAlt r s) = (nullable r \<or> nullable s)"
| "nullable (RStar r) = True"

fun deriv :: "char \<Rightarrow> rx \<Rightarrow> rx" where
  "deriv c RNone = RNone"
| "deriv c REps = RNone"
| "deriv c (RSet cs) = (if c \<in> set cs then REps else RNone)"
| "deriv c (RSeq r s) = (if nullable r then RAlt (RSeq (deriv c r) s) (deriv c s) else RSeq (deriv c r) s)"
| "deriv c (RAlt r s) = RAlt (deriv c r) (deriv c s)"
| "deriv c (RStar r) = RSeq (deriv c r) (RStar r)"

definition rx_match :: "rx \<Rightarrow> string \<Rightarrow> bool" where
  "rx_match r s = nullable (fold deriv s r)"

inductive_set star :: "string set \<Rightarrow> string set" for A where
  star_Nil: "[] \<in> star A"
| star_append: "u \<in> A \<Longrightarrow> v \<in> star A \<Longrightarrow> u @ v \<in> star A"

fun lang :: "rx \<Rightarrow> string set" where
  "lang RNone = {}"
| "lang REps = {[]}"
| "lang (RSet cs) = {[c] | c. c \<in> set cs}"
| "lang (RSeq r s) = {u @ v | u v. u \<in> lang r \<and> v \<in> lang s}"
| "lang (RAlt r s) = lang r \<union> lang s"
| "lang (RStar r) = star (lang r)"

lemma nullable_lang: "nullable r \<longleftrightarrow> [] \<in> lang r"
  by (induction r) (auto intro: star_Nil)

lemma star_Cons: "c # w \<in> star A \<longleftrightarrow> (\<exists>u v. w = u @ v \<and> c # u \<in> A \<and> v \<in> star A)"
proof
  assume "c # w \<in> star A"
  then show "\<exists>u v. w = u @ v \<and> c # u \<in> A \<and> v \<in> star A"
    by (induction "c # w" arbitrary: w rule: star.induct) (auto simp: append_eq_Cons_conv)
qed (auto dest: star_append)

lemma deriv_lang: "w \<in> lang (deriv c r) \<longleftrightarrow> c # w \<in> lang r"
proof (induction r arbitrary: w)
  case (RSeq r s)
  show ?case by (auto simp: RSeq nullable_lang Cons_eq_append_conv)
next
  case (RStar r)
  then show ?case by (auto simp: star_Cons)
qed auto

lemma rx_match_lang: "rx_match r s \<longleftrightarrow> s \<in> lang r"
  unfolding rx_match_def by (induction s arbitrary: r) (simp_all add: nullable_lang deriv_lang)

definition ropt :: "rx \<Rightarrow> rx" where
  "ropt r = RAlt REps r"

text \<open>\<open>r{0,3}\<close>.\<close>

definition upto3 :: "rx \<Rightarrow> rx" where
  "upto3 r = ropt (RSeq r (ropt (RSeq r (ropt r))))"

definition digit :: rx where
  "digit = RSet ''0123456789''"

definition rx_octet :: rx where
  "rx_octet = RAlt (RSeq (RSet ''2'') (RSeq (RSet ''01234'') digit))
     (RAlt (RSeq (RSet ''2'') (RSeq (RSet ''5'') (RSet ''012345'')))
       (RSeq (ropt (RSet ''01'')) (RSeq digit (ropt digit))))"

definition rx_address :: rx where
  "rx_address = RSeq rx_octet (upto3 (RSeq (RSet ''.'') rx_octet))"

definition rx_range :: rx where
  "rx_range = RSeq rx_address (ropt (RSeq (RSet '':'') rx_address))"

text \<open>The expression as it is written: behind a comma up to three ranges may follow one another without a comma.\<close>

definition ipRangeRegex :: rx where
  "ipRangeRegex = RSeq rx_range (RStar (RSeq (RSet '','') (upto3 rx_range)))"

section \<open>Ranges\<close>

fun split_on :: "char \<Rightarrow> string \<Rightarrow> string list" where
  "split_on c [] = [[]]"
| "split_on c (x # xs) = (if x = c then [] # split_on c xs else (case split_on c xs of [] \<Rightarrow> [[x]] | p # ps \<Rightarrow> (x # p) # ps))"

record IPRange =
  ipr_Start :: int
  ipr_End :: int

text \<open>The loops of \<open>parse\<close>: the segments of the address replace the given ones, then the number in base 256.\<close>

fun fill_segments :: "int list \<Rightarrow> nat \<Rightarrow> string list \<Rightarrow> int list go" where
  "fill_segments segments i [] = Inr segments"
| "fill_segments segments i (s # ss) = go_bind (go_set_index segments i (snd (Atoi s))) (\<lambda>segs. fill_segments segs (Suc i) ss)"

definition parse_address :: "int list \<Rightarrow> string \<Rightarrow> int go" where
  "parse_address segments ip = go_bind (fill_segments segments 0 (split_on CHR ''.'' ip))
     (\<lambda>segs. Inr (foldl (\<lambda>ret v. go_int (go_int (ret * 256) + v)) 0 segs))"

definition parseStart :: "string \<Rightarrow> int go" where
  "parseStart ip = parse_address [0, 0, 0, 0] ip"

definition parseEnd :: "string \<Rightarrow> int go" where
  "parseEnd ip = parse_address [255, 255, 255, 255] ip"

definition NewIPRange :: "string \<Rightarrow> string \<Rightarrow> IPRange go" where
  "NewIPRange startIP endIP = go_bind (parseStart startIP) (\<lambda>s. go_bind (parseEnd endIP) (\<lambda>e. Inr \<lparr>ipr_Start = s, ipr_End = e\<rparr>))"

definition ipr_IsEnabled :: "IPRange \<Rightarrow> string \<Rightarrow> bool" where
  "ipr_IsEnabled r ip = (let ipInt = foldl (\<lambda>n s. go_int (go_int (n * 256) + snd (Atoi s))) 0 (split_on CHR ''.'' ip)
     in ipr_Start r \<le> ipInt \<and> ipInt \<le> ipr_End r)"

fun ranges_loop :: "string list \<Rightarrow> IPRange list \<Rightarrow> IPRange list go" where
  "ranges_loop [] iprs = Inr iprs"
| "ranges_loop (s # ss) iprs =
     (if s = [] then ranges_loop ss iprs
      else if CHR '':'' \<in> set s
      then (let rs = split_on CHR '':'' s in
        go_bind (go_index rs 0) (\<lambda>a. go_bind (go_index rs 1) (\<lambda>b. go_bind (NewIPRange a b) (\<lambda>r. ranges_loop ss (iprs @ [r])))))
      else go_bind (NewIPRange s s) (\<lambda>r. ranges_loop ss (iprs @ [r])))"

text \<open>\<open>None\<close> is the error of a text that does not match.\<close>

definition NewIPRanger :: "string \<Rightarrow> IPRange list option go" where
  "NewIPRanger enableIPRange =
     (if enableIPRange \<noteq> [] \<and> \<not> rx_match ipRangeRegex enableIPRange then Inr None
      else if enableIPRange = [] then go_bind (NewIPRange ''0'' ''255'') (\<lambda>r. Inr (Some [r]))
      else go_bind (ranges_loop (split_on CHR '','' enableIPRange) []) (\<lambda>rs. Inr (Some rs)))"

definition IPIsRangeAvailable :: "IPRange list \<Rightarrow> string \<Rightarrow> bool" where
  "IPIsRangeAvailable rs ip = (if ip = [] then False else if rs = [] then True else list_ex (\<lambda>r. ipr_IsEnabled r ip) rs)"

text \<open>An interface has its flags, its name and its IPv4 addresses that are no loopback addresses, or an error for them.\<close>

record iface =
  if_Up :: bool
  if_Name :: string
  if_Addrs :: "string list option"

definition GetLocalIP :: "IPRange list \<Rightarrow> iface list option \<Rightarrow> (string \<times> bool) option" where
  "GetLocalIP rs inters = (case inters of
      None \<Rightarrow> None
    | Some ifs \<Rightarrow> (case filter (IPIsRangeAvailable rs) (concat (map (\<lambda>i. case if_Addrs i of None \<Rightarrow> [] | Some as \<Rightarrow> as)
          (filter (\<lambda>i. if_Up i \<and> take 2 (if_Name i) \<noteq> ''lo'') ifs))) of
            ip # _ \<Rightarrow> Some (ip, True)
          | [] \<Rightarrow> Some (''0.0.0.0'', False)))"

section \<open>A free port\<close>

text \<open>\<open>fold_char\<close> is the lower case of an ASCII letter; \<open>avail\<close> tells whether a socket can listen at a port.\<close>

definition fold_char :: "char \<Rightarrow> char" where
  "fold_char c = (let n = of_char c in if 65 \<le> n \<and> n \<le> 90 then char_of (n + 32 :: nat) else c)"

function port_loop :: "(int \<Rightarrow> bool) \<Rightarrow> int \<Rightarrow> int option" where
  "port_loop avail port = (if port < 65535 then (if avail port then Some port else port_loop avail (port + 1)) else None)"
  by pat_completeness auto
termination
  by (relation "measure (\<lambda>(avail, port). nat (65535 - port))") auto

declare port_loop.simps [simp del]

datatype port_error = HostNotFound | BindPortError

text \<open>\<open>strings.EqualFold\<close> against a text of ASCII characters without a \<open>k\<close>: the letters by their lower case, and the one other
  character that folds to such a letter, U+017F for \<open>s\<close>.\<close>

fun fold_text :: "string \<Rightarrow> string" where
  "fold_text (c # d # cs) = (if c = CHR 0xC5 \<and> d = CHR 0xBF then CHR ''s'' # fold_text cs else fold_char c # fold_text (d # cs))"
| "fold_text [c] = [fold_char c]"
| "fold_text [] = []"

definition EqualFold :: "string \<Rightarrow> string \<Rightarrow> bool" where
  "EqualFold s t \<longleftrightarrow> fold_text s = fold_text t"

text \<open>The network: the address a name resolves to, the interfaces with the addresses of each, which may fail to be listed, whether
  two addresses are the same, and whether a socket can listen at a port.\<close>

record 'ip network =
  net_Resolve :: "string \<Rightarrow> 'ip option"
  net_Interfaces :: "'ip list option list option"
  net_Equal :: "'ip \<Rightarrow> 'ip \<Rightarrow> bool"
  net_Listen :: "string \<Rightarrow> int \<Rightarrow> bool"

definition isHostInNetworkCard :: "'ip network \<Rightarrow> string \<Rightarrow> bool" where
  "isHostInNetworkCard net host = (case net_Resolve net host of
      None \<Rightarrow> False
    | Some addr \<Rightarrow> (case net_Interfaces net of
          None \<Rightarrow> False
        | Some interfaces \<Rightarrow> list_ex (\<lambda>addrs. case addrs of None \<Rightarrow> False | Some as \<Rightarrow> list_ex (\<lambda>a. net_Equal net a addr) as) interfaces))"

definition IsHostAvailable :: "'ip network \<Rightarrow> string \<Rightarrow> bool" where
  "IsHostAvailable net host =
     (if EqualFold ''0.0.0.0'' host then True
      else if EqualFold ''127.0.0.1'' host \<or> EqualFold ''localhost'' host then True
      else isHostInNetworkCard net host)"

definition GetAvailablePort :: "'ip network \<Rightarrow> string \<Rightarrow> int \<Rightarrow> port_error + int" where
  "GetAvailablePort net host oriPort =
     (if \<not> IsHostAvailable net host then Inl HostNotFound
      else (case port_loop (net_Listen net host) (if oriPort < 0 then 0 else oriPort) of Some p \<Rightarrow> Inr p | None \<Rightarrow> Inl BindPortError))"

section \<open>The search for a port\<close>

lemma port_loop_least:
  "(port_loop avail p = Some q \<longleftrightarrow> p \<le> q \<and> q < 65535 \<and> avail q \<and> (\<forall>r. p \<le> r \<and> r < q \<longrightarrow> \<not> avail r))
    \<and> (port_loop avail p = None \<longleftrightarrow> (\<forall>r. p \<le> r \<and> r < 65535 \<longrightarrow> \<not> avail r))"
proof (induction avail p rule: port_loop.induct)
  case (1 avail p)
  show ?case
  proof (cases "p < 65535 \<and> \<not> avail p")
    case True
    then have "(\<forall>r. p \<le> r \<and> r < x \<longrightarrow> \<not> avail r) \<longleftrightarrow> (\<forall>r. p + 1 \<le> r \<and> r < x \<longrightarrow> \<not> avail r)" for x
      by (metis add.commute add_le_cancel_left int_one_le_iff_zero_less nless_le zle_add1_eq_le zless_imp_add1_zle)
    moreover have "p \<le> q \<and> avail q \<longleftrightarrow> p + 1 \<le> q \<and> avail q" using True by (metis add1_zle_eq nless_le)
    ultimately show ?thesis using 1 True by (subst (1 2) port_loop.simps) auto
  next
    case False
    then show ?thesis by (subst (1 2) port_loop.simps) (auto intro: order.antisym simp: not_less)
  qed
qed

text \<open>\<open>GetAvailablePort\<close> ends, and for a host of this machine it returns the first free port from the given one on, below 65535;
  it fails exactly when there is none. The port 65535 itself is never tried.\<close>

theorem available_port_is_first_free:
  assumes "IsHostAvailable net host"
  shows "(GetAvailablePort net host p = Inr q
      \<longleftrightarrow> max 0 p \<le> q \<and> q < 65535 \<and> net_Listen net host q \<and> (\<forall>r. max 0 p \<le> r \<and> r < q \<longrightarrow> \<not> net_Listen net host r))
    \<and> (GetAvailablePort net host p = Inl BindPortError \<longleftrightarrow> (\<forall>r. max 0 p \<le> r \<and> r < 65535 \<longrightarrow> \<not> net_Listen net host r))"
  using assms port_loop_least [of "net_Listen net host" "max 0 p" q] by (auto simp: GetAvailablePort_def max_def split: option.splits if_splits)

theorem available_port_is_first_free_witness:
  "GetAvailablePort \<lparr>net_Resolve = \<lambda>_. None, net_Interfaces = Some [], net_Equal = ((=) :: nat \<Rightarrow> nat \<Rightarrow> bool),
      net_Listen = \<lambda>_ p. p \<ge> 8082\<rparr> ''LocalHost'' 8080 = Inr 8082"
proof -
  have "IsHostAvailable \<lparr>net_Resolve = \<lambda>_. None, net_Interfaces = Some [], net_Equal = ((=) :: nat \<Rightarrow> nat \<Rightarrow> bool),
      net_Listen = \<lambda>_ p. p \<ge> 8082\<rparr> ''LocalHost''" by code_simp
  from available_port_is_first_free [OF this, of 8080 8082] show ?thesis by simp
qed

section \<open>Addresses and ranges\<close>

fun join_on :: "char \<Rightarrow> string list \<Rightarrow> string" where
  "join_on c [] = []"
| "join_on c [x] = x"
| "join_on c (x # y # zs) = x @ c # join_on c (y # zs)"

lemma split_on_not_Nil [simp]: "split_on c s \<noteq> []"
  by (cases s) (auto split: list.splits)

lemma split_on_none: "c \<notin> set s \<Longrightarrow> split_on c s = [s]"
  by (induction s) auto

lemma split_on_first: "c \<notin> set s \<Longrightarrow> split_on c (s @ c # r) = s # split_on c r"
  by (induction s) auto

lemma split_on_join: "xs \<noteq> [] \<Longrightarrow> list_all (\<lambda>x. c \<notin> set x) xs \<Longrightarrow> split_on c (join_on c xs) = xs"
  by (induction c xs rule: join_on.induct) (simp_all add: split_on_none split_on_first)

definition dotted :: "nat list \<Rightarrow> string" where
  "dotted xs = join_on CHR ''.'' (map show_nat xs)"

text \<open>The octets of an address, or the first ones of it.\<close>

definition octets :: "nat list \<Rightarrow> bool" where
  "octets xs \<longleftrightarrow> xs \<noteq> [] \<and> length xs \<le> 4 \<and> list_all (\<lambda>x. x < 256) xs"

lemma show_nat_plain: "c \<in> {CHR ''.'', CHR '':'', CHR '',''} \<Longrightarrow> c \<notin> set (show_nat n)"
  using show_nat_dec [of n] dec_not_special [of c] by auto

lemma Atoi_nat: "n < 2 ^ 63 \<Longrightarrow> Atoi (show_nat n) = (None, int n)"
  using Atoi_show [of "int n"] by (simp add: show_int_def)

lemma split_dotted: "octets xs \<Longrightarrow> split_on CHR ''.'' (dotted xs) = map show_nat xs"
  unfolding dotted_def by (rule split_on_join) (auto simp: octets_def list_all_iff show_nat_plain)

lemma dotted_plain: "c \<in> {CHR '':'', CHR '',''} \<Longrightarrow> c \<notin> set (dotted xs)"
proof -
  have "set (join_on d ys) \<subseteq> {d} \<union> (\<Union>y \<in> set ys. set y)" for d ys by (induction d ys rule: join_on.induct) auto
  from this [of "CHR ''.''" "map show_nat xs"] show "c \<in> {CHR '':'', CHR '',''} \<Longrightarrow> c \<notin> set (dotted xs)"
    using show_nat_plain [of c] by (auto simp: dotted_def)
qed

definition number :: "nat list \<Rightarrow> nat" where
  "number xs = foldl (\<lambda>n x. n * 256 + x) 0 xs"

lemma number_loop:
  assumes "list_all (\<lambda>x. x < 256) xs" and "length xs \<le> k" and "k \<le> 4" and "n < 256 ^ (4 - k)"
  shows "foldl (\<lambda>n v. go_int (go_int (n * 256) + v)) (int n) (map int xs) = int (foldl (\<lambda>n x. n * 256 + x) n xs)"
  using assms
proof (induction xs arbitrary: n k)
  case (Cons x xs)
  then obtain k' where k: "k = Suc k'" by (cases k) auto
  have "n * 256 + x < 256 ^ (4 - k) * 256" using Cons.prems by simp
  also have "4 - k' = Suc (4 - k)" using Cons.prems k by simp
  then have "256 ^ (4 - k) * 256 = (256 :: nat) ^ (4 - k')" by simp
  finally have b: "n * 256 + x < 256 ^ (4 - k')" .
  have "(256 :: nat) ^ (4 - k') \<le> 256 ^ 4" by (rule power_increasing) auto
  with b have "n * 256 + x < 256 ^ 4" by linarith
  then have "go_int (go_int (int n * 256) + int x) = int (n * 256 + x)" by (simp add: go_int_id)
  with Cons.IH [of k' "n * 256 + x"] Cons.prems k b show ?case by simp
qed simp

text \<open>The order of addresses, octet by octet.\<close>

fun lex_le :: "nat list \<Rightarrow> nat list \<Rightarrow> bool" where
  "lex_le (x # xs) (y # ys) = (x < y \<or> x = y \<and> lex_le xs ys)"
| "lex_le xs ys = True"

lemma number_Cons: "number (x # xs) = x * 256 ^ length xs + number xs"
proof -
  have "foldl (\<lambda>n x. n * 256 + x) a xs = a * 256 ^ length xs + foldl (\<lambda>n x. n * 256 + x) 0 xs" for a :: nat
  proof (induction xs arbitrary: a)
    case (Cons y ys)
    show ?case using Cons [of "a * 256 + y"] Cons [of y] by (simp add: algebra_simps)
  qed simp
  from this [of x] show ?thesis by (simp add: number_def)
qed

lemma number_less: "list_all (\<lambda>x. x < 256) xs \<Longrightarrow> number xs < 256 ^ length xs"
proof (induction xs)
  case Nil
  then show ?case by (simp add: number_def)
next
  case (Cons x xs)
  then have "number (x # xs) < (x + 1) * 256 ^ length xs" by (simp add: number_Cons)
  also have "\<dots> \<le> 256 * 256 ^ length xs" using Cons.prems by (intro mult_right_mono) auto
  finally show ?case by simp
qed

lemma number_lex:
  "length xs = length ys \<Longrightarrow> list_all (\<lambda>x. x < 256) xs \<Longrightarrow> list_all (\<lambda>x. x < 256) ys \<Longrightarrow> number xs \<le> number ys \<longleftrightarrow> lex_le xs ys"
proof (induction xs ys rule: list_induct2')
  case (4 x xs y ys)
  have less: "number xs < 256 ^ length ys" "number ys < 256 ^ length ys" using 4 number_less [of xs] number_less [of ys] by auto
  consider "x < y" | "x = y" | "y < x" by linarith
  then show ?case
  proof cases
    case 1
    then have "(x + 1) * 256 ^ length ys \<le> y * 256 ^ length ys" by (intro mult_right_mono) auto
    with less 1 4 show ?thesis by (simp add: number_Cons)
  next
    case 2
    with 4 show ?thesis by (simp add: number_Cons)
  next
    case 3
    then have "(y + 1) * 256 ^ length ys \<le> x * 256 ^ length ys" by (intro mult_right_mono) auto
    with less 3 4 show ?thesis by (simp add: number_Cons)
  qed
qed (auto simp: number_def)

subsection \<open>The numbers of a range\<close>

definition pad :: "nat \<Rightarrow> nat list \<Rightarrow> nat list" where
  "pad v xs = xs @ replicate (4 - length xs) v"

lemma fill_segments_dotted:
  "list_all (\<lambda>x. x < 256) xs \<Longrightarrow> i + length xs \<le> length segs \<Longrightarrow>
    fill_segments segs i (map show_nat xs) = Inr (take i segs @ map int xs @ drop (i + length xs) segs)"
proof (induction xs arbitrary: i segs)
  case (Cons x xs)
  have "snd (Atoi (show_nat x)) = int x" using Cons.prems(1) Atoi_nat [of x] by simp
  moreover have "take (Suc i) (segs[i := int x]) = take i segs @ [int x]" using Cons.prems(2) by (simp add: take_Suc_conv_app_nth)
  ultimately show ?case using Cons.IH [of "Suc i" "segs[i := int x]"] Cons.prems by (simp add: go_set_index_def)
qed simp

lemma parse_dotted:
  assumes "octets xs" and "v < 256"
  shows "parse_address [int v, int v, int v, int v] (dotted xs) = Inr (int (number (pad v xs)))"
proof -
  have len: "length xs \<le> 4" and all: "list_all (\<lambda>x. x < 256) xs" using assms(1) by (simp_all add: octets_def)
  have "fill_segments [int v, int v, int v, int v] 0 (map show_nat xs) = Inr (map int (pad v xs))"
  proof -
    have "drop (length xs) [int v, int v, int v, int v] = map int (replicate (4 - length xs) v)"
    proof -
      have "[int v, int v, int v, int v] = map int (replicate 4 v)" by (simp add: numeral_eq_Suc)
      then show ?thesis by (simp add: drop_map)
    qed
    then show ?thesis using fill_segments_dotted [OF all, of 0 "[int v, int v, int v, int v]"] len by (simp add: pad_def)
  qed
  moreover have "list_all (\<lambda>x. x < 256) (pad v xs)" "length (pad v xs) \<le> 4" using all assms(2) len by (auto simp: pad_def list_all_iff)
  then have "foldl (\<lambda>n v. go_int (go_int (n * 256) + v)) 0 (map int (pad v xs)) = int (number (pad v xs))"
    using number_loop [of "pad v xs" 4 0] by (simp add: number_def)
  ultimately show ?thesis using split_dotted [OF assms(1)] by (simp add: parse_address_def)
qed

lemma NewIPRange_dotted:
  assumes "octets a" and "octets b"
  shows "NewIPRange (dotted a) (dotted b) = Inr \<lparr>ipr_Start = int (number (pad 0 a)), ipr_End = int (number (pad 255 b))\<rparr>"
  using parse_dotted [OF assms(1), of 0] parse_dotted [OF assms(2), of 255] by (simp add: NewIPRange_def parseStart_def parseEnd_def)

lemma IsEnabled_dotted:
  assumes "octets a" and "octets b" and "octets q" and "length q = 4"
  shows "ipr_IsEnabled \<lparr>ipr_Start = int (number (pad 0 a)), ipr_End = int (number (pad 255 b))\<rparr> (dotted q)
    \<longleftrightarrow> lex_le (pad 0 a) q \<and> lex_le q (pad 255 b)"
proof -
  have at: "snd (Atoi (show_nat x)) = int x" if "x \<in> set q" for x using assms(3) that Atoi_nat [of x] by (auto simp: octets_def list_all_iff)
  have "foldl (\<lambda>n s. go_int (go_int (n * 256) + snd (Atoi s))) 0 (map show_nat q) = foldl (\<lambda>n v. go_int (go_int (n * 256) + v)) 0 (map int q)"
    unfolding foldl_map by (rule foldl_cong) (simp_all add: at)
  also have "\<dots> = int (number q)" using number_loop [of q 4 0] assms(3,4) by (simp add: number_def octets_def)
  finally have "ipr_IsEnabled \<lparr>ipr_Start = int (number (pad 0 a)), ipr_End = int (number (pad 255 b))\<rparr> (dotted q)
      \<longleftrightarrow> number (pad 0 a) \<le> number q \<and> number q \<le> number (pad 255 b)"
    using split_dotted [OF assms(3)] by (simp add: ipr_IsEnabled_def)
  moreover have "list_all (\<lambda>x. x < 256) (pad 0 a)" "list_all (\<lambda>x. x < 256) (pad 255 b)" "length (pad 0 a) = 4" "length (pad 255 b) = 4"
    using assms(1,2) by (auto simp: pad_def octets_def list_all_iff)
  ultimately show ?thesis using number_lex [of "pad 0 a" q] number_lex [of q "pad 255 b"] assms(3,4) by (simp add: octets_def)
qed

subsection \<open>Texts that match\<close>

lemma star_map: "list_all (\<lambda>u. u \<in> A) us \<Longrightarrow> concat us \<in> star A"
  by (induction us) (auto intro: star.intros)

lemma join_on_concat: "join_on c (x # xs) = x @ concat (map (\<lambda>y. c # y) xs)"
  by (induction xs arbitrary: x) simp_all

lemma RSeqI: "u \<in> lang r \<Longrightarrow> v \<in> lang s \<Longrightarrow> u @ v \<in> lang (RSeq r s)"
  by auto

lemma ropt_lang: "[] \<in> lang (ropt r)" "u \<in> lang r \<Longrightarrow> u \<in> lang (ropt r)"
  by (simp_all add: ropt_def)

lemma upto3_lang: "length us \<le> 3 \<Longrightarrow> list_all (\<lambda>u. u \<in> lang r) us \<Longrightarrow> concat us \<in> lang (upto3 r)"
proof -
  assume len: "length us \<le> 3" and all: "list_all (\<lambda>u. u \<in> lang r) us"
  consider "us = []" | a where "us = [a]" | a b where "us = [a, b]" | a b c where "us = [a, b, c]"
    using len by (cases us; cases "tl us"; cases "tl (tl us)"; cases "tl (tl (tl us))") auto
  then show ?thesis using all
  proof cases
    case (2 a)
    then show ?thesis unfolding upto3_def using all RSeqI [of a r "[]"] by (simp add: ropt_lang del: lang.simps)
  next
    case (3 a b)
    then show ?thesis unfolding upto3_def using all RSeqI [of b r "[]"] by (simp add: ropt_lang RSeqI del: lang.simps)
  next
    case (4 a b c)
    then show ?thesis unfolding upto3_def using all by (simp add: ropt_lang RSeqI del: lang.simps)
  qed (simp add: upto3_def ropt_lang)
qed

lemma digits_lang:
  "d < 10 \<Longrightarrow> [digit_char d] \<in> lang digit"
  "d < 5 \<Longrightarrow> [digit_char d] \<in> lang (RSet ''01234'')"
  "d < 6 \<Longrightarrow> [digit_char d] \<in> lang (RSet ''012345'')"
  "d < 2 \<Longrightarrow> [digit_char d] \<in> lang (RSet ''01'')"
proof -
  have "list_all (\<lambda>d. digit_char d \<in> set ''0123456789'') [0..<10]" "list_all (\<lambda>d. digit_char d \<in> set ''01234'') [0..<5]"
    "list_all (\<lambda>d. digit_char d \<in> set ''012345'') [0..<6]" "list_all (\<lambda>d. digit_char d \<in> set ''01'') [0..<2]"
    by code_simp+
  then show "d < 10 \<Longrightarrow> [digit_char d] \<in> lang digit" "d < 5 \<Longrightarrow> [digit_char d] \<in> lang (RSet ''01234'')"
    "d < 6 \<Longrightarrow> [digit_char d] \<in> lang (RSet ''012345'')" "d < 2 \<Longrightarrow> [digit_char d] \<in> lang (RSet ''01'')"
    unfolding digit_def list_all_iff lang.simps by auto
qed

text \<open>The text of an octet has its one, two or three digits, each of which the expression allows.\<close>

lemma octet_lang: "n < 256 \<Longrightarrow> show_nat n \<in> lang rx_octet"
proof -
  assume n: "n < 256"
  let ?h = "n div 100" and ?t = "n div 10 mod 10" and ?u = "n mod 10"
  have plain: "u @ v \<in> lang rx_octet" if "u \<in> lang (ropt (RSet ''01''))" "v \<in> lang (RSeq digit (ropt digit))" for u v
    using RSeqI [OF that] by (simp add: rx_octet_def del: lang.simps(4))
  have two: "[digit_char ?t] @ [digit_char ?u] \<in> lang (RSeq digit (ropt digit))" by (intro RSeqI ropt_lang digits_lang) auto
  consider "n < 10" | "10 \<le> n" "n < 100" | "100 \<le> n" by linarith
  then show ?thesis
  proof cases
    case 1
    then have "[digit_char n] @ [] \<in> lang (RSeq digit (ropt digit))" by (intro RSeqI ropt_lang digits_lang)
    with 1 plain [of "[]" "[digit_char n]"] show ?thesis by (subst show_nat.simps) (simp add: ropt_lang)
  next
    case 2
    then have "n div 10 < 10" by auto
    with 2 plain [OF ropt_lang(1) two] show ?thesis by (subst show_nat.simps, subst show_nat.simps) simp
  next
    case 3
    have h: "?h < 3" "n div 10 div 10 = ?h" using n by (auto simp: div_mult2_eq [symmetric])
    have shown: "show_nat n = [digit_char ?h] @ [digit_char ?t] @ [digit_char ?u]"
      using 3 h by (subst show_nat.simps, subst show_nat.simps, subst show_nat.simps) auto
    have "n = 10 * (n div 10) + ?u" "n div 10 = 10 * (n div 10 div 10) + ?t" by simp_all
    then have "n = 100 * ?h + 10 * ?t + ?u" using h(2) by linarith
    then have "?h < 2 \<or> ?h = 2 \<and> ?t < 5 \<or> ?h = 2 \<and> ?t = 5 \<and> ?u < 6" using n by linarith
    then consider "?h < 2" | "?h = 2" "?t < 5" | "?h = 2" "?t = 5" "?u < 6" by blast
    then show ?thesis
    proof cases
      case 1
      with plain [OF ropt_lang(2) two, of "[digit_char ?h]"] shown show ?thesis by (simp add: digits_lang(4) del: lang.simps)
    next
      case 2
      have c: "[digit_char 2] \<in> lang (RSet ''2'')" by code_simp
      have "[digit_char ?h] @ [digit_char ?t] @ [digit_char ?u] \<in> lang (RSeq (RSet ''2'') (RSeq (RSet ''01234'') digit))"
        using 2 c by (intro RSeqI digits_lang) auto
      with shown show ?thesis by (simp add: rx_octet_def del: lang.simps(3,4))
    next
      case 3
      have c: "[digit_char 2] \<in> lang (RSet ''2'')" "[digit_char 5] \<in> lang (RSet ''5'')" by code_simp+
      have "[digit_char ?h] @ [digit_char ?t] @ [digit_char ?u] \<in> lang (RSeq (RSet ''2'') (RSeq (RSet ''5'') (RSet ''012345'')))"
        using 3 c by (intro RSeqI digits_lang) auto
      with shown show ?thesis by (simp add: rx_octet_def del: lang.simps(3,4))
    qed
  qed
qed

lemma char_lang: "v \<in> lang s \<Longrightarrow> c # v \<in> lang (RSeq (RSet [c]) s)"
  using RSeqI [of "[c]" "RSet [c]" v s] by simp

lemma dotted_lang: "octets xs \<Longrightarrow> dotted xs \<in> lang rx_address"
proof -
  assume o: "octets xs"
  then obtain x ys where xs: "xs = x # ys" by (cases xs) (auto simp: octets_def)
  have "concat (map (\<lambda>y. CHR ''.'' # show_nat y) ys) \<in> lang (upto3 (RSeq (RSet ''.'') rx_octet))"
    using o xs by (intro upto3_lang) (auto simp: octets_def list_all_iff simp del: lang.simps intro!: char_lang octet_lang)
  with o xs show ?thesis unfolding rx_address_def dotted_def
    by (simp add: join_on_concat o_def octets_def octet_lang RSeqI del: lang.simps)
qed

text \<open>A range of the configuration: an address, or the first octets of one, and perhaps another for its end.\<close>

type_synonym range_spec = "nat list \<times> nat list option"

definition range_text :: "range_spec \<Rightarrow> string" where
  "range_text r = (case r of (a, None) \<Rightarrow> dotted a | (a, Some b) \<Rightarrow> dotted a @ CHR '':'' # dotted b)"

definition range_ok :: "range_spec \<Rightarrow> bool" where
  "range_ok r = (octets (fst r) \<and> (case snd r of None \<Rightarrow> True | Some b \<Rightarrow> octets b))"

definition range_upper :: "range_spec \<Rightarrow> nat list" where
  "range_upper r = (case snd r of None \<Rightarrow> fst r | Some b \<Rightarrow> b)"

definition in_range :: "range_spec \<Rightarrow> nat list \<Rightarrow> bool" where
  "in_range r q \<longleftrightarrow> lex_le (pad 0 (fst r)) q \<and> lex_le q (pad 255 (range_upper r))"

definition config_text :: "range_spec list \<Rightarrow> string" where
  "config_text rs = join_on CHR '','' (map range_text rs)"

definition range_value :: "range_spec \<Rightarrow> IPRange" where
  "range_value r = \<lparr>ipr_Start = int (number (pad 0 (fst r))), ipr_End = int (number (pad 255 (range_upper r)))\<rparr>"

lemma range_lang: "range_ok r \<Longrightarrow> range_text r \<in> lang rx_range"
proof -
  assume ok: "range_ok r"
  obtain a m where r: "r = (a, m)" by force
  have "(case m of None \<Rightarrow> [] | Some b \<Rightarrow> CHR '':'' # dotted b) \<in> lang (ropt (RSeq (RSet '':'') rx_address))"
  proof (cases m)
    case (Some b)
    with ok r have "CHR '':'' # dotted b \<in> lang (RSeq (RSet '':'') rx_address)" by (intro char_lang dotted_lang) (simp add: range_ok_def)
    with Some show ?thesis by (simp add: ropt_def)
  qed (simp add: ropt_def)
  then have "dotted a @ (case m of None \<Rightarrow> [] | Some b \<Rightarrow> CHR '':'' # dotted b) \<in> lang rx_range"
    unfolding rx_range_def using ok r by (intro RSeqI dotted_lang) (simp_all add: range_ok_def)
  then show ?thesis using r by (simp add: range_text_def split: option.splits)
qed

lemma config_lang: "rs \<noteq> [] \<Longrightarrow> list_all range_ok rs \<Longrightarrow> config_text rs \<in> lang ipRangeRegex"
proof (cases rs)
  case (Cons r rest)
  assume ok: "list_all range_ok rs"
  have one: "range_text x \<in> lang (upto3 rx_range)" if "range_ok x" for x using upto3_lang [of "[range_text x]" rx_range] range_lang [OF that] by simp
  have "concat (map (\<lambda>x. CHR '','' # range_text x) rest) \<in> star (lang (RSeq (RSet '','') (upto3 rx_range)))"
    using ok Cons by (intro star_map) (auto simp: list_all_iff simp del: lang.simps intro!: char_lang one)
  then have "concat (map (\<lambda>x. CHR '','' # range_text x) rest) \<in> lang (RStar (RSeq (RSet '','') (upto3 rx_range)))" by simp
  with ok Cons show ?thesis unfolding ipRangeRegex_def config_text_def
    by (simp add: join_on_concat o_def range_lang RSeqI del: lang.simps)
qed simp

subsection \<open>What a configuration means\<close>

lemma range_text_plain: "CHR '','' \<notin> set (range_text r)"
  using dotted_plain [of "CHR '',''"] by (auto simp: range_text_def split: prod.splits option.splits)

lemma range_text_not_Nil: "range_ok r \<Longrightarrow> range_text r \<noteq> []"
proof -
  have "rx_range \<noteq> REps \<and> \<not> nullable rx_range" by code_simp
  then show "range_ok r \<Longrightarrow> range_text r \<noteq> []" using range_lang [of r] nullable_lang [of rx_range] by auto
qed

lemma ranges_loop_text:
  "list_all range_ok rs \<Longrightarrow> ranges_loop (map range_text rs) acc = Inr (acc @ map range_value rs)"
proof (induction rs arbitrary: acc)
  case (Cons r rs)
  obtain a m where r: "r = (a, m)" by force
  have plain: "CHR '':'' \<notin> set (dotted x)" for x using dotted_plain [of "CHR '':''" x] by simp
  have nil: "range_text r \<noteq> []" using Cons.prems range_text_not_Nil by simp
  show ?case
  proof (cases m)
    case None
    with Cons r plain NewIPRange_dotted [of a a] nil show ?thesis by (simp add: range_text_def range_ok_def range_value_def range_upper_def)
  next
    case (Some b)
    have "split_on CHR '':'' (dotted a @ CHR '':'' # dotted b) = [dotted a, dotted b]" by (simp add: split_on_first split_on_none plain)
    with Some Cons r NewIPRange_dotted [of a b] show ?thesis by (simp add: range_text_def range_ok_def range_value_def range_upper_def go_index_def)
  qed
qed simp

text \<open>C33: A configuration of ranges separated by commas, each one address or two around a colon and each address complete or only
  its first octets, is accepted, and an address is then available exactly when one of the ranges has it: it is not below the
  first address, filled up with zeros, and not above the last, filled up with 255, octet by octet.\<close>

theorem ip_ranger_meaning:
  assumes "rs \<noteq> []" and "list_all range_ok rs" and "octets q" and "length q = 4"
  shows "\<exists>ranges. NewIPRanger (config_text rs) = Inr (Some ranges)
    \<and> (IPIsRangeAvailable ranges (dotted q) \<longleftrightarrow> list_ex (\<lambda>r. in_range r q) rs)"
proof -
  have split: "split_on CHR '','' (config_text rs) = map range_text rs"
    unfolding config_text_def using assms(1) by (intro split_on_join) (auto simp: list_all_iff range_text_plain)
  have "\<not> nullable ipRangeRegex" by code_simp
  then have "config_text rs \<noteq> []" using config_lang [OF assms(1,2)] nullable_lang [of ipRangeRegex] by auto
  with config_lang [OF assms(1,2)] split have "NewIPRanger (config_text rs) = Inr (Some (map range_value rs))"
    by (simp add: NewIPRanger_def rx_match_lang ranges_loop_text [OF assms(2)])
  moreover have "dotted q \<noteq> []" using range_text_not_Nil [of "(q, None)"] assms(3) by (simp add: range_text_def range_ok_def)
  moreover have "ipr_IsEnabled (range_value r) (dotted q) = in_range r q" if "r \<in> set rs" for r
    unfolding range_value_def in_range_def using that assms IsEnabled_dotted [of "fst r" "range_upper r" q]
    by (auto simp: list_all_iff range_ok_def range_upper_def split: option.splits)
  ultimately show ?thesis using assms(1) by (auto simp: IPIsRangeAvailable_def list_ex_iff)
qed

theorem ip_ranger_meaning_witness:
  "\<exists>ranges. NewIPRanger (config_text [([10, 250], Some [10, 251, 7]), ([192, 168, 1, 1], None)]) = Inr (Some ranges)
    \<and> (IPIsRangeAvailable ranges (dotted [10, 251, 7, 200])
      \<longleftrightarrow> list_ex (\<lambda>r. in_range r [10, 251, 7, 200]) [([10, 250], Some [10, 251, 7]), ([192, 168, 1, 1], None)])"
  by (rule ip_ranger_meaning) (simp_all add: range_ok_def octets_def)

text \<open>The expression allows up to three ranges behind a comma with nothing between them, so a text it accepts can have an
  address of more than four octets, and the constructor panics on it instead of returning its error.\<close>

theorem accepted_range_panics:
  "rx_match ipRangeRegex ''1,1.2.3.45.6.7.8'' \<and> NewIPRanger ''1,1.2.3.45.6.7.8'' = Inl IndexOutOfRange"
proof -
  have r: "range_text ([1], None) \<in> lang rx_range" "range_text ([1, 2, 3, 4], None) \<in> lang rx_range" "range_text ([5, 6, 7, 8], None) \<in> lang rx_range"
    by (rule range_lang; simp add: range_ok_def octets_def)+
  have t: "range_text ([1], None) = ''1''" "range_text ([1, 2, 3, 4], None) = ''1.2.3.4''" "range_text ([5, 6, 7, 8], None) = ''5.6.7.8''"
    by code_simp+
  have "concat [''1.2.3.4'', ''5.6.7.8''] \<in> lang (upto3 rx_range)" using r [unfolded t] by (intro upto3_lang) simp_all
  then have "concat ['',1.2.3.45.6.7.8''] \<in> star (lang (RSeq (RSet '','') (upto3 rx_range)))"
    by (intro star_map) (simp add: char_lang del: lang.simps)
  then have "'',1.2.3.45.6.7.8'' \<in> lang (RStar (RSeq (RSet '','') (upto3 rx_range)))" by simp
  from RSeqI [OF r(1) [unfolded t] this] have m: "rx_match ipRangeRegex ''1,1.2.3.45.6.7.8''" by (simp add: rx_match_lang ipRangeRegex_def t del: lang.simps)
  moreover have "ranges_loop (split_on CHR '','' ''1,1.2.3.45.6.7.8'') [] = Inl IndexOutOfRange"
    by (simp add: NewIPRange_def parseStart_def parseEnd_def parse_address_def go_set_index_def)
  ultimately show ?thesis by (simp add: NewIPRanger_def)
qed

end
