(* ===== verification/LogHandlers.thy ===== *)
theory LogHandlers
  imports Prelude
begin

text \<open>
  The builder of the loggers, \<open>ag/ag_log/agslog\<close>, with the factories of \<open>fanout\<close>, \<open>failover\<close> and \<open>async\<close>: handlers are
  registered or made by factories, which ask the builder for other handlers by their names; loggers taken before the
  builder is complete get a replaceable handler, which \<open>Build\<close> replaces.
\<close>

section \<open>Handlers\<close>

text \<open>A handler is one of the program's own, one the library combines of others (a fan-out, a fail-over, a pipe of middlewares),
  an asynchronous one with its worker group, or the one of the log package of Go. A replaceable handler is an object that
  changes: the constructor has its address.\<close>

datatype handler =
    Leaf nat
  | NilHandler
  | GoDefault
  | Named string handler
  | Replaceable nat
  | Fanout "handler list"
  | Failover "handler list"
  | Async string handler
  | Pipe "nat list" handler

text \<open>\<open>getDoGetHandlerFunc\<close> of the two packages and the function of \<open>BuildAsyncHandlerFactorys\<close>, as data: the names they ask for.\<close>

datatype do_get = FanoutOf "string list" | FailoverOf "string list" | AsyncOf string string

record HandlerFactory =
  f_Name :: string
  f_DoGetHandler :: "do_get option"

record ReplaceableHandler =
  rh_name :: string
  rh_handler :: handler
  rh_replaced :: bool

record AgSlogProperties =
  p_IsDefault :: bool
  p_TopHandler :: "string list"

text \<open>The builder, of which there is one, with the instances its factories keep by their index; the objects of the replaceable
  handlers, the top logger and the default logger of Go, each by its handler; and what the log package of Go
  writes to, once a default logger is set. A logger is its handler, the maps from names are the \<open>sync.Map\<close>s.\<close>

record log_state =
  b_props :: "AgSlogProperties option"
  b_custTopHandlers :: "handler list"
  b_handlersCaches :: "string \<rightharpoonup> handler"
  b_handlers :: "string \<rightharpoonup> handler"
  b_namedLogger :: "string \<rightharpoonup> handler"
  b_replaceable :: "(string \<times> nat) list"
  b_factories :: "HandlerFactory list"
  b_instances :: "nat \<rightharpoonup> handler"
  b_middlewares :: "nat list"
  g_objects :: "ReplaceableHandler list"
  g_topLogger :: "handler option"
  g_default :: handler
  g_logOutput :: "handler option"

datatype log_error =
    HandlerNotFound string
  | MaybeCircular string
  | NoDoGetHandler string
  | FactoryFailed string log_error
  | NoneFound "string list"
  | AlreadyRegistered string
  | TopLoggerIsNil

definition const_topLoggerName :: string where
  "const_topLoggerName = ''agslog_top''"

section \<open>Named and replaceable handlers\<close>

definition NewReplaceableHandler :: "string \<Rightarrow> handler \<Rightarrow> log_state \<Rightarrow> nat \<times> log_state" where
  "NewReplaceableHandler name h s =
     (length (g_objects s), s\<lparr>g_objects := g_objects s @ [\<lparr>rh_name = name, rh_handler = h, rh_replaced = False\<rparr>]\<rparr>)"

definition rh_ReplaceHandler :: "nat \<Rightarrow> handler \<Rightarrow> log_state \<Rightarrow> log_state" where
  "rh_ReplaceHandler a h s = (let o1 = g_objects s ! a in
     if rh_replaced o1 then s else s\<lparr>g_objects := (g_objects s)[a := o1\<lparr>rh_handler := h, rh_replaced := True\<rparr>]\<rparr>)"

text \<open>The interface \<open>INamedHandler\<close>: the name and the original of a handler that has them.\<close>

fun inamed :: "log_state \<Rightarrow> handler \<Rightarrow> (string \<times> handler) option" where
  "inamed s (Named n h) = Some (n, h)"
| "inamed s (Replaceable a) = (let o1 = g_objects s ! a in Some (rh_name o1, rh_handler o1))"
| "inamed s _ = None"

definition WrapNamedHandlerIfNeed :: "log_state \<Rightarrow> string \<Rightarrow> handler \<Rightarrow> handler" where
  "WrapNamedHandlerIfNeed s hname h = (case inamed s h of
      Some (n, orig) \<Rightarrow> if n = hname then h else Named hname orig
    | None \<Rightarrow> Named hname h)"

section \<open>Configuring the builder\<close>

definition WithProperties :: "AgSlogProperties option \<Rightarrow> log_state \<Rightarrow> log_state" where
  "WithProperties props s = s\<lparr>b_props := props\<rparr>"

text \<open>\<open>type_name\<close> is the name of the type of a handler, by which one without a name is registered.\<close>

definition addHandler :: "(handler \<Rightarrow> string) \<Rightarrow> handler \<Rightarrow> log_state \<Rightarrow> (string \<times> log_error option) \<times> log_state" where
  "addHandler type_name h s = (let name = (case inamed s h of Some (n, _) \<Rightarrow> n | None \<Rightarrow> type_name h) in
     if b_handlersCaches s name \<noteq> None then ((name, Some (AlreadyRegistered name)), s)
     else ((name, None), s\<lparr>b_handlersCaches := (b_handlersCaches s)(name \<mapsto> h)\<rparr>))"

definition AddHandler :: "(handler \<Rightarrow> string) \<Rightarrow> handler list \<Rightarrow> log_state \<Rightarrow> log_state" where
  "AddHandler type_name hs s = fold (\<lambda>h s. snd (addHandler type_name h s)) hs s"

definition AddHandlers :: "(handler \<Rightarrow> string) \<Rightarrow> handler list \<Rightarrow> log_state \<Rightarrow> log_state" where
  "AddHandlers type_name hs s = (if hs = [] then s else AddHandler type_name hs s)"

definition AddHandlerss :: "(handler \<Rightarrow> string) \<Rightarrow> handler list list \<Rightarrow> log_state \<Rightarrow> log_state" where
  "AddHandlerss type_name hss s = fold (AddHandlers type_name) hss s"

definition addHandlerFactory :: "HandlerFactory option \<Rightarrow> log_state \<Rightarrow> log_state" where
  "addHandlerFactory f s = (case f of None \<Rightarrow> s | Some f \<Rightarrow> s\<lparr>b_factories := b_factories s @ [f]\<rparr>)"

definition AddHandlerFactory :: "HandlerFactory option list \<Rightarrow> log_state \<Rightarrow> log_state" where
  "AddHandlerFactory fs s = fold addHandlerFactory fs s"

definition AddHandlerFactorys :: "HandlerFactory option list \<Rightarrow> log_state \<Rightarrow> log_state" where
  "AddHandlerFactorys fs s = (if fs = [] then s else AddHandlerFactory fs s)"

definition AddHandlerFactoryss :: "HandlerFactory option list list \<Rightarrow> log_state \<Rightarrow> log_state" where
  "AddHandlerFactoryss fss s = fold AddHandlerFactorys fss s"

definition AddMiddlewares :: "nat list \<Rightarrow> log_state \<Rightarrow> log_state" where
  "AddMiddlewares mws s = s\<lparr>b_middlewares := b_middlewares s @ mws\<rparr>"

definition RegTopHandler :: "handler list \<Rightarrow> log_state \<Rightarrow> log_state" where
  "RegTopHandler hs s = (if hs = [] then s else s\<lparr>b_custTopHandlers := b_custTopHandlers s @ hs\<rparr>)"

text \<open>The factories of a configuration, in the order of the iteration over its map.\<close>

definition NewFanoutHandlerFactorys :: "(string \<times> string list) list option \<Rightarrow> HandlerFactory option list" where
  "NewFanoutHandlerFactorys logs = (case logs of None \<Rightarrow> []
     | Some l \<Rightarrow> map (\<lambda>(name, hs). Some \<lparr>f_Name = name, f_DoGetHandler = Some (FanoutOf hs)\<rparr>) l)"

definition NewFailoverHandlerFactorys :: "(string \<times> string list) list option \<Rightarrow> HandlerFactory option list" where
  "NewFailoverHandlerFactorys logs = (case logs of None \<Rightarrow> []
     | Some l \<Rightarrow> map (\<lambda>(name, hs). Some \<lparr>f_Name = name, f_DoGetHandler = Some (FailoverOf hs)\<rparr>) l)"

text \<open>An asynchronous log names its group and its log; a group without a configuration is replaced by the default one.\<close>

definition BuildAsyncHandlerFactorys :: "(string \<times> string \<times> string) list option \<Rightarrow> string list \<Rightarrow> HandlerFactory option list" where
  "BuildAsyncHandlerFactorys logs groups = (case logs of None \<Rightarrow> []
     | Some l \<Rightarrow> map (\<lambda>(name, gname, logname). Some \<lparr>f_Name = name,
         f_DoGetHandler = Some (AsyncOf (if gname \<in> set groups then gname else ''default'') logname)\<rparr>) l)"

definition FxBuildAgSlogBuilder ::
  "(handler \<Rightarrow> string) \<Rightarrow> AgSlogProperties option \<Rightarrow> handler list \<Rightarrow> handler list list \<Rightarrow> HandlerFactory option list
     \<Rightarrow> HandlerFactory option list list \<Rightarrow> nat list \<Rightarrow> log_state \<Rightarrow> log_state" where
  "FxBuildAgSlogBuilder type_name props hs hss fs fss mws s =
     AddMiddlewares mws (AddHandlerFactoryss fss (AddHandlerFactorys fs (AddHandlerss type_name hss (AddHandlers type_name hs (WithProperties props s)))))"

section \<open>Resolving a handler\<close>

text \<open>The index of the first factory of a name.\<close>

fun factory_index :: "HandlerFactory list \<Rightarrow> string \<Rightarrow> nat option" where
  "factory_index [] n = None"
| "factory_index (f # fs) n = (if f_Name f = n then Some 0 else map_option Suc (factory_index fs n))"

lemma factory_index_Some: "factory_index fs n = Some i \<Longrightarrow> i < length fs \<and> f_Name (fs ! i) = n"
  by (induction fs arbitrary: i) (auto split: if_splits)

text \<open>Every nested call of a factory holds one more of the finitely many locks.\<close>

definition unlocked :: "HandlerFactory list \<Rightarrow> nat list \<Rightarrow> nat" where
  "unlocked fs locked = card ({..<length fs} - set locked)"

lemma unlocked_Cons:
  "\<not> i < length fs \<Longrightarrow> unlocked fs (i # locked) = unlocked fs locked"
  "i < length fs \<Longrightarrow> i \<notin> set locked \<Longrightarrow> unlocked fs (i # locked) < unlocked fs locked"
proof -
  show "\<not> i < length fs \<Longrightarrow> unlocked fs (i # locked) = unlocked fs locked" by (simp add: unlocked_def)
  assume "i < length fs" "i \<notin> set locked"
  then have "{..<length fs} - set (i # locked) \<subset> {..<length fs} - set locked" by auto
  then show "unlocked fs (i # locked) < unlocked fs locked" unfolding unlocked_def by (rule psubset_card_mono [rotated]) simp
qed

text \<open>The recursion of \<open>resolveHandler\<close> through the factories. \<open>locked\<close> are the factories whose mutex the calls in progress hold:
  \<open>TryLock\<close> fails for them. The factories themselves do not change.\<close>

function (sequential) resolveHandler :: "HandlerFactory list \<Rightarrow> nat list \<Rightarrow> string \<Rightarrow> log_state \<Rightarrow> (log_error + handler) \<times> log_state"
  and GetHandler :: "HandlerFactory list \<Rightarrow> nat list \<Rightarrow> nat \<Rightarrow> log_state \<Rightarrow> (log_error + handler) \<times> log_state"
  and DoGetHandler :: "HandlerFactory list \<Rightarrow> nat list \<Rightarrow> do_get \<Rightarrow> log_state \<Rightarrow> (log_error + handler) \<times> log_state"
  and sub_handlers :: "HandlerFactory list \<Rightarrow> nat list \<Rightarrow> string list \<Rightarrow> handler list \<Rightarrow> log_state \<Rightarrow> handler list \<times> log_state" where
  "resolveHandler fs locked hname s = (case b_handlersCaches s hname of
      Some h \<Rightarrow> (Inr h, s)
    | None \<Rightarrow> (case factory_index fs hname of
          None \<Rightarrow> (Inl (HandlerNotFound hname), s)
        | Some i \<Rightarrow> (case GetHandler fs locked i s of
              (Inl e, s1) \<Rightarrow> (Inl e, s1)
            | (Inr h, s1) \<Rightarrow> (Inr h, s1\<lparr>b_handlersCaches := (b_handlersCaches s1)(hname \<mapsto> h)\<rparr>))))"
| "GetHandler fs locked i s =
     (if i \<in> set locked then (Inl (MaybeCircular (f_Name (fs ! i))), s)
      else (case b_instances s i of
          Some h \<Rightarrow> (Inr h, s)
        | None \<Rightarrow> (case f_DoGetHandler (fs ! i) of
              None \<Rightarrow> (Inl (NoDoGetHandler (f_Name (fs ! i))), s)
            | Some d \<Rightarrow> (case DoGetHandler fs (i # locked) d s of
                  (Inl e, s1) \<Rightarrow> (Inl (FactoryFailed (f_Name (fs ! i)) e), s1)
                | (Inr h, s1) \<Rightarrow> (Inr h, s1\<lparr>b_instances := (b_instances s1)(i \<mapsto> h)\<rparr>)))))"
| "DoGetHandler fs locked (FanoutOf names) s = (case sub_handlers fs locked names [] s of
      (hs, s1) \<Rightarrow> if hs = [] then (Inl (NoneFound names), s1) else (Inr (Fanout hs), s1))"
| "DoGetHandler fs locked (FailoverOf names) s = (case sub_handlers fs locked names [] s of
      (hs, s1) \<Rightarrow> if hs = [] then (Inl (NoneFound names), s1) else (Inr (Failover hs), s1))"
| "DoGetHandler fs locked (AsyncOf gname logname) s = (case resolveHandler fs locked logname s of
      (Inl e, s1) \<Rightarrow> (Inl e, s1)
    | (Inr h, s1) \<Rightarrow> (Inr (Async gname h), s1))"
| "sub_handlers fs locked [] acc s = (acc, s)"
| "sub_handlers fs locked (n # ns) acc s = (case resolveHandler fs locked n s of
      (Inl e, s1) \<Rightarrow> sub_handlers fs locked ns acc s1
    | (Inr h, s1) \<Rightarrow> sub_handlers fs locked ns (acc @ [h]) s1)"
  by pat_completeness auto

termination
  by (relation "measures [
      case_sum (case_sum (\<lambda>(fs, locked, _). unlocked fs locked) (\<lambda>(fs, locked, _). unlocked fs locked))
        (case_sum (\<lambda>(fs, locked, _). unlocked fs locked) (\<lambda>(fs, locked, _). unlocked fs locked)),
      case_sum (case_sum (\<lambda>_. 1) (\<lambda>(fs, _, i, _). if i < length fs then 0 else 4)) (case_sum (\<lambda>_. 3) (\<lambda>_. 2)),
      case_sum (\<lambda>_. 0) (case_sum (\<lambda>_. 0) (\<lambda>(_, _, ns, _). length ns))]")
    (auto dest: factory_index_Some simp: unlocked_Cons)

declare resolveHandler.simps [simp del] GetHandler.simps [simp del]

section \<open>Loggers by name\<close>

definition getNamedHandler :: "string \<Rightarrow> log_state \<Rightarrow> handler option \<times> log_state" where
  "getNamedHandler hname s = (case Option.bind (b_handlers s hname) (\<lambda>h. if inamed s h = None then None else Some h) of
      Some h \<Rightarrow> (Some h, s)
    | None \<Rightarrow> (case resolveHandler (b_factories s) [] hname s of
          (Inl e, s1) \<Rightarrow> (None, s1)
        | (Inr rh, s1) \<Rightarrow>
            (if rh = NilHandler then (None, s1)
             else (let h = WrapNamedHandlerIfNeed s1 hname (if b_middlewares s1 = [] then rh else Pipe (b_middlewares s1) rh);
                       s2 = s1\<lparr>b_handlers := (b_handlers s1)(hname \<mapsto> h)\<rparr>
                   in (if inamed s2 h = None then None else Some h, s2)))))"

definition GetSlogByName :: "string \<Rightarrow> log_state \<Rightarrow> handler \<times> log_state" where
  "GetSlogByName hname s = (case b_namedLogger s hname of
      Some l \<Rightarrow> (l, s)
    | None \<Rightarrow> (case getNamedHandler hname s of
          (Some h, s1) \<Rightarrow> (h, s1\<lparr>b_namedLogger := (b_namedLogger s1)(hname \<mapsto> h)\<rparr>)
        | (None, s1) \<Rightarrow>
            (let blogger = (case g_topLogger s1 of None \<Rightarrow> g_default s1 | Some t \<Rightarrow> if hname = const_topLoggerName then g_default s1 else t);
                 (a, s2) = NewReplaceableHandler hname blogger s1;
                 s3 = (if hname = const_topLoggerName then s2
                       else s2\<lparr>b_replaceable := (hname, a) # filter (\<lambda>(n, _). n \<noteq> hname) (b_replaceable s2)\<rparr>)
             in (Replaceable a, s3\<lparr>b_namedLogger := (b_namedLogger s3)(hname \<mapsto> Replaceable a)\<rparr>))))"

text \<open>The state before the package is initialised, and \<open>init\<close>.\<close>

definition log_empty :: log_state where
  "log_empty = \<lparr>b_props = None, b_custTopHandlers = [], b_handlersCaches = (\<lambda>_. None), b_handlers = (\<lambda>_. None), b_namedLogger = (\<lambda>_. None),
     b_replaceable = [], b_factories = [], b_instances = (\<lambda>_. None), b_middlewares = [], g_objects = [], g_topLogger = None,
     g_default = GoDefault, g_logOutput = None\<rparr>"

definition log_init :: log_state where
  "log_init = (case GetSlogByName const_topLoggerName log_empty of (l, s) \<Rightarrow> s\<lparr>g_topLogger := Some l\<rparr>)"

section \<open>Building the top logger\<close>

fun top_loop :: "string list \<Rightarrow> handler list \<Rightarrow> log_state \<Rightarrow> handler list \<times> log_state" where
  "top_loop [] hs s = (hs, s)"
| "top_loop (n # ns) hs s = (case resolveHandler (b_factories s) [] n s of
      (Inl e, s1) \<Rightarrow> top_loop ns hs s1
    | (Inr h, s1) \<Rightarrow> top_loop ns (hs @ [h]) s1)"

definition resolveTopHandlers :: "log_state \<Rightarrow> handler list \<times> log_state" where
  "resolveTopHandlers s = (case b_props s of
      None \<Rightarrow> (b_custTopHandlers s, s)
    | Some p \<Rightarrow> top_loop (p_TopHandler p) (b_custTopHandlers s) s)"

text \<open>\<open>slog.SetDefault\<close> also directs the log package of Go to the handler of the logger, unless it is the one of that package.\<close>

definition slog_SetDefault :: "handler \<Rightarrow> log_state \<Rightarrow> log_state" where
  "slog_SetDefault l s = s\<lparr>g_default := l, g_logOutput := (if l = GoDefault then g_logOutput s else Some l)\<rparr>"

definition initTopLogger :: "log_state \<Rightarrow> (log_error + handler) \<times> log_state" where
  "initTopLogger s = (case g_topLogger s of
      None \<Rightarrow> (Inl TopLoggerIsNil, s)
    | Some (Replaceable th) \<Rightarrow>
        (if rh_replaced (g_objects s ! th) then (Inr (Replaceable th), s)
         else (let (topHandlers, s1) = resolveTopHandlers s;
                   unsetDefault = (topHandlers = []);
                   topHandlers = (if topHandlers = [] then [g_default s1] else topHandlers);
                   rhandler = (if length topHandlers > 1 then Fanout topHandlers else topHandlers ! 0);
                   rhandler = (if b_middlewares s1 = [] then rhandler else Pipe (b_middlewares s1) rhandler);
                   rhandler = WrapNamedHandlerIfNeed s1 const_topLoggerName rhandler;
                   s2 = rh_ReplaceHandler th rhandler s1;
                   isDefault = (case b_props s2 of Some p \<Rightarrow> p_IsDefault p | None \<Rightarrow> False)
               in (Inr (Replaceable th), if isDefault \<and> \<not> unsetDefault then slog_SetDefault (Replaceable th) s2 else s2)))
    | Some th \<Rightarrow> (Inr th, s))"

text \<open>The handler a name without one of its own gets: the one of the top logger without its name.\<close>

definition top_original :: "log_state \<Rightarrow> handler" where
  "top_original s = (case g_topLogger s of
      Some (Replaceable t) \<Rightarrow> (let nh = rh_handler (g_objects s ! t) in
        if nh = NilHandler then g_default s else (case inamed s nh of Some (_, orig) \<Rightarrow> orig | None \<Rightarrow> NilHandler))
    | Some h \<Rightarrow> h
    | None \<Rightarrow> NilHandler)"

definition replace_one :: "string \<times> nat \<Rightarrow> log_state \<Rightarrow> log_state" where
  "replace_one ka s = (let (k, a) = ka; rh = g_objects s ! a in
     if k = const_topLoggerName then s
     else if rh_replaced rh \<or> rh_name rh = const_topLoggerName then s
     else (case getNamedHandler (rh_name rh) s of
         (Some h, s1) \<Rightarrow> rh_ReplaceHandler a h s1
       | (None, s1) \<Rightarrow> rh_ReplaceHandler a (WrapNamedHandlerIfNeed s1 (rh_name rh) (top_original s1)) s1))"

definition tryReplaceNamedHandler :: "log_state \<Rightarrow> log_state" where
  "tryReplaceNamedHandler s = fold replace_one (b_replaceable s) s"

definition Build :: "log_state \<Rightarrow> (log_error + handler) \<times> log_state" where
  "Build s = (let s1 = (if b_props s = None then s\<lparr>b_props := Some \<lparr>p_IsDefault = True, p_TopHandler = []\<rparr>\<rparr> else s) in
     case initTopLogger s1 of
       (Inl e, s2) \<Rightarrow> (Inl e, s2)
     | (Inr l, s2) \<Rightarrow> (Inr l, tryReplaceNamedHandler s2))"

section \<open>Levels\<close>

text \<open>\<open>strings.ToUpper\<close>, as far as its result can be a name of a level: ASCII letters, and U+0131, whose upper case is \<open>I\<close>.\<close>

fun ToUpper :: "string \<Rightarrow> string" where
  "ToUpper (c # d # cs) = (if c = CHR 0xC4 \<and> d = CHR 0xB1 then CHR ''I'' # ToUpper cs
     else (let n = of_char c :: nat in if 97 \<le> n \<and> n \<le> 122 then char_of (n - 32) else c) # ToUpper (d # cs))"
| "ToUpper [c] = [let n = of_char c :: nat in if 97 \<le> n \<and> n \<le> 122 then char_of (n - 32) else c]"
| "ToUpper [] = []"

definition levelKeyMap :: "string \<rightharpoonup> int" where
  "levelKeyMap = map_of [(''DEBUG'', - 4), (''INFO'', 0), (''WARN'', 4), (''ERROR'', 8)]"

definition GetLevel :: "(string \<times> string) list \<Rightarrow> string \<Rightarrow> int option" where
  "GetLevel conf key = (case map_of conf key of None \<Rightarrow> None | Some l \<Rightarrow> if l = [] then None else levelKeyMap (ToUpper l))"

text \<open>\<open>start\<close> is the name of the handler at which the record entered, if the context has one.\<close>

definition level_Enable :: "(string \<times> string) list option \<Rightarrow> string option \<Rightarrow> int \<Rightarrow> bool \<Rightarrow> bool" where
  "level_Enable conf start level next_enabled = (case conf of
      None \<Rightarrow> next_enabled
    | Some c \<Rightarrow> if c = [] then next_enabled
        else (case start of
            None \<Rightarrow> next_enabled
          | Some logKey \<Rightarrow> (case GetLevel c logKey of
                Some lv \<Rightarrow> level \<ge> lv
              | None \<Rightarrow> (case GetLevel c ''root'' of Some lv \<Rightarrow> level \<ge> lv | None \<Rightarrow> next_enabled))))"

section \<open>Which handlers resolve\<close>

fun subs :: "do_get \<Rightarrow> string list" where
  "subs (FanoutOf ns) = ns"
| "subs (FailoverOf ns) = ns"
| "subs (AsyncOf g n) = [n]"

text \<open>A handler can be obtained for a name when it is registered, or when the factory of the name, which is not in \<open>L\<close>, asks for a name
  for which one can be obtained.\<close>

inductive obtainable :: "HandlerFactory list \<Rightarrow> (string \<rightharpoonup> handler) \<Rightarrow> nat set \<Rightarrow> string \<Rightarrow> bool" for fs reg L where
  obt_reg: "reg n \<noteq> None \<Longrightarrow> obtainable fs reg L n"
| obt_factory: "factory_index fs n = Some i \<Longrightarrow> i \<notin> L \<Longrightarrow> f_DoGetHandler (fs ! i) = Some d \<Longrightarrow> m \<in> set (subs d)
    \<Longrightarrow> obtainable fs reg L m \<Longrightarrow> obtainable fs reg L n"

inductive_cases obtainableE: "obtainable fs reg L n"

lemma obtainable_mono: "obtainable fs reg L n \<Longrightarrow> reg \<subseteq>\<^sub>m reg' \<Longrightarrow> obtainable fs reg' L n"
proof (induction rule: obtainable.induct)
  case (obt_reg n)
  then show ?case by (metis domIff map_le_implies_dom_le obtainable.obt_reg subsetD)
qed (auto intro: obt_factory)

lemma obtainable_less_locked: "obtainable fs reg L n \<Longrightarrow> L' \<subseteq> L \<Longrightarrow> obtainable fs reg L' n"
  by (induction rule: obtainable.induct) (auto intro: obtainable.intros)

text \<open>A way to a handler that passes through a factory can be cut at it.\<close>

lemma obtainable_avoid:
  "obtainable fs reg L n \<Longrightarrow> obtainable fs reg (insert i L) n
    \<or> (\<exists>d m. f_DoGetHandler (fs ! i) = Some d \<and> m \<in> set (subs d) \<and> obtainable fs reg (insert i L) m)"
proof (induction rule: obtainable.induct)
  case (obt_factory n j d m)
  then show ?case by (cases "j = i") (auto intro: obtainable.obt_factory)
qed (auto intro: obtainable.obt_reg)

lemma obtainable_next:
  assumes "obtainable fs reg L n" and "reg n = None"
  obtains i d m where "factory_index fs n = Some i" "i \<notin> L" "f_DoGetHandler (fs ! i) = Some d" "m \<in> set (subs d)"
    "obtainable fs reg (insert i L) m"
  using assms(1)
proof (cases rule: obtainable.cases)
  case (obt_factory i d m)
  then show thesis using obtainable_avoid [of fs reg L m i] that by auto
qed (use assms in simp)

text \<open>Everything cached or built so far can be obtained.\<close>

definition sound_caches :: "HandlerFactory list \<Rightarrow> (string \<rightharpoonup> handler) \<Rightarrow> log_state \<Rightarrow> bool" where
  "sound_caches fs reg s \<longleftrightarrow> reg \<subseteq>\<^sub>m b_handlersCaches s \<and> (\<forall>n. b_handlersCaches s n \<noteq> None \<longrightarrow> obtainable fs reg {} n)
     \<and> (\<forall>i. b_instances s i \<noteq> None \<longrightarrow> (\<exists>d m. f_DoGetHandler (fs ! i) = Some d \<and> m \<in> set (subs d) \<and> obtainable fs reg {} m))"

abbreviation is_ok :: "log_error + handler \<Rightarrow> bool" where
  "is_ok r \<equiv> (\<exists>h. r = Inr h)"

lemma sound_reg: "sound_caches fs reg s \<Longrightarrow> b_handlersCaches s n = None \<Longrightarrow> reg n = None"
  unfolding sound_caches_def map_le_def by force

text \<open>The four functions keep the caches sound; one that has a way to a handler around the locked factories finds one, and what is
  found can be obtained.\<close>

lemma resolve_obtainable:
  "sound_caches fs reg s \<Longrightarrow> sound_caches fs reg (snd (resolveHandler fs L n s))
    \<and> (is_ok (fst (resolveHandler fs L n s)) \<longrightarrow> obtainable fs reg {} n)
    \<and> (obtainable fs reg (set L) n \<longrightarrow> is_ok (fst (resolveHandler fs L n s)))"
  "sound_caches fs reg s \<Longrightarrow> sound_caches fs reg (snd (GetHandler fs L i s))
    \<and> (is_ok (fst (GetHandler fs L i s)) \<longrightarrow> (\<exists>d m. f_DoGetHandler (fs ! i) = Some d \<and> m \<in> set (subs d) \<and> obtainable fs reg {} m))
    \<and> ((\<exists>d m. i \<notin> set L \<and> f_DoGetHandler (fs ! i) = Some d \<and> m \<in> set (subs d) \<and> obtainable fs reg (insert i (set L)) m)
         \<longrightarrow> is_ok (fst (GetHandler fs L i s)))"
  "sound_caches fs reg s \<Longrightarrow> sound_caches fs reg (snd (DoGetHandler fs L d s))
    \<and> (is_ok (fst (DoGetHandler fs L d s)) \<longrightarrow> (\<exists>m\<in>set (subs d). obtainable fs reg {} m))
    \<and> ((\<exists>m\<in>set (subs d). obtainable fs reg (set L) m) \<longrightarrow> is_ok (fst (DoGetHandler fs L d s)))"
  "sound_caches fs reg s \<Longrightarrow> sound_caches fs reg (snd (sub_handlers fs L ns acc s))
    \<and> (fst (sub_handlers fs L ns acc s) \<noteq> [] \<longrightarrow> acc \<noteq> [] \<or> (\<exists>m\<in>set ns. obtainable fs reg {} m))
    \<and> (acc \<noteq> [] \<or> (\<exists>m\<in>set ns. obtainable fs reg (set L) m) \<longrightarrow> fst (sub_handlers fs L ns acc s) \<noteq> [])"
proof (induction fs L n s and fs L i s and fs L d s and fs L ns acc s rule: resolveHandler_GetHandler_DoGetHandler_sub_handlers.induct)
  case (1 fs L n s)
  show ?case
  proof (cases "b_handlersCaches s n")
    case (Some h)
    with 1 show ?thesis by (simp add: resolveHandler.simps sound_caches_def)
  next
    case none: None
    then have reg: "reg n = None" using 1 sound_reg by blast
    show ?thesis
    proof (cases "factory_index fs n")
      case None
      then have "\<not> obtainable fs reg (set L) n" using reg by (auto elim: obtainableE)
      with None none 1 show ?thesis by (simp add: resolveHandler.simps)
    next
      case (Some i)
      obtain r s1 where g: "GetHandler fs L i s = (r, s1)" by fastforce
      note IH = 1(1) [OF none Some 1(2), unfolded g fst_conv snd_conv]
      have ok: "obtainable fs reg (set L) n \<longrightarrow> is_ok r"
      proof
        assume "obtainable fs reg (set L) n"
        then obtain i' d m where "factory_index fs n = Some i'" "i' \<notin> set L" "f_DoGetHandler (fs ! i') = Some d" "m \<in> set (subs d)"
          "obtainable fs reg (insert i' (set L)) m" using reg by (rule obtainable_next)
        with IH Some show "is_ok r" by auto
      qed
      have ob: "is_ok r \<longrightarrow> obtainable fs reg {} n" using IH Some by (auto intro: obt_factory)
      have "sound_caches fs reg (s1\<lparr>b_handlersCaches := (b_handlersCaches s1)(n \<mapsto> h)\<rparr>)" if "r = Inr h" for h
        using IH ob that reg by (auto simp: sound_caches_def map_le_def)
      then show ?thesis using IH ok ob by (cases r) (simp_all add: resolveHandler.simps none Some g)
    qed
  qed
next
  case (2 fs L i s)
  show ?case
  proof (cases "i \<in> set L \<or> b_instances s i \<noteq> None \<or> f_DoGetHandler (fs ! i) = None")
    case True
    show ?thesis
    proof (cases "i \<in> set L")
      case False
      with True 2(2) show ?thesis by (cases "b_instances s i") (auto simp: GetHandler.simps sound_caches_def)
    qed (use 2(2) in \<open>simp add: GetHandler.simps\<close>)
  next
    case False
    then obtain d where d: "f_DoGetHandler (fs ! i) = Some d" by auto
    obtain r s1 where g: "DoGetHandler fs (i # L) d s = (r, s1)" by fastforce
    have IH: "sound_caches fs reg s1 \<and> (is_ok r \<longrightarrow> (\<exists>m\<in>set (subs d). obtainable fs reg {} m))
        \<and> ((\<exists>m\<in>set (subs d). obtainable fs reg (insert i (set L)) m) \<longrightarrow> is_ok r)"
      using 2(1) [OF _ _ d 2(2)] False g by simp
    have "sound_caches fs reg (s1\<lparr>b_instances := (b_instances s1)(i \<mapsto> h)\<rparr>)" if "r = Inr h" for h
      using IH that d by (auto simp: sound_caches_def)
    then show ?thesis using IH False d g by (cases r) (auto simp: GetHandler.simps)
  qed
next
  case (3 fs L ns s)
  then show ?case by (cases "sub_handlers fs L ns [] s") auto
next
  case (4 fs L ns s)
  then show ?case by (cases "sub_handlers fs L ns [] s") auto
next
  case (5 fs L g n s)
  then show ?case by (cases "resolveHandler fs L n s"; cases "fst (resolveHandler fs L n s)") auto
next
  case (7 fs L n ns acc s)
  obtain r s1 where g: "resolveHandler fs L n s = (r, s1)" by fastforce
  show ?case
  proof (cases r)
    case (Inl e)
    with 7(1) [OF 7(4)] 7(2) [OF g [symmetric] Inl] g show ?thesis by auto
  next
    case (Inr h)
    with 7(1) [OF 7(4)] 7(3) [OF g [symmetric] Inr] g show ?thesis by auto
  qed
qed simp_all

text \<open>Resolving changes the two caches only.\<close>

definition same_builder :: "log_state \<Rightarrow> log_state \<Rightarrow> bool" where
  "same_builder s s' \<longleftrightarrow> s' = s\<lparr>b_handlersCaches := b_handlersCaches s', b_instances := b_instances s'\<rparr>"

lemma same_builder_refl [simp]: "same_builder s s"
  by (simp add: same_builder_def)

lemma same_builder_update [simp]:
  "same_builder s (s'\<lparr>b_handlersCaches := c\<rparr>) = same_builder s s'" "same_builder s (s'\<lparr>b_instances := i\<rparr>) = same_builder s s'"
  by (cases s; cases s'; auto simp: same_builder_def)+

lemma same_builder_trans: "same_builder s s1 \<Longrightarrow> same_builder s1 s2 \<Longrightarrow> same_builder s s2"
  by (cases s; cases s1; cases s2; auto simp: same_builder_def)

lemma resolve_same:
  "same_builder s (snd (resolveHandler fs L n s))"
  "same_builder s (snd (GetHandler fs L i s))"
  "same_builder s (snd (DoGetHandler fs L d s))"
  "same_builder s (snd (sub_handlers fs L ns acc s))"
proof (induction fs L n s and fs L i s and fs L d s and fs L ns acc s rule: resolveHandler_GetHandler_DoGetHandler_sub_handlers.induct)
  case (1 fs L n s)
  then show ?case by (auto simp: resolveHandler.simps split: option.splits prod.splits sum.splits)
next
  case (2 fs L i s)
  then show ?case by (auto simp: GetHandler.simps split: option.splits prod.splits sum.splits)
next
  case (7 fs L n ns acc s)
  obtain r s1 where g: "resolveHandler fs L n s = (r, s1)" by fastforce
  with 7(1) have s1: "same_builder s s1" by simp
  show ?case
  proof (cases r)
    case (Inl e)
    with 7(2) [OF g [symmetric] Inl] s1 g show ?thesis by (auto intro: same_builder_trans)
  next
    case (Inr h)
    with 7(3) [OF g [symmetric] Inr] s1 g show ?thesis by (auto intro: same_builder_trans)
  qed
qed (auto split: option.splits prod.splits sum.splits)

lemma same_builder_factories: "same_builder s s' \<Longrightarrow> b_factories s' = b_factories s"
  by (cases s; cases s'; simp add: same_builder_def)

lemma top_loop_rule:
  assumes "P s" and "b_factories s = fs" and "\<And>s n. P s \<Longrightarrow> P (snd (resolveHandler fs [] n s))"
  shows "P (snd (top_loop ns hs s))"
  using assms(1,2)
proof (induction ns hs s rule: top_loop.induct)
  case (2 n ns hs s)
  obtain r s1 where g: "resolveHandler (b_factories s) [] n s = (r, s1)" by fastforce
  then have "P s1" "b_factories s1 = fs" using assms(3) [OF 2(3), of n] 2(4) same_builder_factories resolve_same(1) by (metis snd_conv)+
  then show ?case using 2(1,2) g by (cases r) auto
qed simp

text \<open>C36: Whatever the factories refer to, circles included, and whatever was resolved before, resolving a name comes to an end, and it
  succeeds exactly when the factories lead from the name to a registered handler.\<close>

theorem resolve_succeeds_iff_obtainable:
  assumes "b_instances s = (\<lambda>_. None)"
  shows "is_ok (fst (resolveHandler (b_factories s) [] n (snd (top_loop earlier [] s))))
    \<longleftrightarrow> obtainable (b_factories s) (b_handlersCaches s) {} n"
proof -
  have "sound_caches (b_factories s) (b_handlersCaches s) s" using assms by (auto simp: sound_caches_def intro: obt_reg)
  then have "sound_caches (b_factories s) (b_handlersCaches s) (snd (top_loop earlier [] s))"
    by (rule top_loop_rule) (auto dest: resolve_obtainable(1))
  from resolve_obtainable(1) [OF this, of "[]" n] show ?thesis by auto
qed

section \<open>Trees of handlers\<close>

fun combine :: "do_get \<Rightarrow> handler list \<Rightarrow> handler option" where
  "combine (FanoutOf ns) hs = (if hs = [] then None else Some (Fanout hs))"
| "combine (FailoverOf ns) hs = (if hs = [] then None else Some (Failover hs))"
| "combine (AsyncOf g n) hs = (case hs of [] \<Rightarrow> None | h # _ \<Rightarrow> Some (Async g h))"

text \<open>The handler a configuration describes for a name, without caches, locks or instances, down to a depth.\<close>

fun tree :: "HandlerFactory list \<Rightarrow> (string \<rightharpoonup> handler) \<Rightarrow> nat \<Rightarrow> string \<Rightarrow> handler option" where
  "tree fs reg 0 n = reg n"
| "tree fs reg (Suc k) n = (case reg n of
      Some h \<Rightarrow> Some h
    | None \<Rightarrow> Option.bind (factory_index fs n) (\<lambda>i. Option.bind (f_DoGetHandler (fs ! i)) (\<lambda>d. combine d (List.map_filter (tree fs reg k) (subs d)))))"

text \<open>Factories without a circle: every factory asks for names of a lower rank only.\<close>

definition ranked :: "HandlerFactory list \<Rightarrow> (string \<Rightarrow> nat) \<Rightarrow> bool" where
  "ranked fs r \<longleftrightarrow> list_all (\<lambda>f. case f_DoGetHandler f of None \<Rightarrow> True | Some d \<Rightarrow> list_all (\<lambda>m. r m < r (f_Name f)) (subs d)) fs"

lemma rankedD: "ranked fs r \<Longrightarrow> factory_index fs n = Some i \<Longrightarrow> f_DoGetHandler (fs ! i) = Some d \<Longrightarrow> m \<in> set (subs d) \<Longrightarrow> r m < r n"
  using factory_index_Some [of fs n i] by (fastforce simp: ranked_def list_all_iff split: option.splits)

lemma map_filter_agree: "(\<And>x. x \<in> set xs \<Longrightarrow> f x = g x) \<Longrightarrow> List.map_filter f xs = List.map_filter g xs"
  by (induction xs) (auto simp: List.map_filter_simps split: option.splits)

lemma tree_stable: "ranked fs r \<Longrightarrow> r n < k \<Longrightarrow> tree fs reg k n = tree fs reg (Suc (r n)) n"
proof (induction k arbitrary: n rule: less_induct)
  case (less k)
  then obtain k' where k: "k = Suc k'" by (cases k) auto
  have "tree fs reg k' m = tree fs reg (r n) m" if "factory_index fs n = Some i" "f_DoGetHandler (fs ! i) = Some d" "m \<in> set (subs d)" for i d m
  proof -
    have "r m < r n" using rankedD [OF less.prems(1) that] .
    with less k show ?thesis using less.IH [of k' m] less.IH [of "r n" m] by (cases "r n < k") auto
  qed
  then have "List.map_filter (tree fs reg k') (subs d) = List.map_filter (tree fs reg (r n)) (subs d)"
    if "factory_index fs n = Some i" "f_DoGetHandler (fs ! i) = Some d" for i d
    using that by (intro map_filter_agree) auto
  then show ?case unfolding k
    by (cases "factory_index fs n"; cases "f_DoGetHandler (fs ! the (factory_index fs n))") (auto split: option.splits)
qed

definition config_tree :: "HandlerFactory list \<Rightarrow> (string \<rightharpoonup> handler) \<Rightarrow> (string \<Rightarrow> nat) \<Rightarrow> string \<Rightarrow> handler option" where
  "config_tree fs reg r n = tree fs reg (Suc (r n)) n"

definition factory_tree :: "HandlerFactory list \<Rightarrow> (string \<rightharpoonup> handler) \<Rightarrow> (string \<Rightarrow> nat) \<Rightarrow> nat \<Rightarrow> handler option" where
  "factory_tree fs reg r i = Option.bind (f_DoGetHandler (fs ! i)) (\<lambda>d. combine d (List.map_filter (config_tree fs reg r) (subs d)))"

lemma tree_unfold:
  assumes "ranked fs r"
  shows "config_tree fs reg r n = (case reg n of Some h \<Rightarrow> Some h | None \<Rightarrow> Option.bind (factory_index fs n) (factory_tree fs reg r))"
proof -
  have "List.map_filter (tree fs reg (r n)) (subs d) = List.map_filter (config_tree fs reg r) (subs d)"
    if "factory_index fs n = Some i" "f_DoGetHandler (fs ! i) = Some d" for i d
    unfolding config_tree_def using rankedD [OF assms(1) that] tree_stable [OF assms(1)] by (intro map_filter_agree) metis
  then show ?thesis
    by (cases "factory_index fs n"; cases "f_DoGetHandler (fs ! the (factory_index fs n))")
      (auto simp: config_tree_def [of fs reg r n] factory_tree_def split: option.splits)
qed

definition exact_caches :: "HandlerFactory list \<Rightarrow> (string \<rightharpoonup> handler) \<Rightarrow> (string \<Rightarrow> nat) \<Rightarrow> log_state \<Rightarrow> bool" where
  "exact_caches fs reg r s \<longleftrightarrow> reg \<subseteq>\<^sub>m b_handlersCaches s \<and> b_handlersCaches s \<subseteq>\<^sub>m config_tree fs reg r \<and> b_instances s \<subseteq>\<^sub>m factory_tree fs reg r"

fun as_opt :: "log_error + handler \<Rightarrow> handler option" where
  "as_opt (Inr h) = Some h"
| "as_opt (Inl e) = None"

lemma as_opt_simps: "as_opt x = None \<longleftrightarrow> (\<exists>e. x = Inl e)" "as_opt x = Some h \<longleftrightarrow> x = Inr h"
  by (cases x; simp)+

text \<open>The factories that are locked while a name is resolved have a higher rank.\<close>

definition above :: "HandlerFactory list \<Rightarrow> (string \<Rightarrow> nat) \<Rightarrow> nat list \<Rightarrow> nat \<Rightarrow> bool" where
  "above fs r L k \<longleftrightarrow> list_all (\<lambda>i. k < r (f_Name (fs ! i))) L"

lemma above_less: "above fs r L k \<Longrightarrow> m \<le> k \<Longrightarrow> above fs r L m"
  by (auto simp: above_def list_all_iff)

lemma map_le_upd: "m \<subseteq>\<^sub>m g \<Longrightarrow> g x = Some v \<Longrightarrow> m(x \<mapsto> v) \<subseteq>\<^sub>m g"
  by (auto simp: map_le_def)

lemma resolve_exact:
  "ranked fs r \<Longrightarrow> exact_caches fs reg r s \<Longrightarrow> above fs r L (r n)
    \<Longrightarrow> exact_caches fs reg r (snd (resolveHandler fs L n s)) \<and> as_opt (fst (resolveHandler fs L n s)) = config_tree fs reg r n"
  "ranked fs r \<Longrightarrow> exact_caches fs reg r s \<Longrightarrow> i < length fs \<Longrightarrow> above fs r L (r (f_Name (fs ! i)))
    \<Longrightarrow> exact_caches fs reg r (snd (GetHandler fs L i s)) \<and> as_opt (fst (GetHandler fs L i s)) = factory_tree fs reg r i"
  "ranked fs r \<Longrightarrow> exact_caches fs reg r s \<Longrightarrow> (\<And>m. m \<in> set (subs d) \<Longrightarrow> above fs r L (r m))
    \<Longrightarrow> exact_caches fs reg r (snd (DoGetHandler fs L d s))
      \<and> as_opt (fst (DoGetHandler fs L d s)) = combine d (List.map_filter (config_tree fs reg r) (subs d))"
  "ranked fs r \<Longrightarrow> exact_caches fs reg r s \<Longrightarrow> (\<And>m. m \<in> set ns \<Longrightarrow> above fs r L (r m))
    \<Longrightarrow> exact_caches fs reg r (snd (sub_handlers fs L ns acc s))
      \<and> fst (sub_handlers fs L ns acc s) = acc @ List.map_filter (config_tree fs reg r) ns"
proof (induction fs L n s and fs L i s and fs L d s and fs L ns acc s rule: resolveHandler_GetHandler_DoGetHandler_sub_handlers.induct)
  case (1 fs L n s)
  show ?case
  proof (cases "b_handlersCaches s n")
    case (Some h)
    with 1(3) have "config_tree fs reg r n = Some h" by (metis domI exact_caches_def map_le_def)
    with Some 1(3) show ?thesis by (simp add: resolveHandler.simps)
  next
    case none: None
    then have reg: "reg n = None" using 1(3) by (metis domIff exact_caches_def map_le_def)
    show ?thesis
    proof (cases "factory_index fs n")
      case None
      with none reg 1(3) show ?thesis by (simp add: resolveHandler.simps tree_unfold [OF 1(2), of reg n])
    next
      case (Some i)
      obtain x s1 where g: "GetHandler fs L i s = (x, s1)" by fastforce
      have n: "f_Name (fs ! i) = n" "i < length fs" using factory_index_Some [OF Some] by simp_all
      with 1(1) [OF none Some 1(2,3)] 1(4) g have IH: "exact_caches fs reg r s1" "as_opt x = factory_tree fs reg r i" by auto
      have T: "config_tree fs reg r n = as_opt x" using tree_unfold [OF 1(2), of reg n] reg Some IH by simp
      have "exact_caches fs reg r (s1\<lparr>b_handlersCaches := (b_handlersCaches s1)(n \<mapsto> h)\<rparr>)" if "x = Inr h" for h
        using IH(1) T that reg by (auto simp: exact_caches_def map_le_upd) (auto simp: map_le_def)
      with IH T show ?thesis by (cases x) (simp_all add: resolveHandler.simps none Some g)
    qed
  qed
next
  case (2 fs L i s)
  have nin: "i \<notin> set L" using 2(5) by (auto simp: above_def list_all_iff)
  show ?case
  proof (cases "b_instances s i")
    case (Some h)
    with 2(3) have "factory_tree fs reg r i = Some h" by (metis domI exact_caches_def map_le_def)
    with Some 2(3) nin show ?thesis by (simp add: GetHandler.simps)
  next
    case none: None
    show ?thesis
    proof (cases "f_DoGetHandler (fs ! i)")
      case None
      with none nin 2(3) show ?thesis by (simp add: GetHandler.simps factory_tree_def)
    next
      case (Some d)
      obtain x s1 where g: "DoGetHandler fs (i # L) d s = (x, s1)" by fastforce
      have "r m < r (f_Name (fs ! i))" if "m \<in> set (subs d)" for m using 2(2,4) that Some by (fastforce simp: ranked_def list_all_iff dest: nth_mem)
      then have "above fs r (i # L) (r m)" if "m \<in> set (subs d)" for m using 2(5) that above_less by (fastforce simp: above_def)
      with 2(1) [OF nin none Some 2(2,3)] g have IH: "exact_caches fs reg r s1" "as_opt x = factory_tree fs reg r i"
        by (auto simp: factory_tree_def Some)
      have "exact_caches fs reg r (s1\<lparr>b_instances := (b_instances s1)(i \<mapsto> h)\<rparr>)" if "x = Inr h" for h
        using IH(1) map_le_upd [of "b_instances s1" "factory_tree fs reg r" i h] IH(2) that by (simp add: exact_caches_def)
      with IH show ?thesis by (cases x) (simp_all add: GetHandler.simps none Some g nin)
    qed
  qed
next
  case (5 fs L g n s)
  obtain x s1 where "resolveHandler fs L n s = (x, s1)" by fastforce
  moreover from this 5 have "exact_caches fs reg r s1" "as_opt x = config_tree fs reg r n" by auto
  ultimately show ?case by (cases x) (auto simp: List.map_filter_simps as_opt_simps dest: sym split: option.splits)
next
  case (7 fs L n ns acc s)
  obtain x s1 where g: "resolveHandler fs L n s = (x, s1)" by fastforce
  with 7(1) [OF 7(4,5)] 7(6) have x: "exact_caches fs reg r s1" "as_opt x = config_tree fs reg r n" by auto
  show ?case
  proof (cases x)
    case (Inl e)
    with 7(2) [OF g [symmetric] Inl 7(4) x(1)] 7(6) x(2) g show ?thesis by (auto simp: List.map_filter_simps)
  next
    case (Inr h)
    with 7(3) [OF g [symmetric] Inr 7(4) x(1)] 7(6) x(2) [symmetric] g show ?thesis by (auto simp: List.map_filter_simps)
  qed
qed (auto simp: List.map_filter_simps split: prod.splits)

text \<open>C35: For factories without a circle the top handlers are the trees of handlers the configuration describes, in the order of their
  names and without those that have none, whatever the caches, the instances of the factories and the order of the calls contribute.\<close>

theorem top_handlers_are_trees:
  assumes "ranked (b_factories s) r" and "b_instances s = (\<lambda>_. None)"
  shows "fst (top_loop ns hs (snd (top_loop earlier [] s)))
    = hs @ List.map_filter (config_tree (b_factories s) (b_handlersCaches s) r) ns"
proof -
  let ?E = "exact_caches (b_factories s) (b_handlersCaches s) r"
  have "b_handlersCaches s \<subseteq>\<^sub>m config_tree (b_factories s) (b_handlersCaches s) r"
    by (auto simp: map_le_def tree_unfold [OF assms(1)])
  then have "?E s" using assms(2) by (auto simp: exact_caches_def)
  moreover have "?E (snd (resolveHandler (b_factories s) [] n x))" if "?E x" for n x
    using resolve_exact(1) [OF assms(1) that, of "[]" n] by (simp add: above_def)
  ultimately have E: "?E (snd (top_loop earlier [] s))" by (rule top_loop_rule [where P = ?E, OF _ refl])
  have F: "b_factories (snd (top_loop earlier [] s)) = b_factories s"
    by (rule top_loop_rule [where P = "\<lambda>x. b_factories x = b_factories s"]) (simp_all add: same_builder_factories [OF resolve_same(1)])
  have "?E s' \<Longrightarrow> b_factories s' = b_factories s
      \<Longrightarrow> fst (top_loop ns hs s') = hs @ List.map_filter (config_tree (b_factories s) (b_handlersCaches s) r) ns" for s'
  proof (induction ns hs s' rule: top_loop.induct)
    case (2 n ns hs s')
    obtain x s1 where g: "resolveHandler (b_factories s') [] n s' = (x, s1)" by fastforce
    with resolve_exact(1) [OF assms(1) 2(3), of "[]" n] 2(4)
    have x: "?E s1" "config_tree (b_factories s) (b_handlersCaches s) r n = as_opt x" "b_factories s1 = b_factories s"
      using same_builder_factories [OF resolve_same(1), of "b_factories s'" "[]" n s'] by (auto simp: above_def)
    then show ?case using 2(1,2) g by (cases x) (auto simp: List.map_filter_simps)
  qed (simp add: List.map_filter_simps)
  with E F show ?thesis by blast
qed

text \<open>A configuration: an asynchronous log over a fan-out with a registered handler, a missing one and a fail-over.\<close>

definition demo_logs :: log_state where
  "demo_logs = FxBuildAgSlogBuilder (\<lambda>_. ''?'') (Some \<lparr>p_IsDefault = True, p_TopHandler = [''async'', ''file'']\<rparr>)
     [Named ''console'' (Leaf 1), Named ''file'' (Leaf 2)] [] []
     [NewFanoutHandlerFactorys (Some [(''both'', [''console'', ''missing'', ''safe''])]),
      NewFailoverHandlerFactorys (Some [(''safe'', [''file'', ''console''])]),
      BuildAsyncHandlerFactorys (Some [(''async'', ''g'', ''both'')]) []] [7] log_init"

definition demo_rank :: "string \<Rightarrow> nat" where
  "demo_rank n = (if n = ''async'' then 3 else if n = ''both'' then 2 else if n = ''safe'' then 1 else 0)"

lemma demo_factories: "ranked (b_factories demo_logs) demo_rank" "b_instances demo_logs = (\<lambda>_. None)"
proof -
  show "ranked (b_factories demo_logs) demo_rank" by code_simp
  show "b_instances demo_logs = (\<lambda>_. None)"
    by (simp add: demo_logs_def FxBuildAgSlogBuilder_def AddMiddlewares_def AddHandlerFactoryss_def AddHandlerFactorys_def AddHandlerFactory_def
      addHandlerFactory_def AddHandlerss_def AddHandlers_def AddHandler_def addHandler_def WithProperties_def NewFanoutHandlerFactorys_def
      NewFailoverHandlerFactorys_def BuildAsyncHandlerFactorys_def log_init_def GetSlogByName_def log_empty_def getNamedHandler_def
      resolveHandler.simps NewReplaceableHandler_def Let_def)
qed

theorem top_handlers_are_trees_witness:
  "fst (top_loop [''async'', ''file''] [] (snd (top_loop [''safe''] [] demo_logs)))
    = [Async ''default'' (Fanout [Named ''console'' (Leaf 1), Failover [Named ''file'' (Leaf 2), Named ''console'' (Leaf 1)]]), Named ''file'' (Leaf 2)]"
proof -
  have "List.map_filter (config_tree (b_factories demo_logs) (b_handlersCaches demo_logs) demo_rank) [''async'', ''file'']
      = [Async ''default'' (Fanout [Named ''console'' (Leaf 1), Failover [Named ''file'' (Leaf 2), Named ''console'' (Leaf 1)]]), Named ''file'' (Leaf 2)]"
    by code_simp
  with top_handlers_are_trees [OF demo_factories, of "[''async'', ''file'']" "[]" "[''safe'']"] show ?thesis by simp
qed

theorem resolve_succeeds_iff_obtainable_witness:
  "is_ok (fst (resolveHandler (b_factories demo_logs) [] ''both'' (snd (top_loop [''file''] [] demo_logs))))"
proof -
  have c: "b_handlersCaches demo_logs ''console'' \<noteq> None" "factory_index (b_factories demo_logs) ''both'' = Some 0"
    "f_DoGetHandler (b_factories demo_logs ! 0) = Some (FanoutOf [''console'', ''missing'', ''safe''])" by code_simp+
  have "obtainable (b_factories demo_logs) (b_handlersCaches demo_logs) {} ''both''"
    by (rule obt_factory [where m = "''console''", OF c(2) _ c(3)]) (simp_all add: obt_reg [where reg = "b_handlersCaches demo_logs", OF c(1)])
  then show ?thesis using resolve_succeeds_iff_obtainable [OF demo_factories(2)] by blast
qed

section \<open>Logging\<close>

text \<open>What a handler does with a record depends on the name of the handler at which the record entered, which \<open>NamedHandler\<close>
  puts into the context. The handlers of the libraries are a parameter.\<close>

type_synonym 'r behaviour = "string option \<Rightarrow> 'r"

record 'r log_lib =
  lib_leaf :: "nat \<Rightarrow> 'r behaviour"
  lib_console :: "'r behaviour"
  lib_fanout :: "'r behaviour list \<Rightarrow> 'r behaviour"
  lib_failover :: "'r behaviour list \<Rightarrow> 'r behaviour"
  lib_async :: "string \<Rightarrow> 'r behaviour \<Rightarrow> 'r behaviour"
  lib_pipe :: "nat list \<Rightarrow> 'r behaviour \<Rightarrow> 'r behaviour"

definition named_Handle :: "string \<Rightarrow> 'r behaviour \<Rightarrow> 'r behaviour" where
  "named_Handle name h start = h (Some (case start of None \<Rightarrow> name | Some n \<Rightarrow> n))"

text \<open>\<open>Handle\<close> of a handler, to a depth of calls. The handler of the log package of Go writes to what that package writes to, the
  console if nothing else is set.\<close>

fun handle :: "nat \<Rightarrow> 'r log_lib \<Rightarrow> log_state \<Rightarrow> handler \<Rightarrow> 'r behaviour option" where
  "handle 0 L s h = None"
| "handle (Suc k) L s (Leaf i) = Some (lib_leaf L i)"
| "handle (Suc k) L s NilHandler = None"
| "handle (Suc k) L s GoDefault = (case g_logOutput s of None \<Rightarrow> Some (lib_console L) | Some h \<Rightarrow> handle k L s h)"
| "handle (Suc k) L s (Named n h) = map_option (named_Handle n) (handle k L s h)"
| "handle (Suc k) L s (Replaceable a) = handle k L s (rh_handler (g_objects s ! a))"
| "handle (Suc k) L s (Fanout hs) = map_option (lib_fanout L) (those (map (handle k L s) hs))"
| "handle (Suc k) L s (Failover hs) = map_option (lib_failover L) (those (map (handle k L s) hs))"
| "handle (Suc k) L s (Async g h) = map_option (lib_async L g) (handle k L s h)"
| "handle (Suc k) L s (Pipe mws h) = map_option (lib_pipe L mws) (handle k L s h)"

text \<open>A handler that leads to handlers of the program only; one that may lead to the log package of Go, too.\<close>

fun grounded :: "bool \<Rightarrow> handler \<Rightarrow> bool" where
  "grounded g (Leaf i) = True"
| "grounded g NilHandler = False"
| "grounded g GoDefault = g"
| "grounded g (Named n h) = grounded g h"
| "grounded g (Replaceable a) = False"
| "grounded g (Fanout hs) = list_all (grounded g) hs"
| "grounded g (Failover hs) = list_all (grounded g) hs"
| "grounded g (Async n h) = grounded g h"
| "grounded g (Pipe mws h) = grounded g h"

fun denotes :: "'r log_lib \<Rightarrow> 'r behaviour \<Rightarrow> handler \<Rightarrow> 'r behaviour" where
  "denotes L d (Leaf i) = lib_leaf L i"
| "denotes L d (Named n h) = named_Handle n (denotes L d h)"
| "denotes L d (Fanout hs) = lib_fanout L (map (denotes L d) hs)"
| "denotes L d (Failover hs) = lib_failover L (map (denotes L d) hs)"
| "denotes L d (Async g h) = lib_async L g (denotes L d h)"
| "denotes L d (Pipe mws h) = lib_pipe L mws (denotes L d h)"
| "denotes L d h = d"

lemma those_map: "(\<And>x. x \<in> set xs \<Longrightarrow> f x = Some (g x)) \<Longrightarrow> those (map f xs) = Some (map g xs)"
  by (induction xs) simp_all

lemma handle_grounded:
  assumes "g \<Longrightarrow> \<forall>k\<ge>m. handle k L s GoDefault = Some d"
  shows "grounded g h \<Longrightarrow> size h + m < k \<Longrightarrow> handle k L s h = Some (denotes L d h)"
proof (induction h arbitrary: k)
  case (Fanout hs)
  then obtain k' where "k = Suc k'" by (cases k) auto
  moreover have "handle k' L s h = Some (denotes L d h)" if "h \<in> set hs" for h
    using Fanout that calculation size_list_estimation' [OF that order.refl, of size] by (auto simp: list_all_iff)
  ultimately show ?case by (simp add: those_map)
next
  case (Failover hs)
  then obtain k' where "k = Suc k'" by (cases k) auto
  moreover have "handle k' L s h = Some (denotes L d h)" if "h \<in> set hs" for h
    using Failover that calculation size_list_estimation' [OF that order.refl, of size] by (auto simp: list_all_iff)
  ultimately show ?case by (simp add: those_map)
next
  case GoDefault
  then show ?case using assms by simp
qed (case_tac k; simp)+

section \<open>Logging always comes to an end\<close>

text \<open>What a program does with the builder: it asks for loggers, adds handlers, factories and middlewares, and builds the top logger, in
  any order.\<close>

datatype log_action =
    AGetSlogByName string
  | AAddHandlers "handler list"
  | ARegTopHandler "handler list"
  | AAddFactorys "HandlerFactory option list"
  | AAddMiddlewares "nat list"
  | AWithProperties "AgSlogProperties option"
  | ABuild

fun log_act :: "(handler \<Rightarrow> string) \<Rightarrow> log_action \<Rightarrow> log_state \<Rightarrow> log_state" where
  "log_act tn (AGetSlogByName n) s = snd (GetSlogByName n s)"
| "log_act tn (AAddHandlers hs) s = AddHandlers tn hs s"
| "log_act tn (ARegTopHandler hs) s = RegTopHandler hs s"
| "log_act tn (AAddFactorys fs) s = AddHandlerFactorys fs s"
| "log_act tn (AAddMiddlewares mws) s = AddMiddlewares mws s"
| "log_act tn (AWithProperties p) s = WithProperties p s"
| "log_act tn ABuild s = snd (Build s)"

abbreviation plain :: "handler \<Rightarrow> bool" where
  "plain \<equiv> grounded False"

fun log_action_ok :: "log_action \<Rightarrow> bool" where
  "log_action_ok (AAddHandlers hs) = list_all plain hs"
| "log_action_ok (ARegTopHandler hs) = list_all plain hs"
| "log_action_ok _ = True"

lemma plain_grounded: "plain h \<Longrightarrow> grounded g h"
  by (induction h) (auto simp: list_all_iff)

text \<open>The invariant: the handlers of the builder are the program's own; the top logger is the first replaceable handler, and the only one that
  others refer to; and the log package of Go leads to it only when it does not lead back.\<close>

definition caches_plain :: "log_state \<Rightarrow> bool" where
  "caches_plain s \<longleftrightarrow> (\<forall>n h. b_handlersCaches s n = Some h \<longrightarrow> plain h) \<and> (\<forall>i h. b_instances s i = Some h \<longrightarrow> plain h)"

definition builder_plain :: "log_state \<Rightarrow> bool" where
  "builder_plain s \<longleftrightarrow> caches_plain s \<and> list_all plain (b_custTopHandlers s) \<and> (\<forall>n h. b_handlers s n = Some h \<longrightarrow> plain h)"

definition object_ok :: "handler option \<Rightarrow> nat \<Rightarrow> ReplaceableHandler \<Rightarrow> bool" where
  "object_ok output a o1 \<longleftrightarrow>
     (if a = 0 then grounded True (rh_handler o1) \<and> (if rh_replaced o1 then \<exists>n h. rh_handler o1 = Named n h else output = None)
      else rh_handler o1 = Replaceable 0 \<or> grounded True (rh_handler o1))"

definition top_ok :: "log_state \<Rightarrow> bool" where
  "top_ok s \<longleftrightarrow> g_objects s \<noteq> [] \<and> g_topLogger s = Some (Replaceable 0) \<and> b_namedLogger s const_topLoggerName = Some (Replaceable 0)
     \<and> (g_logOutput s = None \<and> g_default s = GoDefault
        \<or> g_logOutput s = Some (Replaceable 0) \<and> g_default s = Replaceable 0 \<and> plain (rh_handler (g_objects s ! 0)))"

definition loggers_ok :: "log_state \<Rightarrow> bool" where
  "loggers_ok s \<longleftrightarrow> (\<forall>n l. b_namedLogger s n = Some l \<longrightarrow> plain l \<or> (\<exists>a < length (g_objects s). l = Replaceable a))
     \<and> (\<forall>(n, a) \<in> set (b_replaceable s). 0 < a \<and> a < length (g_objects s))"

definition log_inv :: "log_state \<Rightarrow> bool" where
  "log_inv s \<longleftrightarrow> builder_plain s \<and> top_ok s \<and> loggers_ok s \<and> (\<forall>a < length (g_objects s). object_ok (g_logOutput s) a (g_objects s ! a))"

lemma resolve_plain:
  "caches_plain s \<Longrightarrow> caches_plain (snd (resolveHandler fs L n s)) \<and> (\<forall>h. fst (resolveHandler fs L n s) = Inr h \<longrightarrow> plain h)"
  "caches_plain s \<Longrightarrow> caches_plain (snd (GetHandler fs L i s)) \<and> (\<forall>h. fst (GetHandler fs L i s) = Inr h \<longrightarrow> plain h)"
  "caches_plain s \<Longrightarrow> caches_plain (snd (DoGetHandler fs L d s)) \<and> (\<forall>h. fst (DoGetHandler fs L d s) = Inr h \<longrightarrow> plain h)"
  "caches_plain s \<Longrightarrow> list_all plain acc
    \<Longrightarrow> caches_plain (snd (sub_handlers fs L ns acc s)) \<and> list_all plain (fst (sub_handlers fs L ns acc s))"
proof (induction fs L n s and fs L i s and fs L d s and fs L ns acc s rule: resolveHandler_GetHandler_DoGetHandler_sub_handlers.induct)
  case (1 fs L n s)
  then show ?case by (auto simp: resolveHandler.simps caches_plain_def split: option.splits prod.splits sum.splits if_splits)
next
  case (2 fs L i s)
  then show ?case by (auto simp: GetHandler.simps caches_plain_def split: option.splits prod.splits sum.splits if_splits)
next
  case (7 fs L n ns acc s)
  obtain r s1 where g: "resolveHandler fs L n s = (r, s1)" by fastforce
  show ?case
  proof (cases r)
    case (Inl e)
    with 7(1) [OF 7(4)] 7(2) [OF g [symmetric] Inl] 7(5) g show ?thesis by auto
  next
    case (Inr h)
    with 7(1) [OF 7(4)] 7(3) [OF g [symmetric] Inr] 7(5) g show ?thesis by auto
  qed
qed (auto split: prod.splits sum.splits)

lemma top_loop_plain: "caches_plain s \<Longrightarrow> list_all plain hs \<Longrightarrow> caches_plain (snd (top_loop ns hs s)) \<and> list_all plain (fst (top_loop ns hs s))"
proof (induction ns hs s rule: top_loop.induct)
  case (2 n ns hs s)
  obtain r s1 where g: "resolveHandler (b_factories s) [] n s = (r, s1)" by fastforce
  with resolve_plain(1) [OF 2(3), of "b_factories s" "[]" n] 2(4) 2(1) [OF g [symmetric]] 2(2) [OF g [symmetric]]
  show ?case by (cases r) auto
qed simp

lemma top_loop_same: "same_builder s (snd (top_loop ns hs s))"
proof (induction ns hs s rule: top_loop.induct)
  case (2 n ns hs s)
  obtain r s1 where g: "resolveHandler (b_factories s) [] n s = (r, s1)" by fastforce
  with resolve_same(1) [of s "b_factories s" "[]" n] 2(1) [OF g [symmetric]] 2(2) [OF g [symmetric]]
  show ?case by (cases r) (auto intro: same_builder_trans)
qed simp

lemma same_builderE:
  assumes "same_builder s s'"
  obtains c i where "s' = s\<lparr>b_handlersCaches := c, b_instances := i\<rparr>"
  using assms unfolding same_builder_def by blast

lemma log_inv_same: "log_inv s \<Longrightarrow> same_builder s s' \<Longrightarrow> caches_plain s' \<Longrightarrow> log_inv s'"
  by (erule same_builderE) (simp add: log_inv_def builder_plain_def top_ok_def loggers_ok_def)

lemma wrap_grounded:
  assumes "grounded g h"
  shows "grounded g (WrapNamedHandlerIfNeed s n h)" "\<exists>m h'. WrapNamedHandlerIfNeed s n h = Named m h'" "inamed s' (WrapNamedHandlerIfNeed s n h) \<noteq> None"
  using assms by (cases h; simp add: WrapNamedHandlerIfNeed_def)+

lemma log_inv_handlers: "log_inv s \<Longrightarrow> plain h \<Longrightarrow> log_inv (s\<lparr>b_handlers := (b_handlers s)(n \<mapsto> h)\<rparr>)"
  by (simp add: log_inv_def builder_plain_def caches_plain_def top_ok_def loggers_ok_def)

lemma log_inv_logger: "log_inv s \<Longrightarrow> n \<noteq> const_topLoggerName \<Longrightarrow> plain l \<Longrightarrow> log_inv (s\<lparr>b_namedLogger := (b_namedLogger s)(n \<mapsto> l)\<rparr>)"
  by (simp add: log_inv_def builder_plain_def caches_plain_def top_ok_def loggers_ok_def)

text \<open>A new replaceable handler refers to the top logger.\<close>

lemma log_inv_replaceable:
  assumes "log_inv s" and "n \<noteq> const_topLoggerName"
  shows "log_inv (s\<lparr>g_objects := g_objects s @ [\<lparr>rh_name = n, rh_handler = Replaceable 0, rh_replaced = False\<rparr>],
    b_replaceable := (n, length (g_objects s)) # filter (\<lambda>(m, _). m \<noteq> n) (b_replaceable s),
    b_namedLogger := (b_namedLogger s)(n \<mapsto> Replaceable (length (g_objects s)))\<rparr>)" (is "log_inv ?s")
proof -
  have "builder_plain ?s" using assms by (simp add: log_inv_def builder_plain_def caches_plain_def)
  moreover have "top_ok ?s" using assms by (simp add: log_inv_def top_ok_def nth_append)
  moreover have "loggers_ok ?s"
  proof -
    have l: "loggers_ok s" "g_objects s \<noteq> []" using assms(1) by (simp_all add: log_inv_def top_ok_def)
    have "plain l \<or> (\<exists>a < Suc (length (g_objects s)). l = Replaceable a)" if "((b_namedLogger s)(n \<mapsto> Replaceable (length (g_objects s)))) m = Some l" for m l
    proof (cases "m = n")
      case False
      with that l(1) have "plain l \<or> (\<exists>a < length (g_objects s). l = Replaceable a)" by (simp add: loggers_ok_def)
      then show ?thesis by (elim disjE exE conjE) (auto simp: less_SucI)
    qed (use that in auto)
    moreover have "\<forall>(m, a) \<in> set ((n, length (g_objects s)) # filter (\<lambda>(m, _). m \<noteq> n) (b_replaceable s)). 0 < a \<and> a < Suc (length (g_objects s))"
      using l by (auto simp: loggers_ok_def less_Suc_eq)
    ultimately show ?thesis unfolding loggers_ok_def by simp
  qed
  moreover have "\<forall>a < length (g_objects ?s). object_ok (g_logOutput ?s) a (g_objects ?s ! a)"
    using assms by (auto simp: log_inv_def nth_append less_Suc_eq top_ok_def object_ok_def)
  ultimately show ?thesis by (simp add: log_inv_def)
qed

lemma getNamedHandler_inv:
  assumes "log_inv s"
  shows "log_inv (snd (getNamedHandler n s)) \<and> g_objects (snd (getNamedHandler n s)) = g_objects s
    \<and> g_topLogger (snd (getNamedHandler n s)) = g_topLogger s \<and> (\<forall>h. fst (getNamedHandler n s) = Some h \<longrightarrow> plain h)"
proof -
  obtain r s1 where g: "resolveHandler (b_factories s) [] n s = (r, s1)" by fastforce
  have same: "same_builder s s1" using resolve_same(1) [of s "b_factories s" "[]" n] g by simp
  have c: "caches_plain s" using assms by (simp add: log_inv_def builder_plain_def)
  have p: "caches_plain s1" "r = Inr h \<Longrightarrow> plain h" for h using resolve_plain(1) [OF c, of "b_factories s" "[]" n] g by simp_all
  have s1: "log_inv s1" using log_inv_same [OF assms same p(1)] .
  have o1: "g_objects s1 = g_objects s" "g_topLogger s1 = g_topLogger s" using same by (auto elim: same_builderE)
  show ?thesis
  proof (cases "Option.bind (b_handlers s n) (\<lambda>h. if inamed s h = None then None else Some h)")
    case (Some h)
    then have "b_handlers s n = Some h" by (auto simp: bind_eq_Some_conv split: if_splits)
    with Some assms show ?thesis by (auto simp: getNamedHandler_def log_inv_def builder_plain_def)
  next
    case none: None
    show ?thesis
    proof (cases r)
      case (Inl e)
      with none s1 o1 show ?thesis by (simp add: getNamedHandler_def g)
    next
      case (Inr h)
      let ?h = "WrapNamedHandlerIfNeed s1 n (if b_middlewares s1 = [] then h else Pipe (b_middlewares s1) h)"
      have h: "plain h" "h \<noteq> NilHandler" using p(2) [OF Inr] by auto
      then have w: "plain ?h" by (intro wrap_grounded) auto
      have "log_inv (s1\<lparr>b_handlers := (b_handlers s1)(n \<mapsto> ?h)\<rparr>)" using log_inv_handlers [OF s1 w] .
      with none h w o1 show ?thesis unfolding getNamedHandler_def g Inr Let_def by (simp del: if_split)
    qed
  qed
qed

lemma GetSlogByName_inv: "log_inv s \<Longrightarrow> log_inv (snd (GetSlogByName n s))"
proof (cases "b_namedLogger s n")
  case none: None
  assume inv: "log_inv s"
  then have top: "n \<noteq> const_topLoggerName" using none by (auto simp: log_inv_def top_ok_def)
  obtain r s1 where g: "getNamedHandler n s = (r, s1)" by fastforce
  with getNamedHandler_inv [OF inv, of n] have s1: "log_inv s1" "r = Some h \<Longrightarrow> plain h" for h by simp_all
  show ?thesis
  proof (cases r)
    case None
    have t: "g_topLogger s1 = Some (Replaceable 0)" using s1 by (simp add: log_inv_def top_ok_def)
    show ?thesis using log_inv_replaceable [OF s1(1) top] top by (simp add: GetSlogByName_def none g None t NewReplaceableHandler_def)
  next
    case (Some h)
    with log_inv_logger [OF s1(1) top s1(2) [OF Some]] show ?thesis by (simp add: GetSlogByName_def none g)
  qed
qed (simp add: GetSlogByName_def)

text \<open>Replacing a handler.\<close>

lemma log_inv_replace:
  assumes "log_inv s" and "a < length (g_objects s)" and "0 < a" and "grounded True h"
  shows "log_inv (rh_ReplaceHandler a h s)"
proof (cases "rh_replaced (g_objects s ! a)")
  case False
  let ?s = "s\<lparr>g_objects := (g_objects s)[a := (g_objects s ! a)\<lparr>rh_handler := h, rh_replaced := True\<rparr>]\<rparr>"
  have "builder_plain ?s" "loggers_ok ?s" "top_ok ?s"
    using assms by (simp_all add: log_inv_def builder_plain_def caches_plain_def top_ok_def loggers_ok_def)
  moreover have "object_ok (g_logOutput s) b (g_objects ?s ! b)" if "b < length (g_objects s)" for b
  proof (cases "b = a")
    case True
    with assms(2,3,4) show ?thesis by (simp add: object_ok_def)
  next
    case False
    with assms(1) that show ?thesis by (simp add: log_inv_def)
  qed
  ultimately show ?thesis using False by (simp add: rh_ReplaceHandler_def log_inv_def Let_def)
qed (use assms in \<open>simp add: rh_ReplaceHandler_def\<close>)

lemma rh_ReplaceHandler_frame:
  "length (g_objects (rh_ReplaceHandler a h s)) = length (g_objects s)" "0 < a \<Longrightarrow> g_objects (rh_ReplaceHandler a h s) ! 0 = g_objects s ! 0"
  by (simp_all add: rh_ReplaceHandler_def Let_def)

lemma replace_one_inv:
  assumes "log_inv s" and "0 < a" and "a < length (g_objects s)" and "rh_replaced (g_objects s ! 0)"
  shows "log_inv (replace_one (k, a) s) \<and> length (g_objects (replace_one (k, a) s)) = length (g_objects s)
    \<and> rh_replaced (g_objects (replace_one (k, a) s) ! 0)"
proof -
  let ?n = "rh_name (g_objects s ! a)"
  obtain r s1 where g: "getNamedHandler ?n s = (r, s1)" by fastforce
  with getNamedHandler_inv [OF assms(1), of ?n]
  have s1: "log_inv s1" "g_objects s1 = g_objects s" "g_topLogger s1 = g_topLogger s" and p: "r = Some h \<Longrightarrow> plain h" for h by simp_all
  have top: "g_topLogger s = Some (Replaceable 0)" "object_ok (g_logOutput s) 0 (g_objects s ! 0)" "g_objects s \<noteq> []"
    using assms(1) by (auto simp: log_inv_def top_ok_def)
  obtain n h0 where h0: "rh_handler (g_objects s ! 0) = Named n h0" "grounded True h0" using top(2) assms(4) by (auto simp: object_ok_def)
  have orig: "top_original s1 = h0" using top s1 h0 by (simp add: top_original_def Let_def)
  have "grounded True (case r of Some h \<Rightarrow> h | None \<Rightarrow> WrapNamedHandlerIfNeed s1 ?n (top_original s1))"
    using p h0(2) orig by (auto simp: plain_grounded wrap_grounded split: option.splits)
  from log_inv_replace [OF s1(1) _ assms(2) this] assms s1(2)
  have "log_inv (rh_ReplaceHandler a (case r of Some h \<Rightarrow> h | None \<Rightarrow> WrapNamedHandlerIfNeed s1 ?n (top_original s1)) s1)" by simp
  with assms s1(2) show ?thesis by (cases r) (auto simp: replace_one_def Let_def g rh_ReplaceHandler_frame)
qed

lemma tryReplace_inv:
  assumes "log_inv s" and "rh_replaced (g_objects s ! 0)"
  shows "log_inv (tryReplaceNamedHandler s)"
proof -
  have "\<forall>(k, a) \<in> set kas. 0 < a \<and> a < length (g_objects s) \<Longrightarrow> log_inv s \<Longrightarrow> rh_replaced (g_objects s ! 0) \<Longrightarrow> log_inv (fold replace_one kas s)" for kas s
  proof (induction kas arbitrary: s)
    case (Cons ka kas)
    obtain k a where ka: "ka = (k, a)" by force
    with Cons.prems replace_one_inv [of s a k] Cons.IH [of "replace_one ka s"] show ?case by auto
  qed simp
  with assms show ?thesis by (auto simp: tryReplaceNamedHandler_def log_inv_def loggers_ok_def)
qed

text \<open>The handler the top logger gets, and the state with it.\<close>

definition top_handler :: "handler list \<Rightarrow> log_state \<Rightarrow> handler" where
  "top_handler hs s = (let hs = (if hs = [] then [g_default s] else hs);
       h = (if length hs > 1 then Fanout hs else hs ! 0)
     in WrapNamedHandlerIfNeed s const_topLoggerName (if b_middlewares s = [] then h else Pipe (b_middlewares s) h))"

lemma top_handler_grounded:
  assumes "list_all plain hs" and "g_default s = GoDefault"
  shows "grounded True (top_handler hs s)" "\<exists>n h. top_handler hs s = Named n h" "hs \<noteq> [] \<Longrightarrow> plain (top_handler hs s)"
proof -
  let ?hs = "if hs = [] then [g_default s] else hs"
  let ?h = "if length ?hs > 1 then Fanout ?hs else ?hs ! 0"
  have g: "grounded (hs = []) (if b_middlewares s = [] then ?h else Pipe (b_middlewares s) ?h)"
    using assms by (cases hs) (auto simp: plain_grounded list_all_iff)
  have e: "top_handler hs s = WrapNamedHandlerIfNeed s const_topLoggerName (if b_middlewares s = [] then ?h else Pipe (b_middlewares s) ?h)"
    by (simp add: top_handler_def Let_def)
  show "\<exists>n h. top_handler hs s = Named n h" unfolding e by (rule wrap_grounded(2) [OF g])
  have w: "grounded (hs = []) (top_handler hs s)" unfolding e by (rule wrap_grounded(1) [OF g])
  then show "hs \<noteq> [] \<Longrightarrow> plain (top_handler hs s)" by simp
  with w show "grounded True (top_handler hs s)" by (cases "hs = []") (auto intro: plain_grounded)
qed

lemma initTopLogger_inv:
  assumes "log_inv s"
  shows "log_inv (snd (initTopLogger s)) \<and> rh_replaced (g_objects (snd (initTopLogger s)) ! 0) \<and> (\<exists>l. fst (initTopLogger s) = Inr l)"
proof (cases "rh_replaced (g_objects s ! 0)")
  case True
  with assms show ?thesis by (simp add: initTopLogger_def log_inv_def top_ok_def)
next
  case False
  obtain hs s1 where g: "resolveTopHandlers s = (hs, s1)" by fastforce
  have b: "caches_plain s" "list_all plain (b_custTopHandlers s)" using assms by (simp_all add: log_inv_def builder_plain_def)
  have "same_builder s s1 \<and> caches_plain s1 \<and> list_all plain hs"
    using g b top_loop_plain [OF b] top_loop_same [of s] by (auto simp: resolveTopHandlers_def split: option.splits) (metis fst_conv snd_conv)+
  then have s1: "same_builder s s1" "log_inv s1" "list_all plain hs" using log_inv_same [OF assms] by auto
  then have o1: "\<not> rh_replaced (g_objects s1 ! 0)" using False by (auto elim: same_builderE)
  have len: "g_objects s1 \<noteq> []" using s1(2) by (simp add: log_inv_def top_ok_def)
  then have "object_ok (g_logOutput s1) 0 (g_objects s1 ! 0)" using s1(2) by (simp add: log_inv_def)
  with o1 have out: "g_logOutput s1 = None" by (simp add: object_ok_def)
  then have d: "g_default s1 = GoDefault" using s1(2) by (simp add: log_inv_def top_ok_def)
  let ?o = "(g_objects s1 ! 0)\<lparr>rh_handler := top_handler hs s1, rh_replaced := True\<rparr>"
  let ?s2 = "s1\<lparr>g_objects := (g_objects s1)[0 := ?o]\<rparr>"
  note t = top_handler_grounded [OF s1(3) d]
  have ob: "object_ok out1 a (g_objects ?s2 ! a)" if "a < length (g_objects s1)" for a out1
  proof (cases "a = 0")
    case True
    with len t show ?thesis by (simp add: object_ok_def)
  next
    case False
    with that s1(2) have "object_ok (g_logOutput s1) a (g_objects s1 ! a)" by (simp add: log_inv_def)
    with False show ?thesis by (simp add: object_ok_def)
  qed
  have s2: "log_inv ?s2" using s1(2) ob out d by (simp add: log_inv_def builder_plain_def caches_plain_def top_ok_def loggers_ok_def)
  have s3: "log_inv (slog_SetDefault (Replaceable 0) ?s2)" if "hs \<noteq> []"
    using s1(2) ob t(3) [OF that] len by (simp add: slog_SetDefault_def log_inv_def builder_plain_def caches_plain_def top_ok_def loggers_ok_def)
  have top: "g_topLogger s = Some (Replaceable 0)" using assms by (simp add: log_inv_def top_ok_def)
  have r: "rh_ReplaceHandler 0 (top_handler hs s1) s1 = ?s2" using o1 by (simp add: rh_ReplaceHandler_def)
  have "snd (initTopLogger s) = (if (case b_props ?s2 of Some p \<Rightarrow> p_IsDefault p | None \<Rightarrow> False) \<and> hs \<noteq> [] then slog_SetDefault (Replaceable 0) ?s2 else ?s2)"
    using False r by (simp add: initTopLogger_def top g top_handler_def Let_def)
  moreover have "\<exists>l. fst (initTopLogger s) = Inr l" using False by (simp add: initTopLogger_def top g Let_def)
  ultimately show ?thesis using s2 s3 len by (simp add: slog_SetDefault_def)
qed

lemma log_inv_props: "log_inv (s\<lparr>b_props := p\<rparr>) = log_inv s"
  by (simp add: log_inv_def builder_plain_def caches_plain_def top_ok_def loggers_ok_def)

lemma Build_inv: "log_inv s \<Longrightarrow> log_inv (snd (Build s)) \<and> (\<exists>l. fst (Build s) = Inr l)"
proof -
  assume inv: "log_inv s"
  let ?s = "if b_props s = None then s\<lparr>b_props := Some \<lparr>p_IsDefault = True, p_TopHandler = []\<rparr>\<rparr> else s"
  have "log_inv ?s" using inv by (simp add: log_inv_props)
  from initTopLogger_inv [OF this] obtain l s2 where "initTopLogger ?s = (Inr l, s2)" "log_inv s2" "rh_replaced (g_objects s2 ! 0)"
    by (metis prod.collapse)
  then show ?thesis unfolding Build_def Let_def using tryReplace_inv by simp
qed

lemma log_inv_config:
  "log_inv (s\<lparr>b_factories := fs\<rparr>) = log_inv s" "log_inv (s\<lparr>b_middlewares := mws\<rparr>) = log_inv s"
  by (simp_all add: log_inv_def builder_plain_def caches_plain_def top_ok_def loggers_ok_def)

lemma AddHandler_inv: "log_inv s \<Longrightarrow> list_all plain hs \<Longrightarrow> log_inv (AddHandler tn hs s)"
  unfolding AddHandler_def
proof (induction hs arbitrary: s)
  case (Cons h hs)
  have "log_inv (snd (addHandler tn h s))" using Cons.prems
    by (simp add: addHandler_def Let_def log_inv_def builder_plain_def caches_plain_def top_ok_def loggers_ok_def)
  with Cons show ?case by simp
qed simp

lemma AddHandlerFactory_inv: "log_inv s \<Longrightarrow> log_inv (AddHandlerFactory fs s)"
  unfolding AddHandlerFactory_def
  by (induction fs arbitrary: s) (auto simp: addHandlerFactory_def log_inv_config split: option.splits)

lemma log_act_inv: "log_inv s \<Longrightarrow> log_action_ok x \<Longrightarrow> log_inv (log_act tn x s)"
proof (cases x)
  case (ARegTopHandler hs)
  moreover assume "log_inv s" "log_action_ok x"
  ultimately show ?thesis by (simp add: RegTopHandler_def log_inv_def builder_plain_def caches_plain_def top_ok_def loggers_ok_def)
qed (auto simp: GetSlogByName_inv AddHandlers_def AddHandler_inv AddHandlerFactorys_def AddHandlerFactory_inv AddMiddlewares_def WithProperties_def
  log_inv_config log_inv_props Build_inv)

lemma log_init_inv: "log_inv log_init"
proof -
  have e: "log_init = log_empty\<lparr>g_objects := [\<lparr>rh_name = const_topLoggerName, rh_handler = GoDefault, rh_replaced = False\<rparr>],
      b_namedLogger := [const_topLoggerName \<mapsto> Replaceable 0], g_topLogger := Some (Replaceable 0)\<rparr>"
    by (simp add: log_init_def GetSlogByName_def log_empty_def getNamedHandler_def resolveHandler.simps NewReplaceableHandler_def)
  show ?thesis unfolding e
    by (auto simp: log_empty_def log_inv_def builder_plain_def caches_plain_def top_ok_def loggers_ok_def object_ok_def split: if_splits)
qed

definition log_run :: "(handler \<Rightarrow> string) \<Rightarrow> log_action list \<Rightarrow> log_state" where
  "log_run tn xs = fold (log_act tn) xs log_init"

lemma log_run_inv: "list_all log_action_ok xs \<Longrightarrow> log_inv (log_run tn xs)"
proof -
  have "list_all log_action_ok xs \<Longrightarrow> log_inv s \<Longrightarrow> log_inv (fold (log_act tn) xs s)" for s
    by (induction xs arbitrary: s) (auto simp: log_act_inv)
  then show "list_all log_action_ok xs \<Longrightarrow> log_inv (log_run tn xs)" using log_init_inv by (simp add: log_run_def)
qed

lemma inv_handles:
  assumes "log_inv s"
  shows "\<exists>m d. \<forall>k\<ge>m. handle k L s GoDefault = Some d"
    and "a < length (g_objects s) \<Longrightarrow> \<exists>m b. \<forall>k\<ge>m. handle k L s (Replaceable a) = Some b"
proof -
  let ?o = "rh_handler (g_objects s ! 0)"
  have t: "top_ok s" "object_ok (g_logOutput s) 0 (g_objects s ! 0)" using assms by (auto simp: log_inv_def top_ok_def)
  have suc: "handle k L s (Replaceable b) = handle (k - 1) L s (rh_handler (g_objects s ! b))" if "1 \<le> k" for b k using that by (cases k) auto
  have def: "\<exists>m d. \<forall>k\<ge>m. handle k L s GoDefault = Some d"
  proof (cases "g_logOutput s")
    case None
    have "handle k L s GoDefault = Some (lib_console L)" if "1 \<le> k" for k using that None by (cases k) auto
    then show ?thesis by blast
  next
    case (Some h)
    then have h: "h = Replaceable 0" "plain ?o" using t by (auto simp: top_ok_def)
    have "handle k L s GoDefault = Some (denotes L (lib_console L) ?o)" if "size ?o + 3 \<le> k" for k
    proof -
      obtain k' where k: "k = Suc (Suc k')" "size ?o + 0 < k'" using \<open>size ?o + 3 \<le> k\<close> by (cases k; cases "k - 1") auto
      with Some h show ?thesis using handle_grounded [OF _ h(2) k(2), of L s "lib_console L"] by simp
    qed
    then show ?thesis by blast
  qed
  then obtain m d where d: "\<forall>k\<ge>m. handle k L s GoDefault = Some d" by blast
  show "\<exists>m d. \<forall>k\<ge>m. handle k L s GoDefault = Some d" by (rule def)
  have ground: "\<exists>m b. \<forall>k\<ge>m. handle k L s h = Some b" if "grounded True h" for h
    using handle_grounded [of True m L s d h] d that by (metis less_eq_Suc_le)
  have step: "\<exists>m b. \<forall>k\<ge>m. handle k L s (Replaceable c) = Some b" if ex: "\<exists>m b. \<forall>k\<ge>m. handle k L s (rh_handler (g_objects s ! c)) = Some b" for c
  proof -
    obtain m b where "\<forall>k\<ge>m. handle k L s (rh_handler (g_objects s ! c)) = Some b" using ex by blast
    then have "\<forall>k\<ge>Suc m. handle k L s (Replaceable c) = Some b" using suc by simp
    then show ?thesis by blast
  qed
  have zero: "\<exists>m b. \<forall>k\<ge>m. handle k L s (Replaceable 0) = Some b" using t(2) by (intro step ground) (simp add: object_ok_def)
  assume "a < length (g_objects s)"
  then have "object_ok (g_logOutput s) a (g_objects s ! a)" using assms by (simp add: log_inv_def)
  then consider "rh_handler (g_objects s ! a) = Replaceable 0" | "grounded True (rh_handler (g_objects s ! a))"
    by (auto simp: object_ok_def split: if_splits)
  then show "\<exists>m b. \<forall>k\<ge>m. handle k L s (Replaceable a) = Some b"
  proof cases
    case 1
    with zero show ?thesis by (intro step) simp
  next
    case 2
    then show ?thesis by (intro step ground)
  qed
qed

text \<open>C34: However a program asks for loggers, adds handlers of its own, factories and middlewares and builds the top logger, in any
  order: logging at any logger that was handed out, at the top logger and at the default logger of Go comes to an end. In
  particular the top logger never leads back to itself, not through the log package of Go either.\<close>

theorem logging_terminates:
  assumes "list_all log_action_ok xs" and "b_namedLogger (log_run tn xs) n = Some l \<or> g_topLogger (log_run tn xs) = Some l \<or> g_default (log_run tn xs) = l"
  shows "\<exists>m b. \<forall>k\<ge>m. handle k L (log_run tn xs) l = Some b"
proof -
  let ?s = "log_run tn xs"
  have inv: "log_inv ?s" by (rule log_run_inv [OF assms(1)])
  consider "l = GoDefault" | a where "l = Replaceable a" "a < length (g_objects ?s)" | "plain l"
    using assms(2) inv by (auto simp: log_inv_def top_ok_def loggers_ok_def)
  then show ?thesis
  proof cases
    case 3
    then show ?thesis using handle_grounded [of False 0 L ?s "lib_console L" l] by (metis add_0_right less_eq_Suc_le)
  qed (use inv_handles [OF inv] in blast)+
qed

text \<open>A library that records which handler got a record under which name, with one level middleware: records below the level of the name
  at which they entered are dropped.\<close>

definition trace_lib :: "(string \<times> string) list \<Rightarrow> int \<Rightarrow> (nat \<times> string option) list log_lib" where
  "trace_lib conf level = \<lparr>lib_leaf = (\<lambda>i st. [(i, st)]), lib_console = (\<lambda>st. [(0, st)]), lib_fanout = (\<lambda>hs st. concat (map (\<lambda>h. h st) hs)),
     lib_failover = (\<lambda>hs st. case hs of [] \<Rightarrow> [] | h # _ \<Rightarrow> h st), lib_async = (\<lambda>g h. h),
     lib_pipe = (\<lambda>mws h st. if level_Enable (Some conf) st level True then h st else [])\<rparr>"

definition demo_run :: "log_action list" where
  "demo_run = [AGetSlogByName ''orders'', AAddHandlers [Named ''console'' (Leaf 1)], AAddMiddlewares [7],
     AWithProperties (Some \<lparr>p_IsDefault = True, p_TopHandler = [''console'']\<rparr>), ABuild, AGetSlogByName ''billing'']"

lemma demo_loggers:
  "list_all log_action_ok demo_run"
  "b_namedLogger (log_run (\<lambda>_. ''?'') demo_run) ''orders'' = Some (Replaceable 1)"
  "b_namedLogger (log_run (\<lambda>_. ''?'') demo_run) ''billing'' = Some (Replaceable 2)"
  by code_simp+

theorem logging_terminates_witness:
  "\<exists>m b. \<forall>k\<ge>m. handle k (trace_lib [] 0) (log_run (\<lambda>_. ''?'') demo_run) (Replaceable 1) = Some b"
  using logging_terminates [OF demo_loggers(1), of "\<lambda>_. ''?''" "''orders''" "Replaceable 1"] demo_loggers(2) by blast

text \<open>The levels configured for a logger apply only if the logger was taken before the top logger was built. Two loggers without
  handlers of their own and with the same level, one taken before and one after: the first drops a record below the
  level, the second logs it, because its records enter at the handler of the top logger.\<close>

theorem late_logger_ignores_its_level:
  "map_option (\<lambda>b. b None) (handle 10 (trace_lib [(''orders'', ''ERROR''), (''billing'', ''ERROR'')] 0) (log_run (\<lambda>_. ''?'') demo_run) (Replaceable 1)) = Some []
    \<and> map_option (\<lambda>b. b None) (handle 10 (trace_lib [(''orders'', ''ERROR''), (''billing'', ''ERROR'')] 0) (log_run (\<lambda>_. ''?'') demo_run) (Replaceable 2))
      = Some [(1, Some ''agslog_top'')]"
  by (intro conjI; code_simp)

text \<open>In a circle of factories the handler of a name depends on which name of the circle was resolved first.\<close>

definition circle_logs :: log_state where
  "circle_logs = AddHandlerFactorys (NewFanoutHandlerFactorys (Some [(''a'', [''b'', ''console'']), (''b'', [''a'', ''file''])]))
     (AddHandlers (\<lambda>_. ''?'') [Named ''console'' (Leaf 1), Named ''file'' (Leaf 2)] log_init)"

lemma circle_depends_on_order:
  "fst (top_loop [''a''] [] circle_logs) = [Fanout [Fanout [Named ''file'' (Leaf 2)], Named ''console'' (Leaf 1)]]"
  "fst (top_loop [''a''] [] (snd (top_loop [''b''] [] circle_logs))) = [Fanout [Named ''console'' (Leaf 1)]]"
  by code_simp+

end
