(* ===== verification/Metadata.thy ===== *)
theory Metadata
  imports Prelude
begin

text \<open>
  Metadata of a call, \<open>ag/ag_common/agmetadata/metadata.go\<close>: a map that lives behind a pointer in the context, and its way
  from a client to a server through the headers of Hertz (\<open>contribute/aghertz/metadata\<close>) and of gRPC (\<open>contribute/agkitex/metadata\<close>).
\<close>

section \<open>Metadata and contexts\<close>

type_synonym MD = "string \<rightharpoonup> string"

text \<open>The wrappers by their address. Of a context only its wrapper matters, if it has one.\<close>

record md_state =
  md_wrappers :: "MD list"
  md_mdKeys :: "string list"
  md_keysCache :: "string list"

type_synonym md_ctx = "nat option"

definition md_init :: md_state where
  "md_init = \<lparr>md_wrappers = [], md_mdKeys = [], md_keysCache = []\<rparr>"

definition New :: "MD \<Rightarrow> MD" where
  "New m = m"

datatype md_error = OddPairs nat

fun pairs_loop :: "string list \<Rightarrow> MD \<Rightarrow> MD" where
  "pairs_loop (k # v # kv) md = pairs_loop kv (md(k \<mapsto> v))"
| "pairs_loop _ md = md"

definition Pairs :: "string list \<Rightarrow> md_error + MD" where
  "Pairs kv = (if length kv mod 2 = 1 then Inl (OddPairs (length kv)) else Inr (pairs_loop kv (\<lambda>_. None)))"

definition md_Get :: "MD \<Rightarrow> string \<Rightarrow> string" where
  "md_Get md k = (case md k of None \<Rightarrow> [] | Some v \<Rightarrow> v)"

definition md_Set :: "string \<Rightarrow> string \<Rightarrow> MD \<Rightarrow> MD" where
  "md_Set k val md = (if val = [] then md else md(k \<mapsto> val))"

definition AppendMD :: "MD \<Rightarrow> MD \<Rightarrow> MD" where
  "AppendMD md other = md ++ other"

text \<open>A context with a wrapper is returned as it is, and the wrapper, which others may share, is changed.\<close>

definition AppendMdToContext :: "md_ctx \<Rightarrow> MD \<Rightarrow> md_state \<Rightarrow> md_ctx \<times> md_state" where
  "AppendMdToContext ctx newmd s = (case ctx of
      Some a \<Rightarrow> (ctx, s\<lparr>md_wrappers := (md_wrappers s)[a := md_wrappers s ! a ++ newmd]\<rparr>)
    | None \<Rightarrow> (Some (length (md_wrappers s)), s\<lparr>md_wrappers := md_wrappers s @ [Map.empty ++ newmd]\<rparr>))"

definition GetMdFromContext :: "md_ctx \<Rightarrow> md_state \<Rightarrow> MD" where
  "GetMdFromContext ctx s = (case ctx of Some a \<Rightarrow> md_wrappers s ! a | None \<Rightarrow> Map.empty)"

definition GetValueFromContext :: "md_ctx \<Rightarrow> string \<Rightarrow> md_state \<Rightarrow> string \<times> bool" where
  "GetValueFromContext ctx key s = (case ctx of
      Some a \<Rightarrow> (case (md_wrappers s ! a) key of Some v \<Rightarrow> (v, True) | None \<Rightarrow> ([], False))
    | None \<Rightarrow> ([], False))"

text \<open>\<open>iter\<close> is the order in which the iteration over the map gives the keys.\<close>

definition RegMdKey :: "(string list \<Rightarrow> string list) \<Rightarrow> string \<Rightarrow> md_state \<Rightarrow> md_state" where
  "RegMdKey iter key s = (if key \<in> set (md_mdKeys s) then s
     else s\<lparr>md_mdKeys := key # md_mdKeys s, md_keysCache := iter (key # md_mdKeys s)\<rparr>)"

definition GetMdKeys :: "md_state \<Rightarrow> string list" where
  "GetMdKeys s = md_keysCache s"

fun parse_loop :: "(string \<Rightarrow> string list option) \<Rightarrow> string list \<Rightarrow> MD \<Rightarrow> md_error + MD" where
  "parse_loop parse [] newmd = Inr newmd"
| "parse_loop parse (k # ks) newmd = (case parse k of
      None \<Rightarrow> parse_loop parse ks newmd
    | Some [] \<Rightarrow> parse_loop parse ks newmd
    | Some [v] \<Rightarrow> parse_loop parse ks (newmd(k \<mapsto> v))
    | Some vv \<Rightarrow> (case Pairs vv of Inl e \<Rightarrow> Inl e | Inr tmd \<Rightarrow> parse_loop parse ks (AppendMD newmd tmd)))"

definition ParseMdToContext :: "md_ctx \<Rightarrow> (string \<Rightarrow> string list option) \<Rightarrow> md_state \<Rightarrow> (md_error + md_ctx) \<times> md_state" where
  "ParseMdToContext ctx parse s = (case parse_loop parse (GetMdKeys s) (\<lambda>_. None) of
      Inl e \<Rightarrow> (Inl e, s)
    | Inr newmd \<Rightarrow> (case AppendMdToContext ctx newmd s of (rctx, s1) \<Rightarrow> (Inr rctx, s1)))"

text \<open>\<open>entries\<close> lists the entries of the map in the order of the iteration.\<close>

definition HandlerMdFromContext :: "(MD \<Rightarrow> (string \<times> string) list) \<Rightarrow> md_ctx \<Rightarrow> (string \<Rightarrow> string \<Rightarrow> 'w \<Rightarrow> 'w) \<Rightarrow> md_state \<Rightarrow> 'w \<Rightarrow> 'w" where
  "HandlerMdFromContext entries ctx handler s w = fold (\<lambda>(k, v). handler k v) (entries (GetMdFromContext ctx s)) w"

section \<open>Headers\<close>

text \<open>The headers of Hertz are a parameter: \<open>set_header\<close> is \<open>Header.Set\<close> and \<open>get_header\<close> is \<open>GetHeader\<close>, empty for a header that is not
  there. The client middleware calls the next endpoint with the context and the request.\<close>

definition HertzClientHeadMiddleware ::
  "(MD \<Rightarrow> (string \<times> string) list) \<Rightarrow> ('h \<Rightarrow> string \<Rightarrow> string \<Rightarrow> 'h) \<Rightarrow> (md_ctx \<Rightarrow> 'h \<Rightarrow> 'r) \<Rightarrow> md_ctx \<Rightarrow> 'h \<Rightarrow> md_state \<Rightarrow> 'r" where
  "HertzClientHeadMiddleware entries set_header endpoint ctx req s =
     endpoint ctx (HandlerMdFromContext entries ctx (\<lambda>k v h. set_header h k v) s req)"

text \<open>The server middleware goes on with the new context; after an error it does not.\<close>

definition HertzServerHeadMiddleware :: "('h \<Rightarrow> string \<Rightarrow> string) \<Rightarrow> md_ctx \<Rightarrow> 'h \<Rightarrow> md_state \<Rightarrow> md_ctx option \<times> md_state" where
  "HertzServerHeadMiddleware get_header ctx r s =
     (case ParseMdToContext ctx (\<lambda>key. let tmph = get_header r key in if tmph = [] then None else Some [tmph]) s of
        (Inl e, s1) \<Rightarrow> (None, s1)
      | (Inr rctx, s1) \<Rightarrow> (Some rctx, s1))"

text \<open>The metadata of gRPC: \<open>append_md\<close> is \<open>AppendToOutgoingContext\<close> and \<open>get_md\<close> is \<open>MD.Get\<close>; the flag tells whether the call is one of gRPC,
  and a context without incoming metadata has \<open>None\<close>.\<close>

definition kitex_OnConnectStream ::
  "(MD \<Rightarrow> (string \<times> string) list) \<Rightarrow> ('g \<Rightarrow> string list \<Rightarrow> 'g) \<Rightarrow> bool \<Rightarrow> md_ctx \<Rightarrow> 'g \<Rightarrow> md_state \<Rightarrow> 'g" where
  "kitex_OnConnectStream entries append_md isGRPC ctx out s =
     (if \<not> isGRPC then out
      else (let kmd = HandlerMdFromContext entries ctx (\<lambda>k v kmd. kmd @ [k, v]) s [] in
        if kmd = [] then out else append_md out kmd))"

definition kitex_OnReadStream :: "('g \<Rightarrow> string \<Rightarrow> string list) \<Rightarrow> bool \<Rightarrow> md_ctx \<Rightarrow> 'g option \<Rightarrow> md_state \<Rightarrow> (md_error + md_ctx) \<times> md_state" where
  "kitex_OnReadStream get_md isGRPC ctx incoming s =
     (if \<not> isGRPC then (Inr ctx, s)
      else (case incoming of
          None \<Rightarrow> (Inr ctx, s)
        | Some md \<Rightarrow> ParseMdToContext ctx (\<lambda>key. case get_md md key of [] \<Rightarrow> None | v # _ \<Rightarrow> Some [v]) s))"

section \<open>Keys\<close>

definition keys_ok :: "md_state \<Rightarrow> bool" where
  "keys_ok s \<longleftrightarrow> distinct (md_mdKeys s) \<and> set (md_keysCache s) = set (md_mdKeys s)"

lemma RegMdKey_ok:
  assumes "keys_ok s" and "\<And>ks. set (iter ks) = set ks"
  shows "keys_ok (RegMdKey iter key s)" "set (GetMdKeys (RegMdKey iter key s)) = insert key (set (GetMdKeys s))"
  using assms by (auto simp: keys_ok_def RegMdKey_def GetMdKeys_def)

section \<open>Pairs\<close>

definition unpairs :: "(string \<times> string) list \<Rightarrow> string list" where
  "unpairs kvs = concat (map (\<lambda>(k, v). [k, v]) kvs)"

text \<open>\<open>Pairs\<close> reads a list of keys and values as the map in which the last value of a key counts, and refuses exactly the lists
  of odd length.\<close>

theorem Pairs_reads_pairs:
  "Pairs (unpairs kvs) = Inr (map_of (rev kvs)) \<and> (Pairs kv = Inl (OddPairs (length kv)) \<longleftrightarrow> odd (length kv))"
proof -
  have "pairs_loop (unpairs kvs) md = md ++ map_of (rev kvs)" for md
    by (induction kvs arbitrary: md) (auto simp: unpairs_def map_add_def fun_eq_iff split: option.splits)
  moreover have "length (unpairs kvs) mod 2 = 0" by (induction kvs) (auto simp: unpairs_def)
  ultimately show ?thesis by (simp add: Pairs_def odd_iff_mod_2_eq_one)
qed

section \<open>From the client to the server\<close>

lemma parse_loop_single:
  "(\<And>k. k \<in> set ks \<Longrightarrow> parse k = None \<or> (\<exists>v. parse k = Some [v])) \<Longrightarrow>
    parse_loop parse ks md = Inr (\<lambda>k. if k \<in> set ks \<and> parse k \<noteq> None then Some (hd (the (parse k))) else md k)"
proof (induction ks arbitrary: md)
  case (Cons k ks)
  from Cons.prems [of k] consider "parse k = None" | v where "parse k = Some [v]" by auto
  then show ?case
  proof cases
    case 1
    with Cons show ?thesis by (auto intro!: ext)
  next
    case (2 v)
    with Cons show ?thesis by (auto intro!: ext)
  qed
qed simp

lemma ParseMdToContext_single:
  assumes "\<And>k. k \<in> set (GetMdKeys s) \<Longrightarrow> parse k = None \<or> (\<exists>v. parse k = Some [v])"
  shows "\<exists>c s1. ParseMdToContext None parse s = (Inr c, s1)
    \<and> GetMdFromContext c s1 = (\<lambda>k. if k \<in> set (GetMdKeys s) \<and> parse k \<noteq> None then Some (hd (the (parse k))) else None)"
  using parse_loop_single [of "GetMdKeys s" parse "\<lambda>_. None"] assms
  by (auto simp: ParseMdToContext_def AppendMdToContext_def GetMdFromContext_def map_add_def intro!: ext split: option.splits)

text \<open>A list of the entries of a map.\<close>

definition lists_entries :: "(MD \<Rightarrow> (string \<times> string) list) \<Rightarrow> MD \<Rightarrow> bool" where
  "lists_entries entries m \<longleftrightarrow> distinct (map fst (entries m)) \<and> map_of (entries m) = m"

lemma set_headers:
  assumes "\<And>h k v k'. v \<in> snd ` set kvs \<Longrightarrow> get_header (set_header h k v) k' = (if norm k' = norm k then v else get_header h k')"
    and "distinct (map fst kvs)" and "inj_on norm (insert k (fst ` set kvs))"
  shows "get_header (fold (\<lambda>(k, v) h. set_header h k v) kvs h) k = (case map_of kvs k of Some v \<Rightarrow> v | None \<Rightarrow> get_header h k)"
  using assms
proof (induction kvs arbitrary: h)
  case (Cons kv kvs)
  obtain k1 v1 where kv: "kv = (k1, v1)" by force
  have "inj_on norm (insert k (fst ` set kvs))" using Cons.prems(3) by (rule inj_on_subset) auto
  then have IH: "get_header (fold (\<lambda>(k, v) h. set_header h k v) kvs (set_header h k1 v1)) k
      = (case map_of kvs k of Some v \<Rightarrow> v | None \<Rightarrow> get_header (set_header h k1 v1) k)"
    using Cons.prems by (intro Cons.IH) auto
  have "norm k = norm k1 \<longleftrightarrow> k = k1" using Cons.prems(3) by (auto simp: kv inj_on_def)
  moreover have "map_of kvs k1 = None" using Cons.prems(2) by (simp add: kv map_of_eq_None_iff)
  ultimately show ?case using IH Cons.prems(1) [of v1 h k1 k] by (auto simp: kv split: option.splits)
qed simp

text \<open>C37: The metadata of a client reaches a Hertz server: whatever the order of the iteration, the metadata of the server's context is that of
  the client's context, restricted to the keys the server has registered and to values that are not empty, provided that the
  names of the headers do not collide.\<close>

theorem metadata_travels_by_hertz:
  fixes norm :: "string \<Rightarrow> 'k"
  assumes law: "\<And>h k v k'. v \<in> ran m \<Longrightarrow> get_header (set_header h k v) k' = (if norm k' = norm k then v else get_header h k')"
    and "lists_entries entries m" and "GetMdFromContext ctx client = m" and "inj_on norm (dom m \<union> set (GetMdKeys server))" and "\<And>k. get_header req k = []"
  shows "\<exists>c s. HertzServerHeadMiddleware get_header None (HertzClientHeadMiddleware entries set_header (\<lambda>_ h. h) ctx req client) server = (Some c, s)
    \<and> GetMdFromContext c s = (\<lambda>k. if k \<in> set (GetMdKeys server) \<and> m k \<noteq> Some [] then m k else None)"
proof -
  let ?h = "HertzClientHeadMiddleware entries set_header (\<lambda>_ h. h) ctx req client"
  let ?parse = "\<lambda>key. let tmph = get_header ?h key in if tmph = [] then None else Some [tmph]"
  have dom: "fst ` set (entries m) = dom m" "snd ` set (entries m) = ran m" "distinct (map fst (entries m))" "map_of (entries m) = m"
    using assms(2) unfolding lists_entries_def by (metis dom_map_of_conv_image_fst, metis ran_distinct, simp, simp)
  have get: "get_header ?h k = (case m k of Some v \<Rightarrow> v | None \<Rightarrow> [])" if "k \<in> set (GetMdKeys server)" for k
  proof -
    have "inj_on norm (insert k (fst ` set (entries m)))" using assms(4) that dom(1) by (elim inj_on_subset) auto
    from set_headers [OF _ dom(3) this, of get_header set_header req] law dom(2,4) assms(3,5)
    show ?thesis by (simp add: HertzClientHeadMiddleware_def HandlerMdFromContext_def split: option.split)
  qed
  have "?parse k = None \<or> (\<exists>v. ?parse k = Some [v])" for k by (simp add: Let_def)
  from ParseMdToContext_single [of server ?parse, OF this] obtain c s where
    p: "ParseMdToContext None ?parse server = (Inr c, s)"
    and md: "GetMdFromContext c s = (\<lambda>k. if k \<in> set (GetMdKeys server) \<and> ?parse k \<noteq> None then Some (hd (the (?parse k))) else None)" by blast
  have "GetMdFromContext c s k = (if k \<in> set (GetMdKeys server) \<and> m k \<noteq> Some [] then m k else None)" for k
    unfolding md using get [of k] by (cases "m k") (auto simp: Let_def)
  with p show ?thesis by (auto simp: HertzServerHeadMiddleware_def intro!: ext)
qed

definition demo_headers :: "(string \<times> string) list \<Rightarrow> string \<Rightarrow> string \<Rightarrow> (string \<times> string) list" where
  "demo_headers h k v = (k, v) # h"

definition demo_get :: "(string \<times> string) list \<Rightarrow> string \<Rightarrow> string" where
  "demo_get h k = (case map_of h k of None \<Rightarrow> [] | Some v \<Rightarrow> v)"

theorem metadata_travels_by_hertz_witness:
  "\<exists>c s. HertzServerHeadMiddleware demo_get None
      (HertzClientHeadMiddleware (\<lambda>_. [(''trace'', ''42''), (''user'', ''ann'')]) demo_headers (\<lambda>_ h. h) (Some 0) []
        (snd (AppendMdToContext None [''user'' \<mapsto> ''ann'', ''trace'' \<mapsto> ''42''] md_init)))
      (RegMdKey (\<lambda>ks. ks) ''trace'' md_init) = (Some c, s)
    \<and> GetMdFromContext c s = (\<lambda>k. if k \<in> set (GetMdKeys (RegMdKey (\<lambda>ks. ks) ''trace'' md_init)) \<and> [''user'' \<mapsto> ''ann'', ''trace'' \<mapsto> ''42''] k \<noteq> Some []
        then [''user'' \<mapsto> ''ann'', ''trace'' \<mapsto> ''42''] k else None)"
proof (rule metadata_travels_by_hertz [where norm = id])
  show "demo_get (demo_headers h k v) k' = (if id k' = id k then v else demo_get h k')" for h k v k'
    by (simp add: demo_get_def demo_headers_def)
  show "lists_entries (\<lambda>_. [(''trace'', ''42''), (''user'', ''ann'')]) [''user'' \<mapsto> ''ann'', ''trace'' \<mapsto> ''42'']"
    by (auto simp: lists_entries_def fun_eq_iff)
  show "GetMdFromContext (Some 0) (snd (AppendMdToContext None [''user'' \<mapsto> ''ann'', ''trace'' \<mapsto> ''42''] md_init)) = [''user'' \<mapsto> ''ann'', ''trace'' \<mapsto> ''42'']"
    by (simp add: GetMdFromContext_def AppendMdToContext_def md_init_def)
qed (simp_all add: demo_get_def)

text \<open>The same for gRPC: the metadata of the server's context is that of the client's context restricted to the keys the server has
  registered, here with the empty values, too; calls of another protocol carry none.\<close>

theorem metadata_travels_by_grpc:
  fixes norm :: "string \<Rightarrow> 'k"
  assumes law: "\<And>g kvs k. get_md (append_md g (unpairs kvs)) k = get_md g k @ map snd (filter (\<lambda>(k', _). norm k' = norm k) kvs)"
    and "lists_entries entries m" and "GetMdFromContext ctx client = m" and "inj_on norm (dom m \<union> set (GetMdKeys server))" and "\<And>k. get_md out k = []"
  shows "\<exists>c s. kitex_OnReadStream get_md True None (Some (kitex_OnConnectStream entries append_md True ctx out client)) server = (Inr c, s)
    \<and> GetMdFromContext c s = m |` set (GetMdKeys server)"
proof -
  let ?g = "kitex_OnConnectStream entries append_md True ctx out client"
  let ?parse = "\<lambda>key. case get_md ?g key of [] \<Rightarrow> None | v # _ \<Rightarrow> Some [v]"
  have dom: "fst ` set (entries m) = dom m" "distinct (map fst (entries m))" "map_of (entries m) = m"
    using assms(2) unfolding lists_entries_def by (metis dom_map_of_conv_image_fst, simp, simp)
  have "fold (\<lambda>(k, v) kmd. kmd @ [k, v]) kvs acc = acc @ unpairs kvs" for kvs acc
    by (induction kvs arbitrary: acc) (auto simp: unpairs_def)
  then have g: "?g = (if unpairs (entries m) = [] then out else append_md out (unpairs (entries m)))"
    using assms(3) by (simp add: kitex_OnConnectStream_def HandlerMdFromContext_def)
  have "unpairs (entries m) = [] \<longleftrightarrow> entries m = []" by (cases "entries m") (auto simp: unpairs_def)
  then have get: "get_md ?g k = map snd (filter (\<lambda>(k', _). norm k' = norm k) (entries m))" for k using law assms(5) by (simp add: g)
  have one: "map snd (filter (\<lambda>(k', _). k' = k) kvs) = (case map_of kvs k of None \<Rightarrow> [] | Some v \<Rightarrow> [v])" if "distinct (map fst kvs)" for kvs :: "(string \<times> string) list" and k
    using that by (induction kvs) (auto simp: filter_empty_conv map_of_eq_None_iff rev_image_eqI split: option.splits)
  have sel: "get_md ?g k = (case m k of None \<Rightarrow> [] | Some v \<Rightarrow> [v])" if "k \<in> set (GetMdKeys server)" for k
  proof -
    have "a \<in> dom m" if "(a, b) \<in> set (entries m)" for a b using that dom(1) by (metis fst_conv image_eqI)
    then have "filter (\<lambda>(k', _). norm k' = norm k) (entries m) = filter (\<lambda>(k', _). k' = k) (entries m)"
      using inj_onD [OF assms(4)] that by (intro filter_cong) auto
    with get [of k] one [OF dom(2), of k] dom(3) show ?thesis by simp
  qed
  have "?parse k = None \<or> (\<exists>v. ?parse k = Some [v])" for k by (simp split: list.split)
  from ParseMdToContext_single [of server ?parse, OF this] obtain c s where
    p: "ParseMdToContext None ?parse server = (Inr c, s)"
    and md: "GetMdFromContext c s = (\<lambda>k. if k \<in> set (GetMdKeys server) \<and> ?parse k \<noteq> None then Some (hd (the (?parse k))) else None)" by blast
  have "GetMdFromContext c s k = (m |` set (GetMdKeys server)) k" for k
    unfolding md using sel [of k] by (cases "m k") (auto simp: restrict_map_def)
  with p show ?thesis by (auto simp: kitex_OnReadStream_def intro!: ext)
qed

definition demo_append :: "(string \<times> string) list \<Rightarrow> string list \<Rightarrow> (string \<times> string) list" where
  "demo_append g kv = g @ map (\<lambda>i. (kv ! (2 * i), kv ! (2 * i + 1))) [0..<length kv div 2]"

definition demo_values :: "(string \<times> string) list \<Rightarrow> string \<Rightarrow> string list" where
  "demo_values g k = map snd (filter (\<lambda>(k', _). k' = k) g)"

lemma demo_append_unpairs: "demo_append g (unpairs kvs) = g @ kvs"
proof -
  have "map (\<lambda>i. (unpairs kvs ! (2 * i), unpairs kvs ! (2 * i + 1))) [0..<length (unpairs kvs) div 2] = kvs"
  proof (induction kvs)
    case (Cons kv kvs)
    obtain k v where kv: "kv = (k, v)" by force
    have "[0..<length (unpairs (kv # kvs)) div 2] = 0 # map Suc [0..<length (unpairs kvs) div 2]"
      by (simp add: unpairs_def kv map_Suc_upt upt_conv_Cons del: upt_Suc)
    with Cons show ?case by (simp add: unpairs_def kv o_def)
  qed (simp add: unpairs_def)
  then show ?thesis by (simp add: demo_append_def)
qed

theorem metadata_travels_by_grpc_witness:
  "\<exists>c s. kitex_OnReadStream demo_values True None (Some (kitex_OnConnectStream (\<lambda>_. [(''trace'', ''42''), (''user'', [])]) demo_append True (Some 0) []
        (snd (AppendMdToContext None [''user'' \<mapsto> [], ''trace'' \<mapsto> ''42''] md_init)))) (RegMdKey (\<lambda>ks. ks) ''user'' md_init) = (Inr c, s)
    \<and> GetMdFromContext c s = [''user'' \<mapsto> [], ''trace'' \<mapsto> ''42''] |` set (GetMdKeys (RegMdKey (\<lambda>ks. ks) ''user'' md_init))"
proof (rule metadata_travels_by_grpc [where norm = id])
  show "demo_values (demo_append g (unpairs kvs)) k = demo_values g k @ map snd (filter (\<lambda>(k', _). id k' = id k) kvs)" for g kvs k
    by (simp add: demo_append_unpairs demo_values_def)
  show "lists_entries (\<lambda>_. [(''trace'', ''42''), (''user'', [])]) [''user'' \<mapsto> [], ''trace'' \<mapsto> ''42'']"
    by (auto simp: lists_entries_def fun_eq_iff)
  show "GetMdFromContext (Some 0) (snd (AppendMdToContext None [''user'' \<mapsto> [], ''trace'' \<mapsto> ''42''] md_init)) = [''user'' \<mapsto> [], ''trace'' \<mapsto> ''42'']"
    by (simp add: GetMdFromContext_def AppendMdToContext_def md_init_def)
qed (simp_all add: demo_values_def)

text \<open>A context that has metadata is not copied: what one holder of it appends is seen by all, by the caller of a call as well.\<close>

lemma append_is_shared:
  "a < length (md_wrappers s) \<Longrightarrow> fst (AppendMdToContext (Some a) m s) = Some a
    \<and> GetMdFromContext (Some a) (snd (AppendMdToContext (Some a) m s)) = GetMdFromContext (Some a) s ++ m"
  by (simp add: AppendMdToContext_def GetMdFromContext_def)

end
