(* ===== verification/WhereParser.thy ===== *)
theory WhereParser
  imports Prelude
begin

text \<open>
  The parser of WHERE conditions of the database code generator, \<open>tool/cmd/gen-go-db/excel/parser_where.go\<close>: a lexer over the runes
  of a text and a recursive descent parser over its tokens.
\<close>

section \<open>Lexer\<close>

type_synonym runes = "nat list"

definition lit :: "string \<Rightarrow> runes" where
  "lit s = map of_char s"

datatype TokenType = TokenTypeExpr | TokenTypeAND | TokenTypeOR | TokenTypeIN | TokenTypeNOTIN | TokenTypeLParen | TokenTypeRParen

record Token =
  tk_Type :: TokenType
  tk_Value :: runes
  tk_Pos :: nat

text \<open>\<open>strings.ToUpper\<close> on one rune, as far as its result can be a letter of a keyword: the ASCII letters, U+0131 with upper case \<open>I\<close> and
  U+017F with \<open>S\<close>.\<close>

definition upper_rune :: "nat \<Rightarrow> nat" where
  "upper_rune c = (if 97 \<le> c \<and> c \<le> 122 then c - 32 else if c = 0x131 then 73 else if c = 0x17F then 83 else c)"

definition kw_at :: "string \<Rightarrow> runes \<Rightarrow> nat \<Rightarrow> bool" where
  "kw_at w rs i \<longleftrightarrow> i + length w \<le> length rs \<and> map upper_rune (take (length w) (drop i rs)) = lit w"

text \<open>Space, tab and a closing parenthesis before a keyword; space, tab and an opening one behind it.\<close>

definition prevIsBoundary :: "runes \<Rightarrow> nat \<Rightarrow> bool" where
  "prevIsBoundary rs i \<longleftrightarrow> i = 0 \<or> rs ! (i - 1) \<in> {32, 9, 41}"

definition nextIsBoundary :: "runes \<Rightarrow> nat \<Rightarrow> bool" where
  "nextIsBoundary rs j \<longleftrightarrow> j = length rs \<or> rs ! j \<in> {32, 9, 40}"

definition op_at :: "string \<Rightarrow> runes \<Rightarrow> nat \<Rightarrow> bool" where
  "op_at w rs i \<longleftrightarrow> kw_at w rs i \<and> prevIsBoundary rs i \<and> nextIsBoundary rs (i + length w)"

definition between_at :: "runes \<Rightarrow> nat \<Rightarrow> bool" where
  "between_at rs i \<longleftrightarrow> kw_at ''BETWEEN'' rs i \<and> prevIsBoundary rs i \<and> (i + 7 = length rs \<or> rs ! (i + 7) \<in> {32, 9})"

function skip_blanks :: "runes \<Rightarrow> nat \<Rightarrow> nat" where
  "skip_blanks rs i = (if i < length rs \<and> rs ! i \<in> {32, 9, 44} then skip_blanks rs (i + 1) else i)"
  by pat_completeness auto
termination
  by (relation "measure (\<lambda>(rs, i). length rs - i)") auto

text \<open>The loop over the runes of an expression with its four variables; it gives the position at which it ends.\<close>

function expr_loop :: "runes \<Rightarrow> nat \<Rightarrow> bool \<Rightarrow> bool \<Rightarrow> nat \<Rightarrow> bool \<Rightarrow> nat" where
  "expr_loop rs i inBetween inIn inInDepth inInOpened =
     (if length rs \<le> i then i
      else if between_at rs i then expr_loop rs (i + 7) True inIn inInDepth inInOpened
      else if op_at ''IN'' rs i then expr_loop rs (i + 2) inBetween True inInDepth inInOpened
      else if op_at ''NOT IN'' rs i then expr_loop rs (i + 6) inBetween True inInDepth inInOpened
      else if op_at ''AND'' rs i \<and> inBetween then expr_loop rs (i + 3) False inIn inInDepth inInOpened
      else if op_at ''AND'' rs i then (if inIn then expr_loop rs (i + 3) inBetween inIn inInDepth inInOpened else i)
      else if op_at ''OR'' rs i then (if inIn then expr_loop rs (i + 2) inBetween inIn inInDepth inInOpened else i)
      else if rs ! i = 40 then
        (if inIn
         then (if inInOpened then expr_loop rs (i + 1) inBetween inIn (inInDepth + 1) inInOpened
               else expr_loop rs (i + 1) inBetween inIn inInDepth True)
         else i)
      else if rs ! i = 41 then
        (if inIn then (if inInDepth = 0 then i + 1 else expr_loop rs (i + 1) inBetween inIn (inInDepth - 1) inInOpened) else i)
      else expr_loop rs (i + 1) inBetween inIn inInDepth inInOpened)"
  by pat_completeness auto
termination
  by (relation "measure (\<lambda>(rs, i, _). length rs - i)") auto

declare skip_blanks.simps [simp del] expr_loop.simps [simp del]

text \<open>\<open>strings.TrimSpace\<close>: the runes with the property White Space.\<close>

definition is_space :: "nat \<Rightarrow> bool" where
  "is_space c \<longleftrightarrow> c \<in> {9, 10, 11, 12, 13, 32, 0x85, 0xA0, 0x1680, 0x2028, 0x2029, 0x202F, 0x205F, 0x3000} \<or> 0x2000 \<le> c \<and> c \<le> 0x200A"

definition TrimSpace :: "runes \<Rightarrow> runes" where
  "TrimSpace s = rev (dropWhile is_space (rev (dropWhile is_space s)))"

definition NextToken :: "runes \<Rightarrow> nat \<Rightarrow> Token option \<times> nat" where
  "NextToken rs startPos = (let i = skip_blanks rs startPos in
     if length rs \<le> i then (None, i)
     else if rs ! i = 40 then (Some \<lparr>tk_Type = TokenTypeLParen, tk_Value = lit ''('', tk_Pos = startPos\<rparr>, i + 1)
     else if rs ! i = 41 then (Some \<lparr>tk_Type = TokenTypeRParen, tk_Value = lit '')'', tk_Pos = startPos\<rparr>, i + 1)
     else if op_at ''AND'' rs i then (Some \<lparr>tk_Type = TokenTypeAND, tk_Value = lit ''AND'', tk_Pos = startPos\<rparr>, i + 3)
     else if op_at ''OR'' rs i then (Some \<lparr>tk_Type = TokenTypeOR, tk_Value = lit ''OR'', tk_Pos = startPos\<rparr>, i + 2)
     else if op_at ''NOT IN'' rs i then (Some \<lparr>tk_Type = TokenTypeNOTIN, tk_Value = lit ''NOT IN'', tk_Pos = startPos\<rparr>, i + 6)
     else if op_at ''IN'' rs i then (Some \<lparr>tk_Type = TokenTypeIN, tk_Value = lit ''IN'', tk_Pos = startPos\<rparr>, i + 2)
     else (let j = expr_loop rs i False False 0 False in
       (Some \<lparr>tk_Type = TokenTypeExpr, tk_Value = TrimSpace (take (j - i) (drop i rs)), tk_Pos = startPos\<rparr>, j)))"

section \<open>The lexer makes progress\<close>

lemma skip_blanks_le: "i \<le> skip_blanks rs i"
  by (induction rs i rule: skip_blanks.induct) (subst skip_blanks.simps, auto)

lemma expr_loop_le: "i \<le> expr_loop rs i b n d p"
proof (induction "length rs - i" arbitrary: i b n d p rule: less_induct)
  case less
  have IH: "i \<le> expr_loop rs (i + k) b n d p" if "0 < k" "i < length rs" for k b n d p
    using less [of "i + k" b n d p] that by (meson add_leD1 diff_less_mono2 less_add_same_cancel1)
  show ?case by (subst expr_loop.simps) (simp add: IH IH [of 1, simplified] IH [of 2, simplified])
qed

text \<open>An expression has a rune: what ends it at its first position would have been another token.\<close>

lemma expr_loop_less:
  assumes "i < length rs" and "\<not> op_at ''AND'' rs i" and "\<not> op_at ''OR'' rs i" and "rs ! i \<noteq> 40" and "rs ! i \<noteq> 41"
  shows "i < expr_loop rs i False False 0 False"
proof -
  have gt: "i < expr_loop rs (i + k) b n d p" if "0 < k" for k b n d p using expr_loop_le [of "i + k" rs b n d p] that by linarith
  show ?thesis using assms by (subst expr_loop.simps) (simp add: gt gt [of 1, simplified] gt [of 2, simplified])
qed

lemma NextToken_less: "NextToken rs i = (Some t, j) \<Longrightarrow> i < j \<and> i < length rs"
  using skip_blanks_le [of i rs] expr_loop_less [of "skip_blanks rs i" rs]
  by (auto simp: NextToken_def Let_def split: if_splits)

section \<open>Parser\<close>

text \<open>The stream of tokens that the calls of \<open>NextToken\<close> give; the parser's current token is its head.\<close>

function tokens :: "runes \<Rightarrow> nat \<Rightarrow> Token list" where
  "tokens rs i = (case NextToken rs i of (Some t, j) \<Rightarrow> t # tokens rs j | (None, j) \<Rightarrow> [])"
  by pat_completeness auto
termination
  by (relation "measure (\<lambda>(rs, i). length rs - i)") (auto dest!: NextToken_less [OF sym])

declare tokens.simps [simp del]

text \<open>A condition has an operator with conditions, or an expression.\<close>

datatype Condition = Condition (cd_Operator: runes) (cd_Conditions: "Condition list") (cd_Expr: runes)

type_synonym excel_WhereClause = "runes \<times> Condition list"

function (sequential) parseExpression :: "Token list \<Rightarrow> excel_WhereClause \<times> Token list"
  and parse_ops :: "runes \<Rightarrow> Condition list \<Rightarrow> Token list \<Rightarrow> excel_WhereClause \<times> Token list"
  and parseCondition :: "Token list \<Rightarrow> Condition option \<times> Token list" where
  "parseExpression ts = (case parseCondition ts of (c, ts1) \<Rightarrow> parse_ops (lit ''AND'') (case c of None \<Rightarrow> [] | Some c \<Rightarrow> [c]) ts1)"
| "parse_ops oper cs [] = ((oper, cs), [])"
| "parse_ops oper cs (t # ts) =
     (if tk_Type t = TokenTypeAND \<or> tk_Type t = TokenTypeOR
      then (case parseCondition ts of (c, ts1) \<Rightarrow> parse_ops (tk_Value t) (cs @ (case c of None \<Rightarrow> [] | Some c \<Rightarrow> [c])) ts1)
      else ((oper, cs), t # ts))"
| "parseCondition [] = (None, [])"
| "parseCondition (t # ts) =
     (if tk_Type t = TokenTypeLParen
      then (case parseExpression ts of ((oper, cs), ts1) \<Rightarrow>
        (Some (Condition oper cs []), case ts1 of t1 # ts2 \<Rightarrow> if tk_Type t1 = TokenTypeRParen then ts2 else ts1 | [] \<Rightarrow> []))
      else if tk_Type t = TokenTypeExpr then (Some (Condition [] [] (tk_Value t)), ts)
      else (None, t # ts))"
  by pat_completeness auto

text \<open>None of the three gives back more tokens than it got.\<close>

termination
proof -
  have shrinks: "parseExpression_parse_ops_parseCondition_dom (Inl ts) \<Longrightarrow> length (snd (parseExpression ts)) \<le> length ts"
    "parseExpression_parse_ops_parseCondition_dom (Inr (Inl (oper, cs, ts1))) \<Longrightarrow> length (snd (parse_ops oper cs ts1)) \<le> length ts1"
    "parseExpression_parse_ops_parseCondition_dom (Inr (Inr ts2)) \<Longrightarrow> length (snd (parseCondition ts2)) \<le> length ts2" for ts oper cs ts1 ts2
  proof (induction rule: parseExpression_parse_ops_parseCondition.pinduct)
    case (1 ts)
    then show ?case by (auto simp: parseExpression.psimps split: prod.splits)
  next
    case (2 oper cs)
    then show ?case by (simp add: parse_ops.psimps)
  next
    case (3 oper cs t ts)
    then show ?case by (auto simp: parse_ops.psimps split: prod.splits)
  next
    case 4
    then show ?case by (simp add: parseCondition.psimps)
  next
    case (5 t ts)
    then show ?case by (auto simp: parseCondition.psimps split: prod.splits list.splits)
  qed
  have le: "(c, ts1) = parseCondition ts \<Longrightarrow> parseExpression_parse_ops_parseCondition_dom (Inr (Inr ts)) \<Longrightarrow> length ts1 \<le> length ts" for c ts1 ts
    using shrinks(3) [of ts] by (metis snd_conv)
  show ?thesis
    by (relation "measures [case_sum length (case_sum (\<lambda>(_, _, ts). length ts) length), case_sum (\<lambda>_. 2) (case_sum (\<lambda>_. 1) (\<lambda>_. 0))]")
      (auto dest!: le)
qed

definition excel_ParseWhereCondition :: "runes \<Rightarrow> excel_WhereClause option" where
  "excel_ParseWhereCondition whereExpr = (let w = TrimSpace whereExpr in
     if w = [] then None else Some (fst (parseExpression (tokens w 0))))"

section \<open>Conditions and their texts\<close>

text \<open>A condition as it is written: operands joined by AND (\<open>True\<close>) and OR, an operand being an expression or a condition in parentheses.\<close>

datatype operand = Atom runes | Group operand "(bool \<times> operand) list"

definition op_word :: "bool \<Rightarrow> string" where
  "op_word b = (if b then ''AND'' else ''OR'')"

definition op_text :: "bool \<Rightarrow> runes" where
  "op_text b = 32 # lit (op_word b) @ [32]"

fun otext :: "operand \<Rightarrow> runes" where
  "otext (Atom a) = a"
| "otext (Group x r) = 40 # (otext x @ concat (map (\<lambda>(b, y). op_text b @ otext y) r)) @ [41]"

definition ctext :: "operand \<Rightarrow> (bool \<times> operand) list \<Rightarrow> runes" where
  "ctext x r = otext x @ concat (map (\<lambda>(b, y). op_text b @ otext y) r)"

text \<open>What the parser makes of it: all operands under the operator that was written last.\<close>

definition last_op :: "runes \<Rightarrow> (bool \<times> operand) list \<Rightarrow> runes" where
  "last_op oper r = (if r = [] then oper else lit (op_word (fst (last r))))"

fun ocond :: "operand \<Rightarrow> Condition" where
  "ocond (Atom a) = Condition [] [] a"
| "ocond (Group x r) = Condition (last_op (lit ''AND'') r) (ocond x # map (\<lambda>(b, y). ocond y) r) []"

section \<open>The parser on a list of tokens\<close>

abbreviation tv :: "Token \<Rightarrow> TokenType \<times> runes" where
  "tv t \<equiv> (tk_Type t, tk_Value t)"

definition op_token :: "bool \<Rightarrow> TokenType \<times> runes" where
  "op_token b = (if b then TokenTypeAND else TokenTypeOR, lit (op_word b))"

fun otoks :: "operand \<Rightarrow> (TokenType \<times> runes) list" where
  "otoks (Atom a) = [(TokenTypeExpr, a)]"
| "otoks (Group x r) = (TokenTypeLParen, lit ''('') # (otoks x @ concat (map (\<lambda>(b, y). op_token b # otoks y) r)) @ [(TokenTypeRParen, lit '')'')]"

definition links :: "(bool \<times> operand) list \<Rightarrow> (TokenType \<times> runes) list" where
  "links r = concat (map (\<lambda>(b, y). op_token b # otoks y) r)"

text \<open>A list of tokens at which a chain of operands ends.\<close>

definition stops :: "Token list \<Rightarrow> bool" where
  "stops ts \<longleftrightarrow> (case ts of [] \<Rightarrow> True | t # _ \<Rightarrow> tk_Type t \<noteq> TokenTypeAND \<and> tk_Type t \<noteq> TokenTypeOR)"

lemma parse_ops_links:
  assumes "\<And>b y T rest. (b, y) \<in> set r \<Longrightarrow> map tv T = otoks y \<Longrightarrow> parseCondition (T @ rest) = (Some (ocond y), rest)"
    and "map tv T = links r" and "stops rest"
  shows "parse_ops oper cs (T @ rest) = ((last_op oper r, cs @ map (\<lambda>(b, y). ocond y) r), rest)"
  using assms(1,2)
proof (induction r arbitrary: oper cs T)
  case Nil
  then show ?case using assms(3) by (cases rest) (auto simp: links_def last_op_def stops_def)
next
  case (Cons q r)
  obtain b y where y: "q = (b, y)" by force
  from Cons.prems(2) obtain t T1 T2 where T: "T = t # T1 @ T2" "tv t = op_token b" "map tv T1 = otoks y" "map tv T2 = links r"
    by (auto simp: y links_def map_eq_Cons_conv map_eq_append_conv)
  have "parseCondition (T1 @ T2 @ rest) = (Some (ocond y), T2 @ rest)" using Cons.prems(1) [of b y T1] T(3) y by simp
  moreover have "tk_Type t = TokenTypeAND \<or> tk_Type t = TokenTypeOR" "tk_Value t = lit (op_word b)" using T(2) by (auto simp: op_token_def split: if_splits)
  moreover have "parse_ops (lit (op_word b)) (cs @ [ocond y]) (T2 @ rest)
      = ((last_op (lit (op_word b)) r, (cs @ [ocond y]) @ map (\<lambda>(b, y). ocond y) r), rest)"
    by (rule Cons.IH [OF _ T(4)]) (use Cons.prems(1) in auto)
  ultimately show ?case by (auto simp: T(1) y last_op_def)
qed

lemma map_append_split: "map f xs = ys @ zs \<Longrightarrow> \<exists>us vs. xs = us @ vs \<and> map f us = ys \<and> map f vs = zs"
  by (auto simp: map_eq_append_conv)

lemma parseCondition_operand: "map tv T = otoks x \<Longrightarrow> parseCondition (T @ rest) = (Some (ocond x), rest)"
proof (induction x arbitrary: T rest)
  case (Atom a)
  then show ?case by (auto simp: map_eq_Cons_conv)
next
  case (Group x r)
  from Group.prems have "map tv T = (TokenTypeLParen, lit ''('') # otoks x @ links r @ [(TokenTypeRParen, lit '')'')]" by (simp add: links_def)
  then obtain t V where V: "T = t # V" "tk_Type t = TokenTypeLParen" "map tv V = otoks x @ links r @ [(TokenTypeRParen, lit '')'')]"
    by (auto simp: map_eq_Cons_conv)
  from map_append_split [OF V(3)] obtain T1 W where W: "V = T1 @ W" "map tv T1 = otoks x" "map tv W = links r @ [(TokenTypeRParen, lit '')'')]" by blast
  from map_append_split [OF W(3)] obtain T2 E where "W = T2 @ E" "map tv T2 = links r" "map tv E = [(TokenTypeRParen, lit '')'')]" by (elim exE conjE)
  then obtain e where T: "T = t # T1 @ T2 @ [e]" "tk_Type t = TokenTypeLParen" "map tv T1 = otoks x" "map tv T2 = links r" "tk_Type e = TokenTypeRParen"
    using V W by (auto simp: map_eq_Cons_conv)
  have "parseCondition (T1 @ T2 @ e # rest) = (Some (ocond x), T2 @ e # rest)" using Group.IH(1) [OF T(3)] by simp
  moreover have "parse_ops (lit ''AND'') [ocond x] (T2 @ e # rest) = ((last_op (lit ''AND'') r, [ocond x] @ map (\<lambda>(b, y). ocond y) r), e # rest)"
    using Group.IH(2) T(4,5) by (intro parse_ops_links) (auto simp: stops_def)
  ultimately show ?case using T(2,5) by (simp add: T(1))
qed

lemma parseExpression_chain:
  assumes "map tv ts = otoks x @ links r"
  shows "fst (parseExpression ts) = (last_op (lit ''AND'') r, ocond x # map (\<lambda>(b, y). ocond y) r)"
proof -
  obtain T1 T2 where T: "ts = T1 @ T2" "map tv T1 = otoks x" "map tv T2 = links r" using assms by (auto simp: map_eq_append_conv)
  have "parse_ops (lit ''AND'') [ocond x] (T2 @ []) = ((last_op (lit ''AND'') r, [ocond x] @ map (\<lambda>(b, y). ocond y) r), [])"
    using T(3) parseCondition_operand by (intro parse_ops_links) (auto simp: stops_def)
  with parseCondition_operand [OF T(2), of T2] show ?thesis by (simp add: T(1))
qed

section \<open>The lexer on a text\<close>

text \<open>An expression in the text of a condition: it has no parentheses, begins and ends with a rune that is no blank, does not begin with a
  comma, and none of its words is a keyword.\<close>

definition reserved :: "string list" where
  "reserved = [''AND'', ''OR'', ''IN'', ''NOT IN'', ''BETWEEN'']"

fun begins :: "runes \<Rightarrow> runes \<Rightarrow> bool" where
  "begins [] ys = True"
| "begins (x # xs) [] = False"
| "begins (x # xs) (y # ys) = (x = y \<and> begins xs ys)"

fun no_keyword :: "bool \<Rightarrow> runes \<Rightarrow> bool" where
  "no_keyword start [] = True"
| "no_keyword start (c # cs) = ((start \<longrightarrow> list_all (\<lambda>w. \<not> begins (lit w) (map upper_rune (c # cs))) reserved) \<and> no_keyword (c \<in> {32, 9}) cs)"

definition atom_ok :: "runes \<Rightarrow> bool" where
  "atom_ok a \<longleftrightarrow> a \<noteq> [] \<and> 40 \<notin> set a \<and> 41 \<notin> set a \<and> \<not> is_space (hd a) \<and> hd a \<noteq> 44 \<and> \<not> is_space (last a) \<and> no_keyword True a"

fun operand_ok :: "operand \<Rightarrow> bool" where
  "operand_ok (Atom a) = atom_ok a"
| "operand_ok (Group x r) = (operand_ok x \<and> list_all (\<lambda>(b, y). operand_ok y) r)"

text \<open>What may follow an operand.\<close>

definition post_ok :: "runes \<Rightarrow> bool" where
  "post_ok post \<longleftrightarrow> post = [] \<or> (\<exists>q. post = 41 # q) \<or> (\<exists>b q. post = op_text b @ q)"

lemma begins_take: "begins xs ys \<longleftrightarrow> length xs \<le> length ys \<and> take (length xs) ys = xs"
  by (induction xs ys rule: begins.induct) auto

lemma begins_beyond: "begins xs (us @ vs) \<Longrightarrow> \<not> begins xs us \<Longrightarrow> length us < length xs \<and> begins (drop (length us) xs) vs"
  by (induction xs us rule: begins.induct) auto

lemma no_keyword_nth:
  "no_keyword start a \<Longrightarrow> i < length a \<Longrightarrow> (if i = 0 then start else a ! (i - 1) \<in> {32, 9}) \<Longrightarrow> w \<in> set reserved
    \<Longrightarrow> \<not> begins (lit w) (map upper_rune (drop i a))"
proof (induction start a arbitrary: i rule: no_keyword.induct)
  case (2 start c cs)
  show ?case
  proof (cases i)
    case 0
    with 2 show ?thesis by (simp add: list_all_iff)
  next
    case (Suc k)
    with 2(2-) have "\<not> begins (lit w) (map upper_rune (drop k cs))" by (intro 2(1)) (auto simp: nth_Cons' split: if_splits)
    with Suc show ?thesis by simp
  qed
qed simp

text \<open>A keyword that reaches beyond the expression would have a blank or a parenthesis in it.\<close>

lemma keyword_inside:
  assumes "begins (lit w) (map upper_rune (u @ post))" and "w \<in> set reserved" and "u \<noteq> []" and "post_ok post"
  shows "begins (lit w) (map upper_rune u)"
proof (rule ccontr)
  assume out: "\<not> begins (lit w) (map upper_rune u)"
  have up: "upper_rune 32 = 32" "upper_rune 41 = 41" "upper_rune 65 = 65" "upper_rune 79 = 79" by code_simp+
  have b: "begins (lit w) (map upper_rune u @ map upper_rune post)" using assms(1) by simp
  from begins_beyond [OF b out] have s: "length u < length (lit w)" "begins (drop (length u) (lit w)) (map upper_rune post)" by simp_all
  from assms(4) consider "post = []" | q where "post = 41 # q" | o1 q where "post = op_text o1 @ q" by (auto simp: post_ok_def)
  then show False
  proof cases
    case 1
    with s show False by (auto simp: begins_take)
  next
    case (2 q)
    have "41 \<notin> set (lit w)" using assms(2) by (auto simp: reserved_def lit_def)
    moreover have "drop (length u) (lit w) = lit w ! length u # drop (Suc (length u)) (lit w)" using s(1) by (simp add: Cons_nth_drop_Suc)
    ultimately show False using s 2 up by (auto simp: in_set_conv_nth)
  next
    case (3 o1 q)
    have post: "map upper_rune post = 32 # (if o1 then 65 else 79) # map upper_rune (drop 2 post)"
      using 3 up by (simp add: op_text_def op_word_def lit_def)
    have "list_all (\<lambda>w. list_all (\<lambda>k. \<not> (lit w ! k = 32 \<and> (Suc k < length (lit w) \<longrightarrow> lit w ! Suc k \<in> {65, 79}))) [0..<length (lit w)]) reserved" by code_simp
    then have no: "\<not> (lit w ! length u = 32 \<and> (Suc (length u) < length (lit w) \<longrightarrow> lit w ! Suc (length u) \<in> {65, 79}))"
      using assms(2) s(1) by (simp add: list_all_iff)
    have d: "drop (length u) (lit w) = lit w ! length u # drop (Suc (length u)) (lit w)" using s(1) by (simp add: Cons_nth_drop_Suc)
    have e: "lit w ! length u = 32" "begins (drop (Suc (length u)) (lit w)) ((if o1 then 65 else 79) # map upper_rune (drop 2 post))"
      using s(2) unfolding d post by simp_all
    have "lit w ! Suc (length u) \<in> {65, 79}" if l: "Suc (length u) < length (lit w)"
    proof -
      have "drop (Suc (length u)) (lit w) = lit w ! Suc (length u) # drop (Suc (Suc (length u))) (lit w)" using l by (simp add: Cons_nth_drop_Suc)
      with e(2) show ?thesis by (auto split: if_splits)
    qed
    with e(1) no show False by simp
  qed
qed

lemma kw_begins: "i \<le> length rs \<Longrightarrow> kw_at w rs i \<longleftrightarrow> begins (lit w) (map upper_rune (drop i rs))"
  by (auto simp: kw_at_def begins_take lit_def take_map)

lemma atom_nth: "atom_ok a \<Longrightarrow> i < length a \<Longrightarrow> a ! i \<noteq> 40 \<and> a ! i \<noteq> 41"
  unfolding atom_ok_def by (metis nth_mem)

text \<open>At no position of an expression is there a keyword behind a boundary.\<close>

lemma atom_quiet:
  assumes "atom_ok a" and "post_ok post" and "i < length a" and "w \<in> set reserved"
  shows "\<not> (kw_at w (pre @ a @ post) (length pre + i) \<and> prevIsBoundary (pre @ a @ post) (length pre + i))"
proof
  let ?rs = "pre @ a @ post"
  assume k: "kw_at w ?rs (length pre + i) \<and> prevIsBoundary ?rs (length pre + i)"
  have "begins (lit w) (map upper_rune (drop i a @ post))" using k assms(3) kw_begins [of "length pre + i" ?rs w] by simp
  then have "begins (lit w) (map upper_rune (drop i a))" by (rule keyword_inside [OF _ assms(4) _ assms(2)]) (use assms(3) in simp)
  moreover have "if i = 0 then True else a ! (i - 1) \<in> {32, 9}"
  proof (cases i)
    case (Suc n)
    then have "?rs ! (length pre + i - 1) = a ! n" using assms(3) by (simp add: nth_append)
    moreover have "a ! n \<noteq> 41" using assms(1,3) Suc atom_nth [of a n] by simp
    ultimately show ?thesis using k Suc by (auto simp: prevIsBoundary_def)
  qed simp
  ultimately show False using no_keyword_nth [of True a i w] assms by (simp add: atom_ok_def)
qed

lemma op_between_quiet:
  assumes "\<And>w. w \<in> set reserved \<Longrightarrow> \<not> (kw_at w rs i \<and> prevIsBoundary rs i)"
  shows "\<not> between_at rs i" "\<not> op_at ''AND'' rs i" "\<not> op_at ''OR'' rs i" "\<not> op_at ''IN'' rs i" "\<not> op_at ''NOT IN'' rs i"
  using assms by (auto simp: between_at_def op_at_def reserved_def)

lemma expr_loop_quiet:
  assumes "\<And>w. w \<in> set reserved \<Longrightarrow> \<not> (kw_at w rs i \<and> prevIsBoundary rs i)" and "i < length rs" and "rs ! i \<noteq> 40" and "rs ! i \<noteq> 41"
  shows "expr_loop rs i False False 0 False = expr_loop rs (i + 1) False False 0 False"
  using assms(2-) op_between_quiet [OF assms(1)] by (subst expr_loop.simps) simp

lemma expr_run:
  assumes "atom_ok a" and "post_ok post" and "i \<le> length a"
  shows "expr_loop (pre @ a @ post) (length pre + i) False False 0 False = expr_loop (pre @ a @ post) (length pre + length a) False False 0 False"
  using assms(3)
proof (induction i rule: inc_induct)
  case (step i)
  have "(pre @ a @ post) ! (length pre + i) = a ! i" using step(2) by (simp add: nth_append)
  moreover have "a ! i \<noteq> 40" "a ! i \<noteq> 41" using atom_nth [OF assms(1) step(2)] by simp_all
  ultimately have "expr_loop (pre @ a @ post) (length pre + i) False False 0 False = expr_loop (pre @ a @ post) (length pre + i + 1) False False 0 False"
    using step(2) atom_quiet [OF assms(1,2) step(2)] by (intro expr_loop_quiet) auto
  with step(3) show ?case by simp
qed simp

lemma drop_quiet:
  assumes "drop i rs = c # q" and "upper_rune c \<notin> {65, 66, 73, 78, 79}" and "w \<in> set reserved"
  shows "\<not> kw_at w rs i"
proof -
  have "i \<le> length rs" using assms(1) by (cases "i \<le> length rs") auto
  then show ?thesis using assms by (auto simp: kw_begins reserved_def lit_def)
qed

lemma drop_nth: "drop i rs = c # q \<Longrightarrow> i < length rs \<and> rs ! i = c"
  by (metis Cons_nth_drop_Suc drop_all leI list.distinct(1) list.sel(1) nth_via_drop)

text \<open>An operator between two operands.\<close>

lemma op_text_at:
  assumes "rs = pre @ op_text b @ q"
  shows "op_at (op_word b) rs (length pre + 1)" "w \<in> set reserved \<Longrightarrow> w \<noteq> op_word b \<Longrightarrow> \<not> kw_at w rs (length pre + 1)"
    "rs ! length pre = 32" "rs ! (length pre + 1) \<notin> {32, 9, 44, 40, 41}" "rs ! (length pre + 1 + length (op_word b)) = 32"
    "length pre + 1 + length (op_word b) < length rs"
proof -
  have d: "drop (length pre + 1) rs = lit (op_word b) @ 32 # q" using assms by (simp add: op_text_def)
  have len: "length (lit w) = length w" for w by (simp add: lit_def)
  have l: "length pre + 1 \<le> length rs" using assms by (simp add: op_text_def)
  show n: "rs ! length pre = 32" using assms by (simp add: op_text_def nth_append)
  show e: "rs ! (length pre + 1 + length (op_word b)) = 32" using assms by (simp add: op_text_def nth_append len)
  show "length pre + 1 + length (op_word b) < length rs" using assms by (simp add: op_text_def len)
  have up: "map upper_rune (lit (op_word b)) = lit (op_word b)" by (cases b) (simp_all add: op_word_def lit_def upper_rune_def)
  then have "kw_at (op_word b) rs (length pre + 1)" unfolding kw_begins [OF l] d by (simp add: begins_take)
  then show "op_at (op_word b) rs (length pre + 1)" using n e by (simp add: op_at_def prevIsBoundary_def nextIsBoundary_def)
  show "w \<in> set reserved \<Longrightarrow> w \<noteq> op_word b \<Longrightarrow> \<not> kw_at w rs (length pre + 1)"
    unfolding kw_begins [OF l] d by (cases b) (auto simp: reserved_def lit_def op_word_def upper_rune_def)
  have "rs ! (length pre + 1) = hd (lit (op_word b))" using d l by (cases b) (simp_all add: op_word_def lit_def nth_via_drop)
  then show "rs ! (length pre + 1) \<notin> {32, 9, 44, 40, 41}" by (cases b) (simp_all add: op_word_def lit_def)
qed

text \<open>Where the expression ends: at the operator behind it, at a closing parenthesis or at the end of the text.\<close>

lemma expr_stop:
  assumes "rs = pre @ post" and "post_ok post"
  shows "expr_loop rs (length pre) False False 0 False = length pre + (if post = [] \<or> hd post = 41 then 0 else 1)"
proof -
  from assms(2) consider "post = []" | q where "post = 41 # q" | b q where "post = op_text b @ q" by (auto simp: post_ok_def)
  then show ?thesis
  proof cases
    case 1
    with assms(1) show ?thesis by (subst expr_loop.simps) simp
  next
    case (2 q)
    have d: "drop (length pre) rs = 41 # q" using assms(1) 2 by simp
    have "\<not> (kw_at w rs (length pre) \<and> prevIsBoundary rs (length pre))" if "w \<in> set reserved" for w
      using drop_quiet [OF d _ that] by (simp add: upper_rune_def)
    from op_between_quiet [OF this] drop_nth [OF d] 2 show ?thesis by (subst expr_loop.simps) simp
  next
    case (3 b q)
    note at = op_text_at [of rs pre b q, unfolded assms(1) 3, OF refl, folded 3 assms(1)]
    have d: "drop (length pre) rs = 32 # lit (op_word b) @ 32 # q" using assms(1) 3 by (simp add: op_text_def)
    have "\<not> (kw_at w rs (length pre) \<and> prevIsBoundary rs (length pre))" if "w \<in> set reserved" for w
      using drop_quiet [OF d _ that] by (simp add: upper_rune_def)
    then have one: "expr_loop rs (length pre) False False 0 False = expr_loop rs (length pre + 1) False False 0 False"
      using drop_nth [OF d] by (intro expr_loop_quiet) auto
    have no: "\<not> between_at rs (length pre + 1)" "\<not> op_at ''IN'' rs (length pre + 1)" "\<not> op_at ''NOT IN'' rs (length pre + 1)"
      "\<not> b \<Longrightarrow> \<not> op_at ''AND'' rs (length pre + 1)"
      using at(2) by (auto simp: between_at_def op_at_def reserved_def op_word_def)
    have "expr_loop rs (length pre + 1) False False 0 False = length pre + 1"
      using no at(1,6) by (subst expr_loop.simps) (cases b; simp add: op_word_def)
    with one 3 show ?thesis by (simp add: op_text_def)
  qed
qed

lemma TrimSpace_atom: "a \<noteq> [] \<Longrightarrow> \<not> is_space (hd a) \<Longrightarrow> \<not> is_space (last a) \<Longrightarrow> TrimSpace a = a \<and> TrimSpace (a @ [32]) = a"
proof -
  assume a: "a \<noteq> []" "\<not> is_space (hd a)" "\<not> is_space (last a)"
  have l: "dropWhile is_space a = a" "dropWhile is_space (a @ [32]) = a @ [32]" using a by (cases a; simp)+
  have "dropWhile is_space (rev a) = rev a" using a by (metis dropWhile_eq_self_iff hd_rev)
  moreover have "is_space 32" by (simp add: is_space_def)
  ultimately show ?thesis by (simp add: TrimSpace_def l)
qed

lemma skip_none: "i < length rs \<Longrightarrow> rs ! i \<notin> {32, 9, 44} \<Longrightarrow> skip_blanks rs i = i"
  by (subst skip_blanks.simps) simp

lemma tokens_blank: "i < length rs \<Longrightarrow> rs ! i \<in> {32, 9, 44} \<Longrightarrow> map tv (tokens rs i) = map tv (tokens rs (i + 1))"
proof -
  assume "i < length rs" "rs ! i \<in> {32, 9, 44}"
  then have "skip_blanks rs i = skip_blanks rs (i + 1)" by (subst skip_blanks.simps) simp
  then have "(case NextToken rs i of (t, j) \<Rightarrow> (map_option tv t, j)) = (case NextToken rs (i + 1) of (t, j) \<Rightarrow> (map_option tv t, j))"
    by (simp add: NextToken_def Let_def)
  moreover obtain t j where 1: "NextToken rs i = (t, j)" by force
  moreover obtain t' j' where 2: "NextToken rs (i + 1) = (t', j')" by force
  ultimately have "map_option tv t = map_option tv t' \<and> j = j'" by simp
  with 1 2 show ?thesis by (cases t; cases t') (simp_all add: tokens.simps [of rs i] tokens.simps [of rs "Suc i"])
qed

lemma NextToken_atom:
  assumes "rs = pre @ a @ post" and "atom_ok a" and "post_ok post"
  shows "NextToken rs (length pre) = (Some \<lparr>tk_Type = TokenTypeExpr, tk_Value = a, tk_Pos = length pre\<rparr>,
    length pre + length a + (if post = [] \<or> hd post = 41 then 0 else 1))"
proof -
  let ?j = "length pre + length a + (if post = [] \<or> hd post = 41 then 0 else 1)"
  have a: "a \<noteq> []" "\<not> is_space (hd a)" "hd a \<noteq> 44" "\<not> is_space (last a)" using assms(2) by (simp_all add: atom_ok_def)
  have n: "length pre < length rs" "rs ! length pre = hd a" using a(1) assms(1) by (auto simp: nth_append hd_conv_nth)
  have "hd a \<notin> {32, 9, 44}" using a by (auto simp: is_space_def)
  then have skip: "skip_blanks rs (length pre) = length pre" using n by (intro skip_none) auto
  have q: "\<not> (kw_at w rs (length pre) \<and> prevIsBoundary rs (length pre))" if "w \<in> set reserved" for w
    using atom_quiet [OF assms(2,3) _ that, of 0 pre] a(1) assms(1) by simp
  have loop: "expr_loop rs (length pre) False False 0 False = ?j"
    using expr_run [OF assms(2,3), of 0 pre] expr_stop [of rs "pre @ a" post] assms by simp
  have "take (?j - length pre) (drop (length pre) rs) = (if post = [] \<or> hd post = 41 then a else a @ [32])"
    using assms(1,3) by (auto simp: post_ok_def op_text_def)
  then have v: "TrimSpace (take (?j - length pre) (drop (length pre) rs)) = a" using TrimSpace_atom a by simp
  have p: "hd a \<noteq> 40" "hd a \<noteq> 41" using atom_nth [OF assms(2), of 0] a(1) by (simp_all add: hd_conv_nth)
  show ?thesis using n p op_between_quiet [OF q] v unfolding NextToken_def skip Let_def loop by simp
qed

section \<open>Parsing a text\<close>

lemma op_token_lex:
  assumes "rs = pre @ op_text b @ q"
  shows "map tv (tokens rs (length pre)) = op_token b # map tv (tokens rs (length pre + length (op_text b)))"
proof -
  note at = op_text_at [OF assms]
  let ?i = "length pre + 1"
  have l: "length (op_text b) = length (op_word b) + 2" by (simp add: op_text_def lit_def)
  have n: "?i < length rs" using at(6) by simp
  have "skip_blanks rs ?i = ?i" using n at(4) by (intro skip_none) auto
  moreover have "b \<Longrightarrow> op_at ''AND'' rs ?i" "\<not> b \<Longrightarrow> op_at ''OR'' rs ?i" using at(1) by (simp_all add: op_word_def)
  moreover have "\<not> b \<Longrightarrow> \<not> op_at ''AND'' rs ?i" using at(2) [of "''AND''"] by (simp add: op_word_def op_at_def reserved_def)
  moreover have "\<not> length rs \<le> ?i" "rs ! ?i \<noteq> 40" "rs ! ?i \<noteq> 41" using n at(4) by auto
  ultimately have "NextToken rs ?i = (Some \<lparr>tk_Type = (if b then TokenTypeAND else TokenTypeOR), tk_Value = lit (op_word b), tk_Pos = ?i\<rparr>, ?i + length (op_word b))"
    unfolding NextToken_def Let_def by (cases b) (simp_all add: op_word_def)
  then have "map tv (tokens rs ?i) = op_token b # map tv (tokens rs (?i + length (op_word b)))"
    by (subst tokens.simps) (simp add: op_token_def)
  moreover have "map tv (tokens rs (length pre)) = map tv (tokens rs ?i)" using n at(3) by (intro tokens_blank) auto
  moreover have "map tv (tokens rs (?i + length (op_word b))) = map tv (tokens rs (?i + length (op_word b) + 1))"
    using at(5,6) by (intro tokens_blank) auto
  ultimately show ?thesis by (simp add: l)
qed

definition rtext :: "(bool \<times> operand) list \<Rightarrow> runes" where
  "rtext r = concat (map (\<lambda>(b, y). op_text b @ otext y) r)"

lemma rtext_post: "post_ok post \<Longrightarrow> post_ok (rtext r @ post)"
proof (cases r)
  case (Cons q r')
  then have "rtext r @ post = op_text (fst q) @ otext (snd q) @ rtext r' @ post" by (simp add: rtext_def split: prod.split)
  then show ?thesis unfolding post_ok_def by blast
qed (simp add: rtext_def)

lemma links_lex:
  assumes "\<And>b y pre post. (b, y) \<in> set r \<Longrightarrow> post_ok post \<Longrightarrow> map tv (tokens (pre @ otext y @ post) (length pre))
      = otoks y @ map tv (tokens (pre @ otext y @ post) (length pre + length (otext y)))"
    and "post_ok post"
  shows "map tv (tokens (pre @ rtext r @ post) (length pre)) = links r @ map tv (tokens (pre @ rtext r @ post) (length pre + length (rtext r)))"
  using assms(1)
proof (induction r arbitrary: pre)
  case Nil
  then show ?case by (simp add: rtext_def links_def)
next
  case (Cons q r)
  obtain b y where q: "q = (b, y)" by force
  have t: "rtext (q # r) = op_text b @ otext y @ rtext r" by (simp add: q rtext_def)
  have "map tv (tokens (pre @ rtext (q # r) @ post) (length pre))
      = op_token b # map tv (tokens (pre @ rtext (q # r) @ post) (length pre + length (op_text b)))"
    by (rule op_token_lex) (simp add: t)
  also have "map tv (tokens (pre @ rtext (q # r) @ post) (length pre + length (op_text b)))
      = otoks y @ map tv (tokens (pre @ rtext (q # r) @ post) (length pre + length (op_text b) + length (otext y)))"
    using Cons.prems [of b y "rtext r @ post" "pre @ op_text b"] rtext_post [OF assms(2)] q unfolding t by simp
  also have "map tv (tokens (pre @ rtext (q # r) @ post) (length pre + length (op_text b) + length (otext y)))
      = links r @ map tv (tokens (pre @ rtext (q # r) @ post) (length pre + length (rtext (q # r))))"
  proof -
    have "map tv (tokens ((pre @ op_text b @ otext y) @ rtext r @ post) (length (pre @ op_text b @ otext y)))
        = links r @ map tv (tokens ((pre @ op_text b @ otext y) @ rtext r @ post) (length (pre @ op_text b @ otext y) + length (rtext r)))"
      by (rule Cons.IH) (use Cons.prems in auto)
    then show ?thesis unfolding t by (simp add: add.assoc)
  qed
  finally show ?case by (simp add: links_def q)
qed

lemma operand_lex:
  "operand_ok x \<Longrightarrow> post_ok post \<Longrightarrow> map tv (tokens (pre @ otext x @ post) (length pre))
    = otoks x @ map tv (tokens (pre @ otext x @ post) (length pre + length (otext x)))"
proof (induction x arbitrary: pre post)
  case (Atom a)
  let ?rs = "pre @ a @ post"
  let ?d = "if post = [] \<or> hd post = 41 then 0 else 1 :: nat"
  have "NextToken ?rs (length pre) = (Some \<lparr>tk_Type = TokenTypeExpr, tk_Value = a, tk_Pos = length pre\<rparr>, length pre + length a + ?d)"
    using Atom by (intro NextToken_atom) auto
  then have "map tv (tokens ?rs (length pre)) = (TokenTypeExpr, a) # map tv (tokens ?rs (length pre + length a + ?d))" by (subst tokens.simps) simp
  moreover have "map tv (tokens ?rs (length pre + length a + ?d)) = map tv (tokens ?rs (length pre + length a))"
  proof (cases "?d = 0")
    case False
    then obtain q where "post = 32 # q" using Atom.prems(2) by (auto simp: post_ok_def op_text_def)
    then show ?thesis using tokens_blank [of "length pre + length a" ?rs] by (simp add: nth_append)
  qed simp
  ultimately show ?case by simp
next
  case (Group x r)
  let ?rs = "pre @ otext (Group x r) @ post"
  have t: "otext (Group x r) = 40 # otext x @ rtext r @ [41]" by (simp add: rtext_def)
  have "NextToken ?rs (length pre) = (Some \<lparr>tk_Type = TokenTypeLParen, tk_Value = lit ''('', tk_Pos = length pre\<rparr>, length pre + 1)"
    using skip_none [of "length pre" ?rs] by (simp add: t NextToken_def nth_append Let_def)
  then have "map tv (tokens ?rs (length pre)) = (TokenTypeLParen, lit ''('') # map tv (tokens ?rs (length pre + 1))" by (subst tokens.simps) simp
  also have "map tv (tokens ?rs (length pre + 1)) = otoks x @ map tv (tokens ?rs (length pre + 1 + length (otext x)))"
    using Group.IH(1) [of "rtext r @ 41 # post" "pre @ [40]"] Group.prems rtext_post [of "41 # post" r] unfolding t by (simp add: post_ok_def)
  also have "map tv (tokens ?rs (length pre + 1 + length (otext x))) = links r @ map tv (tokens ?rs (length pre + 1 + length (otext x) + length (rtext r)))"
  proof -
    have "map tv (tokens ((pre @ 40 # otext x) @ rtext r @ 41 # post) (length (pre @ 40 # otext x)))
        = links r @ map tv (tokens ((pre @ 40 # otext x) @ rtext r @ 41 # post) (length (pre @ 40 # otext x) + length (rtext r)))"
    proof (rule links_lex)
      show "post_ok (41 # post)" by (simp add: post_ok_def)
      fix b y pre' post'
      assume "(b, y) \<in> set r" "post_ok post'"
      then show "map tv (tokens (pre' @ otext y @ post') (length pre')) = otoks y @ map tv (tokens (pre' @ otext y @ post') (length pre' + length (otext y)))"
        using Group.prems(1) by (intro Group.IH(2)) (auto simp: list_all_iff)
    qed
    then show ?thesis unfolding t by simp
  qed
  also have "map tv (tokens ?rs (length pre + 1 + length (otext x) + length (rtext r)))
      = (TokenTypeRParen, lit '')'') # map tv (tokens ?rs (length pre + length (otext (Group x r))))"
  proof -
    let ?i = "length (pre @ 40 # otext x @ rtext r)"
    have n: "?i < length ?rs" "?rs ! ?i = 41" unfolding t by (simp_all add: nth_append)
    have "NextToken ?rs ?i = (Some \<lparr>tk_Type = TokenTypeRParen, tk_Value = lit '')'', tk_Pos = ?i\<rparr>, ?i + 1)"
      unfolding NextToken_def using skip_none [of ?i ?rs] n by (simp del: otext.simps)
    then have "map tv (tokens ?rs ?i) = (TokenTypeRParen, lit '')'') # map tv (tokens ?rs (?i + 1))" by (subst tokens.simps) (simp del: otext.simps)
    then show ?thesis by (simp add: t add.assoc del: otext.simps)
  qed
  finally show ?case by (simp add: links_def)
qed

lemma tokens_end: "tokens rs (length rs) = []"
proof -
  have "skip_blanks rs (length rs) = length rs" by (subst skip_blanks.simps) simp
  then show ?thesis by (subst tokens.simps) (simp add: NextToken_def Let_def)
qed

lemma otext_ends:
  "operand_ok x \<Longrightarrow> otext x \<noteq> [] \<and> \<not> is_space (hd (otext x)) \<and> \<not> is_space (last (otext x))"
  by (cases x) (auto simp: atom_ok_def is_space_def)

lemma ctext_ends:
  assumes "operand_ok x" and "list_all (\<lambda>(b, y). operand_ok y) r"
  shows "ctext x r \<noteq> []" "\<not> is_space (hd (ctext x r))" "\<not> is_space (last (ctext x r))"
proof -
  have c: "ctext x r = otext x @ rtext r" by (simp add: ctext_def rtext_def)
  show "ctext x r \<noteq> []" "\<not> is_space (hd (ctext x r))" using otext_ends [OF assms(1)] by (simp_all add: c)
  show "\<not> is_space (last (ctext x r))"
  proof (cases r rule: rev_cases)
    case Nil
    then show ?thesis unfolding c using otext_ends [OF assms(1)] by (simp add: rtext_def)
  next
    case (snoc r' q)
    obtain b y where "q = (b, y)" by force
    with snoc assms(2) otext_ends [of y] show ?thesis unfolding c by (simp add: rtext_def)
  qed
qed

lemma parse_ctext:
  assumes "operand_ok x" and "list_all (\<lambda>(b, y). operand_ok y) r"
  shows "excel_ParseWhereCondition (ctext x r) = Some (last_op (lit ''AND'') r, ocond x # map (\<lambda>(b, y). ocond y) r)"
proof -
  have c: "ctext x r = otext x @ rtext r" by (simp add: ctext_def rtext_def)
  note ends = ctext_ends [OF assms]
  have post: "post_ok []" by (simp add: post_ok_def)
  have "map tv (tokens (ctext x r) 0) = otoks x @ map tv (tokens (ctext x r) (length (otext x)))"
    using operand_lex [OF assms(1) rtext_post [OF post, of r], of "[]"] by (simp add: c)
  also have "map tv (tokens (ctext x r) (length (otext x))) = links r @ map tv (tokens (ctext x r) (length (ctext x r)))"
  proof -
    have "map tv (tokens (otext x @ rtext r @ []) (length (otext x))) = links r @ map tv (tokens (otext x @ rtext r @ []) (length (otext x) + length (rtext r)))"
      by (rule links_lex [OF operand_lex post]) (use assms(2) in \<open>auto simp: list_all_iff\<close>)
    then show ?thesis by (simp add: c)
  qed
  finally have "map tv (tokens (ctext x r) 0) = otoks x @ links r" by (simp add: tokens_end)
  from parseExpression_chain [OF this] show ?thesis using TrimSpace_atom [OF ends] ends(1) by (simp add: excel_ParseWhereCondition_def)
qed




text \<open>So a condition that mixes AND and OR gets another meaning: of \<open>a AND b OR c\<close> the parser makes \<open>a OR b OR c\<close>.\<close>

fun cmeaning :: "(runes \<Rightarrow> bool) \<Rightarrow> Condition \<Rightarrow> bool" where
  "cmeaning v (Condition oper cs e) = (if cs = [] then v e else if oper = lit ''AND'' then list_all (cmeaning v) cs else list_ex (cmeaning v) cs)"

lemma mixed_operators_change_meaning:
  "map_option (\<lambda>(oper, cs). cmeaning (\<lambda>e. e = lit ''a'') (Condition oper cs [])) (excel_ParseWhereCondition (lit ''a AND b OR c'')) = Some True"
proof -
  have "operand_ok (Atom (lit ''a''))" "list_all (\<lambda>(b, y). operand_ok y) [(True, Atom (lit ''b'')), (False, Atom (lit ''c''))]"
    by (simp_all add: atom_ok_def lit_def reserved_def is_space_def upper_rune_def)
  from parse_ctext [OF this] show ?thesis by (simp add: ctext_def op_text_def op_word_def last_op_def lit_def)
qed

end
