(* ===== verification/LoopQueue.thy ===== *)
theory LoopQueue
  imports Prelude "HOL-Library.Multiset"
begin

text \<open>
  How work gets into an event loop from other goroutines, \<open>contribute/agonet/event_loop.go\<close> and \<open>connection.go\<close>: the channel of the loop
  with its capacity, the workers of the pool that wait for a place in it, the shutdown of the engine and the drain.
\<close>

section \<open>The channel, the workers and the loop\<close>

text \<open>A task is what \<open>AsyncWrite\<close>, \<open>Close\<close>, \<open>Wake\<close> and \<open>Execute\<close> submit, by a number. A worker of the pool is in front of the check of
  the context in \<open>send\<close>, or in its \<open>select\<close>.\<close>

datatype send_worker = Sending nat | Selecting nat

fun worker_task :: "send_worker \<Rightarrow> nat" where
  "worker_task (Sending t) = t"
| "worker_task (Selecting t) = t"

datatype loop_phase = LoopRuns | LoopDrains | LoopExited

text \<open>\<open>lq_done\<close> is the state of the engine's context, \<open>lq_inShutdown\<close> its flag, which is set when the loops have ended. The last three fields record what happened: the tasks whose submission returned no error,
  in that order, those that the loop ran, in that order, and those that were given up.\<close>

record loop_queue =
  lq_ch :: "nat list"
  lq_cap :: nat
  lq_done :: bool
  lq_inShutdown :: bool
  lq_phase :: loop_phase
  lq_workers :: "send_worker list"
  lq_accepted :: "nat list"
  lq_ran :: "nat list"
  lq_dropped :: "nat list"

definition new_queue :: "nat \<Rightarrow> loop_queue" where
  "new_queue cap = \<lparr>lq_ch = [], lq_cap = cap, lq_done = False, lq_inShutdown = False, lq_phase = LoopRuns, lq_workers = [], lq_accepted = [], lq_ran = [], lq_dropped = []\<rparr>"

definition trySend :: "nat \<Rightarrow> loop_queue \<Rightarrow> bool \<times> loop_queue" where
  "trySend t q = (if length (lq_ch q) < lq_cap q then (True, q\<lparr>lq_ch := lq_ch q @ [t]\<rparr>) else (False, q))"

definition sendNonBlocking :: "nat \<Rightarrow> loop_queue \<Rightarrow> bool \<times> loop_queue" where
  "sendNonBlocking t q = (if lq_done q then (False, q) else trySend t q)"

datatype submit_error = PoolOverload | EngineInShutdown | NilRunnable

text \<open>The pool takes a function or refuses it.\<close>

definition pool_Submit :: "bool \<Rightarrow> nat \<Rightarrow> loop_queue \<Rightarrow> submit_error option \<times> loop_queue" where
  "pool_Submit takes t q = (if takes then (None, q\<lparr>lq_workers := lq_workers q @ [Sending t]\<rparr>) else (Some PoolOverload, q))"

definition accept :: "nat \<Rightarrow> submit_error option \<times> loop_queue \<Rightarrow> submit_error option \<times> loop_queue" where
  "accept t r = (case r of (None, q) \<Rightarrow> (None, q\<lparr>lq_accepted := lq_accepted q @ [t]\<rparr>) | (Some e, q) \<Rightarrow> (Some e, q))"

text \<open>The common body of \<open>AsyncWrite\<close>, \<open>Close\<close> and \<open>Wake\<close>.\<close>

definition submit_to_loop :: "bool \<Rightarrow> nat \<Rightarrow> loop_queue \<Rightarrow> submit_error option \<times> loop_queue" where
  "submit_to_loop takes t q = accept t (case trySend t q of (True, q1) \<Rightarrow> (None, q1) | (False, q1) \<Rightarrow> pool_Submit takes t q1)"

definition AsyncWrite :: "bool \<Rightarrow> nat \<Rightarrow> loop_queue \<Rightarrow> submit_error option \<times> loop_queue" where
  "AsyncWrite takes t q = submit_to_loop takes t q"

definition Execute :: "bool \<Rightarrow> nat option \<Rightarrow> loop_queue \<Rightarrow> submit_error option \<times> loop_queue" where
  "Execute takes runnable q =
     (if lq_inShutdown q then (Some EngineInShutdown, q)
      else (case runnable of None \<Rightarrow> (Some NilRunnable, q) | Some t \<Rightarrow> accept t (pool_Submit takes t q)))"

text \<open>A step of the \<open>k\<close>-th worker in \<open>send\<close>: the check of the context; then the \<open>select\<close>, which takes either case that is ready.\<close>

definition send_step :: "nat \<Rightarrow> bool \<Rightarrow> loop_queue \<Rightarrow> loop_queue option" where
  "send_step k to_channel q = (if length (lq_workers q) \<le> k then None
     else (let rest = take k (lq_workers q) @ drop (Suc k) (lq_workers q) in
       case lq_workers q ! k of
         Sending t \<Rightarrow> if lq_done q then Some (q\<lparr>lq_workers := rest, lq_dropped := lq_dropped q @ [t]\<rparr>)
           else Some (q\<lparr>lq_workers := (lq_workers q)[k := Selecting t]\<rparr>)
       | Selecting t \<Rightarrow>
           if to_channel \<and> length (lq_ch q) < lq_cap q then Some (q\<lparr>lq_workers := rest, lq_ch := lq_ch q @ [t]\<rparr>)
           else if \<not> to_channel \<and> lq_done q then Some (q\<lparr>lq_workers := rest, lq_dropped := lq_dropped q @ [t]\<rparr>)
           else None))"

text \<open>A step of \<open>run\<close>: an event of the channel, after which the loop may have been asked to end and shuts down the engine, or the shutdown of
  the engine.\<close>

definition run_step :: "bool \<Rightarrow> bool \<Rightarrow> loop_queue \<Rightarrow> loop_queue option" where
  "run_step take_event ends q = (if lq_phase q \<noteq> LoopRuns then None
     else if take_event then (case lq_ch q of
         [] \<Rightarrow> None
       | t # ts \<Rightarrow> (let q1 = q\<lparr>lq_ch := ts, lq_ran := lq_ran q @ [t]\<rparr> in
           Some (if ends then q1\<lparr>lq_phase := LoopExited, lq_done := True\<rparr> else q1)))
     else if lq_done q then Some (q\<lparr>lq_phase := LoopDrains\<rparr>) else None)"

text \<open>A round of \<open>drain\<close>: the next event, unless there is none; behind the deadline \<open>rejectRemaining\<close> gives up the rest.\<close>

definition drain_step :: "bool \<Rightarrow> loop_queue \<Rightarrow> loop_queue option" where
  "drain_step late q = (if lq_phase q \<noteq> LoopDrains then None
     else (case lq_ch q of
         [] \<Rightarrow> Some (q\<lparr>lq_phase := LoopExited\<rparr>)
       | t # ts \<Rightarrow> (let q1 = q\<lparr>lq_ch := ts, lq_ran := lq_ran q @ [t]\<rparr> in
           if late then Some (q1\<lparr>lq_ch := [], lq_dropped := lq_dropped q1 @ ts, lq_phase := LoopExited\<rparr>) else Some q1)))"

text \<open>The end of \<open>stop\<close> of the engine, which waits for the loop.\<close>

definition mark_shutdown :: "loop_queue \<Rightarrow> loop_queue option" where
  "mark_shutdown q = (if lq_phase q = LoopExited then Some (q\<lparr>lq_inShutdown := True\<rparr>) else None)"

datatype lq_action =
    QWrite bool nat
  | QExecute bool "nat option"
  | QSend nat bool
  | QRun bool bool
  | QDrain bool
  | QStop
  | QMark

fun lq_act :: "lq_action \<Rightarrow> loop_queue \<Rightarrow> loop_queue option" where
  "lq_act (QWrite takes t) q = Some (snd (AsyncWrite takes t q))"
| "lq_act (QExecute takes r) q = Some (snd (Execute takes r q))"
| "lq_act (QSend k c) q = send_step k c q"
| "lq_act (QRun e x) q = run_step e x q"
| "lq_act (QDrain l) q = drain_step l q"
| "lq_act QStop q = Some (q\<lparr>lq_done := True\<rparr>)"
| "lq_act QMark q = mark_shutdown q"

inductive lq_reachable :: "nat \<Rightarrow> loop_queue \<Rightarrow> bool" for cap where
  lq_start: "lq_reachable cap (new_queue cap)"
| lq_next: "lq_reachable cap q \<Longrightarrow> lq_act x q = Some q' \<Longrightarrow> lq_reachable cap q'"

fun lq_run :: "lq_action list \<Rightarrow> loop_queue \<Rightarrow> loop_queue option" where
  "lq_run [] q = Some q"
| "lq_run (x # xs) q = Option.bind (lq_act x q) (lq_run xs)"

lemma lq_run_reachable: "lq_reachable cap q \<Longrightarrow> lq_run xs q = Some q' \<Longrightarrow> lq_reachable cap q'"
  by (induction xs arbitrary: q) (auto simp: bind_eq_Some_conv intro: lq_next)

lemmas lq_defs = AsyncWrite_def submit_to_loop_def Execute_def accept_def trySend_def pool_Submit_def send_step_def run_step_def drain_step_def mark_shutdown_def

section \<open>Every task is accounted for\<close>

definition lq_inv :: "nat \<Rightarrow> loop_queue \<Rightarrow> bool" where
  "lq_inv cap q \<longleftrightarrow> lq_cap q = cap \<and> length (lq_ch q) \<le> cap
     \<and> mset (lq_accepted q) = mset (lq_ran q) + mset (lq_ch q) + mset (map worker_task (lq_workers q)) + mset (lq_dropped q)
     \<and> (lq_dropped q \<noteq> [] \<longrightarrow> lq_done q) \<and> (lq_phase q = LoopDrains \<longrightarrow> lq_done q)"

lemma mset_remove_nth: "k < length xs \<Longrightarrow> mset xs = add_mset (xs ! k) (mset (take k xs @ drop (Suc k) xs))"
proof -
  assume "k < length xs"
  then have "mset xs = mset (take k xs @ xs ! k # drop (Suc k) xs)" by (rule arg_cong [OF id_take_nth_drop])
  also have "\<dots> = add_mset (xs ! k) (mset (take k xs @ drop (Suc k) xs))" by simp
  finally show ?thesis .
qed

lemma send_step_inv:
  assumes "lq_inv cap q" and "send_step k c q = Some q'"
  shows "lq_inv cap q'"
proof -
  have k: "k < length (lq_workers q)" using assms(2) by (auto simp: send_step_def split: if_splits)
  then have rm: "mset (map worker_task (lq_workers q))
      = add_mset (worker_task (lq_workers q ! k)) (mset (map worker_task (take k (lq_workers q) @ drop (Suc k) (lq_workers q))))"
    using mset_remove_nth [of k "map worker_task (lq_workers q)"] by (simp add: take_map drop_map)
  have up: "mset (map worker_task ((lq_workers q)[k := Selecting t])) = mset (map worker_task (lq_workers q))" if "lq_workers q ! k = Sending t" for t
    using k that by (metis list_update_id map_update nth_map worker_task.simps)
  let ?rest = "take k (lq_workers q) @ drop (Suc k) (lq_workers q)"
  show ?thesis
  proof (cases "lq_workers q ! k")
    case (Sending t)
    then consider "lq_done q" "q' = q\<lparr>lq_workers := ?rest, lq_dropped := lq_dropped q @ [t]\<rparr>"
      | "q' = q\<lparr>lq_workers := (lq_workers q)[k := Selecting t]\<rparr>"
      using assms(2) k by (auto simp: send_step_def Let_def split: if_splits)
    then show ?thesis
    proof cases
      case 1
      with assms(1) rm Sending show ?thesis by (simp add: lq_inv_def)
    next
      case 2
      with assms(1) up [OF Sending] show ?thesis by (simp add: lq_inv_def del: map_update)
    qed
  next
    case (Selecting t)
    then consider "length (lq_ch q) < lq_cap q" "q' = q\<lparr>lq_workers := ?rest, lq_ch := lq_ch q @ [t]\<rparr>"
      | "lq_done q" "q' = q\<lparr>lq_workers := ?rest, lq_dropped := lq_dropped q @ [t]\<rparr>"
      using assms(2) k by (auto simp: send_step_def Let_def split: if_splits)
    then show ?thesis using assms(1) rm Selecting by cases (simp_all add: lq_inv_def)
  qed
qed

lemma lq_act_inv:
  assumes "lq_inv cap q" and "lq_act x q = Some q'"
  shows "lq_inv cap q'"
proof (cases x)
  case (QWrite takes t)
  then show ?thesis using assms by (auto simp: lq_defs lq_inv_def split: if_splits)
next
  case (QExecute takes r)
  then show ?thesis using assms by (auto simp: lq_defs lq_inv_def split: if_splits option.splits)
next
  case (QSend k c)
  then show ?thesis using assms send_step_inv by simp
next
  case (QRun e x')
  then show ?thesis using assms by (auto simp: run_step_def lq_inv_def Let_def split: if_splits list.splits)
next
  case (QDrain l)
  then show ?thesis using assms by (auto simp: drain_step_def lq_inv_def Let_def split: if_splits list.splits)
next
  case QStop
  then show ?thesis using assms by (auto simp: lq_inv_def)
next
  case QMark
  then show ?thesis using assms by (auto simp: mark_shutdown_def lq_inv_def split: if_splits)
qed

lemma lq_reachable_inv: "lq_reachable cap q \<Longrightarrow> lq_inv cap q"
proof (induction rule: lq_reachable.induct)
  case lq_start
  then show ?case by (simp add: lq_inv_def new_queue_def)
qed (rule lq_act_inv)

text \<open>C39: Whatever the order of callers, workers, the loop and the shutdown, every task whose submission returned no error is in exactly one
  place: it was run, once, waits in the channel or with a worker, or was given up; none is given up before the engine is
  stopped, and the channel never holds more than its capacity.\<close>

theorem loop_tasks_accounted:
  assumes "lq_reachable cap q"
  shows "mset (lq_accepted q) = mset (lq_ran q) + mset (lq_ch q) + mset (map worker_task (lq_workers q)) + mset (lq_dropped q)
    \<and> (lq_dropped q \<noteq> [] \<longrightarrow> lq_done q) \<and> length (lq_ch q) \<le> cap"
  using lq_reachable_inv [OF assms] by (simp add: lq_inv_def)

definition swap_run :: "lq_action list" where
  "swap_run = [QWrite True 1, QWrite True 2, QRun True False, QWrite True 3, QSend 0 True, QRun True False, QSend 0 True]"

definition swap_queue :: loop_queue where
  "swap_queue = (new_queue 1)\<lparr>lq_ch := [2], lq_accepted := [1, 2, 3], lq_ran := [1, 3]\<rparr>"

lemma swap_queue_run: "lq_run swap_run (new_queue 1) = Some swap_queue"
  by (simp add: swap_run_def swap_queue_def new_queue_def lq_defs Let_def)

theorem loop_tasks_accounted_witness:
  "lq_reachable 1 swap_queue \<and> lq_ran swap_queue = [1, 3]
    \<and> mset (lq_accepted swap_queue) = mset (lq_ran swap_queue) + mset (lq_ch swap_queue) + mset (map worker_task (lq_workers swap_queue)) + mset (lq_dropped swap_queue)
    \<and> length (lq_ch swap_queue) \<le> 1"
proof -
  have r: "lq_reachable 1 swap_queue" by (rule lq_run_reachable [OF lq_start swap_queue_run])
  show ?thesis using r loop_tasks_accounted [OF r] by (intro conjI) (simp_all add: swap_queue_def)
qed

section \<open>The order of writes\<close>


text \<open>As long as the channel has a place for every write, no worker is involved and the writes are run in their order.\<close>

definition fast_path :: "loop_queue \<Rightarrow> bool" where
  "fast_path q \<longleftrightarrow> lq_accepted q = lq_ran q @ lq_ch q \<and> lq_workers q = [] \<and> lq_dropped q = []"

lemma fast_path_in_order:
  assumes "fast_path q" and "lq_act x q = Some q'" and "case x of QWrite takes t \<Rightarrow> length (lq_ch q) < lq_cap q | QRun e y \<Rightarrow> True | QDrain late \<Rightarrow> \<not> late | QStop \<Rightarrow> True | QMark \<Rightarrow> True | _ \<Rightarrow> False"
  shows "fast_path q'"
  using assms by (cases x) (auto simp: fast_path_def lq_defs Let_def split: if_splits list.splits)

text \<open>After the loop has ended nothing runs any more: a write that still finds a place in the channel is accepted for good.\<close>

lemma exited_runs_nothing: "lq_phase q = LoopExited \<Longrightarrow> lq_act x q = Some q' \<Longrightarrow> lq_phase q' = LoopExited \<and> lq_ran q' = lq_ran q"
  by (cases x) (auto simp: lq_defs Let_def split: if_splits option.splits send_worker.splits)

lemma write_after_exit_accepted:
  "lq_phase q = LoopExited \<Longrightarrow> length (lq_ch q) < lq_cap q \<Longrightarrow> fst (AsyncWrite takes t q) = None \<and> lq_phase (snd (AsyncWrite takes t q)) = LoopExited"
  by (simp add: lq_defs)

end
